(* ===== verification/Prelude.thy ===== *)
theory Prelude
  imports Main "HOL-Library.Char_ord" "HOL-Library.List_Lexorder" "HOL-Library.Product_Lexorder"
begin

text \<open>
  What every component of the development shares: Rust's \<open>Result\<close> as a sum type with its
  combinators (the operator \<open>?\<close>, \<open>map_err\<close>, \<open>ok_or\<close>, \<open>try_for_each\<close>,
  \<open>collect::<Result<_, _>>\<close>), the ordered containers \<open>BTreeMap\<close> and \<open>BTreeSet\<close> of the
  standard library as key-sorted lists, the interface of a keyed store as a locale, and the
  byte-level tests on strings the sources use.

  A Rust \<open>String\<close> is its UTF-8 bytes: a HOL \<open>string\<close> is a list of 8-bit characters, \<open>length\<close>
  is Rust's \<open>len()\<close>, and every test that looks at ASCII characters only gives the same answer
  on the bytes as on the decoded characters (no byte of a multi-byte character is ASCII).
\<close>

named_theorems result_simps \<open>rewriting of the result combinators\<close>
named_theorems result_split \<open>elimination of the result combinators\<close>

section \<open>Results\<close>

type_synonym ('e, 'a) result = "'e + 'a"

abbreviation Ok :: "'a \<Rightarrow> ('e, 'a) result" where "Ok \<equiv> Inr"
abbreviation Err :: "'e \<Rightarrow> ('e, 'a) result" where "Err \<equiv> Inl"

definition is_ok :: "('e, 'a) result \<Rightarrow> bool" where
  "is_ok r = (case r of Inl _ \<Rightarrow> False | Inr _ \<Rightarrow> True)"

text \<open>The operator \<open>?\<close>: stop at an error, go on with the value.\<close>

definition try_then :: "('e, 'a) result \<Rightarrow> ('a \<Rightarrow> ('e, 'b) result) \<Rightarrow> ('e, 'b) result" where
  "try_then r k = (case r of Inl e \<Rightarrow> Inl e | Inr x \<Rightarrow> k x)"

definition map_err :: "('e \<Rightarrow> 'f) \<Rightarrow> ('e, 'a) result \<Rightarrow> ('f, 'a) result" where
  "map_err f r = (case r of Inl e \<Rightarrow> Inl (f e) | Inr x \<Rightarrow> Inr x)"

definition ok_or :: "'e \<Rightarrow> 'a option \<Rightarrow> ('e, 'a) result" where
  "ok_or e x = (case x of None \<Rightarrow> Inl e | Some a \<Rightarrow> Inr a)"

definition guard :: "bool \<Rightarrow> 'e \<Rightarrow> ('e, unit) result" where
  "guard b e = (if b then Inr () else Inl e)"

text \<open>\<open>collect::<Result<Vec<_>, _>>\<close>: left to right, the first error wins.\<close>

fun traverse :: "('a \<Rightarrow> ('e, 'b) result) \<Rightarrow> 'a list \<Rightarrow> ('e, 'b list) result" where
  "traverse f [] = Inr []"
| "traverse f (x # xs) = try_then (f x) (\<lambda>y. try_then (traverse f xs) (\<lambda>ys. Inr (y # ys)))"

text \<open>\<open>try_for_each\<close>, and a \<open>for\<close> loop whose body can only fail.\<close>

fun for_each :: "('a \<Rightarrow> ('e, unit) result) \<Rightarrow> 'a list \<Rightarrow> ('e, unit) result" where
  "for_each f [] = Inr ()"
| "for_each f (x # xs) = try_then (f x) (\<lambda>_. for_each f xs)"

text \<open>A \<open>for\<close> loop that threads a state and can fail.\<close>

fun fold_try :: "('s \<Rightarrow> 'a \<Rightarrow> ('e, 's) result) \<Rightarrow> 's \<Rightarrow> 'a list \<Rightarrow> ('e, 's) result" where
  "fold_try f s [] = Inr s"
| "fold_try f s (x # xs) = try_then (f s x) (\<lambda>t. fold_try f t xs)"

text \<open>The same, where each round also yields a value.\<close>

fun thread :: "('s \<Rightarrow> 'a \<Rightarrow> ('e, 's \<times> 'b) result) \<Rightarrow> 's \<Rightarrow> 'a list \<Rightarrow> ('e, 's \<times> 'b list) result" where
  "thread f s [] = Inr (s, [])"
| "thread f s (x # xs) =
     try_then (f s x) (\<lambda>(t, y). try_then (thread f t xs) (\<lambda>(u, ys). Inr (u, y # ys)))"

text \<open>\<open>iter().map(..)\<close> where the closure moves a state on and cannot fail.\<close>

fun visit :: "('a \<Rightarrow> 's \<Rightarrow> 'b \<times> 's) \<Rightarrow> 'a list \<Rightarrow> 's \<Rightarrow> 'b list \<times> 's" where
  "visit f [] s = ([], s)"
| "visit f (x # xs) s = (let (y, t) = f x s; (ys, u) = visit f xs t in (y # ys, u))"

lemma try_then_simps [simp, result_simps]:
  "try_then (Inl e) k = Inl e"
  "try_then (Inr x) k = k x"
  by (simp_all add: try_then_def)

lemma map_err_simps [simp, result_simps]:
  "map_err f (Inl e) = Inl (f e)"
  "map_err f (Inr x) = Inr x"
  by (simp_all add: map_err_def)

lemma ok_or_simps [simp, result_simps]:
  "ok_or e None = Inl e"
  "ok_or e (Some x) = Inr x"
  by (simp_all add: ok_or_def)

lemma guard_simps [simp, result_simps]:
  "guard True e = Inr ()"
  "guard False e = Inl e"
  by (simp_all add: guard_def)

lemma is_ok_simps [simp, result_simps]: "is_ok (Inr x)" "\<not> is_ok (Inl e)"
  by (simp_all add: is_ok_def)

lemma is_ok_iff: "is_ok r \<longleftrightarrow> (\<exists>x. r = Inr x)"
  by (cases r) simp_all

lemma try_then_eq_Inr [simp, result_split]:
  "try_then r k = Inr y \<longleftrightarrow> (\<exists>x. r = Inr x \<and> k x = Inr y)"
  by (cases r) simp_all

lemma try_then_eq_Inl:
  "try_then r k = Inl e \<longleftrightarrow> r = Inl e \<or> (\<exists>x. r = Inr x \<and> k x = Inl e)"
  by (cases r) simp_all

lemma map_err_eq_Inr [simp, result_split]: "map_err f r = Inr x \<longleftrightarrow> r = Inr x"
  by (cases r) simp_all

lemma ok_or_eq_Inr [simp, result_split]: "ok_or e x = Inr a \<longleftrightarrow> x = Some a"
  by (cases x) simp_all

lemma guard_eq_Inr [simp, result_split]: "guard b e = Inr u \<longleftrightarrow> b"
  by (cases b) simp_all

lemma try_then_cong [fundef_cong]:
  "r = r' \<Longrightarrow> (\<And>x. r' = Inr x \<Longrightarrow> k x = k' x) \<Longrightarrow> try_then r k = try_then r' k'"
  by (cases r') simp_all

lemma map_err_cong [fundef_cong]:
  "r = r' \<Longrightarrow> (\<And>e. r' = Inl e \<Longrightarrow> f e = f' e) \<Longrightarrow> map_err f r = map_err f' r'"
  by (cases r') simp_all

lemma traverse_cong [fundef_cong]:
  "xs = ys \<Longrightarrow> (\<And>x. x \<in> set ys \<Longrightarrow> f x = g x) \<Longrightarrow> traverse f xs = traverse g ys"
  by (induction ys arbitrary: xs) auto

lemma for_each_cong [fundef_cong]:
  "xs = ys \<Longrightarrow> (\<And>x. x \<in> set ys \<Longrightarrow> f x = g x) \<Longrightarrow> for_each f xs = for_each g ys"
  by (induction ys arbitrary: xs) auto

lemma fold_try_cong [fundef_cong]:
  "xs = ys \<Longrightarrow> s = t \<Longrightarrow> (\<And>x u. x \<in> set ys \<Longrightarrow> f u x = g u x) \<Longrightarrow> fold_try f s xs = fold_try g t ys"
proof (induction ys arbitrary: xs s t)
  case (Cons y ys)
  then have "f t y = g t y" "\<And>u. fold_try f u ys = fold_try g u ys" by auto
  then show ?case using Cons.prems by (auto intro: try_then_cong)
qed simp

lemma for_each_eq_Inr [simp, result_split]:
  "for_each f xs = Inr u \<longleftrightarrow> (\<forall>x \<in> set xs. f x = Inr ())"
  by (induction xs) auto

lemma traverse_eq_Inr [result_split]:
  "traverse f xs = Inr ys \<longleftrightarrow> list_all2 (\<lambda>x y. f x = Inr y) xs ys"
proof (induction xs arbitrary: ys)
  case (Cons x xs)
  show ?case by (cases ys) (auto simp: Cons.IH)
qed auto

lemma traverse_length: "traverse f xs = Inr ys \<Longrightarrow> length ys = length xs"
  by (simp add: traverse_eq_Inr list_all2_lengthD)

lemma traverse_in:
  assumes "traverse f xs = Inr ys" and "y \<in> set ys"
  shows "\<exists>x \<in> set xs. f x = Inr y"
  using assms by (auto simp: traverse_eq_Inr list_all2_conv_all_nth in_set_conv_nth) (metis nth_mem)

lemma traverse_is_ok: "is_ok (traverse f xs) \<longleftrightarrow> (\<forall>x \<in> set xs. is_ok (f x))"
  by (induction xs) (auto simp: is_ok_iff)

lemma fold_try_invariant:
  assumes "fold_try f s xs = Inr t" and "I s"
    and "\<And>u x v. x \<in> set xs \<Longrightarrow> I u \<Longrightarrow> f u x = Inr v \<Longrightarrow> I v"
  shows "I t"
  using assms
proof (induction xs arbitrary: s)
  case (Cons x xs)
  from Cons.prems(1) obtain u where u: "f s x = Inr u" and rest: "fold_try f u xs = Inr t" by auto
  have "I u" using Cons.prems(2,3) u by auto
  then show ?case using Cons.IH [OF rest] Cons.prems(3) by auto
qed simp

lemma fold_try_append:
  "fold_try f s (xs @ ys) = try_then (fold_try f s xs) (\<lambda>t. fold_try f t ys)"
proof (induction xs arbitrary: s)
  case (Cons x xs)
  show ?case by (cases "f s x") (simp_all add: Cons.IH)
qed simp

lemma thread_cong [fundef_cong]:
  "xs = ys \<Longrightarrow> s = t \<Longrightarrow> (\<And>x u. x \<in> set ys \<Longrightarrow> f u x = g u x) \<Longrightarrow> thread f s xs = thread g t ys"
proof (induction ys arbitrary: xs s t)
  case (Cons y ys)
  then have "f t y = g t y" "\<And>u. thread f u ys = thread g u ys" by auto
  then show ?case using Cons.prems by (auto intro: try_then_cong)
qed simp

lemma visit_cong [fundef_cong]:
  "xs = ys \<Longrightarrow> s = t \<Longrightarrow> (\<And>x u. x \<in> set ys \<Longrightarrow> f x u = g x u) \<Longrightarrow> visit f xs s = visit g ys t"
  by (induction ys arbitrary: xs s t) (auto simp: Let_def split: prod.splits)

lemma visit_all:
  assumes "\<And>x u. x \<in> set xs \<Longrightarrow> P x (fst (f x u))"
  shows "list_all2 P xs (fst (visit f xs s))"
  using assms by (induction xs arbitrary: s) (auto simp: Let_def case_prod_beta)

lemma visit_length [simp]: "length (fst (visit f xs s)) = length xs"
  by (induction xs arbitrary: s) (auto simp: Let_def case_prod_beta)

lemma visit_Nil_iff [simp]: "fst (visit f xs s) = [] \<longleftrightarrow> xs = []"
  by (metis length_0_conv visit_length)

lemma visit_count:
  assumes "\<And>x u. x \<in> set xs \<Longrightarrow> snd (f x u) = u + g x"
  shows "snd (visit f xs s) = s + sum_list (map g xs :: nat list)"
  using assms by (induction xs arbitrary: s) (auto simp: Let_def case_prod_beta)

lemma thread_length: "thread f s xs = Inr (t, ys) \<Longrightarrow> length ys = length xs"
  by (induction xs arbitrary: s ys) auto

text \<open>
  What holds of every round, and what only grows, holds of the whole loop: \<open>R s t\<close> relates a
  state to a later one, \<open>P x t y\<close> a round's input, a later state and its output.
\<close>

lemma thread_relates:
  assumes run: "thread f s xs = Inr (t, ys)" and refl: "\<And>u. R u u"
    and trans: "\<And>u v w. R u v \<Longrightarrow> R v w \<Longrightarrow> R u w"
    and one: "\<And>u x v y. x \<in> set xs \<Longrightarrow> f u x = Inr (v, y) \<Longrightarrow> R u v \<and> P x v y"
    and mono: "\<And>x u v y. P x u y \<Longrightarrow> R u v \<Longrightarrow> P x v y"
  shows "R s t \<and> list_all2 (\<lambda>x y. P x t y) xs ys"
  using run one
proof (induction xs arbitrary: s ys)
  case (Cons x xs)
  then obtain u y zs where f: "f s x = Inr (u, y)" and r: "thread f u xs = Inr (t, zs)" and ys: "ys = y # zs"
    by auto
  have "R u t \<and> list_all2 (\<lambda>x y. P x t y) xs zs" using Cons.IH [OF r] Cons.prems(2) by auto
  moreover have "R s u \<and> P x u y" using Cons.prems(2) f by auto
  ultimately show ?case using trans mono ys by auto
qed (simp add: refl)

text \<open>The same with an invariant of the state that a round may rely on.\<close>

lemma thread_invariant:
  assumes "thread f s xs = Inr (t, ys)" and "I s"
    and "\<And>u x v y. x \<in> set xs \<Longrightarrow> I u \<Longrightarrow> f u x = Inr (v, y) \<Longrightarrow> I v \<and> Q x y"
  shows "I t \<and> list_all2 Q xs ys"
  using assms
proof (induction xs arbitrary: s ys)
  case (Cons x xs)
  then obtain u y zs where f: "f s x = Inr (u, y)" and r: "thread f u xs = Inr (t, zs)" and ys: "ys = y # zs"
    by auto
  have "I u \<and> Q x y" using Cons.prems(2,3) f by auto
  then show ?case using Cons.IH [OF r] Cons.prems(3) ys by auto
qed simp

lemma find_None_all: "find P xs = None \<longleftrightarrow> (\<forall>x \<in> set xs. \<not> P x)"
  by (auto simp: find_None_iff)

lemma find_Some_in: "find P xs = Some x \<Longrightarrow> x \<in> set xs \<and> P x"
  by (induction xs) (auto split: if_splits)

section \<open>Ordered maps and sets\<close>

text \<open>
  A \<open>BTreeMap\<close> is the list of its entries in key order (its iteration order); a \<open>BTreeSet\<close>
  the sorted list of its elements. \<open>bt_wf\<close> is the invariant every operation keeps.
\<close>

type_synonym ('k, 'v) btree = "('k \<times> 'v) list"

definition bt_wf :: "('k::linorder, 'v) btree \<Rightarrow> bool" where
  "bt_wf m = sorted_wrt (<) (map fst m)"

definition bt_keys :: "('k, 'v) btree \<Rightarrow> 'k list" where
  "bt_keys m = map fst m"

definition bt_contains :: "('k, 'v) btree \<Rightarrow> 'k \<Rightarrow> bool" where
  "bt_contains m k = (map_of m k \<noteq> None)"

fun bt_insert :: "'k::linorder \<Rightarrow> 'v \<Rightarrow> ('k, 'v) btree \<Rightarrow> ('k, 'v) btree" where
  "bt_insert k v [] = [(k, v)]"
| "bt_insert k v (e # m) =
     (if k < fst e then (k, v) # e # m
      else if k = fst e then (k, v) # m
      else e # bt_insert k v m)"

definition bt_remove :: "'k \<Rightarrow> ('k, 'v) btree \<Rightarrow> ('k, 'v) btree" where
  "bt_remove k m = filter (\<lambda>e. fst e \<noteq> k) m"

text \<open>\<open>entry(k).or_insert(v)\<close>: keep what is there.\<close>

definition bt_or_insert :: "'k::linorder \<Rightarrow> 'v \<Rightarrow> ('k, 'v) btree \<Rightarrow> ('k, 'v) btree" where
  "bt_or_insert k v m = (case map_of m k of None \<Rightarrow> bt_insert k v m | Some _ \<Rightarrow> m)"

lemma map_of_bt_insert [simp]: "map_of (bt_insert k v m) = (map_of m)(k \<mapsto> v)"
  by (induction k v m rule: bt_insert.induct) (auto simp: fun_eq_iff)

lemma map_of_bt_remove [simp]: "map_of (bt_remove k m) = (map_of m)(k := None)"
  unfolding bt_remove_def by (induction m) (auto simp: fun_eq_iff)

lemma map_of_bt_or_insert [simp]:
  "map_of (bt_or_insert k v m) = (case map_of m k of None \<Rightarrow> (map_of m)(k \<mapsto> v) | Some _ \<Rightarrow> map_of m)"
  by (simp add: bt_or_insert_def split: option.split)

lemma fst_set_bt_insert [simp]: "fst ` set (bt_insert k v m) = insert k (fst ` set m)"
  by (induction k v m rule: bt_insert.induct) auto

lemma bt_wf_Nil [simp]: "bt_wf []"
  by (simp add: bt_wf_def)

lemma bt_wf_insert [simp, intro]: "bt_wf m \<Longrightarrow> bt_wf (bt_insert k v m)"
proof (induction k v m rule: bt_insert.induct)
  case (2 k v e m)
  have keys: "\<And>x. x \<in> set (bt_insert k v m) \<Longrightarrow> fst x \<in> insert k (fst ` set m)"
    using fst_set_bt_insert [of k v m] by blast
  show ?case
    using 2 by (auto simp: bt_wf_def dest: keys)
qed (simp add: bt_wf_def)

lemma bt_wf_remove [simp, intro]: "bt_wf m \<Longrightarrow> bt_wf (bt_remove k m)"
  unfolding bt_wf_def bt_remove_def by (induction m) auto

lemma bt_wf_or_insert [simp, intro]: "bt_wf m \<Longrightarrow> bt_wf (bt_or_insert k v m)"
  by (simp add: bt_or_insert_def split: option.split)

lemma bt_wf_distinct: "bt_wf m \<Longrightarrow> distinct (map fst m)"
  unfolding bt_wf_def by (simp add: strict_sorted_iff)

lemma bt_contains_iff: "bt_contains m k \<longleftrightarrow> k \<in> fst ` set m"
  by (simp add: bt_contains_def map_of_eq_None_iff)

lemma bt_entries_by_key:
  assumes "distinct (map fst m)"
  shows "map (\<lambda>k. (k, the (map_of m k))) (map fst m) = m"
proof -
  have "map_of m (fst e) = Some (snd e)" if "e \<in> set m" for e
    using that assms by simp
  then show ?thesis unfolding map_map comp_def by (intro map_idI) simp
qed

text \<open>Two well-formed trees with the same lookups are the same tree.\<close>

lemma bt_wf_ext:
  assumes "bt_wf m" "bt_wf n" "map_of m = map_of n"
  shows "m = n"
proof -
  have "set (map fst m) = set (map fst n)"
    using assms(3) by (metis dom_map_of_conv_image_fst list.set_map)
  then have "map fst m = map fst n"
    using assms(1,2) unfolding bt_wf_def by (metis strict_sorted_equal)
  then show ?thesis
    using assms bt_entries_by_key bt_wf_distinct by metis
qed

text \<open>A \<open>BTreeSet\<close>: insertion keeps the list sorted and free of duplicates.\<close>

definition bs_insert :: "'k::linorder \<Rightarrow> 'k list \<Rightarrow> 'k list" where
  "bs_insert k s = map fst (bt_insert k () (map (\<lambda>x. (x, ())) s))"

lemma set_bs_insert [simp]: "set (bs_insert k s) = insert k (set s)"
proof -
  have "set (bs_insert k s) = fst ` set (bt_insert k () (map (\<lambda>x. (x, ())) s))"
    by (simp add: bs_insert_def)
  then show ?thesis by (simp add: image_image)
qed

lemma sorted_bs_insert [simp, intro]:
  assumes "sorted_wrt (<) s" shows "sorted_wrt (<) (bs_insert k s)"
proof -
  have "bt_wf (map (\<lambda>x. (x, ())) s)" using assms by (simp add: bt_wf_def comp_def)
  then have "bt_wf (bt_insert k () (map (\<lambda>x. (x, ())) s))" by (rule bt_wf_insert)
  then show ?thesis by (simp add: bs_insert_def bt_wf_def)
qed

section \<open>The interface of a keyed store\<close>

text \<open>
  What the clients of a map rely on: a lookup sees the last write, and a removal. The
  laws of whole sequences of writes are proved once here.
\<close>

locale keyed_store =
  fixes empty :: "'m"
    and put :: "'k \<Rightarrow> 'v \<Rightarrow> 'm \<Rightarrow> 'm"
    and del :: "'k \<Rightarrow> 'm \<Rightarrow> 'm"
    and look :: "'m \<Rightarrow> 'k \<Rightarrow> 'v option"
    and wf :: "'m \<Rightarrow> bool"
  assumes look_empty: "look empty k = None"
    and look_put: "wf m \<Longrightarrow> look (put k v m) j = (if j = k then Some v else look m j)"
    and look_del: "wf m \<Longrightarrow> look (del k m) j = (if j = k then None else look m j)"
    and wf_empty: "wf empty"
    and wf_put: "wf m \<Longrightarrow> wf (put k v m)"
    and wf_del: "wf m \<Longrightarrow> wf (del k m)"
begin

lemma wf_puts: "wf m \<Longrightarrow> wf (foldl (\<lambda>n e. put (fst e) (snd e) n) m es)"
  by (induction es arbitrary: m) (auto intro: wf_put)

lemma look_puts:
  "wf m \<Longrightarrow> look (foldl (\<lambda>n e. put (fst e) (snd e) n) m es) k =
     (case map_of (rev es) k of Some v \<Rightarrow> Some v | None \<Rightarrow> look m k)"
proof (induction es arbitrary: m)
  case (Cons e es)
  then show ?case
    by (auto simp: look_put wf_put map_add_def map_of_append split: option.splits)
qed simp

lemma look_del_put: "wf m \<Longrightarrow> look (del k (put k v m)) j = look (del k m) j"
  by (simp add: look_del look_put wf_put)

end

interpretation bt: keyed_store "[] :: ('k::linorder, 'v) btree" bt_insert bt_remove map_of bt_wf
  by unfold_locales auto

section \<open>Hash maps as lists\<close>

definition or_default :: "('k \<rightharpoonup> 'm) \<Rightarrow> 'm \<Rightarrow> 'k \<Rightarrow> 'm" where
  "or_default m d k = (case m k of Some x \<Rightarrow> x | None \<Rightarrow> d)"

text \<open>Insertion in a hash map kept as a list: replace in place, or add at the end.\<close>

fun hm_insert :: "'k \<Rightarrow> 'v \<Rightarrow> ('k \<times> 'v) list \<Rightarrow> ('k \<times> 'v) list" where
  "hm_insert k v [] = [(k, v)]"
| "hm_insert k v ((j, w) # m) = (if j = k then (k, v) # m else (j, w) # hm_insert k v m)"

lemma map_of_hm_insert [simp]: "map_of (hm_insert k v m) = (map_of m)(k \<mapsto> v)"
  by (induction k v m rule: hm_insert.induct) auto

lemma hm_insert_keys: "fst ` set (hm_insert k v m) = insert k (fst ` set m)"
  by (induction k v m rule: hm_insert.induct) auto

lemma distinct_hm_insert: "distinct (map fst m) \<Longrightarrow> distinct (map fst (hm_insert k v m))"
proof (induction k v m rule: hm_insert.induct)
  case (2 k v j w m)
  then show ?case using hm_insert_keys [of k v m] by auto
qed simp

lemma set_hm_insert: "set (hm_insert k v m) \<subseteq> insert (k, v) (set m)"
  by (induction k v m rule: hm_insert.induct) auto

section \<open>Bytes of a string\<close>

definition char_code :: "char \<Rightarrow> nat" where
  "char_code c = of_char c"

definition is_ascii_digit :: "char \<Rightarrow> bool" where
  "is_ascii_digit c = (48 \<le> char_code c \<and> char_code c \<le> 57)"

definition is_ascii_alphabetic :: "char \<Rightarrow> bool" where
  "is_ascii_alphabetic c =
     ((65 \<le> char_code c \<and> char_code c \<le> 90) \<or> (97 \<le> char_code c \<and> char_code c \<le> 122))"

definition is_ascii_alphanumeric :: "char \<Rightarrow> bool" where
  "is_ascii_alphanumeric c = (is_ascii_alphabetic c \<or> is_ascii_digit c)"

fun starts_with :: "string \<Rightarrow> string \<Rightarrow> bool" where
  "starts_with [] s = True"
| "starts_with (p # ps) [] = False"
| "starts_with (p # ps) (c # cs) = (p = c \<and> starts_with ps cs)"

definition ends_with :: "string \<Rightarrow> string \<Rightarrow> bool" where
  "ends_with p s = starts_with (rev p) (rev s)"

fun str_contains :: "string \<Rightarrow> string \<Rightarrow> bool" where
  "str_contains p [] = (p = [])"
| "str_contains p (c # cs) = (starts_with p (c # cs) \<or> str_contains p cs)"

lemma starts_with_iff: "starts_with p s \<longleftrightarrow> (\<exists>r. s = p @ r)"
  by (induction p s rule: starts_with.induct) auto

lemma ends_with_iff: "ends_with p s \<longleftrightarrow> (\<exists>r. s = r @ p)"
proof -
  have "(\<exists>r. rev s = rev p @ r) \<longleftrightarrow> (\<exists>r. s = r @ p)"
    by (metis rev_append rev_rev_ident)
  then show ?thesis by (simp add: ends_with_def starts_with_iff)
qed

lemma append_eq_Cons_split:
  "(\<exists>a b. c # cs = a @ p @ b) \<longleftrightarrow> (\<exists>b. c # cs = p @ b) \<or> (\<exists>a b. cs = a @ p @ b)"
  (is "?l \<longleftrightarrow> ?r")
proof
  assume ?l
  then obtain a b where "c # cs = a @ p @ b" by blast
  then show ?r by (cases a) auto
next
  assume ?r
  then show ?l by (metis append_Cons append_Nil)
qed

lemma str_contains_iff: "str_contains p s \<longleftrightarrow> (\<exists>a b. s = a @ p @ b)"
  by (induction s) (simp_all add: starts_with_iff append_eq_Cons_split)

end
