(* ===== verification/Ir_Value.thy ===== *)
theory Ir_Value
  imports Prelude "HOL-Library.Word"
begin

text \<open>
  \<open>ir/src/value.rs\<close>: the values that cross the dialects, the declared type of a field, the
  validation of a payload type and the normalisation of a JSON value to its declared type.

  JSON itself is serde's: its values are a type variable \<open>'j\<close>, and the accessors the source
  calls (\<open>is_null\<close>, \<open>as_object\<close>, \<open>as_array\<close>, \<open>as_i64\<close>, \<open>as_f64\<close>, \<open>as_bool\<close>, \<open>as_str\<close>,
  \<open>to_string\<close>) are the fields of a record \<open>json_api\<close> every definition takes. An \<open>i64\<close> is an
  \<open>int\<close> (no arithmetic is done on it), an \<open>f64\<close> its 64 bits.
\<close>

section \<open>Values and types\<close>

type_synonym f64 = "64 word"
type_synonym byte = "8 word"

datatype field_type =
    FString | FText | FInt64 | FInteger | FDouble | FNumber | FBoolean | FTimestamp
  | FJson | FTags | FChoice
  | FList field_type
  | FStruct "(string \<times> field_type) list"

definition default_field_type :: field_type where
  "default_field_type = FString"

datatype ir_value =
    VNull
  | VBool bool
  | VInt int
  | VFloat f64
  | VString string
  | VList "ir_value list"
  | VMap "(string \<times> ir_value) list"
  | VBlob "byte list"
  | VTyped ir_value field_type

record query_param =
  qp_name :: string
  qp_value :: ir_value

definition is_null :: "ir_value \<Rightarrow> bool" where
  "is_null v = (v = VNull)"

fun as_str :: "ir_value \<Rightarrow> string option" where
  "as_str (VString s) = Some s"
| "as_str _ = None"

fun as_i64 :: "ir_value \<Rightarrow> int option" where
  "as_i64 (VInt n) = Some n"
| "as_i64 _ = None"

text \<open>\<open>*n as f64\<close> rounds to the nearest double; the conversion is the processor's.\<close>

fun as_f64 :: "(int \<Rightarrow> f64) \<Rightarrow> ir_value \<Rightarrow> f64 option" where
  "as_f64 i64_to_f64 (VFloat f) = Some f"
| "as_f64 i64_to_f64 (VInt n) = Some (i64_to_f64 n)"
| "as_f64 i64_to_f64 _ = None"

fun as_bool :: "ir_value \<Rightarrow> bool option" where
  "as_bool (VBool b) = Some b"
| "as_bool _ = None"

fun as_blob :: "ir_value \<Rightarrow> byte list option" where
  "as_blob (VBlob b) = Some b"
| "as_blob _ = None"

section \<open>Identifiers\<close>

fun is_valid_identifier :: "string \<Rightarrow> bool" where
  "is_valid_identifier [] = False"
| "is_valid_identifier (c # cs) =
     ((is_ascii_alphabetic c \<or> c = CHR ''_'')
      \<and> list_all (\<lambda>d. is_ascii_alphanumeric d \<or> d = CHR ''_'') cs)"

section \<open>Payload types\<close>

datatype type_error =
    NestingExceeds32
  | EmptyStruct
  | InvalidStructField string

lemma field_size [termination_simp]:
  "e \<in> set fs \<Longrightarrow> size (snd e) < Suc (size_list (size_prod (\<lambda>_. 0) size) fs)"
  by (induction fs) auto

fun validate_payload_type :: "field_type \<Rightarrow> nat \<Rightarrow> (type_error, unit) result" where
  "validate_payload_type ty depth =
     (if depth > 32 then Err NestingExceeds32
      else case ty of
        FList item \<Rightarrow> validate_payload_type item (depth + 1)
      | FStruct fs \<Rightarrow>
          if fs = [] then Err EmptyStruct
          else for_each (\<lambda>e. if \<not> is_valid_identifier (fst e) then Err (InvalidStructField (fst e))
                             else validate_payload_type (snd e) (depth + 1)) fs
      | _ \<Rightarrow> Ok ())"

declare validate_payload_type.simps [simp del]

text \<open>Specification: the nesting of a type, and the shape a struct must have at every level.\<close>

fun nesting :: "field_type \<Rightarrow> nat" where
  "nesting (FList t) = Suc (nesting t)"
| "nesting (FStruct fs) = Suc (foldr (\<lambda>e m. max (nesting (snd e)) m) fs 0)"
| "nesting _ = 0"

fun struct_ok :: "field_type \<Rightarrow> bool" where
  "struct_ok (FList t) = struct_ok t"
| "struct_ok (FStruct fs) = (fs \<noteq> [] \<and> (\<forall>e \<in> set fs. is_valid_identifier (fst e) \<and> struct_ok (snd e)))"
| "struct_ok _ = True"

lemma foldr_max_le: "foldr (\<lambda>e m. max (f e) m) xs 0 \<le> (n::nat) \<longleftrightarrow> (\<forall>e \<in> set xs. f e \<le> n)"
  by (induction xs) auto

lemma validate_payload_type_iff:
  "validate_payload_type ty d = Inr () \<longleftrightarrow> struct_ok ty \<and> d + nesting ty \<le> 32"
proof (induction ty d rule: validate_payload_type.induct)
  case (1 ty d)
  show ?case
  proof (cases "d > 32")
    case True
    then show ?thesis by (simp add: validate_payload_type.simps [of ty d])
  next
    case False
    show ?thesis
    proof (cases ty)
      case (FStruct fs)
      have one: "is_valid_identifier (fst e) \<Longrightarrow> validate_payload_type (snd e) (d + 1) = Inr () \<longleftrightarrow>
          struct_ok (snd e) \<and> d + 1 + nesting (snd e) \<le> 32" if "e \<in> set fs" "fs \<noteq> []" for e
        using 1(2) [OF False FStruct] that by auto
      have le: "d + nesting (FStruct fs) \<le> 32 \<longleftrightarrow> (\<forall>e \<in> set fs. d + 1 + nesting (snd e) \<le> 32)"
        if "fs \<noteq> []"
      proof -
        have "d + nesting (FStruct fs) \<le> 32 \<longleftrightarrow>
            foldr (\<lambda>e m. max (nesting (snd e)) m) fs 0 \<le> 31 - d \<and> d \<le> 31"
          by auto
        also have "\<dots> \<longleftrightarrow> (\<forall>e \<in> set fs. nesting (snd e) \<le> 31 - d) \<and> d \<le> 31"
          by (simp add: foldr_max_le)
        also have "\<dots> \<longleftrightarrow> (\<forall>e \<in> set fs. d + 1 + nesting (snd e) \<le> 32)"
          using that by (cases fs) auto
        finally show ?thesis .
      qed
      show ?thesis unfolding FStruct using False one le
        by (cases "fs = []") (auto simp: validate_payload_type.simps [of "FStruct gs" d for gs])
    next
      case (FList t)
      then show ?thesis using 1(1) [OF False FList] False
        by (simp add: validate_payload_type.simps [of "FList t" d])
    qed (use False in \<open>simp_all add: validate_payload_type.simps [of t d for t]\<close>)
  qed
qed

section \<open>Normalisation\<close>

text \<open>What the source calls of serde's \<open>Value\<close>.\<close>

record 'j json_api =
  j_is_null :: "'j \<Rightarrow> bool"
  j_as_object :: "'j \<Rightarrow> (string \<times> 'j) list option"
  j_as_array :: "'j \<Rightarrow> 'j list option"
  j_as_i64 :: "'j \<Rightarrow> int option"
  j_as_f64 :: "'j \<Rightarrow> f64 option"
  j_as_bool :: "'j \<Rightarrow> bool option"
  j_as_str :: "'j \<Rightarrow> string option"
  j_null :: "'j"
  j_to_string :: "'j \<Rightarrow> (string, string) result"

datatype norm_error =
    ExpectedObject
  | UndeclaredField string
  | InField string norm_error
  | ExpectedArray
  | ToStringFailed string
  | ExpectedInteger
  | ExpectedNumber
  | ExpectedBoolean
  | ExpectedString

fun normalize :: "'j json_api \<Rightarrow> field_type \<Rightarrow> 'j \<Rightarrow> (norm_error, ir_value) result" where
  "normalize J ty v =
     (if j_is_null J v then Ok VNull
      else case ty of
        FStruct fs \<Rightarrow>
          try_then (ok_or ExpectedObject (j_as_object J v)) (\<lambda>obj.
          case find (\<lambda>k. \<not> bt_contains fs k) (map fst obj) of
            Some k \<Rightarrow> Err (UndeclaredField k)
          | None \<Rightarrow>
              try_then (traverse (\<lambda>e.
                  try_then (map_err (InField (fst e))
                      (normalize J (snd e) (case map_of obj (fst e) of Some w \<Rightarrow> w | None \<Rightarrow> j_null J)))
                    (\<lambda>r. Ok (fst e, r))) fs)
                (\<lambda>m. Ok (VMap m)))
      | FList item \<Rightarrow>
          try_then (ok_or ExpectedArray (j_as_array J v)) (\<lambda>xs.
          try_then (traverse (normalize J item) xs) (\<lambda>ys. Ok (VList ys)))
      | FJson \<Rightarrow> try_then (map_err ToStringFailed (j_to_string J v)) (\<lambda>s. Ok (VString s))
      | FInt64 \<Rightarrow> try_then (ok_or ExpectedInteger (j_as_i64 J v)) (\<lambda>n. Ok (VInt n))
      | FInteger \<Rightarrow> try_then (ok_or ExpectedInteger (j_as_i64 J v)) (\<lambda>n. Ok (VInt n))
      | FDouble \<Rightarrow> try_then (ok_or ExpectedNumber (j_as_f64 J v)) (\<lambda>f. Ok (VFloat f))
      | FNumber \<Rightarrow> try_then (ok_or ExpectedNumber (j_as_f64 J v)) (\<lambda>f. Ok (VFloat f))
      | FBoolean \<Rightarrow> try_then (ok_or ExpectedBoolean (j_as_bool J v)) (\<lambda>b. Ok (VBool b))
      | _ \<Rightarrow> try_then (ok_or ExpectedString (j_as_str J v)) (\<lambda>s. Ok (VString s)))"

declare normalize.simps [simp del]

text \<open>
  \<open>validate_parameter_types\<close>: an explicit type annotation is checked against the value it
  annotates, wherever it stands; \<open>to_json\<close> is serde's serialisation of a value.
\<close>

datatype param_error =
    BadType type_error
  | SerializeFailed string
  | BadValue norm_error

fun validate_parameter_types ::
    "'j json_api \<Rightarrow> (ir_value \<Rightarrow> (string, 'j) result) \<Rightarrow> ir_value \<Rightarrow> (param_error, unit) result" where
  "validate_parameter_types J to_json (VTyped w ty) =
     try_then (map_err BadType (validate_payload_type ty 0)) (\<lambda>_.
     try_then (map_err SerializeFailed (to_json w)) (\<lambda>json.
     try_then (map_err BadValue (normalize J ty json)) (\<lambda>_. Ok ())))"
| "validate_parameter_types J to_json (VList vs) = for_each (validate_parameter_types J to_json) vs"
| "validate_parameter_types J to_json (VMap m) =
     for_each (\<lambda>e. validate_parameter_types J to_json (snd e)) m"
| "validate_parameter_types J to_json _ = Ok ()"

section \<open>Typing of normalised values\<close>

text \<open>Specification: what a value of a declared type looks like once stored.\<close>

fun conforms :: "field_type \<Rightarrow> ir_value \<Rightarrow> bool" where
  "conforms _ VNull = True"
| "conforms (FStruct fs) (VMap m) =
     (map fst m = map fst fs \<and> list_all2 (\<lambda>e x. conforms (snd e) (snd x)) fs m)"
| "conforms (FList t) (VList vs) = list_all (conforms t) vs"
| "conforms FInt64 (VInt _) = True"
| "conforms FInteger (VInt _) = True"
| "conforms FDouble (VFloat _) = True"
| "conforms FNumber (VFloat _) = True"
| "conforms FBoolean (VBool _) = True"
| "conforms FString (VString _) = True"
| "conforms FText (VString _) = True"
| "conforms FTimestamp (VString _) = True"
| "conforms FJson (VString _) = True"
| "conforms FTags (VString _) = True"
| "conforms FChoice (VString _) = True"
| "conforms _ _ = False"


lemma list_all2_traverse_pairs:
  assumes "traverse (\<lambda>e. try_then (f e) (\<lambda>r. Inr (fst e, r))) fs = Inr m"
  shows "map fst m = map fst fs" "list_all2 (\<lambda>e x. f e = Inr (snd x)) fs m"
proof -
  have "list_all2 (\<lambda>e x. f e = Inr (snd x) \<and> fst x = fst e) fs m"
    using assms unfolding traverse_eq_Inr by (rule list_all2_mono) auto
  then show "map fst m = map fst fs" "list_all2 (\<lambda>e x. f e = Inr (snd x)) fs m"
    by (induction) auto
qed

lemma normalize_conforms_aux: "normalize J ty v = Inr r \<Longrightarrow> conforms ty r"
proof (induction J ty v arbitrary: r rule: normalize.induct)
  case (1 J ty v)
  show ?case
  proof (cases "j_is_null J v")
    case True
    then show ?thesis using "1.prems" by (simp add: normalize.simps [of J ty v])
  next
    case nn: False
    show ?thesis
    proof (cases ty)
      case (FStruct fs)
      from "1.prems" nn obtain obj m where obj: "j_as_object J v = Some obj"
        and none: "find (\<lambda>k. \<not> bt_contains fs k) (map fst obj) = None"
        and tr: "traverse (\<lambda>e. try_then (map_err (InField (fst e))
                  (normalize J (snd e) (case map_of obj (fst e) of Some w \<Rightarrow> w | None \<Rightarrow> j_null J)))
                  (\<lambda>r. Inr (fst e, r))) fs = Inr m" and r: "r = VMap m"
        unfolding FStruct
        by (auto simp: normalize.simps [of J "FStruct fs" v] split: option.splits)
      note pairs = list_all2_traverse_pairs [OF tr]
      have "list_all2 (\<lambda>e x. conforms (snd e) (snd x)) fs m"
        using pairs(2)
        by (rule list.rel_mono_strong) (use 1(2) [OF nn FStruct _ none] obj in auto)
      then show ?thesis using FStruct r pairs(1) by simp
    next
      case (FList t)
      from "1.prems" nn obtain xs ys where xs: "j_as_array J v = Some xs"
        and tr: "traverse (normalize J t) xs = Inr ys" and r: "r = VList ys"
        unfolding FList by (auto simp: normalize.simps [of J "FList t" v])
      have "list_all (conforms t) ys"
        using traverse_in [OF tr] 1(1) [OF nn FList] xs by (auto simp: list_all_iff)
      then show ?thesis using FList r by simp
    qed (use "1.prems" nn in \<open>auto simp: normalize.simps [of J t v for t]\<close>)
  qed
qed

section \<open>Properties\<close>

text \<open>
  \<open>validate_payload_type\<close> accepts a declared type exactly when every struct in it has at
  least one field, every field name is an identifier, and the nesting is at most 32.
\<close>

theorem validate_payload_type_exact:
  "validate_payload_type ty 0 = Ok () \<longleftrightarrow> struct_ok ty \<and> nesting ty \<le> 32"
  by (simp add: validate_payload_type_iff)

text \<open>
  C33. What \<open>normalize\<close> returns has the declared type: a struct has exactly its declared fields,
  in their order, each of its own type, a list holds values of its item type, a null is allowed
  anywhere.
\<close>

theorem normalize_typed:
  assumes "normalize J ty v = Ok r"
  shows "conforms ty r"
  using assms by (rule normalize_conforms_aux)

text \<open>A reading of JSON on which the property runs: JSON values given as IR values.\<close>

definition demo_json :: "ir_value json_api" where
  "demo_json = \<lparr>j_is_null = (\<lambda>v. v = VNull),
     j_as_object = (\<lambda>v. case v of VMap m \<Rightarrow> Some m | _ \<Rightarrow> None),
     j_as_array = (\<lambda>v. case v of VList l \<Rightarrow> Some l | _ \<Rightarrow> None),
     j_as_i64 = as_i64, j_as_f64 = (\<lambda>v. case v of VFloat f \<Rightarrow> Some f | _ \<Rightarrow> None),
     j_as_bool = as_bool, j_as_str = as_str, j_null = VNull, j_to_string = (\<lambda>_. Err ''unsupported'')\<rparr>"

theorem normalize_typed_witness:
  "conforms (FStruct [(''n'', FInt64), (''tags'', FList FString), (''note'', FText)])
     (VMap [(''n'', VInt 3), (''tags'', VList [VString ''x'']), (''note'', VNull)])"
proof -
  have "normalize demo_json (FStruct [(''n'', FInt64), (''tags'', FList FString), (''note'', FText)])
      (VMap [(''tags'', VList [VString ''x'']), (''n'', VInt 3)])
      = Ok (VMap [(''n'', VInt 3), (''tags'', VList [VString ''x'']), (''note'', VNull)])"
    by (simp add: normalize.simps demo_json_def bt_contains_def)
  then show ?thesis by (rule normalize_typed)
qed

end
