(* ===== verification/Ir_Form.thy ===== *)
theory Ir_Form
  imports Ir_Value
begin

text \<open>
  \<open>ir/src/form.rs\<close>: the query forms every dialect translates (a hop, a count, a selection, a
  write), the conditions they carry, and the validation each form must pass before any
  translation. \<open>usize\<close> bounds are natural numbers.

  A validation collects the names that enter the text of a query and refuses the first that
  is not an identifier; the lists below keep the order in which the source collects them.
\<close>

section \<open>Data\<close>

datatype direction = Outgoing | Incoming

record edge_exclusion =
  ex_field :: string
  ex_values :: "string list"

datatype predicate =
    Equals string string
  | Contains string string
  | AtLeast string string
  | AnyOf "predicate list"
  | AllOf "predicate list"
  | InList string string
  | StartsWith string string
  | Through string direction string "predicate option"
  | Optional predicate
  | LetRef string
  | Compiled string

record collect =
  co_alias :: string
  co_relation :: string
  co_direction :: direction
  co_end :: string
  co_fields :: "string list"
  co_filter :: "predicate option"

datatype column =
    CNode string
  | CEdge string
  | CNull
  | CLabel
  | CWhole
  | CCollect collect

record aggregate =
  ag_relation :: string
  ag_direction :: direction
  ag_end :: string
  ag_field :: string
  ag_filter :: "predicate option"

datatype order_term = OtField string | OtMax aggregate | OtMin aggregate

datatype order_by =
    ObField string
  | ObMax aggregate
  | ObMin aggregate
  | ObCoalesce "order_term list"

record order_key =
  ok_by :: order_by
  ok_desc :: bool

datatype extremum = ExMax | ExMin

datatype ir_term = TField string | TExtremum extremum aggregate

datatype limit = LimLiteral nat | LimParam string "nat option"
datatype offset = OffLiteral nat | OffParam string

record hop =
  h_start :: "string option"
  h_relation :: string
  h_end :: "string option"
  h_direction :: direction
  h_returns :: "column list"
  h_exclude :: "edge_exclusion option"
  h_filter :: "predicate option"
  h_order_by :: "string list"
  h_limit :: "nat option"

datatype count =
    Rows string
  | Edges string string direction
  | Matching string "predicate option"
  | EdgesMatching string predicate

record select =
  s_table :: string
  s_by_uuids :: bool
  s_filter :: "predicate option"
  s_returns :: "column list"
  s_order_by :: "order_key list"
  s_limit :: "limit option"
  s_offset :: "offset option"

datatype load_target =
    LtNodes string "string list"
  | LtLinks string "string \<times> string" "string list"

datatype ir_write =
    Upsert string "string list"
  | Link string "(string \<times> string) option" "string list"
  | Update string "string list"
  | Mark string "(string \<times> string option) list"
  | Delete string string bool bool
  | Unlink string
  | Load load_target string
  | Detach string string direction predicate

text \<open>The refusals of the validations: one constructor per message, with what it names.\<close>

datatype invalid =
    NotIdentifier string string
  | CollectInHop
  | ConditionNotBound string
  | CollectNoField string
  | EdgeOrLabelInTable
  | LimitUncapped string
  | LimitNotBound string
  | OffsetNotBound string

datatype translate_error =
    Untranslated string string
  | Invalid invalid

section \<open>Order keys\<close>

fun extremum_function :: "extremum \<Rightarrow> string" where
  "extremum_function ExMax = ''max''"
| "extremum_function ExMin = ''min''"

fun order_term_term :: "order_term \<Rightarrow> ir_term" where
  "order_term_term (OtField f) = TField f"
| "order_term_term (OtMax a) = TExtremum ExMax a"
| "order_term_term (OtMin a) = TExtremum ExMin a"

fun terms :: "order_by \<Rightarrow> ir_term list \<times> bool" where
  "terms (ObField f) = ([TField f], False)"
| "terms (ObMax a) = ([TExtremum ExMax a], False)"
| "terms (ObMin a) = ([TExtremum ExMin a], False)"
| "terms (ObCoalesce v) = (map order_term_term v, True)"

definition order_key_field :: "string \<Rightarrow> order_key" where
  "order_key_field f = \<lparr>ok_by = ObField f, ok_desc = False\<rparr>"

fun term_names :: "ir_term \<Rightarrow> string list" where
  "term_names (TField f) = [f]"
| "term_names (TExtremum _ a) = [ag_relation a, ag_end a, ag_field a]"

definition order_key_names :: "order_key \<Rightarrow> string list" where
  "order_key_names k =
     (let (termes, coalesce) = terms (ok_by k)
      in (if coalesce \<and> termes = [] then [''(coalesce vide)''] else []) @ concat (map term_names termes))"

section \<open>Conditions\<close>

text \<open>\<open>find_map\<close>: the first element the function accepts.\<close>

fun find_map :: "('a \<Rightarrow> 'b option) \<Rightarrow> 'a list \<Rightarrow> 'b option" where
  "find_map f [] = None"
| "find_map f (x # xs) = (case f x of Some y \<Rightarrow> Some y | None \<Rightarrow> find_map f xs)"

lemma find_map_cong [fundef_cong]:
  "xs = ys \<Longrightarrow> (\<And>x. x \<in> set ys \<Longrightarrow> f x = g x) \<Longrightarrow> find_map f xs = find_map g ys"
  by (induction ys arbitrary: xs) (auto split: option.splits)

lemma find_map_None: "find_map f xs = None \<longleftrightarrow> (\<forall>x \<in> set xs. f x = None)"
  by (induction xs) (auto split: option.splits)

fun unresolved :: "predicate \<Rightarrow> string option" where
  "unresolved (Optional _) = Some ''optional''"
| "unresolved (LetRef _) = Some ''let''"
| "unresolved (AnyOf v) = find_map unresolved v"
| "unresolved (AllOf v) = find_map unresolved v"
| "unresolved (Through _ _ _ (Some f)) = unresolved f"
| "unresolved _ = None"

text \<open>The parameters a condition reads, as a \<open>BTreeSet\<close> it adds to.\<close>

fun params :: "predicate \<Rightarrow> string list \<Rightarrow> string list" where
  "params (Equals _ p) out = bs_insert p out"
| "params (Contains _ p) out = bs_insert p out"
| "params (AtLeast _ p) out = bs_insert p out"
| "params (InList _ p) out = bs_insert p out"
| "params (StartsWith _ p) out = bs_insert p out"
| "params (Through _ _ _ (Some f)) out = params f out"
| "params (Through _ _ _ None) out = out"
| "params (Optional p) out = params p out"
| "params (AnyOf v) out = fold params v out"
| "params (AllOf v) out = fold params v out"
| "params (LetRef _) out = out"
| "params (Compiled _) out = out"

text \<open>The names a condition puts in the text of a query.\<close>

fun names :: "predicate \<Rightarrow> string list" where
  "names (Equals f p) = [f, p]"
| "names (Contains f p) = [f, p]"
| "names (AtLeast f p) = [f, p]"
| "names (InList f p) = [f, p]"
| "names (StartsWith f p) = [f, p]"
| "names (Through r _ e flt) = r # e # (case flt of Some f \<Rightarrow> names f | None \<Rightarrow> [])"
| "names (Optional p) = names p"
| "names (LetRef _) = []"
| "names (AnyOf v) = (if v = [] then [''(condition vide)''] else concat (map names v))"
| "names (AllOf v) = (if v = [] then [''(condition vide)''] else concat (map names v))"
| "names (Compiled _) = []"

definition opt_names :: "predicate option \<Rightarrow> string list" where
  "opt_names p = (case p of Some q \<Rightarrow> names q | None \<Rightarrow> [])"

definition all_identifiers :: "string \<Rightarrow> string list \<Rightarrow> (translate_error, unit) result" where
  "all_identifiers what noms =
     (case find (\<lambda>n. \<not> is_valid_identifier n) noms of
        Some n \<Rightarrow> Err (Invalid (NotIdentifier what n))
      | None \<Rightarrow> Ok ())"

section \<open>Hops\<close>

fun column_name :: "column \<Rightarrow> string option" where
  "column_name (CNode f) = Some f"
| "column_name (CEdge f) = Some f"
| "column_name _ = None"

fun is_collect :: "column \<Rightarrow> bool" where
  "is_collect (CCollect _) = True"
| "is_collect _ = False"

definition hop_new :: "string \<Rightarrow> string \<Rightarrow> string \<Rightarrow> direction \<Rightarrow> hop" where
  "hop_new start relation endd direction =
     \<lparr>h_start = Some start, h_relation = relation, h_end = Some endd, h_direction = direction,
      h_returns = [CNode ''_uuid''], h_exclude = None, h_filter = None, h_order_by = [], h_limit = None\<rparr>"

definition hop_untyped :: "string \<Rightarrow> direction \<Rightarrow> hop" where
  "hop_untyped relation direction = (hop_new [] relation [] direction)\<lparr>h_start := None, h_end := None\<rparr>"

definition opt_list :: "'a option \<Rightarrow> 'a list" where
  "opt_list x = (case x of Some a \<Rightarrow> [a] | None \<Rightarrow> [])"

definition exclusion_names :: "edge_exclusion option \<Rightarrow> string list" where
  "exclusion_names x =
     (case x of None \<Rightarrow> [] | Some e \<Rightarrow> ex_field e # filter (\<lambda>v. v \<noteq> []) (ex_values e))"

definition hop_names :: "hop \<Rightarrow> string list" where
  "hop_names h =
     h_relation h # opt_list (h_start h) @ opt_list (h_end h)
       @ List.map_filter column_name (h_returns h)
       @ exclusion_names (h_exclude h) @ h_order_by h @ opt_names (h_filter h)"

definition hop_validate :: "hop \<Rightarrow> (translate_error, unit) result" where
  "hop_validate h =
     (if list_ex is_collect (h_returns h) then Err (Invalid CollectInHop)
      else all_identifiers ''saut'' (hop_names h))"

section \<open>Counts\<close>

fun count_names :: "count \<Rightarrow> string list" where
  "count_names (Rows t) = [t]"
| "count_names (Matching t None) = [t]"
| "count_names (Edges s r _) = [s, r]"
| "count_names (Matching t (Some f)) = t # names f"
| "count_names (EdgesMatching r f) = r # names f"

definition count_validate :: "count \<Rightarrow> (translate_error, unit) result" where
  "count_validate c = all_identifiers ''compte'' (count_names c)"

section \<open>Selections\<close>

definition total_order :: "select \<Rightarrow> bool" where
  "total_order s = (s_order_by s \<noteq> [] \<and> ok_by (last (s_order_by s)) = ObField ''_uuid'')"

definition select_by_uuids :: "string \<Rightarrow> column list \<Rightarrow> select" where
  "select_by_uuids table returns =
     \<lparr>s_table = table, s_by_uuids = True, s_filter = None, s_returns = returns, s_order_by = [],
      s_limit = None, s_offset = None\<rparr>"

definition select_all :: "string \<Rightarrow> column list \<Rightarrow> select" where
  "select_all table returns =
     \<lparr>s_table = table, s_by_uuids = False, s_filter = None, s_returns = returns, s_order_by = [],
      s_limit = None, s_offset = None\<rparr>"

definition select_filtered :: "string \<Rightarrow> predicate \<Rightarrow> column list \<Rightarrow> select" where
  "select_filtered table flt returns =
     \<lparr>s_table = table, s_by_uuids = False, s_filter = Some flt, s_returns = returns, s_order_by = [],
      s_limit = None, s_offset = None\<rparr>"

fun column_filter :: "column \<Rightarrow> predicate list" where
  "column_filter (CCollect c) = opt_list (co_filter c)"
| "column_filter _ = []"

fun term_filter :: "ir_term \<Rightarrow> predicate list" where
  "term_filter (TExtremum _ a) = opt_list (ag_filter a)"
| "term_filter (TField _) = []"

definition sub_filters :: "select \<Rightarrow> predicate list" where
  "sub_filters s =
     concat (map column_filter (s_returns s))
       @ concat (map (\<lambda>k. concat (map term_filter (fst (terms (ok_by k))))) (s_order_by s))"

text \<open>
  \<open>sub_filters_mut\<close> hands out the places of those filters, in the same order, empty ones
  included. A loop over the places reads \<open>get_sub_filters\<close> and leaves what it wrote with
  \<open>put_sub_filters\<close>: each constructor takes its values from the front of the list.
\<close>

definition put_aggregate :: "aggregate \<Rightarrow> predicate option list \<Rightarrow> aggregate \<times> predicate option list" where
  "put_aggregate a fs = (a\<lparr>ag_filter := hd fs\<rparr>, tl fs)"

fun put_list :: "('a \<Rightarrow> 'p list \<Rightarrow> 'a \<times> 'p list) \<Rightarrow> 'a list \<Rightarrow> 'p list \<Rightarrow> 'a list \<times> 'p list" where
  "put_list put [] fs = ([], fs)"
| "put_list put (a # as) fs =
     (let (b, rest) = put a fs; (bs, rest') = put_list put as rest in (b # bs, rest'))"

fun get_order_term :: "order_term \<Rightarrow> predicate option list" where
  "get_order_term (OtField _) = []"
| "get_order_term (OtMax a) = [ag_filter a]"
| "get_order_term (OtMin a) = [ag_filter a]"

fun put_order_term :: "order_term \<Rightarrow> predicate option list \<Rightarrow> order_term \<times> predicate option list" where
  "put_order_term (OtField f) fs = (OtField f, fs)"
| "put_order_term (OtMax a) fs = apfst OtMax (put_aggregate a fs)"
| "put_order_term (OtMin a) fs = apfst OtMin (put_aggregate a fs)"

fun get_order_by :: "order_by \<Rightarrow> predicate option list" where
  "get_order_by (ObField _) = []"
| "get_order_by (ObMax a) = [ag_filter a]"
| "get_order_by (ObMin a) = [ag_filter a]"
| "get_order_by (ObCoalesce v) = concat (map get_order_term v)"

fun put_order_by :: "order_by \<Rightarrow> predicate option list \<Rightarrow> order_by \<times> predicate option list" where
  "put_order_by (ObField f) fs = (ObField f, fs)"
| "put_order_by (ObMax a) fs = apfst ObMax (put_aggregate a fs)"
| "put_order_by (ObMin a) fs = apfst ObMin (put_aggregate a fs)"
| "put_order_by (ObCoalesce v) fs = apfst ObCoalesce (put_list put_order_term v fs)"

definition get_order_key :: "order_key \<Rightarrow> predicate option list" where
  "get_order_key k = get_order_by (ok_by k)"

definition put_order_key :: "order_key \<Rightarrow> predicate option list \<Rightarrow> order_key \<times> predicate option list" where
  "put_order_key k fs = apfst (\<lambda>b. k\<lparr>ok_by := b\<rparr>) (put_order_by (ok_by k) fs)"

fun get_column :: "column \<Rightarrow> predicate option list" where
  "get_column (CCollect c) = [co_filter c]"
| "get_column _ = []"

fun put_column :: "column \<Rightarrow> predicate option list \<Rightarrow> column \<times> predicate option list" where
  "put_column (CCollect c) fs = (CCollect (c\<lparr>co_filter := hd fs\<rparr>), tl fs)"
| "put_column c fs = (c, fs)"

definition get_sub_filters :: "select \<Rightarrow> predicate option list" where
  "get_sub_filters s = concat (map get_column (s_returns s)) @ concat (map get_order_key (s_order_by s))"

definition put_sub_filters :: "select \<Rightarrow> predicate option list \<Rightarrow> select" where
  "put_sub_filters s fs =
     (let (cols, rest) = put_list put_column (s_returns s) fs;
          (keys, _) = put_list put_order_key (s_order_by s) rest
      in s\<lparr>s_returns := cols, s_order_by := keys\<rparr>)"

text \<open>
  The steps of \<open>Select::validate\<close>, in its order: each either refuses at once or adds the names
  it has seen; the names are judged at the end.
\<close>

definition bound_names :: "predicate option \<Rightarrow> (translate_error, string list) result" where
  "bound_names p =
     (case p of None \<Rightarrow> Ok []
      | Some q \<Rightarrow> (case unresolved q of
            Some nom \<Rightarrow> Err (Invalid (ConditionNotBound nom))
          | None \<Rightarrow> Ok (names q)))"

fun term_bound_names :: "ir_term \<Rightarrow> (translate_error, string list) result" where
  "term_bound_names (TField _) = Ok []"
| "term_bound_names (TExtremum _ a) = bound_names (ag_filter a)"

definition key_validate :: "order_key \<Rightarrow> (translate_error, string list) result" where
  "key_validate k =
     try_then (traverse term_bound_names (fst (terms (ok_by k)))) (\<lambda>ns. Ok (order_key_names k @ concat ns))"

fun column_validate :: "column \<Rightarrow> (translate_error, string list) result" where
  "column_validate (CNode f) = Ok [f]"
| "column_validate CNull = Ok []"
| "column_validate CWhole = Ok []"
| "column_validate (CCollect c) =
     (if co_fields c = [] then Err (Invalid (CollectNoField (co_alias c)))
      else try_then (bound_names (co_filter c)) (\<lambda>ns.
             Ok ([co_alias c, co_relation c, co_end c] @ co_fields c @ ns)))"
| "column_validate (CEdge _) = Err (Invalid EdgeOrLabelInTable)"
| "column_validate CLabel = Err (Invalid EdgeOrLabelInTable)"

fun limit_validate :: "limit option \<Rightarrow> (translate_error, string list) result" where
  "limit_validate (Some (LimParam p None)) = Err (Invalid (LimitUncapped p))"
| "limit_validate (Some (LimParam p (Some _))) = Ok [p]"
| "limit_validate _ = Ok []"

fun offset_names :: "offset option \<Rightarrow> string list" where
  "offset_names (Some (OffParam p)) = [p]"
| "offset_names _ = []"

definition select_validate :: "select \<Rightarrow> (translate_error, unit) result" where
  "select_validate s =
     try_then (traverse key_validate (s_order_by s)) (\<lambda>keys.
     try_then (bound_names (s_filter s)) (\<lambda>flt.
     try_then (traverse column_validate (s_returns s)) (\<lambda>cols.
     try_then (limit_validate (s_limit s)) (\<lambda>lim.
     all_identifiers ''selection''
       (s_table s # concat keys @ flt @ concat cols @ lim @ offset_names (s_offset s))))))"

section \<open>Writes\<close>

fun write_names :: "ir_write \<Rightarrow> string list" where
  "write_names (Upsert t cs) = t # cs"
| "write_names (Link r ends props) =
     r # (case ends of Some (f, t) \<Rightarrow> [f, t] | None \<Rightarrow> []) @ props"
| "write_names (Update t cs) = t # cs"
| "write_names (Mark t sets) = t # concat (map (\<lambda>(f, p). f # opt_list p) sets)"
| "write_names (Delete t b _ _) = [t, b]"
| "write_names (Unlink r) = [r]"
| "write_names (Load (LtNodes t cs) _) = t # cs"
| "write_names (Load (LtLinks r (f, t) props) _) = [r, f, t] @ props"
| "write_names (Detach r t _ flt) = [r, t] @ names flt"

definition write_validate :: "ir_write \<Rightarrow> (translate_error, unit) result" where
  "write_validate w = all_identifiers ''ecriture'' (write_names w)"

section \<open>What the validations accept\<close>

lemma all_identifiers_iff [simp, result_split]:
  "all_identifiers what ns = Inr u \<longleftrightarrow> (\<forall>n \<in> set ns. is_valid_identifier n)"
  by (auto simp: all_identifiers_def find_None_all split: option.splits dest: find_Some_in)

text \<open>
  Every condition of a selection, wherever it sits, and every name the text of the query
  quotes outside its conditions.
\<close>

definition select_predicates :: "select \<Rightarrow> predicate list" where
  "select_predicates s = opt_list (s_filter s) @ sub_filters s"

fun column_idents :: "column \<Rightarrow> string list" where
  "column_idents (CNode f) = [f]"
| "column_idents (CCollect c) = co_alias c # co_relation c # co_end c # co_fields c"
| "column_idents _ = []"

fun limit_params :: "limit option \<Rightarrow> string list" where
  "limit_params (Some (LimParam p _)) = [p]"
| "limit_params _ = []"

definition select_idents :: "select \<Rightarrow> string list" where
  "select_idents s =
     s_table s # concat (map order_key_names (s_order_by s)) @ concat (map column_idents (s_returns s))
       @ limit_params (s_limit s) @ offset_names (s_offset s)"

fun column_in_table :: "column \<Rightarrow> bool" where
  "column_in_table (CEdge _) = False"
| "column_in_table CLabel = False"
| "column_in_table (CCollect c) = (co_fields c \<noteq> [])"
| "column_in_table _ = True"

fun limit_capped :: "limit option \<Rightarrow> bool" where
  "limit_capped (Some (LimParam _ None)) = False"
| "limit_capped _ = True"

lemma bound_names_iff [simp]:
  "bound_names p = Inr ns \<longleftrightarrow> (\<forall>q \<in> set (opt_list p). unresolved q = None) \<and> ns = opt_names p"
  by (auto simp: bound_names_def opt_list_def opt_names_def split: option.splits)

lemma opt_names_concat: "opt_names p = concat (map names (opt_list p))"
  by (simp add: opt_names_def opt_list_def split: option.split)

lemma traverse_pure:
  assumes "\<And>x y. f x = Inr y \<longleftrightarrow> P x \<and> y = g x"
  shows "traverse f xs = Inr ys \<longleftrightarrow> (\<forall>x \<in> set xs. P x) \<and> ys = map g xs"
  by (induction xs arbitrary: ys) (auto simp: assms)

lemma term_bound_names_iff:
  "term_bound_names t = Inr ns \<longleftrightarrow>
     (\<forall>q \<in> set (term_filter t). unresolved q = None) \<and> ns = concat (map names (term_filter t))"
  by (cases t) (auto simp: opt_names_concat)

lemma key_validate_iff:
  "key_validate k = Inr ns \<longleftrightarrow>
     (\<forall>t \<in> set (fst (terms (ok_by k))). \<forall>q \<in> set (term_filter t). unresolved q = None)
     \<and> ns = order_key_names k
         @ concat (map (\<lambda>t. concat (map names (term_filter t))) (fst (terms (ok_by k))))"
  by (subst key_validate_def) (auto simp: traverse_pure [OF term_bound_names_iff])

lemma column_validate_iff:
  "column_validate c = Inr ns \<longleftrightarrow>
     (column_in_table c \<and> (\<forall>q \<in> set (column_filter c). unresolved q = None))
     \<and> ns = column_idents c @ concat (map names (column_filter c))"
  by (cases c) (auto simp: opt_names_concat)

lemma limit_validate_iff [simp]:
  "limit_validate l = Inr ns \<longleftrightarrow> limit_capped l \<and> ns = limit_params l"
  by (cases l rule: limit_validate.cases) auto

lemma select_validate_iff:
  "select_validate s = Inr () \<longleftrightarrow>
     (\<forall>q \<in> set (select_predicates s). unresolved q = None \<and> (\<forall>n \<in> set (names q). is_valid_identifier n))
     \<and> (\<forall>c \<in> set (s_returns s). column_in_table c)
     \<and> limit_capped (s_limit s)
     \<and> (\<forall>n \<in> set (select_idents s). is_valid_identifier n)"
  unfolding select_validate_def select_predicates_def sub_filters_def select_idents_def
  by (auto simp: traverse_pure [OF key_validate_iff] traverse_pure [OF column_validate_iff]
      opt_names_concat)

section \<open>The places of the nested conditions\<close>

text \<open>
  The contract of a structure with places: writing back a list of the right length puts each
  value in its place, uses no more than its share, and changes nothing a \<open>view\<close> that ignores
  the places can see. Lists of such structures are such structures.
\<close>

locale places =
  fixes get :: "'a \<Rightarrow> 'p list"
    and put :: "'a \<Rightarrow> 'p list \<Rightarrow> 'a \<times> 'p list"
    and view :: "'a \<Rightarrow> 'v"
  assumes put_rest: "length fs = length (get a) \<Longrightarrow> snd (put a (fs @ rest)) = rest"
    and get_put: "length fs = length (get a) \<Longrightarrow> get (fst (put a (fs @ rest))) = fs"
    and view_put: "length fs = length (get a) \<Longrightarrow> view (fst (put a (fs @ rest))) = view a"
begin

lemma put_list_split:
  assumes "length fs = length (concat (map get (a # as)))"
  obtains b fs1 fs2 where "fs = fs1 @ fs2" "length fs1 = length (get a)"
    "length fs2 = length (concat (map get as))" "put a (fs @ rest) = (b, fs2 @ rest)"
    "get b = fs1" "view b = view a"
proof
  let ?n = "length (get a)"
  show "fs = take ?n fs @ drop ?n fs" by simp
  show l: "length (take ?n fs) = ?n" using assms by simp
  show "length (drop ?n fs) = length (concat (map get as))" using assms by simp
  have e: "put a (fs @ rest) = put a (take ?n fs @ drop ?n fs @ rest)"
    by (metis append_assoc append_take_drop_id)
  show "put a (fs @ rest) = (fst (put a (fs @ rest)), drop ?n fs @ rest)"
    using put_rest [OF l, of "drop ?n fs @ rest"] unfolding e by (metis prod.collapse)
  show "get (fst (put a (fs @ rest))) = take ?n fs"
    "view (fst (put a (fs @ rest))) = view a"
    using get_put [OF l, of "drop ?n fs @ rest"] view_put [OF l, of "drop ?n fs @ rest"] unfolding e
    by simp_all
qed

lemma put_list_laws:
  "length fs = length (concat (map get as)) \<Longrightarrow>
     snd (put_list put as (fs @ rest)) = rest
     \<and> concat (map get (fst (put_list put as (fs @ rest)))) = fs
     \<and> map view (fst (put_list put as (fs @ rest))) = map view as"
proof (induction as arbitrary: fs)
  case (Cons a as)
  from put_list_split [OF Cons.prems, of rest] obtain b fs1 fs2 where
    s: "fs = fs1 @ fs2" "length fs1 = length (get a)" "length fs2 = length (concat (map get as))"
      "put a (fs @ rest) = (b, fs2 @ rest)" "get b = fs1" "view b = view a" .
  show ?case using Cons.IH [OF s(3)] s(1) s(4-6) by (simp add: case_prod_beta)
qed simp

end

text \<open>What is left of a structure when its places are emptied.\<close>

fun bare_order_term :: "order_term \<Rightarrow> order_term" where
  "bare_order_term (OtField f) = OtField f"
| "bare_order_term (OtMax a) = OtMax (a\<lparr>ag_filter := None\<rparr>)"
| "bare_order_term (OtMin a) = OtMin (a\<lparr>ag_filter := None\<rparr>)"

fun bare_order_by :: "order_by \<Rightarrow> order_by" where
  "bare_order_by (ObField f) = ObField f"
| "bare_order_by (ObMax a) = ObMax (a\<lparr>ag_filter := None\<rparr>)"
| "bare_order_by (ObMin a) = ObMin (a\<lparr>ag_filter := None\<rparr>)"
| "bare_order_by (ObCoalesce v) = ObCoalesce (map bare_order_term v)"

definition bare_order_key :: "order_key \<Rightarrow> order_key" where
  "bare_order_key k = k\<lparr>ok_by := bare_order_by (ok_by k)\<rparr>"

fun bare_column :: "column \<Rightarrow> column" where
  "bare_column (CCollect c) = CCollect (c\<lparr>co_filter := None\<rparr>)"
| "bare_column c = c"

definition bare_select :: "select \<Rightarrow> select" where
  "bare_select s = s\<lparr>s_returns := map bare_column (s_returns s),
     s_order_by := map bare_order_key (s_order_by s)\<rparr>"

lemma length_one: "length fs = Suc 0 \<longleftrightarrow> (\<exists>f. fs = [f])"
  by (simp add: length_Suc_conv)

interpretation order_terms: places get_order_term put_order_term bare_order_term
proof
  fix fs rest :: "predicate option list" and a
  assume "length fs = length (get_order_term a)"
  then show "snd (put_order_term a (fs @ rest)) = rest"
    "get_order_term (fst (put_order_term a (fs @ rest))) = fs"
    "bare_order_term (fst (put_order_term a (fs @ rest))) = bare_order_term a"
    by (cases a; auto simp: length_one put_aggregate_def)+
qed

interpretation order_keys: places get_order_key put_order_key bare_order_key
proof
  fix fs rest :: "predicate option list" and k
  assume l: "length fs = length (get_order_key k)"
  show "snd (put_order_key k (fs @ rest)) = rest"
    "get_order_key (fst (put_order_key k (fs @ rest))) = fs"
    "bare_order_key (fst (put_order_key k (fs @ rest))) = bare_order_key k"
    using l order_terms.put_list_laws [of fs _ rest]
    by (cases "ok_by k"; auto simp: length_one put_order_key_def get_order_key_def bare_order_key_def put_aggregate_def)+
qed

interpretation columns: places get_column put_column bare_column
proof
  fix fs rest :: "predicate option list" and c
  assume "length fs = length (get_column c)"
  then show "snd (put_column c (fs @ rest)) = rest"
    "get_column (fst (put_column c (fs @ rest))) = fs"
    "bare_column (fst (put_column c (fs @ rest))) = bare_column c"
    by (cases c; auto simp: length_one)+
qed

lemma put_sub_filters_laws:
  assumes "length fs = length (get_sub_filters s)"
  shows "get_sub_filters (put_sub_filters s fs) = fs" "bare_select (put_sub_filters s fs) = bare_select s"
proof -
  let ?n = "length (concat (map get_column (s_returns s)))"
  have l: "length (take ?n fs) = ?n" "length (drop ?n fs) = length (concat (map get_order_key (s_order_by s)))"
    using assms by (simp_all add: get_sub_filters_def)
  note a = columns.put_list_laws [OF l(1), of "drop ?n fs"]
  note b = order_keys.put_list_laws [OF l(2), of "[]"]
  obtain cols rest where c: "put_list put_column (s_returns s) fs = (cols, rest)" by fastforce
  have r: "rest = drop ?n fs" using a c by simp
  obtain keys rest' where k: "put_list put_order_key (s_order_by s) rest = (keys, rest')" by fastforce
  show "get_sub_filters (put_sub_filters s fs) = fs" "bare_select (put_sub_filters s fs) = bare_select s"
    using a b c k r by (simp_all add: put_sub_filters_def get_sub_filters_def bare_select_def)
qed

lemma concat_map_concat: "concat (map f (concat (map g xs))) = concat (map (\<lambda>x. concat (map f (g x))) xs)"
  by (induction xs) simp_all

lemma sub_filters_places: "sub_filters s = concat (map opt_list (get_sub_filters s))"
proof -
  have "column_filter c = concat (map opt_list (get_column c))" for c by (cases c) simp_all
  then have "column_filter = (\<lambda>c. concat (map opt_list (get_column c)))" by (rule ext)
  moreover have "concat (map term_filter (fst (terms (ok_by k)))) = concat (map opt_list (get_order_key k))" for k
  proof -
    have t: "term_filter (order_term_term t) = concat (map opt_list (get_order_term t))" for t
      by (cases t) simp_all
    have "concat (map (term_filter \<circ> order_term_term) v) = concat (map opt_list (concat (map get_order_term v)))" for v
      by (induction v) (simp_all add: t)
    then show ?thesis by (cases "ok_by k") (simp_all add: get_order_key_def)
  qed
  ultimately show ?thesis by (simp add: sub_filters_def get_sub_filters_def concat_map_concat)
qed

text \<open>The names outside the conditions, and the shape of the columns, are seen by the bare selection.\<close>

lemma order_key_names_bare: "order_key_names (bare_order_key k) = order_key_names k"
proof -
  have t: "term_names (order_term_term (bare_order_term t)) = term_names (order_term_term t)" for t
    by (cases t) simp_all
  show ?thesis
    by (cases "ok_by k") (simp_all add: order_key_names_def bare_order_key_def comp_def t)
qed

lemma column_idents_bare: "column_idents (bare_column c) = column_idents c"
  "column_in_table (bare_column c) = column_in_table c"
  by (cases c; simp)+

lemma put_sub_filters_keeps [simp]:
  "s_table (put_sub_filters s fs) = s_table s" "s_by_uuids (put_sub_filters s fs) = s_by_uuids s"
  "s_filter (put_sub_filters s fs) = s_filter s" "s_limit (put_sub_filters s fs) = s_limit s"
  "s_offset (put_sub_filters s fs) = s_offset s"
  by (simp_all add: put_sub_filters_def case_prod_beta)

lemma map_bare: "map g xs = map g ys \<Longrightarrow> (\<And>x. f (g x) = f x) \<Longrightarrow> map f xs = map f ys"
proof -
  assume g: "map g xs = map g ys" and f: "\<And>x. f (g x) = f x"
  have "map f zs = map f (map g zs)" for zs by (simp add: comp_def f)
  then show "map f xs = map f ys" using g by metis
qed

lemma put_sub_filters_views:
  assumes "length fs = length (get_sub_filters s)"
  shows "map order_key_names (s_order_by (put_sub_filters s fs)) = map order_key_names (s_order_by s)"
    "map column_idents (s_returns (put_sub_filters s fs)) = map column_idents (s_returns s)"
    "map column_in_table (s_returns (put_sub_filters s fs)) = map column_in_table (s_returns s)"
proof -
  have "s_order_by (bare_select (put_sub_filters s fs)) = s_order_by (bare_select s)"
    "s_returns (bare_select (put_sub_filters s fs)) = s_returns (bare_select s)"
    using put_sub_filters_laws(2) [OF assms] by simp_all
  then have k: "map bare_order_key (s_order_by (put_sub_filters s fs)) = map bare_order_key (s_order_by s)"
    and c: "map bare_column (s_returns (put_sub_filters s fs)) = map bare_column (s_returns s)"
    by (simp_all add: bare_select_def)
  show "map order_key_names (s_order_by (put_sub_filters s fs)) = map order_key_names (s_order_by s)"
    by (rule map_bare [OF k]) (rule order_key_names_bare)
  show "map column_idents (s_returns (put_sub_filters s fs)) = map column_idents (s_returns s)"
    by (rule map_bare [OF c]) (rule column_idents_bare)
  show "map column_in_table (s_returns (put_sub_filters s fs)) = map column_in_table (s_returns s)"
    by (rule map_bare [OF c]) (rule column_idents_bare)
qed

section \<open>Properties\<close>

text \<open>
  \<open>Select::validate\<close> accepts a selection exactly when every condition in it, its own filter
  and those of its lists and order keys, is bound and names only identifiers, no column is an
  edge or a label, no list is empty, a bound limit has a cap, and every other name that enters
  the text of the query is an identifier.
\<close>

theorem select_validate_exact:
  "select_validate s = Ok () \<longleftrightarrow>
     list_all (\<lambda>q. unresolved q = None \<and> list_all is_valid_identifier (names q)) (select_predicates s)
     \<and> list_all column_in_table (s_returns s) \<and> limit_capped (s_limit s)
     \<and> list_all is_valid_identifier (select_idents s)"
  by (simp add: select_validate_iff list_all_iff)

text \<open>
  A hop, a count and a detachment pass their validation with a condition that was never
  bound; a selection does not.
\<close>

theorem unbound_condition_accepted:
  "hop_validate ((hop_new ''A'' ''R'' ''B'' Outgoing)\<lparr>h_filter := Some (LetRef ''x'')\<rparr>) = Ok ()
   \<and> count_validate (Matching ''A'' (Some (Optional (Equals ''f'' ''p'')))) = Ok ()
   \<and> write_validate (Detach ''R'' ''A'' Outgoing (LetRef ''x'')) = Ok ()
   \<and> select_validate (select_filtered ''A'' (LetRef ''x'') [CNode ''_uuid'']) = Err (Invalid (ConditionNotBound ''let''))"
  by code_simp

end
