(* ===== verification/Topo.thy ===== *)
theory Topo
  imports Prelude
begin

text \<open>
  Topological orders, for the three sorts of the sources: \<open>Plan::check\<close> (ir/src/plan.rs),
  \<open>DataflowGraph::topological_sort\<close> (dataflow/graph.rs) and \<open>kinds::topological\<close>
  (dataflow/kinds.rs). All three are Kahn's algorithm with a counter of unmet incoming edges
  per node; they differ in how the next ready node is chosen. Here: the specification of an
  order, the invariant of the counters, what a stuck run says about the graph, and the
  interface \<open>topological_sorter\<close> the three sorts are interpreted in.
\<close>

section \<open>Specification\<close>

text \<open>Every edge into a listed node comes from a node listed before it.\<close>

definition closed_order :: "('n \<times> 'n) list \<Rightarrow> 'n list \<Rightarrow> bool" where
  "closed_order es ord =
     (\<forall>xs v ys. ord = xs @ v # ys \<longrightarrow> (\<forall>a. (a, v) \<in> set es \<longrightarrow> a \<in> set xs))"

definition topo_order :: "'n list \<Rightarrow> ('n \<times> 'n) list \<Rightarrow> 'n list \<Rightarrow> bool" where
  "topo_order ns es ord = (distinct ord \<and> set ord = set ns \<and> closed_order es ord)"

definition edges_within :: "'n list \<Rightarrow> ('n \<times> 'n) list \<Rightarrow> bool" where
  "edges_within ns es = (\<forall>e \<in> set es. fst e \<in> set ns \<and> snd e \<in> set ns)"

lemma closed_order_Nil [simp]: "closed_order es []"
  by (simp add: closed_order_def)

lemma closed_order_snoc:
  "closed_order es (ord @ [v]) \<longleftrightarrow> closed_order es ord \<and> (\<forall>a. (a, v) \<in> set es \<longrightarrow> a \<in> set ord)"
  (is "?l \<longleftrightarrow> ?r")
proof
  assume l: ?l
  show ?r unfolding closed_order_def
  proof (intro conjI allI impI)
    fix xs w ys a assume "ord = xs @ w # ys" and e: "(a, w) \<in> set es"
    then have "ord @ [v] = xs @ w # (ys @ [v])" by simp
    then show "a \<in> set xs" using l e unfolding closed_order_def by blast
  next
    fix a assume "(a, v) \<in> set es"
    then show "a \<in> set ord" using l unfolding closed_order_def by blast
  qed
next
  assume r: ?r
  show ?l unfolding closed_order_def
  proof (intro allI impI)
    fix xs w ys a assume eq: "ord @ [v] = xs @ w # ys" and e: "(a, w) \<in> set es"
    show "a \<in> set xs"
    proof (cases ys rule: rev_cases)
      case Nil
      then show ?thesis using eq r e by simp
    next
      case (snoc ys' z)
      then have "ord = xs @ w # ys'" using eq by simp
      then show ?thesis using r e unfolding closed_order_def by blast
    qed
  qed
qed

text \<open>The position of a node in an order; edges go up.\<close>

definition position :: "'n list \<Rightarrow> 'n \<Rightarrow> nat" where
  "position ord v = length (takeWhile (\<lambda>x. x \<noteq> v) ord)"

lemma position_split: "v \<notin> set xs \<Longrightarrow> position (xs @ v # ys) v = length xs"
  by (induction xs) (auto simp: position_def)

lemma position_less: "a \<in> set xs \<Longrightarrow> position (xs @ ys) a < length xs"
  by (induction xs) (auto simp: position_def)

lemma position_nth:
  assumes "distinct xs" "k < length xs"
  shows "position xs (xs ! k) = k"
proof -
  have "xs ! k \<notin> set (take k xs)" using assms by (auto simp: in_set_conv_nth distinct_conv_nth)
  then have "position (take k xs @ xs ! k # drop (Suc k) xs) (xs ! k) = k"
    using assms(2) by (simp add: position_split)
  then show ?thesis using id_take_nth_drop [OF assms(2)] by simp
qed

lemma edge_goes_up:
  assumes "topo_order ns es ord" "edges_within ns es" "(a, b) \<in> set es"
  shows "position ord a < position ord b"
proof -
  have "b \<in> set ord" using assms unfolding topo_order_def edges_within_def by fastforce
  then obtain xs ys where ord: "ord = xs @ b # ys" and nb: "b \<notin> set xs"
    by (metis split_list_first)
  have "a \<in> set xs" using assms ord unfolding topo_order_def closed_order_def by blast
  then show ?thesis using ord nb by (simp add: position_less position_split)
qed

lemma path_goes_up:
  assumes "topo_order ns es ord" "edges_within ns es" "(a, b) \<in> (set es)\<^sup>+"
  shows "position ord a < position ord b"
  using assms(3) by (induction rule: trancl_induct) (auto dest: edge_goes_up [OF assms(1,2)])

lemma topo_order_acyclic:
  assumes "topo_order ns es ord" "edges_within ns es"
  shows "acyclic (set es)"
  using path_goes_up [OF assms] by (auto simp: acyclic_def)

text \<open>A set where every node has a predecessor in the set holds a cycle.\<close>

lemma no_source_cyclic:
  assumes "finite R" "R \<noteq> {}" "\<And>v. v \<in> R \<Longrightarrow> \<exists>a \<in> R. (a, v) \<in> E"
  shows "\<not> acyclic E"
proof
  assume "acyclic E"
  then have "acyclic (E \<inter> R \<times> R)" by (rule acyclic_subset) auto
  then have "wf (E \<inter> R \<times> R)" using assms(1) by (intro finite_acyclic_wf) auto
  then obtain v where "v \<in> R" and "\<And>a. (a, v) \<in> E \<inter> R \<times> R \<Longrightarrow> a \<notin> R"
    using assms(2) by (metis all_not_in_conv wfE_min)
  then show False using assms(3) by blast
qed

section \<open>Counters of unmet edges\<close>

text \<open>\<open>indeg es D v\<close>: the edges into \<open>v\<close> whose source is not in the done set \<open>D\<close>.\<close>

definition indeg :: "('n \<times> 'n) list \<Rightarrow> 'n set \<Rightarrow> 'n \<Rightarrow> nat" where
  "indeg es D v = length (filter (\<lambda>e. snd e = v \<and> fst e \<notin> D) es)"

definition targets :: "('n \<times> 'n) list \<Rightarrow> 'n \<Rightarrow> 'n list" where
  "targets es v = map snd (filter (\<lambda>e. fst e = v) es)"

lemma indeg_insert:
  "v \<notin> D \<Longrightarrow> indeg es D b = indeg es (insert v D) b + count_list (targets es v) b"
  by (induction es) (auto simp: indeg_def targets_def)

lemma indeg_eq_0: "indeg es D v = 0 \<longleftrightarrow> (\<forall>a. (a, v) \<in> set es \<longrightarrow> a \<in> D)"
  by (auto simp: indeg_def filter_empty_conv)

text \<open>
  The inner loop of the two queue-driven sorts: one decrement per outgoing edge, a node
  whose counter reaches zero enters the queue. \<open>None\<close> is the panic of an unsigned
  subtraction below zero.
\<close>

fun relax :: "'n list \<Rightarrow> ('n \<Rightarrow> nat) \<Rightarrow> 'n list \<Rightarrow> (('n \<Rightarrow> nat) \<times> 'n list) option" where
  "relax [] deg q = Some (deg, q)"
| "relax (b # bs) deg q =
     (if deg b = 0 then None
      else relax bs (deg(b := deg b - 1)) (if deg b - 1 = 0 then q @ [b] else q))"

lemma relax_spec:
  assumes "\<And>b. count_list bs b \<le> deg b"
  shows "\<exists>new. relax bs deg q = Some (\<lambda>b. deg b - count_list bs b, q @ new)
    \<and> distinct new \<and> set new = {b \<in> set bs. deg b = count_list bs b}"
  using assms
proof (induction bs arbitrary: deg q)
  case (Cons b bs)
  let ?deg = "deg(b := deg b - 1)"
  have pos: "deg b \<noteq> 0" using Cons.prems [of b] by auto
  have le: "count_list bs c \<le> ?deg c" for c
    using Cons.prems [of c] by (auto split: if_splits)
  have same: "(\<lambda>c. ?deg c - count_list bs c) = (\<lambda>c. deg c - count_list (b # bs) c)"
    by (auto simp: fun_eq_iff)
  from Cons.IH [OF le, of "if deg b - 1 = 0 then q @ [b] else q"] obtain new where
    r: "relax bs ?deg (if deg b - 1 = 0 then q @ [b] else q)
          = Some (\<lambda>c. deg c - count_list (b # bs) c, (if deg b - 1 = 0 then q @ [b] else q) @ new)"
    and n: "distinct new" "set new = {c \<in> set bs. ?deg c = count_list bs c}" unfolding same by blast
  show ?case
  proof (cases "deg b = 1")
    case True
    then have nb: "b \<notin> set bs" using le [of b] by (simp add: count_list_0_iff)
    then have s: "set (b # new) = {c \<in> set (b # bs). deg c = count_list (b # bs) c}"
      using n(2) True by (auto simp: count_list_0_iff)
    have "distinct (b # new)" using n nb by auto
    moreover have "relax (b # bs) deg q = Some (\<lambda>c. deg c - count_list (b # bs) c, q @ b # new)"
      using r pos True by simp
    ultimately show ?thesis using s by blast
  next
    case False
    have "set new = {c \<in> set (b # bs). deg c = count_list (b # bs) c}"
      using n(2) False pos by (auto simp: count_list_0_iff)
    moreover have "relax (b # bs) deg q = Some (\<lambda>c. deg c - count_list (b # bs) c, q @ new)"
      using r pos False by simp
    ultimately show ?thesis using n(1) by blast
  qed
qed simp

text \<open>The inner loop of the third sort, which keeps no queue.\<close>

fun decrement_all :: "'n list \<Rightarrow> ('n \<Rightarrow> nat) \<Rightarrow> ('n \<Rightarrow> nat) option" where
  "decrement_all [] deg = Some deg"
| "decrement_all (b # bs) deg =
     (if deg b = 0 then None else decrement_all bs (deg(b := deg b - 1)))"

lemma decrement_all_spec:
  "(\<And>b. count_list bs b \<le> deg b) \<Longrightarrow> decrement_all bs deg = Some (\<lambda>b. deg b - count_list bs b)"
proof (induction bs arbitrary: deg)
  case (Cons b bs)
  have "count_list bs c \<le> (deg(b := deg b - 1)) c" for c
    using Cons.prems [of c] by (auto split: if_splits)
  moreover have "deg b \<noteq> 0" using Cons.prems [of b] by simp
  ultimately show ?case using Cons.IH by (auto simp: fun_eq_iff)
qed simp

text \<open>The measure of the queue-driven loops: pops cost one, a push is paid by a decrement.\<close>

lemma relax_measure:
  assumes "relax bs deg q = Some (deg', q')" "finite S" "set bs \<subseteq> S"
  shows "(\<Sum>v\<in>S. deg' v) + length q' \<le> (\<Sum>v\<in>S. deg v) + length q"
  using assms(1,3)
proof (induction bs arbitrary: deg q)
  case (Cons b bs)
  from Cons.prems have pos: "deg b \<noteq> 0" and b: "b \<in> S"
    and r: "relax bs (deg(b := deg b - 1)) (if deg b - 1 = 0 then q @ [b] else q) = Some (deg', q')"
    by (auto split: if_splits)
  have "(\<Sum>v\<in>S. (deg(b := deg b - 1)) v) + 1 = (\<Sum>v\<in>S. deg v)"
    using assms(2) b pos by (simp add: sum.remove [of S b])
  then show ?case using Cons.IH [OF r] Cons.prems(2) by (auto split: if_splits)
qed simp

definition kahn_inv :: "'n list \<Rightarrow> ('n \<times> 'n) list \<Rightarrow> 'n list \<Rightarrow> ('n \<Rightarrow> nat) \<Rightarrow> bool" where
  "kahn_inv ns es ord deg =
     (distinct ord \<and> set ord \<subseteq> set ns \<and> closed_order es ord \<and> (\<forall>v \<in> set ns. deg v = indeg es (set ord) v))"

lemma kahn_inv_init: "(\<And>v. v \<in> set ns \<Longrightarrow> deg v = indeg es {} v) \<Longrightarrow> kahn_inv ns es [] deg"
  by (simp add: kahn_inv_def)

lemma kahn_inv_step:
  assumes inv: "kahn_inv ns es ord deg" and v: "v \<in> set ns" "v \<notin> set ord" "deg v = 0"
    and deg': "\<And>b. b \<in> set ns \<Longrightarrow> deg' b = deg b - count_list (targets es v) b"
  shows "kahn_inv ns es (ord @ [v]) deg'"
proof -
  have "\<forall>a. (a, v) \<in> set es \<longrightarrow> a \<in> set ord"
    using inv v indeg_eq_0 [of es "set ord" v] by (simp add: kahn_inv_def)
  moreover have "deg' b = indeg es (set (ord @ [v])) b" if "b \<in> set ns" for b
    using inv that deg' [OF that] indeg_insert [OF v(2), of es b] by (simp add: kahn_inv_def)
  ultimately show ?thesis using inv v by (simp add: kahn_inv_def closed_order_snoc)
qed

lemma kahn_inv_targets:
  assumes "kahn_inv ns es ord deg" "v \<notin> set ord" "b \<in> set ns"
  shows "count_list (targets es v) b \<le> deg b"
  using assms indeg_insert [OF assms(2), of es b] by (simp add: kahn_inv_def)

lemma targets_within:
  "edges_within ns es \<Longrightarrow> b \<notin> set ns \<Longrightarrow> count_list (targets es v) b = 0"
  by (force simp: count_list_0_iff targets_def edges_within_def)

lemma kahn_inv_targets_all:
  assumes "kahn_inv ns es ord deg" "edges_within ns es" "v \<notin> set ord"
  shows "count_list (targets es v) b \<le> deg b"
proof (cases "b \<in> set ns")
  case True
  then show ?thesis by (rule kahn_inv_targets [OF assms(1,3)])
qed (simp add: targets_within [OF assms(2)])

lemma kahn_inv_stuck:
  assumes inv: "kahn_inv ns es ord deg" and within: "edges_within ns es"
    and stuck: "\<And>v. v \<in> set ns \<Longrightarrow> v \<notin> set ord \<Longrightarrow> deg v \<noteq> 0"
    and left: "set ord \<noteq> set ns"
  shows "\<not> acyclic (set es)"
proof (rule no_source_cyclic)
  show "finite (set ns - set ord)" by simp
  show "set ns - set ord \<noteq> {}" using inv left by (auto simp: kahn_inv_def)
  fix v assume v: "v \<in> set ns - set ord"
  then have "indeg es (set ord) v \<noteq> 0" using inv stuck by (auto simp: kahn_inv_def)
  then obtain a where "(a, v) \<in> set es" "a \<notin> set ord" by (auto simp: indeg_eq_0)
  then show "\<exists>a \<in> set ns - set ord. (a, v) \<in> set es" using within by (force simp: edges_within_def)
qed

lemma kahn_inv_done:
  "kahn_inv ns es ord deg \<Longrightarrow> set ord = set ns \<Longrightarrow> topo_order ns es ord"
  by (simp add: kahn_inv_def topo_order_def)

section \<open>The queue-driven loop\<close>

text \<open>
  \<open>while let Some(n) = queue.pop_front()\<close>: the popped node enters the order and its outgoing
  edges are relaxed. The measure is the sum of the counters plus the length of the queue.
\<close>

lemma targets_subset: "set (targets es v) \<subseteq> set (map snd es)"
  by (auto simp: targets_def)

function kahn_queue :: "('n \<times> 'n) list \<Rightarrow> ('n \<Rightarrow> nat) \<Rightarrow> 'n list \<Rightarrow> 'n list \<Rightarrow> 'n list option" where
  "kahn_queue es deg q ord =
     (case q of
        [] \<Rightarrow> Some ord
      | v # q' \<Rightarrow>
          (case relax (targets es v) deg q' of
             None \<Rightarrow> None
           | Some (deg', q'') \<Rightarrow> kahn_queue es deg' q'' (ord @ [v])))"
  by pat_completeness auto
termination
proof (relation "measure (\<lambda>(es, deg, q, ord). (\<Sum>v \<in> set (map snd es). deg v) + length q)", simp)
  fix es :: "('n \<times> 'n) list" and deg :: "'n \<Rightarrow> nat" and q ord v q' p deg' q''
  assume q: "q = v # q'" and r: "relax (targets es v) deg q' = Some p" and p: "(deg', q'') = p"
  have "(\<Sum>v \<in> set (map snd es). deg' v) + length q'' \<le> (\<Sum>v \<in> set (map snd es). deg v) + length q'"
  proof (rule relax_measure)
    show "relax (targets es v) deg q' = Some (deg', q'')" using r p by simp
    show "set (targets es v) \<subseteq> set (map snd es)" by (rule targets_subset)
  qed simp
  then show "((es, deg', q'', ord @ [v]), es, deg, q, ord)
      \<in> measure (\<lambda>(es, deg, q, ord). (\<Sum>v \<in> set (map snd es). deg v) + length q)"
    using q by simp
qed

declare kahn_queue.simps [simp del]

text \<open>The queue holds exactly the ready nodes that were not popped yet.\<close>

definition queue_inv :: "'n list \<Rightarrow> ('n \<times> 'n) list \<Rightarrow> ('n \<Rightarrow> nat) \<Rightarrow> 'n list \<Rightarrow> 'n list \<Rightarrow> bool" where
  "queue_inv ns es deg q ord =
     (kahn_inv ns es ord deg \<and> distinct q \<and> set q = {v \<in> set ns. v \<notin> set ord \<and> deg v = 0})"

lemma queue_inv_step:
  assumes inv: "queue_inv ns es deg (v # q) ord" and within: "edges_within ns es"
  shows "\<exists>deg' q'. relax (targets es v) deg q = Some (deg', q') \<and> queue_inv ns es deg' q' (ord @ [v])"
proof -
  let ?deg = "\<lambda>b. deg b - count_list (targets es v) b"
  have k: "kahn_inv ns es ord deg" and v: "v \<in> set ns" "v \<notin> set ord" "deg v = 0"
    using inv by (auto simp: queue_inv_def)
  have le: "count_list (targets es v) b \<le> deg b" for b
    by (rule kahn_inv_targets_all [OF k within v(2)])
  from relax_spec [of "targets es v" deg q, OF le] obtain new where
    r: "relax (targets es v) deg q = Some (?deg, q @ new)" and d: "distinct new"
    and new: "set new = {b \<in> set (targets es v). deg b = count_list (targets es v) b}" by blast
  have k': "kahn_inv ns es (ord @ [v]) ?deg" by (rule kahn_inv_step [OF k v]) simp
  have sq: "set q = {b \<in> set ns. b \<notin> set (ord @ [v]) \<and> deg b = 0}" "v \<notin> set q"
    using inv by (auto simp: queue_inv_def)
  have pos: "count_list (targets es v) b \<noteq> 0" if "b \<in> set (targets es v)" for b
    using that by (simp add: count_list_0_iff)
  have in_ns: "b \<in> set ns" if "b \<in> set (targets es v)" for b
    using that targets_within [OF within, of b v] pos by blast
  have fresh: "b \<notin> set (ord @ [v])" if "b \<in> set new" for b
  proof
    assume "b \<in> set (ord @ [v])"
    moreover have "deg b \<noteq> 0" using that new pos by auto
    ultimately have "b \<in> set ord" using v(3) by auto
    then obtain xs ys where "ord = xs @ b # ys" by (meson split_list)
    have b: "b \<in> set (targets es v)" using that new by simp
    then have "(v, b) \<in> set es" by (auto simp: targets_def)
    then have "v \<in> set ord" using k \<open>ord = xs @ b # ys\<close> unfolding kahn_inv_def closed_order_def by fastforce
    then show False using v(2) by simp
  qed
  have "set (q @ new) = {b \<in> set ns. b \<notin> set (ord @ [v]) \<and> ?deg b = 0}"
  proof (intro set_eqI iffI)
    fix b assume "b \<in> set (q @ new)"
    then show "b \<in> {b \<in> set ns. b \<notin> set (ord @ [v]) \<and> ?deg b = 0}"
      using sq new in_ns fresh by auto
  next
    fix b assume "b \<in> {b \<in> set ns. b \<notin> set (ord @ [v]) \<and> ?deg b = 0}"
    then have b: "b \<in> set ns" "b \<notin> set (ord @ [v])" "deg b = count_list (targets es v) b"
      using le [of b] by auto
    show "b \<in> set (q @ new)"
    proof (cases "b \<in> set (targets es v)")
      case True
      then show ?thesis using b new by simp
    next
      case False
      then have "deg b = 0" using b(3) by (simp add: count_list_0_iff [THEN iffD2])
      then show ?thesis using b sq by simp
    qed
  qed
  moreover have "distinct (q @ new)"
  proof -
    have "b \<notin> set new" if "b \<in> set q" for b
    proof
      assume "b \<in> set new"
      then have "deg b \<noteq> 0" using new pos by auto
      then show False using that sq(1) by simp
    qed
    then have "set q \<inter> set new = {}" by blast
    moreover have "distinct q" using inv by (simp add: queue_inv_def)
    ultimately show ?thesis using d by simp
  qed
  ultimately show ?thesis using r k' unfolding queue_inv_def by blast
qed

lemma kahn_queue_correct:
  assumes "queue_inv ns es deg q ord" "edges_within ns es" "distinct ns"
  shows "\<exists>r. kahn_queue es deg q ord = Some r
    \<and> (if length r = length ns then topo_order ns es r else \<not> acyclic (set es))"
  using assms
proof (induction es deg q ord rule: kahn_queue.induct)
  case (1 es deg q ord)
  show ?case
  proof (cases q)
    case Nil
    have k: "kahn_inv ns es ord deg" using 1(2) by (simp add: queue_inv_def)
    have stuck: "deg v \<noteq> 0" if "v \<in> set ns" "v \<notin> set ord" for v
      using 1(2) that Nil by (auto simp: queue_inv_def)
    show ?thesis
    proof (cases "length ord = length ns")
      case True
      have "set ord = set ns"
        using k 1(4) True by (intro card_seteq) (auto simp: kahn_inv_def distinct_card [symmetric])
      then show ?thesis using kahn_inv_done [OF k] True Nil by (simp add: kahn_queue.simps)
    next
      case False
      then have "set ord \<noteq> set ns" using k 1(4) unfolding kahn_inv_def by (metis distinct_card)
      then show ?thesis using kahn_inv_stuck [OF k 1(3) stuck] False Nil by (simp add: kahn_queue.simps)
    qed
  next
    case (Cons v q')
    from queue_inv_step [OF 1(2) [unfolded Cons] 1(3)] obtain deg' q'' where
      r: "relax (targets es v) deg q' = Some (deg', q'')" and i: "queue_inv ns es deg' q'' (ord @ [v])" by blast
    show ?thesis using 1(1) [OF Cons r refl i 1(3,4)] Cons r by (simp add: kahn_queue.simps [of es deg])
  qed
qed

section \<open>The interface of a topological sort\<close>

locale topological_sorter =
  fixes sort :: "'g \<Rightarrow> ('e, 'n list) result"
    and nodes :: "'g \<Rightarrow> 'n list"
    and edges :: "'g \<Rightarrow> ('n \<times> 'n) list"
    and wf :: "'g \<Rightarrow> bool"
  assumes within: "wf g \<Longrightarrow> edges_within (nodes g) (edges g)"
    and sound: "wf g \<Longrightarrow> sort g = Inr ord \<Longrightarrow> topo_order (nodes g) (edges g) ord"
    and complete: "wf g \<Longrightarrow> sort g = Inl err \<Longrightarrow> \<not> acyclic (set (edges g))"
begin

lemma sort_iff_acyclic:
  assumes "wf g" shows "is_ok (sort g) \<longleftrightarrow> acyclic (set (edges g))"
proof (cases "sort g")
  case (Inl e)
  then show ?thesis using complete [OF assms] by simp
next
  case (Inr ord)
  then show ?thesis using topo_order_acyclic [OF sound [OF assms Inr] within [OF assms]] by simp
qed

lemma sort_respects_paths:
  "wf g \<Longrightarrow> sort g = Inr ord \<Longrightarrow> (a, b) \<in> (set (edges g))\<^sup>+ \<Longrightarrow> position ord a < position ord b"
  by (rule path_goes_up [OF sound within])

end

end
