(* ===== verification/Ir_Plan.thy ===== *)
theory Ir_Plan
  imports Ir_Form Topo
begin

text \<open>
  \<open>ir/src/plan.rs\<close>: a graph of forms and the check every plan passes before any dialect sees
  it. A node is a form with its parameters, an edge says that a column rendered by one node
  feeds the \<open>$uuids\<close> of another. \<open>plan_check\<close> refuses or returns the nodes in an order in which
  every node comes after the one that feeds it. The order is the interface the runner of plans
  relies on; it is an instance of \<open>topological_sorter\<close>.
\<close>

section \<open>Data\<close>

datatype form = FHop hop | FCount count | FSelect select | FWrite ir_write

datatype column_kind = KUuid | KValue | KCount | KWhole

datatype slot = SUuids | SItems

record plan_node =
  pn_id :: string
  pn_form :: form
  pn_params :: "query_param list"

record plan_edge =
  e_from :: string
  e_to :: string
  e_columns :: "nat list"

record plan =
  p_nodes :: "plan_node list"
  p_edges :: "plan_edge list"
  p_outputs :: "string list"

text \<open>The refusals of \<open>Plan::check\<close>; \<open>CounterPanic\<close> is an unsigned subtraction below zero.\<close>

datatype plan_error =
    DuplicateNode string
  | InvalidForm string translate_error
  | UnknownNode string
  | EmptyEdge string string
  | FedTwice string
  | NoSuchColumn string string nat nat
  | NoInput string string
  | ItemsNotFed string string
  | NotUuids string string "column_kind list"
  | UnknownOutput string
  | Cycle "string list"
  | CounterPanic

section \<open>Forms\<close>

fun write_form_name :: "ir_write \<Rightarrow> string" where
  "write_form_name (Upsert _ _) = ''write.upsert''"
| "write_form_name (Link _ _ _) = ''write.link''"
| "write_form_name (Update _ _) = ''write.update''"
| "write_form_name (Mark _ _) = ''write.mark''"
| "write_form_name (Delete _ _ _ _) = ''write.delete''"
| "write_form_name (Unlink _) = ''write.unlink''"
| "write_form_name (Load _ _) = ''write.load''"
| "write_form_name (Detach _ _ _ _) = ''write.detach''"

fun form_name :: "form \<Rightarrow> string" where
  "form_name (FHop _) = ''hop''"
| "form_name (FCount _) = ''count''"
| "form_name (FSelect _) = ''select''"
| "form_name (FWrite w) = write_form_name w"

fun form_validate :: "form \<Rightarrow> (translate_error, unit) result" where
  "form_validate (FHop h) = hop_validate h"
| "form_validate (FCount c) = count_validate c"
| "form_validate (FSelect s) = select_validate s"
| "form_validate (FWrite w) = write_validate w"

fun form_slot :: "form \<Rightarrow> slot option" where
  "form_slot (FHop _) = Some SUuids"
| "form_slot (FCount (Edges _ _ _)) = Some SUuids"
| "form_slot (FCount _) = None"
| "form_slot (FSelect s) = (if s_by_uuids s then Some SUuids else None)"
| "form_slot (FWrite (Mark _ _)) = Some SUuids"
| "form_slot (FWrite (Delete _ _ _ _)) = Some SUuids"
| "form_slot (FWrite (Load _ _)) = None"
| "form_slot (FWrite (Detach _ _ _ _)) = None"
| "form_slot (FWrite _) = Some SItems"

fun column_kind_of :: "column \<Rightarrow> column_kind" where
  "column_kind_of (CNode f) = (if f = ''_uuid'' then KUuid else KValue)"
| "column_kind_of CWhole = KWhole"
| "column_kind_of _ = KValue"

fun form_output :: "form \<Rightarrow> column_kind list" where
  "form_output (FHop h) = KUuid # map column_kind_of (h_returns h)"
| "form_output (FCount (Edges _ _ _)) = [KUuid, KCount]"
| "form_output (FCount _) = [KCount]"
| "form_output (FSelect s) = (if s_by_uuids s then [KUuid] else []) @ map column_kind_of (s_returns s)"
| "form_output (FWrite (Upsert _ _)) = [KValue, KUuid]"
| "form_output (FWrite (Delete _ key _ count)) =
     (if count then [if key = ''_uuid'' then KUuid else KValue, KCount] else [])"
| "form_output (FWrite _) = []"

fun is_write :: "form \<Rightarrow> bool" where
  "is_write (FWrite _) = True"
| "is_write _ = False"

section \<open>Building a plan\<close>

definition plan_new :: plan where
  "plan_new = \<lparr>p_nodes = [], p_edges = [], p_outputs = []\<rparr>"

definition plan_add_node :: "plan \<Rightarrow> string \<Rightarrow> form \<Rightarrow> query_param list \<Rightarrow> plan" where
  "plan_add_node p i f ps = p\<lparr>p_nodes := p_nodes p @ [\<lparr>pn_id = i, pn_form = f, pn_params = ps\<rparr>]\<rparr>"

definition plan_add_edge :: "plan \<Rightarrow> string \<Rightarrow> nat \<Rightarrow> string \<Rightarrow> plan" where
  "plan_add_edge p a c b = p\<lparr>p_edges := p_edges p @ [\<lparr>e_from = a, e_to = b, e_columns = [c]\<rparr>]\<rparr>"

definition plan_output :: "plan \<Rightarrow> string \<Rightarrow> plan" where
  "plan_output p i = p\<lparr>p_outputs := p_outputs p @ [i]\<rparr>"

definition plan_get :: "plan \<Rightarrow> string \<Rightarrow> plan_node option" where
  "plan_get p i = find (\<lambda>n. pn_id n = i) (p_nodes p)"

definition input_of :: "plan \<Rightarrow> string \<Rightarrow> plan_edge option" where
  "input_of p i = find (\<lambda>e. e_to e = i) (p_edges p)"

section \<open>The check\<close>

fun check_nodes :: "string list \<Rightarrow> plan_node list \<Rightarrow> (plan_error, unit) result" where
  "check_nodes vus [] = Ok ()"
| "check_nodes vus (n # ns) =
     (if pn_id n \<in> set vus then Err (DuplicateNode (pn_id n))
      else try_then (map_err (InvalidForm (pn_id n)) (form_validate (pn_form n))) (\<lambda>_.
             check_nodes (bs_insert (pn_id n) vus) ns))"

text \<open>What one edge must satisfy, given the nodes it joins and the inputs already fed.\<close>

definition check_edge_slot :: "plan_edge \<Rightarrow> plan_node \<Rightarrow> plan_node \<Rightarrow> (plan_error, unit) result" where
  "check_edge_slot e de vers =
     (let sortie = form_output (pn_form de)
      in case form_slot (pn_form vers) of
           None \<Rightarrow> Err (NoInput (e_to e) (form_name (pn_form vers)))
         | Some SItems \<Rightarrow> Err (ItemsNotFed (e_to e) (form_name (pn_form vers)))
         | Some SUuids \<Rightarrow>
             (if length (e_columns e) \<noteq> 1 \<or> sortie ! (e_columns e ! 0) \<noteq> KUuid
              then Err (NotUuids (e_to e) (e_from e) (map (\<lambda>c. sortie ! c) (e_columns e)))
              else Ok ()))"

definition check_edge :: "plan \<Rightarrow> string list \<Rightarrow> plan_edge \<Rightarrow> (plan_error, string list) result" where
  "check_edge p nourris e =
     (case (plan_get p (e_from e), plan_get p (e_to e)) of
        (Some de, Some vers) \<Rightarrow>
          if e_columns e = [] then Err (EmptyEdge (e_from e) (e_to e))
          else if e_to e \<in> set nourris then Err (FedTwice (e_to e))
          else try_then
            (for_each (\<lambda>c. if length (form_output (pn_form de)) \<le> c
                           then Err (NoSuchColumn (e_from e) (e_to e) c (length (form_output (pn_form de))))
                           else Ok ()) (e_columns e)) (\<lambda>_.
            try_then (check_edge_slot e de vers) (\<lambda>_. Ok (bs_insert (e_to e) nourris)))
      | (None, _) \<Rightarrow> Err (UnknownNode (e_from e))
      | (Some _, None) \<Rightarrow> Err (UnknownNode (e_to e)))"

definition check_outputs :: "plan \<Rightarrow> (plan_error, unit) result" where
  "check_outputs p =
     for_each (\<lambda>i. if plan_get p i = None then Err (UnknownOutput i) else Ok ()) (p_outputs p)"

text \<open>The counters: how many edges enter each node.\<close>

definition entrants :: "plan \<Rightarrow> string \<Rightarrow> nat" where
  "entrants p = fold (\<lambda>e m. m(e_to e := m (e_to e) + 1)) (p_edges p) (\<lambda>_. 0)"

function plan_kahn ::
  "plan \<Rightarrow> (string \<Rightarrow> nat) \<Rightarrow> string list \<Rightarrow> plan_node list \<Rightarrow> (plan_error, plan_node list) result" where
  "plan_kahn p m faits ordre =
     (if length ordre < length (p_nodes p) then
        (case find (\<lambda>n. pn_id n \<notin> set faits \<and> m (pn_id n) = 0) (p_nodes p) of
           None \<Rightarrow> Err (Cycle (filter (\<lambda>i. i \<notin> set faits) (map pn_id (p_nodes p))))
         | Some n \<Rightarrow>
             (case decrement_all (map e_to (filter (\<lambda>e. e_from e = pn_id n) (p_edges p))) m of
                None \<Rightarrow> Err CounterPanic
              | Some m' \<Rightarrow> plan_kahn p m' (bs_insert (pn_id n) faits) (ordre @ [n])))
      else Ok ordre)"
  by pat_completeness auto
termination
  by (relation "measure (\<lambda>(p, m, faits, ordre). length (p_nodes p) - length ordre)") auto

declare plan_kahn.simps [simp del]

definition plan_order :: "plan \<Rightarrow> (plan_error, plan_node list) result" where
  "plan_order p = plan_kahn p (entrants p) [] []"

definition plan_check :: "plan \<Rightarrow> (plan_error, plan_node list) result" where
  "plan_check p =
     try_then (check_nodes [] (p_nodes p)) (\<lambda>_.
     try_then (fold_try (check_edge p) [] (p_edges p)) (\<lambda>_.
     try_then (check_outputs p) (\<lambda>_.
     plan_order p)))"

section \<open>The order\<close>

definition plan_ids :: "plan \<Rightarrow> string list" where
  "plan_ids p = map pn_id (p_nodes p)"

definition plan_links :: "plan \<Rightarrow> (string \<times> string) list" where
  "plan_links p = map (\<lambda>e. (e_from e, e_to e)) (p_edges p)"

definition plan_wf :: "plan \<Rightarrow> bool" where
  "plan_wf p = (distinct (plan_ids p) \<and> edges_within (plan_ids p) (plan_links p))"

lemma targets_links:
  "targets (plan_links p) v = map e_to (filter (\<lambda>e. e_from e = v) (p_edges p))"
  by (simp add: targets_def plan_links_def filter_map comp_def)

lemma entrants_indeg: "entrants p v = indeg (plan_links p) {} v"
proof -
  have "fold (\<lambda>e m. m(e_to e := m (e_to e) + 1)) es m v
          = m v + length (filter (\<lambda>e. e_to e = v) es)" for es :: "plan_edge list" and m :: "string \<Rightarrow> nat"
    by (induction es arbitrary: m) auto
  then show ?thesis by (simp add: entrants_def indeg_def plan_links_def filter_map comp_def)
qed

definition kahn_state :: "plan \<Rightarrow> (string \<Rightarrow> nat) \<Rightarrow> string list \<Rightarrow> plan_node list \<Rightarrow> bool" where
  "kahn_state p m faits ordre =
     (kahn_inv (plan_ids p) (plan_links p) (map pn_id ordre) m
      \<and> set faits = set (map pn_id ordre) \<and> set ordre \<subseteq> set (p_nodes p))"

lemma kahn_state_init: "kahn_state p (entrants p) [] []"
  by (simp add: kahn_state_def kahn_inv_init entrants_indeg)

lemma kahn_state_step:
  assumes st: "kahn_state p m faits ordre" and wf: "plan_wf p"
    and n: "n \<in> set (p_nodes p)" "pn_id n \<notin> set faits" "m (pn_id n) = 0"
  shows "\<exists>m'. decrement_all (map e_to (filter (\<lambda>e. e_from e = pn_id n) (p_edges p))) m = Some m'
    \<and> kahn_state p m' (bs_insert (pn_id n) faits) (ordre @ [n])"
proof -
  let ?m = "\<lambda>b. m b - count_list (targets (plan_links p) (pn_id n)) b"
  have fresh: "pn_id n \<notin> set (map pn_id ordre)" using st n by (simp add: kahn_state_def)
  have inv: "kahn_inv (plan_ids p) (plan_links p) (map pn_id ordre) m" using st by (simp add: kahn_state_def)
  have "pn_id n \<in> set (plan_ids p)" using n by (simp add: plan_ids_def)
  then have "kahn_inv (plan_ids p) (plan_links p) (map pn_id ordre @ [pn_id n]) ?m"
    by (intro kahn_inv_step [OF inv _ fresh n(3)]) auto
  moreover have "decrement_all (targets (plan_links p) (pn_id n)) m = Some ?m"
    using kahn_inv_targets_all [OF inv _ fresh] wf by (intro decrement_all_spec) (simp add: plan_wf_def)
  ultimately show ?thesis using st n by (auto simp: kahn_state_def targets_links)
qed

lemma kahn_state_full:
  assumes "kahn_state p m faits ordre" "plan_wf p" "\<not> length ordre < length (p_nodes p)"
  shows "distinct ordre" "set ordre = set (p_nodes p)"
proof -
  show d: "distinct ordre" using assms(1) by (auto simp: kahn_state_def kahn_inv_def distinct_map)
  have "distinct (p_nodes p)" using assms(2) by (auto simp: plan_wf_def plan_ids_def distinct_map)
  then have "card (set (p_nodes p)) \<le> card (set ordre)"
    using d assms(3) by (simp add: distinct_card)
  then show "set ordre = set (p_nodes p)"
    using assms(1) by (intro card_seteq) (auto simp: kahn_state_def)
qed

lemma plan_kahn_correct:
  assumes "plan_wf p" "kahn_state p m faits ordre"
  shows "case plan_kahn p m faits ordre of
      Inr r \<Rightarrow> topo_order (plan_ids p) (plan_links p) (map pn_id r) \<and> distinct r \<and> set r = set (p_nodes p)
    | Inl e \<Rightarrow> \<not> acyclic (set (plan_links p)) \<and> (\<exists>rest. e = Cycle rest \<and> rest \<noteq> [])"
  using assms
proof (induction p m faits ordre rule: plan_kahn.induct)
  case (1 p m faits ordre)
  show ?case
  proof (cases "length ordre < length (p_nodes p)")
    case False
    note full = kahn_state_full [OF 1(3,2) False]
    have "topo_order (plan_ids p) (plan_links p) (map pn_id ordre)"
      using 1(3) full(2) by (intro kahn_inv_done) (auto simp: kahn_state_def plan_ids_def)
    then show ?thesis using False full by (simp add: plan_kahn.simps)
  next
    case True
    show ?thesis
    proof (cases "find (\<lambda>n. pn_id n \<notin> set faits \<and> m (pn_id n) = 0) (p_nodes p)")
      case (Some n)
      then have n: "n \<in> set (p_nodes p)" "pn_id n \<notin> set faits" "m (pn_id n) = 0"
        by (auto dest: find_Some_in)
      obtain m' where m': "decrement_all (map e_to (filter (\<lambda>e. e_from e = pn_id n) (p_edges p))) m = Some m'"
        and st: "kahn_state p m' (bs_insert (pn_id n) faits) (ordre @ [n])"
        using kahn_state_step [OF 1(3,2) n] by blast
      show ?thesis using 1(1) [OF True Some m' 1(2) st] True Some m' by (simp add: plan_kahn.simps [of p m])
    next
      case None
      have ids: "set (map pn_id ordre) \<subseteq> set (plan_ids p)" "distinct (map pn_id ordre)"
        using 1(3) by (auto simp: kahn_state_def kahn_inv_def)
      have "card (set (map pn_id ordre)) < card (set (plan_ids p))"
        using True ids(2) 1(2) by (simp add: plan_wf_def distinct_card plan_ids_def del: set_map)
      then have left: "set (map pn_id ordre) \<noteq> set (plan_ids p)" by auto
      have "\<not> acyclic (set (plan_links p))"
        using 1(2,3) left None
        by (intro kahn_inv_stuck [of "plan_ids p" _ "map pn_id ordre" m])
          (auto simp: kahn_state_def plan_wf_def find_None_all plan_ids_def)
      moreover have "filter (\<lambda>i. i \<notin> set faits) (map pn_id (p_nodes p)) \<noteq> []"
        using left ids(1) 1(3) by (auto simp: kahn_state_def filter_empty_conv plan_ids_def)
      ultimately show ?thesis using True None by (simp add: plan_kahn.simps)
    qed
  qed
qed

lemmas plan_order_correct = plan_kahn_correct [OF _ kahn_state_init, folded plan_order_def]

definition plan_order_ids :: "plan \<Rightarrow> (plan_error, string list) result" where
  "plan_order_ids p = try_then (plan_order p) (\<lambda>r. Ok (map pn_id r))"

interpretation plan_sorter: topological_sorter plan_order_ids plan_ids plan_links plan_wf
proof
  fix p and ord :: "string list" and err
  assume wf: "plan_wf p"
  show "edges_within (plan_ids p) (plan_links p)" using wf by (simp add: plan_wf_def)
  show "topo_order (plan_ids p) (plan_links p) ord" if "plan_order_ids p = Inr ord"
    using plan_order_correct [OF wf] that by (auto simp: plan_order_ids_def)
  show "\<not> acyclic (set (plan_links p))" if "plan_order_ids p = Inl err"
    using plan_order_correct [OF wf] that by (cases "plan_order p") (auto simp: plan_order_ids_def)
qed

text \<open>Nothing forces another order: the declaration order is kept.\<close>

lemma first_undone:
  assumes st: "kahn_state p m faits (take k (p_nodes p))" and wf: "plan_wf p"
    and cl: "closed_order (plan_links p) (plan_ids p)" and k: "k < length (p_nodes p)"
  shows "find (\<lambda>n. pn_id n \<notin> set faits \<and> m (pn_id n) = 0) (p_nodes p) = Some (p_nodes p ! k)"
proof -
  let ?v = "pn_id (p_nodes p ! k)"
  have len: "k < length (plan_ids p)" and v: "plan_ids p ! k = ?v" using k by (simp_all add: plan_ids_def)
  have faits: "set faits = set (take k (plan_ids p))" using st by (simp add: kahn_state_def plan_ids_def take_map)
  have split: "plan_ids p = take k (plan_ids p) @ ?v # drop (Suc k) (plan_ids p)"
    using id_take_nth_drop [OF len] v by simp
  have d: "distinct (plan_ids p)" using wf by (simp add: plan_wf_def)
  then have "?v \<notin> set faits" using split faits by (metis distinct_append distinct.simps(2) not_distinct_conv_prefix)
  moreover have "m ?v = 0"
  proof -
    have "\<forall>a. (a, ?v) \<in> set (plan_links p) \<longrightarrow> a \<in> set (take k (plan_ids p))"
      using cl split unfolding closed_order_def by blast
    then have "indeg (plan_links p) (set (take k (plan_ids p))) ?v = 0" by (simp add: indeg_eq_0)
    moreover have "?v \<in> set (plan_ids p)" using k by (simp add: plan_ids_def)
    moreover have "m ?v = indeg (plan_links p) (set (map pn_id (take k (p_nodes p)))) ?v"
      using st \<open>?v \<in> set (plan_ids p)\<close> by (simp only: kahn_state_def kahn_inv_def)
    ultimately show ?thesis by (simp add: plan_ids_def take_map)
  qed
  moreover have "pn_id (p_nodes p ! j) \<in> set faits" if "j < k" for j
  proof -
    have "p_nodes p ! j \<in> set (take k (p_nodes p))"
      using that k by (auto simp: in_set_conv_nth intro!: exI [of _ j])
    then show ?thesis using st by (simp add: kahn_state_def)
  qed
  ultimately show ?thesis using k by (auto simp: find_Some_iff intro!: exI [of _ k])
qed

lemma plan_kahn_declared:
  assumes "plan_wf p" "closed_order (plan_links p) (plan_ids p)"
    and "kahn_state p m faits (take k (p_nodes p))" "k \<le> length (p_nodes p)"
  shows "plan_kahn p m faits (take k (p_nodes p)) = Inr (p_nodes p)"
  using assms
proof (induction "length (p_nodes p) - k" arbitrary: k m faits)
  case 0
  then show ?case by (simp add: plan_kahn.simps)
next
  case (Suc d)
  then have k: "k < length (p_nodes p)" by simp
  let ?n = "p_nodes p ! k"
  note f = first_undone [OF Suc(5) Suc(3,4) k]
  have n: "?n \<in> set (p_nodes p)" "pn_id ?n \<notin> set faits" "m (pn_id ?n) = 0"
    using find_Some_in [OF f] by auto
  obtain m' where m': "decrement_all (map e_to (filter (\<lambda>e. e_from e = pn_id ?n) (p_edges p))) m = Some m'"
    and st: "kahn_state p m' (bs_insert (pn_id ?n) faits) (take k (p_nodes p) @ [?n])"
    using kahn_state_step [OF Suc(5,3) n] by blast
  have tk: "take k (p_nodes p) @ [?n] = take (Suc k) (p_nodes p)" using k by (simp add: take_Suc_conv_app_nth)
  have "plan_kahn p m' (bs_insert (pn_id ?n) faits) (take (Suc k) (p_nodes p)) = Inr (p_nodes p)"
    using Suc(2) k st Suc(3,4) by (intro Suc(1)) (simp_all add: tk)
  then show ?case using f m' k by (simp add: plan_kahn.simps [of p m] tk)
qed

section \<open>What the check accepts\<close>

definition edge_ok :: "plan \<Rightarrow> plan_edge \<Rightarrow> bool" where
  "edge_ok p e \<longleftrightarrow> (\<exists>de vers c. plan_get p (e_from e) = Some de \<and> plan_get p (e_to e) = Some vers
     \<and> form_slot (pn_form vers) = Some SUuids
     \<and> e_columns e = [c] \<and> c < length (form_output (pn_form de)) \<and> form_output (pn_form de) ! c = KUuid)"

definition plan_ok :: "plan \<Rightarrow> bool" where
  "plan_ok p \<longleftrightarrow> distinct (plan_ids p)
     \<and> (\<forall>n \<in> set (p_nodes p). form_validate (pn_form n) = Inr ())
     \<and> (\<forall>e \<in> set (p_edges p). edge_ok p e)
     \<and> distinct (map e_to (p_edges p))
     \<and> set (p_outputs p) \<subseteq> set (plan_ids p)
     \<and> acyclic (set (plan_links p))"

lemma check_nodes_iff:
  "check_nodes vus ns = Inr u \<longleftrightarrow> distinct (map pn_id ns) \<and> set (map pn_id ns) \<inter> set vus = {}
     \<and> (\<forall>n \<in> set ns. form_validate (pn_form n) = Inr ())"
  by (induction ns arbitrary: vus) auto

lemma check_edge_iff:
  "check_edge p nourris e = Inr r \<longleftrightarrow>
     edge_ok p e \<and> e_to e \<notin> set nourris \<and> r = bs_insert (e_to e) nourris"
  unfolding check_edge_def edge_ok_def check_edge_slot_def Let_def
  by (cases "e_columns e") (auto split: option.splits slot.splits if_splits)

lemma check_edges_iff:
  "(\<exists>r. fold_try (check_edge p) nourris es = Inr r) \<longleftrightarrow>
     (\<forall>e \<in> set es. edge_ok p e) \<and> distinct (map e_to es) \<and> set (map e_to es) \<inter> set nourris = {}"
proof (induction es arbitrary: nourris)
  case (Cons e es)
  show ?case by (simp add: check_edge_iff) (use Cons.IH [of "bs_insert (e_to e) nourris"] in auto)
qed simp

lemma plan_get_in: "plan_get p i = Some n \<Longrightarrow> n \<in> set (p_nodes p) \<and> pn_id n = i"
  by (auto simp: plan_get_def dest: find_Some_in)

lemma plan_get_None: "plan_get p i = None \<longleftrightarrow> i \<notin> set (plan_ids p)"
  by (auto simp: plan_get_def find_None_all plan_ids_def)

lemma plan_get_unique:
  "distinct (plan_ids p) \<Longrightarrow> n \<in> set (p_nodes p) \<Longrightarrow> plan_get p (pn_id n) = Some n"
  by (cases "plan_get p (pn_id n)")
    (auto simp: plan_get_None plan_ids_def distinct_map inj_on_def dest: plan_get_in)

lemma check_outputs_iff: "check_outputs p = Inr u \<longleftrightarrow> set (p_outputs p) \<subseteq> set (plan_ids p)"
  by (auto simp: check_outputs_def plan_get_None split: if_splits)

lemma edge_ok_ends: "edge_ok p e \<Longrightarrow> e_from e \<in> set (plan_ids p) \<and> e_to e \<in> set (plan_ids p)"
  unfolding edge_ok_def by (metis option.distinct(1) plan_get_None)

lemma edge_ok_within:
  "(\<forall>e \<in> set (p_edges p). edge_ok p e) \<Longrightarrow> edges_within (plan_ids p) (plan_links p)"
  by (auto simp: edges_within_def plan_links_def edge_ok_ends)

lemma plan_check_stages:
  "plan_check p = Inr r \<longleftrightarrow> distinct (plan_ids p)
     \<and> (\<forall>n \<in> set (p_nodes p). form_validate (pn_form n) = Inr ())
     \<and> (\<forall>e \<in> set (p_edges p). edge_ok p e) \<and> distinct (map e_to (p_edges p))
     \<and> set (p_outputs p) \<subseteq> set (plan_ids p) \<and> plan_order p = Inr r"
  using check_edges_iff [of p "[]" "p_edges p"]
  by (auto simp: plan_check_def check_nodes_iff check_outputs_iff plan_ids_def)

lemma plan_ok_wf: "plan_ok p \<Longrightarrow> plan_wf p"
  by (simp add: plan_ok_def plan_wf_def edge_ok_within)

lemma plan_check_wf: "plan_check p = Inr r \<Longrightarrow> plan_wf p \<and> plan_order p = Inr r"
  by (simp add: plan_check_stages plan_wf_def edge_ok_within)

lemma plan_check_ok: "is_ok (plan_check p) \<longleftrightarrow> plan_ok p"
proof -
  have "is_ok (plan_order p) \<longleftrightarrow> acyclic (set (plan_links p))" if "plan_wf p"
    using plan_sorter.sort_iff_acyclic [OF that] by (cases "plan_order p") (simp_all add: plan_order_ids_def)
  then show ?thesis
    unfolding is_ok_iff plan_check_stages plan_ok_def by (auto simp: plan_wf_def edge_ok_within)
qed

text \<open>The counters never go below zero: whatever the plan, the check answers.\<close>

lemma check_no_counter_panic:
  "check_nodes vus ns \<noteq> Err CounterPanic" "check_edge p nourris e \<noteq> Err CounterPanic"
  "fold_try (check_edge p) nourris es \<noteq> Err CounterPanic" "check_outputs p \<noteq> Err CounterPanic"
proof -
  show "check_nodes vus ns \<noteq> Err CounterPanic"
  proof (induction ns arbitrary: vus)
    case (Cons n ns)
    then show ?case by (cases "form_validate (pn_form n)") auto
  qed simp
  show edge: "check_edge p nourris e \<noteq> Err CounterPanic" for nourris e
  proof -
    have "for_each (\<lambda>c. if k \<le> c then Err (NoSuchColumn a b c k) else Ok ()) cs \<noteq> Err CounterPanic" for k a b cs
      by (induction cs) auto
    moreover have "check_edge_slot e de vers \<noteq> Err CounterPanic" for de vers
      by (auto simp: check_edge_slot_def Let_def split: option.split slot.split)
    ultimately show ?thesis by (auto simp: check_edge_def try_then_eq_Inl split: option.splits)
  qed
  show "fold_try (check_edge p) nourris es \<noteq> Err CounterPanic"
  proof (induction es arbitrary: nourris)
    case (Cons e es)
    then show ?case using edge [of nourris e] by (cases "check_edge p nourris e") auto
  qed simp
  have "for_each (\<lambda>i. if plan_get p i = None then Err (UnknownOutput i) else Ok ()) os \<noteq> Err CounterPanic" for os
    by (induction os) auto
  then show "check_outputs p \<noteq> Err CounterPanic" by (simp add: check_outputs_def)
qed

lemma plan_check_no_counter_panic: "plan_check p \<noteq> Err CounterPanic"
proof (cases "\<exists>u r. check_nodes [] (p_nodes p) = Ok u \<and> fold_try (check_edge p) [] (p_edges p) = Ok r")
  case True
  then have "plan_wf p"
    using check_nodes_iff [of "[]" "p_nodes p"] check_edges_iff [of p "[]" "p_edges p"]
    by (auto simp: plan_wf_def plan_ids_def [symmetric] intro!: edge_ok_within)
  then have "plan_order p \<noteq> Err CounterPanic" using plan_order_correct [of p] by (auto split: sum.splits)
  then show ?thesis using True check_no_counter_panic(4) [of p] by (cases "check_outputs p") (auto simp: plan_check_def)
next
  case False
  then show ?thesis using check_no_counter_panic(1) [of "[]" "p_nodes p"] check_no_counter_panic(3) [of p "[]" "p_edges p"]
    by (cases "check_nodes [] (p_nodes p)"; cases "fold_try (check_edge p) [] (p_edges p)") (auto simp: plan_check_def)
qed

section \<open>Properties\<close>

text \<open>
  C1. \<open>Plan::check\<close> accepts a plan exactly when its identifiers are distinct, its forms are valid,
  every edge joins two nodes and carries one existing column of uuids to an input that takes
  uuids, no input is fed twice, every output names a node and no chain of edges comes back.
\<close>

theorem plan_check_exact: "is_ok (plan_check p) \<longleftrightarrow> plan_ok p"
  by (rule plan_check_ok)

text \<open>
  C2. What \<open>Plan::check\<close> returns is every node of the plan once, in an order in which a node
  comes after every node it depends on, directly or through others.
\<close>

theorem plan_check_order:
  assumes "plan_check p = Ok r"
  shows "distinct r \<and> set r = set (p_nodes p) \<and>
    (\<forall>a b. (a, b) \<in> (set (plan_links p))\<^sup>+ \<longrightarrow> position (map pn_id r) a < position (map pn_id r) b)"
proof -
  have wf: "plan_wf p" and ord: "plan_order p = Inr r" using plan_check_wf [OF assms] by auto
  have "plan_order_ids p = Inr (map pn_id r)" using ord by (simp add: plan_order_ids_def)
  from plan_sorter.sort_respects_paths [OF wf this] show ?thesis
    using plan_order_correct [OF wf] ord by auto
qed

text \<open>Two selections: the second declared first, fed by the other.\<close>

definition demo_plan :: plan where
  "demo_plan =
     plan_output (plan_add_edge
       (plan_add_node (plan_add_node plan_new
          ''rows'' (FSelect (select_by_uuids ''Doc'' [CNode ''title''])) [])
          ''hits'' (FSelect (select_all ''Doc'' [CNode ''_uuid''])) [])
       ''hits'' 0 ''rows'') ''rows''"

lemma demo_plan_checked: "try_then (plan_check demo_plan) (\<lambda>r. Ok (map pn_id r)) = Ok [''hits'', ''rows'']"
  by code_simp

theorem plan_check_order_witness:
  "\<exists>r. plan_check demo_plan = Ok r \<and> position (map pn_id r) ''hits'' < position (map pn_id r) ''rows''"
proof -
  obtain r where r: "plan_check demo_plan = Ok r" using demo_plan_checked by auto
  have "(''hits'', ''rows'') \<in> (set (plan_links demo_plan))\<^sup>+"
    by (rule r_into_trancl) (simp add: plan_links_def demo_plan_def plan_output_def plan_add_edge_def)
  then show ?thesis using plan_check_order [OF r] r by blast
qed

text \<open>
  The order is stable: when every edge of an accepted plan already goes from an earlier to a
  later node, the nodes come back in the order of their declaration.
\<close>

theorem plan_check_stable:
  assumes "plan_check p = Ok r" and "closed_order (plan_links p) (plan_ids p)"
  shows "r = p_nodes p"
proof -
  have "plan_wf p" and ord: "plan_order p = Inr r" using plan_check_wf [OF assms(1)] by auto
  then show ?thesis
    using plan_kahn_declared [of p "entrants p" "[]" 0] kahn_state_init [of p] assms(2) by (simp add: plan_order_def)
qed

definition demo_chain :: plan where
  "demo_chain = plan_add_edge
     (plan_add_node (plan_add_node plan_new
        ''hits'' (FSelect (select_all ''Doc'' [CNode ''_uuid''])) [])
        ''rows'' (FSelect (select_by_uuids ''Doc'' [CNode ''title''])) [])
     ''hits'' 0 ''rows''"

theorem plan_check_stable_witness: "plan_check demo_chain = Ok (p_nodes demo_chain)"
proof -
  have "is_ok (plan_check demo_chain)" by code_simp
  then obtain r where r: "plan_check demo_chain = Ok r" by (auto simp: is_ok_iff)
  have ids: "plan_ids demo_chain = [''hits''] @ [''rows'']" and es: "plan_links demo_chain = [(''hits'', ''rows'')]"
    by (simp_all add: plan_ids_def plan_links_def demo_chain_def plan_add_edge_def plan_add_node_def plan_new_def)
  have "closed_order [(''hits'', ''rows'')] [''hits'']"
    using closed_order_snoc [of "[(''hits'', ''rows'')]" "[]" "''hits''"] by simp
  then have "closed_order (plan_links demo_chain) (plan_ids demo_chain)"
    unfolding ids es closed_order_snoc by simp
  then show ?thesis using plan_check_stable [OF r] r by simp
qed

end
