(* ===== verification/Ir_Declared.thy ===== *)
theory Ir_Declared
  imports Ir_Plan
begin

text \<open>
  \<open>ir/src/declared.rs\<close>: a plan as a template declares it. Its named conditions (\<open>let\<close>) may cite
  each other, its conditions may be \<open>optional\<close>, its bounds may be parameters. Loading checks it
  (\<open>declared_check\<close>, \<open>check_schema\<close>), a call binds it (\<open>plan_bind\<close>): the named conditions are
  unfolded, the optional ones whose parameters are missing or empty are removed, the bounds
  become numbers, and the plan of the IR is checked again.

  \<open>verifier_contre\<close> follows a citation without a record of the path, so on circular citations it
  never returns: it takes fuel here, one unit per citation followed, and \<open>SchemaDiverges\<close> is what
  is left of a run that exhausts it.
\<close>

section \<open>Data\<close>

datatype declared_form = DSelect select | DCount count

record results_spec =
  rs_form :: string
  rs_uuid :: string
  rs_entity :: string

record outputs =
  o_rows :: "string option"
  o_total :: "string option"
  o_results :: "results_spec option"

record declared_plan =
  d_lets :: "(string, predicate) btree"
  d_forms :: "(string, declared_form) btree"
  d_outputs :: outputs

record plan_schema =
  sc_tables :: "(string, string list) btree"
  sc_relations :: "(string, string \<times> string) btree"

record bound_plan =
  b_plan :: plan
  b_rows :: "string option"
  b_total :: "string option"
  b_results :: "results_spec option"

datatype declared_error =
    NoForm
  | LetCycle "string list"
  | UnknownLet string
  | InForm string declared_error
  | LimitWithoutMax string
  | PageWithoutTotalOrder
  | SelectInvalid translate_error
  | CountNotDeclarable
  | OutputUnknown string string
  | TotalNotCount string
  | ResultsNotSelect string
  | ResultsNoColumn string string
  | UnknownTable string
  | UnknownField string string
  | CollectUnknownField string string string
  | OrderBy string string declared_error
  | UnknownRelation string
  | WrongEnds string direction string string string string
  | CompiledHere
  | SchemaDiverges
  | ParamMissing string
  | NotPositive string ir_value
  | AboveMax string nat nat
  | InEmptyList string
  | InNotList string ir_value
  | LetNotUnfolded string
  | BoundPlanInvalid plan_error

type_synonym call_params = "(string, ir_value) btree"

section \<open>The parameters a plan reads\<close>

definition opt_params :: "predicate option \<Rightarrow> string list \<Rightarrow> string list" where
  "opt_params p out = (case p of Some q \<Rightarrow> params q out | None \<Rightarrow> out)"

fun form_params :: "declared_form \<Rightarrow> string list \<Rightarrow> string list" where
  "form_params (DSelect s) out =
     (let out1 = opt_params (s_filter s) out;
          out2 = fold params (sub_filters s) out1;
          out3 = (case s_limit s of Some (LimParam p _) \<Rightarrow> bs_insert p out2 | _ \<Rightarrow> out2)
      in case s_offset s of Some (OffParam p) \<Rightarrow> bs_insert p out3 | _ \<Rightarrow> out3)"
| "form_params (DCount (Matching _ (Some p))) out = params p out"
| "form_params (DCount (EdgesMatching _ p)) out = params p out"
| "form_params (DCount _) out = out"

definition param_names :: "declared_plan \<Rightarrow> string list" where
  "param_names d = fold form_params (map snd (d_forms d)) (fold params (map snd (d_lets d)) [])"

section \<open>Unfolding the named conditions\<close>

text \<open>\<open>chaine\<close> is the path of citations; the loops end because it never repeats a name.\<close>

definition open_lets :: "declared_plan \<Rightarrow> string list \<Rightarrow> nat" where
  "open_lets d chaine = card (fst ` set (d_lets d) - set chaine)"

lemma open_lets_step:
  assumes "map_of (d_lets d) nom = Some p" "nom \<notin> set chaine"
  shows "open_lets d (chaine @ [nom]) < open_lets d chaine"
proof -
  have "nom \<in> fst ` set (d_lets d) - set chaine"
    using assms by (metis DiffI domI dom_map_of_conv_image_fst)
  then have "fst ` set (d_lets d) - set (chaine @ [nom]) \<subset> fst ` set (d_lets d) - set chaine" by auto
  then show ?thesis unfolding open_lets_def by (intro psubset_card_mono) auto
qed

function (sequential) deplier_let ::
    "declared_plan \<Rightarrow> string \<Rightarrow> string list \<Rightarrow> (declared_error, predicate) result"
  and deplier :: "declared_plan \<Rightarrow> predicate \<Rightarrow> string list \<Rightarrow> (declared_error, predicate) result" where
  "deplier_let d nom chaine =
     (if nom \<in> set chaine then Err (LetCycle (chaine @ [nom]))
      else case map_of (d_lets d) nom of
             None \<Rightarrow> Err (UnknownLet nom)
           | Some p \<Rightarrow> deplier d p (chaine @ [nom]))"
| "deplier d (LetRef nom) chaine = deplier_let d nom chaine"
| "deplier d (AnyOf v) chaine = try_then (traverse (\<lambda>p. deplier d p chaine) v) (\<lambda>w. Ok (AnyOf w))"
| "deplier d (AllOf v) chaine = try_then (traverse (\<lambda>p. deplier d p chaine) v) (\<lambda>w. Ok (AllOf w))"
| "deplier d (Optional p) chaine = try_then (deplier d p chaine) (\<lambda>q. Ok (Optional q))"
| "deplier d (Through r dir e (Some f)) chaine =
     try_then (deplier d f chaine) (\<lambda>g. Ok (Through r dir e (Some g)))"
| "deplier d (Through r dir e None) chaine = Ok (Through r dir e None)"
| "deplier d autre chaine = Ok autre"
  by pat_completeness auto

termination
  by (relation "inv_image (less_than <*lex*> less_than)
      (\<lambda>x. case x of Inl (d, nom, ch) \<Rightarrow> (open_lets d ch, 0) | Inr (d, p, ch) \<Rightarrow> (open_lets d ch, Suc (size p)))")
    (auto simp: open_lets_step less_Suc_eq_le size_list_estimation')

declare deplier_let.simps [simp del]

fun ouvrir :: "predicate \<Rightarrow> predicate" where
  "ouvrir (Optional p) = ouvrir p"
| "ouvrir (AnyOf v) = AnyOf (map ouvrir v)"
| "ouvrir (AllOf v) = AllOf (map ouvrir v)"
| "ouvrir (Through r d e f) = Through r d e (map_option ouvrir f)"
| "ouvrir autre = autre"

section \<open>The check at loading\<close>

fun predicats_de :: "declared_form \<Rightarrow> predicate list" where
  "predicats_de (DSelect s) = opt_list (s_filter s) @ sub_filters s"
| "predicats_de (DCount (Matching _ f)) = opt_list f"
| "predicats_de (DCount (EdgesMatching _ f)) = [f]"
| "predicats_de (DCount _) = []"

definition deplier_ouvert :: "declared_plan \<Rightarrow> predicate option \<Rightarrow> (declared_error, predicate option) result" where
  "deplier_ouvert d p =
     (case p of None \<Rightarrow> Ok None | Some q \<Rightarrow> try_then (deplier d q []) (\<lambda>r. Ok (Some (ouvrir r))))"

definition close_limit :: "limit option \<Rightarrow> limit option" where
  "close_limit l = (case l of Some (LimParam _ (Some m)) \<Rightarrow> Some (LimLiteral m) | _ \<Rightarrow> l)"

definition close_offset :: "offset option \<Rightarrow> offset option" where
  "close_offset l = (case l of Some (OffParam _) \<Rightarrow> Some (OffLiteral 0) | _ \<Rightarrow> l)"

definition sonde :: "declared_plan \<Rightarrow> select \<Rightarrow> (declared_error, select) result" where
  "sonde d s =
     try_then (deplier_ouvert d (s_filter s)) (\<lambda>f.
     try_then (traverse (deplier_ouvert d) (get_sub_filters s)) (\<lambda>fs.
     Ok ((put_sub_filters (s\<lparr>s_filter := f\<rparr>) fs)
           \<lparr>s_limit := close_limit (s_limit s), s_offset := close_offset (s_offset s)\<rparr>)))"

definition check_select :: "declared_plan \<Rightarrow> select \<Rightarrow> (declared_error, unit) result" where
  "check_select d s =
     (case s_limit s of
        Some (LimParam param None) \<Rightarrow> Err (LimitWithoutMax param)
      | _ \<Rightarrow>
        if (s_limit s \<noteq> None \<or> s_offset s \<noteq> None) \<and> \<not> total_order s then Err PageWithoutTotalOrder
        else try_then (sonde d s) (\<lambda>t. map_err SelectInvalid (select_validate t)))"

fun count_declarable :: "count \<Rightarrow> bool" where
  "count_declarable (Matching _ _) = True"
| "count_declarable (Rows _) = True"
| "count_declarable _ = False"

fun check_form :: "declared_plan \<Rightarrow> declared_form \<Rightarrow> (declared_error, unit) result" where
  "check_form d (DSelect s) =
     try_then (traverse (\<lambda>p. deplier d p []) (predicats_de (DSelect s))) (\<lambda>_. check_select d s)"
| "check_form d (DCount c) =
     try_then (traverse (\<lambda>p. deplier d p []) (predicats_de (DCount c))) (\<lambda>_.
     guard (count_declarable c) CountNotDeclarable)"

definition form_exists :: "declared_plan \<Rightarrow> string \<Rightarrow> string \<Rightarrow> (declared_error, unit) result" where
  "form_exists d nom quoi = guard (bt_contains (d_forms d) nom) (OutputUnknown quoi nom)"

definition check_rows :: "declared_plan \<Rightarrow> (declared_error, unit) result" where
  "check_rows d = (case o_rows (d_outputs d) of None \<Rightarrow> Ok () | Some r \<Rightarrow> form_exists d r ''rows'')"

definition check_total :: "declared_plan \<Rightarrow> (declared_error, unit) result" where
  "check_total d =
     (case o_total (d_outputs d) of
        None \<Rightarrow> Ok ()
      | Some t \<Rightarrow> try_then (form_exists d t ''total'') (\<lambda>_.
          case map_of (d_forms d) t of Some (DCount _) \<Rightarrow> Ok () | _ \<Rightarrow> Err (TotalNotCount t)))"

definition check_results :: "declared_plan \<Rightarrow> (declared_error, unit) result" where
  "check_results d =
     (case o_results (d_outputs d) of
        None \<Rightarrow> Ok ()
      | Some r \<Rightarrow> try_then (form_exists d (rs_form r) ''results'') (\<lambda>_.
          case map_of (d_forms d) (rs_form r) of
            Some (DSelect s) \<Rightarrow> guard (CNode (rs_uuid r) \<in> set (s_returns s)) (ResultsNoColumn (rs_form r) (rs_uuid r))
          | _ \<Rightarrow> Err (ResultsNotSelect (rs_form r))))"

definition declared_check :: "declared_plan \<Rightarrow> (declared_error, unit) result" where
  "declared_check d =
     (if d_forms d = [] then Err NoForm
      else try_then (for_each (\<lambda>nom. try_then (deplier_let d nom []) (\<lambda>_. Ok ())) (bt_keys (d_lets d))) (\<lambda>_.
           try_then (for_each (\<lambda>(i, f). map_err (InForm i) (check_form d f)) (d_forms d)) (\<lambda>_.
           try_then (check_rows d) (\<lambda>_.
           try_then (check_total d) (\<lambda>_.
           check_results d)))))"

section \<open>The check against a schema\<close>

definition verifier_bout ::
  "string \<Rightarrow> direction \<Rightarrow> string \<Rightarrow> string \<Rightarrow> plan_schema \<Rightarrow> (declared_error, unit) result" where
  "verifier_bout relation dir depuis arrivee sc =
     (case map_of (sc_relations sc) relation of
        None \<Rightarrow> Err (UnknownRelation relation)
      | Some (de, vers) \<Rightarrow>
          (let (attendu_depuis, attendu_vers) = (case dir of Outgoing \<Rightarrow> (de, vers) | Incoming \<Rightarrow> (vers, de))
           in guard (attendu_depuis = depuis \<and> attendu_vers = arrivee)
                (WrongEnds relation dir attendu_depuis attendu_vers depuis arrivee)))"

definition champs_de :: "plan_schema \<Rightarrow> string \<Rightarrow> (declared_error, string list) result" where
  "champs_de sc table = ok_or (UnknownTable table) (map_of (sc_tables sc) table)"

definition champ_dans :: "string \<Rightarrow> string \<Rightarrow> string list \<Rightarrow> (declared_error, unit) result" where
  "champ_dans table field champs = guard (field \<in> set champs) (UnknownField table field)"

fun verifier_contre ::
  "nat \<Rightarrow> declared_plan \<Rightarrow> plan_schema \<Rightarrow> predicate \<Rightarrow> string \<Rightarrow> (declared_error, unit) result" where
  "verifier_contre n d sc (Equals f _) t = try_then (champs_de sc t) (champ_dans t f)"
| "verifier_contre n d sc (Contains f _) t = try_then (champs_de sc t) (champ_dans t f)"
| "verifier_contre n d sc (AtLeast f _) t = try_then (champs_de sc t) (champ_dans t f)"
| "verifier_contre n d sc (InList f _) t = try_then (champs_de sc t) (champ_dans t f)"
| "verifier_contre n d sc (StartsWith f _) t = try_then (champs_de sc t) (champ_dans t f)"
| "verifier_contre n d sc (AnyOf v) t =
     try_then (champs_de sc t) (\<lambda>_. for_each (\<lambda>p. verifier_contre n d sc p t) v)"
| "verifier_contre n d sc (AllOf v) t =
     try_then (champs_de sc t) (\<lambda>_. for_each (\<lambda>p. verifier_contre n d sc p t) v)"
| "verifier_contre n d sc (Optional p) t = try_then (champs_de sc t) (\<lambda>_. verifier_contre n d sc p t)"
| "verifier_contre n d sc (LetRef nom) t =
     try_then (champs_de sc t) (\<lambda>_.
     case map_of (d_lets d) nom of
       None \<Rightarrow> Err (UnknownLet nom)
     | Some p \<Rightarrow> (case n of 0 \<Rightarrow> Err SchemaDiverges | Suc k \<Rightarrow> verifier_contre k d sc p t))"
| "verifier_contre n d sc (Through r dir e f) t =
     try_then (champs_de sc t) (\<lambda>_.
     try_then (verifier_bout r dir t e sc) (\<lambda>_.
     case f of Some g \<Rightarrow> verifier_contre n d sc g e | None \<Rightarrow> Ok ()))"
| "verifier_contre n d sc (Compiled _) t = try_then (champs_de sc t) (\<lambda>_. Err CompiledHere)"

definition verifier_opt ::
  "nat \<Rightarrow> declared_plan \<Rightarrow> plan_schema \<Rightarrow> predicate option \<Rightarrow> string \<Rightarrow> (declared_error, unit) result" where
  "verifier_opt n d sc p t = (case p of None \<Rightarrow> Ok () | Some q \<Rightarrow> verifier_contre n d sc q t)"

definition verifier_collect ::
  "nat \<Rightarrow> declared_plan \<Rightarrow> collect \<Rightarrow> string \<Rightarrow> plan_schema \<Rightarrow> (declared_error, unit) result" where
  "verifier_collect n d c depuis sc =
     try_then (verifier_bout (co_relation c) (co_direction c) depuis (co_end c) sc) (\<lambda>_.
     try_then (champs_de sc (co_end c)) (\<lambda>champs.
     case find (\<lambda>f. f \<notin> set champs) (co_fields c) of
       Some f \<Rightarrow> Err (CollectUnknownField (co_alias c) (co_end c) f)
     | None \<Rightarrow> verifier_opt n d sc (co_filter c) (co_end c)))"

definition verifier_extreme ::
  "nat \<Rightarrow> declared_plan \<Rightarrow> extremum \<Rightarrow> aggregate \<Rightarrow> string \<Rightarrow> plan_schema \<Rightarrow> (declared_error, unit) result" where
  "verifier_extreme n d x a depuis sc =
     map_err (OrderBy (extremum_function x) (ag_field a))
       (try_then (verifier_bout (ag_relation a) (ag_direction a) depuis (ag_end a) sc) (\<lambda>_.
        try_then (champs_de sc (ag_end a)) (\<lambda>champs.
        try_then (champ_dans (ag_end a) (ag_field a) champs) (\<lambda>_.
        verifier_opt n d sc (ag_filter a) (ag_end a)))))"

fun verifier_term ::
  "nat \<Rightarrow> declared_plan \<Rightarrow> plan_schema \<Rightarrow> string \<Rightarrow> string list \<Rightarrow> ir_term \<Rightarrow> (declared_error, unit) result" where
  "verifier_term n d sc t champs (TField c) = champ_dans t c champs"
| "verifier_term n d sc t champs (TExtremum x a) = verifier_extreme n d x a t sc"

fun verifier_column ::
  "nat \<Rightarrow> declared_plan \<Rightarrow> plan_schema \<Rightarrow> string \<Rightarrow> string list \<Rightarrow> column \<Rightarrow> (declared_error, unit) result" where
  "verifier_column n d sc t champs (CNode c) = champ_dans t c champs"
| "verifier_column n d sc t champs (CCollect c) = verifier_collect n d c t sc"
| "verifier_column n d sc t champs _ = Ok ()"

fun schema_form :: "nat \<Rightarrow> declared_plan \<Rightarrow> plan_schema \<Rightarrow> declared_form \<Rightarrow> (declared_error, unit) result" where
  "schema_form n d sc (DSelect s) =
     try_then (champs_de sc (s_table s)) (\<lambda>champs.
     try_then (verifier_opt n d sc (s_filter s) (s_table s)) (\<lambda>_.
     try_then (for_each (\<lambda>k. for_each (verifier_term n d sc (s_table s) champs) (fst (terms (ok_by k)))) (s_order_by s)) (\<lambda>_.
     for_each (verifier_column n d sc (s_table s) champs) (s_returns s))))"
| "schema_form n d sc (DCount (Matching t f)) =
     try_then (champs_de sc t) (\<lambda>_. verifier_opt n d sc f t)"
| "schema_form n d sc (DCount (Rows t)) = try_then (champs_de sc t) (\<lambda>_. Ok ())"
| "schema_form n d sc (DCount _) = Ok ()"

definition check_schema :: "nat \<Rightarrow> declared_plan \<Rightarrow> plan_schema \<Rightarrow> (declared_error, unit) result" where
  "check_schema n d sc = for_each (\<lambda>(i, f). map_err (InForm i) (schema_form n d sc f)) (d_forms d)"

section \<open>Binding\<close>

fun vide :: "ir_value \<Rightarrow> bool" where
  "vide (VList l) = (l = [])"
| "vide (VString s) = (s = [])"
| "vide VNull = True"
| "vide _ = False"

definition entier :: "call_params \<Rightarrow> string \<Rightarrow> (declared_error, nat) result" where
  "entier ps nom =
     (case map_of ps nom of
        Some (VInt n) \<Rightarrow> if 0 \<le> n then Ok (nat n) else Err (NotPositive nom (VInt n))
      | Some autre \<Rightarrow> Err (NotPositive nom autre)
      | None \<Rightarrow> Err (ParamMissing nom))"

fun params_directs :: "predicate \<Rightarrow> string list \<Rightarrow> string list" where
  "params_directs (Equals _ p) out = out @ [p]"
| "params_directs (Contains _ p) out = out @ [p]"
| "params_directs (AtLeast _ p) out = out @ [p]"
| "params_directs (InList _ p) out = out @ [p]"
| "params_directs (StartsWith _ p) out = out @ [p]"
| "params_directs (AnyOf v) out = fold params_directs v out"
| "params_directs (AllOf v) out = fold params_directs v out"
| "params_directs (Through _ _ _ (Some f)) out = params_directs f out"
| "params_directs _ out = out"

definition absent_ou_vide :: "call_params \<Rightarrow> string \<Rightarrow> bool" where
  "absent_ou_vide ps n = (case map_of ps n of None \<Rightarrow> True | Some v \<Rightarrow> vide v)"

definition lier_present ::
  "call_params \<Rightarrow> string \<Rightarrow> predicate \<Rightarrow> string list \<Rightarrow> (declared_error, string list \<times> predicate option) result" where
  "lier_present ps param p noms =
     (if bt_contains ps param then Ok (bs_insert param noms, Some p) else Err (ParamMissing param))"

definition gardes_de :: "(predicate list \<Rightarrow> predicate) \<Rightarrow> predicate option list \<Rightarrow> predicate option" where
  "gardes_de C ws = (let gardes = concat (map opt_list ws) in if gardes = [] then None else Some (C gardes))"

fun lier_predicat ::
  "call_params \<Rightarrow> string list \<Rightarrow> predicate \<Rightarrow> (declared_error, string list \<times> predicate option) result" where
  "lier_predicat ps noms (Optional q) =
     (if list_ex (absent_ou_vide ps) (params_directs q []) then Ok (noms, None) else lier_predicat ps noms q)"
| "lier_predicat ps noms (Equals f p) = lier_present ps p (Equals f p) noms"
| "lier_predicat ps noms (Contains f p) = lier_present ps p (Contains f p) noms"
| "lier_predicat ps noms (AtLeast f p) = lier_present ps p (AtLeast f p) noms"
| "lier_predicat ps noms (StartsWith f p) = lier_present ps p (StartsWith f p) noms"
| "lier_predicat ps noms (InList f p) =
     (case map_of ps p of
        None \<Rightarrow> Err (ParamMissing p)
      | Some (VList l) \<Rightarrow>
          if l = [] then Err (InEmptyList p) else Ok (bs_insert p noms, Some (InList f p))
      | Some autre \<Rightarrow> Err (InNotList p autre))"
| "lier_predicat ps noms (AnyOf v) =
     (if v = [] then Ok (noms, Some (AnyOf v))
      else try_then (thread (lier_predicat ps) noms v) (\<lambda>(noms', ws). Ok (noms', gardes_de AnyOf ws)))"
| "lier_predicat ps noms (AllOf v) =
     (if v = [] then Ok (noms, Some (AllOf v))
      else try_then (thread (lier_predicat ps) noms v) (\<lambda>(noms', ws). Ok (noms', gardes_de AllOf ws)))"
| "lier_predicat ps noms (Through r dir e (Some f)) =
     try_then (lier_predicat ps noms f) (\<lambda>(noms', g). Ok (noms', Some (Through r dir e g)))"
| "lier_predicat ps noms (Through r dir e None) = Ok (noms, Some (Through r dir e None))"
| "lier_predicat ps noms (LetRef nom) = Err (LetNotUnfolded nom)"
| "lier_predicat ps noms (Compiled _) = Err CompiledHere"

definition lier ::
  "declared_plan \<Rightarrow> call_params \<Rightarrow> string list \<Rightarrow> predicate option \<Rightarrow> (declared_error, string list \<times> predicate option) result" where
  "lier d ps noms p =
     (case p of None \<Rightarrow> Ok (noms, None)
      | Some q \<Rightarrow> try_then (deplier d q []) (\<lambda>r. lier_predicat ps noms r))"

definition bind_limit :: "call_params \<Rightarrow> limit option \<Rightarrow> (declared_error, limit option) result" where
  "bind_limit ps l =
     (case l of
        Some (LimParam param plafond) \<Rightarrow>
          try_then (entier ps param) (\<lambda>n.
          case plafond of
            Some m \<Rightarrow> if m < n then Err (AboveMax param n m) else Ok (Some (LimLiteral n))
          | None \<Rightarrow> Ok (Some (LimLiteral n)))
      | _ \<Rightarrow> Ok l)"

definition bind_offset :: "call_params \<Rightarrow> offset option \<Rightarrow> (declared_error, offset option) result" where
  "bind_offset ps l =
     (case l of
        Some (OffParam param) \<Rightarrow> try_then (entier ps param) (\<lambda>n. Ok (Some (OffLiteral n)))
      | _ \<Rightarrow> Ok l)"

definition bind_select ::
  "declared_plan \<Rightarrow> call_params \<Rightarrow> select \<Rightarrow> (declared_error, string list \<times> select) result" where
  "bind_select d ps s =
     try_then (lier d ps [] (s_filter s)) (\<lambda>(noms, f).
     try_then (thread (lier d ps) noms (get_sub_filters s)) (\<lambda>(noms', fs).
     try_then (bind_limit ps (s_limit s)) (\<lambda>l.
     try_then (bind_offset ps (s_offset s)) (\<lambda>k.
     Ok (noms', (put_sub_filters (s\<lparr>s_filter := f\<rparr>) fs)\<lparr>s_limit := l, s_offset := k\<rparr>)))))"

fun bind_form ::
  "declared_plan \<Rightarrow> call_params \<Rightarrow> declared_form \<Rightarrow> (declared_error, string list \<times> form) result" where
  "bind_form d ps (DSelect s) = try_then (bind_select d ps s) (\<lambda>(noms, t). Ok (noms, FSelect t))"
| "bind_form d ps (DCount (Matching t f)) =
     try_then (lier d ps [] f) (\<lambda>(noms, g). Ok (noms, FCount (Matching t g)))"
| "bind_form d ps (DCount c) = Ok ([], FCount c)"

definition valeur_de :: "call_params \<Rightarrow> string \<Rightarrow> query_param" where
  "valeur_de ps n = \<lparr>qp_name = n, qp_value = (case map_of ps n of Some v \<Rightarrow> v | None \<Rightarrow> VNull)\<rparr>"

definition bind_node :: "declared_plan \<Rightarrow> call_params \<Rightarrow> plan \<Rightarrow> string \<times> declared_form \<Rightarrow> (declared_error, plan) result" where
  "bind_node d ps p e =
     try_then (map_err (InForm (fst e)) (bind_form d ps (snd e))) (\<lambda>(noms, forme).
     Ok (plan_add_node p (fst e) forme (map (valeur_de ps) noms)))"

definition add_output :: "plan \<Rightarrow> string \<Rightarrow> plan" where
  "add_output p i = (if i \<in> set (p_outputs p) then p else plan_output p i)"

definition output_ids :: "outputs \<Rightarrow> string list" where
  "output_ids o1 = opt_list (o_rows o1) @ opt_list (o_total o1) @ opt_list (map_option rs_form (o_results o1))"

definition plan_bind :: "declared_plan \<Rightarrow> call_params \<Rightarrow> (declared_error, bound_plan) result" where
  "plan_bind d ps =
     try_then (fold_try (bind_node d ps) plan_new (d_forms d)) (\<lambda>p.
     let p' = foldl add_output p (output_ids (d_outputs d))
     in try_then (map_err BoundPlanInvalid (plan_check p')) (\<lambda>_.
        Ok \<lparr>b_plan = p', b_rows = o_rows (d_outputs d), b_total = o_total (d_outputs d),
            b_results = o_results (d_outputs d)\<rparr>))"

section \<open>Unfolding\<close>

fun let_free :: "predicate \<Rightarrow> bool" where
  "let_free (LetRef _) = False"
| "let_free (AnyOf v) = list_all let_free v"
| "let_free (AllOf v) = list_all let_free v"
| "let_free (Optional p) = let_free p"
| "let_free (Through _ _ _ f) = (case f of Some g \<Rightarrow> let_free g | None \<Rightarrow> True)"
| "let_free _ = True"

lemma traverse_list_all:
  assumes "traverse f xs = Inr ys" "\<And>x y. x \<in> set xs \<Longrightarrow> f x = Inr y \<Longrightarrow> P y"
  shows "list_all P ys"
  using traverse_in [OF assms(1)] assms(2) by (metis list_all_iff)

lemma deplier_let_Ok:
  assumes "deplier_let d nom chaine = Inr q"
  obtains p where "map_of (d_lets d) nom = Some p" "nom \<notin> set chaine" "deplier d p (chaine @ [nom]) = Inr q"
  using assms by (auto simp: deplier_let.simps split: if_splits option.splits)

lemma deplier_let_free:
  "deplier_let d nom chaine = Inr q \<Longrightarrow> let_free q"
  "deplier d p chaine = Inr q \<Longrightarrow> let_free q"
proof (induction d nom chaine and d p chaine arbitrary: q and q rule: deplier_let_deplier.induct)
  case (1 d nom chaine)
  from deplier_let_Ok [OF 1(2)] show ?case using 1(1) by metis
next
  case (3 d v chaine)
  then show ?case using traverse_list_all [of "\<lambda>p. deplier d p chaine" v _ let_free] by auto
next
  case (4 d v chaine)
  then show ?case using traverse_list_all [of "\<lambda>p. deplier d p chaine" v _ let_free] by auto
qed auto

lemma traverse_mono:
  assumes "traverse f xs = Inr ys" "\<And>x y. x \<in> set xs \<Longrightarrow> f x = Inr y \<Longrightarrow> g x = Inr y"
  shows "traverse g xs = Inr ys"
  using assms by (induction xs arbitrary: ys) auto

text \<open>A shorter path of citations refuses less and gives the same result.\<close>

lemma deplier_mono:
  "deplier_let d nom chaine = Inr q \<Longrightarrow> set ch \<subseteq> set chaine \<Longrightarrow> deplier_let d nom ch = Inr q"
  "deplier d p chaine = Inr q \<Longrightarrow> set ch \<subseteq> set chaine \<Longrightarrow> deplier d p ch = Inr q"
proof (induction d nom chaine and d p chaine arbitrary: q ch and q ch rule: deplier_let_deplier.induct)
  case (1 d nom chaine)
  from deplier_let_Ok [OF 1(2)] obtain p where p: "map_of (d_lets d) nom = Some p"
    and new: "nom \<notin> set chaine" and q: "deplier d p (chaine @ [nom]) = Inr q" .
  have "deplier d p (ch @ [nom]) = Inr q" using 1(3) by (intro 1(1) [OF new p q]) auto
  moreover have "nom \<notin> set ch" using new 1(3) by blast
  ultimately show ?case using p by (simp add: deplier_let.simps)
next
  case (3 d v chaine)
  from 3(2) obtain w where w: "traverse (\<lambda>p. deplier d p chaine) v = Inr w" and q: "q = AnyOf w" by auto
  have "traverse (\<lambda>p. deplier d p ch) v = Inr w" by (rule traverse_mono [OF w]) (rule 3(1) [OF _ _ 3(3)])
  then show ?case using q by simp
next
  case (4 d v chaine)
  from 4(2) obtain w where w: "traverse (\<lambda>p. deplier d p chaine) v = Inr w" and q: "q = AllOf w" by auto
  have "traverse (\<lambda>p. deplier d p ch) v = Inr w" by (rule traverse_mono [OF w]) (rule 4(1) [OF _ _ 4(3)])
  then show ?case using q by simp
next
  case (2 d nom chaine)
  show ?case using 2(1) [OF _ 2(3)] 2(2) by simp
next
  case (5 d p chaine)
  from 5(2) obtain r where "deplier d p chaine = Inr r" "q = Optional r" by auto
  then show ?case using 5(1) [OF _ 5(3)] by simp
next
  case (6 d r dir e f chaine)
  from 6(2) obtain g where "deplier d f chaine = Inr g" "q = Through r dir e (Some g)" by auto
  then show ?case using 6(1) [OF _ 6(3)] by simp
qed auto

section \<open>The schema sees the unfolded condition\<close>

lemma for_each_traverse:
  assumes "traverse f xs = Inr ys" "\<And>x y. x \<in> set xs \<Longrightarrow> f x = Inr y \<Longrightarrow> a x = b y"
  shows "for_each a xs = for_each b ys"
  using assms by (induction xs arbitrary: ys) auto

lemma verifier_needs_table:
  "champs_de sc t = Inl e \<Longrightarrow> verifier_contre n d sc p t = Inl e"
  by (cases p) auto

text \<open>
  With as much fuel as there are names left to cite, the check of a condition is the check of
  what it unfolds to, which cites nothing.
\<close>

lemma verifier_deplier:
  "deplier_let d nom chaine = Inr q \<Longrightarrow> open_lets d chaine \<le> n \<Longrightarrow>
     verifier_contre n d sc (LetRef nom) t = verifier_contre k d' sc q t"
  "deplier d p chaine = Inr q \<Longrightarrow> open_lets d chaine \<le> n \<Longrightarrow>
     verifier_contre n d sc p t = verifier_contre k d' sc q t"
proof (induction d nom chaine and d p chaine arbitrary: q n t and q n t rule: deplier_let_deplier.induct)
  case (1 d nom chaine)
  from deplier_let_Ok [OF 1(2)] obtain p where p: "map_of (d_lets d) nom = Some p"
    and new: "nom \<notin> set chaine" and q: "deplier d p (chaine @ [nom]) = Inr q" .
  from open_lets_step [OF p new] 1(3) obtain m where m: "n = Suc m" "open_lets d (chaine @ [nom]) \<le> m"
    by (cases n) auto
  have "verifier_contre m d sc p t = verifier_contre k d' sc q t" using 1(1) new p q m(2) by auto
  then show ?case using p m verifier_needs_table [of sc t _ k d' q] by (cases "champs_de sc t") auto
next
  case (3 d v chaine)
  from 3(2) obtain w where w: "traverse (\<lambda>p. deplier d p chaine) v = Inr w" and q: "q = AnyOf w" by auto
  have "for_each (\<lambda>p. verifier_contre n d sc p t) v = for_each (\<lambda>p. verifier_contre k d' sc p t) w"
    by (rule for_each_traverse [OF w]) (rule 3(1) [OF _ _ 3(3)])
  then show ?case using q by simp
next
  case (4 d v chaine)
  from 4(2) obtain w where w: "traverse (\<lambda>p. deplier d p chaine) v = Inr w" and q: "q = AllOf w" by auto
  have "for_each (\<lambda>p. verifier_contre n d sc p t) v = for_each (\<lambda>p. verifier_contre k d' sc p t) w"
    by (rule for_each_traverse [OF w]) (rule 4(1) [OF _ _ 4(3)])
  then show ?case using q by simp
next
  case (5 d p chaine)
  then show ?case by (cases "champs_de sc t") auto
next
  case (6 d r dir e f chaine)
  then show ?case by (cases "champs_de sc t"; cases "verifier_bout r dir t e sc") auto
qed auto

section \<open>Binding a condition\<close>

text \<open>The parameters a condition reads, as a set.\<close>

fun reads :: "predicate \<Rightarrow> string set" where
  "reads (Equals _ p) = {p}"
| "reads (Contains _ p) = {p}"
| "reads (AtLeast _ p) = {p}"
| "reads (InList _ p) = {p}"
| "reads (StartsWith _ p) = {p}"
| "reads (Through _ _ _ f) = (case f of Some g \<Rightarrow> reads g | None \<Rightarrow> {})"
| "reads (Optional p) = reads p"
| "reads (AnyOf v) = \<Union> (set (map reads v))"
| "reads (AllOf v) = \<Union> (set (map reads v))"
| "reads (LetRef _) = {}"
| "reads (Compiled _) = {}"

lemma set_fold_union:
  assumes "\<And>x out. x \<in> set v \<Longrightarrow> set (f x out) = set out \<union> g x"
  shows "set (fold f v out) = set out \<union> \<Union> (set (map g v))"
  using assms by (induction v arbitrary: out) auto

lemma set_params: "set (params q out) = set out \<union> reads q"
proof (induction q out rule: params.induct)
  case (9 v out)
  then show ?case using set_fold_union [of v params reads out] by simp
next
  case (10 v out)
  then show ?case using set_fold_union [of v params reads out] by simp
qed auto

lemma set_fold_params: "set (fold params v out) = set out \<union> \<Union> (set (map reads v))"
  by (rule set_fold_union) (rule set_params)

lemma names_ouvrir: "names (ouvrir p) = names p"
proof (induction p rule: names.induct)
  case (6 r d e flt)
  then show ?case by (cases flt) auto
next
  case (9 v)
  then show ?case by (cases "v = []") (simp_all add: comp_def cong: map_cong)
next
  case (10 v)
  then show ?case by (cases "v = []") (simp_all add: comp_def cong: map_cong)
qed auto

definition grows :: "call_params \<Rightarrow> string list \<Rightarrow> string list \<Rightarrow> bool" where
  "grows ps noms noms' = (set noms \<subseteq> set noms' \<and> set noms' \<subseteq> set noms \<union> fst ` set ps)"

definition bound_from :: "string list \<Rightarrow> string list \<Rightarrow> predicate option \<Rightarrow> bool" where
  "bound_from ns noms r =
     (case r of None \<Rightarrow> True
      | Some q \<Rightarrow> unresolved q = None \<and> set (names q) \<subseteq> set ns \<and> reads q \<subseteq> set noms)"

lemma grows_refl: "grows ps u u" by (simp add: grows_def)
lemma grows_trans: "grows ps u v \<Longrightarrow> grows ps v w \<Longrightarrow> grows ps u w" by (auto simp: grows_def)
lemma grows_insert: "bt_contains ps p \<Longrightarrow> grows ps noms (bs_insert p noms)"
  by (auto simp: grows_def bt_contains_iff)
lemma bound_from_mono: "bound_from ns u r \<Longrightarrow> grows ps u v \<Longrightarrow> bound_from ns v r"
  by (auto simp: bound_from_def grows_def split: option.splits)

lemma gardes_members: "concat (map opt_list ws) = gs \<Longrightarrow> q \<in> set gs \<longleftrightarrow> Some q \<in> set ws"
  by (auto simp: opt_list_def split: option.splits)

lemma bound_from_gardes:
  assumes ws: "list_all2 (\<lambda>p r. bound_from (names p) noms r) v ws"
    and C: "C = AnyOf \<or> C = AllOf"
  shows "bound_from (concat (map names v)) noms (gardes_de C ws)"
proof (cases "concat (map opt_list ws) = []")
  case False
  define gs where "gs = concat (map opt_list ws)"
  have each: "unresolved q = None \<and> set (names q) \<subseteq> set (concat (map names v)) \<and> reads q \<subseteq> set noms"
    if q: "q \<in> set gs" for q
  proof -
    have "Some q \<in> set ws" using q gardes_members [of ws gs] by (simp add: gs_def)
    then obtain i where i: "i < length ws" "ws ! i = Some q" by (auto simp: in_set_conv_nth)
    have len: "length v = length ws" using ws by (rule list_all2_lengthD)
    have "bound_from (names (v ! i)) noms (Some q)" using list_all2_nthD2 [OF ws i(1)] i(2) by simp
    moreover have "v ! i \<in> set v" using i(1) len by simp
    ultimately show ?thesis unfolding bound_from_def by auto
  qed
  then have u: "\<forall>q \<in> set gs. unresolved q = None" "\<forall>q \<in> set gs. set (names q) \<subseteq> set (concat (map names v))"
    "\<forall>q \<in> set gs. reads q \<subseteq> set noms" by blast+
  have "gs \<noteq> []" using False by (simp add: gs_def)
  then have "unresolved (C gs) = None" "names (C gs) = concat (map names gs)" "reads (C gs) = \<Union> (reads ` set gs)"
    using C u(1) by (auto simp: find_map_None)
  moreover have "gardes_de C ws = Some (C gs)" using False by (simp add: gardes_de_def gs_def)
  ultimately show ?thesis using u(2,3) by (simp add: bound_from_def UN_subset_iff)
qed (simp add: gardes_de_def bound_from_def)

lemma lier_present_spec:
  "lier_present ps n p noms = Inr (noms', r) \<Longrightarrow> unresolved p = None \<Longrightarrow> reads p \<subseteq> {n} \<Longrightarrow>
     grows ps noms noms' \<and> bound_from (names p) noms' r"
  by (auto simp: lier_present_def bound_from_def grows_insert split: if_splits)

lemma lier_thread_spec:
  assumes "thread (lier_predicat ps) noms v = Inr (noms', ws)"
    and "\<And>p u u' r. p \<in> set v \<Longrightarrow> lier_predicat ps u p = Inr (u', r) \<Longrightarrow>
           grows ps u u' \<and> bound_from (names p) u' r"
  shows "grows ps noms noms' \<and> list_all2 (\<lambda>p r. bound_from (names p) noms' r) v ws"
  by (rule thread_relates [OF assms(1), where R = "grows ps"])
    (auto intro: grows_refl grows_trans bound_from_mono dest: assms(2))

lemma lier_predicat_spec:
  "lier_predicat ps noms p = Inr (noms', r) \<Longrightarrow> grows ps noms noms' \<and> bound_from (names p) noms' r"
proof (induction ps noms p arbitrary: noms' r rule: lier_predicat.induct)
  case (7 ps noms v)
  show ?case
  proof (cases "v = []")
    case False
    with 7(2) obtain ws where t: "thread (lier_predicat ps) noms v = Inr (noms', ws)" and r: "r = gardes_de AnyOf ws"
      by auto
    show ?thesis using lier_thread_spec [OF t] 7(1) [OF False] bound_from_gardes [of noms' v ws AnyOf] False r by auto
  qed (use 7(2) in \<open>auto simp: grows_refl bound_from_def\<close>)
next
  case (8 ps noms v)
  show ?case
  proof (cases "v = []")
    case False
    with 8(2) obtain ws where t: "thread (lier_predicat ps) noms v = Inr (noms', ws)" and r: "r = gardes_de AllOf ws"
      by auto
    show ?thesis using lier_thread_spec [OF t] 8(1) [OF False] bound_from_gardes [of noms' v ws AllOf] False r by auto
  qed (use 8(2) in \<open>auto simp: grows_refl bound_from_def\<close>)
next
  case (9 ps noms rel dir e f)
  from 9(2) obtain g where g: "lier_predicat ps noms f = Inr (noms', g)" "r = Some (Through rel dir e g)" by auto
  then show ?case using 9(1) [OF g(1)] by (cases g) (auto simp: bound_from_def)
next
  case (2 ps noms f p)
  then show ?case using lier_present_spec [of ps p "Equals f p" noms noms' r] by simp
next
  case (3 ps noms f p)
  then show ?case using lier_present_spec [of ps p "Contains f p" noms noms' r] by simp
next
  case (4 ps noms f p)
  then show ?case using lier_present_spec [of ps p "AtLeast f p" noms noms' r] by simp
next
  case (5 ps noms f p)
  then show ?case using lier_present_spec [of ps p "StartsWith f p" noms noms' r] by simp
next
  case (6 ps noms f p)
  then show ?case
    by (auto simp: grows_insert bound_from_def bt_contains_def split: if_splits option.splits ir_value.splits)
qed (auto simp: grows_refl bound_from_def split: if_splits)

text \<open>
  When the call supplies every parameter with a non-empty value (a list for a membership),
  nothing is dropped: binding opens the optional conditions and changes nothing else.
\<close>

fun supplied :: "call_params \<Rightarrow> predicate \<Rightarrow> bool" where
  "supplied ps (InList _ p) = (case map_of ps p of Some (VList l) \<Rightarrow> l \<noteq> [] | _ \<Rightarrow> False)"
| "supplied ps (Equals _ p) = (\<not> absent_ou_vide ps p)"
| "supplied ps (Contains _ p) = (\<not> absent_ou_vide ps p)"
| "supplied ps (AtLeast _ p) = (\<not> absent_ou_vide ps p)"
| "supplied ps (StartsWith _ p) = (\<not> absent_ou_vide ps p)"
| "supplied ps (Through _ _ _ f) = (case f of Some g \<Rightarrow> supplied ps g | None \<Rightarrow> True)"
| "supplied ps (Optional p) = supplied ps p"
| "supplied ps (AnyOf v) = list_all (supplied ps) v"
| "supplied ps (AllOf v) = list_all (supplied ps) v"
| "supplied ps (LetRef _) = False"
| "supplied ps (Compiled _) = False"

lemma supplied_reads: "supplied ps p \<Longrightarrow> n \<in> reads p \<Longrightarrow> \<not> absent_ou_vide ps n"
proof (induction ps p rule: supplied.induct)
  case (1 ps f p)
  then show ?case by (auto simp: absent_ou_vide_def split: option.splits ir_value.splits)
qed (auto simp: list_all_iff split: option.splits)

lemma set_params_directs: "set (params_directs q out) \<subseteq> set out \<union> reads q"
proof (induction q out rule: params_directs.induct)
  case (6 v out)
  have "set (fold params_directs w o1) \<subseteq> set o1 \<union> \<Union> (set (map reads v))" if "set w \<subseteq> set v" for w o1
    using that by (induction w arbitrary: o1) (use 6 in fastforce)+
  from this [of v out] show ?case by simp
next
  case (7 v out)
  have "set (fold params_directs w o1) \<subseteq> set o1 \<union> \<Union> (set (map reads v))" if "set w \<subseteq> set v" for w o1
    using that by (induction w arbitrary: o1) (use 7 in fastforce)+
  from this [of v out] show ?case by simp
qed auto

lemma thread_all_Some:
  assumes "\<And>x u. x \<in> set v \<Longrightarrow> \<exists>u'. f u x = Inr (u', Some (g x))"
  shows "\<exists>u'. thread f u v = Inr (u', map (\<lambda>x. Some (g x)) v)"
  using assms
proof (induction v arbitrary: u)
  case (Cons x v)
  from Cons.prems [of x u] obtain t where t: "f u x = Inr (t, Some (g x))" by auto
  from Cons.IH [of t] Cons.prems obtain w where "thread f t v = Inr (w, map (\<lambda>x. Some (g x)) v)" by auto
  then show ?case using t by auto
qed simp

lemma gardes_all: "v \<noteq> [] \<Longrightarrow> gardes_de C (map (\<lambda>x. Some (g x)) v) = Some (C (map g v))"
  by (simp add: gardes_de_def opt_list_def comp_def Let_def)

lemma lier_supplied:
  "supplied ps p \<Longrightarrow> \<exists>noms'. lier_predicat ps noms p = Inr (noms', Some (ouvrir p))"
proof (induction ps noms p rule: lier_predicat.induct)
  case (1 ps noms q)
  have "\<not> list_ex (absent_ou_vide ps) (params_directs q [])"
    using set_params_directs [of q "[]"] 1(2) by (auto simp: list_ex_iff dest: supplied_reads)
  then show ?case using 1 by simp
next
  case (7 ps noms v)
  show ?case
  proof (cases "v = []")
    case False
    have "\<exists>u'. thread (lier_predicat ps) noms v = Inr (u', map (\<lambda>x. Some (ouvrir x)) v)"
      by (rule thread_all_Some) (use 7 False in \<open>auto simp: list_all_iff\<close>)
    then show ?thesis using False by (auto simp: gardes_all)
  qed simp
next
  case (8 ps noms v)
  show ?case
  proof (cases "v = []")
    case False
    have "\<exists>u'. thread (lier_predicat ps) noms v = Inr (u', map (\<lambda>x. Some (ouvrir x)) v)"
      by (rule thread_all_Some) (use 8 False in \<open>auto simp: list_all_iff\<close>)
    then show ?thesis using False by (auto simp: gardes_all)
  qed simp
qed (auto simp: lier_present_def absent_ou_vide_def bt_contains_def split: option.splits ir_value.splits)

section \<open>Binding a plan\<close>

definition bound_place :: "declared_plan \<Rightarrow> predicate option \<Rightarrow> string list \<Rightarrow> predicate option \<Rightarrow> bool" where
  "bound_place d x noms y =
     (case x of None \<Rightarrow> y = None | Some p \<Rightarrow> \<exists>r. deplier d p [] = Inr r \<and> bound_from (names r) noms y)"

lemma lier_spec:
  "lier d ps noms x = Inr (noms', y) \<Longrightarrow> grows ps noms noms' \<and> bound_place d x noms' y"
  by (cases x) (auto simp: lier_def bound_place_def grows_refl dest: lier_predicat_spec)

lemma bound_place_mono: "bound_place d x u y \<Longrightarrow> grows ps u v \<Longrightarrow> bound_place d x v y"
  by (auto simp: bound_place_def split: option.splits intro: bound_from_mono)

lemma bind_select_spec:
  assumes "bind_select d ps s = Inr (noms, t)"
  obtains f fs l k where
    "t = (put_sub_filters (s\<lparr>s_filter := f\<rparr>) fs)\<lparr>s_limit := l, s_offset := k\<rparr>"
    "grows ps [] noms" "bound_place d (s_filter s) noms f"
    "list_all2 (\<lambda>x y. bound_place d x noms y) (get_sub_filters s) fs"
    "bind_limit ps (s_limit s) = Inr l" "bind_offset ps (s_offset s) = Inr k"
proof -
  from assms obtain n1 f fs l k where
    f: "lier d ps [] (s_filter s) = Inr (n1, f)" and fs: "thread (lier d ps) n1 (get_sub_filters s) = Inr (noms, fs)"
    and l: "bind_limit ps (s_limit s) = Inr l" and k: "bind_offset ps (s_offset s) = Inr k"
    and t: "t = (put_sub_filters (s\<lparr>s_filter := f\<rparr>) fs)\<lparr>s_limit := l, s_offset := k\<rparr>"
    unfolding bind_select_def by auto
  note a = lier_spec [OF f]
  have b: "grows ps n1 noms \<and> list_all2 (\<lambda>x y. bound_place d x noms y) (get_sub_filters s) fs"
    by (rule thread_relates [OF fs, where R = "grows ps"])
      (auto intro: grows_refl grows_trans bound_place_mono dest: lier_spec)
  show thesis
  proof (rule that [OF t _ _ _ l k])
    show "grows ps [] noms" using a b grows_trans by blast
    show "bound_place d (s_filter s) noms f" using a b bound_place_mono by blast
    show "list_all2 (\<lambda>x y. bound_place d x noms y) (get_sub_filters s) fs" using b by blast
  qed
qed

text \<open>A selection whose conditions and bounds were replaced, judged by what was put in.\<close>

lemma refiltered_validate:
  assumes len: "length fs = length (get_sub_filters s)"
    and t: "t = (put_sub_filters (s\<lparr>s_filter := f\<rparr>) fs)\<lparr>s_limit := l, s_offset := k\<rparr>"
  shows "select_validate t = Inr () \<longleftrightarrow>
      (\<forall>q. Some q \<in> set (f # fs) \<longrightarrow> unresolved q = None \<and> (\<forall>n \<in> set (names q). is_valid_identifier n))
    \<and> (\<forall>c \<in> set (s_returns s). column_in_table c) \<and> limit_capped l
    \<and> (\<forall>n \<in> set (s_table s # concat (map order_key_names (s_order_by s)) @ concat (map column_idents (s_returns s))
          @ limit_params l @ offset_names k). is_valid_identifier n)"
proof -
  let ?u = "put_sub_filters (s\<lparr>s_filter := f\<rparr>) fs"
  have len': "length fs = length (get_sub_filters (s\<lparr>s_filter := f\<rparr>))" using len by (simp add: get_sub_filters_def)
  have sub: "sub_filters t = concat (map opt_list fs)"
    using put_sub_filters_laws(1) [OF len'] by (simp add: sub_filters_places t get_sub_filters_def)
  have all: "concat (map opt_list (f # fs)) = select_predicates t"
    using sub by (simp add: select_predicates_def t)
  have preds: "set (select_predicates t) = {q. Some q \<in> set (f # fs)}"
    using gardes_members [OF all] by (intro set_eqI) simp
  note v = put_sub_filters_views [OF len']
  have "(\<forall>c \<in> set (s_returns t). column_in_table c) \<longleftrightarrow> (\<forall>b \<in> set (map column_in_table (s_returns ?u)). b)"
    by (simp add: t)
  then have cols: "(\<forall>c \<in> set (s_returns t). column_in_table c) \<longleftrightarrow> (\<forall>c \<in> set (s_returns s). column_in_table c)"
    unfolding v(3) by simp
  have "select_idents t = s_table s # concat (map order_key_names (s_order_by s))
      @ concat (map column_idents (s_returns s)) @ limit_params l @ offset_names k"
    using v(1,2) by (simp add: select_idents_def t)
  then show ?thesis unfolding select_validate_iff preds cols by (simp add: t)
qed

lemma limit_closed:
  "bind_limit ps l = Inr l' \<Longrightarrow> limit_capped l' \<and> limit_params l' = []"
  "bind_offset ps k = Inr k' \<Longrightarrow> offset_names k' = []"
  by (auto simp: bind_limit_def bind_offset_def split: option.splits limit.splits offset.splits if_splits)

lemma bind_select_validates:
  assumes check: "check_select d s = Inr ()" and bind: "bind_select d ps s = Inr (noms, t)"
  shows "select_validate t = Inr ()"
proof -
  from check obtain t0 where t0: "sonde d s = Inr t0" and ok: "select_validate t0 = Inr ()"
    unfolding check_select_def by (auto split: option.splits limit.splits if_splits)
  from t0 obtain f0 fs0 where f0: "deplier_ouvert d (s_filter s) = Inr f0"
    and fs0: "list_all2 (\<lambda>x y. deplier_ouvert d x = Inr y) (get_sub_filters s) fs0"
    and t0': "t0 = (put_sub_filters (s\<lparr>s_filter := f0\<rparr>) fs0)\<lparr>s_limit := close_limit (s_limit s), s_offset := close_offset (s_offset s)\<rparr>"
    unfolding sonde_def by (auto simp: traverse_eq_Inr)
  have len0: "length fs0 = length (get_sub_filters s)" using list_all2_lengthD [OF fs0] by simp
  note ok' = ok [unfolded refiltered_validate [OF len0 t0']]
  from bind_select_spec [OF bind] obtain f fs l k where
    t: "t = (put_sub_filters (s\<lparr>s_filter := f\<rparr>) fs)\<lparr>s_limit := l, s_offset := k\<rparr>"
    and f: "bound_place d (s_filter s) noms f"
    and fs: "list_all2 (\<lambda>x y. bound_place d x noms y) (get_sub_filters s) fs"
    and l: "bind_limit ps (s_limit s) = Inr l" and k: "bind_offset ps (s_offset s) = Inr k" .
  have len: "length fs = length (get_sub_filters s)" using list_all2_lengthD [OF fs] by simp
  have pred: "unresolved q = None \<and> (\<forall>n \<in> set (names q). is_valid_identifier n)" if q: "Some q \<in> set (f # fs)" for q
  proof -
    have A: "list_all2 (\<lambda>x y. bound_place d x noms y) (s_filter s # get_sub_filters s) (f # fs)"
      and B: "list_all2 (\<lambda>x y. deplier_ouvert d x = Inr y) (s_filter s # get_sub_filters s) (f0 # fs0)"
      using f fs f0 fs0 by simp_all
    from q obtain i where i: "i < length (f # fs)" "(f # fs) ! i = Some q" by (metis in_set_conv_nth)
    let ?x = "(s_filter s # get_sub_filters s) ! i"
    have x: "bound_place d ?x noms (Some q)" using list_all2_nthD2 [OF A i(1)] i(2) by simp
    have j: "i < length (f0 # fs0)" using i(1) len len0 by simp
    have y: "deplier_ouvert d ?x = Inr ((f0 # fs0) ! i)" by (rule list_all2_nthD2 [OF B j])
    from x obtain p r where p: "?x = Some p" "deplier d p [] = Inr r" "bound_from (names r) noms (Some q)"
      by (cases ?x) (auto simp: bound_place_def)
    then have "Some (ouvrir r) \<in> set (f0 # fs0)"
      using y j nth_mem [OF j] by (simp add: deplier_ouvert_def)
    then have "\<forall>n \<in> set (names r). is_valid_identifier n" using ok' by (metis names_ouvrir)
    then show ?thesis using p(3) by (auto simp: bound_from_def)
  qed
  show ?thesis unfolding refiltered_validate [OF len t]
    using pred ok' limit_closed(1) [OF l] limit_closed(2) [OF k] by (simp add: ball_Un)
qed

text \<open>
  What binding has to give, said without its code. A condition unfolds to itself with every
  citation replaced by the condition it names. An optional condition is left out exactly when a
  parameter it reads directly (under no second \<open>optional\<close>) is absent or empty; a conjunction or
  a disjunction whose parts are all left out is left out too; a relation whose condition is
  left out keeps its existence alone.
\<close>

inductive unfolds :: "declared_plan \<Rightarrow> predicate \<Rightarrow> predicate \<Rightarrow> bool" for d where
  unfolds_let: "map_of (d_lets d) nom = Some p \<Longrightarrow> unfolds d p q \<Longrightarrow> unfolds d (LetRef nom) q"
| unfolds_any: "list_all2 (unfolds d) v w \<Longrightarrow> unfolds d (AnyOf v) (AnyOf w)"
| unfolds_all: "list_all2 (unfolds d) v w \<Longrightarrow> unfolds d (AllOf v) (AllOf w)"
| unfolds_optional: "unfolds d p q \<Longrightarrow> unfolds d (Optional p) (Optional q)"
| unfolds_through: "unfolds d f g \<Longrightarrow> unfolds d (Through r dir e (Some f)) (Through r dir e (Some g))"
| unfolds_exists: "unfolds d (Through r dir e None) (Through r dir e None)"
| unfolds_equals: "unfolds d (Equals f p) (Equals f p)"
| unfolds_contains: "unfolds d (Contains f p) (Contains f p)"
| unfolds_at_least: "unfolds d (AtLeast f p) (AtLeast f p)"
| unfolds_in_list: "unfolds d (InList f p) (InList f p)"
| unfolds_starts_with: "unfolds d (StartsWith f p) (StartsWith f p)"
| unfolds_compiled: "unfolds d (Compiled c) (Compiled c)"

inductive_simps unfolds_simps:
  "unfolds d (LetRef nom) q" "unfolds d (AnyOf v) q" "unfolds d (AllOf v) q" "unfolds d (Optional p) q"
  "unfolds d (Equals f p) q" "unfolds d (InList f p) q"

lemma deplier_unfolds:
  "deplier_let d nom chaine = Inr q \<Longrightarrow> unfolds d (LetRef nom) q"
  "deplier d p chaine = Inr q \<Longrightarrow> unfolds d p q"
proof (induction d nom chaine and d p chaine arbitrary: q and q rule: deplier_let_deplier.induct)
  case (1 d nom chaine)
  from deplier_let_Ok [OF 1(2)] show ?case using 1(1) by (metis unfolds_let)
next
  case (3 d v chaine)
  from 3(2) obtain w where w: "traverse (\<lambda>p. deplier d p chaine) v = Inr w" and q: "q = AnyOf w" by auto
  have "list_all2 (unfolds d) v w"
    using w unfolding traverse_eq_Inr by (rule list.rel_mono_strong) (rule 3(1))
  then show ?case unfolding q by (rule unfolds_any)
next
  case (4 d v chaine)
  from 4(2) obtain w where w: "traverse (\<lambda>p. deplier d p chaine) v = Inr w" and q: "q = AllOf w" by auto
  have "list_all2 (unfolds d) v w"
    using w unfolding traverse_eq_Inr by (rule list.rel_mono_strong) (rule 4(1))
  then show ?case unfolding q by (rule unfolds_all)
qed (auto intro: unfolds.intros)

fun direct_reads :: "predicate \<Rightarrow> string set" where
  "direct_reads (Equals _ p) = {p}"
| "direct_reads (Contains _ p) = {p}"
| "direct_reads (AtLeast _ p) = {p}"
| "direct_reads (InList _ p) = {p}"
| "direct_reads (StartsWith _ p) = {p}"
| "direct_reads (Through _ _ _ f) = (case f of Some g \<Rightarrow> direct_reads g | None \<Rightarrow> {})"
| "direct_reads (Optional p) = {}"
| "direct_reads (AnyOf v) = \<Union> (set (map direct_reads v))"
| "direct_reads (AllOf v) = \<Union> (set (map direct_reads v))"
| "direct_reads (LetRef _) = {}"
| "direct_reads (Compiled _) = {}"

lemma set_direct: "set (params_directs q out) = set out \<union> direct_reads q"
proof (induction q out rule: params_directs.induct)
  case (6 v out)
  then show ?case using set_fold_union [of v params_directs direct_reads out] by simp
next
  case (7 v out)
  then show ?case using set_fold_union [of v params_directs direct_reads out] by simp
qed auto

fun left_out :: "call_params \<Rightarrow> predicate \<Rightarrow> bool" where
  "left_out ps (Optional p) =
     ((\<exists>n \<in> direct_reads p. map_of ps n = None \<or> (\<exists>v. map_of ps n = Some v \<and> vide v)) \<or> left_out ps p)"
| "left_out ps (AnyOf v) = (v \<noteq> [] \<and> (\<forall>p \<in> set v. left_out ps p))"
| "left_out ps (AllOf v) = (v \<noteq> [] \<and> (\<forall>p \<in> set v. left_out ps p))"
| "left_out ps _ = False"

fun kept_part :: "call_params \<Rightarrow> predicate \<Rightarrow> predicate" where
  "kept_part ps (Optional p) = kept_part ps p"
| "kept_part ps (AnyOf v) = AnyOf (map (kept_part ps) (filter (\<lambda>p. \<not> left_out ps p) v))"
| "kept_part ps (AllOf v) = AllOf (map (kept_part ps) (filter (\<lambda>p. \<not> left_out ps p) v))"
| "kept_part ps (Through r dir e f) = Through r dir e
     (case f of None \<Rightarrow> None | Some g \<Rightarrow> if left_out ps g then None else Some (kept_part ps g))"
| "kept_part ps p = p"

definition what_is_kept :: "call_params \<Rightarrow> predicate \<Rightarrow> predicate option" where
  "what_is_kept ps p = (if left_out ps p then None else Some (kept_part ps p))"

lemma gardes_kept:
  assumes "list_all2 (\<lambda>p r. r = what_is_kept ps p) v ws"
  shows "concat (map opt_list ws) = map (kept_part ps) (filter (\<lambda>p. \<not> left_out ps p) v)"
  using assms by (induction rule: list_all2_induct) (auto simp: what_is_kept_def opt_list_def)

lemma gardes_what_is_kept:
  assumes ws: "list_all2 (\<lambda>p r. r = what_is_kept ps p) v ws" and v: "v \<noteq> []"
  shows "gardes_de AnyOf ws = what_is_kept ps (AnyOf v)" "gardes_de AllOf ws = what_is_kept ps (AllOf v)"
  using v by (auto simp: gardes_de_def gardes_kept [OF ws] what_is_kept_def filter_empty_conv)

lemma thread_kept:
  assumes "thread f s v = Inr (s', ws)" "\<And>p u u' r. p \<in> set v \<Longrightarrow> f u p = Inr (u', r) \<Longrightarrow> P p r"
  shows "list_all2 P v ws"
  using thread_relates [OF assms(1), of "\<lambda>_ _. True" "\<lambda>p _ r. P p r"] assms(2) by blast

lemma lier_predicat_kept:
  "lier_predicat ps noms p = Inr (noms', r) \<Longrightarrow> r = what_is_kept ps p"
proof (induction ps noms p arbitrary: noms' r rule: lier_predicat.induct)
  case (1 ps noms q)
  have "absent_ou_vide ps n \<longleftrightarrow> map_of ps n = None \<or> (\<exists>v. map_of ps n = Some v \<and> vide v)" for n
    by (cases "map_of ps n") (simp_all add: absent_ou_vide_def)
  then have "list_ex (absent_ou_vide ps) (params_directs q []) \<longleftrightarrow>
      (\<exists>n \<in> direct_reads q. map_of ps n = None \<or> (\<exists>v. map_of ps n = Some v \<and> vide v))"
    by (simp add: list_ex_iff set_direct)
  then show ?case using 1 by (auto simp: what_is_kept_def split: if_splits)
next
  case (7 ps noms v)
  show ?case
  proof (cases "v = []")
    case False
    with 7(2) obtain ws where t: "thread (lier_predicat ps) noms v = Inr (noms', ws)" and r: "r = gardes_de AnyOf ws"
      by auto
    show ?thesis unfolding r by (rule gardes_what_is_kept(1) [OF thread_kept [OF t 7(1) [OF False]] False])
  qed (use 7(2) in \<open>simp add: what_is_kept_def\<close>)
next
  case (8 ps noms v)
  show ?case
  proof (cases "v = []")
    case False
    with 8(2) obtain ws where t: "thread (lier_predicat ps) noms v = Inr (noms', ws)" and r: "r = gardes_de AllOf ws"
      by auto
    show ?thesis unfolding r by (rule gardes_what_is_kept(2) [OF thread_kept [OF t 8(1) [OF False]] False])
  qed (use 8(2) in \<open>simp add: what_is_kept_def\<close>)
qed (auto simp: what_is_kept_def lier_present_def split: if_splits option.splits ir_value.splits)

text \<open>A place for a condition, a limit and an offset, as declared and as bound.\<close>

definition condition_bound :: "declared_plan \<Rightarrow> call_params \<Rightarrow> predicate option \<Rightarrow> predicate option \<Rightarrow> bool" where
  "condition_bound d ps x y =
     (case x of None \<Rightarrow> y = None | Some p \<Rightarrow> \<exists>r. unfolds d p r \<and> y = what_is_kept ps r)"

definition limit_bound :: "call_params \<Rightarrow> limit option \<Rightarrow> limit option \<Rightarrow> bool" where
  "limit_bound ps x y =
     (case x of
        Some (LimParam p m) \<Rightarrow> \<exists>k. y = Some (LimLiteral k) \<and> map_of ps p = Some (VInt (int k))
          \<and> (case m of Some cap \<Rightarrow> k \<le> cap | None \<Rightarrow> True)
      | _ \<Rightarrow> y = x)"

definition offset_bound :: "call_params \<Rightarrow> offset option \<Rightarrow> offset option \<Rightarrow> bool" where
  "offset_bound ps x y =
     (case x of
        Some (OffParam p) \<Rightarrow> \<exists>k. y = Some (OffLiteral k) \<and> map_of ps p = Some (VInt (int k))
      | _ \<Rightarrow> y = x)"

text \<open>
  The bound form is the declared one with its conditions, limit and offset replaced and nothing
  else: \<open>bare_select\<close> empties the places of the conditions inside the columns and the order keys.
\<close>

fun form_bound :: "declared_plan \<Rightarrow> call_params \<Rightarrow> declared_form \<Rightarrow> form \<Rightarrow> bool" where
  "form_bound d ps (DSelect s) (FSelect t) =
     (condition_bound d ps (s_filter s) (s_filter t)
      \<and> list_all2 (condition_bound d ps) (get_sub_filters s) (get_sub_filters t)
      \<and> limit_bound ps (s_limit s) (s_limit t) \<and> offset_bound ps (s_offset s) (s_offset t)
      \<and> bare_select t = (bare_select s)\<lparr>s_filter := s_filter t, s_limit := s_limit t, s_offset := s_offset t\<rparr>)"
| "form_bound d ps (DCount (Matching t x)) (FCount (Matching t' y)) = (t' = t \<and> condition_bound d ps x y)"
| "form_bound d ps (DCount c) (FCount c') = (c' = c)"
| "form_bound d ps _ _ = False"

lemma lier_bound: "lier d ps noms x = Inr (noms', y) \<Longrightarrow> condition_bound d ps x y"
  by (cases x) (auto simp: lier_def condition_bound_def dest: deplier_unfolds(2) lier_predicat_kept)

lemma entier_given: "entier ps n = Inr k \<longleftrightarrow> map_of ps n = Some (VInt (int k))"
  by (auto simp: entier_def split: option.splits ir_value.splits)

lemma bounds_bound:
  "bind_limit ps l = Inr l' \<Longrightarrow> limit_bound ps l l'"
  "bind_offset ps k = Inr k' \<Longrightarrow> offset_bound ps k k'"
proof -
  show "limit_bound ps l l'" if b: "bind_limit ps l = Inr l'"
  proof (cases l)
    case (Some x)
    show ?thesis
    proof (cases x)
      case (LimParam p m)
      then show ?thesis using b Some
        by (cases m) (auto simp: bind_limit_def limit_bound_def entier_given split: if_splits)
    qed (use b Some in \<open>auto simp: bind_limit_def limit_bound_def\<close>)
  qed (use b in \<open>simp add: bind_limit_def limit_bound_def\<close>)
  show "offset_bound ps k k'" if "bind_offset ps k = Inr k'"
    using that by (auto simp: bind_offset_def offset_bound_def entier_given split: option.splits offset.splits)
qed

lemma bind_select_form_bound:
  assumes "bind_select d ps s = Inr (noms, t)"
  shows "form_bound d ps (DSelect s) (FSelect t)"
proof -
  from assms obtain n1 f fs l k where
    f: "lier d ps [] (s_filter s) = Inr (n1, f)" and fs: "thread (lier d ps) n1 (get_sub_filters s) = Inr (noms, fs)"
    and l: "bind_limit ps (s_limit s) = Inr l" and k: "bind_offset ps (s_offset s) = Inr k"
    and t: "t = (put_sub_filters (s\<lparr>s_filter := f\<rparr>) fs)\<lparr>s_limit := l, s_offset := k\<rparr>"
    unfolding bind_select_def by auto
  have all: "list_all2 (condition_bound d ps) (get_sub_filters s) fs" by (rule thread_kept [OF fs]) (rule lier_bound)
  then have len: "length fs = length (get_sub_filters (s\<lparr>s_filter := f\<rparr>))"
    using list_all2_lengthD by (fastforce simp: get_sub_filters_def)
  have "get_sub_filters t = fs" using put_sub_filters_laws(1) [OF len] by (simp add: t get_sub_filters_def)
  moreover have "bare_select t = (bare_select s)\<lparr>s_filter := f, s_limit := l, s_offset := k\<rparr>"
    using arg_cong [OF put_sub_filters_laws(2) [OF len], of s_returns]
      arg_cong [OF put_sub_filters_laws(2) [OF len], of s_order_by]
    by (intro select.equality) (simp_all add: t bare_select_def)
  ultimately show ?thesis using all lier_bound [OF f] bounds_bound(1) [OF l] bounds_bound(2) [OF k] by (simp add: t)
qed

lemma bind_form_form_bound:
  assumes "bind_form d ps f = Inr (noms, g)"
  shows "form_bound d ps f g"
proof (cases f)
  case (DSelect s)
  then show ?thesis using assms bind_select_form_bound by auto
next
  case (DCount c)
  then show ?thesis using assms lier_bound by (cases c) auto
qed

text \<open>What a bound form is: every condition resolved, every bound a number.\<close>

fun form_conditions :: "form \<Rightarrow> predicate list" where
  "form_conditions (FSelect s) = select_predicates s"
| "form_conditions (FCount c) = predicats_de (DCount c)"
| "form_conditions _ = []"

fun bounds_closed :: "form \<Rightarrow> bool" where
  "bounds_closed (FSelect s) = (limit_params (s_limit s) = [] \<and> offset_names (s_offset s) = [])"
| "bounds_closed _ = True"

fun declarable :: "declared_form \<Rightarrow> bool" where
  "declarable (DSelect _) = True"
| "declarable (DCount c) = count_declarable c"

definition bound_form :: "call_params \<Rightarrow> string list \<Rightarrow> form \<Rightarrow> bool" where
  "bound_form ps noms g \<longleftrightarrow>
     (\<forall>q \<in> set (form_conditions g). unresolved q = None \<and> reads q \<subseteq> set noms)
     \<and> bounds_closed g \<and> set noms \<subseteq> fst ` set ps"

lemma bound_place_Some: "bound_place d x noms (Some q) \<Longrightarrow> unresolved q = None \<and> reads q \<subseteq> set noms"
  by (auto simp: bound_place_def bound_from_def split: option.splits)

lemma bind_select_bound:
  assumes "bind_select d ps s = Inr (noms, t)"
  shows "bound_form ps noms (FSelect t)"
proof -
  from bind_select_spec [OF assms] obtain f fs l k where
    t: "t = (put_sub_filters (s\<lparr>s_filter := f\<rparr>) fs)\<lparr>s_limit := l, s_offset := k\<rparr>"
    and g: "grows ps [] noms" and f: "bound_place d (s_filter s) noms f"
    and fs: "list_all2 (\<lambda>x y. bound_place d x noms y) (get_sub_filters s) fs"
    and l: "bind_limit ps (s_limit s) = Inr l" and k: "bind_offset ps (s_offset s) = Inr k" .
  have len: "length fs = length (get_sub_filters (s\<lparr>s_filter := f\<rparr>))"
    using list_all2_lengthD [OF fs] by (simp add: get_sub_filters_def)
  have "sub_filters t = concat (map opt_list fs)"
    using put_sub_filters_laws(1) [OF len] by (simp add: sub_filters_places t get_sub_filters_def)
  then have all: "concat (map opt_list (f # fs)) = select_predicates t" by (simp add: select_predicates_def t)
  have "unresolved q = None \<and> reads q \<subseteq> set noms" if "q \<in> set (select_predicates t)" for q
  proof -
    have "Some q \<in> set (f # fs)" using that gardes_members [OF all] by simp
    then consider "f = Some q" | i where "i < length fs" "fs ! i = Some q" by (auto simp: in_set_conv_nth)
    then show ?thesis
    proof cases
      case 1
      then show ?thesis using f bound_place_Some by blast
    next
      case (2 i)
      then show ?thesis using list_all2_nthD2 [OF fs 2(1)] bound_place_Some by simp
    qed
  qed
  then show ?thesis using limit_closed(1) [OF l] limit_closed(2) [OF k] g by (simp add: bound_form_def t grows_def)
qed

lemma bind_form_bound:
  assumes "bind_form d ps f = Inr (noms, g)" "declarable f"
  shows "bound_form ps noms g"
proof (cases f)
  case (DSelect s)
  then show ?thesis using assms(1) bind_select_bound by auto
next
  case (DCount c)
  show ?thesis
  proof (cases c)
    case (Matching t p)
    then obtain q where q: "lier d ps [] p = Inr (noms, q)" "g = FCount (Matching t q)" using assms(1) DCount by auto
    then show ?thesis using lier_spec [OF q(1)]
      by (cases q) (auto simp: bound_form_def opt_list_def grows_def dest: bound_place_Some)
  qed (use assms DCount in \<open>auto simp: bound_form_def\<close>)
qed

text \<open>The nodes of the bound plan are the declared forms, in order, each with its values.\<close>

definition node_from :: "declared_plan \<Rightarrow> call_params \<Rightarrow> string \<times> declared_form \<Rightarrow> plan_node \<Rightarrow> bool" where
  "node_from d ps e n \<longleftrightarrow> pn_id n = fst e
     \<and> (\<exists>noms. bind_form d ps (snd e) = Inr (noms, pn_form n) \<and> pn_params n = map (valeur_de ps) noms)"

lemma valeur_de_given: "n \<in> fst ` set ps \<Longrightarrow> map_of ps n = Some (qp_value (valeur_de ps n))"
  by (cases "map_of ps n") (simp_all add: valeur_de_def map_of_eq_None_iff)

lemma bind_node_Ok:
  "bind_node d ps p e = Inr p' \<longleftrightarrow> (\<exists>noms g. bind_form d ps (snd e) = Inr (noms, g)
     \<and> p' = plan_add_node p (fst e) g (map (valeur_de ps) noms))"
  by (auto simp: bind_node_def)

lemma bind_nodes_spec:
  "fold_try (bind_node d ps) p es = Inr p' \<Longrightarrow>
     p_edges p' = p_edges p \<and> p_outputs p' = p_outputs p
     \<and> (\<exists>ns. p_nodes p' = p_nodes p @ ns \<and> list_all2 (node_from d ps) es ns)"
proof (induction es arbitrary: p)
  case (Cons e es)
  from Cons.prems obtain noms g where b: "bind_form d ps (snd e) = Inr (noms, g)"
    and r: "fold_try (bind_node d ps) (plan_add_node p (fst e) g (map (valeur_de ps) noms)) es = Inr p'"
    by (auto simp: bind_node_Ok)
  let ?n = "\<lparr>pn_id = fst e, pn_form = g, pn_params = map (valeur_de ps) noms\<rparr>"
  from Cons.IH [OF r] obtain ns where "p_nodes p' = (p_nodes p @ [?n]) @ ns" "list_all2 (node_from d ps) es ns"
    and "p_edges p' = p_edges p" "p_outputs p' = p_outputs p" by (auto simp: plan_add_node_def)
  moreover have "node_from d ps e ?n" using b by (simp add: node_from_def)
  ultimately show ?case by (intro conjI exI [of _ "?n # ns"]) simp_all
qed simp

lemma add_outputs_spec:
  "p_nodes (foldl add_output p is) = p_nodes p \<and> p_edges (foldl add_output p is) = p_edges p
     \<and> set (p_outputs (foldl add_output p is)) = set (p_outputs p) \<union> set is"
  by (induction "is" arbitrary: p) (auto simp: add_output_def plan_output_def)

lemma bound_nodes_ids:
  "list_all2 (node_from d ps) es ns \<Longrightarrow> map pn_id ns = map fst es"
  by (induction rule: list_all2_induct) (auto simp: node_from_def)

lemma plan_bind_spec:
  assumes "plan_bind d ps = Inr b"
  shows "list_all2 (node_from d ps) (d_forms d) (p_nodes (b_plan b))" "p_edges (b_plan b) = []"
    "set (p_outputs (b_plan b)) = set (output_ids (d_outputs d))" "plan_ok (b_plan b)"
    "b_rows b = o_rows (d_outputs d)" "b_total b = o_total (d_outputs d)" "b_results b = o_results (d_outputs d)"
proof -
  from assms obtain p r where p: "fold_try (bind_node d ps) plan_new (d_forms d) = Inr p"
    and c: "plan_check (foldl add_output p (output_ids (d_outputs d))) = Inr r"
    and b: "b = \<lparr>b_plan = foldl add_output p (output_ids (d_outputs d)), b_rows = o_rows (d_outputs d),
      b_total = o_total (d_outputs d), b_results = o_results (d_outputs d)\<rparr>"
    unfolding plan_bind_def Let_def by auto
  note n = bind_nodes_spec [OF p] and o1 = add_outputs_spec [of p "output_ids (d_outputs d)"]
  have "is_ok (plan_check (b_plan b))" using c b by simp
  then show "plan_ok (b_plan b)" by (simp add: plan_check_ok)
  show "list_all2 (node_from d ps) (d_forms d) (p_nodes (b_plan b))" "p_edges (b_plan b) = []"
    "set (p_outputs (b_plan b)) = set (output_ids (d_outputs d))"
    "b_rows b = o_rows (d_outputs d)" "b_total b = o_total (d_outputs d)" "b_results b = o_results (d_outputs d)"
    using n o1 b by (auto simp: plan_new_def)
qed

text \<open>
  The errors that are the call's: each is one only for the value (or the absence of a value) the
  call really has under the name the error carries. A condition already compiled, which the
  reader of a template never gives, is no fault of the call.
\<close>

fun call_fault :: "call_params \<Rightarrow> declared_error \<Rightarrow> bool" where
  "call_fault ps (ParamMissing p) = (map_of ps p = None)"
| "call_fault ps (NotPositive p v) = (map_of ps p = Some v \<and> (\<forall>k::nat. v \<noteq> VInt (int k)))"
| "call_fault ps (AboveMax p k m) = (map_of ps p = Some (VInt (int k)) \<and> m < k)"
| "call_fault ps (InEmptyList p) = (map_of ps p = Some (VList []))"
| "call_fault ps (InNotList p v) = (map_of ps p = Some v \<and> (\<forall>l. v \<noteq> VList l))"
| "call_fault ps _ = False"

fun has_compiled :: "predicate \<Rightarrow> bool" where
  "has_compiled (Compiled _) = True"
| "has_compiled (AnyOf v) = list_ex has_compiled v"
| "has_compiled (AllOf v) = list_ex has_compiled v"
| "has_compiled (Optional p) = has_compiled p"
| "has_compiled (Through _ _ _ f) = (case f of Some g \<Rightarrow> has_compiled g | None \<Rightarrow> False)"
| "has_compiled _ = False"

definition cites_compiled :: "declared_plan \<Rightarrow> declared_form \<Rightarrow> bool" where
  "cites_compiled d f \<longleftrightarrow> (\<exists>p \<in> set (predicats_de f). \<exists>r. unfolds d p r \<and> has_compiled r)"

fun count_names_valid :: "declared_plan \<Rightarrow> declared_form \<Rightarrow> bool" where
  "count_names_valid d (DCount (Rows t)) = is_valid_identifier t"
| "count_names_valid d (DCount (Matching t f)) =
     (is_valid_identifier t \<and>
      (case f of None \<Rightarrow> True
       | Some p \<Rightarrow> (case deplier d p [] of Inl _ \<Rightarrow> True | Inr r \<Rightarrow> list_all is_valid_identifier (names r))))"
| "count_names_valid d _ = True"

lemma thread_error:
  assumes "thread f s xs = Inl e" "\<And>u x e. x \<in> set xs \<Longrightarrow> f u x = Inl e \<Longrightarrow> P e"
  shows "P e"
  using assms by (induction xs arbitrary: s) (auto simp: try_then_eq_Inl)

lemma lier_predicat_error:
  "lier_predicat ps noms p = Inl e \<Longrightarrow> let_free p \<Longrightarrow> call_fault ps e \<or> (e = CompiledHere \<and> has_compiled p)"
proof (induction ps noms p arbitrary: e rule: lier_predicat.induct)
  case (7 ps noms v)
  then have v: "v \<noteq> []" and t: "thread (lier_predicat ps) noms v = Inl e"
    by (auto simp: try_then_eq_Inl split: if_splits)
  show ?case by (rule thread_error [OF t]) (use 7(1) [OF v] 7(3) in \<open>fastforce simp: list_all_iff list_ex_iff\<close>)
next
  case (8 ps noms v)
  then have v: "v \<noteq> []" and t: "thread (lier_predicat ps) noms v = Inl e"
    by (auto simp: try_then_eq_Inl split: if_splits)
  show ?case by (rule thread_error [OF t]) (use 8(1) [OF v] 8(3) in \<open>fastforce simp: list_all_iff list_ex_iff\<close>)
qed (auto simp: lier_present_def bt_contains_def try_then_eq_Inl split: if_splits option.splits ir_value.splits)

lemma lier_error:
  assumes "lier d ps noms x = Inl e" "\<forall>p \<in> set (opt_list x). is_ok (deplier d p [])"
  shows "call_fault ps e \<or> (e = CompiledHere \<and> (\<exists>p \<in> set (opt_list x). \<exists>r. unfolds d p r \<and> has_compiled r))"
proof -
  from assms(1) obtain p where x: "x = Some p" by (cases x) (auto simp: lier_def)
  then obtain r where r: "deplier d p [] = Inr r" using assms(2) by (auto simp: opt_list_def is_ok_iff)
  then have "lier_predicat ps noms r = Inl e" using assms(1) x by (simp add: lier_def)
  from lier_predicat_error [OF this deplier_let_free(2) [OF r]] deplier_unfolds(2) [OF r] x show ?thesis
    by (auto simp: opt_list_def)
qed

lemma entier_error: "entier ps n = Inl e \<Longrightarrow> call_fault ps e"
  by (auto simp: entier_def split: option.splits ir_value.splits if_splits)

lemma bind_bounds_error: "bind_limit ps l = Inl e \<Longrightarrow> call_fault ps e" "bind_offset ps k = Inl e \<Longrightarrow> call_fault ps e"
proof -
  show "call_fault ps e" if b: "bind_limit ps l = Inl e"
  proof (cases l)
    case (Some x)
    show ?thesis
    proof (cases x)
      case (LimParam p m)
      then show ?thesis using b Some
        by (cases m) (auto simp: bind_limit_def try_then_eq_Inl entier_given split: if_splits dest: entier_error)
    qed (use b Some in \<open>simp add: bind_limit_def\<close>)
  qed (use b in \<open>simp add: bind_limit_def\<close>)
  show "call_fault ps e" if "bind_offset ps k = Inl e"
    using that by (auto simp: bind_offset_def try_then_eq_Inl dest: entier_error split: option.splits offset.splits)
qed

lemma bind_select_error:
  assumes e: "bind_select d ps s = Inl e" and ok: "\<forall>p \<in> set (predicats_de (DSelect s)). is_ok (deplier d p [])"
  shows "call_fault ps e \<or> (e = CompiledHere \<and> cites_compiled d (DSelect s))"
proof -
  have sub: "set (opt_list x) \<subseteq> set (predicats_de (DSelect s))" if "x \<in> set (get_sub_filters s)" for x
    using that by (auto simp: sub_filters_places)
  from e consider "lier d ps [] (s_filter s) = Inl e"
    | n where "thread (lier d ps) n (get_sub_filters s) = Inl e"
    | "bind_limit ps (s_limit s) = Inl e" | "bind_offset ps (s_offset s) = Inl e"
    unfolding bind_select_def by (auto simp: try_then_eq_Inl)
  then show ?thesis
  proof cases
    case 1
    from lier_error [OF 1] ok show ?thesis by (auto simp: cites_compiled_def)
  next
    case (2 n)
    then show ?thesis
      by (rule thread_error) (use lier_error sub ok in \<open>unfold cites_compiled_def, blast\<close>)
  qed (auto dest: bind_bounds_error)
qed

lemma check_form_parts:
  assumes "check_form d f = Inr ()"
  shows "\<forall>p \<in> set (predicats_de f). is_ok (deplier d p [])" "declarable f"
    "\<And>s. f = DSelect s \<Longrightarrow> check_select d s = Inr ()"
proof -
  have "is_ok (traverse (\<lambda>p. deplier d p []) (predicats_de f))" using assms by (cases f) (auto simp: is_ok_iff)
  then show "\<forall>p \<in> set (predicats_de f). is_ok (deplier d p [])" by (simp add: traverse_is_ok)
  show "declarable f" using assms by (cases f) auto
  show "check_select d s = Inr ()" if "f = DSelect s" for s using assms that by auto
qed

lemma bind_form_error:
  assumes e: "bind_form d ps f = Inl e" and ok: "check_form d f = Inr ()"
  shows "call_fault ps e \<or> (e = CompiledHere \<and> cites_compiled d f)"
proof (cases f)
  case (DSelect s)
  then have "bind_select d ps s = Inl e" using e by (auto simp: try_then_eq_Inl)
  then show ?thesis unfolding DSelect by (rule bind_select_error) (use check_form_parts(1) [OF ok] DSelect in simp)
next
  case (DCount c)
  show ?thesis
  proof (cases c)
    case (Matching t p)
    then have "lier d ps [] p = Inl e" using e DCount by (auto simp: try_then_eq_Inl)
    from lier_error [OF this] check_form_parts(1) [OF ok] show ?thesis
      unfolding DCount Matching cites_compiled_def by simp
  qed (use e DCount in auto)
qed

lemma bind_form_validates:
  assumes b: "bind_form d ps f = Inr (noms, g)" and ok: "check_form d f = Inr ()" and c: "count_names_valid d f"
  shows "form_validate g = Inr ()"
proof (cases f)
  case (DSelect s)
  then show ?thesis using b check_form_parts(3) [OF ok DSelect] bind_select_validates by auto
next
  case (DCount c')
  show ?thesis
  proof (cases c')
    case (Rows t)
    then show ?thesis using b c DCount by (auto simp: count_validate_def)
  next
    case (Matching t p)
    then obtain q where q: "lier d ps [] p = Inr (noms, q)" "g = FCount (Matching t q)" using b DCount by auto
    have "is_valid_identifier n" if n: "n \<in> set (opt_names q)" for n
    proof -
      from n obtain q' where q': "q = Some q'" "n \<in> set (names q')" by (cases q) (auto simp: opt_names_def)
      then obtain p' r where r: "p = Some p'" "deplier d p' [] = Inr r" "bound_from (names r) noms (Some q')"
        using lier_spec [OF q(1)] by (cases p) (auto simp: bound_place_def)
      then show ?thesis using q'(2) c DCount Matching by (auto simp: bound_from_def list_all_iff)
    qed
    then show ?thesis using c DCount Matching q(2) by (cases q) (auto simp: count_validate_def opt_names_def)
  qed (use check_form_parts(2) [OF ok] DCount in auto)
qed

lemma fold_try_error:
  assumes "fold_try f s xs = Inl e" "\<And>u x e. x \<in> set xs \<Longrightarrow> f u x = Inl e \<Longrightarrow> P e"
  shows "P e"
  using assms by (induction xs arbitrary: s) (auto simp: try_then_eq_Inl)

lemma declared_check_parts:
  assumes "declared_check d = Inr ()"
  shows "d_forms d \<noteq> []" "\<And>i f. (i, f) \<in> set (d_forms d) \<Longrightarrow> check_form d f = Inr ()"
    "set (output_ids (d_outputs d)) \<subseteq> set (bt_keys (d_forms d))"
    "\<And>nom. nom \<in> set (bt_keys (d_lets d)) \<Longrightarrow> is_ok (deplier_let d nom [])"
proof -
  from assms show "d_forms d \<noteq> []" by (auto simp: declared_check_def split: if_splits)
  from assms have lets: "\<forall>nom \<in> set (bt_keys (d_lets d)). is_ok (deplier_let d nom [])"
    and forms: "\<forall>e \<in> set (d_forms d). check_form d (snd e) = Inr ()"
    and r: "check_rows d = Inr ()" and t: "check_total d = Inr ()" and s: "check_results d = Inr ()"
    by (auto simp: declared_check_def is_ok_iff split: if_splits)
  from lets show "\<And>nom. nom \<in> set (bt_keys (d_lets d)) \<Longrightarrow> is_ok (deplier_let d nom [])" by blast
  from forms show "check_form d f = Inr ()" if "(i, f) \<in> set (d_forms d)" for i f using that by force
  have "\<forall>i \<in> set (opt_list (o_rows (d_outputs d))). bt_contains (d_forms d) i"
    using r by (auto simp: check_rows_def form_exists_def opt_list_def split: option.splits)
  moreover have "\<forall>i \<in> set (opt_list (o_total (d_outputs d))). bt_contains (d_forms d) i"
    using t by (auto simp: check_total_def form_exists_def opt_list_def split: option.splits)
  moreover have "\<forall>i \<in> set (opt_list (map_option rs_form (o_results (d_outputs d)))). bt_contains (d_forms d) i"
    using s by (auto simp: check_results_def form_exists_def opt_list_def split: option.splits)
  ultimately show "set (output_ids (d_outputs d)) \<subseteq> set (bt_keys (d_forms d))"
    by (auto simp: output_ids_def bt_contains_iff bt_keys_def)
qed

lemma plan_bind_error:
  assumes check: "declared_check d = Inr ()" and wf: "bt_wf (d_forms d)"
    and err: "plan_bind d ps = Inl e"
  shows "(\<exists>i f x. (i, f) \<in> set (d_forms d) \<and> e = InForm i x
            \<and> (call_fault ps x \<or> (x = CompiledHere \<and> cites_compiled d f)))
      \<or> (\<exists>i f x. (i, f) \<in> set (d_forms d) \<and> e = BoundPlanInvalid x \<and> \<not> count_names_valid d f)"
proof (cases "fold_try (bind_node d ps) plan_new (d_forms d)")
  case (Inl x)
  have "\<exists>i f y. (i, f) \<in> set (d_forms d) \<and> x = InForm i y
      \<and> (call_fault ps y \<or> (y = CompiledHere \<and> cites_compiled d f))"
  proof (rule fold_try_error [OF Inl])
    fix u e z assume e: "e \<in> set (d_forms d)" and b: "bind_node d ps u e = Inl z"
    then obtain y where y: "bind_form d ps (snd e) = Inl y" "z = InForm (fst e) y"
      by (cases "bind_form d ps (snd e)") (auto simp: bind_node_def)
    have "(fst e, snd e) \<in> set (d_forms d)" using e by simp
    then show "\<exists>i f y. (i, f) \<in> set (d_forms d) \<and> z = InForm i y
        \<and> (call_fault ps y \<or> (y = CompiledHere \<and> cites_compiled d f))"
      using bind_form_error [OF y(1) declared_check_parts(2) [OF check]] y(2) by blast
  qed
  then show ?thesis using Inl err by (simp add: plan_bind_def)
next
  case (Inr p)
  let ?p = "foldl add_output p (output_ids (d_outputs d))"
  note sp = bind_nodes_spec [OF Inr] and o1 = add_outputs_spec [of p "output_ids (d_outputs d)"]
  from sp o1 have ns: "list_all2 (node_from d ps) (d_forms d) (p_nodes ?p)" and es: "p_edges ?p = []"
    and os: "set (p_outputs ?p) = set (output_ids (d_outputs d))" by (auto simp: plan_new_def)
  have ids: "plan_ids ?p = bt_keys (d_forms d)" using bound_nodes_ids [OF ns] by (simp add: plan_ids_def bt_keys_def)
  have valid: "plan_ok ?p" if counts: "\<forall>e \<in> set (d_forms d). count_names_valid d (snd e)"
  proof -
    have "form_validate (pn_form n) = Inr ()" if n: "n \<in> set (p_nodes ?p)" for n
    proof -
      obtain e where e: "e \<in> set (d_forms d)" "node_from d ps e n"
        using n ns by (metis in_set_conv_nth list_all2_nthD2 list_all2_lengthD)
      then obtain noms where "bind_form d ps (snd e) = Inr (noms, pn_form n)" by (auto simp: node_from_def)
      then show ?thesis
        using bind_form_validates declared_check_parts(2) [OF check, of "fst e" "snd e"] counts e(1) by simp
    qed
    then show ?thesis
      unfolding plan_ok_def using declared_check_parts(3) [OF check] os es ids bt_wf_distinct [OF wf]
      by (simp add: plan_links_def bt_keys_def acyclic_def)
  qed
  from err Inr obtain x where x: "plan_check ?p = Inl x" "e = BoundPlanInvalid x"
    by (cases "plan_check ?p") (auto simp: plan_bind_def Let_def try_then_eq_Inl)
  then have "\<not> plan_ok ?p" by (simp flip: plan_check_ok)
  then show ?thesis using valid x(2) by fastforce
qed

section \<open>The parameters that matter\<close>

text \<open>\<open>param_names\<close> lists every parameter a binding can look at: two calls that agree there agree.\<close>

definition agree :: "string set \<Rightarrow> call_params \<Rightarrow> call_params \<Rightarrow> bool" where
  "agree X ps ps' \<longleftrightarrow> (\<forall>n \<in> X. map_of ps n = map_of ps' n)"

lemma agree_mono: "agree X ps ps' \<Longrightarrow> Y \<subseteq> X \<Longrightarrow> agree Y ps ps'"
  by (auto simp: agree_def)

definition let_reads :: "declared_plan \<Rightarrow> string set" where
  "let_reads d = \<Union> (reads ` snd ` set (d_lets d))"

lemma traverse_reads:
  assumes "traverse f v = Inr w" "\<And>p q. p \<in> set v \<Longrightarrow> f p = Inr q \<Longrightarrow> reads q \<subseteq> reads p \<union> L"
  shows "\<Union> (reads ` set w) \<subseteq> \<Union> (reads ` set v) \<union> L"
  using assms by (induction v arbitrary: w) fastforce+

lemma deplier_reads:
  "deplier_let d nom chaine = Inr q \<Longrightarrow> reads q \<subseteq> let_reads d"
  "deplier d p chaine = Inr q \<Longrightarrow> reads q \<subseteq> reads p \<union> let_reads d"
proof (induction d nom chaine and d p chaine arbitrary: q and q rule: deplier_let_deplier.induct)
  case (1 d nom chaine)
  from deplier_let_Ok [OF 1(2)] obtain p where p: "map_of (d_lets d) nom = Some p"
    "nom \<notin> set chaine" "deplier d p (chaine @ [nom]) = Inr q" .
  then have "reads p \<subseteq> let_reads d" by (force simp: let_reads_def dest: map_of_SomeD)
  then show ?case using 1(1) [OF p(2,1,3)] by blast
next
  case (3 d v chaine)
  from 3(2) obtain w where w: "traverse (\<lambda>p. deplier d p chaine) v = Inr w" "q = AnyOf w" by auto
  then show ?case using traverse_reads [OF w(1), of "let_reads d"] 3(1) by simp
next
  case (4 d v chaine)
  from 4(2) obtain w where w: "traverse (\<lambda>p. deplier d p chaine) v = Inr w" "q = AllOf w" by auto
  then show ?case using traverse_reads [OF w(1), of "let_reads d"] 4(1) by simp
qed auto

lemma lier_present_agree: "agree {n} ps ps' \<Longrightarrow> lier_present ps n p noms = lier_present ps' n p noms"
  by (simp add: lier_present_def agree_def bt_contains_def)

lemma lier_predicat_agree:
  "agree (reads p) ps ps' \<Longrightarrow> lier_predicat ps noms p = lier_predicat ps' noms p"
proof (induction ps noms p rule: lier_predicat.induct)
  case (1 ps noms q)
  have "absent_ou_vide ps n = absent_ou_vide ps' n" if "n \<in> set (params_directs q [])" for n
    using that set_params_directs [of q "[]"] 1(2) by (auto simp: agree_def absent_ou_vide_def)
  then have "list_ex (absent_ou_vide ps) (params_directs q []) = list_ex (absent_ou_vide ps') (params_directs q [])"
    by (simp add: list_ex_iff)
  then show ?case using 1 by simp
next
  case (7 ps noms v)
  then have "thread (lier_predicat ps) noms v = thread (lier_predicat ps') noms v" if "v \<noteq> []"
    using that by (intro thread_cong) (auto simp: agree_def)
  then show ?case by simp
next
  case (8 ps noms v)
  then have "thread (lier_predicat ps) noms v = thread (lier_predicat ps') noms v" if "v \<noteq> []"
    using that by (intro thread_cong) (auto simp: agree_def)
  then show ?case by simp
next
  case (6 ps noms f p)
  then show ?case by (simp add: agree_def)
qed (auto intro: lier_present_agree)

lemma lier_agree:
  assumes "agree (\<Union> (reads ` set (opt_list x)) \<union> let_reads d) ps ps'"
  shows "lier d ps noms x = lier d ps' noms x"
proof (cases x)
  case (Some p)
  have "lier_predicat ps noms r = lier_predicat ps' noms r" if "deplier d p [] = Inr r" for r
    using agree_mono [OF assms, of "reads r"] deplier_reads(2) [OF that] Some
    by (intro lier_predicat_agree) (auto simp: opt_list_def)
  then show ?thesis using Some by (cases "deplier d p []") (simp_all add: lier_def)
qed (simp add: lier_def)

fun form_reads :: "declared_form \<Rightarrow> string set" where
  "form_reads (DSelect s) = \<Union> (reads ` set (predicats_de (DSelect s)))
     \<union> set (limit_params (s_limit s)) \<union> set (offset_names (s_offset s))"
| "form_reads (DCount c) = \<Union> (reads ` set (predicats_de (DCount c)))"

lemma set_form_params: "set (form_params f out) = set out \<union> form_reads f"
proof (cases f)
  case (DSelect s)
  show ?thesis unfolding DSelect
    by (cases "s_limit s"; cases "s_offset s"; cases "s_filter s")
      (auto simp: Let_def opt_params_def opt_list_def set_params set_fold_params split: limit.splits offset.splits)
next
  case (DCount c)
  show ?thesis unfolding DCount
    by (cases "(DCount c, out)" rule: form_params.cases) (auto simp: set_params opt_list_def split: option.splits)
qed

lemma set_param_names: "set (param_names d) = let_reads d \<union> \<Union> (form_reads ` snd ` set (d_forms d))"
proof -
  have "set (fold form_params fs out) = set out \<union> \<Union> (set (map form_reads fs))" for fs out
    by (rule set_fold_union) (rule set_form_params)
  then show ?thesis by (simp add: param_names_def set_fold_params let_reads_def image_image)
qed

lemma entier_agree: "agree {n} ps ps' \<Longrightarrow> entier ps n = entier ps' n"
  by (simp add: entier_def agree_def)

lemma bind_form_agree:
  assumes "agree (form_reads f \<union> let_reads d) ps ps'"
  shows "bind_form d ps f = bind_form d ps' f"
proof (cases f)
  case (DSelect s)
  have one: "lier d ps n x = lier d ps' n x" if "\<Union> (reads ` set (opt_list x)) \<subseteq> form_reads f" for n x
    using that by (intro lier_agree agree_mono [OF assms]) blast
  have "lier d ps n (s_filter s) = lier d ps' n (s_filter s)" for n
    by (rule one) (auto simp: DSelect)
  moreover have "thread (lier d ps) n (get_sub_filters s) = thread (lier d ps') n (get_sub_filters s)" for n
  proof (rule thread_cong [OF refl refl])
    fix x u assume "x \<in> set (get_sub_filters s)"
    then show "lier d ps u x = lier d ps' u x" by (intro one) (auto simp: DSelect sub_filters_places)
  qed
  moreover have "bind_limit ps (s_limit s) = bind_limit ps' (s_limit s)"
    using assms DSelect entier_agree [of _ ps ps']
    by (auto simp: bind_limit_def agree_def split: option.splits limit.splits)
  moreover have "bind_offset ps (s_offset s) = bind_offset ps' (s_offset s)"
    using assms DSelect entier_agree [of _ ps ps']
    by (auto simp: bind_offset_def agree_def split: option.splits offset.splits)
  ultimately show ?thesis using DSelect by (simp add: bind_select_def)
next
  case (DCount c)
  have "lier d ps [] p = lier d ps' [] p" if "c = Matching t p" for t p
    using that by (intro lier_agree agree_mono [OF assms]) (simp add: DCount)
  then show ?thesis using DCount by (cases c) simp_all
qed

lemma thread_noms:
  assumes "thread f u v = Inr (u', ws)"
    and "\<And>x n n' y. x \<in> set v \<Longrightarrow> f n x = Inr (n', y) \<Longrightarrow> set n' \<subseteq> set n \<union> X"
  shows "set u' \<subseteq> set u \<union> X"
  using thread_relates [OF assms(1), where R = "\<lambda>a b. set b \<subseteq> set a \<union> X" and P = "\<lambda>_ _ _. True"] assms(2)
  by blast

lemma lier_predicat_noms:
  "lier_predicat ps noms p = Inr (noms', r) \<Longrightarrow> set noms' \<subseteq> set noms \<union> reads p"
proof (induction ps noms p arbitrary: noms' r rule: lier_predicat.induct)
  case (7 ps noms v)
  show ?case
  proof (cases "v = []")
    case False
    with 7(2) obtain ws where t: "thread (lier_predicat ps) noms v = Inr (noms', ws)" by auto
    show ?thesis by (rule thread_noms [OF t]) (use 7(1) [OF False] in fastforce)
  qed (use 7(2) in simp)
next
  case (8 ps noms v)
  show ?case
  proof (cases "v = []")
    case False
    with 8(2) obtain ws where t: "thread (lier_predicat ps) noms v = Inr (noms', ws)" by auto
    show ?thesis by (rule thread_noms [OF t]) (use 8(1) [OF False] in fastforce)
  qed (use 8(2) in simp)
qed (auto simp: lier_present_def split: if_splits option.splits ir_value.splits)

lemma lier_noms:
  assumes "lier d ps noms x = Inr (noms', y)" "\<Union> (reads ` set (opt_list x)) \<union> let_reads d \<subseteq> X"
  shows "set noms' \<subseteq> set noms \<union> X"
proof (cases x)
  case (Some p)
  then obtain r where r: "deplier d p [] = Inr r" "lier_predicat ps noms r = Inr (noms', y)"
    using assms(1) by (auto simp: lier_def)
  then show ?thesis using lier_predicat_noms [OF r(2)] deplier_reads(2) [OF r(1)] assms(2) Some
    by (auto simp: opt_list_def)
qed (use assms(1) in \<open>simp add: lier_def\<close>)

lemma bind_form_noms:
  assumes "bind_form d ps f = Inr (noms, g)"
  shows "set noms \<subseteq> form_reads f \<union> let_reads d"
proof (cases f)
  case (DSelect s)
  then obtain n1 f1 fs where a: "lier d ps [] (s_filter s) = Inr (n1, f1)"
    and b: "thread (lier d ps) n1 (get_sub_filters s) = Inr (noms, fs)"
    using assms by (auto simp: bind_select_def)
  have "set n1 \<subseteq> form_reads f \<union> let_reads d"
    using lier_noms [OF a, of "form_reads f \<union> let_reads d"] DSelect by auto
  moreover have "set noms \<subseteq> set n1 \<union> (form_reads f \<union> let_reads d)"
  proof (rule thread_noms [OF b])
    fix x n n' y assume x: "x \<in> set (get_sub_filters s)" and l: "lier d ps n x = Inr (n', y)"
    show "set n' \<subseteq> set n \<union> (form_reads f \<union> let_reads d)"
      by (rule lier_noms [OF l]) (use x DSelect in \<open>auto simp: sub_filters_places\<close>)
  qed
  ultimately show ?thesis by blast
next
  case (DCount c)
  show ?thesis
  proof (cases c)
    case (Matching t p)
    then obtain q where "lier d ps [] p = Inr (noms, q)" using assms DCount by auto
    from lier_noms [OF this, of "form_reads f \<union> let_reads d"] show ?thesis using DCount Matching by auto
  qed (use assms DCount in auto)
qed

lemma bind_nodes_agree:
  assumes "agree (set (param_names d)) ps ps'"
  shows "fold_try (bind_node d ps) plan_new (d_forms d) = fold_try (bind_node d ps') plan_new (d_forms d)"
proof (rule fold_try_cong [OF refl refl])
  fix e u assume e: "e \<in> set (d_forms d)"
  have sub: "form_reads (snd e) \<union> let_reads d \<subseteq> set (param_names d)" using e by (auto simp: set_param_names)
  have same: "bind_form d ps (snd e) = bind_form d ps' (snd e)"
    by (rule bind_form_agree [OF agree_mono [OF assms(1) sub]])
  have "map (valeur_de ps) noms = map (valeur_de ps') noms" if "bind_form d ps' (snd e) = Inr (noms, g)" for noms g
  proof (rule map_cong [OF refl])
    fix n assume "n \<in> set noms"
    then have "map_of ps n = map_of ps' n" using bind_form_noms [OF that] sub assms unfolding agree_def by blast
    then show "valeur_de ps n = valeur_de ps' n" by (simp add: valeur_de_def)
  qed
  then show "bind_node d ps u e = bind_node d ps' u e"
    using same by (cases "bind_form d ps' (snd e)") (auto simp: bind_node_def cong: map_cong)
qed

lemma plan_bind_agree: "agree (set (param_names d)) ps ps' \<Longrightarrow> plan_bind d ps = plan_bind d ps'"
  using bind_nodes_agree by (simp add: plan_bind_def)

section \<open>The schema check of a checked plan ends\<close>

fun diverges :: "declared_error \<Rightarrow> bool" where
  "diverges SchemaDiverges = True"
| "diverges (InForm _ e) = diverges e"
| "diverges (OrderBy _ _ e) = diverges e"
| "diverges _ = False"

definition settled :: "(declared_error, 'a) result \<Rightarrow> bool" where
  "settled r = (case r of Inl e \<Rightarrow> \<not> diverges e | Inr _ \<Rightarrow> True)"

lemma settled_simps [simp]: "settled (Inr x)" "settled (Inl e) \<longleftrightarrow> \<not> diverges e"
  by (simp_all add: settled_def)

lemma settled_try: "settled r \<Longrightarrow> (\<And>x. r = Inr x \<Longrightarrow> settled (k x)) \<Longrightarrow> settled (try_then r k)"
  by (cases r) auto

lemma settled_for_each: "(\<And>x. x \<in> set xs \<Longrightarrow> settled (f x)) \<Longrightarrow> settled (for_each f xs)"
  by (induction xs) (auto intro: settled_try)

lemma settled_leaves [simp]:
  "settled (champs_de sc t)" "settled (champ_dans t f cs)" "settled (verifier_bout r dir t e sc)"
  by (cases dir; auto simp: champs_de_def champ_dans_def verifier_bout_def ok_or_def guard_def Let_def split: option.splits)+

lemma let_free_settled: "let_free q \<Longrightarrow> settled (verifier_contre n d sc q t)"
  by (induction n d sc q t rule: verifier_contre.induct)
    (auto simp: list_all_iff split: option.splits intro!: settled_try settled_for_each)

lemma open_lets_length: "open_lets d [] \<le> length (d_lets d)"
proof -
  have "card (set (map fst (d_lets d))) \<le> length (map fst (d_lets d))" by (rule card_length)
  then show ?thesis by (simp add: open_lets_def)
qed

definition checked_place :: "declared_plan \<Rightarrow> predicate option \<Rightarrow> bool" where
  "checked_place d x \<longleftrightarrow> (\<forall>p \<in> set (opt_list x). is_ok (deplier d p []))"

lemma verifier_opt_checked:
  assumes "checked_place d x" "length (d_lets d) \<le> n"
  shows "verifier_opt n d sc x t = verifier_opt (length (d_lets d)) d sc x t" "settled (verifier_opt n d sc x t)"
proof -
  have "verifier_opt n d sc x t = verifier_opt (length (d_lets d)) d sc x t \<and> settled (verifier_opt n d sc x t)"
  proof (cases x)
    case (Some p)
    then obtain q where q: "deplier d p [] = Inr q" using assms(1) by (auto simp: checked_place_def opt_list_def is_ok_iff)
    have "verifier_contre m d sc p t = verifier_contre 0 d sc q t" if "length (d_lets d) \<le> m" for m
      using that open_lets_length [of d] by (intro verifier_deplier(2) [OF q]) simp
    then show ?thesis using Some assms(2) let_free_settled [OF deplier_let_free(2) [OF q]]
      by (simp add: verifier_opt_def)
  qed (simp add: verifier_opt_def)
  then show "verifier_opt n d sc x t = verifier_opt (length (d_lets d)) d sc x t"
    "settled (verifier_opt n d sc x t)" by auto
qed

lemma settled_map_err: "settled r \<Longrightarrow> (\<And>e. \<not> diverges e \<Longrightarrow> \<not> diverges (g e)) \<Longrightarrow> settled (map_err g r)"
  by (cases r) auto

lemma verifier_term_checked:
  assumes "\<And>x a. u = TExtremum x a \<Longrightarrow> checked_place d (ag_filter a)" and n: "length (d_lets d) \<le> n"
  shows "verifier_term n d sc t cs u = verifier_term (length (d_lets d)) d sc t cs u"
    "settled (verifier_term n d sc t cs u)"
proof -
  have "verifier_term n d sc t cs u = verifier_term (length (d_lets d)) d sc t cs u
      \<and> settled (verifier_term n d sc t cs u)"
  proof (cases u)
    case (TExtremum x a)
    note c = verifier_opt_checked [OF assms(1) [OF TExtremum] n, of sc "ag_end a"]
    show ?thesis unfolding TExtremum verifier_term.simps verifier_extreme_def c(1) [symmetric]
      by (auto intro!: settled_map_err settled_try c(2))
  qed simp
  then show "verifier_term n d sc t cs u = verifier_term (length (d_lets d)) d sc t cs u"
    "settled (verifier_term n d sc t cs u)" by auto
qed

lemma verifier_column_checked:
  assumes "\<And>k. c = CCollect k \<Longrightarrow> checked_place d (co_filter k)" and n: "length (d_lets d) \<le> n"
  shows "verifier_column n d sc t cs c = verifier_column (length (d_lets d)) d sc t cs c"
    "settled (verifier_column n d sc t cs c)"
proof -
  have "verifier_column n d sc t cs c = verifier_column (length (d_lets d)) d sc t cs c
      \<and> settled (verifier_column n d sc t cs c)"
  proof (cases c)
    case (CCollect k)
    note o1 = verifier_opt_checked [OF assms(1) [OF CCollect] n, of sc "co_end k"]
    show ?thesis unfolding CCollect verifier_column.simps verifier_collect_def o1(1) [symmetric]
      by (auto split: option.splits intro!: settled_try o1(2))
  qed simp_all
  then show "verifier_column n d sc t cs c = verifier_column (length (d_lets d)) d sc t cs c"
    "settled (verifier_column n d sc t cs c)" by auto
qed

lemma schema_form_checked:
  assumes ok: "\<forall>p \<in> set (predicats_de f). is_ok (deplier d p [])" and n: "length (d_lets d) \<le> n"
  shows "schema_form n d sc f = schema_form (length (d_lets d)) d sc f \<and> settled (schema_form n d sc f)"
proof (cases f)
  case (DSelect s)
  have flt: "checked_place d (s_filter s)" using ok DSelect by (simp add: checked_place_def)
  have col: "checked_place d (co_filter k)" if "CCollect k \<in> set (s_returns s)" for k
    using ok DSelect that by (fastforce simp: checked_place_def sub_filters_def)
  have agg: "checked_place d (ag_filter a)"
    if "k \<in> set (s_order_by s)" "TExtremum x a \<in> set (fst (terms (ok_by k)))" for k x a
    using ok DSelect that by (fastforce simp: checked_place_def sub_filters_def)
  have terms: "for_each (\<lambda>k. for_each (verifier_term n d sc t cs) (fst (terms (ok_by k)))) (s_order_by s)
      = for_each (\<lambda>k. for_each (verifier_term (length (d_lets d)) d sc t cs) (fst (terms (ok_by k)))) (s_order_by s)"
    for t cs by (intro for_each_cong refl verifier_term_checked(1) [OF _ n]) (use agg in blast)
  have cols: "for_each (verifier_column n d sc t cs) (s_returns s)
      = for_each (verifier_column (length (d_lets d)) d sc t cs) (s_returns s)" for t cs
    by (intro for_each_cong refl verifier_column_checked(1) [OF _ n]) (use col in blast)
  have "settled (for_each (\<lambda>k. for_each (verifier_term n d sc t cs) (fst (terms (ok_by k)))) (s_order_by s))" for t cs
    by (intro settled_for_each verifier_term_checked(2) [OF _ n]) (use agg in blast)
  moreover have "settled (for_each (verifier_column n d sc t cs) (s_returns s))" for t cs
    by (intro settled_for_each verifier_column_checked(2) [OF _ n]) (use col in blast)
  ultimately show ?thesis unfolding DSelect
    using verifier_opt_checked [OF flt n] terms cols by (auto intro!: settled_try)
next
  case (DCount c)
  show ?thesis
  proof (cases c)
    case (Matching t p)
    then have "checked_place d p" using ok DCount by (simp add: checked_place_def)
    then show ?thesis using verifier_opt_checked [OF _ n] DCount Matching by (auto intro!: settled_try)
  qed (use DCount in \<open>auto intro!: settled_try\<close>)
qed

section \<open>Properties\<close>

text \<open>
  In a plan that passed the check at loading, every condition unfolds, and what it unfolds
  to cites no name any more.
\<close>

theorem checked_plan_unfolds:
  assumes "declared_check d = Ok ()" and "(i, f) \<in> set (d_forms d)" and "p \<in> set (predicats_de f)"
  shows "\<exists>q. deplier d p [] = Ok q \<and> let_free q"
proof -
  have "is_ok (deplier d p [])"
    using check_form_parts(1) [OF declared_check_parts(2) [OF assms(1,2)]] assms(3) by blast
  then show ?thesis using deplier_let_free(2) by (auto simp: is_ok_iff)
qed

text \<open>A declared plan with two named conditions, one citing the other, an optional filter and a page.\<close>

definition demo_select :: select where
  "demo_select = \<lparr>s_table = ''Doc'', s_by_uuids = False,
     s_filter = Some (AllOf [LetRef ''mine'', Optional (InList ''kind'' ''kinds'')]),
     s_returns = [CNode ''_uuid'', CNode ''title''],
     s_order_by = [order_key_field ''_uuid''],
     s_limit = Some (LimParam ''n'' (Some 50)), s_offset = None\<rparr>"

definition demo_declared :: declared_plan where
  "demo_declared = \<lparr>
     d_lets = [(''mine'', AnyOf [Equals ''owner'' ''who'', LetRef ''shared'']), (''shared'', Equals ''public'' ''yes'')],
     d_forms = [(''rows'', DSelect demo_select), (''total'', DCount (Matching ''Doc'' (Some (LetRef ''mine''))))],
     d_outputs = \<lparr>o_rows = Some ''rows'', o_total = Some ''total'', o_results = None\<rparr>\<rparr>"

definition demo_call :: call_params where
  "demo_call = [(''n'', VInt 20), (''who'', VString ''lucie''), (''yes'', VBool True)]"

lemma demo_declared_checked: "declared_check demo_declared = Ok ()"
  by code_simp

theorem checked_plan_unfolds_witness:
  "\<exists>q. deplier demo_declared (LetRef ''mine'') [] = Ok q \<and> let_free q"
  by (rule checked_plan_unfolds [OF demo_declared_checked, of "''total''" "DCount (Matching ''Doc'' (Some (LetRef ''mine'')))"])
    (simp_all add: demo_declared_def opt_list_def)

text \<open>
  The check against a schema judges a condition as it judges what the condition unfolds to,
  with one unit of fuel per named condition.
\<close>

theorem schema_sees_unfolded:
  assumes "deplier d p [] = Ok q" and "length (d_lets d) \<le> n"
  shows "verifier_contre n d sc p t = verifier_contre 0 d sc q t"
  using assms open_lets_length [of d] by (intro verifier_deplier(2)) auto

definition demo_schema :: plan_schema where
  "demo_schema = \<lparr>sc_tables = [(''Doc'', [''_uuid'', ''kind'', ''owner'', ''public'', ''title''])], sc_relations = []\<rparr>"

theorem schema_sees_unfolded_witness:
  "verifier_contre 2 demo_declared demo_schema (LetRef ''mine'') ''Doc''
     = verifier_contre 0 demo_declared demo_schema (AnyOf [Equals ''owner'' ''who'', Equals ''public'' ''yes'']) ''Doc''"
  by (rule schema_sees_unfolded) code_simp+

text \<open>
  C29. The check against a schema of a plan that passed the check at loading always ends: as much
  fuel as there are named conditions gives its answer, and no more fuel changes it.
\<close>

theorem check_schema_ends:
  assumes "declared_check d = Ok ()" and "length (d_lets d) \<le> n"
  shows "check_schema n d sc = check_schema (length (d_lets d)) d sc \<and> settled (check_schema n d sc)"
proof -
  have f: "schema_form n d sc f = schema_form (length (d_lets d)) d sc f \<and> settled (schema_form n d sc f)"
    if "(i, f) \<in> set (d_forms d)" for i f
    using schema_form_checked [OF check_form_parts(1) [OF declared_check_parts(2) [OF assms(1) that]] assms(2)] .
  have "check_schema n d sc = check_schema (length (d_lets d)) d sc"
    unfolding check_schema_def using f by (intro for_each_cong refl) (auto split: prod.splits)
  moreover have "settled (check_schema n d sc)"
    unfolding check_schema_def using f by (intro settled_for_each) (auto intro!: settled_map_err split: prod.splits)
  ultimately show ?thesis ..
qed

theorem check_schema_ends_witness:
  "check_schema 9 demo_declared demo_schema = Ok () \<and> settled (check_schema 9 demo_declared demo_schema)"
proof -
  have "check_schema 9 demo_declared demo_schema = check_schema (length (d_lets demo_declared)) demo_declared demo_schema"
    by (rule check_schema_ends [OF demo_declared_checked, THEN conjunct1]) (simp add: demo_declared_def)
  also have "\<dots> = Ok ()" by code_simp
  finally show ?thesis by simp
qed

text \<open>
  C12. When a plan that passed the check at loading fails to bind, the error tells why, and it is
  one of three: a form meets a value of the call that it cannot take (the named parameter is
  missing, is not a positive integer, is above the cap, is an empty list or no list at all, and
  the call really holds that value under that name); or the form reaches a condition already
  compiled; or the built plan is refused because a count, whose names the check at loading does
  not look at, names something that is no identifier.
\<close>

theorem bind_fails_for_the_call_only:
  assumes "declared_check d = Ok ()" and "bt_wf (d_forms d)" and "plan_bind d ps = Err e"
  shows "(\<exists>i f x. (i, f) \<in> set (d_forms d) \<and> e = InForm i x
            \<and> (call_fault ps x \<or> (x = CompiledHere \<and> cites_compiled d f)))
      \<or> (\<exists>i f x. (i, f) \<in> set (d_forms d) \<and> e = BoundPlanInvalid x \<and> \<not> count_names_valid d f)"
  using plan_bind_error [OF assms] .

lemma demo_declared_wf: "bt_wf (d_forms demo_declared)"
  by code_simp

theorem bind_fails_for_the_call_only_witness:
  "\<exists>e x. plan_bind demo_declared [(''n'', VInt 20)] = Err e \<and> e = InForm ''rows'' x
     \<and> call_fault [(''n'', VInt 20)] x"
proof -
  have e: "plan_bind demo_declared [(''n'', VInt 20)] = Err (InForm ''rows'' (ParamMissing ''who''))" by code_simp
  from bind_fails_for_the_call_only [OF demo_declared_checked demo_declared_wf e] e show ?thesis by auto
qed

text \<open>
  C13. A bound plan passes the check of the IR, has no edge and gives the declared outputs. Its
  nodes are the declared forms in order, each the declared form with nothing changed but its
  conditions (the declared one, its citations unfolded, less exactly the optional parts that a
  missing or empty parameter leaves out), its limit and its offset (the integers of the call).
  No condition is optional or cited any more, and each node carries, for every parameter its
  conditions read, the value the call gave under that name.
\<close>

theorem bound_plan_is_bound:
  assumes "declared_check d = Ok ()" and "plan_bind d ps = Ok b"
  shows "plan_ok (b_plan b) \<and> map pn_id (p_nodes (b_plan b)) = bt_keys (d_forms d)
    \<and> p_edges (b_plan b) = [] \<and> set (p_outputs (b_plan b)) = set (output_ids (d_outputs d))
    \<and> list_all2 (\<lambda>e n. form_bound d ps (snd e) (pn_form n)) (d_forms d) (p_nodes (b_plan b))
    \<and> (\<forall>n \<in> set (p_nodes (b_plan b)). bound_form ps (map qp_name (pn_params n)) (pn_form n)
         \<and> (\<forall>q \<in> set (pn_params n). map_of ps (qp_name q) = Some (qp_value q)))"
proof -
  note sp = plan_bind_spec [OF assms(2)]
  have "map pn_id (p_nodes (b_plan b)) = bt_keys (d_forms d)" using bound_nodes_ids [OF sp(1)] by (simp add: bt_keys_def)
  moreover have "list_all2 (\<lambda>e n. form_bound d ps (snd e) (pn_form n)) (d_forms d) (p_nodes (b_plan b))"
    by (rule list_all2_mono [OF sp(1)]) (auto simp: node_from_def dest: bind_form_form_bound)
  moreover have "bound_form ps (map qp_name (pn_params n)) (pn_form n)
         \<and> (\<forall>q \<in> set (pn_params n). map_of ps (qp_name q) = Some (qp_value q))"
    if n: "n \<in> set (p_nodes (b_plan b))" for n
  proof -
    from n obtain e where e: "e \<in> set (d_forms d)" "node_from d ps e n"
      using sp(1) by (metis in_set_conv_nth list_all2_nthD2 list_all2_lengthD)
    then obtain noms where noms: "bind_form d ps (snd e) = Inr (noms, pn_form n)" "pn_params n = map (valeur_de ps) noms"
      by (auto simp: node_from_def)
    have "declarable (snd e)" using check_form_parts(2) declared_check_parts(2) [OF assms(1), of "fst e" "snd e"] e(1) by simp
    note bf = bind_form_bound [OF noms(1) this]
    have names: "map qp_name (pn_params n) = noms" using noms(2) by (simp add: valeur_de_def comp_def)
    have "map_of ps (qp_name q) = Some (qp_value q)" if "q \<in> set (pn_params n)" for q
    proof -
      from that noms(2) obtain m where m: "m \<in> set noms" "q = valeur_de ps m" by auto
      then have "m \<in> fst ` set ps" using bf by (auto simp: bound_form_def)
      then show ?thesis using valeur_de_given m(2) by (simp add: valeur_de_def)
    qed
    then show ?thesis using bf names by simp
  qed
  ultimately show ?thesis using sp(2-4) by blast
qed

lemma demo_forms:
  "d_forms demo_declared = [(''rows'', DSelect demo_select), (''total'', DCount (Matching ''Doc'' (Some (LetRef ''mine''))))]"
  by (simp add: demo_declared_def)

theorem bound_plan_is_bound_witness:
  "\<exists>b n t ns. plan_bind demo_declared demo_call = Ok b \<and> p_nodes (b_plan b) = n # ns \<and> pn_id n = ''rows''
     \<and> pn_form n = FSelect t \<and> s_filter t = Some (AllOf [AnyOf [Equals ''owner'' ''who'', Equals ''public'' ''yes'']])
     \<and> s_limit t = Some (LimLiteral 20)
     \<and> (\<forall>q \<in> set (pn_params n). map_of demo_call (qp_name q) = Some (qp_value q))"
proof -
  have "is_ok (plan_bind demo_declared demo_call)" by code_simp
  then obtain b where b: "plan_bind demo_declared demo_call = Ok b" by (auto simp: is_ok_iff)
  note all = bound_plan_is_bound [OF demo_declared_checked b, unfolded bt_keys_def demo_forms]
  from all obtain n ns where n: "p_nodes (b_plan b) = n # ns" "pn_id n = ''rows''"
    "form_bound demo_declared demo_call (DSelect demo_select) (pn_form n)"
    "\<forall>q \<in> set (pn_params n). map_of demo_call (qp_name q) = Some (qp_value q)"
    by (auto simp: list_all2_Cons1)
  from n(3) obtain t r where t: "pn_form n = FSelect t" "s_filter t = what_is_kept demo_call r"
    "limit_bound demo_call (Some (LimParam ''n'' (Some 50))) (s_limit t)"
    "unfolds demo_declared (AllOf [LetRef ''mine'', Optional (InList ''kind'' ''kinds'')]) r"
    by (cases "pn_form n") (auto simp: condition_bound_def demo_select_def)
  have f: "s_filter t = Some (AllOf [AnyOf [Equals ''owner'' ''who'', Equals ''public'' ''yes'']])"
    using t(2,4) by (auto simp: unfolds_simps list_all2_Cons1 what_is_kept_def demo_declared_def demo_call_def)
  have l: "s_limit t = Some (LimLiteral 20)" using t(3) by (auto simp: limit_bound_def demo_call_def)
  show ?thesis by (intro exI conjI) (rule b n t(1) f l)+
qed

text \<open>
  C32. A bound page never exceeds its cap: the limit of a bound selection is the integer the call
  gave, and at most the declared maximum.
\<close>

theorem bound_limit_capped:
  assumes "bind_select d ps s = Ok (noms, t)" and "s_limit s = Some (LimParam p (Some m))"
  shows "\<exists>k. s_limit t = Some (LimLiteral k) \<and> k \<le> m \<and> map_of ps p = Some (VInt (int k))"
proof -
  from bind_select_spec [OF assms(1)] obtain f fs l k where
    t: "t = (put_sub_filters (s\<lparr>s_filter := f\<rparr>) fs)\<lparr>s_limit := l, s_offset := k\<rparr>"
    and l: "bind_limit ps (s_limit s) = Inr l" .
  from l assms(2) have "\<exists>j. l = Some (LimLiteral j) \<and> j \<le> m \<and> map_of ps p = Some (VInt (int j))"
    by (auto simp: bind_limit_def entier_def split: option.splits ir_value.splits if_splits)
  then show ?thesis by (simp add: t)
qed

theorem bound_limit_capped_witness:
  "\<exists>noms t. bind_select demo_declared demo_call demo_select = Ok (noms, t) \<and> s_limit t = Some (LimLiteral 20)"
proof -
  have "is_ok (bind_select demo_declared demo_call demo_select)" by code_simp
  then obtain noms t where t: "bind_select demo_declared demo_call demo_select = Ok (noms, t)" by (auto simp: is_ok_iff)
  from bound_limit_capped [OF t, of "''n''" 50] t show ?thesis
    by (auto simp: demo_select_def demo_call_def)
qed

text \<open>
  Binding looks at no parameter outside \<open>param_names\<close>: two calls that agree there give the
  same plan, or the same error.
\<close>

theorem bind_reads_param_names_only:
  assumes "\<forall>n \<in> set (param_names d). map_of ps n = map_of ps' n"
  shows "plan_bind d ps = plan_bind d ps'"
  using assms by (intro plan_bind_agree) (simp add: agree_def)

theorem bind_reads_param_names_only_witness:
  "plan_bind demo_declared demo_call = plan_bind demo_declared ((''other'', VInt 7) # demo_call)"
proof (rule bind_reads_param_names_only)
  have "param_names demo_declared = [''kinds'', ''n'', ''who'', ''yes'']" by code_simp
  then show "\<forall>n \<in> set (param_names demo_declared). map_of demo_call n = map_of ((''other'', VInt 7) # demo_call) n"
    by simp
qed

text \<open>
  When the call gives every parameter a condition reads a value that is not empty (a list for
  a membership), binding drops nothing: it only opens the optional parts.
\<close>

theorem supplied_condition_kept:
  assumes "supplied ps p"
  shows "\<exists>noms'. lier_predicat ps noms p = Ok (noms', Some (ouvrir p))"
  using assms by (rule lier_supplied)

theorem supplied_condition_kept_witness:
  "\<exists>noms'. lier_predicat demo_call [] (AllOf [Optional (Equals ''owner'' ''who''), Equals ''public'' ''yes''])
     = Ok (noms', Some (AllOf [Equals ''owner'' ''who'', Equals ''public'' ''yes'']))"
  using supplied_condition_kept [of demo_call "AllOf [Optional (Equals ''owner'' ''who''), Equals ''public'' ''yes'']" "[]"]
  by (simp add: demo_call_def absent_ou_vide_def)

end
