(* ===== verification/Ir_Filter.thy ===== *)
theory Ir_Filter
  imports Ir_Value
begin

text \<open>
  \<open>ir/src/filter.rs\<close>: the tree of a filter and the reading of its JSON form. The variant by
  variant form is serde's derived code: it is the parameter \<open>derived\<close>; \<open>from_list\<close> is
  \<open>serde_json::from_value\<close> at \<open>Vec<FilterCondition>\<close>. What the source adds by hand is
  modelled: \<open>{}\<close> as no filter, and the boolean object \<open>must\<close> / \<open>should\<close> / \<open>must_not\<close>.
\<close>

datatype filter_op =
    OpEq ir_value | OpNeq ir_value | OpLt ir_value | OpLte ir_value | OpGt ir_value | OpGte ir_value
  | OpIn "ir_value list" | OpHasAny "ir_value list" | OpHasAll "ir_value list" | OpHasNone "ir_value list"
  | OpIsNull | OpIsNotNull | OpIsEmpty | OpIsNotEmpty
  | OpBetween ir_value ir_value
  | OpNotIn "ir_value list"
  | OpStartsWith string
  | OpContains string
  | OpValuesCount "nat option" "nat option"

datatype filter_value =
    FvOps "filter_op list"
  | FvList "ir_value list"
  | FvDirect ir_value

datatype filter_condition =
    FcField string filter_value
  | FcPath "string list" filter_value
  | FcNested "string list" filter_condition
  | FcMust "filter_condition list"
  | FcShould "filter_condition list"
  | FcMustNot "filter_condition list"

definition booleennes :: "string list" where
  "booleennes = [''must'', ''should'', ''must_not'']"

text \<open>One of the three lists of a boolean object; an absent key is an empty list.\<close>

definition liste ::
    "('j \<Rightarrow> ('e, filter_condition list) result) \<Rightarrow> (string \<times> 'j) list \<Rightarrow> string
      \<Rightarrow> ('e, filter_condition list) result" where
  "liste from_list obj k = (case map_of obj k of None \<Rightarrow> Ok [] | Some v \<Rightarrow> from_list v)"

datatype 'e de_error = DeCustom 'e | FiltreInvalide 'e

definition combine_boolean ::
    "filter_condition list \<Rightarrow> filter_condition list \<Rightarrow> filter_condition list \<Rightarrow> filter_condition" where
  "combine_boolean must should must_not =
     FcMust (must @ (if should \<noteq> [] then [FcShould should] else [])
                  @ (if must_not \<noteq> [] then [FcMustNot must_not] else []))"

definition deserialize ::
    "'j json_api \<Rightarrow> ('j \<Rightarrow> ('e, filter_condition list) result) \<Rightarrow> ('j \<Rightarrow> ('e, filter_condition) result)
      \<Rightarrow> 'j \<Rightarrow> ('e de_error, filter_condition) result" where
  "deserialize J from_list derived v =
     (case j_as_object J v of
        Some obj \<Rightarrow>
          if obj = [] then Ok (FcMust [])
          else if length obj > 1 \<and> (\<forall>k \<in> set (map fst obj). k \<in> set booleennes)
          then map_err DeCustom (
                 try_then (liste from_list obj ''must'') (\<lambda>must.
                 try_then (liste from_list obj ''should'') (\<lambda>should.
                 try_then (liste from_list obj ''must_not'') (\<lambda>must_not.
                 Ok (combine_boolean must should must_not)))))
          else map_err FiltreInvalide (derived v)
      | None \<Rightarrow> map_err FiltreInvalide (derived v))"

text \<open>\<open>From<HashMap<String, FilterValue>>\<close>: one field condition per entry, all required.\<close>

definition from_fields :: "(string \<times> filter_value) list \<Rightarrow> filter_condition" where
  "from_fields filters = FcMust (map (\<lambda>(key, value). FcField key value) filters)"

section \<open>Meaning\<close>

text \<open>
  Specification, after the comments of the source: \<open>must\<close> asks for all, \<open>should\<close> for at least
  one, \<open>must_not\<close> for none; the leaves (a field, a path, a nested condition) are judged by \<open>leaf\<close>.
\<close>

fun holds :: "(filter_condition \<Rightarrow> bool) \<Rightarrow> filter_condition \<Rightarrow> bool" where
  "holds leaf (FcMust cs) = (\<forall>c \<in> set cs. holds leaf c)"
| "holds leaf (FcShould cs) = (\<exists>c \<in> set cs. holds leaf c)"
| "holds leaf (FcMustNot cs) = (\<forall>c \<in> set cs. \<not> holds leaf c)"
| "holds leaf c = leaf c"

lemma holds_combine_boolean:
  "holds leaf (combine_boolean m s n) \<longleftrightarrow>
     (\<forall>c \<in> set m. holds leaf c) \<and> (s = [] \<or> (\<exists>c \<in> set s. holds leaf c))
     \<and> (\<forall>c \<in> set n. \<not> holds leaf c)"
  by (cases "s = []"; cases "n = []") (auto simp: combine_boolean_def)

lemma deserialize_boolean_ok:
  assumes "j_as_object J v = Some obj" "length obj > 1" "set (map fst obj) \<subseteq> set booleennes"
    and "liste from_list obj ''must'' = Inr m" "liste from_list obj ''should'' = Inr s"
    and "liste from_list obj ''must_not'' = Inr n"
  shows "deserialize J from_list derived v = Inr (combine_boolean m s n)"
  using assms by (auto simp: deserialize_def)

section \<open>Properties\<close>

text \<open>
  An object with several of the keys \<open>must\<close>, \<open>should\<close>, \<open>must_not\<close> is read as one condition
  that holds exactly when all of \<open>must\<close> hold, one of a non-empty \<open>should\<close> holds and none of
  \<open>must_not\<close> holds.
\<close>

theorem boolean_filter_means:
  assumes "j_as_object J v = Some obj" "length obj > 1" "set (map fst obj) \<subseteq> set booleennes"
    and "liste from_list obj ''must'' = Ok m" "liste from_list obj ''should'' = Ok s"
    and "liste from_list obj ''must_not'' = Ok n"
  shows "\<exists>c. deserialize J from_list derived v = Ok c
    \<and> holds leaf c = ((\<forall>x \<in> set m. holds leaf x) \<and> (s = [] \<or> (\<exists>x \<in> set s. holds leaf x))
        \<and> (\<forall>x \<in> set n. \<not> holds leaf x))"
  using deserialize_boolean_ok [OF assms] by (auto simp: holds_combine_boolean)

theorem boolean_filter_means_witness:
  "\<exists>c. deserialize demo_json (\<lambda>v. Ok (if v = VNull then [] else [FcField ''f'' (FvDirect v)])) (\<lambda>_. Err ())
       (VMap [(''must'', VInt 1), (''must_not'', VInt 2)]) = Ok c
    \<and> holds (\<lambda>x. x = FcField ''f'' (FvDirect (VInt 1))) c"
proof -
  let ?obj = "[(''must'', VInt 1), (''must_not'', VInt 2)]"
  let ?from = "\<lambda>v. Ok (if v = VNull then [] else [FcField ''f'' (FvDirect v)])"
  show ?thesis
    using boolean_filter_means [of demo_json "VMap ?obj" ?obj ?from "[FcField ''f'' (FvDirect (VInt 1))]" "[]"
        "[FcField ''f'' (FvDirect (VInt 2))]" "\<lambda>_. Err ()" "\<lambda>x. x = FcField ''f'' (FvDirect (VInt 1))"]
    by (simp add: demo_json_def booleennes_def liste_def)
qed

end
