(* ===== verification/Ir_Scope.thy ===== *)
theory Ir_Scope
  imports Ir_Value
begin

text \<open>
  \<open>ir/src/scope.rs\<close>: the cell \<open>(org, project)\<close> rows are written to and searched in, the
  validation of its identifiers, the name of its indexes and the stamp it puts on a row.
\<close>

record scope =
  org :: string
  project :: string

definition ORG_COLUMN :: string where "ORG_COLUMN = ''_org''"
definition PROJECT_COLUMN :: string where "PROJECT_COLUMN = ''_project''"
definition DEFAULT_ID :: string where "DEFAULT_ID = ''default''"

definition default_scope :: scope where
  "default_scope = \<lparr>org = DEFAULT_ID, project = DEFAULT_ID\<rparr>"

definition is_default :: "scope \<Rightarrow> bool" where
  "is_default s = (org s = DEFAULT_ID \<and> project s = DEFAULT_ID)"

datatype scope_error =
    EmptyOrTooLong string
  | ForbiddenChar string string
  | EmptySegment string string

definition id_char :: "char \<Rightarrow> bool" where
  "id_char c = (is_ascii_alphanumeric c \<or> c = CHR ''_'' \<or> c = CHR ''.'' \<or> c = CHR ''-'' \<or> c = CHR ''/'')"

definition validate_id :: "string \<Rightarrow> string \<Rightarrow> (scope_error, unit) result" where
  "validate_id kind i =
     (if i = [] \<or> length i > 128 then Err (EmptyOrTooLong kind)
      else case find (\<lambda>c. \<not> id_char c) i of
        Some _ \<Rightarrow> Err (ForbiddenChar kind i)
      | None \<Rightarrow>
          if starts_with ''/'' i \<or> ends_with ''/'' i \<or> str_contains ''//'' i \<or> str_contains ''..'' i
          then Err (EmptySegment kind i)
          else Ok ())"

definition validate :: "scope \<Rightarrow> (scope_error, unit) result" where
  "validate s = try_then (validate_id ''org'' (org s)) (\<lambda>_. validate_id ''project'' (project s))"

text \<open>\<open>replace('/', "--")\<close>\<close>

definition dashed :: "string \<Rightarrow> string" where
  "dashed s = concat (map (\<lambda>c. if c = CHR ''/'' then ''--'' else [c]) s)"

definition index_suffix :: "scope \<Rightarrow> string" where
  "index_suffix s =
     (if is_default s then [] else ''__'' @ dashed (org s) @ ''__'' @ dashed (project s))"

definition index_name :: "scope \<Rightarrow> string \<Rightarrow> string" where
  "index_name s base = base @ index_suffix s"

definition stamp :: "scope \<Rightarrow> (string, ir_value) btree \<Rightarrow> (string, ir_value) btree" where
  "stamp s row =
     bt_or_insert PROJECT_COLUMN (VString (project s))
       (bt_or_insert ORG_COLUMN (VString (org s)) row)"

section \<open>Identifiers\<close>

text \<open>The documented alphabet and shape of an identifier.\<close>

definition id_ok :: "string \<Rightarrow> bool" where
  "id_ok i = (i \<noteq> [] \<and> length i \<le> 128 \<and> (\<forall>c \<in> set i. id_char c)
     \<and> hd i \<noteq> CHR ''/'' \<and> last i \<noteq> CHR ''/''
     \<and> (\<nexists>a b. i = a @ ''//'' @ b) \<and> (\<nexists>a b. i = a @ ''..'' @ b))"

lemma starts_with_single: "i \<noteq> [] \<Longrightarrow> starts_with [c] i \<longleftrightarrow> hd i = c"
  by (cases i) auto

lemma ends_with_single: "i \<noteq> [] \<Longrightarrow> ends_with [c] i \<longleftrightarrow> last i = c"
  by (simp add: ends_with_def starts_with_single hd_rev)

lemma validate_id_iff: "validate_id kind i = Inr () \<longleftrightarrow> id_ok i"
proof (cases "i = [] \<or> length i > 128")
  case False
  then have "validate_id kind i = Inr () \<longleftrightarrow> find (\<lambda>c. \<not> id_char c) i = None
      \<and> \<not> (hd i = CHR ''/'' \<or> last i = CHR ''/'' \<or> str_contains ''//'' i \<or> str_contains ''..'' i)"
    by (simp add: validate_id_def starts_with_single ends_with_single split: option.split)
  then show ?thesis using False by (auto simp: id_ok_def find_None_all str_contains_iff)
qed (auto simp: validate_id_def id_ok_def)

section \<open>Index names\<close>

lemma dashed_simps [simp]:
  "dashed [] = []"
  "dashed (c # s) = (if c = CHR ''/'' then CHR ''-'' # CHR ''-'' # dashed s else c # dashed s)"
  by (simp_all add: dashed_def)

lemma dashed_inject:
  "CHR ''-'' \<notin> set a \<Longrightarrow> CHR ''-'' \<notin> set b \<Longrightarrow> dashed a = dashed b \<longleftrightarrow> a = b"
proof (induction a arbitrary: b)
  case Nil
  then show ?case by (cases b) auto
next
  case (Cons c a)
  show ?case
  proof (cases b)
    case (Cons d b')
    then show ?thesis using Cons.prems Cons.IH [of b'] by auto
  qed auto
qed

lemma set_dashed: "set (dashed s) \<subseteq> insert (CHR ''-'') (set s)"
  by (induction s) auto

lemma split_at_char:
  "x \<notin> set a \<Longrightarrow> x \<notin> set b \<Longrightarrow> a @ x # c = b @ x # d \<longleftrightarrow> a = b \<and> c = d"
proof (induction a arbitrary: b)
  case Nil
  then show ?case by (cases b) auto
next
  case (Cons y a)
  then show ?case by (cases b) auto
qed

definition plain_id :: "string \<Rightarrow> bool" where
  "plain_id i = (CHR ''_'' \<notin> set i \<and> CHR ''-'' \<notin> set i)"

lemma index_suffix_inject_aux:
  assumes "plain_id (org s)" "plain_id (project s)" "plain_id (org t)" "plain_id (project t)"
    and eq: "index_suffix s = index_suffix t"
  shows "s = t"
proof (cases "is_default s \<or> is_default t")
  case True
  then show ?thesis using eq by (cases s; cases t) (auto simp: index_suffix_def is_default_def split: if_splits)
next
  case False
  have u: "CHR ''_'' \<notin> set (dashed (org s))" "CHR ''_'' \<notin> set (dashed (org t))"
    using assms(1,3) set_dashed unfolding plain_id_def by blast+
  from False eq have "dashed (org s) @ CHR ''_'' # CHR ''_'' # dashed (project s)
      = dashed (org t) @ CHR ''_'' # CHR ''_'' # dashed (project t)"
    by (simp add: index_suffix_def)
  then have "dashed (org s) = dashed (org t)" "dashed (project s) = dashed (project t)"
    using split_at_char [OF u] by auto
  then show ?thesis using assms(1-4) by (simp add: dashed_inject plain_id_def)
qed

section \<open>Stamps\<close>

lemma columns_distinct [simp]: "ORG_COLUMN \<noteq> PROJECT_COLUMN" "PROJECT_COLUMN \<noteq> ORG_COLUMN"
  by (simp_all add: ORG_COLUMN_def PROJECT_COLUMN_def)

lemma stamp_lookup:
  "map_of (stamp s row) k =
     (case map_of row k of
        Some v \<Rightarrow> Some v
      | None \<Rightarrow> if k = ORG_COLUMN then Some (VString (org s))
                else if k = PROJECT_COLUMN then Some (VString (project s)) else None)"
  by (auto simp: stamp_def split: option.splits)

lemma stamp_idem: "stamp t (stamp s row) = stamp s row"
  by (simp add: stamp_def bt_or_insert_def split: option.split)

section \<open>Properties\<close>

text \<open>
  \<open>Scope::validate\<close> accepts a cell exactly when both identifiers have 1 to 128 bytes of the
  documented alphabet, with no empty path segment and no two dots in a row.
\<close>

theorem scope_validate_exact: "validate s = Ok () \<longleftrightarrow> id_ok (org s) \<and> id_ok (project s)"
  by (auto simp: validate_def validate_id_iff)

text \<open>
  Two cells whose identifiers avoid the two characters the index name is built with (the
  underscore and the dash) never share an index.
\<close>

theorem index_name_separates:
  assumes "plain_id (org s)" "plain_id (project s)" "plain_id (org t)" "plain_id (project t)"
    and "s \<noteq> t"
  shows "index_name s base \<noteq> index_name t base"
  using assms index_suffix_inject_aux by (auto simp: index_name_def)

theorem index_name_separates_witness:
  "index_name \<lparr>org = ''acme'', project = ''docs/v1''\<rparr> ''idx'' \<noteq> index_name \<lparr>org = ''acme'', project = ''docs''\<rparr> ''idx''"
  by (rule index_name_separates) (simp_all add: plain_id_def)

text \<open>
  Without that restriction two different valid cells can share an index: the separators
  \<open>__\<close> and \<open>--\<close> are themselves made of characters an identifier may contain.
\<close>

theorem index_name_collides:
  "validate \<lparr>org = ''a'', project = ''b__c''\<rparr> = Ok () \<and> validate \<lparr>org = ''a__b'', project = ''c''\<rparr> = Ok ()
   \<and> index_name \<lparr>org = ''a'', project = ''b__c''\<rparr> base = index_name \<lparr>org = ''a__b'', project = ''c''\<rparr> base
   \<and> validate \<lparr>org = ''a/b'', project = ''c''\<rparr> = Ok () \<and> validate \<lparr>org = ''a--b'', project = ''c''\<rparr> = Ok ()
   \<and> index_name \<lparr>org = ''a/b'', project = ''c''\<rparr> base = index_name \<lparr>org = ''a--b'', project = ''c''\<rparr> base"
proof -
  have v: "validate \<lparr>org = ''a'', project = ''b__c''\<rparr> = Ok ()" "validate \<lparr>org = ''a__b'', project = ''c''\<rparr> = Ok ()"
    "validate \<lparr>org = ''a/b'', project = ''c''\<rparr> = Ok ()" "validate \<lparr>org = ''a--b'', project = ''c''\<rparr> = Ok ()"
    by code_simp+
  have "index_suffix \<lparr>org = ''a'', project = ''b__c''\<rparr> = index_suffix \<lparr>org = ''a__b'', project = ''c''\<rparr>"
    "index_suffix \<lparr>org = ''a/b'', project = ''c''\<rparr> = index_suffix \<lparr>org = ''a--b'', project = ''c''\<rparr>"
    by code_simp+
  then show ?thesis using v by (simp add: index_name_def)
qed

end
