(* ===== verification/Std_Text.thy ===== *)
theory Std_Text
  imports Prelude "HOL-Library.Word"
begin

text \<open>
  What the sources use of the standard library on texts: \<open>str::trim\<close>, \<open>split_once\<close>,
  \<open>is_char_boundary\<close>, and the decimal form of a \<open>u64\<close>, printed and parsed. A text is its
  UTF-8 bytes; white space is the Unicode set \<open>char::is_whitespace\<close> tests, encoded.
\<close>

section \<open>White space\<close>

definition white_codes :: "nat list list" where
  "white_codes =
     [[9], [10], [11], [12], [13], [32], [0xC2, 0x85], [0xC2, 0xA0], [0xE1, 0x9A, 0x80],
      [0xE2, 0x80, 0x80], [0xE2, 0x80, 0x81], [0xE2, 0x80, 0x82], [0xE2, 0x80, 0x83], [0xE2, 0x80, 0x84], [0xE2, 0x80, 0x85],
      [0xE2, 0x80, 0x86], [0xE2, 0x80, 0x87], [0xE2, 0x80, 0x88], [0xE2, 0x80, 0x89], [0xE2, 0x80, 0x8A],
      [0xE2, 0x80, 0xA8], [0xE2, 0x80, 0xA9], [0xE2, 0x80, 0xAF], [0xE2, 0x81, 0x9F], [0xE3, 0x80, 0x80]]"

definition whites :: "string list" where
  "whites = map (map char_of) white_codes"

text \<open>Dropping at the front as long as one of the words is a prefix.\<close>

function strip_front :: "string list \<Rightarrow> string \<Rightarrow> string" where
  "strip_front ws s =
     (case find (\<lambda>w. w \<noteq> [] \<and> starts_with w s) ws of
        None \<Rightarrow> s
      | Some w \<Rightarrow> strip_front ws (drop (length w) s))"
  by pat_completeness auto
termination
  by (relation "measure (length \<circ> snd)") (auto dest!: find_Some_in simp: starts_with_iff)

declare strip_front.simps [simp del]

text \<open>The same with as many steps as the text has bytes, for evaluation.\<close>

fun strip_steps :: "nat \<Rightarrow> string list \<Rightarrow> string \<Rightarrow> string" where
  "strip_steps 0 ws s = s"
| "strip_steps (Suc n) ws s =
     (case find (\<lambda>w. w \<noteq> [] \<and> starts_with w s) ws of
        None \<Rightarrow> s
      | Some w \<Rightarrow> strip_steps n ws (drop (length w) s))"

lemma strip_steps_enough: "length s \<le> n \<Longrightarrow> strip_steps n ws s = strip_front ws s"
proof (induction n ws s rule: strip_steps.induct)
  case (1 ws s)
  have "find (\<lambda>w. w \<noteq> [] \<and> starts_with w []) ws = None" by (auto simp: find_None_all starts_with_iff)
  then have "strip_front ws [] = []" by (subst strip_front.simps) simp
  then show ?case using 1 by simp
next
  case (2 n ws s)
  show ?case
  proof (cases "find (\<lambda>w. w \<noteq> [] \<and> starts_with w s) ws")
    case None
    then show ?thesis by (simp add: strip_front.simps [of ws s])
  next
    case (Some w)
    then have "0 < length w" using find_Some_in by fastforce
    then have "length (drop (length w) s) \<le> n" using 2(2) by (simp only: length_drop)
    then show ?thesis using 2(1) [OF Some] Some by (simp add: strip_front.simps [of ws s])
  qed
qed

lemma strip_front_code [code]: "strip_front ws s = strip_steps (length s) ws s"
  by (simp add: strip_steps_enough)

definition trim_start :: "string \<Rightarrow> string" where
  "trim_start s = strip_front whites s"

definition trim_end :: "string \<Rightarrow> string" where
  "trim_end s = rev (strip_front (map rev whites) (rev s))"

definition trim :: "string \<Rightarrow> string" where
  "trim s = trim_end (trim_start s)"

text \<open>A text that begins and ends with letters or digits is left alone.\<close>

lemma whites_edges: "w \<in> set whites \<Longrightarrow> w \<noteq> [] \<and> \<not> is_ascii_alphanumeric (hd w) \<and> \<not> is_ascii_alphanumeric (last w)"
  by (auto simp: whites_def white_codes_def is_ascii_alphanumeric_def is_ascii_alphabetic_def is_ascii_digit_def char_code_def)

lemma strip_front_plain:
  assumes "s \<noteq> [] \<Longrightarrow> is_ascii_alphanumeric (hd s)" "\<And>w. w \<in> set ws \<Longrightarrow> w \<noteq> [] \<Longrightarrow> \<not> is_ascii_alphanumeric (hd w)"
  shows "strip_front ws s = s"
proof -
  have "\<not> (w \<noteq> [] \<and> starts_with w s)" if "w \<in> set ws" for w
    using assms that by (cases w; cases s) force+
  then have "find (\<lambda>w. w \<noteq> [] \<and> starts_with w s) ws = None" by (simp add: find_None_all)
  then show ?thesis by (simp add: strip_front.simps)
qed

lemma trim_end_plain: "(s \<noteq> [] \<Longrightarrow> is_ascii_alphanumeric (last s)) \<Longrightarrow> trim_end s = s"
  unfolding trim_end_def by (subst strip_front_plain) (use whites_edges in \<open>auto simp: hd_rev\<close>)

lemma trim_plain: "(s \<noteq> [] \<Longrightarrow> is_ascii_alphanumeric (hd s) \<and> is_ascii_alphanumeric (last s)) \<Longrightarrow> trim s = s"
  unfolding trim_def trim_start_def by (subst strip_front_plain) (use whites_edges in \<open>auto simp: trim_end_plain\<close>)

section \<open>Splitting\<close>

fun split_once :: "char \<Rightarrow> string \<Rightarrow> (string \<times> string) option" where
  "split_once d [] = None"
| "split_once d (c # cs) = (if c = d then Some ([], cs) else map_option (\<lambda>(a, b). (c # a, b)) (split_once d cs))"

lemma split_once_append: "d \<notin> set a \<Longrightarrow> split_once d (a @ d # b) = Some (a, b)"
  by (induction a) auto

lemma split_once_None: "d \<notin> set s \<Longrightarrow> split_once d s = None"
  by (induction s) auto

section \<open>Decimal numbers\<close>

definition digit_char :: "nat \<Rightarrow> char" where
  "digit_char n = char_of (48 + n)"

definition digit_val :: "char \<Rightarrow> nat" where
  "digit_val c = of_char c - 48"

fun decimal :: "nat \<Rightarrow> string" where
  "decimal n = (if n < 10 then [digit_char n] else decimal (n div 10) @ [digit_char (n mod 10)])"

declare decimal.simps [simp del]

definition show_u64 :: "64 word \<Rightarrow> string" where
  "show_u64 w = decimal (unat w)"

definition read_digits :: "string \<Rightarrow> nat" where
  "read_digits ds = foldl (\<lambda>n c. n * 10 + digit_val c) 0 ds"

text \<open>\<open>u64::from_str\<close>: an optional plus sign, at least one digit, nothing else, and no overflow.\<close>

definition parse_u64 :: "string \<Rightarrow> (64 word) option" where
  "parse_u64 s =
     (let ds = (case s of [] \<Rightarrow> [] | c # cs \<Rightarrow> if c = CHR ''+'' then cs else s)
      in if ds = [] \<or> \<not> list_all is_ascii_digit ds then None
         else if read_digits ds < 2 ^ 64 then Some (word_of_nat (read_digits ds)) else None)"

lemma digit_char_props:
  assumes "n < 10"
  shows "digit_val (digit_char n) = n" "is_ascii_digit (digit_char n)" "digit_char n \<noteq> CHR ''+''" "digit_char n \<noteq> CHR '':''"
proof -
  have "n \<in> {0, 1, 2, 3, 4, 5, 6, 7, 8, 9}" using assms by auto
  then show "digit_val (digit_char n) = n" and d: "is_ascii_digit (digit_char n)"
    by (auto simp: digit_char_def digit_val_def is_ascii_digit_def char_code_def)
  have "\<not> is_ascii_digit (CHR ''+'')" "\<not> is_ascii_digit (CHR '':'')" by (simp_all add: is_ascii_digit_def char_code_def)
  then show "digit_char n \<noteq> CHR ''+''" "digit_char n \<noteq> CHR '':''" using d by metis+
qed

lemma decimal_digits: "decimal n \<noteq> [] \<and> list_all is_ascii_digit (decimal n) \<and> CHR '':'' \<notin> set (decimal n) \<and> hd (decimal n) \<noteq> CHR ''+''"
proof (induction n rule: decimal.induct)
  case (1 n)
  show ?case
  proof (cases "n < 10")
    case True
    then show ?thesis using digit_char_props [OF True] by (simp add: decimal.simps [of n])
  next
    case False
    have m: "n mod 10 < 10" by simp
    show ?thesis using 1 [OF False] digit_char_props [OF m] False by (simp add: decimal.simps [of n])
  qed
qed

lemma read_decimal: "read_digits (decimal n) = n"
proof (induction n rule: decimal.induct)
  case (1 n)
  show ?case
  proof (cases "n < 10")
    case True
    then show ?thesis using digit_char_props [OF True] by (simp add: decimal.simps [of n] read_digits_def)
  next
    case False
    have m: "n mod 10 < 10" by simp
    show ?thesis using 1 [OF False] digit_char_props(1) [OF m] False by (simp add: decimal.simps [of n] read_digits_def)
  qed
qed

lemma parse_show_u64: "parse_u64 (show_u64 w) = Some w"
proof -
  have "unat w < 2 ^ 64" using unsigned_less [of w] by simp
  moreover obtain c cs where d: "decimal (unat w) = c # cs" "c \<noteq> CHR ''+''" using decimal_digits [of "unat w"] by (cases "decimal (unat w)") auto
  ultimately show ?thesis
    using decimal_digits [of "unat w"] read_decimal [of "unat w"] by (simp add: parse_u64_def show_u64_def)
qed

section \<open>Characters in bytes\<close>

text \<open>A byte is not a continuation byte \<open>10xxxxxx\<close>; a position is a boundary at the ends and before such a byte.\<close>

definition starts_char :: "char \<Rightarrow> bool" where
  "starts_char c = (\<not> (128 \<le> char_code c \<and> char_code c < 192))"

definition is_char_boundary :: "string \<Rightarrow> nat \<Rightarrow> bool" where
  "is_char_boundary s p = (p = 0 \<or> p = length s \<or> p < length s \<and> starts_char (s ! p))"

end
