(* ===== verification/Clause_Text.thy ===== *)
theory Clause_Text
  imports Std_Text
begin

text \<open>
  How a database reads the boolean clause texts the dialects write. The connectives have their
  usual precedence (\<open>OR\<close> below \<open>AND\<close> below \<open>NOT\<close>), brackets keep a text together, and
  everything else is an atom whose truth the database decides: the argument \<open>v\<close> of \<open>clause_means\<close>.
  The texts are written by joining and wrapping strings; the lemmas here give the reading of what
  was written from the reading of its pieces. Truth is two-valued: SQL's and Cypher's unknown is
  not distinguished.
\<close>

named_theorems clause_simps \<open>reading of the texts the dialects write\<close>

section \<open>Joining and splitting\<close>

text \<open>\<open>[String]::join\<close> and \<open>str::split\<close> at one character.\<close>

fun join_with :: "string \<Rightarrow> string list \<Rightarrow> string" where
  "join_with sep [] = []"
| "join_with sep [x] = x"
| "join_with sep (x # y # zs) = x @ sep @ join_with sep (y # zs)"

fun split_on :: "'a \<Rightarrow> 'a list \<Rightarrow> 'a list list" where
  "split_on d [] = [[]]"
| "split_on d (c # cs) = (if c = d then [] # split_on d cs
     else (case split_on d cs of [] \<Rightarrow> [[c]] | w # ws \<Rightarrow> (c # w) # ws))"

lemma join_with_Cons: "xs \<noteq> [] \<Longrightarrow> join_with sep (x # xs) = x @ sep @ join_with sep xs"
  by (cases xs) auto

lemma split_on_nonempty [simp]: "split_on d s \<noteq> []"
  by (induction s) (auto split: list.splits)

lemma split_on_none: "d \<notin> set s \<Longrightarrow> split_on d s = [s]"
  by (induction s) auto

lemma split_on_append: "split_on d (a @ d # b) = split_on d a @ split_on d b"
proof (induction a)
  case (Cons c a)
  then show ?case using split_on_nonempty [of d a] by (cases "split_on d a") auto
qed simp

lemma split_join_on:
  assumes "xs \<noteq> []" "\<forall>x \<in> set xs. d \<notin> set x"
  shows "split_on d (join_with [d] xs) = xs"
  using assms
proof (induction "[d]" xs rule: join_with.induct)
  case (3 x y zs)
  then show ?case by (simp add: split_on_append split_on_none)
qed (simp_all add: split_on_none)

lemma split_on_sum:
  "g \<in> set (split_on d s) \<Longrightarrow> sum_list (map f g) + (if d \<in> set s then f d else 0) \<le> sum_list (map (f :: 'a \<Rightarrow> nat) s)"
proof (induction s arbitrary: g)
  case (Cons c s)
  have here: "sum_list (map f w) + (if d \<in> set s then f d else 0) \<le> sum_list (map f s)" if "w \<in> set (split_on d s)" for w
    using Cons.IH that .
  show ?case
  proof (cases "c = d")
    case True
    then show ?thesis using Cons.prems here by auto force
  next
    case False
    obtain w ws where s: "split_on d s = w # ws" by (cases "split_on d s") auto
    then show ?thesis using Cons.prems False here [of w] here [of g] by (auto split: if_splits)
  qed
qed simp

lemma split_on_less:
  "d \<in> set s \<Longrightarrow> g \<in> set (split_on d s) \<Longrightarrow> 0 < f d \<Longrightarrow> sum_list (map f g) < sum_list (map (f :: 'a \<Rightarrow> nat) s)"
  using split_on_sum [of g d s f] by simp

section \<open>Brackets\<close>

definition opens :: "char \<Rightarrow> bool" where
  "opens c = (c \<in> {CHR ''('', CHR ''['', CHR ''{''})"

definition closes :: "char \<Rightarrow> bool" where
  "closes c = (c \<in> {CHR '')'', CHR '']'', CHR ''}''})"

lemma opens_not_closes: "opens c \<Longrightarrow> \<not> closes c"
  by (auto simp: opens_def closes_def)

text \<open>How many brackets are open after a text; \<open>None\<close> where one closes that was not open.\<close>

fun depth_after :: "nat \<Rightarrow> string \<Rightarrow> nat option" where
  "depth_after d [] = Some d"
| "depth_after d (c # cs) =
     (if opens c then depth_after (Suc d) cs
      else if closes c then (case d of 0 \<Rightarrow> None | Suc e \<Rightarrow> depth_after e cs)
      else depth_after d cs)"

definition closed :: "string \<Rightarrow> bool" where
  "closed a = (depth_after 0 a = Some 0)"

text \<open>A text with neither a bracket nor a space.\<close>

definition plain :: "string \<Rightarrow> bool" where
  "plain a = (\<forall>c \<in> set a. \<not> opens c \<and> \<not> closes c \<and> c \<noteq> CHR '' '')"

lemma depth_after_append: "depth_after d (a @ b) = (case depth_after d a of None \<Rightarrow> None | Some e \<Rightarrow> depth_after e b)"
  by (induction d a rule: depth_after.induct) (auto split: nat.splits)

lemma depth_after_Suc: "depth_after d a = Some e \<Longrightarrow> depth_after (Suc d) a = Some (Suc e)"
  by (induction d a rule: depth_after.induct) (auto split: nat.splits if_splits)

lemma closed_depth: "closed a \<Longrightarrow> depth_after d a = Some d"
  by (induction d) (auto simp: closed_def intro: depth_after_Suc)

lemma closed_Nil [simp, clause_simps]: "closed []"
  by (simp add: closed_def)

lemma closed_append [intro, clause_simps]: "closed a \<Longrightarrow> closed b \<Longrightarrow> closed (a @ b)"
  by (simp add: closed_def depth_after_append)

lemma closed_brackets: "closed a \<Longrightarrow> opens x \<Longrightarrow> closes y \<Longrightarrow> closed (x # a @ [y])"
  using depth_after_Suc [of 0 a 0] opens_not_closes [of y] by (auto simp: closed_def depth_after_append)

lemma depth_after_plain: "plain a \<Longrightarrow> depth_after d a = Some d"
  by (induction a arbitrary: d) (auto simp: plain_def)

lemma plain_closed [clause_simps]: "plain a \<Longrightarrow> closed a"
  by (simp add: closed_def depth_after_plain)

lemma plain_Cons: "plain (c # a) \<longleftrightarrow> \<not> opens c \<and> \<not> closes c \<and> c \<noteq> CHR '' '' \<and> plain a"
  by (auto simp: plain_def)

lemma plain_Nil [simp]: "plain []"
  by (simp add: plain_def)

lemma plain_append [simp, clause_simps]: "plain (a @ b) \<longleftrightarrow> plain a \<and> plain b"
  by (auto simp: plain_def)

section \<open>Words\<close>

text \<open>The words of a text: what spaces outside brackets separate.\<close>

definition deeper :: "nat \<Rightarrow> char \<Rightarrow> nat" where
  "deeper d c = (if opens c then Suc d else if closes c then d - 1 else d)"

fun words_at :: "nat \<Rightarrow> string \<Rightarrow> string list" where
  "words_at d [] = [[]]"
| "words_at d (c # cs) =
     (if d = 0 \<and> c = CHR '' '' then [] # words_at 0 cs
      else (case words_at (deeper d c) cs of [] \<Rightarrow> [[c]] | w # ws \<Rightarrow> (c # w) # ws))"

definition words :: "string \<Rightarrow> string list" where
  "words s = words_at 0 s"

lemma words_at_nonempty [simp]: "words_at d s \<noteq> []"
  by (induction d s rule: words_at.induct) (auto split: list.splits)

lemma opens_not_space: "opens c \<Longrightarrow> c \<noteq> CHR '' ''" "closes c \<Longrightarrow> c \<noteq> CHR '' ''"
  by (auto simp: opens_def closes_def)

lemma words_at_append:
  assumes "depth_after d a = Some 0"
  shows "words_at d (a @ CHR '' '' # b) = words_at d a @ words_at 0 b"
  using assms
proof (induction d a rule: depth_after.induct)
  case (2 d c cs)
  have "depth_after (deeper d c) cs = Some 0" using 2 by (auto simp: deeper_def split: if_splits nat.splits)
  moreover have "words_at (deeper d c) cs \<noteq> []" by simp
  ultimately show ?case using 2 opens_not_space [of c]
    by (cases "words_at (deeper d c) cs") (auto simp: deeper_def split: if_splits nat.splits)
qed simp

lemma words_at_inside:
  assumes "depth_after d a = Some e"
  shows "words_at (Suc d) (a @ b) = (a @ hd (words_at (Suc e) b)) # tl (words_at (Suc e) b)"
  using assms
proof (induction d a rule: depth_after.induct)
  case (1 d)
  then show ?case by simp
next
  case (2 d c cs)
  then show ?case by (auto simp: deeper_def split: if_splits nat.splits)
qed

lemma words_at_closed: "closed a \<Longrightarrow> words_at (Suc d) (a @ b) = (a @ hd (words_at (Suc d) b)) # tl (words_at (Suc d) b)"
  by (rule words_at_inside) (rule closed_depth)

lemma words_at_plain:
  assumes "plain a"
  shows "words_at d (a @ b) = (a @ hd (words_at d b)) # tl (words_at d b)"
  using assms by (induction a) (auto simp: plain_Cons deeper_def)

lemma words_space: "closed a \<Longrightarrow> words (a @ CHR '' '' # b) = words a @ words b"
  by (simp add: words_def closed_def words_at_append)

lemma words_plain: "plain a \<Longrightarrow> words a = [a]"
  using words_at_plain [of a 0 "[]"] by (simp add: words_def)

text \<open>A bracketed text after a plain one, such as a call, is one word.\<close>

lemma words_call:
  assumes "plain f" "opens x" "closed a" "closes y"
  shows "words (f @ x # a @ [y]) = [f @ x # a @ [y]]"
proof -
  have "\<not> opens y" "x \<noteq> CHR '' ''" using assms opens_not_closes by (auto simp: opens_def closes_def)
  then have "words_at 0 (x # a @ [y]) = [x # a @ [y]]"
    using words_at_inside [of 0 a 0 "[y]"] assms by (simp add: closed_def deeper_def)
  then show ?thesis using words_at_plain [OF assms(1), of 0 "x # a @ [y]"] by (simp add: words_def)
qed

lemma words_at_size: "sum_list (map (\<lambda>w. Suc (length w)) (words_at d s)) \<le> Suc (length s)"
  by (induction d s rule: words_at.induct) (auto split: list.splits)

lemma words_size: "sum_list (map (\<lambda>w. Suc (length w)) (words s)) \<le> Suc (length s)"
  by (simp add: words_def words_at_size)

section \<open>Meaning\<close>

text \<open>What stands between a word's outer parentheses, where they belong together.\<close>

definition paren_inner :: "string \<Rightarrow> string option" where
  "paren_inner w =
     (if 2 \<le> length w \<and> hd w = CHR ''('' \<and> last w = CHR '')'' \<and> closed (butlast (tl w))
      then Some (butlast (tl w)) else None)"

lemma paren_inner_length: "paren_inner w = Some m \<Longrightarrow> length w = length m + 2"
  by (auto simp: paren_inner_def split: if_splits)

lemma paren_inner_paren: "closed a \<Longrightarrow> paren_inner (CHR ''('' # a @ '')'') = Some a"
  by (simp add: paren_inner_def)

function means :: "(string list \<Rightarrow> bool) \<Rightarrow> string list \<Rightarrow> bool" where
  "means v ws =
     (if ''OR'' \<in> set ws then \<exists>g \<in> set (split_on ''OR'' ws). means v g
      else if ''AND'' \<in> set ws then \<forall>g \<in> set (split_on ''AND'' ws). means v g
      else case ws of
        [] \<Rightarrow> v []
      | w # rest \<Rightarrow>
          if rest = [] then (case paren_inner w of None \<Rightarrow> v ws | Some m \<Rightarrow> means v (words m))
          else if w = ''NOT'' then \<not> means v rest
          else v ws)"
  by pat_completeness auto
termination
proof (relation "measure (\<lambda>(v, ws). sum_list (map (\<lambda>w. Suc (length w)) ws))", goal_cases)
  case (4 v ws w rest m)
  then have "length w = length m + 2" by (simp add: paren_inner_length)
  then show ?case using 4 words_size [of m] by simp
qed (auto intro: split_on_less)

declare means.simps [simp del]

definition clause_means :: "(string list \<Rightarrow> bool) \<Rightarrow> string \<Rightarrow> bool" where
  "clause_means v t = means v (words t)"

lemma means_split_or: "means v ws = (\<exists>g \<in> set (split_on ''OR'' ws). means v g)"
  by (cases "''OR'' \<in> set ws") (simp_all add: means.simps [of v ws] split_on_none)

lemma means_split_and: "''OR'' \<notin> set ws \<Longrightarrow> means v ws = (\<forall>g \<in> set (split_on ''AND'' ws). means v g)"
  by (cases "''AND'' \<in> set ws") (simp_all add: means.simps [of v ws] split_on_none)

lemma means_or: "means v (a @ ''OR'' # b) = (means v a \<or> means v b)"
  by (simp add: means_split_or [of v "a @ ''OR'' # b"] means_split_or [of v a] means_split_or [of v b] split_on_append bex_Un)

lemma means_and: "''OR'' \<notin> set a \<Longrightarrow> ''OR'' \<notin> set b \<Longrightarrow> means v (a @ ''AND'' # b) = (means v a \<and> means v b)"
  by (simp add: means_split_and [of "a @ ''AND'' # b" v] means_split_and [of a v] means_split_and [of b v] split_on_append ball_Un)

lemma means_atom:
  "w \<noteq> ''NOT'' \<Longrightarrow> ''OR'' \<notin> set (w # x # rest) \<Longrightarrow> ''AND'' \<notin> set (w # x # rest) \<Longrightarrow> means v (w # x # rest) = v (w # x # rest)"
  by (subst means.simps) simp

section \<open>Texts that join and wrap others\<close>

text \<open>A clause that may stand beside \<open>AND\<close>: its brackets close and no \<open>OR\<close> is outside them.\<close>

definition conjoinable :: "string \<Rightarrow> bool" where
  "conjoinable t = (closed t \<and> ''OR'' \<notin> set (words t))"

lemma conjoinable_closed: "conjoinable t \<Longrightarrow> closed t"
  by (simp add: conjoinable_def)

lemma clause_means_or: "closed a \<Longrightarrow> clause_means v (a @ '' OR '' @ b) = (clause_means v a \<or> clause_means v b)"
  using words_space [of a "''OR '' @ b"] words_space [of "''OR''" b] words_plain [of "''OR''"] plain_closed [of "''OR''"]
  by (simp add: clause_means_def means_or plain_def opens_def closes_def)

lemma words_and: "closed a \<Longrightarrow> words (a @ '' AND '' @ b) = words a @ ''AND'' # words b"
  using words_space [of a "''AND '' @ b"] words_space [of "''AND''" b] words_plain [of "''AND''"] plain_closed [of "''AND''"]
  by (simp add: plain_def opens_def closes_def)

lemma clause_means_and:
  "conjoinable a \<Longrightarrow> conjoinable b \<Longrightarrow> clause_means v (a @ '' AND '' @ b) = (clause_means v a \<and> clause_means v b)"
  by (simp add: clause_means_def conjoinable_def words_and [simplified] means_and)

lemma closed_word [simp]: "closed '' AND ''" "closed '' OR ''"
  by (simp_all add: closed_def opens_def closes_def)

lemma conjoinable_and: "conjoinable a \<Longrightarrow> conjoinable b \<Longrightarrow> conjoinable (a @ '' AND '' @ b)"
  using closed_append [OF _ closed_append, of a "'' AND ''" b] by (simp add: conjoinable_def words_and [simplified])

lemma words_paren: "closed a \<Longrightarrow> words (''('' @ a @ '')'') = [''('' @ a @ '')'']"
  using words_call [of "[]" "CHR ''(''" a "CHR '')''"] by (simp add: plain_def opens_def closes_def)

lemma closed_paren: "closed a \<Longrightarrow> closed (''('' @ a @ '')'')"
  using closed_brackets [of a "CHR ''(''" "CHR '')''"] by (simp add: opens_def closes_def)

lemma conjoinable_paren: "closed a \<Longrightarrow> conjoinable (''('' @ a @ '')'')"
  using words_paren [of a] closed_paren [of a] by (simp add: conjoinable_def)

lemma clause_means_paren: "closed a \<Longrightarrow> clause_means v (''('' @ a @ '')'') = clause_means v a"
  using words_paren [of a] by (simp add: clause_means_def means.simps [of v "[CHR ''('' # a @ '')'']"] paren_inner_paren)

lemma words_not: "closed t \<Longrightarrow> words (''NOT '' @ t) = ''NOT'' # words t"
  using words_space [of "''NOT''" t] words_plain [of "''NOT''"] plain_closed [of "''NOT''"]
  by (simp add: plain_def opens_def closes_def)

lemma conjoinable_not: "conjoinable t \<Longrightarrow> conjoinable (''NOT '' @ t)"
  using closed_append [of "''NOT ''" t] words_not [of t] by (simp add: conjoinable_def) (simp add: closed_def opens_def closes_def)

lemma clause_means_not:
  assumes "closed a"
  shows "clause_means v (''NOT '' @ ''('' @ a @ '')'') = (\<not> clause_means v a)"
proof -
  have "words (''NOT '' @ ''('' @ a @ '')'') = [''NOT'', ''('' @ a @ '')'']"
    using words_not [OF closed_paren [OF assms]] words_paren [OF assms] by simp
  then show ?thesis using clause_means_paren [OF assms, of v] words_paren [OF assms]
    by (simp add: clause_means_def means.simps [of v "[''NOT'', CHR ''('' # a @ '')'']"])
qed

lemma closed_join: "closed sep \<Longrightarrow> \<forall>t \<in> set ts. closed t \<Longrightarrow> closed (join_with sep ts)"
  by (induction sep ts rule: join_with.induct) (auto simp del: append_assoc simp: closed_append)

lemma conjoinable_join: "ts \<noteq> [] \<Longrightarrow> \<forall>t \<in> set ts. conjoinable t \<Longrightarrow> conjoinable (join_with '' AND '' ts)"
  by (induction "'' AND ''" ts rule: join_with.induct) (auto intro: conjoinable_and [simplified])

lemma clause_means_join_and:
  "ts \<noteq> [] \<Longrightarrow> \<forall>t \<in> set ts. conjoinable t \<Longrightarrow> clause_means v (join_with '' AND '' ts) = (\<forall>t \<in> set ts. clause_means v t)"
proof (induction "'' AND ''" ts rule: join_with.induct)
  case (3 x y zs)
  then show ?case using clause_means_and [of x "join_with '' AND '' (y # zs)" v] conjoinable_join [of "y # zs"] by simp
qed simp_all

lemma clause_means_join_or:
  "ts \<noteq> [] \<Longrightarrow> \<forall>t \<in> set ts. closed t \<Longrightarrow> clause_means v (join_with '' OR '' ts) = (\<exists>t \<in> set ts. clause_means v t)"
proof (induction "'' OR ''" ts rule: join_with.induct)
  case (3 x y zs)
  then show ?case using clause_means_or [of x v "join_with '' OR '' (y # zs)"] by simp
qed simp_all

end
