(* ===== verification/Filter_Parser.thy ===== *)
theory Filter_Parser
  imports Ir_Filter Clause_Text
begin

text \<open>
  \<open>src/filter.rs\<close>: a filter compiled to the clauses of a query. \<open>FilterParser\<close> walks a filter (a
  map of fields, or a tree of conditions), names each value as a parameter \<open>filter_p0\<close>,
  \<open>filter_p1\<close>, ..., joins the entities a dotted key asks for, and writes the text of the WHERE
  clause with the words of the dialect. The part of \<open>SchemaDialect\<close> it calls is the record
  \<open>filter_dialect\<close>; \<open>rag3db_filters\<close> and \<open>postgres_filters\<close> are the two dialects of
  \<open>src/dialect.rs\<close>, and the locale \<open>clause_dialect\<close> says what the parser relies on. The builder
  of conditions follows.

  A \<open>HashMap\<close> is a list of its entries in the order an iteration gives them: what is proved holds
  for every order. The counters are \<open>usize\<close> values bounded by the size of the filter.
\<close>

named_theorems filter_simps \<open>definitions of the filter parser\<close>

section \<open>Errors, results and state\<close>

datatype filter_error =
    InvalidIdentifier string string
  | NoRelation string string
  | Structured string

type_synonym query_params = "(string \<times> ir_value) list"

record parsed_filter =
  where_clauses :: "string list"
  match_clauses :: "string list"
  filter_params :: query_params
  filter_aliases :: "(string \<times> string) list"

definition combine_where :: "parsed_filter \<Rightarrow> string" where
  "combine_where p = join_with '' AND '' (where_clauses p)"

text \<open>The methods of \<open>SchemaDialect\<close> the parser calls. The membership test of one value is given
  by a dialect or it is not, whatever its arguments.\<close>

record filter_dialect =
  fd_name :: string
  fd_structured_fields :: bool
  fd_quote :: "string \<Rightarrow> string"
  fd_join_clause :: "string \<Rightarrow> string \<Rightarrow> string \<Rightarrow> string \<Rightarrow> bool \<Rightarrow> string"
  fd_size_expr :: "string \<Rightarrow> string"
  fd_starts_with :: "string \<Rightarrow> string \<Rightarrow> string"
  fd_contains :: "string \<Rightarrow> string \<Rightarrow> string"
  fd_list_scalar_contains :: "(string \<Rightarrow> string \<Rightarrow> string) option"
  fd_list_any_match :: "string \<Rightarrow> string \<Rightarrow> string"
  fd_list_all :: "string \<Rightarrow> string \<Rightarrow> string"
  fd_list_none :: "string \<Rightarrow> string \<Rightarrow> string"

record relation_def =
  rel_from :: string
  rel_to :: string

text \<open>What the parser threads through a filter: the counter of the parser and the four
  accumulators it hands down.\<close>

record filter_state =
  param_counter :: nat
  st_match :: "string list"
  st_params :: query_params
  st_aliases :: "(string \<times> string) list"
  alias_counter :: nat

section \<open>Names\<close>

definition validate_identifier :: "string \<Rightarrow> string \<Rightarrow> (filter_error, unit) result" where
  "validate_identifier name kind = (if is_valid_identifier name then Ok () else Err (InvalidIdentifier kind name))"

definition find_relation :: "(string \<times> relation_def) list \<Rightarrow> string \<Rightarrow> string \<Rightarrow> (string \<times> string) option" where
  "find_relation relations a b =
     map_option (\<lambda>(name, def). (name, rel_from def))
       (find (\<lambda>(name, def). rel_from def = a \<and> rel_to def = b \<or> rel_from def = b \<and> rel_to def = a) relations)"

definition next_param :: "filter_state \<Rightarrow> string \<times> filter_state" where
  "next_param st = (''filter_p'' @ decimal (param_counter st), st\<lparr>param_counter := Suc (param_counter st)\<rparr>)"

definition push_param :: "string \<Rightarrow> ir_value \<Rightarrow> filter_state \<Rightarrow> filter_state" where
  "push_param p x st = st\<lparr>st_params := st_params st @ [(p, x)]\<rparr>"

section \<open>Clauses of one field\<close>

text \<open>\<open>usize as i64\<close>: the same 64 bits, signed.\<close>

definition usize_as_i64 :: "nat \<Rightarrow> int" where
  "usize_as_i64 n = sint (word_of_nat n :: 64 word)"

text \<open>A parameter for each value of a list, and the text each gives.\<close>

fun each_param :: "(string \<Rightarrow> string) \<Rightarrow> ir_value list \<Rightarrow> filter_state \<Rightarrow> string list \<times> filter_state" where
  "each_param f [] st = ([], st)"
| "each_param f (x # xs) st =
     (let (p, st1) = next_param st;
          (ts, st2) = each_param f xs (push_param p x st1)
      in (f p # ts, st2))"

text \<open>\<open>HasAny\<close>, \<open>HasAll\<close> and \<open>HasNone\<close> in a dialect with a membership test of one value.\<close>

definition scalar_list_clause ::
    "(string \<Rightarrow> string \<Rightarrow> string) \<Rightarrow> string \<Rightarrow> filter_op \<Rightarrow> ir_value list \<Rightarrow> filter_state \<Rightarrow> string option \<times> filter_state" where
  "scalar_list_clause contains prop op items st =
     (if items = [] then (Some (case op of OpHasAny _ \<Rightarrow> ''false'' | _ \<Rightarrow> ''true''), st)
      else
        let (clauses, st1) = each_param (contains prop) items st;
            separator = (case op of OpHasAll _ \<Rightarrow> '' AND '' | _ \<Rightarrow> '' OR '');
            clause = ''('' @ join_with separator clauses @ '')''
        in (Some (case op of OpHasNone _ \<Rightarrow> ''NOT '' @ clause | _ \<Rightarrow> clause), st1))"

definition build_list_op_clause ::
    "filter_dialect \<Rightarrow> string \<Rightarrow> filter_op \<Rightarrow> filter_state \<Rightarrow> string option \<times> filter_state" where
  "build_list_op_clause D prop op st =
     (let whole = (\<lambda>items f. let (p, st1) = next_param st in (Some (f p), push_param p (VList items) st1));
          members = (\<lambda>items f. case fd_list_scalar_contains D of
              Some contains \<Rightarrow> scalar_list_clause contains prop op items st
            | None \<Rightarrow> whole items f)
      in case op of
        OpHasAny items \<Rightarrow> members items (fd_list_any_match D prop)
      | OpHasAll items \<Rightarrow> members items (fd_list_all D prop)
      | OpHasNone items \<Rightarrow> members items (fd_list_none D prop)
      | OpIn items \<Rightarrow> whole items (\<lambda>p. prop @ '' IN $'' @ p)
      | OpNotIn items \<Rightarrow> whole items (\<lambda>p. ''NOT ('' @ prop @ '' IN $'' @ p @ '')'')
      | _ \<Rightarrow> (None, snd (next_param st)))"

definition values_bound :: "string \<Rightarrow> string \<Rightarrow> nat option \<Rightarrow> filter_state \<Rightarrow> string list \<times> filter_state" where
  "values_bound sz cmp bound st =
     (case bound of
        None \<Rightarrow> ([], st)
      | Some n \<Rightarrow> let (p, st1) = next_param st
                  in ([sz @ cmp @ p], push_param p (VInt (usize_as_i64 n)) st1))"

definition build_special_op_clause ::
    "filter_dialect \<Rightarrow> string \<Rightarrow> filter_op \<Rightarrow> filter_state \<Rightarrow> string option \<times> filter_state" where
  "build_special_op_clause D prop op st =
     (case op of
        OpIsNull \<Rightarrow> (Some (prop @ '' IS NULL''), st)
      | OpIsNotNull \<Rightarrow> (Some (prop @ '' IS NOT NULL''), st)
      | OpIsEmpty \<Rightarrow> (Some (fd_size_expr D prop @ '' = 0''), st)
      | OpIsNotEmpty \<Rightarrow> (Some (fd_size_expr D prop @ '' > 0''), st)
      | OpBetween lo hi \<Rightarrow>
          let (p_lo, st1) = next_param st;
              (p_hi, st2) = next_param st1
          in (Some ((prop @ '' >= $'' @ p_lo) @ '' AND '' @ (prop @ '' <= $'' @ p_hi)),
              push_param p_hi hi (push_param p_lo lo st2))
      | OpStartsWith s \<Rightarrow>
          let (p, st1) = next_param st in (Some (fd_starts_with D prop p), push_param p (VString s) st1)
      | OpContains s \<Rightarrow>
          let (p, st1) = next_param st in (Some (fd_contains D prop p), push_param p (VString s) st1)
      | OpValuesCount lo hi \<Rightarrow>
          let (t1, st1) = values_bound (fd_size_expr D prop) '' >= $'' lo st;
              (t2, st2) = values_bound (fd_size_expr D prop) '' <= $'' hi st1
          in (if t1 @ t2 = [] then None else Some (join_with '' AND '' (t1 @ t2)), st2)
      | _ \<Rightarrow> (None, st))"

definition build_op_clause ::
    "filter_dialect \<Rightarrow> string \<Rightarrow> filter_op \<Rightarrow> filter_state \<Rightarrow> string option \<times> filter_state" where
  "build_op_clause D prop op st =
     (let compare = (\<lambda>operator x. let (p, st1) = next_param st
                in (Some (prop @ CHR '' '' # operator @ '' $'' @ p), push_param p x st1))
      in case op of
        OpEq x \<Rightarrow> compare ''='' x
      | OpNeq x \<Rightarrow> compare ''<>'' x
      | OpLt x \<Rightarrow> compare ''<'' x
      | OpLte x \<Rightarrow> compare ''<='' x
      | OpGt x \<Rightarrow> compare ''>'' x
      | OpGte x \<Rightarrow> compare ''>='' x
      | OpIn _ \<Rightarrow> build_list_op_clause D prop op st
      | OpHasAny _ \<Rightarrow> build_list_op_clause D prop op st
      | OpHasAll _ \<Rightarrow> build_list_op_clause D prop op st
      | OpHasNone _ \<Rightarrow> build_list_op_clause D prop op st
      | OpNotIn _ \<Rightarrow> build_list_op_clause D prop op st
      | _ \<Rightarrow> build_special_op_clause D prop op st)"

text \<open>\<open>ops.iter().filter_map(..)\<close>.\<close>

fun op_clauses :: "filter_dialect \<Rightarrow> string \<Rightarrow> filter_op list \<Rightarrow> filter_state \<Rightarrow> string list \<times> filter_state" where
  "op_clauses D prop [] st = ([], st)"
| "op_clauses D prop (op # ops) st =
     (let (t, st1) = build_op_clause D prop op st;
          (ts, st2) = op_clauses D prop ops st1
      in ((case t of None \<Rightarrow> ts | Some c \<Rightarrow> c # ts), st2))"

definition prop_of :: "filter_dialect \<Rightarrow> string \<Rightarrow> string \<Rightarrow> string" where
  "prop_of D alias field = alias @ ''.'' @ join_with ''.'' (map (fd_quote D) (split_on CHR ''.'' field))"

definition build_clause ::
    "filter_dialect \<Rightarrow> string \<Rightarrow> string \<Rightarrow> filter_value \<Rightarrow> filter_state \<Rightarrow> string option \<times> filter_state" where
  "build_clause D alias field val st =
     (let prop = prop_of D alias field in
      case val of
        FvDirect cv \<Rightarrow>
          if is_null cv then (Some (prop @ '' IS NULL''), st)
          else let (p, st1) = next_param st in (Some (prop @ '' = $'' @ p), push_param p cv st1)
      | FvList items \<Rightarrow>
          let (p, st1) = next_param st in (Some (prop @ '' IN $'' @ p), push_param p (VList items) st1)
      | FvOps ops \<Rightarrow>
          let (clauses, st1) = op_clauses D prop ops st
          in (if clauses = [] then None else Some (join_with '' AND '' clauses), st1))"

section \<open>Conditions\<close>

text \<open>The entity and the field of a key; the alias of an entity, joined at its first use.\<close>

definition key_parts :: "string \<Rightarrow> string \<Rightarrow> string \<times> string" where
  "key_parts result_entity key =
     (case split_once CHR ''.'' key of Some (e, f) \<Rightarrow> (e, f) | None \<Rightarrow> (result_entity, key))"

definition alias_of ::
    "filter_dialect \<Rightarrow> (string \<times> relation_def) list \<Rightarrow> string \<Rightarrow> string \<Rightarrow> string \<Rightarrow> filter_state
      \<Rightarrow> (filter_error, string \<times> filter_state) result" where
  "alias_of D relations result_entity result_alias entity st =
     (case map_of (st_aliases st) entity of
        Some a \<Rightarrow> Ok (a, st)
      | None \<Rightarrow>
          let n = Suc (alias_counter st);
              a = CHR ''e'' # decimal n;
              st1 = st\<lparr>alias_counter := n, st_aliases := hm_insert entity a (st_aliases st)\<rparr>
          in try_then (ok_or (NoRelation result_entity entity) (find_relation relations result_entity entity)) (\<lambda>(name, from).
             try_then (validate_identifier name ''relation'') (\<lambda>_.
             Ok (a, st1\<lparr>st_match := st_match st1 @ [fd_join_clause D result_alias name a entity (from = result_entity)]\<rparr>))))"

definition field_clause ::
    "filter_dialect \<Rightarrow> (string \<times> relation_def) list \<Rightarrow> string \<Rightarrow> string \<Rightarrow> string \<Rightarrow> filter_value \<Rightarrow> filter_state
      \<Rightarrow> (filter_error, filter_state \<times> string option) result" where
  "field_clause D relations result_entity result_alias key val st =
     (let (entity, field) = key_parts result_entity key in
      try_then (validate_identifier entity ''entity'') (\<lambda>_.
      try_then (validate_identifier field ''field'') (\<lambda>_.
      try_then (alias_of D relations result_entity result_alias entity st) (\<lambda>(a, st1).
      let (clause, st2) = build_clause D a field val st1 in Ok (st2, clause)))))"

definition path_expr :: "filter_dialect \<Rightarrow> string list \<Rightarrow> (filter_error, string) result" where
  "path_expr D path =
     (if path = [] then Err (Structured ''empty path'')
      else try_then (for_each (\<lambda>part. validate_identifier part ''path component'') path) (\<lambda>_.
           Ok (join_with ''.'' (map (fd_quote D) path))))"

definition predicate_clause ::
    "filter_dialect \<Rightarrow> string \<Rightarrow> string \<Rightarrow> filter_value \<Rightarrow> filter_state \<Rightarrow> (filter_error, filter_state \<times> string) result" where
  "predicate_clause D alias field val st =
     (let (clause, st1) = build_clause D alias field val st
      in try_then (ok_or (Structured ''empty predicate'') clause) (\<lambda>t. Ok (st1, t)))"

definition undeclared_structured :: "filter_dialect \<Rightarrow> string" where
  "undeclared_structured D = ''native nested filters: dialect '' @ fd_name D @ '' does not declare structured fields''"

text \<open>What the guards at the head of \<open>structured_clause\<close> refuse, and the text of a boolean group there.\<close>

definition structured_guard :: "filter_dialect \<Rightarrow> nat \<Rightarrow> (filter_error, unit) result" where
  "structured_guard D depth =
     (if \<not> fd_structured_fields D then Err (Structured (undeclared_structured D))
      else if depth > 32 then Err (Structured ''nesting exceeds 32'')
      else Ok ())"

definition nested_text :: "string \<Rightarrow> string \<Rightarrow> string \<Rightarrow> string \<Rightarrow> string" where
  "nested_text element alias field predicate =
     ''COALESCE(any('' @ element @ '' IN '' @ alias @ ''.'' @ field @ '' WHERE COALESCE(('' @ predicate @ ''), false)), false)''"

fun structured_clause ::
    "filter_dialect \<Rightarrow> nat \<Rightarrow> string \<Rightarrow> filter_condition \<Rightarrow> filter_state \<Rightarrow> (filter_error, filter_state \<times> string) result" where
  "structured_clause D depth alias (FcPath path val) st =
     try_then (structured_guard D depth) (\<lambda>_.
     try_then (path_expr D path) (\<lambda>_.
     predicate_clause D alias (join_with ''.'' path) val st))"
| "structured_clause D depth alias (FcField key val) st =
     try_then (structured_guard D depth) (\<lambda>_.
     try_then (validate_identifier key ''nested field'') (\<lambda>_.
     predicate_clause D alias key val st))"
| "structured_clause D depth alias (FcNested path c) st =
     try_then (structured_guard D depth) (\<lambda>_.
     try_then (path_expr D path) (\<lambda>field.
     let element = ''nested_'' @ decimal depth in
     try_then (structured_clause D (Suc depth) element c st) (\<lambda>(st1, predicate).
     Ok (st1, nested_text element alias field predicate))))"
| "structured_clause D depth alias (FcMust cs) st =
     try_then (structured_guard D depth) (\<lambda>_.
     if cs = [] then Err (Structured ''empty boolean group'')
     else try_then (thread (\<lambda>s c. structured_clause D (Suc depth) alias c s) st cs) (\<lambda>(st1, clauses).
     Ok (st1, ''('' @ join_with '' AND '' clauses @ '')'')))"
| "structured_clause D depth alias (FcShould cs) st =
     try_then (structured_guard D depth) (\<lambda>_.
     if cs = [] then Err (Structured ''empty boolean group'')
     else try_then (thread (\<lambda>s c. structured_clause D (Suc depth) alias c s) st cs) (\<lambda>(st1, clauses).
     Ok (st1, ''('' @ join_with '' OR '' clauses @ '')'')))"
| "structured_clause D depth alias (FcMustNot cs) st =
     try_then (structured_guard D depth) (\<lambda>_.
     if cs = [] then Err (Structured ''empty boolean group'')
     else try_then (thread (\<lambda>s c. structured_clause D (Suc depth) alias c s) st cs) (\<lambda>(st1, clauses).
     Ok (st1, ''NOT '' @ ''('' @ join_with '' AND '' clauses @ '')'')))"

text \<open>The text of a boolean group at the top: the members that gave no clause are left out.\<close>

definition clauses_of :: "string list \<Rightarrow> string list" where
  "clauses_of ts = filter (\<lambda>t. t \<noteq> []) ts"

definition group_text :: "string \<Rightarrow> string list \<Rightarrow> string" where
  "group_text sep clauses =
     (if clauses = [] then [] else if length clauses = 1 then hd clauses else ''('' @ join_with sep clauses @ '')'')"

definition not_group_text :: "string list \<Rightarrow> string" where
  "not_group_text clauses =
     (if clauses = [] then []
      else if length clauses = 1 then ''NOT '' @ ''('' @ hd clauses @ '')''
      else ''NOT '' @ ''('' @ join_with '' AND '' clauses @ '')'')"

fun build_condition_clause ::
    "filter_dialect \<Rightarrow> (string \<times> relation_def) list \<Rightarrow> string \<Rightarrow> string \<Rightarrow> filter_condition \<Rightarrow> filter_state
      \<Rightarrow> (filter_error, filter_state \<times> string) result" where
  "build_condition_clause D R re ra (FcPath path val) st = structured_clause D 0 ra (FcPath path val) st"
| "build_condition_clause D R re ra (FcNested path c) st = structured_clause D 0 ra (FcNested path c) st"
| "build_condition_clause D R re ra (FcField key val) st =
     try_then (field_clause D R re ra key val st) (\<lambda>(st1, clause).
     Ok (st1, case clause of None \<Rightarrow> [] | Some t \<Rightarrow> t))"
| "build_condition_clause D R re ra (FcMust cs) st =
     try_then (thread (\<lambda>s c. build_condition_clause D R re ra c s) st cs) (\<lambda>(st1, ts).
     Ok (st1, group_text '' AND '' (clauses_of ts)))"
| "build_condition_clause D R re ra (FcShould cs) st =
     try_then (thread (\<lambda>s c. build_condition_clause D R re ra c s) st cs) (\<lambda>(st1, ts).
     Ok (st1, group_text '' OR '' (clauses_of ts)))"
| "build_condition_clause D R re ra (FcMustNot cs) st =
     try_then (thread (\<lambda>s c. build_condition_clause D R re ra c s) st cs) (\<lambda>(st1, ts).
     Ok (st1, not_group_text (clauses_of ts)))"

definition initial_state :: "string \<Rightarrow> string \<Rightarrow> filter_state" where
  "initial_state result_entity result_alias =
     \<lparr>param_counter = 0, st_match = [], st_params = [], st_aliases = [(result_entity, result_alias)], alias_counter = 0\<rparr>"

definition parsed :: "filter_state \<Rightarrow> string list \<Rightarrow> parsed_filter" where
  "parsed st wheres = \<lparr>where_clauses = wheres, match_clauses = st_match st, filter_params = st_params st,
     filter_aliases = st_aliases st\<rparr>"

definition parse_condition ::
    "filter_dialect \<Rightarrow> (string \<times> relation_def) list \<Rightarrow> filter_condition \<Rightarrow> string \<Rightarrow> string \<Rightarrow> (filter_error, parsed_filter) result" where
  "parse_condition D R condition result_entity result_alias =
     try_then (validate_identifier result_entity ''entity'') (\<lambda>_.
     try_then (build_condition_clause D R result_entity result_alias condition (initial_state result_entity result_alias)) (\<lambda>(st, where_str).
     Ok (parsed st (if where_str = [] then [] else [where_str]))))"

text \<open>A map of fields: one clause per field that has one, all required.\<close>

definition parse ::
    "filter_dialect \<Rightarrow> (string \<times> relation_def) list \<Rightarrow> (string \<times> filter_value) list \<Rightarrow> string \<Rightarrow> string \<Rightarrow> (filter_error, parsed_filter) result" where
  "parse D R filters result_entity result_alias =
     try_then (validate_identifier result_entity ''entity'') (\<lambda>_.
     try_then (thread (\<lambda>s (key, val). field_clause D R result_entity result_alias key val s)
                 (initial_state result_entity result_alias) filters) (\<lambda>(st, clauses).
     Ok (parsed st (List.map_filter id clauses))))"

section \<open>The two dialects\<close>

definition cypher_quote :: "string \<Rightarrow> string" where
  "cypher_quote name = ''`'' @ name @ ''`''"

definition rag3db_join_clause :: "string \<Rightarrow> string \<Rightarrow> string \<Rightarrow> string \<Rightarrow> bool \<Rightarrow> string" where
  "rag3db_join_clause result_alias rel_name target_alias target_entity forward =
     (if forward
      then ''MATCH ('' @ result_alias @ '')-[:'' @ cypher_quote rel_name @ '']->('' @ target_alias @ '':'' @ cypher_quote target_entity @ '')''
      else ''MATCH ('' @ result_alias @ '')<-[:'' @ cypher_quote rel_name @ '']-('' @ target_alias @ '':'' @ cypher_quote target_entity @ '')'')"

definition rag3db_filters :: filter_dialect where
  "rag3db_filters = \<lparr>
     fd_name = ''rag3db'',
     fd_structured_fields = True,
     fd_quote = cypher_quote,
     fd_join_clause = rag3db_join_clause,
     fd_size_expr = (\<lambda>prop. ''size('' @ prop @ '')''),
     fd_starts_with = (\<lambda>prop param. ''starts_with('' @ prop @ '', $'' @ param @ '')''),
     fd_contains = (\<lambda>prop param. ''contains('' @ prop @ '', $'' @ param @ '')''),
     fd_list_scalar_contains = Some (\<lambda>prop param. ''list_contains('' @ prop @ '', $'' @ param @ '')''),
     fd_list_any_match = (\<lambda>prop param. ''any(v IN '' @ prop @ '' WHERE list_contains($'' @ param @ '', v))''),
     fd_list_all = (\<lambda>prop param. ''all(v IN $'' @ param @ '' WHERE list_contains('' @ prop @ '', v))''),
     fd_list_none = (\<lambda>prop param. ''NOT '' @ ''any(v IN '' @ prop @ '' WHERE list_contains($'' @ param @ '', v))'')\<rparr>"

text \<open>\<open>str::to_lowercase\<close> on ASCII letters; the parser quotes validated identifiers only, which
  have no other letters. A name qualified by the schema is quoted part by part.\<close>

definition ascii_lower :: "char \<Rightarrow> char" where
  "ascii_lower c = (if 65 \<le> char_code c \<and> char_code c \<le> 90 then char_of (char_code c + 32) else c)"

definition postgres_quote :: "string \<Rightarrow> string" where
  "postgres_quote name =
     join_with ''.'' (map (\<lambda>part. CHR 0x22 # map ascii_lower part @ [CHR 0x22]) (split_on CHR ''.'' name))"

definition postgres_internal_table :: "string \<Rightarrow> string" where
  "postgres_internal_table name = ''rag3weaver.'' @ name"

definition postgres_join_clause :: "string \<Rightarrow> string \<Rightarrow> string \<Rightarrow> string \<Rightarrow> bool \<Rightarrow> string" where
  "postgres_join_clause result_alias rel_name target_alias target_entity forward =
     (let rel_table = postgres_quote (postgres_internal_table rel_name);
          target = postgres_quote target_entity;
          near = (if forward then ''from_uuid'' else ''to_uuid'');
          far = (if forward then ''to_uuid'' else ''from_uuid'')
      in ''JOIN '' @ rel_table @ '' AS _r_'' @ target_alias @ '' ON _r_'' @ target_alias @ ''.'' @ near @ '' = '' @ result_alias @ ''._uuid ''
         @ ''JOIN '' @ target @ '' AS '' @ target_alias @ '' ON '' @ target_alias @ ''._uuid = _r_'' @ target_alias @ ''.'' @ far)"

definition postgres_filters :: filter_dialect where
  "postgres_filters = \<lparr>
     fd_name = ''postgresql'',
     fd_structured_fields = False,
     fd_quote = postgres_quote,
     fd_join_clause = postgres_join_clause,
     fd_size_expr = (\<lambda>prop. ''cardinality('' @ prop @ '')''),
     fd_starts_with = (\<lambda>prop param. prop @ '' LIKE $'' @ param @ '' || '' @ [CHR 0x27] @ ''%'' @ [CHR 0x27]),
     fd_contains = (\<lambda>prop param. prop @ '' LIKE '' @ [CHR 0x27] @ ''%'' @ [CHR 0x27] @ '' || $'' @ param @ '' || '' @ [CHR 0x27] @ ''%'' @ [CHR 0x27]),
     fd_list_scalar_contains = None,
     fd_list_any_match = (\<lambda>prop param. prop @ '' && $'' @ param),
     fd_list_all = (\<lambda>prop param. prop @ '' @> $'' @ param),
     fd_list_none = (\<lambda>prop param. ''NOT '' @ ''('' @ prop @ '' && $'' @ param @ '')'')\<rparr>"

section \<open>The builder\<close>

text \<open>\<open>FilterBuilder\<close>: the conditions so far, one method per kind of filter.\<close>

type_synonym filter_builder = "filter_condition list"

definition fb_new :: filter_builder where
  "fb_new = []"

definition fb_field :: "string \<Rightarrow> filter_value \<Rightarrow> filter_builder \<Rightarrow> filter_builder" where
  "fb_field key val b = b @ [FcField key val]"

definition fb_eq :: "string \<Rightarrow> ir_value \<Rightarrow> filter_builder \<Rightarrow> filter_builder" where
  "fb_eq key x b = b @ [FcField key (FvOps [OpEq x])]"

definition fb_neq :: "string \<Rightarrow> ir_value \<Rightarrow> filter_builder \<Rightarrow> filter_builder" where
  "fb_neq key x b = b @ [FcField key (FvOps [OpNeq x])]"

definition fb_range :: "string \<Rightarrow> ir_value option \<Rightarrow> ir_value option \<Rightarrow> filter_builder \<Rightarrow> filter_builder" where
  "fb_range key lo hi b =
     (let ops = (case lo of None \<Rightarrow> [] | Some x \<Rightarrow> [OpGte x]) @ (case hi of None \<Rightarrow> [] | Some x \<Rightarrow> [OpLte x])
      in if ops \<noteq> [] then b @ [FcField key (FvOps ops)] else b)"

definition fb_is_in :: "string \<Rightarrow> ir_value list \<Rightarrow> filter_builder \<Rightarrow> filter_builder" where
  "fb_is_in key xs b = b @ [FcField key (FvOps [OpIn xs])]"

definition fb_is_null :: "string \<Rightarrow> filter_builder \<Rightarrow> filter_builder" where
  "fb_is_null key b = b @ [FcField key (FvOps [OpIsNull])]"

definition fb_is_not_null :: "string \<Rightarrow> filter_builder \<Rightarrow> filter_builder" where
  "fb_is_not_null key b = b @ [FcField key (FvOps [OpIsNotNull])]"

definition fb_has_any :: "string \<Rightarrow> ir_value list \<Rightarrow> filter_builder \<Rightarrow> filter_builder" where
  "fb_has_any key xs b = b @ [FcField key (FvOps [OpHasAny xs])]"

definition fb_starts_with :: "string \<Rightarrow> string \<Rightarrow> filter_builder \<Rightarrow> filter_builder" where
  "fb_starts_with key prefix b = b @ [FcField key (FvOps [OpStartsWith prefix])]"

definition fb_contains_str :: "string \<Rightarrow> string \<Rightarrow> filter_builder \<Rightarrow> filter_builder" where
  "fb_contains_str key sub b = b @ [FcField key (FvOps [OpContains sub])]"

definition fb_or :: "filter_condition list \<Rightarrow> filter_condition" where
  "fb_or cs = FcShould cs"

definition fb_not :: "filter_condition list \<Rightarrow> filter_condition" where
  "fb_not cs = FcMustNot cs"

definition fb_build :: "filter_builder \<Rightarrow> filter_condition" where
  "fb_build b = FcMust b"

text \<open>\<open>build_map\<close>: the last condition on a key stays; it panics (\<open>None\<close>) on anything but a field.\<close>

fun insert_fields :: "(string \<times> filter_value) list \<Rightarrow> filter_condition list \<Rightarrow> (string \<times> filter_value) list option" where
  "insert_fields m [] = Some m"
| "insert_fields m (FcField key val # cs) = insert_fields (hm_insert key val m) cs"
| "insert_fields m (c # cs) = None"

definition fb_build_map :: "filter_builder \<Rightarrow> (string \<times> filter_value) list option" where
  "fb_build_map b = insert_fields [] b"

section \<open>The parameters\<close>

definition param_name :: "nat \<Rightarrow> string" where
  "param_name n = ''filter_p'' @ decimal n"

fun numbered :: "nat \<Rightarrow> ir_value list \<Rightarrow> query_params" where
  "numbered n [] = []"
| "numbered n (x # xs) = (param_name n, x) # numbered (Suc n) xs"

lemma numbered_append: "numbered n (xs @ ys) = numbered n xs @ numbered (n + length xs) ys"
  by (induction n xs rule: numbered.induct) auto

text \<open>A step that only names and stores the values \<open>vs\<close>, in order.\<close>

definition adds :: "ir_value list \<Rightarrow> filter_state \<Rightarrow> filter_state \<Rightarrow> bool" where
  "adds vs st st' = (st' = st\<lparr>param_counter := param_counter st + length vs,
     st_params := st_params st @ numbered (param_counter st) vs\<rparr>)"

lemma adds_Nil [simp]: "adds [] st st' \<longleftrightarrow> st' = st"
  by (auto simp: adds_def)

lemma adds_trans: "adds vs st su \<Longrightarrow> adds ws su sv \<Longrightarrow> adds (vs @ ws) st sv"
  by (simp add: adds_def numbered_append add.assoc)

lemma adds_one: "adds [x] st (push_param (fst (next_param st)) x (snd (next_param st)))"
  by (simp add: adds_def next_param_def push_param_def param_name_def)

lemma adds_next:
  "next_param st = (p, st1) \<Longrightarrow> adds [x] st (push_param p x st1)"
  using adds_one [of x st] by simp

lemma adds_each: "each_param f xs st = (ts, st') \<Longrightarrow> adds xs st st'"
proof (induction xs arbitrary: st ts)
  case (Cons x xs)
  then show ?case by (auto dest!: adds_next [of st _ _ x] intro: adds_trans [of "[x]", simplified] split: prod.splits)
qed simp

lemma adds_bound: "values_bound sz cmp b st = (ts, st') \<Longrightarrow>
   adds (case b of None \<Rightarrow> [] | Some n \<Rightarrow> [VInt (usize_as_i64 n)]) st st'"
  by (auto simp: values_bound_def adds_next split: option.splits prod.splits)

text \<open>The values an operator or a field hands to the query, in order.\<close>

fun op_values :: "filter_dialect \<Rightarrow> filter_op \<Rightarrow> ir_value list" where
  "op_values D (OpEq x) = [x]"
| "op_values D (OpNeq x) = [x]"
| "op_values D (OpLt x) = [x]"
| "op_values D (OpLte x) = [x]"
| "op_values D (OpGt x) = [x]"
| "op_values D (OpGte x) = [x]"
| "op_values D (OpIn xs) = [VList xs]"
| "op_values D (OpNotIn xs) = [VList xs]"
| "op_values D (OpHasAny xs) = (if fd_list_scalar_contains D = None then [VList xs] else xs)"
| "op_values D (OpHasAll xs) = (if fd_list_scalar_contains D = None then [VList xs] else xs)"
| "op_values D (OpHasNone xs) = (if fd_list_scalar_contains D = None then [VList xs] else xs)"
| "op_values D (OpBetween lo hi) = [lo, hi]"
| "op_values D (OpStartsWith s) = [VString s]"
| "op_values D (OpContains s) = [VString s]"
| "op_values D (OpValuesCount lo hi) =
     map (VInt \<circ> usize_as_i64) ((case lo of None \<Rightarrow> [] | Some n \<Rightarrow> [n]) @ (case hi of None \<Rightarrow> [] | Some n \<Rightarrow> [n]))"
| "op_values D _ = []"

fun value_values :: "filter_dialect \<Rightarrow> filter_value \<Rightarrow> ir_value list" where
  "value_values D (FvDirect x) = (if is_null x then [] else [x])"
| "value_values D (FvList xs) = [VList xs]"
| "value_values D (FvOps ops) = concat (map (op_values D) ops)"

fun condition_values :: "filter_dialect \<Rightarrow> filter_condition \<Rightarrow> ir_value list" where
  "condition_values D (FcField key val) = value_values D val"
| "condition_values D (FcPath path val) = value_values D val"
| "condition_values D (FcNested path c) = condition_values D c"
| "condition_values D (FcMust cs) = concat (map (condition_values D) cs)"
| "condition_values D (FcShould cs) = concat (map (condition_values D) cs)"
| "condition_values D (FcMustNot cs) = concat (map (condition_values D) cs)"

lemma adds_scalar: "scalar_list_clause f prop op xs st = (t, st') \<Longrightarrow> adds xs st st'"
  by (auto simp: scalar_list_clause_def Let_def adds_each split: if_splits prod.splits)

lemma adds_list: "build_list_op_clause D prop op st = (t, st') \<Longrightarrow>
   op \<in> {OpIn xs, OpNotIn xs, OpHasAny xs, OpHasAll xs, OpHasNone xs} \<Longrightarrow> adds (op_values D op) st st'"
  by (auto simp: build_list_op_clause_def Let_def adds_next adds_scalar split: option.splits prod.splits)

lemma adds_two: "next_param st = (p, s1) \<Longrightarrow> next_param s1 = (q, s2) \<Longrightarrow> adds [x, y] st (push_param q y (push_param p x s2))"
  by (auto simp: adds_def next_param_def push_param_def param_name_def)

lemma adds_special: "build_special_op_clause D prop op st = (t, st') \<Longrightarrow>
   \<forall>xs. op \<notin> {OpIn xs, OpNotIn xs, OpHasAny xs, OpHasAll xs, OpHasNone xs} \<Longrightarrow>
   \<forall>x. op \<notin> {OpEq x, OpNeq x, OpLt x, OpLte x, OpGt x, OpGte x} \<Longrightarrow> adds (op_values D op) st st'"
  by (cases op) (auto simp: build_special_op_clause_def Let_def adds_next adds_two dest!: adds_bound split: prod.splits option.splits intro: adds_trans [of "[_]" _ _ "[_]", simplified])

lemma adds_op: "build_op_clause D prop op st = (t, st') \<Longrightarrow> adds (op_values D op) st st'"
  by (cases op) (auto simp: build_op_clause_def Let_def adds_next dest: adds_list adds_special split: prod.splits)

lemma adds_ops: "op_clauses D prop ops st = (ts, st') \<Longrightarrow> adds (concat (map (op_values D) ops)) st st'"
proof (induction ops arbitrary: st ts)
  case (Cons op ops)
  then show ?case by (auto dest!: adds_op intro: adds_trans split: prod.splits)
qed simp

lemma adds_clause: "build_clause D alias field val st = (t, st') \<Longrightarrow> adds (value_values D val) st st'"
  by (cases val) (auto simp: build_clause_def Let_def adds_next dest: adds_ops split: prod.splits if_splits)


lemma adds_thread:
  assumes "thread f st cs = Inr (st', ts)" "\<And>c s s' t. c \<in> set cs \<Longrightarrow> f s c = Inr (s', t) \<Longrightarrow> adds (g c) s s'"
  shows "adds (concat (map g cs)) st st'"
  using assms
proof (induction cs arbitrary: st ts)
  case (Cons c cs)
  then show ?case by (auto intro!: adds_trans split: prod.splits)
qed simp

text \<open>The structured part only names values.\<close>

lemma structured_adds: "structured_clause D depth al c st = Inr (st', t) \<Longrightarrow> adds (condition_values D c) st st'"
proof (induction D depth al c st arbitrary: st' t rule: structured_clause.induct)
  case (3 D depth al path c st)
  then show ?case by (auto simp: Let_def split: prod.splits)
qed (auto simp: predicate_clause_def split: if_splits prod.splits intro: adds_clause intro!: adds_thread)

text \<open>The same for a step that may also join entities.\<close>

definition stores :: "ir_value list \<Rightarrow> filter_state \<Rightarrow> filter_state \<Rightarrow> bool" where
  "stores vs st st' = (param_counter st' = param_counter st + length vs
     \<and> st_params st' = st_params st @ numbered (param_counter st) vs)"

lemma stores_refl [simp]: "stores [] st st"
  by (simp add: stores_def)

lemma stores_trans: "stores vs st su \<Longrightarrow> stores ws su sv \<Longrightarrow> stores (vs @ ws) st sv"
  by (simp add: stores_def numbered_append)

lemma adds_stores: "adds vs st st' \<Longrightarrow> stores vs st st'"
  by (simp add: adds_def stores_def)

lemma stores_alias: "alias_of D R re ra entity st = Inr (a, st') \<Longrightarrow> stores [] st st'"
  by (auto simp: alias_of_def stores_def Let_def split: option.splits)

lemma field_clause_ok:
  assumes "field_clause D R re ra key val st = Inr (st', t)"
  obtains entity field a st1 where "key_parts re key = (entity, field)" "is_valid_identifier entity" "is_valid_identifier field"
    and "alias_of D R re ra entity st = Inr (a, st1)" "build_clause D a field val st1 = (t, st')"
  using assms by (auto simp: field_clause_def validate_identifier_def Let_def split: prod.splits if_splits) (metis surj_pair)

lemma stores_field: "field_clause D R re ra key val st = Inr (st', t) \<Longrightarrow> stores (value_values D val) st st'"
  by (elim field_clause_ok) (auto dest!: stores_alias adds_clause [THEN adds_stores] intro: stores_trans [of "[]", simplified])

lemma stores_thread:
  assumes "thread f st cs = Inr (st', ts)" "\<And>c s s' t. c \<in> set cs \<Longrightarrow> f s c = Inr (s', t) \<Longrightarrow> stores (g c) s s'"
  shows "stores (concat (map g cs)) st st'"
  using assms
proof (induction cs arbitrary: st ts)
  case (Cons c cs)
  then show ?case by (auto intro!: stores_trans split: prod.splits)
qed simp

lemma stores_condition: "build_condition_clause D R re ra c st = Inr (st', t) \<Longrightarrow> stores (condition_values D c) st st'"
proof (induction D R re ra c st arbitrary: st' t rule: build_condition_clause.induct)
  case (1 D R re ra path val st)
  then show ?case using structured_adds [of D 0 ra "FcPath path val", THEN adds_stores] by (simp del: structured_clause.simps)
next
  case (2 D R re ra path c st)
  then show ?case using structured_adds [of D 0 ra "FcNested path c", THEN adds_stores] by (simp del: structured_clause.simps)
qed (auto split: prod.splits intro: stores_field intro!: stores_thread)

section \<open>Shape\<close>

text \<open>The values of a filter replaced by fixed ones: what is left is its shape. A null stays a
  null, a list keeps its length, a bound keeps being there.\<close>

abbreviation blank :: ir_value where "blank \<equiv> VBool False"

fun op_skeleton :: "filter_op \<Rightarrow> filter_op" where
  "op_skeleton (OpEq x) = OpEq blank"
| "op_skeleton (OpNeq x) = OpNeq blank"
| "op_skeleton (OpLt x) = OpLt blank"
| "op_skeleton (OpLte x) = OpLte blank"
| "op_skeleton (OpGt x) = OpGt blank"
| "op_skeleton (OpGte x) = OpGte blank"
| "op_skeleton (OpIn xs) = OpIn []"
| "op_skeleton (OpNotIn xs) = OpNotIn []"
| "op_skeleton (OpHasAny xs) = OpHasAny (map (\<lambda>_. blank) xs)"
| "op_skeleton (OpHasAll xs) = OpHasAll (map (\<lambda>_. blank) xs)"
| "op_skeleton (OpHasNone xs) = OpHasNone (map (\<lambda>_. blank) xs)"
| "op_skeleton (OpBetween lo hi) = OpBetween blank blank"
| "op_skeleton (OpStartsWith s) = OpStartsWith []"
| "op_skeleton (OpContains s) = OpContains []"
| "op_skeleton (OpValuesCount lo hi) = OpValuesCount (map_option (\<lambda>_. 0) lo) (map_option (\<lambda>_. 0) hi)"
| "op_skeleton op = op"

fun value_skeleton :: "filter_value \<Rightarrow> filter_value" where
  "value_skeleton (FvDirect x) = FvDirect (if is_null x then VNull else blank)"
| "value_skeleton (FvList xs) = FvList []"
| "value_skeleton (FvOps ops) = FvOps (map op_skeleton ops)"

fun skeleton :: "filter_condition \<Rightarrow> filter_condition" where
  "skeleton (FcField key val) = FcField key (value_skeleton val)"
| "skeleton (FcPath path val) = FcPath path (value_skeleton val)"
| "skeleton (FcNested path c) = FcNested path (skeleton c)"
| "skeleton (FcMust cs) = FcMust (map skeleton cs)"
| "skeleton (FcShould cs) = FcShould (map skeleton cs)"
| "skeleton (FcMustNot cs) = FcMustNot (map skeleton cs)"

text \<open>A state without its values, and the same for what an operation gives.\<close>

definition shape :: "filter_state \<Rightarrow> filter_state" where
  "shape st = st\<lparr>st_params := map (\<lambda>(p, x). (p, blank)) (st_params st)\<rparr>"

definition same_texts :: "'a \<times> filter_state \<Rightarrow> 'a \<times> filter_state \<Rightarrow> bool" where
  "same_texts r r' = (fst r = fst r' \<and> shape (snd r) = shape (snd r'))"

lemma shape_next: "shape st = shape st' \<Longrightarrow> same_texts (next_param st) (next_param st')"
  by (cases st; cases st') (auto simp: same_texts_def next_param_def shape_def)

lemma shape_push: "shape st = shape st' \<Longrightarrow> shape (push_param p x st) = shape (push_param p y st')"
  by (cases st; cases st') (auto simp: push_param_def shape_def)

lemma shape_bind:
  assumes "shape st = shape st'" "next_param st = (p, s)" "next_param st' = (p', s')"
  shows "p = p'" "shape s = shape s'" "shape (push_param p x s) = shape (push_param p' y s')"
  using shape_next [OF assms(1)] shape_push [of s s' p' x y] assms by (auto simp: same_texts_def)

lemma shape_each:
  "shape st = shape st' \<Longrightarrow> length xs = length ys \<Longrightarrow> same_texts (each_param f xs st) (each_param f ys st')"
proof (induction xs arbitrary: ys st st')
  case (Cons x xs)
  obtain y zs where ys: "ys = y # zs" "length xs = length zs" using Cons.prems by (cases ys) auto
  obtain p s p' s' where n: "next_param st = (p, s)" "next_param st' = (p', s')" by fastforce
  note b = shape_bind [OF Cons.prems(1) n]
  show ?case using Cons.IH [OF b(3) [of x y] ys(2)] by (auto simp: ys n b same_texts_def split: prod.splits)
qed (simp add: same_texts_def)

lemma shape_bound:
  "shape st = shape st' \<Longrightarrow> same_texts (values_bound sz cmp (map_option (\<lambda>_. 0) b) st) (values_bound sz cmp b st')"
  by (cases b) (auto simp: values_bound_def same_texts_def dest: shape_bind split: prod.splits)

lemma shape_scalar:
  assumes "shape st = shape st'"
  shows "fo \<in> {OpHasAny xs, OpHasAll xs, OpHasNone xs} \<Longrightarrow>
    same_texts (scalar_list_clause f pr (op_skeleton fo) (map (\<lambda>_. blank) xs) st) (scalar_list_clause f pr fo xs st')"
proof -
  have e: "same_texts (each_param (f pr) (map (\<lambda>_. blank) xs) st) (each_param (f pr) xs st')"
    using shape_each [OF assms] by simp
  assume "fo \<in> {OpHasAny xs, OpHasAll xs, OpHasNone xs}"
  then show ?thesis using e assms by (auto simp: scalar_list_clause_def same_texts_def Let_def split: prod.splits)
qed

lemma shape_list:
  assumes "shape st = shape st'" "fo \<in> {OpIn xs, OpNotIn xs, OpHasAny xs, OpHasAll xs, OpHasNone xs}"
  shows "same_texts (build_list_op_clause D pr (op_skeleton fo) st) (build_list_op_clause D pr fo st')"
proof -
  obtain p s p' s' where n: "next_param st = (p, s)" "next_param st' = (p', s')" by fastforce
  note b = shape_bind [OF assms(1) n]
  show ?thesis using assms(2) shape_scalar [OF assms(1), of fo xs _ pr] b(3)
    by (cases "fd_list_scalar_contains D") (auto simp: build_list_op_clause_def n b(1) same_texts_def)
qed

lemma shape_special:
  assumes "shape st = shape st'" "\<forall>xs. fo \<notin> {OpIn xs, OpNotIn xs, OpHasAny xs, OpHasAll xs, OpHasNone xs}"
    "\<forall>x. fo \<notin> {OpEq x, OpNeq x, OpLt x, OpLte x, OpGt x, OpGte x}"
  shows "same_texts (build_special_op_clause D pr (op_skeleton fo) st) (build_special_op_clause D pr fo st')"
proof -
  obtain p s p' s' where n: "next_param st = (p, s)" "next_param st' = (p', s')" by fastforce
  note b = shape_bind [OF assms(1) n]
  obtain q u q' u' where m: "next_param s = (q, u)" "next_param s' = (q', u')" by fastforce
  note c = shape_bind [OF b(2) m]
  show ?thesis
  proof (cases fo)
    case (OpValuesCount lo hi)
    obtain t1 s1 t1' s1' where v: "values_bound (fd_size_expr D pr) '' >= $'' (map_option (\<lambda>_. 0) lo) st = (t1, s1)"
      "values_bound (fd_size_expr D pr) '' >= $'' lo st' = (t1', s1')" by fastforce
    have "t1 = t1'" and s1: "shape s1 = shape s1'"
      using shape_bound [OF assms(1), of "fd_size_expr D pr" "'' >= $''" lo] v by (auto simp: same_texts_def)
    then show ?thesis using shape_bound [OF s1, of "fd_size_expr D pr" "'' <= $''" hi]
      by (auto simp: OpValuesCount build_special_op_clause_def v same_texts_def Let_def split: prod.splits)
  qed (use assms b c in \<open>auto simp: build_special_op_clause_def n m same_texts_def intro!: shape_push\<close>)
qed

lemma shape_op:
  assumes "shape st = shape st'"
  shows "same_texts (build_op_clause D pr (op_skeleton fo) st) (build_op_clause D pr fo st')"
proof -
  obtain p s p' s' where n: "next_param st = (p, s)" "next_param st' = (p', s')" by fastforce
  note b = shape_bind [OF assms n]
  show ?thesis
    using shape_list [OF assms, of fo _ D pr] shape_special [OF assms, of fo D pr] b(3)
    by (cases fo) (auto simp: build_op_clause_def n b(1) same_texts_def)
qed

lemma shape_ops: "shape st = shape st' \<Longrightarrow> same_texts (op_clauses D pr (map op_skeleton ops) st) (op_clauses D pr ops st')"
proof (induction ops arbitrary: st st')
  case (Cons fo ops)
  obtain t s t' s' where o: "build_op_clause D pr (op_skeleton fo) st = (t, s)" "build_op_clause D pr fo st' = (t', s')" by fastforce
  then have "t = t'" "shape s = shape s'" using shape_op [OF Cons.prems, of D pr fo] by (auto simp: same_texts_def)
  then show ?case using Cons.IH [of s s'] by (auto simp: o same_texts_def split: prod.splits option.splits)
qed (simp add: same_texts_def)

lemma shape_clause:
  assumes "shape st = shape st'"
  shows "same_texts (build_clause D al field (value_skeleton val) st) (build_clause D al field val st')"
proof -
  obtain p s p' s' where n: "next_param st = (p, s)" "next_param st' = (p', s')" by fastforce
  note b = shape_bind [OF assms n]
  show ?thesis
  proof (cases val)
    case (FvOps ops)
    then show ?thesis using shape_ops [OF assms, of D "prop_of D al field" ops]
      by (auto simp: build_clause_def same_texts_def Let_def split: prod.splits)
  qed (use assms b in \<open>auto simp: build_clause_def n same_texts_def Let_def is_null_def\<close>)
qed

text \<open>The same of an operation that can fail: the same error, or the same texts.\<close>

definition same_outcome :: "(filter_error, filter_state \<times> 'a) result \<Rightarrow> (filter_error, filter_state \<times> 'a) result \<Rightarrow> bool" where
  "same_outcome r r' = (map_sum id (apfst shape) r = map_sum id (apfst shape) r')"

lemma same_outcome_Inr: "same_outcome (Inr (s, t)) (Inr (s', t')) \<longleftrightarrow> t = t' \<and> shape s = shape s'"
  by (auto simp: same_outcome_def)

lemma same_outcome_refl: "same_outcome (Inl e) (Inl e)"
  by (auto simp: same_outcome_def)

lemma same_outcome_trans: "same_outcome r q \<Longrightarrow> same_outcome r' q \<Longrightarrow> same_outcome r r'"
  by (auto simp: same_outcome_def)

lemma same_outcome_cases:
  assumes "same_outcome r r'"
  obtains e where "r = Inl e" "r' = Inl e" | s s' t where "r = Inr (s, t)" "r' = Inr (s', t)" "shape s = shape s'"
  using assms by (cases r; cases r') (auto simp: same_outcome_def)

lemma same_outcome_then:
  assumes "same_outcome r r'" "\<And>s s' t. shape s = shape s' \<Longrightarrow> same_outcome (k (s, t)) (k' (s', t))"
  shows "same_outcome (try_then r k) (try_then r' k')"
  using assms(1) by (cases rule: same_outcome_cases) (auto simp: same_outcome_refl assms(2))

lemma same_outcome_guard:
  "(\<And>x. g = Inr x \<Longrightarrow> same_outcome (k x) (k' x)) \<Longrightarrow> same_outcome (try_then g k) (try_then g k')"
  by (cases g) (auto simp: same_outcome_refl)

lemma same_outcome_thread:
  assumes "shape st = shape st'"
    "\<And>c s s'. c \<in> set cs \<Longrightarrow> shape s = shape s' \<Longrightarrow> same_outcome (f s (g c)) (f s' c)"
  shows "same_outcome (thread f st (map g cs)) (thread f st' cs)"
  using assms
proof (induction cs arbitrary: st st')
  case (Cons c cs)
  have h: "same_outcome (f st (g c)) (f st' c)" using Cons.prems by simp
  then show ?case
  proof (cases rule: same_outcome_cases)
    case (2 s s' t)
    have "same_outcome (thread f s (map g cs)) (thread f s' cs)" using Cons 2 by simp
    then show ?thesis by (cases rule: same_outcome_cases) (auto simp: 2 same_outcome_refl same_outcome_Inr)
  qed (simp add: same_outcome_refl)
qed (simp add: same_outcome_Inr)

lemma same_outcome_alias:
  assumes "shape st = shape st'"
  shows "map_sum id (apsnd shape) (alias_of D R re ra entity st) = map_sum id (apsnd shape) (alias_of D R re ra entity st')"
  using assms by (cases st; cases st') (auto simp: alias_of_def shape_def Let_def validate_identifier_def try_then_def ok_or_def split: option.splits sum.splits)

lemma same_outcome_field:
  assumes "shape st = shape st'"
  shows "same_outcome (field_clause D R re ra key (value_skeleton val) st) (field_clause D R re ra key val st')"
proof -
  obtain entity field where kp: "key_parts re key = (entity, field)" by fastforce
  note al = same_outcome_alias [OF assms, of D R re ra entity]
  show ?thesis
  proof (cases "alias_of D R re ra entity st")
    case (Inl e)
    then show ?thesis using al by (cases "alias_of D R re ra entity st'") (auto simp: field_clause_def kp intro!: same_outcome_guard same_outcome_refl)
  next
    case (Inr r)
    then obtain a s s' where a: "alias_of D R re ra entity st = Inr (a, s)" "alias_of D R re ra entity st' = Inr (a, s')" "shape s = shape s'"
      using al by (cases r; cases "alias_of D R re ra entity st'") auto
    have "same_texts (build_clause D a field (value_skeleton val) s) (build_clause D a field val s')" using shape_clause [OF a(3)] .
    then show ?thesis by (auto simp: field_clause_def kp a same_texts_def intro!: same_outcome_guard split: prod.splits) (auto simp: same_outcome_Inr)
  qed
qed

lemma same_outcome_predicate:
  assumes "shape st = shape st'"
  shows "same_outcome (predicate_clause D al field (value_skeleton val) st) (predicate_clause D al field val st')"
  using shape_clause [OF assms, of D al field val]
  by (auto simp: predicate_clause_def same_texts_def same_outcome_Inr intro!: same_outcome_guard split: prod.splits)

lemma same_outcome_structured:
  "shape st = shape st' \<Longrightarrow> same_outcome (structured_clause D depth al (skeleton c) st) (structured_clause D depth al c st')"
proof (induction D depth al c st' arbitrary: st rule: structured_clause.induct)
  case (3 D depth al path c st')
  show ?case using 3 by (auto simp: Let_def same_outcome_Inr intro!: same_outcome_guard same_outcome_then [OF 3(1)])
qed (auto simp: same_outcome_refl same_outcome_Inr intro!: same_outcome_guard same_outcome_predicate same_outcome_then same_outcome_thread)

lemma same_outcome_condition:
  "shape st = shape st' \<Longrightarrow> same_outcome (build_condition_clause D R re ra (skeleton c) st) (build_condition_clause D R re ra c st')"
proof (induction D R re ra c st' arbitrary: st rule: build_condition_clause.induct)
  case (1 D R re ra path val st')
  then show ?case using same_outcome_structured [of st st' D 0 ra "FcPath path val"] by (simp del: structured_clause.simps)
next
  case (2 D R re ra path c st')
  then show ?case using same_outcome_structured [of st st' D 0 ra "FcNested path c"] by (simp del: structured_clause.simps)
qed (auto simp: same_outcome_Inr intro!: same_outcome_field same_outcome_then same_outcome_thread)

end
