(* ===== verification/Filter_Reading.thy ===== *)
theory Filter_Reading
  imports Filter_Parser
begin

text \<open>
  What the clauses of \<open>Filter_Parser\<close> say when a database reads them. The texts a dialect gives may
  stand beside \<open>AND\<close> (the locale \<open>clause_dialect\<close>, interpreted on both dialects), so the groups the
  parser writes are read back as the groups of the condition: \<open>rendered\<close> is the truth of the whole
  clause from the truth of its leaves. Also here: which entities a filter joins, which names an
  accepted filter has, and the properties of the parser.
\<close>

section \<open>Clauses that may stand together\<close>

text \<open>A text that names a property of an alias, and a clause the parser may join to others.\<close>

definition prop_like :: "string \<Rightarrow> bool" where
  "prop_like p = (plain p \<and> CHR ''.'' \<in> set p)"

definition good_clause :: "string \<Rightarrow> bool" where
  "good_clause t = (conjoinable t \<and> t \<noteq> [])"

lemma words_at_plain_end: "plain a \<Longrightarrow> words_at d a = [a]"
  using words_at_plain [of a d "[]"] by simp

lemma plain_word: "plain a \<Longrightarrow> plain (c # a) = (\<not> opens c \<and> \<not> closes c \<and> c \<noteq> CHR '' '')"
  by (simp add: plain_Cons)

lemmas read_simps = good_clause_def conjoinable_def closed_def words_def opens_def closes_def deeper_def
  depth_after_plain depth_after_append words_at_plain words_at_plain_end

lemma identifier_chars: "is_valid_identifier x \<Longrightarrow> c \<in> set x \<Longrightarrow> is_ascii_alphanumeric c \<or> c = CHR ''_''"
  by (cases x) (auto simp: list_all_iff is_ascii_alphanumeric_def)

lemma identifier_char_plain:
  "is_ascii_alphanumeric c \<or> c = CHR ''_'' \<Longrightarrow> \<not> opens c \<and> \<not> closes c \<and> c \<noteq> CHR '' '' \<and> c \<noteq> CHR ''.''"
  by (auto simp: opens_def closes_def is_ascii_alphanumeric_def is_ascii_alphabetic_def is_ascii_digit_def char_code_def)

lemma plain_digits: "list_all is_ascii_digit ds \<Longrightarrow> plain ds"
  using identifier_char_plain by (auto simp: plain_def list_all_iff is_ascii_alphanumeric_def)

lemma plain_decimal [simp]: "plain (decimal n)"
  using decimal_digits [of n] by (simp add: plain_digits)

lemma plain_param_name [simp]: "plain (param_name n)"
  by (simp add: param_name_def plain_Cons opens_def closes_def)

lemma identifier_plain: "is_valid_identifier x \<Longrightarrow> plain x \<and> CHR ''.'' \<notin> set x"
  using identifier_chars [of x] identifier_char_plain by (fastforce simp: plain_def)

lemma prop_like_word: "prop_like p \<Longrightarrow> plain p \<and> p \<noteq> ''OR'' \<and> ''OR'' \<noteq> p \<and> p \<noteq> []"
  by (auto simp: prop_like_def)

lemma good_join: "ts \<noteq> [] \<Longrightarrow> \<forall>t \<in> set ts. good_clause t \<Longrightarrow> good_clause (join_with '' AND '' ts)"
  using conjoinable_join [of ts] by (induction "'' AND ''" ts rule: join_with.induct) (auto simp: good_clause_def)

lemma good_paren: "closed t \<Longrightarrow> good_clause (''('' @ t @ '')'')"
  using conjoinable_paren [of t] by (simp add: good_clause_def)

lemma good_not: "closed t \<Longrightarrow> good_clause (''NOT '' @ ''('' @ t @ '')'')"
  using conjoinable_not [OF conjoinable_paren, of t] by (simp add: good_clause_def)

lemma good_closed: "good_clause t \<Longrightarrow> closed t"
  by (simp add: good_clause_def conjoinable_def)

lemma good_space: "good_clause a \<Longrightarrow> conjoinable b \<Longrightarrow> good_clause (a @ CHR '' '' # b)"
  using words_space [of a b] closed_append [of a "CHR '' '' # b"] by (auto simp: good_clause_def conjoinable_def) (simp add: closed_def opens_def closes_def)

lemma good_and: "good_clause a \<Longrightarrow> good_clause b \<Longrightarrow> good_clause (a @ '' AND '' @ b)"
  using conjoinable_and [of a b] by (simp add: good_clause_def)

lemma good_prop: "prop_like p \<Longrightarrow> good_clause p"
  by (frule prop_like_word) (simp add: read_simps)

lemma good_compare:
  assumes "prop_like p" "plain q"
  shows "good_clause (p @ '' = $'' @ q)" "good_clause (p @ '' <> $'' @ q)" "good_clause (p @ '' < $'' @ q)"
    "good_clause (p @ '' <= $'' @ q)" "good_clause (p @ '' > $'' @ q)" "good_clause (p @ '' >= $'' @ q)"
    "good_clause (p @ '' IN $'' @ q)" "good_clause (p @ '' IS NULL'')"
  using prop_like_word [OF assms(1)] assms(2) by (simp_all add: read_simps)

section \<open>What the clause of a condition says\<close>

text \<open>Whether a field has a clause at all: an empty list of operators, or a count without bounds,
  gives none.\<close>

fun gives_clause :: "filter_value \<Rightarrow> bool" where
  "gives_clause (FvOps ops) = (\<exists>x \<in> set ops. x \<noteq> OpValuesCount None None)"
| "gives_clause _ = True"

definition somes :: "'a option list \<Rightarrow> 'a list" where
  "somes ms = map the (filter (\<lambda>m. m \<noteq> None) ms)"

text \<open>The truth of the clause a condition is given, from the truth of its leaves: members without
  a clause are left out of a group, and a group without members has no clause.\<close>

fun rendered :: "(filter_condition \<Rightarrow> bool) \<Rightarrow> filter_condition \<Rightarrow> bool option" where
  "rendered leaf (FcField key val) = (if gives_clause val then Some (leaf (FcField key val)) else None)"
| "rendered leaf (FcPath path val) = Some (leaf (FcPath path val))"
| "rendered leaf (FcNested path c) = Some (leaf (FcNested path c))"
| "rendered leaf (FcMust cs) =
     (let ms = somes (map (rendered leaf) cs) in if ms = [] then None else Some (\<forall>m \<in> set ms. m))"
| "rendered leaf (FcShould cs) =
     (let ms = somes (map (rendered leaf) cs) in if ms = [] then None else Some (\<exists>m \<in> set ms. m))"
| "rendered leaf (FcMustNot cs) =
     (let ms = somes (map (rendered leaf) cs) in if ms = [] then None else Some (\<not> (\<forall>m \<in> set ms. m)))"

fun leaves :: "filter_condition \<Rightarrow> filter_condition list" where
  "leaves (FcMust cs) = concat (map leaves cs)"
| "leaves (FcShould cs) = concat (map leaves cs)"
| "leaves (FcMustNot cs) = concat (map leaves cs)"
| "leaves c = [c]"

text \<open>A text and the condition it was written for agree.\<close>

definition reads :: "(string list \<Rightarrow> bool) \<Rightarrow> (filter_condition \<Rightarrow> bool) \<Rightarrow> filter_condition \<Rightarrow> string \<Rightarrow> bool" where
  "reads v leaf c t =
     (case rendered leaf c of None \<Rightarrow> t = [] | Some b \<Rightarrow> good_clause t \<and> clause_means v t = b)"

section \<open>Joined entities\<close>

text \<open>The entities a filter has joined so far, in order: \<open>e1\<close>, \<open>e2\<close>, ... are their aliases, and
  each has one clause that joins it to the result's entity.\<close>

definition alias_name :: "nat \<Rightarrow> string" where
  "alias_name n = CHR ''e'' # decimal n"

fun alias_list :: "nat \<Rightarrow> string list \<Rightarrow> (string \<times> string) list" where
  "alias_list n [] = []"
| "alias_list n (e # es) = (e, alias_name n) # alias_list (Suc n) es"

fun join_list :: "filter_dialect \<Rightarrow> (string \<times> relation_def) list \<Rightarrow> string \<Rightarrow> string \<Rightarrow> nat \<Rightarrow> string list \<Rightarrow> string list" where
  "join_list D R re ra n [] = []"
| "join_list D R re ra n (e # es) =
     (case find_relation R re e of None \<Rightarrow> [] | Some (name, from) \<Rightarrow> [fd_join_clause D ra name (alias_name n) e (from = re)])
     @ join_list D R re ra (Suc n) es"

definition joinable :: "(string \<times> relation_def) list \<Rightarrow> string \<Rightarrow> string \<Rightarrow> bool" where
  "joinable R re e = (case find_relation R re e of None \<Rightarrow> False | Some (name, from) \<Rightarrow> is_valid_identifier name)"

definition joined ::
    "filter_dialect \<Rightarrow> (string \<times> relation_def) list \<Rightarrow> string \<Rightarrow> string \<Rightarrow> string list \<Rightarrow> filter_state \<Rightarrow> bool" where
  "joined D R re ra es st = (st_aliases st = (re, ra) # alias_list 1 es \<and> st_match st = join_list D R re ra 1 es
     \<and> alias_counter st = length es \<and> distinct (re # es) \<and> list_all (joinable R re) es)"

definition join_state :: "filter_dialect \<Rightarrow> (string \<times> relation_def) list \<Rightarrow> string \<Rightarrow> string \<Rightarrow> filter_state \<Rightarrow> bool" where
  "join_state D R re ra st = (\<exists>es. joined D R re ra es st)"

lemma alias_list_snoc: "alias_list n (es @ [e]) = alias_list n es @ [(e, alias_name (n + length es))]"
  by (induction n es rule: alias_list.induct) auto

lemma join_list_snoc: "join_list D R re ra n (es @ [e]) = join_list D R re ra n es @ join_list D R re ra (n + length es) [e]"
  by (induction D R re ra n es rule: join_list.induct) auto

lemma fst_alias_list [simp]: "map fst (alias_list n es) = es"
  by (induction n es rule: alias_list.induct) auto

lemma keys_alias_list [simp]: "fst ` set (alias_list n es) = set es"
  using fst_alias_list [of n es] by (metis list.set_map)

lemma snd_alias_list: "map snd (alias_list n es) = map alias_name [n..<n + length es]"
  by (induction n es rule: alias_list.induct) (auto simp: upt_conv_Cons simp del: upt_Suc)

lemma hm_insert_new: "k \<notin> fst ` set m \<Longrightarrow> hm_insert k v m = m @ [(k, v)]"
  by (induction m) auto

lemma plain_alias_name [simp]: "plain (alias_name n)"
  by (simp add: alias_name_def plain_Cons opens_def closes_def identifier_char_plain)

lemma joined_plain:
  assumes "join_state D R re ra st" "plain ra" "map_of (st_aliases st) e = Some a"
  shows "plain a"
proof -
  obtain es where "st_aliases st = (re, ra) # alias_list 1 es" using assms(1) by (auto simp: join_state_def joined_def)
  moreover have "plain (snd x)" if "x \<in> set (alias_list n es)" for x n
    using that by (induction n es rule: alias_list.induct) auto
  ultimately show ?thesis using assms(2,3) by (auto dest!: map_of_SomeD split: if_splits)
qed

lemma join_alias:
  assumes "alias_of D R re ra e st = Inr (a, st')" "join_state D R re ra st"
  shows "join_state D R re ra st' \<and> map_of (st_aliases st') e = Some a"
proof (cases "map_of (st_aliases st) e")
  case None
  obtain es where j: "joined D R re ra es st" using assms(2) by (auto simp: join_state_def)
  have keys: "fst ` set (st_aliases st) = set (re # es)" using j by (simp add: joined_def)
  then have e: "e \<notin> set (re # es)" using None by (simp add: map_of_eq_None_iff)
  have new: "hm_insert e (alias_name (Suc (length es))) (st_aliases st) = (re, ra) # alias_list 1 (es @ [e])"
    using e keys j by (subst hm_insert_new) (simp_all add: joined_def alias_list_snoc)
  obtain name src where f: "find_relation R re e = Some (name, src)" "is_valid_identifier name"
    using assms(1) None by (auto simp: alias_of_def validate_identifier_def Let_def split: if_splits)
  have st': "a = alias_name (Suc (length es))" "st' = st\<lparr>alias_counter := Suc (length es), st_aliases := (re, ra) # alias_list 1 (es @ [e]),
      st_match := st_match st @ [fd_join_clause D ra name a e (src = re)]\<rparr>"
    using assms(1) None j f new by (auto simp: alias_of_def joined_def validate_identifier_def alias_name_def Let_def)
  have "joined D R re ra (es @ [e]) st'" using j e f unfolding joined_def st' by (auto simp: join_list_snoc joinable_def)
  moreover have "map_of (st_aliases st') e = Some a" using assms(1) None by (auto simp: alias_of_def Let_def)
  ultimately show ?thesis by (auto simp: join_state_def)
next
  case (Some b)
  then show ?thesis using assms by (auto simp: alias_of_def)
qed

lemma join_adds: "adds vs st st' \<Longrightarrow> join_state D R re ra st' = join_state D R re ra st"
  by (simp add: adds_def join_state_def joined_def)

lemma join_initial: "join_state D R re ra (initial_state re ra)"
  unfolding join_state_def by (intro exI [of _ "[]"]) (simp add: joined_def initial_state_def)

text \<open>The parameters \<open>ps\<close> of a query begin with those of a state.\<close>

definition within :: "(string \<times> ir_value) list \<Rightarrow> filter_state \<Rightarrow> bool" where
  "within ps st = (take (length (st_params st)) ps = st_params st)"

lemma within_before:
  assumes "build_condition_clause D R re ra c st = Inr (st', t)" and "within ps st'"
  shows "within ps st"
proof -
  obtain qs where "st_params st' = st_params st @ qs" using stores_condition [OF assms(1)] by (auto simp: stores_def)
  then have "take (length (st_params st)) (take (length (st_params st')) ps) = st_params st" using assms(2) by (simp add: within_def)
  with \<open>st_params st' = st_params st @ qs\<close> show ?thesis by (simp add: within_def min_def)
qed

text \<open>The database gives the clause of a leaf, wherever it stands in a query with the parameters \<open>ps\<close>,
  the truth of the leaf.\<close>

definition judged ::
    "filter_dialect \<Rightarrow> (string \<times> relation_def) list \<Rightarrow> string \<Rightarrow> string \<Rightarrow> (string \<times> ir_value) list \<Rightarrow> (string list \<Rightarrow> bool)
      \<Rightarrow> (filter_condition \<Rightarrow> bool) \<Rightarrow> filter_condition \<Rightarrow> bool" where
  "judged D R re ra ps v leaf l =
     (\<forall>st st' t. join_state D R re ra st \<longrightarrow> build_condition_clause D R re ra l st = Inr (st', t) \<longrightarrow> within ps st' \<longrightarrow> t \<noteq> []
        \<longrightarrow> clause_means v t = leaf l)"

lemma judged_means:
  "judged D R re ra ps v leaf l \<Longrightarrow> join_state D R re ra st \<Longrightarrow> build_condition_clause D R re ra l st = Inr (st', t) \<Longrightarrow> within ps st'
    \<Longrightarrow> t \<noteq> [] \<Longrightarrow> clause_means v t = leaf l"
  by (simp add: judged_def)

text \<open>An invariant of a threaded loop that also uses what is known of its last state.\<close>

lemma thread_backwards:
  "thread f s xs = Inr (t, ys) \<Longrightarrow> W t \<Longrightarrow> (\<And>u x v y. x \<in> set xs \<Longrightarrow> f u x = Inr (v, y) \<Longrightarrow> W v \<Longrightarrow> W u) \<Longrightarrow> W s"
proof (induction xs arbitrary: s ys)
  case (Cons x xs)
  then obtain u y zs where f: "f s x = Inr (u, y)" and r: "thread f u xs = Inr (t, zs)" by auto
  have "W u" using Cons.IH [OF r] Cons.prems(2,3) by auto
  then show ?case using Cons.prems(3) f by auto
qed simp

lemma thread_invariant_within:
  assumes "thread f s xs = Inr (t, ys)" and "I s" and "W t"
    and "\<And>u x v y. x \<in> set xs \<Longrightarrow> f u x = Inr (v, y) \<Longrightarrow> W v \<Longrightarrow> W u"
    and "\<And>u x v y. x \<in> set xs \<Longrightarrow> I u \<Longrightarrow> f u x = Inr (v, y) \<Longrightarrow> W v \<Longrightarrow> I v \<and> Q x y"
  shows "I t \<and> list_all2 Q xs ys"
  using assms
proof (induction xs arbitrary: s ys)
  case (Cons x xs)
  then obtain u y zs where f: "f s x = Inr (u, y)" and r: "thread f u xs = Inr (t, zs)" and ys: "ys = y # zs" by auto
  have "W u" by (rule thread_backwards [OF r]) (use Cons.prems(3,4) in auto)
  then have u: "I u \<and> Q x y" using Cons.prems(2,5) f by auto
  have "I t \<and> list_all2 Q xs zs"
    by (rule Cons.IH [OF r _ Cons.prems(3)], use u in blast) (use Cons.prems(4,5) in \<open>meson list.set_intros(2)\<close>)+
  then show ?case using u ys by simp
qed simp

lemma op_gives: "build_op_clause D p fo st = (t, st') \<Longrightarrow> t = None \<longleftrightarrow> fo = OpValuesCount None None"
  by (cases fo) (auto simp: build_op_clause_def build_list_op_clause_def build_special_op_clause_def scalar_list_clause_def
      values_bound_def Let_def split: prod.splits option.splits if_splits)

lemma ops_give: "op_clauses D p ops st = (ts, st') \<Longrightarrow> ts = [] \<longleftrightarrow> (\<forall>x \<in> set ops. x = OpValuesCount None None)"
proof (induction ops arbitrary: st ts)
  case (Cons fo ops)
  obtain t s where o: "build_op_clause D p fo st = (t, s)" by fastforce
  show ?case using Cons op_gives [OF o] by (auto simp: o split: prod.splits option.splits)
qed simp

lemma build_gives: "build_clause D al field val st = (t, st') \<Longrightarrow> t = None \<longleftrightarrow> \<not> gives_clause val"
  by (cases val) (auto simp: build_clause_def Let_def ops_give split: prod.splits if_splits)

lemma group_reads_and:
  assumes "ts \<noteq> []" "\<forall>t \<in> set ts. good_clause t"
  shows "clause_means v (group_text '' AND '' ts) = (\<forall>t \<in> set ts. clause_means v t)"
proof (cases "length ts = 1")
  case True
  then show ?thesis by (cases ts) (auto simp: group_text_def)
next
  case False
  have "\<forall>t \<in> set ts. conjoinable t" using assms(2) by (simp add: good_clause_def)
  then show ?thesis using False assms(1) clause_means_paren [of "join_with '' AND '' ts" v] clause_means_join_and [of ts v]
      closed_join [of "'' AND ''" ts] conjoinable_closed by (simp add: group_text_def)
qed

lemma group_reads_or:
  assumes "ts \<noteq> []" "\<forall>t \<in> set ts. good_clause t"
  shows "clause_means v (group_text '' OR '' ts) = (\<exists>t \<in> set ts. clause_means v t)"
proof (cases "length ts = 1")
  case True
  then show ?thesis by (cases ts) (auto simp: group_text_def)
next
  case False
  have "\<forall>t \<in> set ts. closed t" using assms(2) by (simp add: good_closed)
  then show ?thesis using False assms(1) clause_means_paren [of "join_with '' OR '' ts" v] clause_means_join_or [of ts v]
      closed_join [of "'' OR ''" ts] by (simp add: group_text_def)
qed

lemma group_reads_not:
  assumes "ts \<noteq> []" "\<forall>t \<in> set ts. good_clause t"
  shows "clause_means v (not_group_text ts) = (\<not> (\<forall>t \<in> set ts. clause_means v t))" "good_clause (not_group_text ts)"
proof -
  have c: "\<forall>t \<in> set ts. conjoinable t" "\<forall>t \<in> set ts. closed t" using assms(2) by (simp_all add: good_clause_def conjoinable_def)
  have j: "not_group_text ts = ''NOT '' @ ''('' @ join_with '' AND '' ts @ '')''"
    using assms(1) by (cases ts) (auto simp: not_group_text_def)
  have k: "closed (join_with '' AND '' ts)" using c(2) by (simp add: closed_join)
  show "clause_means v (not_group_text ts) = (\<not> (\<forall>t \<in> set ts. clause_means v t))"
    unfolding j clause_means_not [OF k] by (simp add: clause_means_join_and assms(1) c(1))
  show "good_clause (not_group_text ts)" unfolding j by (rule good_not [OF k])
qed

text \<open>What the parser relies on of a dialect: the texts it gives for a property and a parameter
  may stand beside \<open>AND\<close>.\<close>

locale clause_dialect =
  fixes D :: filter_dialect
  assumes quote_plain: "is_valid_identifier x \<Longrightarrow> plain (fd_quote D x)"
    and size_good: "prop_like p \<Longrightarrow> good_clause (fd_size_expr D p)"
    and starts_with_good: "prop_like p \<Longrightarrow> plain q \<Longrightarrow> good_clause (fd_starts_with D p q)"
    and contains_good: "prop_like p \<Longrightarrow> plain q \<Longrightarrow> good_clause (fd_contains D p q)"
    and scalar_good: "fd_list_scalar_contains D = Some f \<Longrightarrow> prop_like p \<Longrightarrow> plain q \<Longrightarrow> good_clause (f p q)"
    and any_good: "prop_like p \<Longrightarrow> plain q \<Longrightarrow> good_clause (fd_list_any_match D p q)"
    and all_good: "prop_like p \<Longrightarrow> plain q \<Longrightarrow> good_clause (fd_list_all D p q)"
    and none_good: "prop_like p \<Longrightarrow> plain q \<Longrightarrow> good_clause (fd_list_none D p q)"
begin

lemma good_each:
  "each_param (f p) xs st = (ts, st') \<Longrightarrow> fd_list_scalar_contains D = Some f \<Longrightarrow> prop_like p \<Longrightarrow> t \<in> set ts \<Longrightarrow> good_clause t"
proof (induction xs arbitrary: st ts)
  case (Cons x xs)
  have "plain (fst (next_param st))" by (simp add: next_param_def plain_Cons opens_def closes_def)
  then show ?case using Cons scalar_good by (auto split: prod.splits)
qed simp

lemma good_scalar:
  assumes "scalar_list_clause f p fo xs st = (Some t, st')" "fd_list_scalar_contains D = Some f" "prop_like p"
  shows "good_clause t"
proof (cases "xs = []")
  case True
  then show ?thesis using assms(1) by (cases fo) (auto simp: scalar_list_clause_def read_simps)
next
  case False
  obtain ts s where e: "each_param (f p) xs st = (ts, s)" by fastforce
  have "\<forall>t \<in> set ts. closed t" using good_each [OF e assms(2,3)] good_closed by blast
  then have "closed (join_with '' AND '' ts)" "closed (join_with '' OR '' ts)" by (simp_all add: closed_join)
  then show ?thesis using assms(1) False good_paren good_not
    by (cases fo) (auto simp: scalar_list_clause_def e)
qed

lemma good_list:
  assumes "build_list_op_clause D p fo st = (Some t, st')" "prop_like p"
  shows "good_clause t"
proof -
  obtain q s where n: "next_param st = (q, s)" by fastforce
  then have q: "plain q" by (auto simp: next_param_def plain_Cons opens_def closes_def)
  have i: "good_clause (p @ '' IN $'' @ q)" using prop_like_word [OF assms(2)] q by (simp add: read_simps)
  note i' = good_not [OF good_closed [OF i]]
  show ?thesis
    using assms i i' q any_good [OF assms(2) q] all_good [OF assms(2) q] none_good [OF assms(2) q]
    by (cases fo) (auto simp: build_list_op_clause_def n dest: good_scalar split: option.splits)
qed

lemma good_bound:
  "values_bound (fd_size_expr D p) cmp b st = (ts, st') \<Longrightarrow> cmp \<in> {'' >= $'', '' <= $''} \<Longrightarrow> prop_like p \<Longrightarrow> t \<in> set ts \<Longrightarrow> good_clause t"
  using good_space [OF size_good, of p "drop 1 cmp @ param_name (param_counter st)"]
  by (auto simp: values_bound_def next_param_def param_name_def read_simps plain_Cons split: option.splits)

lemma good_special:
  assumes "build_special_op_clause D p fo st = (Some t, st')" "prop_like p"
  shows "good_clause t"
proof -
  obtain q s where n: "next_param st = (q, s)" by fastforce
  obtain q' s' where m: "next_param s = (q', s')" by fastforce
  have q: "plain q" "plain q'" using n m by (auto simp: next_param_def plain_Cons opens_def closes_def)
  note p = prop_like_word [OF assms(2)]
  show ?thesis
  proof (cases fo)
    case (OpValuesCount lo hi)
    obtain t1 s1 where b1: "values_bound (fd_size_expr D p) '' >= $'' lo st = (t1, s1)" by fastforce
    obtain t2 s2 where b2: "values_bound (fd_size_expr D p) '' <= $'' hi s1 = (t2, s2)" by fastforce
    have "\<forall>t \<in> set (t1 @ t2). good_clause t" using good_bound [OF b1 _ assms(2)] good_bound [OF b2 _ assms(2)] by auto
    then show ?thesis using assms(1) good_join [of "t1 @ t2"] by (auto simp: OpValuesCount build_special_op_clause_def b1 b2 split: if_splits)
  next
    case (OpBetween lo hi)
    have "good_clause (p @ '' >= $'' @ q)" "good_clause (p @ '' <= $'' @ q')" using p q by (simp_all add: read_simps)
    then have "good_clause ((p @ '' >= $'' @ q) @ '' AND '' @ (p @ '' <= $'' @ q'))"
      by (rule good_and)
    then show ?thesis using assms(1) by (auto simp: OpBetween build_special_op_clause_def n m)
  qed (use assms p q starts_with_good contains_good good_space [OF size_good [OF assms(2)], of "''= 0''"]
      good_space [OF size_good [OF assms(2)], of "''> 0''"]
      in \<open>auto simp: build_special_op_clause_def n read_simps\<close>)
qed

lemma good_op:
  assumes "build_op_clause D p fo st = (Some t, st')" "prop_like p"
  shows "good_clause t"
proof -
  obtain q s where n: "next_param st = (q, s)" by fastforce
  then have q: "plain q" by (auto simp: next_param_def plain_Cons opens_def closes_def)
  show ?thesis using assms good_compare [OF assms(2) q]
    by (cases fo) (auto simp: build_op_clause_def n dest: good_list good_special)
qed

lemma good_ops: "op_clauses D p ops st = (ts, st') \<Longrightarrow> prop_like p \<Longrightarrow> t \<in> set ts \<Longrightarrow> good_clause t"
proof (induction ops arbitrary: st ts)
  case (Cons fo ops)
  then show ?case by (auto split: prod.splits option.splits dest: good_op)
qed simp

lemma good_build:
  assumes "build_clause D al field val st = (Some t, st')" "prop_like (prop_of D al field)"
  shows "good_clause t"
proof -
  obtain q s where n: "next_param st = (q, s)" by fastforce
  then have q: "plain q" by (auto simp: next_param_def plain_Cons opens_def closes_def)
  show ?thesis using assms good_compare [OF assms(2) q]
    by (cases val) (auto simp: build_clause_def Let_def n split: if_splits prod.splits dest: good_ops intro!: good_join)
qed

lemma prop_like_path:
  assumes "plain al" "path \<noteq> []" "\<forall>x \<in> set path. is_valid_identifier x"
  shows "prop_like (prop_of D al (join_with ''.'' path))"
proof -
  have "split_on CHR ''.'' (join_with ''.'' path) = path" using assms identifier_plain by (intro split_join_on) auto
  moreover have "plain (join_with ''.'' (map (fd_quote D) ps))" if "\<forall>x \<in> set ps. is_valid_identifier x" for ps
    using that by (induction "''.''" ps rule: join_with.induct) (auto simp: quote_plain plain_def [of "''.''"] plain_Cons opens_def closes_def join_with_Cons)
  ultimately show ?thesis using assms by (simp add: prop_of_def prop_like_def plain_Cons opens_def closes_def)
qed

lemma prop_like_field: "plain al \<Longrightarrow> is_valid_identifier field \<Longrightarrow> prop_like (prop_of D al field)"
  using prop_like_path [of al "[field]"] by simp

lemma path_expr_ok:
  "path_expr D path = Inr field \<Longrightarrow> path \<noteq> [] \<and> (\<forall>x \<in> set path. is_valid_identifier x) \<and> field = join_with ''.'' (map (fd_quote D) path)"
  by (auto simp: path_expr_def validate_identifier_def split: if_splits)

lemma good_predicate:
  "predicate_clause D al field val st = Inr (st', t) \<Longrightarrow> prop_like (prop_of D al field) \<Longrightarrow> good_clause t"
  by (auto simp: predicate_clause_def split: prod.splits dest: good_build)

lemma good_nested:
  assumes "plain el" "plain al" "plain field" "closed pd"
  shows "good_clause (nested_text el al field pd)"
  using assms closed_depth [OF assms(4)] words_at_closed [OF assms(4)] by (simp add: nested_text_def read_simps)

lemma plain_quoted_path: "path \<noteq> [] \<Longrightarrow> \<forall>x \<in> set path. is_valid_identifier x \<Longrightarrow> plain (join_with ''.'' (map (fd_quote D) path))"
  using prop_like_path [of "[]" path] split_join_on [of path "CHR ''.''"] identifier_plain
  by (auto simp: prop_like_def prop_of_def plain_Cons)

lemma closed_members:
  assumes "thread f st cs = Inr (st', ts)" "\<And>c s s' t. c \<in> set cs \<Longrightarrow> f s c = Inr (s', t) \<Longrightarrow> good_clause t" "closed sep"
  shows "closed (join_with sep ts)"
  using thread_invariant [OF assms(1), of "\<lambda>_. True" "\<lambda>c t. closed t"] assms(2,3) good_closed
  by (intro closed_join) (auto simp: list_all2_conv_all_nth in_set_conv_nth)

lemma good_structured: "structured_clause D depth al c st = Inr (st', t) \<Longrightarrow> plain al \<Longrightarrow> good_clause t"
proof (induction c arbitrary: depth al st st' t)
  case (FcField key val)
  then show ?case by (auto simp: validate_identifier_def split: if_splits intro: good_predicate prop_like_field)
next
  case (FcPath path val)
  then show ?case by (auto dest!: path_expr_ok intro: good_predicate prop_like_path)
next
  case (FcNested path c)
  have el: "plain (''nested_'' @ decimal depth)" by (simp add: plain_Cons opens_def closes_def)
  from FcNested.prems obtain field st1 pd where f: "path_expr D path = Inr field"
    and s: "structured_clause D (Suc depth) (''nested_'' @ decimal depth) c st = Inr (st1, pd)"
    and t: "t = nested_text (''nested_'' @ decimal depth) al field pd"
    by (auto simp: Let_def)
  have "plain field" using path_expr_ok [OF f] plain_quoted_path by auto
  then show ?case unfolding t using good_nested [OF el FcNested.prems(2)] good_closed [OF FcNested.IH [OF s el]] by blast
next
  case (FcMust cs)
  from FcMust.prems(1) obtain ts where th: "thread (\<lambda>s c. structured_clause D (Suc depth) al c s) st cs = Inr (st', ts)"
    and t: "t = ''('' @ join_with '' AND '' ts @ '')''" by (auto split: if_splits)
  show ?case unfolding t using FcMust.IH FcMust.prems(2) by (intro good_paren closed_members [OF th]) auto
next
  case (FcShould cs)
  from FcShould.prems(1) obtain ts where th: "thread (\<lambda>s c. structured_clause D (Suc depth) al c s) st cs = Inr (st', ts)"
    and t: "t = ''('' @ join_with '' OR '' ts @ '')''" by (auto split: if_splits)
  show ?case unfolding t using FcShould.IH FcShould.prems(2) by (intro good_paren closed_members [OF th]) auto
next
  case (FcMustNot cs)
  from FcMustNot.prems(1) obtain ts where th: "thread (\<lambda>s c. structured_clause D (Suc depth) al c s) st cs = Inr (st', ts)"
    and t: "t = ''NOT '' @ ''('' @ join_with '' AND '' ts @ '')''" by (auto split: if_splits)
  show ?case unfolding t using FcMustNot.IH FcMustNot.prems(2) by (intro good_not closed_members [OF th]) auto
qed

text \<open>A condition at the top gives no clause, or one whose reading is that of \<open>rendered\<close>.\<close>

lemma field_clause_reads:
  assumes "field_clause D R re ra key val st = Inr (st', t)" "join_state D R re ra st" "plain ra"
  shows "join_state D R re ra st' \<and> (case t of None \<Rightarrow> \<not> gives_clause val | Some x \<Rightarrow> good_clause x \<and> gives_clause val)"
  using assms
proof (elim field_clause_ok)
  fix entity field a st1
  assume f: "is_valid_identifier field" and al: "alias_of D R re ra entity st = Inr (a, st1)"
    and b: "build_clause D a field val st1 = (t, st')"
  have "plain a \<and> join_state D R re ra st1" using join_alias [OF al assms(2)] joined_plain assms(3) by blast
  moreover have "join_state D R re ra st' \<longleftrightarrow> join_state D R re ra st1" using adds_clause [OF b] by (rule join_adds)
  ultimately show ?thesis using good_build [of a field val st1 _ st'] prop_like_field f b build_gives [OF b] by (auto split: option.splits)
qed

lemma reads_group:
  assumes "list_all2 (reads v leaf) cs ts"
  shows "\<forall>t \<in> set (clauses_of ts). good_clause t" "somes (map (rendered leaf) cs) = map (clause_means v) (clauses_of ts)"
  using assms by (induction cs ts rule: list_all2_induct) (auto simp: reads_def clauses_of_def somes_def good_clause_def split: option.splits)

lemma group_text_good: "\<forall>t \<in> set ts. good_clause t \<Longrightarrow> ts \<noteq> [] \<Longrightarrow> closed sep \<Longrightarrow> good_clause (group_text sep ts)"
  using good_paren [OF closed_join, of sep ts] good_closed by (cases ts) (auto simp: group_text_def)

lemma reads_and_group: "list_all2 (reads v leaf) cs ts \<Longrightarrow> reads v leaf (FcMust cs) (group_text '' AND '' (clauses_of ts))"
  using reads_group [of v leaf cs ts] group_text_good [of "clauses_of ts" "'' AND ''"]
  by (cases "clauses_of ts = []") (auto simp: reads_def group_reads_and group_text_def [of _ "[]"])

lemma reads_or_group: "list_all2 (reads v leaf) cs ts \<Longrightarrow> reads v leaf (FcShould cs) (group_text '' OR '' (clauses_of ts))"
  using reads_group [of v leaf cs ts] group_text_good [of "clauses_of ts" "'' OR ''"]
  by (cases "clauses_of ts = []") (auto simp: reads_def group_reads_or group_text_def [of _ "[]"])

lemma reads_not_group: "list_all2 (reads v leaf) cs ts \<Longrightarrow> reads v leaf (FcMustNot cs) (not_group_text (clauses_of ts))"
  using reads_group [of v leaf cs ts] group_reads_not [of "clauses_of ts"]
  by (cases "clauses_of ts = []") (auto simp: reads_def not_group_text_def [of "[]"])

lemma members_read:
  assumes "thread (\<lambda>s c. build_condition_clause D R re ra c s) st cs = Inr (st', ts)" "join_state D R re ra st" "within ps st'"
    and "\<And>c s s' t. c \<in> set cs \<Longrightarrow> build_condition_clause D R re ra c s = Inr (s', t) \<Longrightarrow> join_state D R re ra s \<Longrightarrow> within ps s'
           \<Longrightarrow> join_state D R re ra s' \<and> reads v leaf c t"
  shows "join_state D R re ra st' \<and> list_all2 (reads v leaf) cs ts"
  by (rule thread_invariant_within [of _ st cs st' ts "join_state D R re ra" "within ps", OF assms(1-3)])
    (use assms(4) within_before in blast)+

lemma condition_reads:
  assumes "build_condition_clause D R re ra c st = Inr (st', t)" "join_state D R re ra st" "plain ra"
    and "\<forall>l \<in> set (leaves c). judged D R re ra ps v leaf l" "within ps st'"
  shows "join_state D R re ra st' \<and> reads v leaf c t"
  using assms
proof (induction c arbitrary: st st' t)
  case (FcField key val)
  then obtain u where f: "field_clause D R re ra key val st = Inr (st', u)" and t: "t = (case u of None \<Rightarrow> [] | Some x \<Rightarrow> x)" by auto
  have g: "join_state D R re ra st' \<and> (case u of None \<Rightarrow> \<not> gives_clause val | Some x \<Rightarrow> good_clause x \<and> gives_clause val)"
    by (rule field_clause_reads [OF f FcField.prems(2,3)])
  show ?case
  proof (cases u)
    case None
    then show ?thesis using g t by (simp add: reads_def)
  next
    case (Some x)
    then have "t \<noteq> []" using g t by (simp add: good_clause_def)
    then show ?thesis using g t Some judged_means [OF _ FcField.prems(2,1,5)] FcField.prems(4) by (simp add: reads_def)
  qed
next
  case (FcPath path val)
  then have s: "structured_clause D 0 ra (FcPath path val) st = Inr (st', t)" by simp
  have "good_clause t" by (rule good_structured [OF s FcPath.prems(3)])
  moreover have "join_state D R re ra st'" using FcPath.prems(2) join_adds [OF structured_adds [OF s]] by simp
  ultimately show ?case using judged_means [OF _ FcPath.prems(2,1,5)] FcPath.prems(4)
    by (simp add: reads_def good_clause_def)
next
  case (FcNested path c)
  then have s: "structured_clause D 0 ra (FcNested path c) st = Inr (st', t)" by simp
  have "good_clause t" by (rule good_structured [OF s FcNested.prems(3)])
  moreover have "join_state D R re ra st'" using FcNested.prems(2) join_adds [OF structured_adds [OF s]] by simp
  ultimately show ?case using judged_means [OF _ FcNested.prems(2,1,5)] FcNested.prems(4)
    by (simp add: reads_def good_clause_def)
next
  case (FcMust cs)
  then obtain ts where th: "thread (\<lambda>s c. build_condition_clause D R re ra c s) st cs = Inr (st', ts)"
    and t: "t = group_text '' AND '' (clauses_of ts)" by auto
  have "join_state D R re ra st' \<and> list_all2 (reads v leaf) cs ts"
    by (rule members_read [OF th FcMust.prems(2,5)], rule FcMust.IH, assumption, assumption, assumption) (use FcMust.prems(3,4) in auto)
  then show ?case unfolding t using reads_and_group by simp
next
  case (FcShould cs)
  then obtain ts where th: "thread (\<lambda>s c. build_condition_clause D R re ra c s) st cs = Inr (st', ts)"
    and t: "t = group_text '' OR '' (clauses_of ts)" by auto
  have "join_state D R re ra st' \<and> list_all2 (reads v leaf) cs ts"
    by (rule members_read [OF th FcShould.prems(2,5)], rule FcShould.IH, assumption, assumption, assumption) (use FcShould.prems(3,4) in auto)
  then show ?case unfolding t using reads_or_group by simp
next
  case (FcMustNot cs)
  then obtain ts where th: "thread (\<lambda>s c. build_condition_clause D R re ra c s) st cs = Inr (st', ts)"
    and t: "t = not_group_text (clauses_of ts)" by auto
  have "join_state D R re ra st' \<and> list_all2 (reads v leaf) cs ts"
    by (rule members_read [OF th FcMustNot.prems(2,5)], rule FcMustNot.IH, assumption, assumption, assumption) (use FcMustNot.prems(3,4) in auto)
  then show ?case unfolding t using reads_not_group by simp
qed

text \<open>Whatever the leaves say, the clause of a condition may stand beside \<open>AND\<close>.\<close>

lemma members_good:
  assumes "thread (\<lambda>s c. build_condition_clause D R re ra c s) st cs = Inr (st', ts)" "join_state D R re ra st"
    and "\<And>c s s' t. c \<in> set cs \<Longrightarrow> build_condition_clause D R re ra c s = Inr (s', t) \<Longrightarrow> join_state D R re ra s
           \<Longrightarrow> join_state D R re ra s' \<and> (t = [] \<or> good_clause t)"
  shows "join_state D R re ra st' \<and> (\<forall>t \<in> set (clauses_of ts). good_clause t)"
proof -
  have "join_state D R re ra st' \<and> list_all2 (\<lambda>c t. t = [] \<or> good_clause t) cs ts"
    using thread_invariant [of _ st cs st' ts "join_state D R re ra" "\<lambda>c t. t = [] \<or> good_clause t", OF assms(1,2)] assms(3) by blast
  then show ?thesis by (auto simp: clauses_of_def list_all2_conv_all_nth in_set_conv_nth)
qed

lemma condition_good_step:
  "build_condition_clause D R re ra c st = Inr (st', t) \<Longrightarrow> join_state D R re ra st \<Longrightarrow> plain ra
    \<Longrightarrow> join_state D R re ra st' \<and> (t = [] \<or> good_clause t)"
proof (induction c arbitrary: st st' t)
  case (FcField key val)
  then show ?case using field_clause_reads by (fastforce split: option.splits)
next
  case (FcPath path val)
  then have s: "structured_clause D 0 ra (FcPath path val) st = Inr (st', t)" by simp
  show ?case using join_adds [OF structured_adds [OF s]] good_structured [OF s] FcPath.prems by blast
next
  case (FcNested path c)
  then have s: "structured_clause D 0 ra (FcNested path c) st = Inr (st', t)" by simp
  show ?case using join_adds [OF structured_adds [OF s]] good_structured [OF s] FcNested.prems by blast
next
  case (FcMust cs)
  then obtain ts where th: "thread (\<lambda>s c. build_condition_clause D R re ra c s) st cs = Inr (st', ts)"
    and t: "t = group_text '' AND '' (clauses_of ts)" by auto
  show ?case using members_good [OF th FcMust.prems(2) FcMust.IH] FcMust.prems(3) group_text_good [of "clauses_of ts" "'' AND ''"]
    by (cases "clauses_of ts = []") (auto simp: t group_text_def [of _ "[]"])
next
  case (FcShould cs)
  then obtain ts where th: "thread (\<lambda>s c. build_condition_clause D R re ra c s) st cs = Inr (st', ts)"
    and t: "t = group_text '' OR '' (clauses_of ts)" by auto
  show ?case using members_good [OF th FcShould.prems(2) FcShould.IH] FcShould.prems(3) group_text_good [of "clauses_of ts" "'' OR ''"]
    by (cases "clauses_of ts = []") (auto simp: t group_text_def [of _ "[]"])
next
  case (FcMustNot cs)
  then obtain ts where th: "thread (\<lambda>s c. build_condition_clause D R re ra c s) st cs = Inr (st', ts)"
    and t: "t = not_group_text (clauses_of ts)" by auto
  show ?case using members_good [OF th FcMustNot.prems(2) FcMustNot.IH] FcMustNot.prems(3) group_reads_not(2) [of "clauses_of ts"]
    by (cases "clauses_of ts = []") (auto simp: t not_group_text_def [of "[]"])
qed

lemma condition_good:
  "build_condition_clause D R re ra c st = Inr (st', t) \<Longrightarrow> join_state D R re ra st \<Longrightarrow> plain ra \<Longrightarrow> t = [] \<or> good_clause t"
  using condition_good_step by blast

lemma parse_reads:
  assumes "parse_condition D R c re ra = Inr p" "plain ra"
    and "\<forall>l \<in> set (leaves c). judged D R re ra (filter_params p) v leaf l"
  shows "case rendered leaf c of None \<Rightarrow> where_clauses p = [] | Some b \<Rightarrow> length (where_clauses p) = 1 \<and> clause_means v (combine_where p) = b"
proof -
  obtain st t where b: "build_condition_clause D R re ra c (initial_state re ra) = Inr (st, t)"
    and p: "p = parsed st (if t = [] then [] else [t])"
    using assms(1) by (auto simp: parse_condition_def)
  have "within (filter_params p) st" by (simp add: within_def p parsed_def)
  with condition_reads [OF b join_initial assms(2,3)] have "reads v leaf c t" by blast
  then show ?thesis by (auto simp: reads_def p parsed_def combine_where_def good_clause_def split: option.splits)
qed

end

lemma cypher_quote_plain: "is_valid_identifier x \<Longrightarrow> plain (cypher_quote x)"
  using identifier_plain [of x] by (simp add: cypher_quote_def plain_Cons opens_def closes_def)

lemma ascii_lower_plain:
  assumes "is_ascii_alphanumeric c \<or> c = CHR ''_''"
  shows "is_ascii_alphanumeric (ascii_lower c) \<or> ascii_lower c = CHR ''_''"
proof (cases "65 \<le> char_code c \<and> char_code c \<le> 90")
  case True
  then have "char_code (ascii_lower c) = char_code c + 32" by (simp add: ascii_lower_def char_code_def)
  then show ?thesis using True by (simp add: is_ascii_alphanumeric_def is_ascii_alphabetic_def)
next
  case False
  then have "ascii_lower c = c" by (auto simp: ascii_lower_def)
  then show ?thesis using assms by simp
qed

lemma plain_letters: "\<forall>c \<in> set x. is_ascii_alphanumeric c \<or> c = CHR ''_'' \<Longrightarrow> plain x"
  using identifier_char_plain by (auto simp: plain_def)

lemma postgres_quote_plain:
  assumes "is_valid_identifier x"
  shows "plain (postgres_quote x)"
proof -
  have "plain (map ascii_lower x)" using identifier_chars [OF assms] ascii_lower_plain by (intro plain_letters) auto
  then show ?thesis using identifier_plain [OF assms] by (simp add: postgres_quote_def split_on_none plain_Cons opens_def closes_def)
qed

interpretation rag3db: clause_dialect rag3db_filters
proof
  fix p q f
  assume p: "prop_like p" and q: "plain q"
  note w = prop_like_word [OF p]
  show "good_clause (fd_starts_with rag3db_filters p q)" using w q by (simp add: rag3db_filters_def read_simps)
  show "good_clause (fd_contains rag3db_filters p q)" using w q by (simp add: rag3db_filters_def read_simps)
  show "good_clause (fd_list_any_match rag3db_filters p q)" using w q by (simp add: rag3db_filters_def read_simps)
  show "good_clause (fd_list_all rag3db_filters p q)" using w q by (simp add: rag3db_filters_def read_simps)
  show "good_clause (fd_list_none rag3db_filters p q)" using w q by (simp add: rag3db_filters_def read_simps)
  show "good_clause (f p q)" if "fd_list_scalar_contains rag3db_filters = Some f"
    using w q that by (auto simp: rag3db_filters_def read_simps)
next
  show "good_clause (fd_size_expr rag3db_filters p)" if "prop_like p" for p
    using prop_like_word [OF that] by (simp add: rag3db_filters_def read_simps)
qed (simp add: rag3db_filters_def cypher_quote_plain)

interpretation postgres: clause_dialect postgres_filters
proof
  fix p q
  assume p: "prop_like p" and q: "plain q"
  note w = prop_like_word [OF p]
  show "good_clause (fd_starts_with postgres_filters p q)" using w q by (simp add: postgres_filters_def read_simps)
  show "good_clause (fd_contains postgres_filters p q)" using w q by (simp add: postgres_filters_def read_simps)
  show "good_clause (fd_list_any_match postgres_filters p q)" using w q by (simp add: postgres_filters_def read_simps)
  show "good_clause (fd_list_all postgres_filters p q)" using w q by (simp add: postgres_filters_def read_simps)
  show "good_clause (fd_list_none postgres_filters p q)" using w q by (simp add: postgres_filters_def read_simps)
next
  show "good_clause (fd_size_expr postgres_filters p)" if "prop_like p" for p
    using prop_like_word [OF that] by (simp add: postgres_filters_def read_simps)
qed (simp_all add: postgres_filters_def postgres_quote_plain)

section \<open>What an accepted filter names\<close>

text \<open>The parts of the keys and paths of a condition, outside and inside nested conditions.\<close>

fun field_names :: "string \<Rightarrow> filter_condition \<Rightarrow> string list" where
  "field_names re (FcField key val) = [fst (key_parts re key), snd (key_parts re key)]"
| "field_names re (FcPath path val) = path"
| "field_names re (FcNested path c) = path @ field_names re c"
| "field_names re (FcMust cs) = concat (map (field_names re) cs)"
| "field_names re (FcShould cs) = concat (map (field_names re) cs)"
| "field_names re (FcMustNot cs) = concat (map (field_names re) cs)"

lemma thread_each:
  assumes "thread f st cs = Inr (st', ts)" "\<And>c s s' t. c \<in> set cs \<Longrightarrow> f s c = Inr (s', t) \<Longrightarrow> P c"
  shows "\<forall>c \<in> set cs. P c"
  using thread_invariant [OF assms(1), of "\<lambda>_. True" "\<lambda>c _. P c"] assms(2)
  by (auto simp: list_all2_conv_all_nth in_set_conv_nth)

lemma structured_group:
  "structured_clause D depth al c st = Inr (st', t) \<Longrightarrow> c \<in> {FcMust cs, FcShould cs, FcMustNot cs}
    \<Longrightarrow> \<exists>ts. thread (\<lambda>s c. structured_clause D (Suc depth) al c s) st cs = Inr (st', ts)"
  by (auto split: if_splits)

lemma condition_group:
  "build_condition_clause D R re ra c st = Inr (st', t) \<Longrightarrow> c \<in> {FcMust cs, FcShould cs, FcMustNot cs}
    \<Longrightarrow> \<exists>ts. thread (\<lambda>s c. build_condition_clause D R re ra c s) st cs = Inr (st', ts)"
  by auto

lemma path_expr_valid: "path_expr D path = Inr field \<Longrightarrow> \<forall>x \<in> set path. is_valid_identifier x"
  by (auto simp: path_expr_def validate_identifier_def split: if_splits)

lemma key_parts_valid: "is_valid_identifier re \<Longrightarrow> is_valid_identifier key \<Longrightarrow> key_parts re key = (re, key)"
  using identifier_plain [of key] by (simp add: key_parts_def split_once_None)

lemma structured_names:
  "structured_clause D depth al c st = Inr (st', t) \<Longrightarrow> is_valid_identifier re \<Longrightarrow> \<forall>x \<in> set (field_names re c). is_valid_identifier x"
proof (induction c arbitrary: depth al st st' t)
  case (FcField key val)
  then have "is_valid_identifier key" by (auto simp: validate_identifier_def split: if_splits)
  then show ?case using FcField.prems(2) by (simp add: key_parts_valid)
next
  case (FcNested path c)
  then show ?case by (auto simp: Let_def dest: path_expr_valid)
next
  case (FcMust cs)
  obtain ts where th: "thread (\<lambda>s c. structured_clause D (Suc depth) al c s) st cs = Inr (st', ts)"
    using structured_group [OF FcMust.prems(1)] by auto
  show ?case using thread_each [OF th FcMust.IH [OF _ _ FcMust.prems(2)]] by simp
next
  case (FcShould cs)
  obtain ts where th: "thread (\<lambda>s c. structured_clause D (Suc depth) al c s) st cs = Inr (st', ts)"
    using structured_group [OF FcShould.prems(1)] by auto
  show ?case using thread_each [OF th FcShould.IH [OF _ _ FcShould.prems(2)]] by simp
next
  case (FcMustNot cs)
  obtain ts where th: "thread (\<lambda>s c. structured_clause D (Suc depth) al c s) st cs = Inr (st', ts)"
    using structured_group [OF FcMustNot.prems(1)] by auto
  show ?case using thread_each [OF th FcMustNot.IH [OF _ _ FcMustNot.prems(2)]] by simp
qed (auto dest: path_expr_valid)

lemma condition_names:
  "build_condition_clause D R re ra c st = Inr (st', t) \<Longrightarrow> is_valid_identifier re \<Longrightarrow> \<forall>x \<in> set (field_names re c). is_valid_identifier x"
proof (induction c arbitrary: st st' t)
  case (FcField key val)
  then show ?case by (auto elim: field_clause_ok)
next
  case (FcPath path val)
  then show ?case using structured_names [of D 0 ra "FcPath path val"] by (simp del: structured_clause.simps)
next
  case (FcNested path c)
  then show ?case using structured_names [of D 0 ra "FcNested path c"] by (simp del: structured_clause.simps)
next
  case (FcMust cs)
  obtain ts where th: "thread (\<lambda>s c. build_condition_clause D R re ra c s) st cs = Inr (st', ts)"
    using condition_group [OF FcMust.prems(1)] by auto
  show ?case using thread_each [OF th FcMust.IH [OF _ _ FcMust.prems(2)]] by simp
next
  case (FcShould cs)
  obtain ts where th: "thread (\<lambda>s c. build_condition_clause D R re ra c s) st cs = Inr (st', ts)"
    using condition_group [OF FcShould.prems(1)] by auto
  show ?case using thread_each [OF th FcShould.IH [OF _ _ FcShould.prems(2)]] by simp
next
  case (FcMustNot cs)
  obtain ts where th: "thread (\<lambda>s c. build_condition_clause D R re ra c s) st cs = Inr (st', ts)"
    using condition_group [OF FcMustNot.prems(1)] by auto
  show ?case using thread_each [OF th FcMustNot.IH [OF _ _ FcMustNot.prems(2)]] by simp
qed

text \<open>
  The conditions whose clause can mean what their comments say: every field has a clause, an
  alternative has members and each of them a clause, a negation has at most one member, with a
  clause. The empty group of a filter \<open>{}\<close> is among them. \<open>has_clause\<close> says whether a condition
  gives any text.
\<close>

fun has_clause :: "filter_condition \<Rightarrow> bool" where
  "has_clause (FcField key val) = gives_clause val"
| "has_clause (FcMust cs) = list_ex has_clause cs"
| "has_clause (FcShould cs) = list_ex has_clause cs"
| "has_clause (FcMustNot cs) = list_ex has_clause cs"
| "has_clause _ = True"

fun simple_negations :: "filter_condition \<Rightarrow> bool" where
  "simple_negations (FcField key val) = gives_clause val"
| "simple_negations (FcPath path val) = True"
| "simple_negations (FcNested path c) = True"
| "simple_negations (FcMust cs) = list_all simple_negations cs"
| "simple_negations (FcShould cs) = (cs \<noteq> [] \<and> list_all (\<lambda>c. has_clause c \<and> simple_negations c) cs)"
| "simple_negations (FcMustNot cs) = (length cs \<le> 1 \<and> list_all (\<lambda>c. has_clause c \<and> simple_negations c) cs)"

lemma somes_filter: "\<forall>c \<in> set cs. f c = (if P c then Some (g c) else None) \<Longrightarrow> somes (map f cs) = map g (filter P cs)"
  by (induction cs) (auto simp: somes_def)

lemma rendered_holds:
  "simple_negations c \<Longrightarrow> rendered leaf c = (if has_clause c then Some (holds leaf c) else None) \<and> (\<not> has_clause c \<longrightarrow> holds leaf c)"
proof (induction c)
  case (FcMust cs)
  then have m: "\<forall>c \<in> set cs. rendered leaf c = (if has_clause c then Some (holds leaf c) else None)"
    and n: "\<forall>c \<in> set cs. \<not> has_clause c \<longrightarrow> holds leaf c" by (auto simp: list_all_iff)
  show ?case using n by (auto simp: somes_filter [OF m] filter_empty_conv list_ex_iff)
next
  case (FcShould cs)
  then have m: "\<forall>c \<in> set cs. rendered leaf c = (if has_clause c then Some (holds leaf c) else None)" by (auto simp: list_all_iff)
  have all: "filter has_clause cs = cs" and ne: "cs \<noteq> []" using FcShould.prems by (auto simp: list_all_iff)
  then have "has_clause (FcShould cs)" by (metis filter_empty_conv has_clause.simps(3) list_ex_iff)
  then show ?case using ne by (simp add: somes_filter [OF m] all)
next
  case (FcMustNot cs)
  then have m: "\<forall>c \<in> set cs. rendered leaf c = (if has_clause c then Some (holds leaf c) else None)" by (auto simp: list_all_iff)
  have "cs = [] \<or> (\<exists>c. cs = [c])" using FcMustNot.prems by (cases cs) auto
  then show ?case using FcMustNot.prems by (auto simp: somes_filter [OF m])
qed auto

lemma dialect_reads:
  "D \<in> {rag3db_filters, postgres_filters} \<Longrightarrow> parse_condition D R c re ra = Inr p \<Longrightarrow> plain ra \<Longrightarrow>
   \<forall>l \<in> set (leaves c). judged D R re ra (filter_params p) v leaf l \<Longrightarrow>
   (case rendered leaf c of None \<Rightarrow> where_clauses p = [] | Some b \<Rightarrow> length (where_clauses p) = 1 \<and> clause_means v (combine_where p) = b)"
  using rag3db.parse_reads [of R c re ra p v leaf] postgres.parse_reads [of R c re ra p v leaf] by blast

lemma param_name_inj: "param_name m = param_name n \<longleftrightarrow> m = n"
  by (auto simp: param_name_def) (metis read_decimal)

lemma alias_name_inj: "alias_name m = alias_name n \<longleftrightarrow> m = n"
  by (auto simp: alias_name_def) (metis read_decimal)

lemma fst_numbered: "map fst (numbered n vs) = map param_name [n..<n + length vs]"
  by (induction n vs rule: numbered.induct) (auto simp: upt_conv_Cons simp del: upt_Suc)

lemma snd_numbered: "map snd (numbered n vs) = vs"
  by (induction n vs rule: numbered.induct) auto

lemma thread_keeps:
  assumes "thread f st cs = Inr (st', ts)" "I st" "\<And>c s s' t. c \<in> set cs \<Longrightarrow> f s c = Inr (s', t) \<Longrightarrow> I s \<Longrightarrow> I s'"
  shows "I st'"
  using thread_invariant [of f st cs st' ts I "\<lambda>_ _. True"] assms by blast

lemma condition_joins:
  "build_condition_clause D R re ra c st = Inr (st', t) \<Longrightarrow> join_state D R re ra st \<Longrightarrow> join_state D R re ra st'"
proof (induction c arbitrary: st st' t)
  case (FcField key val)
  then show ?case by (auto elim!: field_clause_ok dest!: join_alias adds_clause simp: join_adds)
next
  case (FcPath path val)
  then show ?case using join_adds structured_adds by (metis build_condition_clause.simps(1))
next
  case (FcNested path c)
  then show ?case using join_adds structured_adds by (metis build_condition_clause.simps(2))
next
  case (FcMust cs)
  obtain ts where th: "thread (\<lambda>s c. build_condition_clause D R re ra c s) st cs = Inr (st', ts)"
    using condition_group [OF FcMust.prems(1)] by auto
  show ?case by (rule thread_keeps [where I = "join_state D R re ra", OF th FcMust.prems(2)]) (rule FcMust.IH)
next
  case (FcShould cs)
  obtain ts where th: "thread (\<lambda>s c. build_condition_clause D R re ra c s) st cs = Inr (st', ts)"
    using condition_group [OF FcShould.prems(1)] by auto
  show ?case by (rule thread_keeps [where I = "join_state D R re ra", OF th FcShould.prems(2)]) (rule FcShould.IH)
next
  case (FcMustNot cs)
  obtain ts where th: "thread (\<lambda>s c. build_condition_clause D R re ra c s) st cs = Inr (st', ts)"
    using condition_group [OF FcMustNot.prems(1)] by auto
  show ?case by (rule thread_keeps [where I = "join_state D R re ra", OF th FcMustNot.prems(2)]) (rule FcMustNot.IH)
qed

text \<open>
  The entities the fields of a condition name, in the order they are written: a key with a dot names
  the entity before it, one without names the result's. The paths and the nested conditions stay
  in the result's entity. \<open>first_uses\<close> keeps the first occurrence of each.
\<close>

fun field_entities :: "string \<Rightarrow> filter_condition \<Rightarrow> string list" where
  "field_entities re (FcField key val) = [case split_once CHR ''.'' key of Some (e, f) \<Rightarrow> e | None \<Rightarrow> re]"
| "field_entities re (FcMust cs) = concat (map (field_entities re) cs)"
| "field_entities re (FcShould cs) = concat (map (field_entities re) cs)"
| "field_entities re (FcMustNot cs) = concat (map (field_entities re) cs)"
| "field_entities re _ = []"

definition first_uses :: "string list \<Rightarrow> string list" where
  "first_uses es = rev (remdups (rev es))"

definition foreign_entities :: "string \<Rightarrow> filter_condition \<Rightarrow> string list" where
  "foreign_entities re c = first_uses (filter (\<lambda>e. e \<noteq> re) (field_entities re c))"

definition add_use :: "string \<Rightarrow> string list \<Rightarrow> string \<Rightarrow> string list" where
  "add_use re es e = (if e = re \<or> e \<in> set es then es else es @ [e])"

lemma add_uses: "foldl (add_use re) [] es = first_uses (filter (\<lambda>e. e \<noteq> re) es)"
  by (induction es rule: rev_induct) (auto simp: add_use_def first_uses_def)

lemma joined_adds: "adds vs st st' \<Longrightarrow> joined D R re ra es st' = joined D R re ra es st"
  by (simp add: adds_def joined_def)

lemma joined_alias:
  assumes "alias_of D R re ra e st = Inr (a, st')" "joined D R re ra es st"
  shows "joined D R re ra (add_use re es e) st'"
proof -
  obtain fs where fs: "joined D R re ra fs st'" using join_alias [OF assms(1)] assms(2) by (auto simp: join_state_def)
  have keys: "fst ` set (st_aliases st) = set (re # es)" using assms(2) by (simp add: joined_def)
  show ?thesis
  proof (cases "map_of (st_aliases st) e")
    case None
    then have e: "e \<notin> set (re # es)" using keys by (simp add: map_of_eq_None_iff)
    then have "st_aliases st' = (re, ra) # alias_list 1 (es @ [e])"
      using assms None keys by (auto simp: alias_of_def joined_def hm_insert_new alias_list_snoc alias_name_def Let_def)
    then have "(re, ra) # alias_list 1 fs = (re, ra) # alias_list 1 (es @ [e])" using fs by (simp add: joined_def)
    then have "map fst (alias_list 1 fs) = map fst (alias_list 1 (es @ [e]))" by simp
    then show ?thesis using fs e by (simp add: add_use_def del: One_nat_def)
  next
    case (Some b)
    then have "e \<in> set (re # es)" using keys map_of_eq_None_iff [of "st_aliases st" e] by auto
    then show ?thesis using Some assms by (auto simp: alias_of_def add_use_def)
  qed
qed

lemma thread_uses:
  assumes "thread f st cs = Inr (st', ts)" "joined D R re ra es st"
    and "\<And>c s s' t es. c \<in> set cs \<Longrightarrow> f s c = Inr (s', t) \<Longrightarrow> joined D R re ra es s \<Longrightarrow> joined D R re ra (foldl (add_use re) es (g c)) s'"
  shows "joined D R re ra (foldl (add_use re) es (concat (map g cs))) st'"
  using assms
proof (induction cs arbitrary: st ts es)
  case (Cons c cs)
  then obtain s' t us where f: "f st c = Inr (s', t)" and r: "thread f s' cs = Inr (st', us)" by auto
  have "joined D R re ra (foldl (add_use re) es (g c)) s'" using Cons.prems(2,3) f by simp
  from Cons.IH [OF r this] Cons.prems(3) show ?case by simp
qed simp

lemma condition_uses:
  "build_condition_clause D R re ra c st = Inr (st', t) \<Longrightarrow> joined D R re ra es st \<Longrightarrow>
     joined D R re ra (foldl (add_use re) es (field_entities re c)) st'"
proof (induction c arbitrary: st st' t es)
  case (FcField key val)
  obtain u where "field_clause D R re ra key val st = Inr (st', u)" using FcField.prems(1) by auto
  then obtain entity field a st1 where k: "key_parts re key = (entity, field)" and al: "alias_of D R re ra entity st = Inr (a, st1)"
    and b: "build_clause D a field val st1 = (u, st')" by (rule field_clause_ok)
  have "field_entities re (FcField key val) = [entity]" using k by (auto simp: key_parts_def split: option.splits)
  then show ?case using joined_alias [OF al FcField.prems(2)] joined_adds [OF adds_clause [OF b]] by simp
next
  case (FcPath path val)
  then show ?case using joined_adds structured_adds by (metis build_condition_clause.simps(1) field_entities.simps(5) foldl_Nil)
next
  case (FcNested path c)
  then show ?case using joined_adds structured_adds by (metis build_condition_clause.simps(2) field_entities.simps(6) foldl_Nil)
next
  case (FcMust cs)
  obtain ts where th: "thread (\<lambda>s c. build_condition_clause D R re ra c s) st cs = Inr (st', ts)"
    using condition_group [OF FcMust.prems(1)] by auto
  show ?case using thread_uses [OF th FcMust.prems(2) FcMust.IH] by simp
next
  case (FcShould cs)
  obtain ts where th: "thread (\<lambda>s c. build_condition_clause D R re ra c s) st cs = Inr (st', ts)"
    using condition_group [OF FcShould.prems(1)] by auto
  show ?case using thread_uses [OF th FcShould.prems(2) FcShould.IH] by simp
next
  case (FcMustNot cs)
  obtain ts where th: "thread (\<lambda>s c. build_condition_clause D R re ra c s) st cs = Inr (st', ts)"
    using condition_group [OF FcMustNot.prems(1)] by auto
  show ?case using thread_uses [OF th FcMustNot.prems(2) FcMustNot.IH] by simp
qed

lemma parse_condition_ok:
  assumes "parse_condition D R c re ra = Inr p"
  obtains st t where "is_valid_identifier re" "build_condition_clause D R re ra c (initial_state re ra) = Inr (st, t)"
    "p = parsed st (if t = [] then [] else [t])"
  using assms by (auto simp: parse_condition_def validate_identifier_def split: if_splits)

section \<open>Properties\<close>

text \<open>What of a parsed filter reaches the text of a query, and the names of its parameters.\<close>

definition query_texts :: "parsed_filter \<Rightarrow> string list \<times> string list \<times> string list \<times> (string \<times> string) list" where
  "query_texts p = (where_clauses p, match_clauses p, map fst (filter_params p), filter_aliases p)"

lemma shape_texts: "shape st = shape st' \<Longrightarrow> query_texts (parsed st ws) = query_texts (parsed st' ws)"
proof -
  have names: "map fst (st_params (shape s)) = map fst (st_params s)" for s
    by (simp add: shape_def comp_def case_prod_beta)
  assume e: "shape st = shape st'"
  then have "st_match st = st_match st' \<and> st_aliases st = st_aliases st'" by (cases st; cases st') (simp add: shape_def)
  then show ?thesis using names [of st] names [of st'] e by (simp add: query_texts_def parsed_def)
qed

lemma parse_skeleton:
  "map_sum id query_texts (parse_condition D R (skeleton c) re ra) = map_sum id query_texts (parse_condition D R c re ra)"
proof (cases "is_valid_identifier re")
  case True
  have "same_outcome (build_condition_clause D R re ra (skeleton c) (initial_state re ra)) (build_condition_clause D R re ra c (initial_state re ra))"
    by (rule same_outcome_condition) simp
  then show ?thesis
  proof (cases rule: same_outcome_cases)
    case (2 s s' t)
    then show ?thesis using True shape_texts [OF 2(3)] by (simp add: parse_condition_def validate_identifier_def)
  qed (simp add: parse_condition_def validate_identifier_def True)
qed (simp add: parse_condition_def validate_identifier_def)

text \<open>
  C10. No value of a filter reaches the text of a query: two filters that differ in their values
  only (the same fields, operators and list lengths) are refused with the same error, or give the
  same clauses, the same joins and the same parameter names. What a caller puts in a value cannot
  change the query.
\<close>

theorem filter_values_stay_parameters:
  assumes "skeleton c = skeleton c'"
  shows "map_sum id query_texts (parse_condition D R c re ra) = map_sum id query_texts (parse_condition D R c' re ra)"
  using parse_skeleton [of D R c re ra] parse_skeleton [of D R c' re ra] assms by simp

theorem filter_values_stay_parameters_witness:
  "map_sum id query_texts (parse_condition rag3db_filters [] (FcField ''name'' (FvOps [OpEq (VString ''x OR true''), OpStartsWith ''a)''])) ''Doc'' ''n'')
   = map_sum id query_texts (parse_condition rag3db_filters [] (FcField ''name'' (FvOps [OpEq (VInt 1), OpStartsWith ''b''])) ''Doc'' ''n'')"
  using filter_values_stay_parameters [of "FcField ''name'' (FvOps [OpEq (VString ''x OR true''), OpStartsWith ''a)''])"
      "FcField ''name'' (FvOps [OpEq (VInt 1), OpStartsWith ''b''])" rag3db_filters "[]" "''Doc''" "''n''"] by simp

text \<open>
  C26. The parameters of a parsed filter are the values of the filter, each once and in the order of
  the tree, and they are named \<open>filter_p0\<close>, \<open>filter_p1\<close>, ... without a gap: no two values share a
  name.
\<close>

theorem filter_parameters_in_order:
  assumes "parse_condition D R c re ra = Ok p"
  shows "map snd (filter_params p) = condition_values D c
    \<and> map fst (filter_params p) = map param_name [0..<length (condition_values D c)] \<and> distinct (map fst (filter_params p))"
proof -
  obtain st t where b: "build_condition_clause D R re ra c (initial_state re ra) = Inr (st, t)"
    and p: "p = parsed st (if t = [] then [] else [t])" using assms by (rule parse_condition_ok)
  have "filter_params p = numbered 0 (condition_values D c)"
    using stores_condition [OF b] by (simp add: p parsed_def stores_def initial_state_def)
  then show ?thesis by (simp add: fst_numbered snd_numbered distinct_map inj_on_def param_name_inj)
qed

definition demo_condition :: filter_condition where
  "demo_condition = FcMust [FcShould [FcField ''a'' (FvDirect (VInt 1)), FcField ''b'' (FvDirect (VInt 2))],
     FcMustNot [FcField ''c'' (FvDirect VNull)]]"

lemma demo_condition_parses:
  "parse_condition rag3db_filters [] demo_condition ''Doc'' ''n'' =
     Ok \<lparr>where_clauses = [''((n.`a` = $filter_p0 OR n.`b` = $filter_p1) AND NOT (n.`c` IS NULL))''], match_clauses = [],
       filter_params = [(''filter_p0'', VInt 1), (''filter_p1'', VInt 2)], filter_aliases = [(''Doc'', ''n'')]\<rparr>"
  by code_simp

theorem filter_parameters_in_order_witness:
  "\<exists>p. parse_condition rag3db_filters [] demo_condition ''Doc'' ''n'' = Ok p \<and> map snd (filter_params p) = [VInt 1, VInt 2]"
  using filter_parameters_in_order [OF demo_condition_parses] demo_condition_parses
  by (simp add: demo_condition_def is_null_def)

text \<open>
  C27. The alias of the result stands for its entity, and the other entities that the fields of a
  filter name, exactly those and in the order of first use, are each joined once: one clause for
  each, over a relation of the schema with a valid name between it and the result's entity, under
  an alias of its own (\<open>e1\<close>, \<open>e2\<close>, ...). The aliases are distinct exactly when the caller's alias
  of the result is none of those.
\<close>

theorem filter_joins_once:
  assumes "parse_condition D R c re ra = Ok p"
  shows "filter_aliases p = (re, ra) # alias_list 1 (foreign_entities re c)
    \<and> match_clauses p = join_list D R re ra 1 (foreign_entities re c)
    \<and> length (match_clauses p) = length (foreign_entities re c)
    \<and> set (foreign_entities re c) = set (field_entities re c) - {re} \<and> distinct (foreign_entities re c)
    \<and> list_all (joinable R re) (foreign_entities re c)
    \<and> (distinct (map snd (filter_aliases p)) \<longleftrightarrow> ra \<notin> alias_name ` {1..length (foreign_entities re c)})"
proof -
  let ?es = "foreign_entities re c"
  obtain st t where b: "build_condition_clause D R re ra c (initial_state re ra) = Inr (st, t)"
    and p: "p = parsed st (if t = [] then [] else [t])" using assms by (rule parse_condition_ok)
  have "joined D R re ra [] (initial_state re ra)" by (simp add: joined_def initial_state_def)
  from condition_uses [OF b this] have es: "joined D R re ra ?es st" by (simp add: add_uses foreign_entities_def)
  have len: "list_all (joinable R re) es \<Longrightarrow> length (join_list D R re ra n es) = length es" for n es
    by (induction n es rule: alias_list.induct) (auto simp: joinable_def split: option.splits)
  have aliases: "map snd (filter_aliases p) = ra # map alias_name [1..<Suc (length ?es)]"
    using es by (simp add: p parsed_def joined_def snd_alias_list del: upt_Suc)
  have "distinct (map alias_name [1..<Suc (length ?es)])" by (simp add: distinct_map inj_on_def alias_name_inj)
  then have "distinct (map snd (filter_aliases p)) \<longleftrightarrow> ra \<notin> alias_name ` {1..length ?es}"
    unfolding aliases by (simp add: atLeastLessThanSuc_atLeastAtMost del: upt_Suc)
  then show ?thesis using es len [of ?es 1]
    by (auto simp: p parsed_def joined_def foreign_entities_def first_uses_def)
qed

definition demo_relations :: "(string \<times> relation_def) list" where
  "demo_relations = [(''WROTE'', \<lparr>rel_from = ''Author'', rel_to = ''Doc''\<rparr>)]"

definition demo_joined :: filter_condition where
  "demo_joined = FcMust [FcField ''Author.name'' (FvDirect (VInt 1)), FcField ''Author.age'' (FvDirect (VInt 2))]"

lemma demo_joined_parses:
  "parse_condition rag3db_filters demo_relations demo_joined ''Doc'' ''n'' =
     Ok \<lparr>where_clauses = [''(e1.`name` = $filter_p0 AND e1.`age` = $filter_p1)''],
       match_clauses = [''MATCH (n)<-[:`WROTE`]-(e1:`Author`)''],
       filter_params = [(''filter_p0'', VInt 1), (''filter_p1'', VInt 2)],
       filter_aliases = [(''Doc'', ''n''), (''Author'', ''e1'')]\<rparr>"
  by code_simp

theorem filter_joins_once_witness:
  "\<exists>p. parse_condition rag3db_filters demo_relations demo_joined ''Doc'' ''n'' = Ok p
     \<and> length (match_clauses p) = 1 \<and> distinct (map snd (filter_aliases p))"
proof -
  have "foreign_entities ''Doc'' demo_joined = [''Author'']" by code_simp
  moreover have "''n'' \<notin> alias_name ` {1..1}" by (simp add: alias_name_def)
  ultimately have "length (foreign_entities ''Doc'' demo_joined) = 1"
    "''n'' \<notin> alias_name ` {1..length (foreign_entities ''Doc'' demo_joined)}" by simp_all
  with filter_joins_once [OF demo_joined_parses] demo_joined_parses show ?thesis by metis
qed

text \<open>
  A filter that is accepted names valid identifiers only, at every depth: its entities, its
  fields and the parts of its paths are letters, digits and underscores, so what is written between
  the quotes of the dialect cannot close them.
\<close>

theorem accepted_filter_names_identifiers:
  assumes "parse_condition D R c re ra = Ok p"
  shows "list_all is_valid_identifier (re # field_names re c)"
  using parse_condition_ok [OF assms] condition_names by (metis list_all_iff set_ConsD)

theorem accepted_filter_names_identifiers_witness:
  "list_all is_valid_identifier (''Doc'' # field_names ''Doc'' demo_joined)"
  using accepted_filter_names_identifiers [OF demo_joined_parses] .

text \<open>A database that finds the field \<open>a\<close> true and no other.\<close>

definition demo_judge :: "string list \<Rightarrow> bool" where
  "demo_judge ws = (ws \<noteq> [] \<and> hd ws = ''n.`a`'')"

definition demo_leaf :: "filter_condition \<Rightarrow> bool" where
  "demo_leaf c = (case c of FcField key val \<Rightarrow> key = ''a'' | _ \<Rightarrow> False)"

lemma demo_prop: "is_valid_identifier k \<Longrightarrow> prop_of rag3db_filters ''n'' k = ''n.`'' @ k @ ''`''"
  using identifier_plain [of k] by (simp add: prop_of_def rag3db_filters_def cypher_quote_def split_on_none)

lemma demo_judged:
  assumes "is_valid_identifier k"
  shows "judged rag3db_filters [] ''Doc'' ''n'' ps demo_judge demo_leaf (FcField k (FvDirect x))"
  unfolding judged_def
proof (intro allI impI)
  fix st st' t
  assume j: "join_state rag3db_filters [] ''Doc'' ''n'' st"
    and b: "build_condition_clause rag3db_filters [] ''Doc'' ''n'' (FcField k (FvDirect x)) st = Inr (st', t)"
  have "map_of (st_aliases st) ''Doc'' = Some ''n''" using j by (auto simp: join_state_def joined_def)
  then have "t \<in> {''n.`'' @ k @ ''` IS NULL'', ''n.`'' @ k @ ''` = $'' @ param_name (param_counter st)}"
    using b assms key_parts_valid [of "''Doc''" k] demo_prop [OF assms]
    by (auto simp: field_clause_def validate_identifier_def alias_of_def build_clause_def next_param_def param_name_def Let_def
        is_ascii_alphabetic_def is_ascii_alphanumeric_def char_code_def split: if_splits)
  moreover have "clause_means demo_judge (''n.`'' @ k @ ''` IS NULL'') = (k = ''a'')"
    and "clause_means demo_judge (''n.`'' @ k @ ''` = $'' @ param_name m) = (k = ''a'')" for m
    using identifier_plain [OF assms] by (auto simp: clause_means_def read_simps means.simps demo_judge_def plain_Cons)
  ultimately show "clause_means demo_judge t = demo_leaf (FcField k (FvDirect x))" by (auto simp: demo_leaf_def)
qed

lemma demo_condition_judged:
  "\<forall>l \<in> set (leaves demo_condition). judged rag3db_filters [] ''Doc'' ''n'' ps demo_judge demo_leaf l"
  using demo_judged [of "''a''"] demo_judged [of "''b''"] demo_judged [of "''c''"]
  by (simp add: demo_condition_def is_ascii_alphabetic_def char_code_def)

lemma plain_n: "plain ''n''"
  by (simp add: plain_def opens_def closes_def)

text \<open>
  C11. In both dialects, the WHERE clause of a parsed filter means what the comments of
  \<open>FilterCondition\<close> say: all of \<open>must\<close>, at least one of \<open>should\<close>, none of \<open>must_not\<close>, and the
  filter \<open>{}\<close> constrains nothing. That is, for a filter whose fields and alternatives all have a
  clause and whose negations have at most one member (a negation of two conditions does not mean
  it): if the database judges the clause of each field as \<open>leaf\<close> does, then either the filter gives
  no clause and holds everywhere, or it gives one and that clause is judged true exactly where
  the filter holds. The parentheses the parser writes are the ones the precedence of \<open>AND\<close>, \<open>OR\<close>
  and \<open>NOT\<close> needs.
\<close>

theorem filter_means_documented:
  assumes "D \<in> {rag3db_filters, postgres_filters}" "parse_condition D R c re ra = Ok p" "plain ra"
    and "\<forall>l \<in> set (leaves c). judged D R re ra (filter_params p) v leaf l" "simple_negations c"
  shows "(where_clauses p = [] \<and> \<not> has_clause c \<and> holds leaf c)
    \<or> (length (where_clauses p) = 1 \<and> has_clause c \<and> clause_means v (combine_where p) = holds leaf c)"
  using dialect_reads [OF assms(1-4)] rendered_holds [OF assms(5), of leaf] by (auto split: if_splits)

theorem filter_means_documented_witness:
  "\<exists>p. parse_condition rag3db_filters [] demo_condition ''Doc'' ''n'' = Ok p
     \<and> clause_means demo_judge (combine_where p) \<and> holds demo_leaf demo_condition"
proof -
  have "simple_negations demo_condition" "holds demo_leaf demo_condition" "has_clause demo_condition"
    by (simp_all add: demo_condition_def demo_leaf_def)
  then show ?thesis
    using filter_means_documented [OF _ demo_condition_parses plain_n demo_condition_judged] demo_condition_parses by blast
qed

text \<open>
  C36. A negation of two conditions does not mean what its comment says. The filter \<open>must_not [a, b]\<close>
  should match where neither holds; its clause \<open>NOT (a AND b)\<close> also matches where one of them holds.
\<close>

theorem must_not_of_two_matches_one:
  "\<exists>p. parse_condition rag3db_filters [] (FcMustNot [FcField ''a'' (FvDirect (VInt 1)), FcField ''b'' (FvDirect (VInt 2))]) ''Doc'' ''n'' = Ok p
     \<and> combine_where p = ''NOT (n.`a` = $filter_p0 AND n.`b` = $filter_p1)''
     \<and> clause_means demo_judge (combine_where p)
     \<and> \<not> holds demo_leaf (FcMustNot [FcField ''a'' (FvDirect (VInt 1)), FcField ''b'' (FvDirect (VInt 2))])"
proof -
  let ?c = "FcMustNot [FcField ''a'' (FvDirect (VInt 1)), FcField ''b'' (FvDirect (VInt 2))]"
  let ?p = "\<lparr>where_clauses = [''NOT (n.`a` = $filter_p0 AND n.`b` = $filter_p1)''], match_clauses = [],
       filter_params = [(''filter_p0'', VInt 1), (''filter_p1'', VInt 2)], filter_aliases = [(''Doc'', ''n'')]\<rparr>"
  have p: "parse_condition rag3db_filters [] ?c ''Doc'' ''n'' = Ok ?p" by code_simp
  have "\<forall>l \<in> set (leaves ?c). judged rag3db_filters [] ''Doc'' ''n'' (filter_params ?p) demo_judge demo_leaf l"
    using demo_judged [of "''a''"] demo_judged [of "''b''"] by (simp add: is_ascii_alphabetic_def char_code_def)
  then have "case rendered demo_leaf ?c of None \<Rightarrow> where_clauses ?p = [] | Some b \<Rightarrow> length (where_clauses ?p) = 1 \<and> clause_means demo_judge (combine_where ?p) = b"
    by (intro dialect_reads [OF _ p plain_n]) auto
  moreover have "rendered demo_leaf ?c = Some True" by code_simp
  ultimately have "clause_means demo_judge (combine_where ?p)" by simp
  moreover have "combine_where ?p = ''NOT (n.`a` = $filter_p0 AND n.`b` = $filter_p1)''" by (simp add: combine_where_def)
  moreover have "\<not> holds demo_leaf ?c" by (simp add: demo_leaf_def)
  ultimately show ?thesis using p by blast
qed

section \<open>A map of fields\<close>

lemma fields_thread:
  "thread (\<lambda>s c. build_condition_clause D R re ra c s) st (map (\<lambda>(key, val). FcField key val) fs) =
     try_then (thread (\<lambda>s (key, val). field_clause D R re ra key val s) st fs)
       (\<lambda>(st', ts). Ok (st', map (case_option [] id) ts))"
proof (induction fs arbitrary: st)
  case (Cons f fs)
  obtain key val where f: "f = (key, val)" by fastforce
  show ?case
  proof (cases "field_clause D R re ra key val st")
    case (Inr r)
    then show ?thesis using Cons.IH [of "fst r"]
      by (cases r; cases "thread (\<lambda>s (key, val). field_clause D R re ra key val s) (fst r) fs") (auto simp: f id_def split: option.splits)
  qed (simp add: f)
qed simp


lemma map_filter_texts: "\<forall>t \<in> set ts. t \<noteq> Some [] \<Longrightarrow> clauses_of (map (case_option [] id) ts) = List.map_filter id ts"
  by (induction ts) (auto simp: clauses_of_def List.map_filter_def split: option.splits)

lemma fields_nonempty:
  assumes "D \<in> {rag3db_filters, postgres_filters}" "plain ra"
    "thread (\<lambda>s (key, val). field_clause D R re ra key val s) (initial_state re ra) fs = Inr (st, ts)"
  shows "\<forall>t \<in> set ts. t \<noteq> Some []"
proof -
  have "list_all2 (\<lambda>f t. t \<noteq> Some []) fs ts"
    using thread_invariant [OF assms(3), of "join_state D R re ra" "\<lambda>f t. t \<noteq> Some []"] join_initial assms(1,2)
      rag3db.field_clause_reads [of R re ra] postgres.field_clause_reads [of R re ra]
    by (fastforce simp: good_clause_def split: option.splits)
  then show ?thesis by (auto simp: list_all2_conv_all_nth in_set_conv_nth)
qed

text \<open>
  The two entries of the parser agree: a map of fields is compiled as the condition that requires
  all of them. Both are refused, or both give the same parameters, joins and aliases, and the clause
  of the condition is the one of the map, in parentheses where it has several parts.
\<close>

theorem filter_map_as_condition:
  assumes "D \<in> {rag3db_filters, postgres_filters}" "plain ra"
  shows "parse_condition D R (from_fields fs) re ra =
    try_then (parse D R fs re ra) (\<lambda>p.
      Ok (p\<lparr>where_clauses := (if where_clauses p = [] then []
             else if length (where_clauses p) = 1 then where_clauses p else [''('' @ combine_where p @ '')''])\<rparr>))"
proof (cases "thread (\<lambda>s (key, val). field_clause D R re ra key val s) (initial_state re ra) fs")
  case (Inl e)
  then show ?thesis by (cases "is_valid_identifier re")
      (simp_all add: parse_condition_def parse_def from_fields_def validate_identifier_def fields_thread)
next
  case (Inr r)
  obtain st ts where r: "r = (st, ts)" by fastforce
  have th: "thread (\<lambda>s (key, val). field_clause D R re ra key val s) (initial_state re ra) fs = Inr (st, ts)" using Inr r by simp
  note c = map_filter_texts [OF fields_nonempty [OF assms th]]
  have ne: "[] \<notin> set (List.map_filter id ts)" using fields_nonempty [OF assms th] by (auto simp: List.map_filter_def)
  let ?ws = "List.map_filter id ts"
  have "group_text '' AND '' ?ws = [] \<longleftrightarrow> ?ws = []" using ne by (cases ?ws) (auto simp: group_text_def)
  moreover have "length ?ws = 1 \<Longrightarrow> [hd ?ws] = ?ws" by (cases ?ws) auto
  ultimately show ?thesis
    by (cases "is_valid_identifier re") (auto simp: parse_condition_def parse_def from_fields_def validate_identifier_def fields_thread th c
        parsed_def combine_where_def group_text_def)
qed

theorem filter_map_as_condition_witness:
  "parse_condition rag3db_filters [] (from_fields [(''a'', FvDirect (VInt 1)), (''b'', FvList [VInt 2])]) ''Doc'' ''n'' =
     try_then (parse rag3db_filters [] [(''a'', FvDirect (VInt 1)), (''b'', FvList [VInt 2])] ''Doc'' ''n'')
       (\<lambda>p. Ok (p\<lparr>where_clauses := [''(n.`a` = $filter_p0 AND n.`b` IN $filter_p1)'']\<rparr>))"
proof -
  have "parse rag3db_filters [] [(''a'', FvDirect (VInt 1)), (''b'', FvList [VInt 2])] ''Doc'' ''n'' =
      Ok \<lparr>where_clauses = [''n.`a` = $filter_p0'', ''n.`b` IN $filter_p1''], match_clauses = [],
        filter_params = [(''filter_p0'', VInt 1), (''filter_p1'', VList [VInt 2])], filter_aliases = [(''Doc'', ''n'')]\<rparr>"
    by code_simp
  then show ?thesis using filter_map_as_condition [of rag3db_filters "''n''" "[]" "[(''a'', FvDirect (VInt 1)), (''b'', FvList [VInt 2])]" "''Doc''"]
    by (simp add: plain_n combine_where_def)
qed

section \<open>What the builder makes\<close>

text \<open>\<open>build_map\<close> panics exactly on a condition that is not a field, and keeps one condition per
  key, the last: a builder with two filters on a field loses the first there, and \<open>build\<close> keeps both.\<close>

lemma insert_fields_lookup:
  "insert_fields m (map (\<lambda>(key, val). FcField key val) fs) = Some m' \<Longrightarrow> map_of m' k = (map_of m ++ map_of (rev fs)) k"
proof (induction fs arbitrary: m)
  case (Cons f fs)
  obtain key val where f: "f = (key, val)" by fastforce
  show ?case using Cons.IH [of "hm_insert key val m"] Cons.prems by (simp add: f map_add_def split: option.splits)
qed (simp add: map_add_def)

lemma insert_fields_panics: "insert_fields m cs = None \<longleftrightarrow> (\<exists>c \<in> set cs. \<forall>key val. c \<noteq> FcField key val)"
  by (induction m cs rule: insert_fields.induct) auto

lemma build_map_keeps_last:
  "fb_build_map (fb_neq k y (fb_eq k x fb_new)) = Some [(k, FvOps [OpNeq y])]"
  "fb_build (fb_neq k y (fb_eq k x fb_new)) = FcMust [FcField k (FvOps [OpEq x]), FcField k (FvOps [OpNeq y])]"
  by (simp_all add: fb_build_map_def fb_build_def fb_neq_def fb_eq_def fb_new_def)

end
