(* ===== verification/Condition_Text.thy ===== *)
theory Condition_Text
  imports Ir_Form Filter_Reading
begin

text \<open>
  \<open>src/dialect.rs\<close>: a condition of a form written in the words of a dialect. A counter numbers the
  aliases of the subqueries a \<open>Through\<close> opens, so that they never cross. \<open>rag3db_condition_sur\<close> and
  \<open>postgres_condition_sur\<close> write a condition on a node, \<open>postgres_condition_sur_uuid\<close> one on the
  uuid a relation carries. A condition compiled elsewhere (by the filter parser) passes as it is.
\<close>

section \<open>Cypher\<close>

definition rag3db_motif :: "string \<Rightarrow> direction \<Rightarrow> string \<Rightarrow> string \<Rightarrow> string \<Rightarrow> string" where
  "rag3db_motif a direction relation t endd =
     (case direction of
        Outgoing \<Rightarrow> ''('' @ a @ '')-[:'' @ cypher_quote relation @ '']->('' @ t @ '':'' @ cypher_quote endd @ '')''
      | Incoming \<Rightarrow> ''('' @ a @ '')<-[:'' @ cypher_quote relation @ '']-('' @ t @ '':'' @ cypher_quote endd @ '')'')"

fun rag3db_condition_sur :: "predicate \<Rightarrow> string \<Rightarrow> nat \<Rightarrow> string \<times> nat" where
  "rag3db_condition_sur (Equals field param) a n = (a @ ''.'' @ cypher_quote field @ '' = $'' @ param, n)"
| "rag3db_condition_sur (Contains field param) a n = (a @ ''.'' @ cypher_quote field @ '' CONTAINS $'' @ param, n)"
| "rag3db_condition_sur (AtLeast field param) a n = (a @ ''.'' @ cypher_quote field @ '' >= $'' @ param, n)"
| "rag3db_condition_sur (AnyOf v) a n =
     apfst (join_with '' OR '') (visit (\<lambda>q. rag3db_condition_sur q a) v n)"
| "rag3db_condition_sur (AllOf v) a n =
     apfst (\<lambda>ts. join_with '' AND '' (map (\<lambda>t. ''('' @ t @ '')'') ts)) (visit (\<lambda>q. rag3db_condition_sur q a) v n)"
| "rag3db_condition_sur (InList field param) a n = (a @ ''.'' @ cypher_quote field @ '' IN $'' @ param, n)"
| "rag3db_condition_sur (StartsWith field param) a n = (a @ ''.'' @ cypher_quote field @ '' STARTS WITH $'' @ param, n)"
| "rag3db_condition_sur (Through relation direction endd flt) a n =
     (let t = CHR ''t'' # decimal (Suc n);
          motif = rag3db_motif a direction relation t endd;
          (condition, m) = (case flt of
              None \<Rightarrow> ([], Suc n)
            | Some f \<Rightarrow> apfst (\<lambda>c. '' WHERE '' @ c) (rag3db_condition_sur f t (Suc n)))
      in (''EXISTS { MATCH '' @ motif @ condition @ '' }'', m))"
| "rag3db_condition_sur (Optional _) a n = (''false'', n)"
| "rag3db_condition_sur (LetRef _) a n = (''false'', n)"
| "rag3db_condition_sur (Compiled c) a n = (c, n)"

definition rag3db_condition :: "predicate \<Rightarrow> string" where
  "rag3db_condition p = fst (rag3db_condition_sur p ''m'' 0)"

section \<open>SQL\<close>

text \<open>The ends of a relation's table: the one reached, and the one left.\<close>

definition bouts :: "direction \<Rightarrow> string \<times> string" where
  "bouts d = (case d of Outgoing \<Rightarrow> (''to_uuid'', ''from_uuid'') | Incoming \<Rightarrow> (''from_uuid'', ''to_uuid''))"

definition quoted :: "string \<Rightarrow> string" where
  "quoted x = [CHR 0x22] @ x @ [CHR 0x22]"

fun postgres_condition_sur :: "predicate \<Rightarrow> string \<Rightarrow> nat \<Rightarrow> string \<times> nat" where
  "postgres_condition_sur (Equals field param) a n = (a @ ''.'' @ postgres_quote field @ '' = $'' @ param, n)"
| "postgres_condition_sur (Contains field param) a n =
     (''strpos('' @ a @ ''.'' @ postgres_quote field @ '', $'' @ param @ '') > 0'', n)"
| "postgres_condition_sur (AtLeast field param) a n = (a @ ''.'' @ postgres_quote field @ '' >= $'' @ param, n)"
| "postgres_condition_sur (AnyOf v) a n =
     apfst (\<lambda>ts. ''('' @ join_with '' OR '' ts @ '')'') (visit (\<lambda>q. postgres_condition_sur q a) v n)"
| "postgres_condition_sur (AllOf v) a n =
     apfst (\<lambda>ts. ''('' @ join_with '' AND '' ts @ '')'') (visit (\<lambda>q. postgres_condition_sur q a) v n)"
| "postgres_condition_sur (InList field param) a n = (a @ ''.'' @ postgres_quote field @ '' = ANY($'' @ param @ '')'', n)"
| "postgres_condition_sur (StartsWith field param) a n =
     (''left('' @ a @ ''.'' @ postgres_quote field @ '', length($'' @ param @ '')) = $'' @ param, n)"
| "postgres_condition_sur (Through relation direction endd flt) a n =
     (let r = CHR ''r'' # decimal (Suc n);
          t = CHR ''t'' # decimal (Suc n);
          (vers, depuis) = bouts direction;
          (condition, m) = (case flt of
              None \<Rightarrow> ([], Suc n)
            | Some f \<Rightarrow> apfst (\<lambda>c. '' AND '' @ c) (postgres_condition_sur f t (Suc n)))
      in (''EXISTS (SELECT 1 FROM '' @ postgres_quote relation @ '' AS '' @ r @ '' JOIN '' @ postgres_quote endd @ '' AS '' @ t
            @ '' ON '' @ t @ ''.'' @ quoted ''_uuid'' @ '' = '' @ r @ ''.'' @ quoted vers
            @ '' WHERE '' @ r @ ''.'' @ quoted depuis @ '' = '' @ a @ ''.'' @ quoted ''_uuid'' @ condition @ '')'', m))"
| "postgres_condition_sur (Optional _) a n = (''FALSE'', n)"
| "postgres_condition_sur (LetRef _) a n = (''FALSE'', n)"
| "postgres_condition_sur (Compiled c) a n = (c, n)"

definition postgres_condition :: "predicate \<Rightarrow> string" where
  "postgres_condition p = fst (postgres_condition_sur p ''m'' 0)"

text \<open>\<open>collect::<Option<Vec<_>>>\<close> is \<open>those\<close>.\<close>

fun postgres_condition_sur_uuid :: "string \<Rightarrow> predicate \<Rightarrow> string option" where
  "postgres_condition_sur_uuid colonne (Equals field param) =
     (if field = ''_uuid'' then Some (colonne @ '' = $'' @ param) else None)"
| "postgres_condition_sur_uuid colonne (InList field param) =
     (if field = ''_uuid'' then Some (colonne @ '' = ANY($'' @ param @ '')'') else None)"
| "postgres_condition_sur_uuid colonne (AnyOf v) =
     map_option (\<lambda>ts. ''('' @ join_with '' OR '' ts @ '')'') (those (map (postgres_condition_sur_uuid colonne) v))"
| "postgres_condition_sur_uuid colonne (AllOf v) =
     map_option (\<lambda>ts. ''('' @ join_with '' AND '' ts @ '')'') (those (map (postgres_condition_sur_uuid colonne) v))"
| "postgres_condition_sur_uuid colonne _ = None"

section \<open>What a condition says\<close>

text \<open>The truth of a condition from the truth of its parts that are neither \<open>AnyOf\<close> nor \<open>AllOf\<close>.\<close>

fun condition_holds :: "(predicate \<Rightarrow> bool) \<Rightarrow> predicate \<Rightarrow> bool" where
  "condition_holds leaf (AnyOf v) = (\<exists>q \<in> set v. condition_holds leaf q)"
| "condition_holds leaf (AllOf v) = (\<forall>q \<in> set v. condition_holds leaf q)"
| "condition_holds leaf p = leaf p"

fun atoms :: "predicate \<Rightarrow> predicate list" where
  "atoms (AnyOf v) = concat (map atoms v)"
| "atoms (AllOf v) = concat (map atoms v)"
| "atoms p = [p]"

text \<open>How many subqueries a condition opens, and which compiled texts it carries.\<close>

fun throughs :: "predicate \<Rightarrow> nat" where
  "throughs (AnyOf v) = sum_list (map throughs v)"
| "throughs (AllOf v) = sum_list (map throughs v)"
| "throughs (Through _ _ _ None) = 1"
| "throughs (Through _ _ _ (Some f)) = Suc (throughs f)"
| "throughs _ = 0"

fun compiled_texts :: "predicate \<Rightarrow> string list" where
  "compiled_texts (AnyOf v) = concat (map compiled_texts v)"
| "compiled_texts (AllOf v) = concat (map compiled_texts v)"
| "compiled_texts (Through _ _ _ (Some f)) = compiled_texts f"
| "compiled_texts (Compiled c) = [c]"
| "compiled_texts _ = []"

lemma rag3db_condition_counts: "snd (rag3db_condition_sur p a n) = n + throughs p"
proof (induction p a n rule: rag3db_condition_sur.induct)
  case (4 v a n)
  then show ?case by (simp add: visit_count [where g = throughs])
next
  case (5 v a n)
  then show ?case by (simp add: visit_count [where g = throughs])
next
  case (8 relation direction endd flt a n)
  then show ?case by (cases flt) (auto simp: Let_def case_prod_beta)
qed auto

lemma postgres_condition_counts: "snd (postgres_condition_sur p a n) = n + throughs p"
proof (induction p arbitrary: a n)
  case (AnyOf v)
  then show ?case by (simp add: visit_count [where g = throughs])
next
  case (AllOf v)
  then show ?case by (simp add: visit_count [where g = throughs])
next
  case (Through relation direction endd flt)
  then show ?case by (cases flt) (auto simp: Let_def case_prod_beta)
qed auto

section \<open>Reading a condition back\<close>

lemma list_all2_bex: "list_all2 (\<lambda>q t. P t = Q q \<and> R t) v ts \<Longrightarrow> (\<exists>t \<in> set ts. P t) = (\<exists>q \<in> set v. Q q)"
  by (induction v ts rule: list_all2_induct) auto

lemma list_all2_ball: "list_all2 (\<lambda>q t. P t = Q q \<and> R t) v ts \<Longrightarrow> (\<forall>t \<in> set ts. P t) = (\<forall>q \<in> set v. Q q)"
  by (induction v ts rule: list_all2_induct) auto

lemma list_all2_right: "list_all2 (\<lambda>q t. P q t \<and> R t) v ts \<Longrightarrow> \<forall>t \<in> set ts. R t"
  by (induction v ts rule: list_all2_induct) auto

lemma plain_alias_t [simp]: "plain (CHR ''t'' # decimal n)" "plain (CHR ''r'' # decimal n)"
  by (simp_all add: plain_Cons opens_def closes_def)

lemma identifier_is_plain: "is_valid_identifier x \<Longrightarrow> plain x"
  using identifier_plain by blast

lemmas quoted_plain = cypher_quote_plain postgres_quote_plain identifier_is_plain

lemma plain_quoted: "is_valid_identifier x \<Longrightarrow> plain (quoted x)"
  using identifier_plain by (simp add: quoted_def plain_Cons opens_def closes_def)

lemma rag3db_closed:
  "plain a \<Longrightarrow> \<forall>x \<in> set (names p). is_valid_identifier x \<Longrightarrow> \<forall>c \<in> set (compiled_texts p). closed c
    \<Longrightarrow> closed (fst (rag3db_condition_sur p a n))"
proof (induction p arbitrary: a n)
  case (AnyOf v)
  then have "list_all2 (\<lambda>q t. True \<and> closed t) v (fst (visit (\<lambda>q. rag3db_condition_sur q a) v n))"
    by (intro visit_all) (auto split: if_splits)
  from list_all2_right [OF this] show ?case by (simp add: closed_join)
next
  case (AllOf v)
  then have "list_all2 (\<lambda>q t. True \<and> closed t) v (fst (visit (\<lambda>q. rag3db_condition_sur q a) v n))"
    by (intro visit_all) (auto split: if_splits)
  from list_all2_right [OF this] show ?case by (auto intro!: closed_join closed_paren [simplified])
next
  case (Through relation direction endd flt)
  have q: "plain (cypher_quote relation)" "plain (cypher_quote endd)" using Through.prems(2) by (simp_all add: quoted_plain)
  show ?case
  proof (cases flt)
    case None
    then show ?thesis using q Through.prems(1) by (cases direction) (simp_all add: rag3db_motif_def read_simps)
  next
    case (Some f)
    have "closed (fst (rag3db_condition_sur f (CHR ''t'' # decimal (Suc n)) (Suc n)))" using Through Some by auto
    note this [THEN closed_depth]
    then show ?thesis using q Through.prems(1) Some
      by (cases direction) (simp_all add: rag3db_motif_def read_simps Let_def case_prod_beta)
  qed
qed (simp_all add: read_simps quoted_plain)

lemma empty_condition_refused: "\<forall>x \<in> set (if v = [] then [''(condition vide)''] else ns). is_valid_identifier x \<Longrightarrow> v \<noteq> []"
  by (auto simp: is_ascii_alphabetic_def char_code_def split: if_splits)

lemma rag3db_reads:
  assumes "plain a" "\<forall>x \<in> set (names p). is_valid_identifier x" "\<forall>c \<in> set (compiled_texts p). closed c"
    and "\<forall>l \<in> set (atoms p). \<forall>n. clause_means v (fst (rag3db_condition_sur l a n)) = leaf l"
  shows "clause_means v (fst (rag3db_condition_sur p a n)) = condition_holds leaf p"
  using assms
proof (induction p arbitrary: n)
  case (AnyOf qs)
  let ?ts = "fst (visit (\<lambda>q. rag3db_condition_sur q a) qs n)"
  have ne: "qs \<noteq> []" using AnyOf.prems(2) empty_condition_refused by simp
  have "list_all2 (\<lambda>q t. clause_means v t = condition_holds leaf q \<and> closed t) qs ?ts"
    using AnyOf.prems by (intro visit_all conjI AnyOf.IH rag3db_closed) (auto split: if_splits)
  from list_all2_bex [OF this] list_all2_right [OF this] show ?case using ne by (simp add: clause_means_join_or)
next
  case (AllOf qs)
  let ?ts = "fst (visit (\<lambda>q. rag3db_condition_sur q a) qs n)"
  have ne: "qs \<noteq> []" using AllOf.prems(2) empty_condition_refused by simp
  have "list_all2 (\<lambda>q t. clause_means v t = condition_holds leaf q \<and> closed t) qs ?ts"
    using AllOf.prems by (intro visit_all conjI AllOf.IH rag3db_closed) (auto split: if_splits)
  from list_all2_ball [OF this] list_all2_right [OF this] show ?case using ne
    by (simp add: clause_means_join_and conjoinable_paren [simplified] clause_means_paren [simplified])
qed auto

lemma bouts_cases:
  "bouts d = (''to_uuid'', ''from_uuid'') \<or> bouts d = (''from_uuid'', ''to_uuid'')"
  by (cases d) (simp_all add: bouts_def)

lemma or_not_dotted [simp]: "''OR'' \<noteq> a @ CHR ''.'' # b"
proof
  assume "''OR'' = a @ CHR ''.'' # b"
  then have "CHR ''.'' \<in> set ''OR''" by (metis in_set_conv_decomp)
  then show False by simp
qed

lemma postgres_conjoinable:
  "plain a \<Longrightarrow> \<forall>x \<in> set (names p). is_valid_identifier x \<Longrightarrow> \<forall>c \<in> set (compiled_texts p). conjoinable c
    \<Longrightarrow> conjoinable (fst (postgres_condition_sur p a n))"
proof (induction p arbitrary: a n)
  case (AnyOf v)
  then have "list_all2 (\<lambda>q t. True \<and> closed t) v (fst (visit (\<lambda>q. postgres_condition_sur q a) v n))"
    by (intro visit_all) (auto split: if_splits intro: conjoinable_closed)
  from list_all2_right [OF this] show ?case using conjoinable_paren [OF closed_join] by simp
next
  case (AllOf v)
  then have "list_all2 (\<lambda>q t. True \<and> closed t) v (fst (visit (\<lambda>q. postgres_condition_sur q a) v n))"
    by (intro visit_all) (auto split: if_splits intro: conjoinable_closed)
  from list_all2_right [OF this] show ?case using conjoinable_paren [OF closed_join] by simp
next
  case (Through relation direction endd flt)
  have q: "plain (postgres_quote relation)" "plain (postgres_quote endd)" using Through.prems(2) by (simp_all add: quoted_plain)
  show ?case
  proof (cases flt)
    case None
    then show ?thesis using q Through.prems(1) bouts_cases [of direction] by (auto simp: quoted_def read_simps)
  next
    case (Some f)
    have c: "closed (fst (postgres_condition_sur f (CHR ''t'' # decimal (Suc n)) (Suc n)))"
      using Through Some by (auto intro: conjoinable_closed)
    show ?thesis using q Through.prems(1) Some closed_depth [OF c] words_at_closed [OF c] bouts_cases [of direction]
      by (auto simp: quoted_def read_simps Let_def case_prod_beta)
  qed
qed (auto simp: read_simps quoted_plain)

lemma postgres_reads:
  assumes "plain a" "\<forall>x \<in> set (names p). is_valid_identifier x" "\<forall>c \<in> set (compiled_texts p). conjoinable c"
    and "\<forall>l \<in> set (atoms p). \<forall>n. clause_means v (fst (postgres_condition_sur l a n)) = leaf l"
  shows "clause_means v (fst (postgres_condition_sur p a n)) = condition_holds leaf p"
  using assms
proof (induction p arbitrary: n)
  case (AnyOf qs)
  let ?ts = "fst (visit (\<lambda>q. postgres_condition_sur q a) qs n)"
  have ne: "qs \<noteq> []" using AnyOf.prems(2) empty_condition_refused by simp
  have "list_all2 (\<lambda>q t. clause_means v t = condition_holds leaf q \<and> closed t) qs ?ts"
    using AnyOf.prems by (intro visit_all conjI AnyOf.IH conjoinable_closed [OF postgres_conjoinable]) (auto split: if_splits)
  from list_all2_bex [OF this] list_all2_right [OF this] show ?case using ne
    by (simp add: clause_means_join_or clause_means_paren [simplified] closed_join)
next
  case (AllOf qs)
  let ?ts = "fst (visit (\<lambda>q. postgres_condition_sur q a) qs n)"
  have ne: "qs \<noteq> []" using AllOf.prems(2) empty_condition_refused by simp
  have "list_all2 (\<lambda>q t. clause_means v t = condition_holds leaf q \<and> conjoinable t) qs ?ts"
    using AllOf.prems by (intro visit_all conjI AllOf.IH postgres_conjoinable) (auto split: if_splits)
  from list_all2_ball [OF this] list_all2_right [OF this] show ?case using ne conjoinable_closed
    by (simp add: clause_means_join_and clause_means_paren [simplified] closed_join)
qed auto

text \<open>What the filter parser compiles may be put in any condition.\<close>

lemma compiled_filter_conjoinable:
  assumes "D \<in> {rag3db_filters, postgres_filters}" "parse_condition D R c re ra = Inr p" "plain ra" "where_clauses p \<noteq> []"
  shows "conjoinable (combine_where p)"
proof -
  obtain st t where b: "build_condition_clause D R re ra c (initial_state re ra) = Inr (st, t)"
    and p: "p = parsed st (if t = [] then [] else [t])" using assms(2) by (rule parse_condition_ok)
  have "t = [] \<or> good_clause t"
    using assms(1) rag3db.condition_good [of R re ra c "initial_state re ra" st t] postgres.condition_good [of R re ra c "initial_state re ra" st t]
      b join_initial assms(3) by blast
  then show ?thesis using assms(4) by (auto simp: p parsed_def combine_where_def good_clause_def split: if_splits)
qed

section \<open>Properties\<close>

text \<open>
  C23. A condition says the same in both dialects: where each database judges the parts of a bound
  condition as \<open>leaf\<close> does, both judge the whole condition, as it is written for them, as the
  condition says: an \<open>AnyOf\<close> where some member holds, an \<open>AllOf\<close> where all do, however they are
  nested. Compiled parts must be able to stand beside \<open>AND\<close>, as those of the filter parser are.
\<close>

theorem conditions_mean_the_same:
  assumes "plain a" "list_all is_valid_identifier (names p)" "list_all conjoinable (compiled_texts p)"
    and "\<forall>l \<in> set (atoms p). \<forall>n. clause_means v (fst (rag3db_condition_sur l a n)) = leaf l"
    and "\<forall>l \<in> set (atoms p). \<forall>n. clause_means w (fst (postgres_condition_sur l a n)) = leaf l"
  shows "clause_means v (fst (rag3db_condition_sur p a n)) = condition_holds leaf p
    \<and> clause_means w (fst (postgres_condition_sur p a n)) = condition_holds leaf p"
  using rag3db_reads [OF assms(1) _ _ assms(4)] postgres_reads [OF assms(1) _ _ assms(5)] assms(2,3) conjoinable_closed
  by (auto simp: list_all_iff)

definition demo_predicate :: predicate where
  "demo_predicate = AllOf [AnyOf [Equals ''a'' ''x'', Equals ''b'' ''y''], AtLeast ''c'' ''z'']"

lemma demo_quotes: "postgres_quote ''a'' = quoted ''a''" "postgres_quote ''b'' = quoted ''b''" "postgres_quote ''c'' = quoted ''c''"
  by code_simp+

theorem conditions_mean_the_same_witness:
  "clause_means (\<lambda>ws. hd ws \<noteq> ''m.`a`'') (fst (rag3db_condition_sur demo_predicate ''m'' 0))
   \<and> clause_means (\<lambda>ws. hd ws \<noteq> ''m.'' @ quoted ''a'') (fst (postgres_condition_sur demo_predicate ''m'' 0))"
proof -
  let ?leaf = "\<lambda>l. l \<noteq> Equals ''a'' ''x''"
  have i: "list_all is_valid_identifier (names demo_predicate)" "list_all conjoinable (compiled_texts demo_predicate)" by code_simp+
  have m: "plain ''m''" by (simp add: plain_def opens_def closes_def)
  have r: "\<forall>l \<in> set (atoms demo_predicate). \<forall>n. clause_means (\<lambda>ws. hd ws \<noteq> ''m.`a`'') (fst (rag3db_condition_sur l ''m'' n)) = ?leaf l"
    by (simp add: demo_predicate_def cypher_quote_def clause_means_def read_simps means_atom)
  have q: "\<forall>l \<in> set (atoms demo_predicate). \<forall>n. clause_means (\<lambda>ws. hd ws \<noteq> ''m.'' @ quoted ''a'') (fst (postgres_condition_sur l ''m'' n)) = ?leaf l"
    by (simp add: demo_predicate_def demo_quotes clause_means_def read_simps means_atom quoted_def)
  have "condition_holds ?leaf demo_predicate" by (simp add: demo_predicate_def)
  then show ?thesis using conditions_mean_the_same [OF m i r q, of 0] by simp
qed

end
