(* ===== verification/Plan_Runner.thy ===== *)
theory Plan_Runner
  imports Ir_Plan
begin

text \<open>
  \<open>src/plan.rs\<close>: running a plan. \<open>run_plan\<close> checks the plan, translates every node, gathers the
  nodes into groups (one statement each), decides whether the run is atomic, then executes the
  groups in order, feeding each with the distinct uuids its upstream rendered.

  The dialect and the connection are parameters: a \<open>dialect\<close> is the record of the trait methods
  the runner calls, a \<open>connection\<close> the record of its calls as functions on the state of the world
  \<open>'w\<close>. Every index, \<open>expect\<close> and map access of the source that could panic is a branch that
  gives \<open>RunPanic\<close>. Texts the source builds by \<open>format!("{:?}")\<close> only to compare them are kept as
  the values themselves.
\<close>

section \<open>Data\<close>

record query_result =
  qr_columns :: "string list"
  qr_rows :: "ir_value list list"

definition default_result :: query_result where
  "default_result = \<lparr>qr_columns = [], qr_rows = []\<rparr>"

record dialect =
  d_hop :: "hop \<Rightarrow> (translate_error, string) result"
  d_count :: "count \<Rightarrow> (translate_error, string) result"
  d_select :: "select \<Rightarrow> (translate_error, string) result"
  d_write :: "ir_write \<Rightarrow> (translate_error, string) result"
  d_untranslated :: "string \<Rightarrow> string"
  d_cap_transactions :: bool
  d_cap_fanout :: bool
  d_snapshot_read :: "string option"
  d_fuse :: "string \<Rightarrow> form \<Rightarrow> nat \<Rightarrow> string \<Rightarrow> string option"
  d_fuse_fanout :: "(string \<times> form) option \<Rightarrow> (nat \<times> string \<times> form) list \<Rightarrow> string option"

record 'w connection =
  c_execute :: "string \<Rightarrow> 'w \<Rightarrow> (string, query_result) result \<times> 'w"
  c_execute_with_params :: "string \<Rightarrow> query_param list \<Rightarrow> 'w \<Rightarrow> (string, query_result) result \<times> 'w"
  c_begin :: "'w \<Rightarrow> (string, unit) result \<times> 'w"
  c_commit :: "'w \<Rightarrow> (string, unit) result \<times> 'w"
  c_rollback :: "'w \<Rightarrow> (string, unit) result \<times> 'w"

record plan_options =
  po_require_atomic :: bool
  po_split :: bool
  po_no_transaction :: bool
  po_fanout :: "bool option"

record plan_report =
  pr_outputs :: "(string, query_result) btree"
  pr_instructions :: nat
  pr_fused :: "string list list"
  pr_atomic :: bool
  pr_atomic_reason :: "string option"

datatype run_error =
    RunInvalid plan_error
  | RunInvalidNode string translate_error
  | RunRefused string string
  | RunNotAtomic string
  | RunFailed "string list" string bool
  | RunPanic

record group =
  gr_members :: "nat list"
  gr_text :: string
  gr_params :: "query_param list"
  gr_branches :: "nat list option"

type_synonym group_state = "group list \<times> nat option list"

section \<open>Translation\<close>

fun translate :: "dialect \<Rightarrow> form \<Rightarrow> (translate_error, string) result" where
  "translate d (FHop h) = d_hop d h"
| "translate d (FCount c) = d_count d c"
| "translate d (FSelect s) = d_select d s"
| "translate d (FWrite w) = d_write d w"

definition translate_node :: "dialect \<Rightarrow> plan_node \<Rightarrow> (run_error, string) result" where
  "translate_node d n =
     (case translate d (pn_form n) of
        Inr t \<Rightarrow> Ok t
      | Inl (Untranslated f dia) \<Rightarrow> Err (RunRefused (pn_id n) (d_untranslated d f))
      | Inl (Invalid e) \<Rightarrow> Err (RunInvalidNode (pn_id n) (Invalid e)))"

section \<open>What feeds a node\<close>

fun first_seen :: "ir_value list \<Rightarrow> ir_value list \<Rightarrow> ir_value list" where
  "first_seen vus [] = []"
| "first_seen vus (v # vs) = (if v \<in> set vus then first_seen vus vs else v # first_seen (v # vus) vs)"

definition distinct_column :: "query_result \<Rightarrow> nat \<Rightarrow> ir_value list" where
  "distinct_column rows c =
     first_seen [] (filter (\<lambda>v. \<not> is_null v) (map (\<lambda>r. r ! c) (filter (\<lambda>r. c < length r) (qr_rows rows))))"

datatype shape = ShHop "column list" | ShDegree | ShSelect "column list"

fun form_shape :: "form \<Rightarrow> shape option" where
  "form_shape (FHop h) = Some (ShHop (h_returns h))"
| "form_shape (FCount (Edges _ _ _)) = Some ShDegree"
| "form_shape (FSelect s) = (if s_by_uuids s then Some (ShSelect (s_returns s)) else None)"
| "form_shape _ = None"

definition uuids_of :: "query_param list \<Rightarrow> ir_value option" where
  "uuids_of ps = map_option qp_value (find (\<lambda>p. qp_name p = ''uuids'') ps)"

section \<open>Groups\<close>

definition pos_of :: "plan_node list \<Rightarrow> string \<Rightarrow> nat option" where
  "pos_of ordre i = map_of (rev (zip (map pn_id ordre) [0..<length ordre])) i"

definition suivants_de :: "plan \<Rightarrow> plan_node list \<Rightarrow> string \<Rightarrow> (run_error, nat list) result" where
  "suivants_de p ordre i =
     traverse (\<lambda>e. ok_or RunPanic (pos_of ordre (e_to e))) (filter (\<lambda>e. e_from e = i) (p_edges p))"

definition sans_uuids :: "plan_node list \<Rightarrow> nat \<Rightarrow> query_param list" where
  "sans_uuids ordre i = filter (\<lambda>q. qp_name q \<noteq> ''uuids'') (pn_params (ordre ! i))"

definition recouvrent :: "query_param list \<Rightarrow> query_param list \<Rightarrow> bool" where
  "recouvrent a b = list_ex (\<lambda>q. list_ex (\<lambda>r. qp_name r = qp_name q) b) a"

text \<open>The parameters of sister nodes put end to end, or \<open>None\<close> when two of them have a common name.\<close>

fun libres :: "plan_node list \<Rightarrow> nat list \<Rightarrow> query_param list \<Rightarrow> query_param list option" where
  "libres ordre [] autres = Some autres"
| "libres ordre (j # js) autres =
     (if recouvrent (sans_uuids ordre j) autres then None else libres ordre js (autres @ sans_uuids ordre j))"

definition mark :: "nat list \<Rightarrow> nat \<Rightarrow> nat option list \<Rightarrow> nat option list" where
  "mark js g gd = fold (\<lambda>j gd. gd[j := Some g]) js gd"

text \<open>Sisters without an edge that receive the same \<open>$uuids\<close> and have the same shape.\<close>

definition soeurs :: "plan \<Rightarrow> plan_node list \<Rightarrow> nat option list \<Rightarrow> nat \<Rightarrow> ir_value \<Rightarrow> shape \<Rightarrow> nat list" where
  "soeurs p ordre gd i cle forme =
     filter (\<lambda>j. gd ! j = None \<and> input_of p (pn_id (ordre ! j)) = None
               \<and> uuids_of (pn_params (ordre ! j)) = Some cle \<and> form_shape (pn_form (ordre ! j)) = Some forme)
       [i..<length ordre]"

definition root_fanout ::
  "dialect \<Rightarrow> plan \<Rightarrow> plan_node list \<Rightarrow> string list \<Rightarrow> group_state \<Rightarrow> nat \<Rightarrow> group_state option" where
  "root_fanout d p ordre textes st i =
     (let n = ordre ! i; (gs, gd) = st
      in case (uuids_of (pn_params n), form_shape (pn_form n)) of
           (Some cle, Some forme) \<Rightarrow>
             (let s = soeurs p ordre gd i cle forme
              in case libres ordre s [] of
                   Some autres \<Rightarrow>
                     if 2 \<le> length s then
                       (case d_fuse_fanout d None (map (\<lambda>j. (0, textes ! j, pn_form (ordre ! j))) s) of
                          Some texte \<Rightarrow>
                            Some (gs @ [\<lparr>gr_members = s, gr_text = texte,
                                         gr_params = autres @ filter (\<lambda>q. qp_name q = ''uuids'') (pn_params n),
                                         gr_branches = Some s\<rparr>], mark s (length gs) gd)
                        | None \<Rightarrow> None)
                     else None
                 | None \<Rightarrow> None)
         | _ \<Rightarrow> None)"

text \<open>A node joins the group of its upstream when the dialect can say them together.\<close>

definition fuse_up ::
  "dialect \<Rightarrow> plan_options \<Rightarrow> plan \<Rightarrow> plan_node list \<Rightarrow> string list \<Rightarrow> group_state \<Rightarrow> nat \<Rightarrow> query_param list
     \<Rightarrow> plan_edge \<Rightarrow> (run_error, (nat \<times> string) option) result" where
  "fuse_up d opts p ordre textes st i ps e =
     (let (gs, gd) = st
      in try_then (ok_or RunPanic (pos_of ordre (e_from e))) (\<lambda>a.
         try_then (ok_or RunPanic (gd ! a)) (\<lambda>g.
         if length gs \<le> g then Err RunPanic
         else if \<not> po_split opts \<and> gr_branches (gs ! g) = None
           \<and> gr_members (gs ! g) \<noteq> [] \<and> last (gr_members (gs ! g)) = a
         then try_then (suivants_de p ordre (e_from e)) (\<lambda>sv.
           if length sv = 1 \<and> e_from e \<notin> set (p_outputs p) \<and> \<not> recouvrent ps (gr_params (gs ! g))
           then (case e_columns e of
                   [] \<Rightarrow> Err RunPanic
                 | c # _ \<Rightarrow>
                     Ok (map_option (\<lambda>t. (g, t)) (d_fuse d (gr_text (gs ! g)) (pn_form (ordre ! a)) c (textes ! i))))
           else Ok None)
         else Ok None)))"

definition place_node ::
  "dialect \<Rightarrow> plan_options \<Rightarrow> plan \<Rightarrow> plan_node list \<Rightarrow> string list \<Rightarrow> group_state \<Rightarrow> nat \<Rightarrow> (run_error, group_state \<times> nat) result" where
  "place_node d opts p ordre textes st i =
     (let n = ordre ! i; entree = input_of p (pn_id n); (gs, gd) = st;
          ps = (if entree = None then pn_params n else sans_uuids ordre i)
      in try_then (case entree of None \<Rightarrow> Ok None | Some e \<Rightarrow> fuse_up d opts p ordre textes st i ps e) (\<lambda>fondu.
         case fondu of
           Some (g, texte) \<Rightarrow>
             Ok ((gs[g := (gs ! g)\<lparr>gr_members := gr_members (gs ! g) @ [i], gr_text := texte,
                                   gr_params := gr_params (gs ! g) @ ps\<rparr>], gd[i := Some g]), g)
         | None \<Rightarrow>
             Ok ((gs @ [\<lparr>gr_members = [i], gr_text = textes ! i, gr_params = ps, gr_branches = None\<rparr>],
                  gd[i := Some (length gs)]), length gs)))"

text \<open>All the readers of a node, of one shape, join its group when the dialect can fan out.\<close>

definition branch_of :: "plan \<Rightarrow> plan_node list \<Rightarrow> string list \<Rightarrow> nat \<Rightarrow> (run_error, nat \<times> string \<times> form) result" where
  "branch_of p ordre textes j =
     (case input_of p (pn_id (ordre ! j)) of
        None \<Rightarrow> Err RunPanic
      | Some e \<Rightarrow> (case e_columns e of [] \<Rightarrow> Err RunPanic | c # _ \<Rightarrow> Ok (c, textes ! j, pn_form (ordre ! j))))"

definition under_fanout ::
  "dialect \<Rightarrow> bool \<Rightarrow> plan \<Rightarrow> plan_node list \<Rightarrow> string list \<Rightarrow> group_state \<Rightarrow> nat \<Rightarrow> nat \<Rightarrow> (run_error, group_state) result" where
  "under_fanout d eventails p ordre textes st i g =
     (let n = ordre ! i; (gs, gd) = st
      in try_then (suivants_de p ordre (pn_id n)) (\<lambda>sv.
         if \<not> eventails \<or> length sv < 2 \<or> pn_id n \<in> set (p_outputs p) then Ok st
         else let forme = form_shape (pn_form (ordre ! (sv ! 0)))
           in if forme = None \<or> list_ex (\<lambda>j. form_shape (pn_form (ordre ! j)) \<noteq> forme) sv then Ok st
              else (case libres ordre sv (gr_params (gs ! g)) of
                      None \<Rightarrow> Ok st
                    | Some autres \<Rightarrow>
                        try_then (traverse (branch_of p ordre textes) sv) (\<lambda>branches.
                        case d_fuse_fanout d (Some (gr_text (gs ! g), pn_form n)) branches of
                          None \<Rightarrow> Ok st
                        | Some texte \<Rightarrow>
                            Ok (gs[g := (gs ! g)\<lparr>gr_members := gr_members (gs ! g) @ sv, gr_text := texte,
                                                 gr_params := autres, gr_branches := Some sv\<rparr>],
                                mark sv g gd)))))"

definition fans_out :: "dialect \<Rightarrow> plan_options \<Rightarrow> bool" where
  "fans_out d opts =
     (\<not> po_split opts \<and> (case po_fanout opts of Some b \<Rightarrow> b | None \<Rightarrow> d_cap_fanout d))"

definition group_step ::
  "dialect \<Rightarrow> plan_options \<Rightarrow> plan \<Rightarrow> plan_node list \<Rightarrow> string list \<Rightarrow> group_state \<Rightarrow> nat \<Rightarrow> (run_error, group_state) result" where
  "group_step d opts p ordre textes st i =
     (if snd st ! i \<noteq> None then Ok st
      else (case (if fans_out d opts \<and> input_of p (pn_id (ordre ! i)) = None
                  then root_fanout d p ordre textes st i else None) of
              Some st' \<Rightarrow> Ok st'
            | None \<Rightarrow>
                try_then (place_node d opts p ordre textes st i) (\<lambda>r.
                under_fanout d (fans_out d opts) p ordre textes (fst r) i (snd r))))"

definition build_groups ::
  "dialect \<Rightarrow> plan_options \<Rightarrow> plan \<Rightarrow> plan_node list \<Rightarrow> string list \<Rightarrow> (run_error, group list) result" where
  "build_groups d opts p ordre textes =
     try_then (fold_try (group_step d opts p ordre textes) ([], replicate (length ordre) None) [0..<length ordre])
       (\<lambda>st. Ok (fst st))"

section \<open>Atomicity\<close>

definition charge :: "plan_node list \<Rightarrow> bool" where
  "charge ordre = list_ex (\<lambda>n. case pn_form n of FWrite (Load _ _) \<Rightarrow> True | _ \<Rightarrow> False) ordre"

definition atomicity :: "dialect \<Rightarrow> plan_options \<Rightarrow> plan_node list \<Rightarrow> group list \<Rightarrow> bool \<times> string option \<times> bool" where
  "atomicity d opts ordre gs =
     (if length gs \<le> 1 then (True, None, False)
      else if po_no_transaction opts
        then (False, Some ''several statements, and the caller asked for no transaction'', False)
      else if \<not> d_cap_transactions d
        then (False, Some ''several statements, and this dialect declares no transactions'', False)
      else if charge ordre
        then (False, Some ''several statements, and a bulk load (Write::Load) is not wrapped in a transaction'', False)
      else (True, None, True))"

section \<open>Execution\<close>

definition noms :: "plan_node list \<Rightarrow> group \<Rightarrow> string list" where
  "noms ordre g = map (\<lambda>i. pn_id (ordre ! i)) (gr_members g)"

definition rang :: "ir_value list \<Rightarrow> int" where
  "rang ligne = (case ligne of [] \<Rightarrow> -1 | v # _ \<Rightarrow> (case as_i64 v of Some k \<Rightarrow> k | None \<Rightarrow> -1))"

text \<open>The rows of a fan-out, gathered by the rank they carry first; a rank out of range is dropped.\<close>

definition par_branche :: "query_result \<Rightarrow> nat list \<Rightarrow> query_result list" where
  "par_branche r branches =
     map (\<lambda>k. \<lparr>qr_columns = drop 1 (qr_columns r), qr_rows = map tl (filter (\<lambda>l. rang l = int k) (qr_rows r))\<rparr>)
       [0..<length branches]"

record run_state =
  rs_lignes :: "(string, query_result) btree"
  rs_instructions :: nat
  rs_fused :: "string list list"

definition store_rows :: "plan_node list \<Rightarrow> group \<Rightarrow> query_result \<Rightarrow> (string, query_result) btree \<Rightarrow> (string, query_result) btree" where
  "store_rows ordre g r lignes =
     (case gr_branches g of
        None \<Rightarrow> bt_insert (pn_id (ordre ! last (gr_members g))) r lignes
      | Some branches \<Rightarrow>
          fold (\<lambda>(b, q) m. bt_insert (pn_id (ordre ! b)) q m) (zip branches (par_branche r branches)) lignes)"

text \<open>The uuids a group is fed with: none asked for, or the distinct values of its upstream.\<close>

definition fed_uuids :: "plan \<Rightarrow> plan_node list \<Rightarrow> group \<Rightarrow> (string, query_result) btree \<Rightarrow> (run_error, ir_value list option) result" where
  "fed_uuids p ordre g lignes =
     (case gr_members g of
        [] \<Rightarrow> Err RunPanic
      | m # _ \<Rightarrow>
          (case input_of p (pn_id (ordre ! m)) of
             None \<Rightarrow> Ok None
           | Some e \<Rightarrow>
               try_then (ok_or RunPanic (map_of lignes (e_from e))) (\<lambda>rows.
               case e_columns e of [] \<Rightarrow> Err RunPanic | c # _ \<Rightarrow> Ok (Some (distinct_column rows c)))))"

definition run_group ::
  "'w connection \<Rightarrow> bool \<Rightarrow> plan \<Rightarrow> plan_node list \<Rightarrow> group \<Rightarrow> run_state \<Rightarrow> 'w \<Rightarrow> (run_error, run_state) result \<times> 'w" where
  "run_group c env p ordre g rs w =
     (case fed_uuids p ordre g (rs_lignes rs) of
        Inl e \<Rightarrow> (Err e, w)
      | Inr fed \<Rightarrow>
          if fed = Some []
          then (Ok (rs\<lparr>rs_lignes := bt_insert (pn_id (ordre ! last (gr_members g))) default_result (rs_lignes rs)\<rparr>), w)
          else
            let ps = (case fed of
                            None \<Rightarrow> gr_params g
                          | Some us \<Rightarrow> gr_params g @ [\<lparr>qp_name = ''uuids'', qp_value = VList us\<rparr>])
            in (case c_execute_with_params c (gr_text g) ps w of
                 (Inr r, w1) \<Rightarrow>
                   (Ok (rs\<lparr>rs_lignes := store_rows ordre g r (rs_lignes rs),
                           rs_instructions := rs_instructions rs + 1, rs_fused := rs_fused rs @ [noms ordre g]\<rparr>), w1)
               | (Inl e, w1) \<Rightarrow>
                   if env then (case c_rollback c w1 of (rb, w2) \<Rightarrow> (Err (RunFailed (noms ordre g) e (is_ok rb)), w2))
                   else (Err (RunFailed (noms ordre g) e False), w1)))"

fun run_groups ::
  "'w connection \<Rightarrow> bool \<Rightarrow> plan \<Rightarrow> plan_node list \<Rightarrow> group list \<Rightarrow> run_state \<Rightarrow> 'w \<Rightarrow> (run_error, run_state) result \<times> 'w" where
  "run_groups c env p ordre [] rs w = (Ok rs, w)"
| "run_groups c env p ordre (g # gs) rs w =
     (case run_group c env p ordre g rs w of
        (Inl e, w1) \<Rightarrow> (Err e, w1)
      | (Inr rs1, w1) \<Rightarrow> run_groups c env p ordre gs rs1 w1)"

text \<open>Opening the transaction, and its snapshot when something is read.\<close>

definition open_transaction ::
  "dialect \<Rightarrow> 'w connection \<Rightarrow> plan_node list \<Rightarrow> 'w \<Rightarrow> (run_error, unit) result \<times> 'w" where
  "open_transaction d c ordre w =
     (case c_begin c w of
        (Inl e, w1) \<Rightarrow> (Err (RunFailed [pn_id (ordre ! 0)] (''begin: '' @ e) False), w1)
      | (Inr _, w1) \<Rightarrow>
          (case (if list_ex (\<lambda>n. \<not> is_write (pn_form n)) ordre then d_snapshot_read d else None) of
             None \<Rightarrow> (Ok (), w1)
           | Some instantane \<Rightarrow>
               (case c_execute c instantane w1 of
                  (Inr _, w2) \<Rightarrow> (Ok (), w2)
                | (Inl e, w2) \<Rightarrow>
                    (Err (RunFailed [pn_id (ordre ! 0)] (instantane @ '': '' @ e) True), snd (c_rollback c w2)))))"

definition close_transaction ::
  "'w connection \<Rightarrow> plan_node list \<Rightarrow> 'w \<Rightarrow> (run_error, unit) result \<times> 'w" where
  "close_transaction c ordre w =
     (case c_commit c w of
        (Inr _, w1) \<Rightarrow> (Ok (), w1)
      | (Inl e, w1) \<Rightarrow>
          (case c_rollback c w1 of
             (rb, w2) \<Rightarrow> (Err (RunFailed [pn_id (ordre ! (length ordre - 1))] (''commit: '' @ e) (is_ok rb)), w2)))"

text \<open>The rows of each output leave the table of rows for the report.\<close>

fun take_outputs :: "string list \<Rightarrow> (string, query_result) btree \<Rightarrow> (string, query_result) btree \<Rightarrow> (string, query_result) btree" where
  "take_outputs [] lignes outs = outs"
| "take_outputs (k # ks) lignes outs =
     take_outputs ks (bt_remove k lignes)
       (bt_insert k (case map_of lignes k of Some r \<Rightarrow> r | None \<Rightarrow> default_result) outs)"

definition run_checked ::
  "dialect \<Rightarrow> 'w connection \<Rightarrow> plan \<Rightarrow> plan_options \<Rightarrow> plan_node list \<Rightarrow> group list \<Rightarrow> 'w \<Rightarrow> (run_error, plan_report) result \<times> 'w" where
  "run_checked d c p opts ordre gs w =
     (case atomicity d opts ordre gs of
        (atomic, reason, env) \<Rightarrow>
          if po_require_atomic opts \<and> \<not> atomic
          then (Err (RunNotAtomic (case reason of Some r \<Rightarrow> r | None \<Rightarrow> [])), w)
          else (case (if env then open_transaction d c ordre w else (Ok (), w)) of
                  (Inl e, w1) \<Rightarrow> (Err e, w1)
                | (Inr _, w1) \<Rightarrow>
                    (case run_groups c env p ordre gs \<lparr>rs_lignes = [], rs_instructions = 0, rs_fused = []\<rparr> w1 of
                       (Inl e, w2) \<Rightarrow> (Err e, w2)
                     | (Inr rs, w2) \<Rightarrow>
                         (case (if env then close_transaction c ordre w2 else (Ok (), w2)) of
                            (Inl e, w3) \<Rightarrow> (Err e, w3)
                          | (Inr _, w3) \<Rightarrow>
                              (Ok \<lparr>pr_outputs = take_outputs (p_outputs p) (rs_lignes rs) [],
                                   pr_instructions = rs_instructions rs, pr_fused = rs_fused rs,
                                   pr_atomic = atomic, pr_atomic_reason = reason\<rparr>, w3)))))"

definition run_plan ::
  "dialect \<Rightarrow> 'w connection \<Rightarrow> plan \<Rightarrow> plan_options \<Rightarrow> 'w \<Rightarrow> (run_error, plan_report) result \<times> 'w" where
  "run_plan d c p opts w =
     (case plan_check p of
        Inl e \<Rightarrow> (Err (RunInvalid e), w)
      | Inr ordre \<Rightarrow>
          (case traverse (translate_node d) ordre of
             Inl e \<Rightarrow> (Err e, w)
           | Inr textes \<Rightarrow>
               (case build_groups d opts p ordre textes of
                  Inl e \<Rightarrow> (Err e, w)
                | Inr gs \<Rightarrow> run_checked d c p opts ordre gs w)))"


section \<open>What the check of the plan gives the runner\<close>

text \<open>The edges between positions of the order.\<close>

definition feeds :: "plan \<Rightarrow> plan_node list \<Rightarrow> nat \<Rightarrow> nat \<Rightarrow> bool" where
  "feeds p ordre a b \<longleftrightarrow> (\<exists>e \<in> set (p_edges p). e_from e = pn_id (ordre ! a) \<and> e_to e = pn_id (ordre ! b))"

definition ordered :: "plan \<Rightarrow> plan_node list \<Rightarrow> bool" where
  "ordered p ordre \<longleftrightarrow> distinct (map pn_id ordre) \<and> distinct (map e_to (p_edges p))
     \<and> (\<forall>e \<in> set (p_edges p). e_columns e \<noteq> [] \<and>
          (\<exists>a b. a < b \<and> b < length ordre \<and> e_from e = pn_id (ordre ! a) \<and> e_to e = pn_id (ordre ! b)))"

lemma id_inj:
  "ordered p ordre \<Longrightarrow> a < length ordre \<Longrightarrow> b < length ordre \<Longrightarrow> pn_id (ordre ! a) = pn_id (ordre ! b) \<longleftrightarrow> a = b"
  by (auto simp: ordered_def distinct_conv_nth)

lemma checked_ordered:
  assumes "plan_check p = Inr ordre"
  shows "ordered p ordre"
proof -
  note st = assms [unfolded plan_check_stages]
  have wf: "plan_wf p" and ord: "plan_order p = Inr ordre" using plan_check_wf [OF assms] by auto
  have topo: "topo_order (plan_ids p) (plan_links p) (map pn_id ordre)" using plan_order_correct [OF wf] ord by auto
  have ids: "plan_order_ids p = Inr (map pn_id ordre)" using ord by (simp add: plan_order_ids_def)
  have d: "distinct (map pn_id ordre)" using topo by (simp add: topo_order_def)
  have up: "\<exists>a b. a < b \<and> b < length ordre \<and> e_from e = pn_id (ordre ! a) \<and> e_to e = pn_id (ordre ! b)"
    if e: "e \<in> set (p_edges p)" for e
  proof -
    have "set ordre = set (p_nodes p)" using plan_order_correct [OF wf] ord by auto
    then have "e_from e \<in> set (map pn_id ordre)" "e_to e \<in> set (map pn_id ordre)"
      using edge_ok_ends [of p e] st e by (auto simp: plan_ids_def)
    then obtain a b where ab: "a < length ordre" "b < length ordre" "e_from e = pn_id (ordre ! a)" "e_to e = pn_id (ordre ! b)"
      by (auto simp: in_set_conv_nth)
    have "(e_from e, e_to e) \<in> (set (plan_links p))\<^sup>+" using e by (auto simp: plan_links_def)
    then have "position (map pn_id ordre) (e_from e) < position (map pn_id ordre) (e_to e)"
      using plan_sorter.sort_respects_paths [OF wf ids] by blast
    moreover have "position (map pn_id ordre) (pn_id (ordre ! k)) = k" if "k < length ordre" for k
      using position_nth [OF d, of k] that by simp
    ultimately show ?thesis using ab by auto
  qed
  have "e_columns e \<noteq> []" if "e \<in> set (p_edges p)" for e using st that by (auto simp: edge_ok_def)
  then show ?thesis using d st up by (simp add: ordered_def)
qed


lemma pos_of_nth: "ordered p ordre \<Longrightarrow> a < length ordre \<Longrightarrow> pos_of ordre (pn_id (ordre ! a)) = Some a"
proof -
  assume o: "ordered p ordre" and a: "a < length ordre"
  let ?z = "zip (map pn_id ordre) [0..<length ordre]"
  have "distinct (map fst (rev ?z))" using o by (simp add: ordered_def rev_map [symmetric])
  moreover have "(pn_id (ordre ! a), a) \<in> set (rev ?z)"
    using a by (auto simp: in_set_conv_nth intro!: exI [of _ a])
  ultimately show ?thesis by (simp add: pos_of_def)
qed

lemma input_of_Some:
  assumes "ordered p ordre"
  shows "input_of p x = Some e \<longleftrightarrow> e \<in> set (p_edges p) \<and> e_to e = x"
proof -
  have d: "distinct (map e_to (p_edges p))" using assms by (simp add: ordered_def)
  have "find (\<lambda>e. e_to e = x) es = Some e \<longleftrightarrow> e \<in> set es \<and> e_to e = x"
    if "distinct (map e_to es)" for es :: "plan_edge list"
    using that by (induction es) (auto split: if_splits)
  then show ?thesis using d by (simp add: input_of_def)
qed

lemma input_of_None: "input_of p x = None \<longleftrightarrow> (\<forall>e \<in> set (p_edges p). e_to e \<noteq> x)"
  by (simp add: input_of_def find_None_all)

lemma edge_ends:
  assumes "ordered p ordre" "e \<in> set (p_edges p)"
  obtains a b where "a < b" "b < length ordre" "e_from e = pn_id (ordre ! a)" "e_to e = pn_id (ordre ! b)"
    "feeds p ordre a b" "e_columns e \<noteq> []"
  using assms by (fastforce simp: ordered_def feeds_def)

lemma feeds_up:
  assumes o: "ordered p ordre" and f: "feeds p ordre a b" and ab: "a < length ordre" "b < length ordre"
  shows "a < b"
proof -
  obtain e where e: "e \<in> set (p_edges p)" "e_from e = pn_id (ordre ! a)" "e_to e = pn_id (ordre ! b)"
    using f by (auto simp: feeds_def)
  obtain a' b' where "a' < b'" "b' < length ordre" "e_from e = pn_id (ordre ! a')" "e_to e = pn_id (ordre ! b')"
    "feeds p ordre a' b'" "e_columns e \<noteq> []" by (rule edge_ends [OF o e(1)])
  then show ?thesis using id_inj [OF o] e ab by auto
qed

lemma feeds_unique:
  assumes o: "ordered p ordre" and f: "feeds p ordre a b" "feeds p ordre a' b" and ab: "a < length ordre" "a' < length ordre"
  shows "a = a'"
proof -
  obtain e e' where e: "e \<in> set (p_edges p)" "e_from e = pn_id (ordre ! a)" "e_to e = pn_id (ordre ! b)"
    and e': "e' \<in> set (p_edges p)" "e_from e' = pn_id (ordre ! a')" "e_to e' = pn_id (ordre ! b)"
    using f by (auto simp: feeds_def)
  have "input_of p (pn_id (ordre ! b)) = Some e" "input_of p (pn_id (ordre ! b)) = Some e'"
    using input_of_Some [OF o] e e' by blast+
  then have "pn_id (ordre ! a) = pn_id (ordre ! a')" using e(2) e'(2) by simp
  then show ?thesis using id_inj [OF o ab] by blast
qed

lemma fed_by:
  assumes o: "ordered p ordre" and b: "b < length ordre" and i: "input_of p (pn_id (ordre ! b)) = Some e"
  obtains a where "a < b" "e_from e = pn_id (ordre ! a)" "feeds p ordre a b" "e_columns e \<noteq> []"
    "pos_of ordre (e_from e) = Some a"
proof -
  have e: "e \<in> set (p_edges p)" "e_to e = pn_id (ordre ! b)" using i input_of_Some [OF o] by auto
  obtain a b' where ab: "a < b'" "b' < length ordre" "e_from e = pn_id (ordre ! a)" "e_to e = pn_id (ordre ! b')"
    "feeds p ordre a b'" "e_columns e \<noteq> []" by (rule edge_ends [OF o e(1)])
  have "b' = b" using ab e b id_inj [OF o, of b' b] by simp
  then show ?thesis using that [of a] ab pos_of_nth [OF o, of a] by simp
qed

lemma suivants_spec:
  assumes o: "ordered p ordre" and a: "a < length ordre"
  obtains sv where "suivants_de p ordre (pn_id (ordre ! a)) = Inr sv" "distinct sv"
    "set sv = {b. b < length ordre \<and> feeds p ordre a b}"
proof -
  let ?es = "filter (\<lambda>e. e_from e = pn_id (ordre ! a)) (p_edges p)"
  have to: "\<exists>b. pos_of ordre (e_to e) = Some b \<and> b < length ordre \<and> e_to e = pn_id (ordre ! b)" if e: "e \<in> set (p_edges p)" for e
  proof -
    obtain a' b where "a' < b" "b < length ordre" "e_from e = pn_id (ordre ! a')" "e_to e = pn_id (ordre ! b)"
      "feeds p ordre a' b" "e_columns e \<noteq> []" by (rule edge_ends [OF o e])
    then show ?thesis using pos_of_nth [OF o] by auto
  qed
  have run: "traverse (\<lambda>e. ok_or RunPanic (pos_of ordre (e_to e))) es = Inr (map (\<lambda>e. the (pos_of ordre (e_to e))) es)"
    if "set es \<subseteq> set (p_edges p)" for es
    using that by (induction es) (auto dest!: to)
  let ?sv = "map (\<lambda>e. the (pos_of ordre (e_to e))) ?es"
  have "inj_on (\<lambda>x. the (pos_of ordre x)) (e_to ` set (p_edges p))"
    by (rule inj_onI) (auto dest!: to)
  then have "distinct (map (\<lambda>x. the (pos_of ordre x)) (map e_to ?es))"
    using o unfolding distinct_map by (auto simp: ordered_def distinct_map inj_on_def dest!: to)
  then have d: "distinct ?sv" by (simp add: comp_def)
  have s: "set ?sv = {b. b < length ordre \<and> feeds p ordre a b}"
  proof
    show "set ?sv \<subseteq> {b. b < length ordre \<and> feeds p ordre a b}"
    proof
      fix b assume "b \<in> set ?sv"
      then obtain e where e: "e \<in> set (p_edges p)" "e_from e = pn_id (ordre ! a)" "b = the (pos_of ordre (e_to e))" by auto
      then show "b \<in> {b. b < length ordre \<and> feeds p ordre a b}" using to [OF e(1)] by (auto simp: feeds_def)
    qed
    show "{b. b < length ordre \<and> feeds p ordre a b} \<subseteq> set ?sv"
      using pos_of_nth [OF o] by (force simp: feeds_def)
  qed
  show ?thesis using that [of ?sv] run [of ?es] d s by (auto simp: suivants_de_def)
qed

section \<open>The groups share the nodes out\<close>

lemma length_mark [simp]: "length (mark js g gd) = length gd"
  unfolding mark_def by (induction js arbitrary: gd) simp_all

lemma nth_mark: "j < length gd \<Longrightarrow> mark js g gd ! j = (if j \<in> set js then Some g else gd ! j)"
  unfolding mark_def by (induction js arbitrary: gd) (auto simp: nth_list_update)

definition shared_out :: "nat \<Rightarrow> group_state \<Rightarrow> bool" where
  "shared_out n st \<longleftrightarrow> length (snd st) = n
     \<and> (\<forall>j < n. \<forall>g. snd st ! j = Some g \<longleftrightarrow> g < length (fst st) \<and> j \<in> set (gr_members (fst st ! g)))
     \<and> (\<forall>gr \<in> set (fst st). gr_members gr \<noteq> [] \<and> distinct (gr_members gr) \<and> set (gr_members gr) \<subseteq> {..<n})"

lemma shared_out_new:
  assumes s: "shared_out n (gs, gd)" and js: "js \<noteq> []" "distinct js" "\<forall>j \<in> set js. j < n \<and> gd ! j = None"
    and gr: "gr_members gr = js"
  shows "shared_out n (gs @ [gr], mark js (length gs) gd)"
  using assms by (auto simp: shared_out_def nth_mark nth_append less_Suc_eq)

lemma shared_out_join:
  assumes s: "shared_out n (gs, gd)" and js: "distinct js" "\<forall>j \<in> set js. j < n \<and> gd ! j = None"
    and g: "g < length gs" and gr: "gr_members gr = gr_members (gs ! g) @ js"
  shows "shared_out n (gs[g := gr], mark js g gd)"
proof -
  have mem: "gs ! g \<in> set gs" using g by simp
  have fresh: "set (gr_members (gs ! g)) \<inter> set js = {}"
    using s js g by (force simp: shared_out_def)
  have "gr_members x \<noteq> [] \<and> distinct (gr_members x) \<and> set (gr_members x) \<subseteq> {..<n}" if "x \<in> set (gs[g := gr])" for x
  proof (cases "x = gr")
    case True
    then show ?thesis using s js mem fresh gr by (auto simp: shared_out_def)
  next
    case False
    then have "x \<in> set gs" using set_update_subset_insert [of gs g gr] that by auto
    then show ?thesis using s by (simp add: shared_out_def)
  qed
  moreover have "mark js g gd ! j = Some h \<longleftrightarrow> h < length (gs[g := gr]) \<and> j \<in> set (gr_members (gs[g := gr] ! h))"
    if "j < n" for j h
    using s js g gr that by (auto simp: shared_out_def nth_mark nth_list_update)
  ultimately show ?thesis using s by (simp add: shared_out_def)
qed


definition grouping_inv :: "plan \<Rightarrow> plan_node list \<Rightarrow> nat \<Rightarrow> group_state \<Rightarrow> bool" where
  "grouping_inv p ordre i st \<longleftrightarrow> shared_out (length ordre) st
     \<and> (\<forall>j < length ordre. j < i \<longrightarrow> snd st ! j \<noteq> None)
     \<and> (\<forall>j < length ordre. i \<le> j \<and> snd st ! j \<noteq> None \<longrightarrow> (\<forall>a < length ordre. feeds p ordre a j \<longrightarrow> a < i))"

text \<open>What placing a node alone does: a group of its own, or the last of the group of its only upstream.\<close>

definition own_group :: "nat \<Rightarrow> group_state \<Rightarrow> group_state \<Rightarrow> nat \<Rightarrow> bool" where
  "own_group i st st1 g \<longleftrightarrow>
     (\<exists>gr. gr_members gr = [i] \<and> gr_branches gr = None \<and> g = length (fst st) \<and> st1 = (fst st @ [gr], mark [i] g (snd st)))"

definition joined_group :: "plan \<Rightarrow> plan_node list \<Rightarrow> nat \<Rightarrow> group_state \<Rightarrow> group_state \<Rightarrow> nat \<Rightarrow> bool" where
  "joined_group p ordre i st st1 g \<longleftrightarrow>
     (\<exists>gr. g < length (fst st) \<and> gr_branches (fst st ! g) = None \<and> gr_branches gr = None
        \<and> gr_members gr = gr_members (fst st ! g) @ [i]
        \<and> (\<forall>b < length ordre. feeds p ordre (last (gr_members (fst st ! g))) b \<longrightarrow> b = i)
        \<and> st1 = ((fst st)[g := gr], mark [i] g (snd st)))"

lemma fuse_up_ok:
  assumes o: "ordered p ordre" and inv: "grouping_inv p ordre i st" and i: "i < length ordre"
    and e: "input_of p (pn_id (ordre ! i)) = Some e"
  shows "\<exists>fondu. fuse_up d opts p ordre textes st i ps e = Inr fondu
    \<and> (\<forall>g t. fondu = Some (g, t) \<longrightarrow> g < length (fst st) \<and> gr_branches (fst st ! g) = None
        \<and> (\<forall>b < length ordre. feeds p ordre (last (gr_members (fst st ! g))) b \<longrightarrow> b = i))"
proof -
  obtain gs gd where st: "st = (gs, gd)" by (cases st)
  obtain a where a: "a < i" "e_from e = pn_id (ordre ! a)" "feeds p ordre a i" "e_columns e \<noteq> []" "pos_of ordre (e_from e) = Some a"
    by (rule fed_by [OF o i e])
  have "snd st ! a \<noteq> None" using inv a(1) i unfolding grouping_inv_def by force
  then obtain g where g: "gd ! a = Some g" by (auto simp: st)
  then have len: "g < length gs" using inv a(1) i by (simp add: grouping_inv_def shared_out_def st)
  have al: "a < length ordre" using a(1) i by simp
  obtain sv where sv: "suivants_de p ordre (pn_id (ordre ! a)) = Inr sv" "distinct sv"
    "set sv = {b. b < length ordre \<and> feeds p ordre a b}" by (rule suivants_spec [OF o al])
  have only: "b = i" if l: "length sv = 1" and b: "b < length ordre" "feeds p ordre a b" for b
  proof -
    obtain x where "sv = [x]" using l by (cases sv) auto
    moreover have "i \<in> set sv" "b \<in> set sv" using b a(3) i by (simp_all add: sv(3))
    ultimately show ?thesis by simp
  qed
  obtain c cs where c: "e_columns e = c # cs" using a(4) by (cases "e_columns e") auto
  show ?thesis
    using len g a(5) sv(1) only by (auto simp: fuse_up_def st c a(2) Let_def)
qed

lemma place_node_ok:
  assumes o: "ordered p ordre" and inv: "grouping_inv p ordre i st" and i: "i < length ordre" and new: "snd st ! i = None"
  shows "\<exists>st1 g. place_node d opts p ordre textes st i = Inr (st1, g) \<and> (own_group i st st1 g \<or> joined_group p ordre i st st1 g)"
proof -
  obtain gs gd where st: "st = (gs, gd)" by (cases st)
  have mk: "mark [i] g gd = gd[i := Some g]" for g by (simp add: mark_def)
  show ?thesis
  proof (cases "input_of p (pn_id (ordre ! i))")
    case None
    then show ?thesis by (auto simp: place_node_def own_group_def st mk Let_def)
  next
    case (Some e)
    obtain fondu where f: "fuse_up d opts p ordre textes st i (sans_uuids ordre i) e = Inr fondu"
      and j: "\<And>g t. fondu = Some (g, t) \<Longrightarrow> g < length gs \<and> gr_branches (gs ! g) = None
        \<and> (\<forall>b < length ordre. feeds p ordre (last (gr_members (gs ! g))) b \<longrightarrow> b = i)"
      using fuse_up_ok [OF o inv i Some] unfolding st fst_conv by metis
    show ?thesis
    proof (cases fondu)
      case None
      then show ?thesis using Some f by (auto simp: place_node_def own_group_def st mk Let_def)
    next
      case fon: (Some r)
      obtain g t where r: "fondu = Some (g, t)" using fon by (cases r) auto
      let ?gr = "(gs ! g)\<lparr>gr_members := gr_members (gs ! g) @ [i], gr_text := t,
        gr_params := gr_params (gs ! g) @ sans_uuids ordre i\<rparr>"
      have "place_node d opts p ordre textes st i = Inr ((gs[g := ?gr], mark [i] g gd), g)"
        using Some f r by (simp add: place_node_def st mk Let_def)
      moreover have "joined_group p ordre i st (gs[g := ?gr], mark [i] g gd) g"
        unfolding joined_group_def by (rule exI [of _ ?gr]) (use j [OF r] in \<open>simp add: st\<close>)
      ultimately show ?thesis by blast
    qed
  qed
qed

lemma placed_shared:
  assumes s: "shared_out n st" and i: "i < n" "snd st ! i = None" and pl: "own_group i st st1 g \<or> joined_group p ordre i st st1 g"
  shows "shared_out n st1 \<and> g < length (fst st1) \<and> snd st1 = mark [i] g (snd st)"
proof -
  have s': "shared_out n (fst st, snd st)" using s by simp
  from pl show ?thesis
  proof
    assume "own_group i st st1 g"
    then show ?thesis using shared_out_new [OF s', of "[i]"] i by (auto simp: own_group_def)
  next
    assume "joined_group p ordre i st st1 g"
    then show ?thesis using shared_out_join [OF s', of "[i]"] i by (auto simp: joined_group_def)
  qed
qed

lemma branches_ok:
  assumes o: "ordered p ordre" and sv: "\<forall>j \<in> set sv. j < length ordre \<and> feeds p ordre a j"
  shows "\<exists>bs. traverse (branch_of p ordre textes) sv = Inr bs"
proof -
  have "is_ok (branch_of p ordre textes j)" if "j \<in> set sv" for j
  proof -
    have "feeds p ordre a j" using sv that by blast
    then obtain e where e: "e \<in> set (p_edges p)" "e_to e = pn_id (ordre ! j)" by (auto simp: feeds_def)
    then have "input_of p (pn_id (ordre ! j)) = Some e" using input_of_Some [OF o] by blast
    moreover have "e_columns e \<noteq> []" using o e(1) by (simp add: ordered_def)
    ultimately show ?thesis by (cases "e_columns e") (simp_all add: branch_of_def)
  qed
  then have "is_ok (traverse (branch_of p ordre textes) sv)" by (simp add: traverse_is_ok)
  then show ?thesis by (simp add: is_ok_iff)
qed

text \<open>A fan-out under a node leaves the state alone or adds all the readers of the node to its group.\<close>

lemma under_fanout_ok:
  assumes o: "ordered p ordre" and i: "i < length ordre"
  shows "\<exists>st2. under_fanout d ev p ordre textes st i g = Inr st2 \<and>
    (st2 = st \<or> ev \<and> (\<exists>sv gr. distinct sv \<and> set sv = {b. b < length ordre \<and> feeds p ordre i b}
        \<and> gr_members gr = gr_members (fst st ! g) @ sv \<and> st2 = ((fst st)[g := gr], mark sv g (snd st))))"
proof -
  obtain gs gd where st: "st = (gs, gd)" by (cases st)
  obtain sv where sv: "suivants_de p ordre (pn_id (ordre ! i)) = Inr sv" "distinct sv"
    "set sv = {b. b < length ordre \<and> feeds p ordre i b}" by (rule suivants_spec [OF o i])
  have "\<forall>j \<in> set sv. j < length ordre \<and> feeds p ordre i j" by (simp add: sv(3))
  then obtain bs where bs: "traverse (branch_of p ordre textes) sv = Inr bs" using branches_ok [OF o] by blast
  define gr where "gr autres texte = (gs ! g)\<lparr>gr_members := gr_members (gs ! g) @ sv, gr_text := texte,
      gr_params := autres, gr_branches := Some sv\<rparr>" for autres texte
  have "\<exists>st2. under_fanout d ev p ordre textes st i g = Inr st2 \<and>
      (st2 = st \<or> ev \<and> (\<exists>autres texte. st2 = (gs[g := gr autres texte], mark sv g gd)))"
    unfolding under_fanout_def st Let_def sv(1) bs gr_def
    by (simp add: sv(1) bs split: option.splits) blast
  moreover have "gr_members (gr autres texte) = gr_members (gs ! g) @ sv" for autres texte by (simp add: gr_def)
  ultimately show ?thesis using sv(2,3) unfolding st fst_conv snd_conv by blast
qed


lemma root_fanout_ok:
  assumes r: "root_fanout d p ordre textes st i = Some st'" and i: "i < length ordre" "snd st ! i = None"
    and no: "input_of p (pn_id (ordre ! i)) = None"
  shows "\<exists>js gr. distinct js \<and> i \<in> set js
    \<and> (\<forall>j \<in> set js. j < length ordre \<and> snd st ! j = None \<and> input_of p (pn_id (ordre ! j)) = None)
    \<and> gr_members gr = js \<and> st' = (fst st @ [gr], mark js (length (fst st)) (snd st))"
proof -
  obtain gs gd where st: "st = (gs, gd)" by (cases st)
  obtain cle forme where cf: "uuids_of (pn_params (ordre ! i)) = Some cle" "form_shape (pn_form (ordre ! i)) = Some forme"
    using r by (auto simp: root_fanout_def st Let_def split: option.splits)
  let ?js = "soeurs p ordre gd i cle forme"
  obtain autres texte where st': "st' = (gs @ [\<lparr>gr_members = ?js, gr_text = texte,
      gr_params = autres @ filter (\<lambda>q. qp_name q = ''uuids'') (pn_params (ordre ! i)), gr_branches = Some ?js\<rparr>], mark ?js (length gs) gd)"
    using r cf by (auto simp: root_fanout_def st Let_def split: option.splits if_splits)
  have "distinct ?js" by (simp add: soeurs_def)
  moreover have "i \<in> set ?js" using i no cf by (simp add: soeurs_def st)
  moreover have "\<forall>j \<in> set ?js. j < length ordre \<and> gd ! j = None \<and> input_of p (pn_id (ordre ! j)) = None"
    by (auto simp: soeurs_def)
  ultimately show ?thesis unfolding st fst_conv snd_conv st' by (intro exI [of _ ?js]) (fastforce intro: exI)
qed

lemma grouping_step:
  assumes o: "ordered p ordre" and inv: "grouping_inv p ordre i st" and i: "i < length ordre"
  shows "\<exists>st'. group_step d opts p ordre textes st i = Inr st' \<and> grouping_inv p ordre (Suc i) st'"
proof -
  let ?n = "length ordre"
  note sh = inv [unfolded grouping_inv_def, THEN conjunct1]
  have lg: "length (snd st) = ?n" using sh by (simp add: shared_out_def)
  have past: "snd st ! j \<noteq> None" if "j < ?n" "j < i" for j using inv that unfolding grouping_inv_def by blast
  have ahead: "a < i" if "j < ?n" "i \<le> j" "snd st ! j \<noteq> None" "a < ?n" "feeds p ordre a j" for a j
    using inv that unfolding grouping_inv_def by blast
  show ?thesis
  proof (cases "snd st ! i = None")
    case False
    have "grouping_inv p ordre (Suc i) st"
      unfolding grouping_inv_def using sh past ahead False by (metis Suc_leD less_Suc_eq less_SucI)
    then show ?thesis using False by (simp add: group_step_def)
  next
    case new: True
    let ?root = "if fans_out d opts \<and> input_of p (pn_id (ordre ! i)) = None then root_fanout d p ordre textes st i else None"
    show ?thesis
    proof (cases ?root)
      case (Some st')
      then have "root_fanout d p ordre textes st i = Some st'" "input_of p (pn_id (ordre ! i)) = None"
        by (auto split: if_splits)
      from root_fanout_ok [OF this(1) i new this(2)] obtain js gr where
        js: "distinct js" "i \<in> set js" "\<forall>j \<in> set js. j < ?n \<and> snd st ! j = None \<and> input_of p (pn_id (ordre ! j)) = None"
        and gr: "gr_members gr = js" and st': "st' = (fst st @ [gr], mark js (length (fst st)) (snd st))" by blast
      have "shared_out ?n st'" unfolding st' using sh js gr by (intro shared_out_new) auto
      moreover have "a < Suc i" if "j < ?n" "Suc i \<le> j" "snd st' ! j \<noteq> None" "a < ?n" "feeds p ordre a j" for a j
      proof (cases "j \<in> set js")
        case True
        then have "input_of p (pn_id (ordre ! j)) = None" using js(3) by blast
        then show ?thesis using that(5) by (auto simp: input_of_None feeds_def)
      next
        case False
        then have "snd st ! j \<noteq> None" using that lg by (simp add: st' nth_mark)
        then show ?thesis using ahead [of j a] that by simp
      qed
      moreover have "snd st' ! j \<noteq> None" if "j < ?n" "j < Suc i" for j
        using that past [of j] js(2) lg by (auto simp: st' nth_mark less_Suc_eq)
      ultimately have "grouping_inv p ordre (Suc i) st'" unfolding grouping_inv_def by blast
      moreover have "group_step d opts p ordre textes st i = Inr st'" using new Some by (simp add: group_step_def)
      ultimately show ?thesis by blast
    next
      case None
      obtain st1 g where pl: "place_node d opts p ordre textes st i = Inr (st1, g)"
        and how: "own_group i st st1 g \<or> joined_group p ordre i st st1 g"
        using place_node_ok [OF o inv i new] by blast
      note s1 = placed_shared [OF sh i new how]
      have at1: "snd st1 ! j = (if j = i then Some g else snd st ! j)" if "j < ?n" for j
        using s1 that lg by (simp add: nth_mark)
      have inv1: "grouping_inv p ordre (Suc i) st1"
        unfolding grouping_inv_def using s1 past ahead at1 by (metis Suc_leD less_Suc_eq less_SucI not_less_eq_eq option.distinct(1))
      from under_fanout_ok [OF o i, of d "fans_out d opts" textes st1 g] obtain st2 where
        un: "under_fanout d (fans_out d opts) p ordre textes st1 i g = Inr st2"
        and c2: "st2 = st1 \<or> (\<exists>sv gr. distinct sv \<and> set sv = {b. b < ?n \<and> feeds p ordre i b}
          \<and> gr_members gr = gr_members (fst st1 ! g) @ sv \<and> st2 = ((fst st1)[g := gr], mark sv g (snd st1)))" by blast
      have "group_step d opts p ordre textes st i = Inr st2" using new None pl un by (simp add: group_step_def)
      moreover from c2 have "grouping_inv p ordre (Suc i) st2"
      proof
        assume "\<exists>sv gr. distinct sv \<and> set sv = {b. b < ?n \<and> feeds p ordre i b}
          \<and> gr_members gr = gr_members (fst st1 ! g) @ sv \<and> st2 = ((fst st1)[g := gr], mark sv g (snd st1))"
        then obtain sv gr where sv: "distinct sv" "set sv = {b. b < ?n \<and> feeds p ordre i b}"
          and gr: "gr_members gr = gr_members (fst st1 ! g) @ sv" and st2: "st2 = ((fst st1)[g := gr], mark sv g (snd st1))" by blast
        have free: "j < ?n \<and> snd st1 ! j = None" if "j \<in> set sv" for j
          using that sv(2) ahead [of j i] feeds_up [OF o _ i, of j] i at1 [of j] by force
        have "shared_out ?n (fst st1, snd st1)" unfolding prod.collapse using s1 by blast
        then have "shared_out ?n st2" unfolding st2 using s1 sv(1) free gr by (intro shared_out_join) blast+
        moreover have "snd st2 ! j = (if j \<in> set sv then Some g else snd st1 ! j)" if "j < ?n" for j
        proof -
          have "length (snd st1) = ?n" using s1 lg by simp
          then show ?thesis using that by (simp add: st2 nth_mark)
        qed
        moreover have "a < Suc i" if "j \<in> set sv" "a < ?n" "feeds p ordre a j" for a j
          using feeds_unique [OF o that(3), of i] that sv(2) i by simp
        ultimately show ?thesis using inv1 unfolding grouping_inv_def by (metis option.distinct(1))
      qed (use inv1 in simp)
      ultimately show ?thesis by blast
    qed
  qed
qed


lemma grouping_run:
  assumes o: "ordered p ordre"
  shows "k \<le> length ordre \<Longrightarrow>
    \<exists>st. fold_try (group_step d opts p ordre textes) ([], replicate (length ordre) None) [0..<k] = Inr st \<and> grouping_inv p ordre k st"
proof (induction k)
  case 0
  show ?case by (simp add: grouping_inv_def shared_out_def)
next
  case (Suc k)
  then obtain st where st: "fold_try (group_step d opts p ordre textes) ([], replicate (length ordre) None) [0..<k] = Inr st"
    "grouping_inv p ordre k st" by auto
  have "k < length ordre" using Suc.prems by simp
  then obtain st' where "group_step d opts p ordre textes st k = Inr st'" "grouping_inv p ordre (Suc k) st'"
    using grouping_step [OF o st(2)] by blast
  then show ?case using st(1) by (simp add: fold_try_append)
qed

text \<open>Each node in one group.\<close>

definition partition_of :: "nat \<Rightarrow> group list \<Rightarrow> bool" where
  "partition_of n gs \<longleftrightarrow> (\<forall>gr \<in> set gs. gr_members gr \<noteq> []) \<and> distinct (concat (map gr_members gs))
     \<and> set (concat (map gr_members gs)) = {..<n}"

lemma shared_out_partition:
  assumes s: "shared_out n (gs, gd)" and all: "\<forall>j < n. gd ! j \<noteq> None"
  shows "partition_of n gs"
proof -
  have wf: "\<forall>gr \<in> set gs. gr_members gr \<noteq> [] \<and> distinct (gr_members gr) \<and> set (gr_members gr) \<subseteq> {..<n}"
    using s by (simp add: shared_out_def)
  have at: "gd ! j = Some g" if "g < length gs" "j \<in> set (gr_members (gs ! g))" for g j
  proof -
    have "j < n" using wf nth_mem [OF that(1)] that(2) by blast
    then show ?thesis using s that by (simp add: shared_out_def)
  qed
  have disj: "g = h" if "g < length gs" "h < length gs" "j \<in> set (gr_members (gs ! g))" "j \<in> set (gr_members (gs ! h))" for g h j
    using at [OF that(1,3)] at [OF that(2,4)] by simp
  have "distinct (concat (map gr_members gs))"
  proof (rule distinct_concat)
    show "distinct (map gr_members gs)"
    proof (unfold distinct_conv_nth, intro allI impI)
      fix g h assume gh: "g < length (map gr_members gs)" "h < length (map gr_members gs)" "g \<noteq> h"
      then have "gr_members (gs ! g) \<noteq> []" using wf by simp
      then obtain j where "j \<in> set (gr_members (gs ! g))" by (meson list.set_sel(1))
      then show "map gr_members gs ! g \<noteq> map gr_members gs ! h" using disj [of g h j] gh by auto
    qed
    show "distinct ys" if "ys \<in> set (map gr_members gs)" for ys using that wf by auto
    show "set ys \<inter> set zs = {}" if "ys \<in> set (map gr_members gs)" "zs \<in> set (map gr_members gs)" "ys \<noteq> zs" for ys zs
      using that disj by (auto simp: in_set_conv_nth) (metis in_set_conv_nth)
  qed
  moreover have "set (concat (map gr_members gs)) = {..<n}"
  proof
    show "set (concat (map gr_members gs)) \<subseteq> {..<n}" using wf by auto
    show "{..<n} \<subseteq> set (concat (map gr_members gs))"
    proof
      fix j assume "j \<in> {..<n}"
      then obtain g where "gd ! j = Some g" "j < n" using all by auto
      then have "g < length gs" "j \<in> set (gr_members (gs ! g))" using s by (auto simp: shared_out_def)
      then show "j \<in> set (concat (map gr_members gs))" by (auto intro!: bexI [of _ "gs ! g"])
    qed
  qed
  ultimately show ?thesis using wf by (simp add: partition_of_def)
qed

lemma groups_built:
  assumes "ordered p ordre"
  shows "\<exists>gs gd. fold_try (group_step d opts p ordre textes) ([], replicate (length ordre) None) [0..<length ordre] = Inr (gs, gd)
    \<and> build_groups d opts p ordre textes = Inr gs \<and> partition_of (length ordre) gs"
proof -
  obtain gs gd where run: "fold_try (group_step d opts p ordre textes) ([], replicate (length ordre) None) [0..<length ordre] = Inr (gs, gd)"
    and inv: "grouping_inv p ordre (length ordre) (gs, gd)"
    using grouping_run [OF assms, of "length ordre" d opts textes] by auto
  have "partition_of (length ordre) gs"
    using inv unfolding grouping_inv_def by (intro shared_out_partition [of _ gs gd]) auto
  then show ?thesis using run by (auto simp: build_groups_def)
qed

section \<open>Without fan-outs, a group is a chain\<close>

definition chain_inv :: "plan \<Rightarrow> plan_node list \<Rightarrow> nat \<Rightarrow> group list \<Rightarrow> bool" where
  "chain_inv p ordre i gs \<longleftrightarrow> sorted_wrt (<) (map (hd \<circ> gr_members) gs)
     \<and> (\<forall>gr \<in> set gs. gr_members gr \<noteq> [] \<and> gr_branches gr = None \<and> hd (gr_members gr) < i
          \<and> (\<forall>j \<in> set (gr_members gr). hd (gr_members gr) \<le> j)
          \<and> (\<forall>k b. Suc k < length (gr_members gr) \<and> b < length ordre \<and> feeds p ordre (gr_members gr ! k) b
                \<longrightarrow> b = gr_members gr ! Suc k))"

lemma chain_step:
  assumes o: "ordered p ordre" and inv: "grouping_inv p ordre i st" and i: "i < length ordre"
    and ch: "chain_inv p ordre i (fst st)" and off: "\<not> fans_out d opts"
    and run: "group_step d opts p ordre textes st i = Inr st'"
  shows "chain_inv p ordre (Suc i) (fst st')"
proof (cases "snd st ! i = None")
  case False
  then show ?thesis using run ch by (auto simp: group_step_def chain_inv_def less_SucI)
next
  case True
  obtain st1 g where pl: "place_node d opts p ordre textes st i = Inr (st1, g)"
    and how: "own_group i st st1 g \<or> joined_group p ordre i st st1 g" using place_node_ok [OF o inv i True] by blast
  have st': "st' = st1" using run True off pl under_fanout_ok [OF o i, of d False textes st1 g] by (auto simp: group_step_def)
  from how show ?thesis
  proof
    assume "own_group i st st1 g"
    then obtain gr where gr: "gr_members gr = [i]" "gr_branches gr = None" "fst st1 = fst st @ [gr]" by (auto simp: own_group_def)
    then show ?thesis using ch unfolding st' chain_inv_def by (auto simp: sorted_wrt_append less_SucI)
  next
    assume "joined_group p ordre i st st1 g"
    then obtain gr where g: "g < length (fst st)" and gr: "gr_branches gr = None" "gr_members gr = gr_members (fst st ! g) @ [i]"
      and only: "\<forall>b < length ordre. feeds p ordre (last (gr_members (fst st ! g))) b \<longrightarrow> b = i"
      and st1: "fst st1 = (fst st)[g := gr]" by (auto simp: joined_group_def)
    let ?old = "fst st ! g"
    have mem: "?old \<in> set (fst st)" using g by simp
    then have old: "gr_members ?old \<noteq> []" "hd (gr_members ?old) < i" "\<forall>j \<in> set (gr_members ?old). hd (gr_members ?old) \<le> j"
      "\<forall>k b. Suc k < length (gr_members ?old) \<and> b < length ordre \<and> feeds p ordre (gr_members ?old ! k) b \<longrightarrow> b = gr_members ?old ! Suc k"
      using ch unfolding chain_inv_def by blast+
    have "map (hd \<circ> gr_members) ((fst st)[g := gr]) = map (hd \<circ> gr_members) (fst st)"
      using g gr(2) old(1) by (simp add: map_update list_update_same_conv)
    moreover have "gr_members gr \<noteq> [] \<and> gr_branches gr = None \<and> hd (gr_members gr) < Suc i
        \<and> (\<forall>j \<in> set (gr_members gr). hd (gr_members gr) \<le> j)
        \<and> (\<forall>k b. Suc k < length (gr_members gr) \<and> b < length ordre \<and> feeds p ordre (gr_members gr ! k) b
              \<longrightarrow> b = gr_members gr ! Suc k)"
    proof (intro conjI allI impI)
      fix k b assume kb: "Suc k < length (gr_members gr) \<and> b < length ordre \<and> feeds p ordre (gr_members gr ! k) b"
      show "b = gr_members gr ! Suc k"
      proof (cases "Suc k < length (gr_members ?old)")
        case True
        then show ?thesis using kb old(4) by (auto simp: gr(2) nth_append)
      next
        case False
        then have k: "Suc k = length (gr_members ?old)" using kb by (simp add: gr(2))
        then have "k = length (gr_members ?old) - 1" by simp
        then have "gr_members gr ! k = last (gr_members ?old)" using old(1) by (simp add: gr(2) nth_append last_conv_nth)
        then show ?thesis using kb only k by (simp add: gr(2) nth_append)
      qed
    qed (use gr old in auto)
    moreover have "gr_members x \<noteq> [] \<and> gr_branches x = None \<and> hd (gr_members x) < Suc i
        \<and> (\<forall>j \<in> set (gr_members x). hd (gr_members x) \<le> j)
        \<and> (\<forall>k b. Suc k < length (gr_members x) \<and> b < length ordre \<and> feeds p ordre (gr_members x ! k) b
              \<longrightarrow> b = gr_members x ! Suc k)" if "x \<in> set (fst st)" for x
      using ch that less_SucI unfolding chain_inv_def by blast
    moreover have "sorted_wrt (<) (map (hd \<circ> gr_members) (fst st))" using ch unfolding chain_inv_def by blast
    moreover have "x = gr \<or> x \<in> set (fst st)" if "x \<in> set ((fst st)[g := gr])" for x
      using set_update_subset_insert [of "fst st" g gr] that by blast
    ultimately show ?thesis unfolding st' st1 chain_inv_def by metis
  qed
qed

lemma chain_run:
  assumes o: "ordered p ordre" and off: "\<not> fans_out d opts"
  shows "k \<le> length ordre \<Longrightarrow>
    fold_try (group_step d opts p ordre textes) ([], replicate (length ordre) None) [0..<k] = Inr st \<Longrightarrow> chain_inv p ordre k (fst st)"
proof (induction k arbitrary: st)
  case 0
  then show ?case by (auto simp: chain_inv_def)
next
  case (Suc k)
  let ?s0 = "([], replicate (length ordre) None)"
  obtain s1 where s1: "fold_try (group_step d opts p ordre textes) ?s0 [0..<k] = Inr s1" "grouping_inv p ordre k s1"
    using grouping_run [OF o, of k d opts textes] Suc.prems(1) by auto
  then have "group_step d opts p ordre textes s1 k = Inr st" using Suc.prems(2) by (auto simp: fold_try_append)
  then show ?case using chain_step [OF o s1(2) _ Suc.IH [OF _ s1(1)] off] Suc.prems(1) by simp
qed


section \<open>No panic without fan-outs\<close>

lemma last_of_earlier_group:
  assumes part: "partition_of (length ordre) (done @ gr # rest)" and ch: "chain_inv p ordre n (done @ gr # rest)"
    and f: "feeds p ordre a (hd (gr_members gr))" "a < hd (gr_members gr)" "a < length ordre"
  shows "\<exists>x \<in> set done. last (gr_members x) = a"
proof -
  let ?gs = "done @ gr # rest" and ?h = "hd (gr_members gr)"
  have ne: "gr_members gr \<noteq> []" using part by (simp add: partition_of_def)
  then have h: "?h \<in> set (gr_members gr)" by simp
  have "a \<in> set (concat (map gr_members ?gs))" using part f(3) by (simp add: partition_of_def)
  then obtain x where x: "x \<in> set ?gs" "a \<in> set (gr_members x)" by auto
  have "hd (gr_members x) \<le> a" using ch x unfolding chain_inv_def by blast
  then have less: "hd (gr_members x) < ?h" using f(2) by simp
  have srt: "sorted_wrt (<) (map (hd \<circ> gr_members) ?gs)" using ch unfolding chain_inv_def by blast
  then have "\<forall>y \<in> set rest. ?h < hd (gr_members y)" by (simp add: sorted_wrt_append)
  then have xd: "x \<in> set done" using x(1) less by auto
  have d: "distinct (concat (map gr_members ?gs))" using part unfolding partition_of_def by blast
  have "?h \<notin> set (gr_members x)" using d xd h by auto
  moreover obtain k where k: "k < length (gr_members x)" "gr_members x ! k = a" using x(2) by (auto simp: in_set_conv_nth)
  have "?h < length ordre"
  proof -
    have "?h \<in> set (concat (map gr_members ?gs))" using h by auto
    then show ?thesis using part unfolding partition_of_def by blast
  qed
  ultimately have "\<not> Suc k < length (gr_members x)" using ch x(1) f(1) k unfolding chain_inv_def by (metis nth_mem)
  then have "k = length (gr_members x) - 1" using k(1) by simp
  moreover have "gr_members x \<noteq> []" using k(1) by auto
  ultimately have "last (gr_members x) = a" using k(2) by (simp add: last_conv_nth)
  then show ?thesis using xd by blast
qed

lemma map_of_store:
  "gr_branches g = None \<Longrightarrow> map_of (store_rows ordre g r m) = (map_of m)(pn_id (ordre ! last (gr_members g)) \<mapsto> r)"
  by (simp add: store_rows_def)

lemma run_groups_no_panic:
  assumes o: "ordered p ordre" and part: "partition_of (length ordre) (done @ rest)" and ch: "chain_inv p ordre n (done @ rest)"
    and rows: "\<forall>x \<in> set done. map_of (rs_lignes rs) (pn_id (ordre ! last (gr_members x))) \<noteq> None"
  shows "fst (run_groups c env p ordre rest rs w) \<noteq> Inl RunPanic"
  using part ch rows
proof (induction rest arbitrary: "done" rs w)
  case (Cons gr rest)
  let ?h = "hd (gr_members gr)"
  have ne: "gr_members gr \<noteq> []" and br: "gr_branches gr = None"
    using Cons.prems(2) by (auto simp: chain_inv_def)
  then obtain ms where ms: "gr_members gr = ?h # ms" by (metis list.collapse)
  have hl: "?h < length ordre"
  proof -
    have "?h \<in> set (concat (map gr_members (done @ gr # rest)))" using ne by simp
    then show ?thesis using Cons.prems(1) unfolding partition_of_def by blast
  qed
  have fed: "\<exists>f. fed_uuids p ordre gr (rs_lignes rs) = Inr f"
  proof (cases "input_of p (pn_id (ordre ! ?h))")
    case None
    then show ?thesis by (subst fed_uuids_def, subst ms) simp
  next
    case (Some e)
    obtain a where a: "a < ?h" "e_from e = pn_id (ordre ! a)" "feeds p ordre a ?h" "e_columns e \<noteq> []" "pos_of ordre (e_from e) = Some a"
      by (rule fed_by [OF o hl Some])
    then obtain x where "x \<in> set done" "last (gr_members x) = a"
      using last_of_earlier_group [OF Cons.prems(1,2) a(3,1)] hl by auto
    then obtain r where r: "map_of (rs_lignes rs) (e_from e) = Some r" using Cons.prems(3) a(2) by auto
    obtain cc cs where "e_columns e = cc # cs" using a(4) by (cases "e_columns e") auto
    then show ?thesis using Some r by (subst fed_uuids_def, subst ms) simp
  qed
  have next_ok: "fst (run_groups c env p ordre rest rs' w') \<noteq> Inl RunPanic"
    if "map_of (rs_lignes rs') = (map_of (rs_lignes rs))(pn_id (ordre ! last (gr_members gr)) \<mapsto> r)" for rs' w' r
    by (rule Cons.IH [of "done @ [gr]"]) (use Cons.prems that in auto)
  from fed obtain f where f: "fed_uuids p ordre gr (rs_lignes rs) = Inr f" by blast
  show ?case
  proof (cases "f = Some []")
    case True
    then show ?thesis using f next_ok by (simp add: run_group_def)
  next
    case False
    let ?ps = "case f of None \<Rightarrow> gr_params gr | Some us \<Rightarrow> gr_params gr @ [\<lparr>qp_name = ''uuids'', qp_value = VList us\<rparr>]"
    show ?thesis
    proof (cases "c_execute_with_params c (gr_text gr) ?ps w")
      case (Pair res w1)
      show ?thesis
      proof (cases res)
        case (Inl err)
        then show ?thesis using f False Pair by (simp add: run_group_def Let_def split: prod.splits)
      next
        case (Inr r)
        then show ?thesis using f False Pair next_ok map_of_store [OF br] by (simp add: run_group_def Let_def)
      qed
    qed
  qed
qed simp

lemma translate_no_panic: "traverse (translate_node d) ns = Inl e \<Longrightarrow> e \<noteq> RunPanic"
  by (induction ns) (auto simp: translate_node_def try_then_eq_Inl split: sum.splits translate_error.splits)

lemma transactions_no_panic:
  "fst (open_transaction d c ordre w) \<noteq> Inl RunPanic" "fst (close_transaction c ordre w) \<noteq> Inl RunPanic"
  by (simp_all add: open_transaction_def close_transaction_def split: prod.splits sum.splits option.splits)

lemma run_checked_no_panic:
  assumes "\<And>rs env w. rs_lignes rs = [] \<Longrightarrow> fst (run_groups c env p ordre gs rs w) \<noteq> Inl RunPanic"
  shows "fst (run_checked d c p opts ordre gs w) \<noteq> Inl RunPanic"
proof -
  obtain atomic reason env where a: "atomicity d opts ordre gs = (atomic, reason, env)" by (metis prod_cases3)
  obtain o1 w1 where op: "(if env then open_transaction d c ordre w else (Ok (), w)) = (o1, w1)" by fastforce
  obtain r w2 where rg: "run_groups c env p ordre gs \<lparr>rs_lignes = [], rs_instructions = 0, rs_fused = []\<rparr> w1 = (r, w2)" by fastforce
  obtain o3 w3 where cl: "(if env then close_transaction c ordre w2 else (Ok (), w2)) = (o3, w3)" by fastforce
  have "o1 \<noteq> Inl RunPanic" using op transactions_no_panic(1) [of d c ordre w] by (cases env) auto
  moreover have "r \<noteq> Inl RunPanic" using rg assms [of "\<lparr>rs_lignes = [], rs_instructions = 0, rs_fused = []\<rparr>" env w1] by simp
  moreover have "o3 \<noteq> Inl RunPanic" using cl transactions_no_panic(2) [of c ordre w2] by (cases env) auto
  ultimately show ?thesis unfolding run_checked_def a using op rg cl by (auto split: sum.splits)
qed


section \<open>Transactions\<close>

text \<open>States a connection goes through while a transaction is open: statements, and a commit that fails.\<close>

inductive statements :: "'w connection \<Rightarrow> 'w \<Rightarrow> 'w \<Rightarrow> bool" for c :: "'w connection" where
  statements_refl: "statements c w w"
| statements_execute: "statements c w w1 \<Longrightarrow> c_execute c text w1 = (r, w2) \<Longrightarrow> statements c w w2"
| statements_params: "statements c w w1 \<Longrightarrow> c_execute_with_params c text ps w1 = (r, w2) \<Longrightarrow> statements c w w2"
| statements_commit: "statements c w w1 \<Longrightarrow> c_commit c w1 = (Inl e, w2) \<Longrightarrow> statements c w w2"

text \<open>What a transaction of the engine promises: a rollback that succeeds gives back the data \<open>begin\<close> found.\<close>

definition transactional :: "'w connection \<Rightarrow> ('w \<Rightarrow> 'd) \<Rightarrow> bool" where
  "transactional c db \<longleftrightarrow>
     (\<forall>w w1 w2 w3. c_begin c w = (Inr (), w1) \<and> statements c w1 w2 \<and> c_rollback c w2 = (Inr (), w3) \<longrightarrow> db w3 = db w)"

lemma run_group_statements:
  assumes "run_group c env p ordre g rs w1 = (r, w2)" and "statements c w w1"
  shows "case r of
      Inr _ \<Rightarrow> statements c w w2
    | Inl (RunFailed _ _ True) \<Rightarrow> env \<and> (\<exists>v. statements c w v \<and> c_rollback c v = (Inr (), w2))
    | _ \<Rightarrow> True"
proof (cases "fed_uuids p ordre g (rs_lignes rs)")
  case (Inl e)
  then have r: "r = Inl e" using assms(1) by (simp add: run_group_def)
  have "e = RunPanic" using Inl by (auto simp: fed_uuids_def try_then_def ok_or_def split: list.split_asm option.split_asm sum.split_asm)
  then show ?thesis using r by simp
next
  case (Inr f)
  show ?thesis
  proof (cases "f = Some []")
    case True
    then show ?thesis using assms Inr by (auto simp: run_group_def)
  next
    case False
    let ?ps = "case f of None \<Rightarrow> gr_params g | Some us \<Rightarrow> gr_params g @ [\<lparr>qp_name = ''uuids'', qp_value = VList us\<rparr>]"
    obtain res v where ex: "c_execute_with_params c (gr_text g) ?ps w1 = (res, v)" by fastforce
    have sv: "statements c w v" using statements_params [OF assms(2) ex] .
    show ?thesis
    proof (cases res)
      case (Inr rr)
      then show ?thesis using assms(1) \<open>fed_uuids p ordre g (rs_lignes rs) = Inr f\<close> False ex sv by (auto simp: run_group_def Let_def)
    next
      case (Inl e)
      obtain rb v2 where rb: "c_rollback c v = (rb, v2)" by fastforce
      show ?thesis
      proof (cases env)
        case False': False
        then show ?thesis using assms(1) \<open>fed_uuids p ordre g (rs_lignes rs) = Inr f\<close> False ex Inl by (auto simp: run_group_def Let_def)
      next
        case True
        then have r: "r = Inl (RunFailed (noms ordre g) e (is_ok rb))" "w2 = v2"
          using assms(1) \<open>fed_uuids p ordre g (rs_lignes rs) = Inr f\<close> False ex Inl rb by (auto simp: run_group_def Let_def)
        show ?thesis using r rb sv True by (cases rb) auto
      qed
    qed
  qed
qed

text \<open>The run stopped half-way, rather than before it began.\<close>

fun broke_off :: "run_error \<Rightarrow> bool" where
  "broke_off (RunFailed _ _ _) = True"
| "broke_off RunPanic = True"
| "broke_off _ = False"

lemma run_group_error: "run_group c env p ordre g rs w = (Inl e, w') \<Longrightarrow> broke_off e"
  by (auto simp: run_group_def fed_uuids_def try_then_def ok_or_def Let_def
      split: list.split_asm option.split_asm sum.split_asm prod.split_asm if_split_asm)

lemma run_groups_error: "run_groups c env p ordre gs rs w = (Inl e, w') \<Longrightarrow> broke_off e"
proof (induction gs arbitrary: rs w)
  case (Cons g gs)
  obtain r1 v where r1: "run_group c env p ordre g rs w = (r1, v)" by fastforce
  show ?case
  proof (cases r1)
    case (Inl e1)
    then have "e1 = e" using r1 Cons.prems by simp
    then show ?thesis using r1 Inl run_group_error [of c env p ordre g rs w e v] by simp
  next
    case (Inr rs1)
    then show ?thesis using r1 Cons.prems Cons.IH by auto
  qed
qed simp

lemma transactions_error:
  "open_transaction d c ordre w = (Inl e, w') \<Longrightarrow> broke_off e" "close_transaction c ordre w = (Inl e, w') \<Longrightarrow> broke_off e"
  by (auto simp: open_transaction_def close_transaction_def split: prod.splits sum.splits option.splits)

lemma run_groups_statements:
  assumes "run_groups c env p ordre gs rs w1 = (r, w2)" and "statements c w w1"
  shows "case r of
      Inr _ \<Rightarrow> statements c w w2
    | Inl (RunFailed _ _ True) \<Rightarrow> env \<and> (\<exists>v. statements c w v \<and> c_rollback c v = (Inr (), w2))
    | _ \<Rightarrow> True"
  using assms
proof (induction gs arbitrary: rs w1)
  case (Cons g gs)
  obtain r1 v where r1: "run_group c env p ordre g rs w1 = (r1, v)" by fastforce
  note one = run_group_statements [OF r1 Cons.prems(2)]
  show ?case
  proof (cases r1)
    case (Inl e)
    then show ?thesis using one r1 Cons.prems(1) by auto
  next
    case (Inr rs1)
    then show ?thesis using one r1 Cons.prems(1) Cons.IH [of rs1 v] by simp
  qed
qed auto

lemma open_transaction_statements:
  assumes "open_transaction d c ordre w = (r, w')"
  shows "case r of
      Inr _ \<Rightarrow> (\<exists>w1. c_begin c w = (Inr (), w1) \<and> statements c w1 w')
    | Inl (RunFailed _ _ True) \<Rightarrow> d_snapshot_read d \<noteq> None
        \<and> (\<exists>w1 v. c_begin c w = (Inr (), w1) \<and> statements c w1 v \<and> w' = snd (c_rollback c v))
    | _ \<Rightarrow> True"
proof -
  obtain b w1 where b: "c_begin c w = (b, w1)" by fastforce
  show ?thesis
  proof (cases b)
    case (Inl e)
    then show ?thesis using assms b by (auto simp: open_transaction_def)
  next
    case (Inr u)
    let ?snap = "if list_ex (\<lambda>n. \<not> is_write (pn_form n)) ordre then d_snapshot_read d else None"
    show ?thesis
    proof (cases ?snap)
      case None
      then show ?thesis using assms b Inr statements_refl by (auto simp: open_transaction_def)
    next
      case (Some snap)
      obtain r2 w2 where ex: "c_execute c snap w1 = (r2, w2)" by fastforce
      have "statements c w1 w2" using statements_execute [OF statements_refl ex] .
      then show ?thesis using assms b Inr Some ex by (cases r2) (auto simp: open_transaction_def split: if_splits)
    qed
  qed
qed

lemma rolled_back_restores:
  assumes run: "run_checked d c p opts ordre gs w = (Inl (RunFailed ns e True), w')"
    and tr: "transactional c db" and rb: "d_snapshot_read d = None \<or> (\<forall>v. is_ok (fst (c_rollback c v)))"
  shows "db w' = db w"
proof -
  obtain atomic reason env where a: "atomicity d opts ordre gs = (atomic, reason, env)" by (metis prod_cases3)
  let ?rs = "\<lparr>rs_lignes = [], rs_instructions = 0, rs_fused = []\<rparr>"
  obtain o1 w1 where op: "(if env then open_transaction d c ordre w else (Ok (), w)) = (o1, w1)" by fastforce
  obtain r w2 where rg: "run_groups c env p ordre gs ?rs w1 = (r, w2)" by fastforce
  have law: "db w3 = db w" if "c_begin c w = (Inr (), v1)" "statements c v1 v2" "c_rollback c v2 = (Inr (), w3)" for v1 v2 w3
    using tr that unfolding transactional_def by blast
  show ?thesis
  proof (cases o1)
    case (Inl err)
    then have env: env and err: "err = RunFailed ns e True" "w' = w1"
      using run op by (auto simp: run_checked_def a split: if_splits)
    then obtain v1 v2 where v: "c_begin c w = (Inr (), v1)" "statements c v1 v2" "w' = snd (c_rollback c v2)" "d_snapshot_read d \<noteq> None"
      using open_transaction_statements [of d c ordre w o1 w1] op Inl by auto
    then obtain u where "fst (c_rollback c v2) = Inr u" using rb by (auto simp: is_ok_iff)
    then have "c_rollback c v2 = (Inr (), w')" using v(3) by (cases "c_rollback c v2") simp
    then show ?thesis using law [OF v(1,2)] by blast
  next
    case o1: (Inr u)
    show ?thesis
    proof (cases env)
      case False
      then have "r = Inl (RunFailed ns e True)" using run op rg o1 by (auto simp: run_checked_def a split: if_splits sum.splits)
      then show ?thesis using run_groups_statements [OF rg statements_refl] False by simp
    next
      case True
      then obtain v1 where v1: "c_begin c w = (Inr (), v1)" "statements c v1 w1"
        using open_transaction_statements [of d c ordre w o1 w1] op o1 by auto
      note all = run_groups_statements [OF rg v1(2)]
      show ?thesis
      proof (cases r)
        case (Inl err)
        then have "err = RunFailed ns e True" "w' = w2" using run op rg o1 by (auto simp: run_checked_def a split: if_splits)
        then show ?thesis using all Inl law [OF v1(1)] by auto
      next
        case (Inr rs)
        obtain cm w3 where cm: "c_commit c w2 = (cm, w3)" by fastforce
        obtain b w4 where b: "c_rollback c w3 = (b, w4)" by fastforce
        obtain ce where ce: "cm = Inl ce" and fin: "is_ok b" "w' = w4"
          using run op rg o1 Inr True cm b by (cases cm) (auto simp: run_checked_def close_transaction_def a split: if_splits)
        then have "statements c v1 w3" using statements_commit [of c v1 w2] all Inr cm by simp
        then show ?thesis using law [OF v1(1)] b fin by (auto simp: is_ok_iff)
      qed
    qed
  qed
qed


lemma run_checked_valid: "fst (run_checked d c p opts ordre gs w) \<noteq> Inl (RunInvalid x)"
proof -
  obtain atomic reason env where a: "atomicity d opts ordre gs = (atomic, reason, env)" by (metis prod_cases3)
  let ?rs = "\<lparr>rs_lignes = [], rs_instructions = 0, rs_fused = []\<rparr>"
  obtain o1 w1 where op: "(if env then open_transaction d c ordre w else (Ok (), w)) = (o1, w1)" by fastforce
  obtain r w2 where rg: "run_groups c env p ordre gs ?rs w1 = (r, w2)" by fastforce
  obtain o3 w3 where cl: "(if env then close_transaction c ordre w2 else (Ok (), w2)) = (o3, w3)" by fastforce
  have "o1 \<noteq> Inl (RunInvalid x)" using op transactions_error(1) [of d c ordre w "RunInvalid x" w1] by (cases env) auto
  moreover have "r \<noteq> Inl (RunInvalid x)" using run_groups_error [of c env p ordre gs ?rs w1 "RunInvalid x" w2] rg by auto
  moreover have "o3 \<noteq> Inl (RunInvalid x)" using cl transactions_error(2) [of c ordre w2 "RunInvalid x" w3] by (cases env) auto
  ultimately show ?thesis unfolding run_checked_def a using op rg cl by (auto split: sum.splits)
qed

lemma run_plan_valid:
  assumes "plan_check p = Inr ordre"
  shows "fst (run_plan d c p opts w) \<noteq> Inl (RunInvalid x)"
proof (cases "traverse (translate_node d) ordre")
  case (Inl e)
  have "traverse (translate_node d) ns = Inl e \<Longrightarrow> e \<noteq> RunInvalid x" for ns e
    by (induction ns) (auto simp: translate_node_def try_then_eq_Inl split: sum.splits translate_error.splits)
  then show ?thesis using assms Inl by (simp add: run_plan_def)
next
  case (Inr textes)
  obtain gs where "build_groups d opts p ordre textes = Inr gs" using groups_built [OF checked_ordered [OF assms]] by blast
  then show ?thesis using assms Inr run_checked_valid by (simp add: run_plan_def)
qed

section \<open>Properties\<close>

text \<open>
  C18. A refused plan touches nothing: when \<open>run_plan\<close> answers that the plan is invalid, that the
  dialect refuses a node or that the run would not be atomic, no call was made on the connection.
\<close>

theorem refused_plan_touches_nothing:
  assumes "run_plan d c p opts w = (Inl e, w')" and "\<not> broke_off e"
  shows "w' = w"
proof -
  have "w' = w" if run: "run_checked d c p opts ordre gs w = (Inl e, w')" for ordre gs
  proof -
    obtain atomic reason env where a: "atomicity d opts ordre gs = (atomic, reason, env)" by (metis prod_cases3)
    let ?rs = "\<lparr>rs_lignes = [], rs_instructions = 0, rs_fused = []\<rparr>"
    obtain o1 w1 where op: "(if env then open_transaction d c ordre w else (Ok (), w)) = (o1, w1)" by fastforce
    obtain r w2 where rg: "run_groups c env p ordre gs ?rs w1 = (r, w2)" by fastforce
    obtain o3 w3 where cl: "(if env then close_transaction c ordre w2 else (Ok (), w2)) = (o3, w3)" by fastforce
    have "o1 \<noteq> Inl e" using op assms(2) transactions_error(1) [of d c ordre w e w1] by (cases env) auto
    moreover have "r \<noteq> Inl e" using run_groups_error [of c env p ordre gs ?rs w1 e w2] rg assms(2) by auto
    moreover have "o3 \<noteq> Inl e" using cl assms(2) transactions_error(2) [of c ordre w2 e w3] by (cases env) auto
    ultimately show ?thesis using run op rg cl unfolding run_checked_def a by (auto split: sum.splits if_splits)
  qed
  then show ?thesis using assms(1) by (auto simp: run_plan_def split: sum.splits)
qed


text \<open>
  C17. Grouping never fails and shares the nodes out: for a plan that passed the check, whatever the
  dialect can fuse, every node of the order is in exactly one group and no group is empty.
\<close>

theorem groups_share_out_the_nodes:
  assumes "plan_check p = Inr ordre"
  shows "\<exists>gs. build_groups d opts p ordre textes = Inr gs \<and> (\<forall>g \<in> set gs. gr_members g \<noteq> [])
    \<and> distinct (concat (map gr_members gs)) \<and> set (concat (map gr_members gs)) = {..<length ordre}"
  using groups_built [OF checked_ordered [OF assms]] unfolding partition_of_def by blast

text \<open>
  C3. Without fan-outs, running a plan never panics: every index, lookup and \<open>expect\<close> of
  \<open>run_plan\<close> succeeds and no counter of \<open>Plan::check\<close>, which it calls first, goes below zero, whatever
  the plan, the dialect and the answers of the connection; in
  particular the rows that feed a statement have always been read before it.
\<close>

theorem run_plan_never_panics:
  assumes "\<not> fans_out d opts"
  shows "fst (run_plan d c p opts w) \<noteq> Inl RunPanic \<and> fst (run_plan d c p opts w) \<noteq> Inl (RunInvalid CounterPanic)"
proof (cases "plan_check p")
  case (Inl e)
  then show ?thesis using plan_check_no_counter_panic [of p] by (simp add: run_plan_def)
next
  case (Inr ordre)
  have o: "ordered p ordre" by (rule checked_ordered [OF Inr])
  have "fst (run_plan d c p opts w) \<noteq> Inl RunPanic"
  proof (cases "traverse (translate_node d) ordre")
    case (Inl e)
    then show ?thesis using Inr translate_no_panic [OF Inl] by (simp add: run_plan_def)
  next
    case te: (Inr textes)
    obtain gs gd where run: "fold_try (group_step d opts p ordre textes) ([], replicate (length ordre) None) [0..<length ordre] = Inr (gs, gd)"
      and gs: "build_groups d opts p ordre textes = Inr gs" and part: "partition_of (length ordre) gs"
      using groups_built [OF o] by blast
    have ch: "chain_inv p ordre (length ordre) gs" using chain_run [OF o assms order_refl run] by simp
    have "fst (run_checked d c p opts ordre gs w) \<noteq> Inl RunPanic"
      by (rule run_checked_no_panic, rule run_groups_no_panic [OF o, of "[]"]) (use part ch in simp_all)
    then show ?thesis using Inr te gs by (simp add: run_plan_def)
  qed
  moreover have "fst (run_plan d c p opts w) \<noteq> Inl (RunInvalid CounterPanic)"
    by (rule run_plan_valid [OF Inr])
  ultimately show ?thesis ..
qed

text \<open>
  C4. A failure reported as rolled back left nothing: on a connection whose transactions give back,
  on a successful rollback, the data found at \<open>begin\<close>, the data after \<open>Failed { rolled_back: true }\<close>
  are those from before the run. For a dialect that takes a read snapshot this needs rollbacks
  that succeed, since that path reports \<open>true\<close> without looking.
\<close>

theorem rolled_back_leaves_nothing:
  assumes "run_plan d c p opts w = (Inl (RunFailed ns e True), w')" and "transactional c db"
    and "d_snapshot_read d = None \<or> (\<forall>v. is_ok (fst (c_rollback c v)))"
  shows "db w' = db w"
proof (cases "plan_check p")
  case (Inl err)
  then show ?thesis using assms(1) by (simp add: run_plan_def)
next
  case (Inr ordre)
  show ?thesis
  proof (cases "traverse (translate_node d) ordre")
    case (Inl err)
    then have "err = RunFailed ns e True \<and> w' = w" using assms(1) Inr by (simp add: run_plan_def)
    then show ?thesis by simp
  next
    case te: (Inr textes)
    obtain gs where gs: "build_groups d opts p ordre textes = Inr gs" using groups_built [OF checked_ordered [OF Inr]] by blast
    have "run_checked d c p opts ordre gs w = (Inl (RunFailed ns e True), w')" using assms(1) Inr te gs by (simp add: run_plan_def)
    then show ?thesis by (rule rolled_back_restores [OF _ assms(2,3)])
  qed
qed

section \<open>Examples\<close>

text \<open>A dialect that says every form by its name, fuses nothing, and fans out when asked.\<close>

definition demo_dialect :: "bool \<Rightarrow> dialect" where
  "demo_dialect fan = \<lparr>d_hop = (\<lambda>_. Ok ''hop''), d_count = (\<lambda>_. Ok ''count''), d_select = (\<lambda>_. Ok ''select''),
     d_write = (\<lambda>_. Err (Untranslated ''write'' ''demo'')), d_untranslated = (\<lambda>f. f), d_cap_transactions = True, d_cap_fanout = fan,
     d_snapshot_read = None, d_fuse = (\<lambda>_ _ _ _. None), d_fuse_fanout = (\<lambda>_ _. Some ''fan'')\<rparr>"

text \<open>A database that is a list of the texts it executed and the copy \<open>begin\<close> took; counting fails.\<close>

definition demo_connection :: "(string list \<times> string list) connection" where
  "demo_connection =
     \<lparr>c_execute = (\<lambda>t w. (Ok default_result, w)),
      c_execute_with_params = (\<lambda>t ps w. if t = ''count'' then (Err ''refused'', w) else (Ok default_result, (t # fst w, snd w))),
      c_begin = (\<lambda>w. (Ok (), (fst w, fst w))), c_commit = (\<lambda>w. (Ok (), w)), c_rollback = (\<lambda>w. (Ok (), (snd w, snd w)))\<rparr>"

definition demo_options :: plan_options where
  "demo_options = \<lparr>po_require_atomic = False, po_split = False, po_no_transaction = False, po_fanout = None\<rparr>"

text \<open>A reading then a count, with nothing between them.\<close>

definition demo_failing :: plan where
  "demo_failing = plan_add_node (plan_add_node plan_new ''a'' (FSelect (select_all ''Doc'' [CNode ''_uuid''])) [])
     ''b'' (FCount (Matching ''Doc'' None)) []"

lemma demo_failing_run:
  "run_plan (demo_dialect False) demo_connection demo_failing demo_options ([''old''], []) = (Inl (RunFailed [''b''] ''refused'' True), ([''old''], [''old'']))"
  by code_simp

lemma demo_connection_transactional: "transactional demo_connection fst"
proof -
  have "snd w2 = snd w1" if "statements demo_connection w1 w2" for w1 w2
    using that
  proof (induction rule: statements.induct)
    case (statements_params w w1 t ps r w2)
    then show ?case by (cases "t = ''count''") (auto simp: demo_connection_def)
  qed (simp_all add: demo_connection_def)
  then show ?thesis unfolding transactional_def by (fastforce simp: demo_connection_def)
qed

text \<open>The selection was executed before the count failed: its text was in the data, and is gone.\<close>

theorem rolled_back_leaves_nothing_witness:
  "\<exists>w'. run_plan (demo_dialect False) demo_connection demo_failing demo_options ([''old''], []) = (Inl (RunFailed [''b''] ''refused'' True), w')
     \<and> fst (snd (c_execute_with_params demo_connection ''select'' [] ([''old''], []))) = [''select'', ''old''] \<and> fst w' = [''old'']"
proof -
  obtain w' where run: "run_plan (demo_dialect False) demo_connection demo_failing demo_options ([''old''], [])
      = (Inl (RunFailed [''b''] ''refused'' True), w')"
    using demo_failing_run by blast
  have "fst w' = fst ([''old''], [] :: string list)"
    by (rule rolled_back_leaves_nothing [OF run demo_connection_transactional]) (simp add: demo_dialect_def)
  then show ?thesis using run by (simp add: demo_connection_def)
qed

definition demo_refused :: plan where
  "demo_refused = plan_add_node plan_new ''w'' (FWrite (Mark ''Doc'' [])) []"

lemma demo_refused_run:
  "run_plan (demo_dialect False) demo_connection demo_refused demo_options ([''old''], []) = (Inl (RunRefused ''w'' ''write''), ([''old''], []))"
  by code_simp

theorem refused_plan_touches_nothing_witness:
  "fst (run_plan (demo_dialect False) demo_connection demo_refused demo_options ([''old''], [])) = Inl (RunRefused ''w'' ''write'')
     \<and> snd (run_plan (demo_dialect False) demo_connection demo_refused demo_options ([''old''], [])) = ([''old''], [])"
proof -
  obtain w' where run: "run_plan (demo_dialect False) demo_connection demo_refused demo_options ([''old''], []) = (Inl (RunRefused ''w'' ''write''), w')"
    using demo_refused_run by blast
  then have "w' = ([''old''], [])" using refused_plan_touches_nothing [OF run] by simp
  then show ?thesis using run by simp
qed

lemma demo_chain_checked: "plan_check demo_chain = Inr (p_nodes demo_chain)"
  by code_simp

theorem groups_share_out_the_nodes_witness:
  "\<exists>gs. build_groups (demo_dialect True) demo_options demo_chain (p_nodes demo_chain) [''select'', ''select''] = Inr gs
     \<and> (\<forall>g \<in> set gs. gr_members g \<noteq> []) \<and> distinct (concat (map gr_members gs)) \<and> set (concat (map gr_members gs)) = {..<2}"
proof -
  have "length (p_nodes demo_chain) = 2" by code_simp
  then show ?thesis using groups_share_out_the_nodes [OF demo_chain_checked] by metis
qed

theorem run_plan_never_panics_witness:
  "fst (run_plan (demo_dialect False) demo_connection demo_failing demo_options ([], [])) \<noteq> Inl RunPanic
     \<and> fst (run_plan (demo_dialect False) demo_connection demo_failing demo_options ([], [])) \<noteq> Inl (RunInvalid CounterPanic)"
  by (rule run_plan_never_panics) (simp add: fans_out_def demo_options_def demo_dialect_def)

text \<open>A selection, a hop below it, two hops fanned out below that one, and a reader of the first.\<close>

definition demo_fan :: plan where
  "demo_fan =
     plan_output (plan_output (plan_add_edge (plan_add_edge (plan_add_edge (plan_add_edge
       (plan_add_node (plan_add_node (plan_add_node (plan_add_node (plan_add_node plan_new
          ''a'' (FSelect (select_all ''Doc'' [CNode ''_uuid''])) [])
          ''n'' (FHop (hop_new ''Doc'' ''LINKS'' ''Doc'' Outgoing)) [])
          ''j1'' (FHop (hop_new ''Doc'' ''LINKS'' ''Doc'' Outgoing)) [])
          ''j2'' (FHop (hop_new ''Doc'' ''LINKS'' ''Doc'' Incoming)) [])
          ''k'' (FHop (hop_new ''Doc'' ''LINKS'' ''Doc'' Outgoing)) [])
       ''a'' 0 ''n'') ''n'' 0 ''j1'') ''n'' 0 ''j2'') ''j1'' 0 ''k'') ''a'') ''k''"

text \<open>
  With fan-outs, an accepted plan can make \<open>run_plan\<close> panic: when a fanned-out group is skipped
  because its upstream gave no uuid, only its last branch gets an empty result, and the reader of
  another branch looks up rows that do not exist.
\<close>

theorem skipped_fan_out_panics:
  "is_ok (plan_check demo_fan) \<and> fst (run_plan (demo_dialect True) demo_connection demo_fan demo_options ([], [])) = Inl RunPanic"
  by code_simp


text \<open>An output named twice: the second time its rows have already left, and an empty result replaces them.\<close>

definition demo_rows_connection :: "unit connection" where
  "demo_rows_connection =
     \<lparr>c_execute = (\<lambda>t w. (Err ''no snapshot'', w)),
      c_execute_with_params = (\<lambda>t ps w. (Ok \<lparr>qr_columns = [''_uuid''], qr_rows = [[VString ''u1'']]\<rparr>, w)),
      c_begin = (\<lambda>w. (Ok (), w)), c_commit = (\<lambda>w. (Ok (), w)), c_rollback = (\<lambda>w. (Err ''broken'', w))\<rparr>"

definition demo_output :: "string list \<Rightarrow> plan" where
  "demo_output outs = (plan_add_node plan_new ''a'' (FSelect (select_all ''Doc'' [CNode ''_uuid''])) [])\<lparr>p_outputs := outs\<rparr>"

lemma duplicate_output_lost:
  "map_of (pr_outputs (projr (fst (run_plan (demo_dialect False) demo_rows_connection (demo_output [''a'']) demo_options ())))) ''a''
     = Some \<lparr>qr_columns = [''_uuid''], qr_rows = [[VString ''u1'']]\<rparr>
   \<and> map_of (pr_outputs (projr (fst (run_plan (demo_dialect False) demo_rows_connection (demo_output [''a'', ''a'']) demo_options ())))) ''a''
     = Some default_result"
  by code_simp

text \<open>A snapshot that fails is reported as rolled back although the rollback failed too.\<close>

lemma snapshot_failure_reported_rolled_back:
  "fst (run_plan ((demo_dialect False)\<lparr>d_snapshot_read := Some ''SNAPSHOT''\<rparr>) demo_rows_connection demo_failing demo_options ())
     = Inl (RunFailed [''a''] ''SNAPSHOT: no snapshot'' True)
   \<and> fst (c_rollback demo_rows_connection ()) = Inl ''broken''"
  by code_simp

end
