(* ===== verification/Rag3db_Dialect.thy ===== *)
theory Rag3db_Dialect
  imports Plan_Runner Condition_Text
begin

text \<open>
  \<open>src/dialect.rs\<close>: the dialect of rag3db. Every form of the intermediate representation is
  written in Cypher (\<open>select\<close>, \<open>count\<close>, \<open>hop\<close>, \<open>write\<close>), two texts in a row are fused into one
  (\<open>fuse\<close>), and sister branches into a union (\<open>fuse_fanout\<close>). The writes go through the methods a
  dialect has for its batches: the record \<open>write_methods\<close>, which \<open>write_by_methods\<close> calls. The word
  that stands for NULL in a CSV file is drawn once per process: the argument \<open>nul\<close>. A path is a text
  in UTF-8.
\<close>

section \<open>Shared by the dialects\<close>

definition fondable :: "select \<Rightarrow> bool" where
  "fondable s = (s_order_by s = [] \<and> s_limit s = None \<and> s_offset s = None \<and> \<not> list_ex is_collect (s_returns s))"

definition cle_d_ordre ::
    "(string \<Rightarrow> string) \<Rightarrow> order_key \<Rightarrow> (extremum \<Rightarrow> aggregate \<Rightarrow> 's \<Rightarrow> string \<times> 's) \<Rightarrow> 's \<Rightarrow> (string \<times> string \<times> bool) \<times> 's" where
  "cle_d_ordre quote k extreme s =
     (let (termes, coalesce) = terms (ok_by k);
          seul_extreme = (\<not> coalesce \<and> (case termes of TExtremum _ _ # _ \<Rightarrow> True | _ \<Rightarrow> False));
          (rendus, t) = visit (\<lambda>x u. case x of TField f \<Rightarrow> (''m.'' @ quote f, u) | TExtremum e a \<Rightarrow> extreme e a u) termes s;
          expr = (if coalesce then ''coalesce('' @ join_with '', '' rendus @ '')'' else join_with '', '' rendus)
      in ((expr, if ok_desc k then '' DESC'' else [], seul_extreme), t))"

definition borne_et_saut :: "select \<Rightarrow> (translate_error, nat option \<times> nat option) result" where
  "borne_et_saut s =
     try_then (case s_limit s of
         None \<Rightarrow> Ok None
       | Some (LimLiteral n) \<Rightarrow> Ok (Some n)
       | Some (LimParam p _) \<Rightarrow> Err (Invalid (LimitNotBound p))) (\<lambda>limit.
     try_then (case s_offset s of
         None \<Rightarrow> Ok None
       | Some (OffLiteral n) \<Rightarrow> Ok (Some n)
       | Some (OffParam p) \<Rightarrow> Err (Invalid (OffsetNotBound p))) (\<lambda>offset.
     Ok (limit, offset)))"

definition opt_text :: "('a \<Rightarrow> string) \<Rightarrow> 'a option \<Rightarrow> string" where
  "opt_text f x = (case x of None \<Rightarrow> [] | Some y \<Rightarrow> f y)"

text \<open>The last place where a word stands in a text, and what follows a prefix.\<close>

fun rfind :: "string \<Rightarrow> string \<Rightarrow> nat option" where
  "rfind w [] = (if w = [] then Some 0 else None)"
| "rfind w (c # cs) =
     (case rfind w cs of
        Some i \<Rightarrow> Some (Suc i)
      | None \<Rightarrow> if starts_with w (c # cs) then Some 0 else None)"

definition strip_prefix :: "string \<Rightarrow> string \<Rightarrow> string option" where
  "strip_prefix w s = (if starts_with w s then Some (drop (length w) s) else None)"

record write_methods =
  wm_name :: string
  wm_bulk_load :: bool
  wm_batch_upsert :: "string \<Rightarrow> string list \<Rightarrow> string"
  wm_batch_link_labeled :: "string \<Rightarrow> (string \<times> string) option \<Rightarrow> string list \<Rightarrow> string"
  wm_batch_update_fields :: "string \<Rightarrow> string list \<Rightarrow> string"
  wm_batch_set_null :: "string \<Rightarrow> string \<Rightarrow> string"
  wm_batch_cascade_delete :: "string \<Rightarrow> string"
  wm_batch_delete :: "string \<Rightarrow> string"
  wm_batch_cascade_delete_returning_count :: "string \<Rightarrow> string \<Rightarrow> string"
  wm_batch_delete_relation :: "string \<Rightarrow> string"
  wm_detach_edges :: "string \<Rightarrow> string \<Rightarrow> direction \<Rightarrow> predicate \<Rightarrow> string option"
  wm_copy_nodes_from_csv :: "string \<Rightarrow> string list \<Rightarrow> string \<Rightarrow> string option"
  wm_copy_links_from_csv :: "string \<Rightarrow> string \<times> string \<Rightarrow> string list \<Rightarrow> string \<Rightarrow> string option"

definition write_by_methods :: "write_methods \<Rightarrow> ir_write \<Rightarrow> (translate_error, string) result" where
  "write_by_methods M w =
     try_then (write_validate w) (\<lambda>_.
     case w of
       Upsert table columns \<Rightarrow> Ok (wm_batch_upsert M table columns)
     | Link relation ends props \<Rightarrow> Ok (wm_batch_link_labeled M relation ends props)
     | Update table columns \<Rightarrow> Ok (wm_batch_update_fields M table columns)
     | Mark table sets \<Rightarrow>
         (case sets of
            [(field, None)] \<Rightarrow> Ok (wm_batch_set_null M table field)
          | _ \<Rightarrow> Err (Untranslated (wm_name M) ''Write::Mark''))
     | Delete table key cascade cnt \<Rightarrow>
         (if key = ''_uuid'' \<and> cascade \<and> \<not> cnt then Ok (wm_batch_cascade_delete M table)
          else if key = ''_uuid'' \<and> \<not> cascade \<and> \<not> cnt then Ok (wm_batch_delete M table)
          else if cascade \<and> cnt then Ok (wm_batch_cascade_delete_returning_count M table key)
          else Err (Untranslated (wm_name M) ''Write::Delete''))
     | Unlink relation \<Rightarrow> Ok (wm_batch_delete_relation M relation)
     | Detach relation table side flt \<Rightarrow>
         ok_or (Untranslated (wm_name M) ''Write::Detach'') (wm_detach_edges M relation table side flt)
     | Load target path \<Rightarrow>
         (if \<not> wm_bulk_load M then Err (Untranslated (wm_name M) ''Write::Load'')
          else ok_or (Untranslated (wm_name M) ''Write::Load'')
            (case target of
               LtNodes table columns \<Rightarrow> wm_copy_nodes_from_csv M table columns path
             | LtLinks relation ends props \<Rightarrow> wm_copy_links_from_csv M relation ends props path)))"

definition untranslated :: "string \<Rightarrow> string \<Rightarrow> string" where
  "untranslated name method = ''RAG3WEAVER_REFUS__le_dialecte_'' @ name @ ''_ne_traduit_pas__'' @ method"

definition ecriture :: "dialect \<Rightarrow> ir_write \<Rightarrow> string" where
  "ecriture d w = (case d_write d w of Inl _ \<Rightarrow> d_untranslated d ''Write'' | Inr t \<Rightarrow> t)"

section \<open>Batches in Cypher\<close>

text \<open>\<open>ParCle\<close>: a node to find again, its variable, label, key property and the field of \<open>item\<close>.\<close>

record par_cle =
  pc_var :: string
  pc_label :: "string option"
  pc_prop :: string
  pc_champ :: string

definition par_uuid :: "string \<Rightarrow> string option \<Rightarrow> string \<Rightarrow> par_cle" where
  "par_uuid var label champ = \<lparr>pc_var = var, pc_label = label, pc_prop = ''_uuid'', pc_champ = champ\<rparr>"

definition cle_de_ligne :: "string list \<Rightarrow> string \<Rightarrow> string \<Rightarrow> string" where
  "cle_de_ligne lies champ key = ''WITH '' @ join_with '', '' (lies @ [''item'']) @ '', item.'' @ champ @ '' AS '' @ key"

fun par_cles :: "nat \<Rightarrow> string list \<Rightarrow> string \<Rightarrow> par_cle list \<Rightarrow> string" where
  "par_cles i lies verbe [] = []"
| "par_cles i lies verbe (n # ns) =
     (let key = ''__cle_'' @ decimal i;
          etiquette = opt_text (\<lambda>l. CHR '':'' # l) (pc_label n)
      in '' '' @ cle_de_ligne lies (pc_champ n) key @ '' '' @ verbe @ '' ('' @ pc_var n @ etiquette @ '' {'' @ pc_prop n @ '': '' @ key @ ''})''
         @ par_cles (Suc i) (lies @ [pc_var n]) verbe ns)"

definition unwind_par_cle :: "string \<Rightarrow> par_cle list \<Rightarrow> string \<Rightarrow> string" where
  "unwind_par_cle param noeuds verbe = ''UNWIND $'' @ param @ '' AS item'' @ par_cles 0 [] verbe noeuds"

definition assigns :: "string \<Rightarrow> string list \<Rightarrow> string" where
  "assigns var columns =
     join_with '', '' (map (\<lambda>c. var @ ''.'' @ cypher_quote c @ '' = item.'' @ cypher_quote c) columns)"

definition rag3db_batch_upsert :: "string \<Rightarrow> string list \<Rightarrow> string" where
  "rag3db_batch_upsert table columns =
     unwind_par_cle ''items'' [par_uuid ''n'' (Some (cypher_quote table)) ''_uuid''] ''MERGE''
     @ '' SET '' @ assigns ''n'' (filter (\<lambda>c. c \<noteq> ''_uuid'') columns) @ '' RETURN ID(n), item._uuid''"

definition rag3db_batch_delete :: "string \<Rightarrow> string" where
  "rag3db_batch_delete table = ''UNWIND $uuids AS uuid MATCH (n:'' @ cypher_quote table @ '' {_uuid: uuid}) DELETE n''"

definition rag3db_batch_cascade_delete :: "string \<Rightarrow> string" where
  "rag3db_batch_cascade_delete table = ''UNWIND $uuids AS uuid MATCH (n:'' @ cypher_quote table @ '' {_uuid: uuid}) DETACH DELETE n''"

definition prop_set :: "string list \<Rightarrow> string" where
  "prop_set props = (if props = [] then [] else '' SET '' @ assigns ''r'' props)"

definition rag3db_batch_link :: "string \<Rightarrow> string list \<Rightarrow> string" where
  "rag3db_batch_link rel_table props =
     unwind_par_cle ''items'' [par_uuid ''a'' None ''from_uuid'', par_uuid ''b'' None ''to_uuid''] ''MATCH''
     @ '' MERGE (a)-[r:'' @ cypher_quote rel_table @ '']->(b)'' @ prop_set props"

definition rag3db_batch_link_labeled :: "string \<Rightarrow> (string \<times> string) option \<Rightarrow> string list \<Rightarrow> string" where
  "rag3db_batch_link_labeled rel_table ends props =
     (case ends of
        None \<Rightarrow> rag3db_batch_link rel_table props
      | Some (f, t) \<Rightarrow>
          unwind_par_cle ''items''
            [par_uuid ''a'' (Some (cypher_quote f)) ''from_uuid'', par_uuid ''b'' (Some (cypher_quote t)) ''to_uuid''] ''MATCH''
          @ '' MERGE (a)-[r:'' @ cypher_quote rel_table @ '']->(b)'' @ prop_set props)"

definition rag3db_batch_update_fields :: "string \<Rightarrow> string list \<Rightarrow> string" where
  "rag3db_batch_update_fields table columns =
     unwind_par_cle ''items'' [par_uuid ''n'' (Some (cypher_quote table)) ''_uuid''] ''MATCH'' @ '' SET '' @ assigns ''n'' columns"

definition rag3db_cascade_delete_returning_count :: "string \<Rightarrow> string \<Rightarrow> string" where
  "rag3db_cascade_delete_returning_count table field =
     ''UNWIND $uuids AS uuid MATCH (c:'' @ cypher_quote table @ '' {'' @ cypher_quote field
     @ '': uuid}) DETACH DELETE c RETURN uuid, count(c) AS cnt''"

definition rag3db_batch_delete_relation :: "string \<Rightarrow> string" where
  "rag3db_batch_delete_relation rel_table =
     unwind_par_cle ''items'' [par_uuid ''a'' None ''from''] ''MATCH'' @ '' '' @ cle_de_ligne [''a''] ''to'' ''__cle_1''
     @ '' MATCH (a)-[r:'' @ cypher_quote rel_table @ '']->(b {_uuid: __cle_1}) DELETE r''"

definition rag3db_batch_set_null :: "string \<Rightarrow> string \<Rightarrow> string" where
  "rag3db_batch_set_null table field =
     ''UNWIND $uuids AS uuid MATCH (n:'' @ cypher_quote table @ '' {_uuid: uuid}) SET n.'' @ cypher_quote field @ '' = NULL''"

definition rag3db_detach_edges :: "string \<Rightarrow> string \<Rightarrow> direction \<Rightarrow> predicate \<Rightarrow> string option" where
  "rag3db_detach_edges relation table side flt =
     (let t = cypher_quote table; r = cypher_quote relation;
          motif = (case side of
              Outgoing \<Rightarrow> ''(m:'' @ t @ '')-[r:'' @ r @ '']->()''
            | Incoming \<Rightarrow> ''()-[r:'' @ r @ '']->(m:'' @ t @ '')'')
      in Some (''MATCH '' @ motif @ '' WHERE '' @ rag3db_condition flt @ '' DELETE r''))"

definition rag3db_detach_edges_returning :: "string \<Rightarrow> string \<Rightarrow> direction \<Rightarrow> predicate \<Rightarrow> string option" where
  "rag3db_detach_edges_returning relation table side flt =
     (let t = cypher_quote table; r = cypher_quote relation;
          (motif, rendre) = (case side of
              Outgoing \<Rightarrow> (''(m:'' @ t @ '')-[r:'' @ r @ '']->(o)'', ''m._uuid, o._uuid'')
            | Incoming \<Rightarrow> (''(o)-[r:'' @ r @ '']->(m:'' @ t @ '')'', ''o._uuid, m._uuid''))
      in Some (''MATCH '' @ motif @ '' WHERE '' @ rag3db_condition flt @ '' DELETE r RETURN '' @ rendre))"

text \<open>\<open>connection.rs\<close>: a path in a Cypher text, its backslashes and quotes escaped.\<close>

definition escape_char :: "char \<Rightarrow> string" where
  "escape_char c = (if c = CHR 0x5C then [CHR 0x5C, CHR 0x5C] else if c = CHR 0x27 then [CHR 0x5C, CHR 0x27] else [c])"

definition cypher_path_literal :: "string \<Rightarrow> string" where
  "cypher_path_literal path = [CHR 0x27] @ concat (map escape_char path) @ [CHR 0x27]"

definition copy_options :: "string \<Rightarrow> string" where
  "copy_options nul = ''escaped_newlines=true, auto_detect=false, null_strings=['' @ [CHR 0x27] @ nul @ [CHR 0x27] @ ''])''"

definition rag3db_copy_links_from_csv :: "string \<Rightarrow> string \<Rightarrow> string \<times> string \<Rightarrow> string list \<Rightarrow> string \<Rightarrow> string option" where
  "rag3db_copy_links_from_csv nul rel_table ends props path =
     (let colonnes = (if props = [] then [] else '' ('' @ join_with '', '' (map cypher_quote props) @ '')'')
      in Some (''COPY '' @ cypher_quote rel_table @ colonnes @ '' FROM '' @ cypher_path_literal path
               @ '' (from='' @ [CHR 0x27] @ fst ends @ [CHR 0x27] @ '', to='' @ [CHR 0x27] @ snd ends @ [CHR 0x27] @ '', '' @ copy_options nul))"

definition rag3db_copy_nodes_from_csv :: "string \<Rightarrow> string \<Rightarrow> string list \<Rightarrow> string \<Rightarrow> string option" where
  "rag3db_copy_nodes_from_csv nul table columns path =
     Some (''COPY '' @ cypher_quote table @ '' ('' @ join_with '', '' (map cypher_quote columns) @ '') FROM '' @ cypher_path_literal path
           @ '' ('' @ copy_options nul)"

definition rag3db_write_methods :: "string \<Rightarrow> write_methods" where
  "rag3db_write_methods nul = \<lparr>
     wm_name = ''rag3db'',
     wm_bulk_load = True,
     wm_batch_upsert = rag3db_batch_upsert,
     wm_batch_link_labeled = rag3db_batch_link_labeled,
     wm_batch_update_fields = rag3db_batch_update_fields,
     wm_batch_set_null = rag3db_batch_set_null,
     wm_batch_cascade_delete = rag3db_batch_cascade_delete,
     wm_batch_delete = rag3db_batch_delete,
     wm_batch_cascade_delete_returning_count = rag3db_cascade_delete_returning_count,
     wm_batch_delete_relation = rag3db_batch_delete_relation,
     wm_detach_edges = rag3db_detach_edges,
     wm_copy_nodes_from_csv = rag3db_copy_nodes_from_csv nul,
     wm_copy_links_from_csv = rag3db_copy_links_from_csv nul\<rparr>"

section \<open>Forms in Cypher\<close>

definition rag3db_select_columns :: "select \<Rightarrow> string list" where
  "rag3db_select_columns s =
     (if s_by_uuids s then [''u''] else [])
     @ map (\<lambda>c. case c of CNode f \<Rightarrow> ''m.'' @ cypher_quote f | CWhole \<Rightarrow> ''m'' | _ \<Rightarrow> ''NULL'') (s_returns s)"

definition rag3db_hop_columns :: "hop \<Rightarrow> string list" where
  "rag3db_hop_columns h =
     ''u'' # map (\<lambda>c. case c of
         CNode f \<Rightarrow> ''m.'' @ cypher_quote f
       | CEdge f \<Rightarrow> ''r.'' @ cypher_quote f
       | CNull \<Rightarrow> ''NULL''
       | CLabel \<Rightarrow> ''label(m)''
       | CWhole \<Rightarrow> ''m''
       | CCollect _ \<Rightarrow> ''NULL'') (h_returns h)"

definition rag3db_write :: "string \<Rightarrow> ir_write \<Rightarrow> (translate_error, string) result" where
  "rag3db_write nul w =
     try_then (write_validate w) (\<lambda>_.
     case w of
       Mark table sets \<Rightarrow>
         if length sets \<noteq> 1 \<or> snd (hd sets) \<noteq> None
         then Ok (''UNWIND $uuids AS uuid MATCH (n:'' @ cypher_quote table @ '' {_uuid: uuid}) SET ''
              @ join_with '', '' (map (\<lambda>(f, p). case p of
                    Some q \<Rightarrow> ''n.'' @ cypher_quote f @ '' = $'' @ q
                  | None \<Rightarrow> ''n.'' @ cypher_quote f @ '' = NULL'') sets))
         else write_by_methods (rag3db_write_methods nul) w
     | _ \<Rightarrow> write_by_methods (rag3db_write_methods nul) w)"

text \<open>What \<open>select\<close> accumulates: the number of subqueries so far, the number of extremes so far, the
  text between the filter and the \<open>RETURN\<close>, and the variables each \<open>WITH\<close> carries on.\<close>

record select_state =
  ss_n :: nat
  ss_extremes :: nat
  ss_corps :: string
  ss_porte :: "string list"

definition rag3db_where :: "predicate option \<Rightarrow> string \<Rightarrow> nat \<Rightarrow> string \<times> nat" where
  "rag3db_where flt a n =
     (case flt of None \<Rightarrow> ([], n) | Some f \<Rightarrow> apfst (\<lambda>c. '' WHERE '' @ c) (rag3db_condition_sur f a n))"

definition rag3db_extreme :: "extremum \<Rightarrow> aggregate \<Rightarrow> select_state \<Rightarrow> string \<times> select_state" where
  "rag3db_extreme x a st =
     (let y = CHR ''a'' # decimal (ss_extremes st);
          nom = CHR ''k'' # decimal (ss_extremes st);
          motif = rag3db_motif ''m'' (ag_direction a) (ag_relation a) y (ag_end a);
          (condition, n) = rag3db_where (ag_filter a) y (ss_n st)
      in (nom, st\<lparr>ss_n := n, ss_extremes := Suc (ss_extremes st),
            ss_corps := ss_corps st @ '' OPTIONAL MATCH '' @ motif @ condition @ '' WITH '' @ join_with '', '' (ss_porte st)
              @ '', '' @ extremum_function x @ ''('' @ y @ ''.'' @ cypher_quote (ag_field a) @ '') AS '' @ nom,
            ss_porte := ss_porte st @ [nom]\<rparr>))"

definition rag3db_key :: "order_key \<Rightarrow> select_state \<Rightarrow> string \<times> select_state" where
  "rag3db_key k st =
     (let ((expr, sens, seul_extreme), st1) = cle_d_ordre cypher_quote k rag3db_extreme st
      in (if seul_extreme then expr @ '' IS NULL, '' @ expr @ sens else expr @ sens, st1))"

text \<open>One list of linked rows: an optional match, collected before the next.\<close>

definition rag3db_collect :: "nat \<Rightarrow> collect \<Rightarrow> select_state \<Rightarrow> select_state" where
  "rag3db_collect i c st =
     (let x = CHR ''c'' # decimal i;
          motif = rag3db_motif ''m'' (co_direction c) (co_relation c) x (co_end c);
          (condition, n) = rag3db_where (co_filter c) x (ss_n st);
          champs = join_with '', '' (map (\<lambda>f. f @ '': '' @ x @ ''.'' @ cypher_quote f) (co_fields c))
      in st\<lparr>ss_n := n,
           ss_corps := ss_corps st @ '' OPTIONAL MATCH '' @ motif @ condition @ '' WITH '' @ join_with '', '' (ss_porte st)
             @ '', coalesce(collect(CASE WHEN '' @ x @ '' IS NULL THEN NULL ELSE {'' @ champs @ ''} END), []) AS '' @ cypher_quote (co_alias c),
           ss_porte := ss_porte st @ [cypher_quote (co_alias c)]\<rparr>)"

fun rag3db_collects :: "nat \<Rightarrow> collect list \<Rightarrow> select_state \<Rightarrow> select_state" where
  "rag3db_collects i [] st = st"
| "rag3db_collects i (c # cs) st = rag3db_collects (Suc i) cs (rag3db_collect i c st)"

fun column_collect :: "column \<Rightarrow> collect option" where
  "column_collect (CCollect c) = Some c"
| "column_collect _ = None"

definition rag3db_return_columns :: "select \<Rightarrow> string list" where
  "rag3db_return_columns s =
     (if s_by_uuids s then [''u''] else [])
     @ map (\<lambda>c. case c of
         CNode f \<Rightarrow> ''m.'' @ cypher_quote f
       | CWhole \<Rightarrow> ''m''
       | CCollect l \<Rightarrow> cypher_quote (co_alias l)
       | _ \<Rightarrow> ''NULL'') (s_returns s)"

text \<open>The text before \<open>RETURN\<close> and the order after the columns.\<close>

definition rag3db_select_parts :: "select \<Rightarrow> string \<times> string" where
  "rag3db_select_parts s =
     (let (filtre, n) = rag3db_where (s_filter s) ''m'' 0;
          tete = (if s_by_uuids s
                  then ''UNWIND $uuids AS u MATCH (m:'' @ cypher_quote (s_table s) @ '' {_uuid: u})''
                  else ''MATCH (m:'' @ cypher_quote (s_table s) @ '')'');
          st = \<lparr>ss_n = n, ss_extremes = 0, ss_corps = [], ss_porte = (if s_by_uuids s then [''u''] else []) @ [''m'']\<rparr>;
          (cles, st1) = visit rag3db_key (s_order_by s) st;
          ordre = (if cles = [] then [] else '' ORDER BY '' @ join_with '', '' cles);
          st2 = rag3db_collects 0 (List.map_filter column_collect (s_returns s)) st1
      in (tete @ filtre @ ss_corps st2, ordre))"

definition rag3db_select :: "select \<Rightarrow> (translate_error, string) result" where
  "rag3db_select s =
     try_then (select_validate s) (\<lambda>_.
     try_then (borne_et_saut s) (\<lambda>(limit, offset).
     let borne = opt_text (\<lambda>k. '' SKIP '' @ decimal k) offset @ opt_text (\<lambda>l. '' LIMIT '' @ decimal l) limit;
         (avant, ordre) = rag3db_select_parts s
     in Ok (avant @ '' RETURN '' @ join_with '', '' (rag3db_return_columns s) @ ordre @ borne)))"

definition rag3db_count_rows :: "string \<Rightarrow> string" where
  "rag3db_count_rows table = ''MATCH (n:'' @ cypher_quote table @ '') RETURN count(n) AS cnt''"

definition rag3db_count :: "count \<Rightarrow> (translate_error, string) result" where
  "rag3db_count c =
     try_then (count_validate c) (\<lambda>_.
     Ok (case c of
       Rows table \<Rightarrow> rag3db_count_rows table
     | Matching table flt \<Rightarrow>
         ''MATCH (m:'' @ cypher_quote table @ '')'' @ opt_text (\<lambda>f. '' WHERE '' @ rag3db_condition f) flt @ '' RETURN count(m)''
     | EdgesMatching relation flt \<Rightarrow>
         ''MATCH ()-[m:'' @ cypher_quote relation @ '']->() WHERE '' @ rag3db_condition flt @ '' RETURN count(m)''
     | Edges start relation direction \<Rightarrow>
         (case direction of
            Incoming \<Rightarrow> ''UNWIND $uuids AS u MATCH (d:'' @ cypher_quote start @ '' {_uuid: u})<-[r:'' @ cypher_quote relation @ '']-() RETURN u, count(r)''
          | Outgoing \<Rightarrow> ''UNWIND $uuids AS u MATCH (d:'' @ cypher_quote start @ '' {_uuid: u})-[r:'' @ cypher_quote relation @ '']->() RETURN u, count(r)'')))"

definition apostrophes :: "string \<Rightarrow> string" where
  "apostrophes x = [CHR 0x27] @ x @ [CHR 0x27]"

definition rag3db_hop_conditions :: "hop \<Rightarrow> string list" where
  "rag3db_hop_conditions h =
     (case h_exclude h of
        None \<Rightarrow> []
      | Some x \<Rightarrow>
          let f = cypher_quote (ex_field x)
          in [''r.'' @ f @ '' IS NULL OR NOT r.'' @ f @ '' IN ['' @ join_with '', '' (map apostrophes (ex_values x)) @ '']''])
     @ (case h_filter h of None \<Rightarrow> [] | Some p \<Rightarrow> [rag3db_condition p])"

definition rag3db_hop_where :: "string list \<Rightarrow> string" where
  "rag3db_hop_where conditions =
     (case conditions of
        [] \<Rightarrow> []
      | [c] \<Rightarrow> '' WHERE '' @ c
      | _ \<Rightarrow> '' WHERE '' @ join_with '' AND '' (map (\<lambda>c. ''('' @ c @ '')'') conditions))"

definition rag3db_hop :: "hop \<Rightarrow> (translate_error, string) result" where
  "rag3db_hop h =
     try_then (hop_validate h) (\<lambda>_.
     let table = opt_text (\<lambda>t. CHR '':'' # cypher_quote t);
         d = table (h_start h); m = table (h_end h);
         relation = cypher_quote (h_relation h);
         pattern = (case h_direction h of
             Outgoing \<Rightarrow> ''(d'' @ d @ '' {_uuid: u})-[r:'' @ relation @ '']->(m'' @ m @ '')''
           | Incoming \<Rightarrow> ''(d'' @ d @ '' {_uuid: u})<-[r:'' @ relation @ '']-(m'' @ m @ '')'');
         filtre = rag3db_hop_where (rag3db_hop_conditions h);
         ordre = (if h_order_by h = [] then [] else '' ORDER BY '' @ join_with '', '' (map (\<lambda>f. ''m.'' @ cypher_quote f) (h_order_by h)));
         borne = opt_text (\<lambda>n. '' LIMIT '' @ decimal n) (h_limit h)
     in Ok (''UNWIND $uuids AS u MATCH '' @ pattern @ filtre @ '' RETURN '' @ join_with '', '' (rag3db_hop_columns h) @ ordre @ borne))"

section \<open>Fusion\<close>

definition return_word :: string where
  "return_word = '' RETURN ''"

definition unwind_word :: string where
  "unwind_word = ''UNWIND $uuids AS ''"

definition rag3db_fuse :: "string \<Rightarrow> form \<Rightarrow> nat \<Rightarrow> string \<Rightarrow> string option" where
  "rag3db_fuse upstream_text upstream column downstream_text =
     Option.bind (case upstream of
         FSelect s \<Rightarrow> if fondable s then Some (rag3db_select_columns s) else None
       | FHop h \<Rightarrow> if h_order_by h = [] \<and> h_limit h = None then Some (rag3db_hop_columns h) else None
       | _ \<Rightarrow> None) (\<lambda>colonnes.
     if length colonnes \<le> column then None
     else
     Option.bind (rfind return_word upstream_text) (\<lambda>coupe.
     if drop (coupe + length return_word) upstream_text \<noteq> join_with '', '' colonnes then None
     else
     Option.bind (strip_prefix unwind_word downstream_text) (\<lambda>reste.
     Option.bind (split_once CHR '' '' reste) (\<lambda>(variable, suite).
     if \<not> is_valid_identifier variable then None
     else Some (take coupe upstream_text @ '' WITH DISTINCT '' @ colonnes ! column
            @ '' AS __chain WHERE __chain IS NOT NULL WITH __chain AS '' @ variable @ '' '' @ suite)))))"

definition rag3db_branch_columns :: "form \<Rightarrow> string list option" where
  "rag3db_branch_columns f =
     (case f of
        FHop h \<Rightarrow> if h_order_by h = [] \<and> h_limit h = None then Some (rag3db_hop_columns h) else None
      | FSelect s \<Rightarrow> if s_by_uuids s \<and> fondable s then Some (rag3db_select_columns s) else None
      | FCount (Edges _ _ _) \<Rightarrow> Some [''u'', ''count(r)'']
      | _ \<Rightarrow> None)"

definition rag3db_branch :: "(string \<times> form) option \<Rightarrow> nat \<Rightarrow> nat \<times> string \<times> form \<Rightarrow> string option" where
  "rag3db_branch upstream rank branch =
     (case branch of (colonne, texte, forme) \<Rightarrow>
     Option.bind (rag3db_branch_columns forme) (\<lambda>colonnes.
     Option.bind (case upstream of
         Some (amont, forme_amont) \<Rightarrow> rag3db_fuse amont forme_amont colonne texte
       | None \<Rightarrow> Some texte) (\<lambda>texte.
     Option.bind (rfind return_word texte) (\<lambda>coupe.
     if drop (coupe + length return_word) texte \<noteq> join_with '', '' colonnes then None
     else Some (take coupe texte @ '' RETURN '' @ decimal rank @ '' AS __branch, ''
            @ join_with '', '' (map (\<lambda>(i, c). c @ '' AS c'' @ decimal i) (enumerate 0 colonnes)))))))"

definition rag3db_fuse_fanout :: "(string \<times> form) option \<Rightarrow> (nat \<times> string \<times> form) list \<Rightarrow> string option" where
  "rag3db_fuse_fanout upstream branches =
     map_option (join_with '' UNION ALL '') (those (map (\<lambda>(rank, b). rag3db_branch upstream rank b) (enumerate 0 branches)))"

definition rag3db_dialect :: "string \<Rightarrow> dialect" where
  "rag3db_dialect nul = \<lparr>
     d_hop = rag3db_hop,
     d_count = rag3db_count,
     d_select = rag3db_select,
     d_write = rag3db_write nul,
     d_untranslated = untranslated ''rag3db'',
     d_cap_transactions = True,
     d_cap_fanout = False,
     d_snapshot_read = None,
     d_fuse = rag3db_fuse,
     d_fuse_fanout = rag3db_fuse_fanout\<rparr>"

section \<open>The columns of a text\<close>

text \<open>The columns a text of the dialect returns, form by form.\<close>

fun rag3db_columns :: "form \<Rightarrow> string list" where
  "rag3db_columns (FHop h) = rag3db_hop_columns h"
| "rag3db_columns (FSelect s) = rag3db_return_columns s"
| "rag3db_columns (FCount (Rows _)) = [''count(n) AS cnt'']"
| "rag3db_columns (FCount (Edges _ _ _)) = [''u'', ''count(r)'']"
| "rag3db_columns (FCount (Matching _ _)) = [''count(m)'']"
| "rag3db_columns (FCount (EdgesMatching _ _)) = [''count(m)'']"
| "rag3db_columns (FWrite (Upsert _ _)) = [''ID(n)'', ''item._uuid'']"
| "rag3db_columns (FWrite (Delete _ _ _ cnt)) = (if cnt then [''uuid'', ''count(c) AS cnt''] else [])"
| "rag3db_columns (FWrite _) = []"

text \<open>What may follow the columns: an order and a bound.\<close>

definition tail_of_text :: "string \<Rightarrow> bool" where
  "tail_of_text suf = (suf = [] \<or> starts_with '' ORDER BY '' suf \<or> starts_with '' SKIP '' suf \<or> starts_with '' LIMIT '' suf)"

lemma rag3db_columns_length: "length (rag3db_columns f) = length (form_output f)"
proof (cases f)
  case (FCount c)
  then show ?thesis by (cases c) simp_all
next
  case (FWrite w)
  then show ?thesis by (cases w) simp_all
qed (simp_all add: rag3db_hop_columns_def rag3db_return_columns_def)

lemma tail_bound: "tail_of_text (opt_text (\<lambda>k. '' SKIP '' @ f k) a @ opt_text (\<lambda>l. '' LIMIT '' @ g l) b)"
  by (cases a; cases b) (auto simp: tail_of_text_def opt_text_def)

lemma tail_order: "tail_of_text suf \<Longrightarrow> ordre = [] \<or> starts_with '' ORDER BY '' ordre \<Longrightarrow> tail_of_text (ordre @ suf)"
  by (auto simp: tail_of_text_def starts_with_iff)

lemma select_parts_order:
  "snd (rag3db_select_parts s) = [] \<or> starts_with '' ORDER BY '' (snd (rag3db_select_parts s))"
  "s_order_by s = [] \<Longrightarrow> snd (rag3db_select_parts s) = []"
  by (auto simp: rag3db_select_parts_def Let_def case_prod_beta)

lemma rag3db_select_text:
  assumes "rag3db_select s = Inr t"
  shows "\<exists>pre suf. t = pre @ return_word @ join_with '', '' (rag3db_return_columns s) @ suf \<and> tail_of_text suf
    \<and> (fondable s \<longrightarrow> suf = [])"
proof -
  obtain limit offset where b: "borne_et_saut s = Inr (limit, offset)" using assms by (auto simp: rag3db_select_def)
  have f: "fondable s \<Longrightarrow> limit = None \<and> offset = None" using b by (auto simp: borne_et_saut_def fondable_def)
  let ?suf = "snd (rag3db_select_parts s) @ opt_text (\<lambda>k. '' SKIP '' @ decimal k) offset @ opt_text (\<lambda>l. '' LIMIT '' @ decimal l) limit"
  have "tail_of_text ?suf" by (rule tail_order [OF tail_bound select_parts_order(1)])
  moreover have "t = fst (rag3db_select_parts s) @ return_word @ join_with '', '' (rag3db_return_columns s) @ ?suf"
    using assms b by (auto simp: rag3db_select_def return_word_def Let_def case_prod_beta)
  moreover have "fondable s \<longrightarrow> ?suf = []" using f select_parts_order(2) by (auto simp: fondable_def opt_text_def)
  ultimately show ?thesis by blast
qed

lemma rag3db_hop_text:
  assumes "rag3db_hop h = Inr t"
  shows "\<exists>pre suf. t = pre @ return_word @ join_with '', '' (rag3db_hop_columns h) @ suf \<and> tail_of_text suf
    \<and> (h_order_by h = [] \<and> h_limit h = None \<longrightarrow> suf = [])"
proof -
  let ?ordre = "if h_order_by h = [] then [] else '' ORDER BY '' @ join_with '', '' (map (\<lambda>f. ''m.'' @ cypher_quote f) (h_order_by h))"
  let ?suf = "?ordre @ opt_text (\<lambda>n. '' LIMIT '' @ decimal n) (h_limit h)"
  have "tail_of_text (opt_text (\<lambda>n. '' LIMIT '' @ decimal n) (h_limit h))"
    using tail_bound [where a = None] by (simp add: opt_text_def)
  then have "tail_of_text ?suf" by (rule tail_order) auto
  moreover have "\<exists>pre. t = pre @ return_word @ join_with '', '' (rag3db_hop_columns h) @ ?suf"
    using assms by (auto simp: rag3db_hop_def return_word_def Let_def)
  moreover have "h_order_by h = [] \<and> h_limit h = None \<longrightarrow> ?suf = []" by (simp add: opt_text_def)
  ultimately show ?thesis by blast
qed

lemma rag3db_count_text:
  assumes "rag3db_count c = Inr t"
  shows "\<exists>pre. t = pre @ return_word @ join_with '', '' (rag3db_columns (FCount c))"
  using assms by (cases c; cases "case c of Edges _ _ d \<Rightarrow> d | _ \<Rightarrow> Outgoing")
    (auto simp: rag3db_count_def rag3db_count_rows_def return_word_def split: direction.splits)

lemma rag3db_write_text:
  assumes "rag3db_write nul w = Inr t" "form_output (FWrite w) \<noteq> []"
  shows "\<exists>pre. t = pre @ return_word @ join_with '', '' (rag3db_columns (FWrite w))"
  using assms by (cases w)
    (auto simp: rag3db_write_def write_by_methods_def rag3db_write_methods_def rag3db_batch_upsert_def
      rag3db_cascade_delete_returning_count_def return_word_def split: if_splits)

section \<open>Where a text is cut\<close>

text \<open>A text in which no space stands before the letter \<open>R\<close>: the word \<open>RETURN\<close> does not stand in it.\<close>

fun calm :: "string \<Rightarrow> bool" where
  "calm [] = True"
| "calm (c # cs) = ((c = CHR '' '' \<longrightarrow> cs = [] \<or> hd cs \<noteq> CHR ''R'') \<and> calm cs)"

lemma calm_rfind: "calm s \<Longrightarrow> rfind return_word s = None"
proof (induction s)
  case (Cons c cs)
  then show ?case by (cases cs) (auto simp: return_word_def)
qed (simp add: return_word_def)

lemma rfind_before: "rfind w x = Some i \<Longrightarrow> rfind w (a @ x) = Some (length a + i)"
  by (induction a) auto

lemma rfind_here: "rfind (c # w) (w @ b) = None \<Longrightarrow> rfind (c # w) ((c # w) @ b) = Some 0"
  by (simp add: starts_with_iff)

lemma rfind_return:
  assumes "calm b" "b = [] \<or> hd b \<noteq> CHR ''R''"
  shows "rfind return_word (a @ return_word @ b) = Some (length a)"
proof -
  have "calm (''RETURN '' @ b)" using assms by simp
  then have n: "rfind return_word (''RETURN '' @ b) = None" by (rule calm_rfind)
  have "rfind return_word (return_word @ b) = Some 0"
    unfolding return_word_def by (rule rfind_here) (rule n [unfolded return_word_def])
  then show ?thesis using rfind_before by fastforce
qed

lemma calm_no_space: "CHR '' '' \<notin> set c \<Longrightarrow> calm (c @ rest) = calm rest"
  by (induction c) auto

lemma calm_join:
  assumes "\<forall>c \<in> set cs. c \<noteq> [] \<and> CHR '' '' \<notin> set c \<and> hd c \<noteq> CHR ''R''"
  shows "calm (join_with '', '' cs) \<and> (cs = [] \<or> hd (join_with '', '' cs) \<noteq> CHR ''R'')"
  using assms
proof (induction "'', ''" cs rule: join_with.induct)
  case (2 x)
  then show ?case using calm_no_space [of x "[]"] by simp
next
  case (3 x y zs)
  then have "calm (join_with '', '' (y # zs)) \<and> hd (join_with '', '' (y # zs)) \<noteq> CHR ''R''" by auto
  then show ?case using 3(2) by (simp add: calm_no_space)
qed simp

lemma cypher_quote_chars: "is_valid_identifier f \<Longrightarrow> CHR '' '' \<notin> set (cypher_quote f)"
  using cypher_quote_plain [of f] by (auto simp: plain_def)

text \<open>The columns of a form that can be fused upstream, and what the validation gives of them.\<close>

definition fusable_columns :: "form \<Rightarrow> string list option" where
  "fusable_columns f =
     (case f of
        FSelect s \<Rightarrow> if fondable s then Some (rag3db_select_columns s) else None
      | FHop h \<Rightarrow> if h_order_by h = [] \<and> h_limit h = None then Some (rag3db_hop_columns h) else None
      | _ \<Rightarrow> None)"

lemma fondable_columns: "fondable s \<Longrightarrow> rag3db_select_columns s = rag3db_return_columns s"
  by (auto simp: fondable_def rag3db_select_columns_def rag3db_return_columns_def list_ex_iff split: column.splits)

lemma translated_fusable:
  assumes "translate (rag3db_dialect nul) f = Inr t" "fusable_columns f = Some cs"
  shows "cs = rag3db_columns f" "\<exists>pre. t = pre @ return_word @ join_with '', '' cs"
    "\<forall>c \<in> set cs. c \<noteq> [] \<and> CHR '' '' \<notin> set c \<and> hd c \<noteq> CHR ''R''"
proof -
  show cs: "cs = rag3db_columns f" using assms(2) fondable_columns by (cases f) (auto simp: fusable_columns_def split: if_splits)
  show "\<exists>pre. t = pre @ return_word @ join_with '', '' cs"
    using assms cs rag3db_select_text rag3db_hop_text
    by (cases f) (force simp: fusable_columns_def rag3db_dialect_def split: if_splits)+
  show "\<forall>c \<in> set cs. c \<noteq> [] \<and> CHR '' '' \<notin> set c \<and> hd c \<noteq> CHR ''R''"
  proof (cases f)
    case (FHop h)
    then have "hop_validate h = Inr ()" using assms(1) by (auto simp: rag3db_dialect_def rag3db_hop_def)
    then have "\<forall>x \<in> set (List.map_filter column_name (h_returns h)). is_valid_identifier x"
      by (auto simp: hop_validate_def hop_names_def split: if_splits)
    then have v: "CNode x \<in> set (h_returns h) \<Longrightarrow> is_valid_identifier x" "CEdge x \<in> set (h_returns h) \<Longrightarrow> is_valid_identifier x" for x
      by (force simp: List.map_filter_def)+
    show ?thesis unfolding cs FHop rag3db_columns.simps rag3db_hop_columns_def
      by (auto split: column.splits dest!: v simp: cypher_quote_chars)
  next
    case (FSelect s)
    then have "select_validate s = Inr ()" using assms(1) by (auto simp: rag3db_dialect_def rag3db_select_def)
    then have "is_valid_identifier x" if "c \<in> set (s_returns s)" "x \<in> set (column_idents c)" for c x
      using that by (auto simp: select_validate_iff select_idents_def)
    then have v: "CNode x \<in> set (s_returns s) \<Longrightarrow> is_valid_identifier x" "CCollect l \<in> set (s_returns s) \<Longrightarrow> is_valid_identifier (co_alias l)" for x l
      by fastforce+
    show ?thesis unfolding cs FSelect rag3db_columns.simps rag3db_return_columns_def
      by (auto split: column.splits dest!: v simp: cypher_quote_chars) (simp_all add: cypher_quote_def)
  qed (use assms(2) in \<open>simp_all add: fusable_columns_def\<close>)
qed

lemma fuse_cut:
  assumes "fusable_columns f = Some cs" "\<forall>c \<in> set cs. c \<noteq> [] \<and> CHR '' '' \<notin> set c \<and> hd c \<noteq> CHR ''R''" "column < length cs"
    "is_valid_identifier var"
  shows "rag3db_fuse (pre @ return_word @ join_with '', '' cs) f column (unwind_word @ var @ CHR '' '' # suite) =
    Some (pre @ '' WITH DISTINCT '' @ cs ! column @ '' AS __chain WHERE __chain IS NOT NULL WITH __chain AS '' @ var @ '' '' @ suite)"
proof -
  have r: "rfind return_word (pre @ return_word @ join_with '', '' cs) = Some (length pre)"
    using calm_join [OF assms(2)] by (intro rfind_return) (auto split: if_splits)
  have v: "CHR '' '' \<notin> set var" using identifier_plain [OF assms(4)] by (auto simp: plain_def)
  have "strip_prefix unwind_word (unwind_word @ x) = Some x" for x by (simp add: strip_prefix_def starts_with_iff)
  then show ?thesis using assms r v split_once_append [OF v, of suite]
    by (simp add: rag3db_fuse_def fusable_columns_def [symmetric])
qed

text \<open>A form fed by uuids is written from \<open>UNWIND\<close> on, over a variable.\<close>

lemma fed_text:
  assumes "translate (rag3db_dialect nul) f = Inr t" "form_slot f = Some SUuids"
  shows "\<exists>var suite. is_valid_identifier var \<and> t = unwind_word @ var @ CHR '' '' # suite"
proof -
  have v: "is_valid_identifier ''u''" "is_valid_identifier ''uuid''"
    by (simp_all add: is_ascii_alphabetic_def is_ascii_alphanumeric_def char_code_def)
  have u: "\<exists>var suite. is_valid_identifier var \<and> unwind_word @ ''u'' @ CHR '' '' # x = unwind_word @ var @ CHR '' '' # suite"
    "\<exists>var suite. is_valid_identifier var \<and> unwind_word @ ''uuid'' @ CHR '' '' # x = unwind_word @ var @ CHR '' '' # suite" for x
    using v by blast+
  note w = u [unfolded unwind_word_def, simplified]
  show ?thesis
  proof (cases f)
    case (FHop h)
    then show ?thesis using assms w(1) by (auto simp: rag3db_dialect_def rag3db_hop_def unwind_word_def Let_def)
  next
    case (FSelect s)
    then show ?thesis using assms w(1)
      by (auto simp: rag3db_dialect_def rag3db_select_def rag3db_select_parts_def unwind_word_def Let_def case_prod_beta split: if_splits)
  next
    case (FCount c)
    then show ?thesis using assms w(1)
      by (cases c) (auto simp: rag3db_dialect_def rag3db_count_def unwind_word_def split: direction.splits)
  next
    case (FWrite wr)
    then show ?thesis using assms w(2)
      by (cases wr) (auto simp: rag3db_dialect_def rag3db_write_def write_by_methods_def rag3db_write_methods_def unwind_word_def
          rag3db_batch_set_null_def rag3db_batch_delete_def rag3db_batch_cascade_delete_def rag3db_cascade_delete_returning_count_def
          split: if_splits list.splits option.splits)
  qed
qed

section \<open>String literals of the engine\<close>

text \<open>
  What the engine reads of a string literal. The lexer (\<open>StringLiteral\<close> and \<open>EscapedChar\<close> in
  \<open>Cypher.g4\<close>) finds where the literal ends: \<open>lex_content\<close> gives the text between the quotes and
  what follows. \<open>transformStringLiteral\<close> (\<open>transformer.cpp\<close>) then replaces the escapes; what it
  holds for unreachable is \<open>None\<close>. Texts are bytes, in UTF-8.
\<close>

definition hex_digit :: "char \<Rightarrow> nat option" where
  "hex_digit c =
     (let n = char_code c in
      if 48 \<le> n \<and> n \<le> 57 then Some (n - 48)
      else if 65 \<le> n \<and> n \<le> 70 then Some (n - 55)
      else if 97 \<le> n \<and> n \<le> 102 then Some (n - 87)
      else None)"

definition hex_digits :: "nat \<Rightarrow> string \<Rightarrow> bool" where
  "hex_digits n s = (n \<le> length s \<and> list_all (\<lambda>c. hex_digit c \<noteq> None) (take n s))"

definition hex_number :: "string \<Rightarrow> nat" where
  "hex_number s = foldl (\<lambda>n c. 16 * n + the (hex_digit c)) 0 s"

text \<open>The length of an escape after its backslash. After \<open>\u\<close> the grammar takes four or eight digits; the
  last four are ordinary characters too.\<close>

definition escape_length :: "string \<Rightarrow> nat option" where
  "escape_length s =
     (if s = [] then None
      else if hd s \<in> set ([CHR 0x5C, CHR 0x27, CHR 0x22] @ ''bBfFnNrRtT'') then Some 1
      else if hd s \<in> set ''xX'' \<and> hex_digits 2 (tl s) then Some 3
      else if hd s \<in> set ''uU'' \<and> hex_digits 4 (tl s) then Some 5
      else None)"

function lex_content :: "char \<Rightarrow> string \<Rightarrow> (string \<times> string) option" where
  "lex_content quote [] = None"
| "lex_content quote (c # cs) =
     (if c = quote then Some ([], cs)
      else if c = CHR 0x5C then
        (case escape_length cs of
           None \<Rightarrow> None
         | Some n \<Rightarrow> map_option (apfst (\<lambda>x. c # take n cs @ x)) (lex_content quote (drop n cs)))
      else map_option (apfst (Cons c)) (lex_content quote cs))"
  by pat_completeness auto
termination by (relation "measure (length \<circ> snd)") auto

text \<open>A code point in UTF-8.\<close>

definition code_point_bytes :: "nat \<Rightarrow> string option" where
  "code_point_bytes h =
     (if h \<le> 0x7F then Some [char_of h]
      else if h \<le> 0x7FF then Some [char_of (0xC0 + h div 64), char_of (0x80 + h mod 64)]
      else if h \<le> 0xFFFF then Some [char_of (0xE0 + h div 4096), char_of (0x80 + h div 64 mod 64), char_of (0x80 + h mod 64)]
      else if h \<le> 0x10FFFF then
        Some [char_of (0xF0 + h div 262144), char_of (0x80 + h div 4096 mod 64), char_of (0x80 + h div 64 mod 64), char_of (0x80 + h mod 64)]
      else None)"

definition control_escape :: "char \<Rightarrow> nat option" where
  "control_escape e =
     (if e \<in> set ''bB'' then Some 8 else if e \<in> set ''fF'' then Some 12 else if e \<in> set ''nN'' then Some 10
      else if e \<in> set ''rR'' then Some 13 else if e \<in> set ''tT'' then Some 9 else None)"

function transform_string_literal :: "string \<Rightarrow> string option" where
  "transform_string_literal [] = Some []"
| "transform_string_literal (c # cs) =
     (if c \<noteq> CHR 0x5C \<or> cs = [] then map_option (Cons c) (transform_string_literal cs)
      else if hd cs \<in> {CHR 0x5C, CHR 0x27, CHR 0x22} then map_option (Cons (hd cs)) (transform_string_literal (tl cs))
      else (case control_escape (hd cs) of
          Some n \<Rightarrow> map_option (Cons (char_of n)) (transform_string_literal (tl cs))
        | None \<Rightarrow>
            if hd cs \<in> set ''xX'' then map_option (append (take 4 (c # cs))) (transform_string_literal (drop 3 cs))
            else if hd cs \<in> set ''uU'' then
              (let n = (if hd cs = CHR ''u'' then 4 else 8) in
               if \<not> hex_digits n (tl cs) then None
               else (case code_point_bytes (hex_number (take n (tl cs))) of
                       None \<Rightarrow> None
                     | Some bs \<Rightarrow> map_option (append bs) (transform_string_literal (drop n (tl cs)))))
            else None))"
  by pat_completeness auto
termination by (relation "measure length") auto

definition read_string_literal :: "string \<Rightarrow> (string \<times> string) option" where
  "read_string_literal t =
     (case t of
        [] \<Rightarrow> None
      | q # cs \<Rightarrow>
          if q \<notin> {CHR 0x27, CHR 0x22} then None
          else (case lex_content q cs of
                  None \<Rightarrow> None
                | Some (content, rest) \<Rightarrow> map_option (\<lambda>x. (x, rest)) (transform_string_literal content)))"

lemma lex_escaped: "lex_content CHR 0x27 (concat (map escape_char p) @ CHR 0x27 # rest) = Some (concat (map escape_char p), rest)"
  by (induction p) (auto simp: escape_char_def escape_length_def)

lemma transform_escaped: "transform_string_literal (concat (map escape_char p)) = Some p"
  by (induction p) (auto simp: escape_char_def)

text \<open>A path written as it is would be another one: the \<open>\t\<close> of a folder is a tabulation.\<close>

lemma bare_path_is_misread:
  "read_string_literal ([CHR 0x27] @ ''C:'' @ [CHR 0x5C] @ ''tmp'' @ [CHR 0x27]) = Some (''C:'' @ [CHR 0x09] @ ''mp'', [])"
  by code_simp

text \<open>The writes the dialect has a text for.\<close>

definition writable :: "ir_write \<Rightarrow> bool" where
  "writable w = (case w of Delete _ key cascade cnt \<Rightarrow> (key = ''_uuid'' \<and> \<not> cnt) \<or> (cascade \<and> cnt) | _ \<Rightarrow> True)"

lemma rag3db_write_iff: "is_ok (rag3db_write nul w) \<longleftrightarrow> write_validate w = Inr () \<and> writable w"
proof (cases "write_validate w")
  case (Inr u)
  then show ?thesis
    by (cases w) (auto simp: rag3db_write_def write_by_methods_def rag3db_write_methods_def writable_def rag3db_detach_edges_def
        rag3db_copy_nodes_from_csv_def rag3db_copy_links_from_csv_def Let_def split: load_target.splits list.splits option.splits)
qed (simp add: rag3db_write_def)

section \<open>What the columns of a text are\<close>

text \<open>
  What a column of a result holds: the uuid (or the key) the row was asked for, a field of the
  matched node, a field of the edge walked, the label of the node, the whole node, nothing, a list
  of linked rows, a count of nodes or of edges, or the internal identifier. \<open>form_cells\<close> is what a
  form declares.
\<close>

datatype cell =
    Asked
  | NodeField string
  | EdgeField string
  | EndLabel
  | WholeNode
  | NoValue
  | Collected string
  | CountNodes
  | CountEdges
  | RowId

fun column_cell :: "column \<Rightarrow> cell" where
  "column_cell (CNode f) = NodeField f"
| "column_cell (CEdge f) = EdgeField f"
| "column_cell CNull = NoValue"
| "column_cell CLabel = EndLabel"
| "column_cell CWhole = WholeNode"
| "column_cell (CCollect c) = Collected (co_alias c)"

fun form_cells :: "form \<Rightarrow> cell list" where
  "form_cells (FHop h) = Asked # map column_cell (h_returns h)"
| "form_cells (FSelect s) = (if s_by_uuids s then [Asked] else []) @ map column_cell (s_returns s)"
| "form_cells (FCount (Rows _)) = [CountNodes]"
| "form_cells (FCount (Matching _ _)) = [CountNodes]"
| "form_cells (FCount (Edges _ _ _)) = [Asked, CountEdges]"
| "form_cells (FCount (EdgesMatching _ _)) = [CountEdges]"
| "form_cells (FWrite (Upsert _ _)) = [RowId, Asked]"
| "form_cells (FWrite (Delete _ _ _ cnt)) = (if cnt then [Asked, CountNodes] else [])"
| "form_cells (FWrite _) = []"

text \<open>The kinds of \<open>form_output\<close> a cell can have.\<close>

fun cell_kinds :: "cell \<Rightarrow> column_kind list" where
  "cell_kinds Asked = [KUuid, KValue]"
| "cell_kinds (NodeField f) = (if f = ''_uuid'' then [KUuid] else [KValue])"
| "cell_kinds WholeNode = [KWhole]"
| "cell_kinds CountNodes = [KCount]"
| "cell_kinds CountEdges = [KCount]"
| "cell_kinds _ = [KValue]"

text \<open>
  How a text binds its variables: what is asked for, the node and the edge. The text of a form
  begins with the pattern that binds them.
\<close>

fun form_variables :: "form \<Rightarrow> string \<times> string \<times> string" where
  "form_variables (FCount (Rows _)) = ([], ''n'', [])"
| "form_variables (FCount (EdgesMatching _ _)) = ([], [], ''m'')"
| "form_variables (FWrite (Upsert _ _)) = (''item._uuid'', ''n'', [])"
| "form_variables (FWrite (Delete _ _ _ _)) = (''uuid'', ''c'', [])"
| "form_variables _ = (''u'', ''m'', ''r'')"

definition of_table :: "string option \<Rightarrow> string" where
  "of_table t = (case t of None \<Rightarrow> [] | Some x \<Rightarrow> '':`'' @ x @ ''`'')"

fun edge_pattern :: "direction \<Rightarrow> string \<Rightarrow> string" where
  "edge_pattern Outgoing r = ''-[r:`'' @ r @ ''`]->''"
| "edge_pattern Incoming r = ''<-[r:`'' @ r @ ''`]-''"

fun binding_pattern :: "form \<Rightarrow> string" where
  "binding_pattern (FHop h) = ''UNWIND $uuids AS u MATCH (d'' @ of_table (h_start h) @ '' {_uuid: u})''
     @ edge_pattern (h_direction h) (h_relation h) @ ''(m'' @ of_table (h_end h) @ '')''"
| "binding_pattern (FSelect s) =
     (if s_by_uuids s then ''UNWIND $uuids AS u MATCH (m'' @ of_table (Some (s_table s)) @ '' {_uuid: u})''
      else ''MATCH (m'' @ of_table (Some (s_table s)) @ '')'')"
| "binding_pattern (FCount (Rows t)) = ''MATCH (n'' @ of_table (Some t) @ '')''"
| "binding_pattern (FCount (Matching t _)) = ''MATCH (m'' @ of_table (Some t) @ '')''"
| "binding_pattern (FCount (Edges t r d)) =
     ''UNWIND $uuids AS u MATCH (d'' @ of_table (Some t) @ '' {_uuid: u})'' @ edge_pattern d r @ ''()''"
| "binding_pattern (FCount (EdgesMatching r _)) = ''MATCH ()-[m:`'' @ r @ ''`]->()''"
| "binding_pattern (FWrite (Upsert t _)) = ''UNWIND $items AS item WITH item, item._uuid AS __cle_0 MERGE (n'' @ of_table (Some t) @ '' {_uuid: __cle_0})''"
| "binding_pattern (FWrite (Delete t key _ _)) = ''UNWIND $uuids AS uuid MATCH (c'' @ of_table (Some t) @ '' {`'' @ key @ ''`: uuid})''"
| "binding_pattern (FWrite _) = []"

text \<open>Reading a column of a text, under its variables.\<close>

definition between_quotes :: "string \<Rightarrow> string option" where
  "between_quotes e = (if 2 \<le> length e \<and> hd e = CHR ''`'' \<and> last e = CHR ''`'' then Some (butlast (tl e)) else None)"

fun read_column :: "string \<times> string \<times> string \<Rightarrow> string \<Rightarrow> cell option" where
  "read_column (ask, node, edge) e =
     (if e = ask then Some Asked
      else if e = node then Some WholeNode
      else if e = ''NULL'' then Some NoValue
      else if e = ''label('' @ node @ '')'' then Some EndLabel
      else if e = ''ID('' @ node @ '')'' then Some RowId
      else if e \<in> {''count('' @ node @ '')'', ''count('' @ node @ '') AS cnt''} then Some CountNodes
      else if e = ''count('' @ edge @ '')'' then Some CountEdges
      else if starts_with (node @ ''.'') e then map_option NodeField (between_quotes (drop (Suc (length node)) e))
      else if starts_with (edge @ ''.'') e then map_option EdgeField (between_quotes (drop (Suc (length edge)) e))
      else map_option Collected (between_quotes e))"

lemma between_quotes_quoted [simp]: "between_quotes (CHR ''`'' # x @ ''`'') = Some x"
  by (simp add: between_quotes_def)

lemma form_cells_output: "list_all2 (\<lambda>c k. k \<in> set (cell_kinds c)) (form_cells f) (form_output f)"
proof -
  have "column_kind_of c \<in> set (cell_kinds (column_cell c))" for c by (cases c) simp_all
  then have m: "list_all2 (\<lambda>c k. k \<in> set (cell_kinds c)) (map column_cell cs) (map column_kind_of cs)" for cs
    by (induction cs) simp_all
  show ?thesis
  proof (cases f)
    case (FCount c)
    then show ?thesis by (cases c) simp_all
  next
    case (FWrite w)
    then show ?thesis by (cases w) simp_all
  qed (simp_all add: m)
qed

lemma decimal_0: "decimal 0 = ''0''"
  by code_simp

lemma text_binds:
  assumes "translate (rag3db_dialect nul) f = Inr t" "form_output f \<noteq> []"
  shows "starts_with (binding_pattern f) t"
proof (cases f)
  case (FHop h)
  then show ?thesis using assms(1)
    by (cases "h_direction h") (auto simp: rag3db_dialect_def rag3db_hop_def of_table_def opt_text_def cypher_quote_def starts_with_iff Let_def
        split: option.splits)
next
  case (FSelect s)
  then show ?thesis using assms(1)
    by (auto simp: rag3db_dialect_def rag3db_select_def rag3db_select_parts_def of_table_def cypher_quote_def starts_with_iff Let_def
        case_prod_beta)
next
  case (FCount c)
  then show ?thesis using assms(1)
    by (cases c) (auto simp: rag3db_dialect_def rag3db_count_def rag3db_count_rows_def of_table_def cypher_quote_def starts_with_iff
        split: direction.splits)
next
  case (FWrite w)
  then show ?thesis using assms
    by (cases w) (auto simp: rag3db_dialect_def rag3db_write_def write_by_methods_def rag3db_write_methods_def rag3db_batch_upsert_def
        rag3db_cascade_delete_returning_count_def unwind_par_cle_def par_uuid_def cle_de_ligne_def opt_text_def decimal_0
        of_table_def cypher_quote_def starts_with_iff split: if_splits)
qed

lemma hop_columns_read:
  assumes "hop_validate h = Inr ()"
  shows "map (read_column (''u'', ''m'', ''r'')) (rag3db_hop_columns h) = map Some (Asked # map column_cell (h_returns h))"
proof -
  have "CCollect l \<notin> set (h_returns h)" for l using assms by (auto simp: hop_validate_def list_ex_iff split: if_splits)
  then show ?thesis by (auto simp: rag3db_hop_columns_def cypher_quote_def split: column.splits)
qed

lemma select_columns_read:
  assumes "select_validate s = Inr ()"
  shows "map (read_column (''u'', ''m'', ''r'')) (rag3db_return_columns s)
    = map Some ((if s_by_uuids s then [Asked] else []) @ map column_cell (s_returns s))"
proof -
  have "\<forall>c \<in> set (s_returns s). column_in_table c" using assms by (auto simp: select_validate_iff)
  then have "CEdge g \<notin> set (s_returns s)" "CLabel \<notin> set (s_returns s)" for g by (metis column_in_table.simps)+
  then show ?thesis by (auto simp: rag3db_return_columns_def cypher_quote_def split: column.splits)
qed

lemma columns_read:
  assumes "translate (rag3db_dialect nul) f = Inr t"
  shows "map (read_column (form_variables f)) (rag3db_columns f) = map Some (form_cells f)"
proof (cases f)
  case (FHop h)
  then show ?thesis using assms hop_columns_read [of h] by (auto simp: rag3db_dialect_def rag3db_hop_def)
next
  case (FSelect s)
  then show ?thesis using assms select_columns_read [of s] by (auto simp: rag3db_dialect_def rag3db_select_def)
next
  case (FCount c)
  then show ?thesis by (cases c) simp_all
next
  case (FWrite w)
  then show ?thesis by (cases w) simp_all
qed

section \<open>Properties\<close>

text \<open>
  C22. The text of every form with an output returns the columns the form declares, each in its
  place. The text begins with the pattern that binds its variables to what is asked for, to the
  node and to the edge. After its \<open>RETURN\<close> stand as many columns as the form declares, each of
  them reading, under these variables, as the declared one: the field \<open>f\<close> of the node as \<open>f\<close> of the
  node's variable, a field of the edge on the edge's variable, and so on; then an order and a bound
  at most. The kinds \<open>form_output\<close> gives of the columns, by which the executor and the edges of a
  plan find the uuids, are kinds of these. (A write other than an upsert and a counted deletion has
  no output.)
\<close>

theorem translated_columns_match_output:
  assumes "translate (rag3db_dialect nul) f = Ok t" "form_output f \<noteq> []"
  shows "\<exists>pre cols suf. t = pre @ return_word @ join_with '', '' cols @ suf \<and> tail_of_text suf
    \<and> starts_with (binding_pattern f) t
    \<and> map (read_column (form_variables f)) cols = map Some (form_cells f)
    \<and> list_all2 (\<lambda>c k. k \<in> set (cell_kinds c)) (form_cells f) (form_output f)"
proof -
  have "\<exists>pre suf. t = pre @ return_word @ join_with '', '' (rag3db_columns f) @ suf \<and> tail_of_text suf"
  proof (cases f)
    case (FHop h)
    then show ?thesis using assms(1) rag3db_hop_text [of h t] by (auto simp: rag3db_dialect_def)
  next
    case (FSelect s)
    then show ?thesis using assms(1) rag3db_select_text [of s t] by (auto simp: rag3db_dialect_def)
  next
    case (FCount c)
    then show ?thesis using assms(1) rag3db_count_text [of c t] by (force simp: rag3db_dialect_def tail_of_text_def)
  next
    case (FWrite w)
    then show ?thesis using assms rag3db_write_text [of nul w t] by (force simp: rag3db_dialect_def tail_of_text_def)
  qed
  then show ?thesis using text_binds [OF assms] columns_read [OF assms(1)] form_cells_output by blast
qed

definition demo_hop :: form where
  "demo_hop = FHop (hop_new ''A'' ''R'' ''B'' Outgoing)"

lemma demo_hop_text:
  "translate (rag3db_dialect ''nul'') demo_hop = Ok ''UNWIND $uuids AS u MATCH (d:`A` {_uuid: u})-[r:`R`]->(m:`B`) RETURN u, m.`_uuid`''"
  by code_simp

text \<open>A hop that returns a field of the edge and a field of the same name of the node.\<close>

definition both_hop :: form where
  "both_hop = FHop ((hop_new ''A'' ''R'' ''B'' Outgoing)\<lparr>h_returns := [CEdge ''w'', CNode ''w'']\<rparr>)"

lemma both_hop_text:
  "translate (rag3db_dialect ''nul'') both_hop = Ok ''UNWIND $uuids AS u MATCH (d:`A` {_uuid: u})-[r:`R`]->(m:`B`) RETURN u, r.`w`, m.`w`''"
  by code_simp

theorem translated_columns_match_output_witness:
  "\<exists>t pre cols suf. translate (rag3db_dialect ''nul'') both_hop = Ok t
     \<and> t = pre @ return_word @ join_with '', '' cols @ suf
     \<and> map (read_column (''u'', ''m'', ''r'')) cols = map Some [Asked, EdgeField ''w'', NodeField ''w'']"
proof -
  have o: "form_output both_hop \<noteq> []" and "form_cells both_hop = [Asked, EdgeField ''w'', NodeField ''w'']"
    and "form_variables both_hop = (''u'', ''m'', ''r'')" by (simp_all add: both_hop_def)
  then show ?thesis using translated_columns_match_output [OF both_hop_text o] both_hop_text by metis
qed

text \<open>
  C21. Two forms in a row are fused at the right place and over the right column: where the upstream
  form can be fused and the downstream form reads uuids, the fused text is the upstream text up to
  its own \<open>RETURN\<close>, the distinct non-null values of the asked column, and the downstream text after
  its \<open>UNWIND\<close>, over the same variable. No \<open>RETURN\<close> inside a name or a condition is mistaken for it.
\<close>

theorem fuse_joins_texts:
  assumes "translate (rag3db_dialect nul) up = Ok t" "fusable_columns up = Some cs" "column < length (form_output up)"
    and "translate (rag3db_dialect nul) down = Ok t'" "form_slot down = Some SUuids"
  shows "\<exists>pre var suite. t = pre @ return_word @ join_with '', '' (rag3db_columns up) \<and> t' = unwind_word @ var @ '' '' @ suite
    \<and> d_fuse (rag3db_dialect nul) t up column t' =
        Some (pre @ '' WITH DISTINCT '' @ rag3db_columns up ! column
          @ '' AS __chain WHERE __chain IS NOT NULL WITH __chain AS '' @ var @ '' '' @ suite)"
proof -
  note u = translated_fusable [OF assms(1,2)]
  obtain pre where t: "t = pre @ return_word @ join_with '', '' cs" using u(2) by blast
  obtain var suite where v: "is_valid_identifier var" "t' = unwind_word @ var @ CHR '' '' # suite"
    using fed_text [OF assms(4,5)] by blast
  have "column < length cs" using assms(3) rag3db_columns_length [of up] u(1) by simp
  from fuse_cut [OF assms(2) u(3) this v(1), of pre suite] show ?thesis
    unfolding t v(2) u(1) by (intro exI [of _ pre] exI [of _ var] exI [of _ suite]) (simp add: rag3db_dialect_def)
qed

definition demo_select :: form where
  "demo_select = FSelect (select_all ''A'' [CNode ''_uuid''])"

lemma demo_select_text: "translate (rag3db_dialect ''nul'') demo_select = Ok ''MATCH (m:`A`) RETURN m.`_uuid`''"
  by code_simp

theorem fuse_joins_texts_witness:
  "\<exists>pre var suite. d_fuse (rag3db_dialect ''nul'') ''MATCH (m:`A`) RETURN m.`_uuid`'' demo_select 0
     ''UNWIND $uuids AS u MATCH (d:`A` {_uuid: u})-[r:`R`]->(m:`B`) RETURN u, m.`_uuid`''
   = Some (pre @ '' WITH DISTINCT m.`_uuid` AS __chain WHERE __chain IS NOT NULL WITH __chain AS '' @ var @ '' '' @ suite)"
proof -
  have f: "fusable_columns demo_select = Some [''m.`_uuid`'']" by code_simp
  have o: "0 < length (form_output demo_select)" by code_simp
  have s: "form_slot demo_hop = Some SUuids" by code_simp
  have c: "rag3db_columns demo_select = [''m.`_uuid`'']" by code_simp
  show ?thesis using fuse_joins_texts [OF demo_select_text f o demo_hop_text s] unfolding c by (simp only: nth_Cons_0) auto
qed

text \<open>
  A valid write has a text exactly when it is not a deletion the dialect has no batch for: by
  uuid without a count, or in cascade with one. Everything else that passes validation is written.
\<close>

theorem rag3db_write_exact:
  "is_ok (rag3db_write nul w) \<longleftrightarrow> write_validate w = Ok () \<and> writable w"
  by (rule rag3db_write_iff)

text \<open>
  C38. The engine reads a path quoted for Cypher back as it was, whatever backslashes, quotes and
  other characters it has, and the literal ends where the path does: its lexer leaves what follows
  in the text untouched, and the replacement of escapes gives the path.
\<close>

theorem path_literal_roundtrip: "read_string_literal (cypher_path_literal path @ rest) = Some (path, rest)"
  by (simp add: cypher_path_literal_def read_string_literal_def lex_escaped transform_escaped)

end
