(* ===== verification/Schema_Text.thy ===== *)
theory Schema_Text
  imports Filter_Reading
begin

text \<open>
  \<open>src/dialect.rs\<close>: the types of columns and the texts that create tables, in both dialects. A type
  of the intermediate representation becomes a column type, and a column type the name a database
  has for it. A \<open>BTreeMap\<close> of fields is its key-sorted list.
\<close>

datatype column_type =
    CtText | CtInt64 | CtDouble | CtBoolean | CtTimestamp | CtBlob
  | CtVector nat | CtList column_type | CtStruct "(string \<times> column_type) list"

record column_def =
  cd_name :: string
  cd_type :: column_type

fun from_field_type :: "field_type \<Rightarrow> column_type" where
  "from_field_type FString = CtText"
| "from_field_type FText = CtText"
| "from_field_type FJson = CtText"
| "from_field_type FTags = CtText"
| "from_field_type FChoice = CtText"
| "from_field_type FInt64 = CtInt64"
| "from_field_type FInteger = CtInt64"
| "from_field_type FDouble = CtDouble"
| "from_field_type FNumber = CtDouble"
| "from_field_type FBoolean = CtBoolean"
| "from_field_type FTimestamp = CtTimestamp"
| "from_field_type (FList item) = CtList (from_field_type item)"
| "from_field_type (FStruct flds) = CtStruct (map (\<lambda>(k, v). (k, from_field_type v)) flds)"

section \<open>rag3db\<close>

text \<open>\<open>k.replace('`', "``")\<close>.\<close>

definition double_backticks :: "string \<Rightarrow> string" where
  "double_backticks k = concat (map (\<lambda>c. if c = CHR 0x60 then [CHR 0x60, CHR 0x60] else [c]) k)"

fun rag3db_type_name :: "column_type \<Rightarrow> string" where
  "rag3db_type_name CtText = ''STRING''"
| "rag3db_type_name CtInt64 = ''INT64''"
| "rag3db_type_name CtDouble = ''DOUBLE''"
| "rag3db_type_name CtBoolean = ''BOOLEAN''"
| "rag3db_type_name CtTimestamp = ''TIMESTAMP''"
| "rag3db_type_name CtBlob = ''BLOB''"
| "rag3db_type_name (CtVector dim) = ''FLOAT['' @ decimal dim @ '']''"
| "rag3db_type_name (CtList item) = rag3db_type_name item @ ''[]''"
| "rag3db_type_name (CtStruct flds) =
     ''STRUCT('' @ join_with '', '' (map (\<lambda>(k, v). ''`'' @ double_backticks k @ ''` '' @ rag3db_type_name v) flds) @ '')''"

definition newline_indent :: string where
  "newline_indent = [CHR 0x0A] @ ''    ''"

definition column_texts :: "(string \<Rightarrow> string) \<Rightarrow> (column_type \<Rightarrow> string) \<Rightarrow> column_def list \<Rightarrow> string list" where
  "column_texts quote type_name columns = map (\<lambda>c. quote (cd_name c) @ '' '' @ type_name (cd_type c)) columns"

definition rag3db_create_table :: "string \<Rightarrow> column_def list \<Rightarrow> string" where
  "rag3db_create_table name columns =
     ''CREATE NODE TABLE IF NOT EXISTS '' @ cypher_quote name @ ''('' @ newline_indent
     @ join_with ('','' @ newline_indent) (column_texts cypher_quote rag3db_type_name columns)
     @ '','' @ newline_indent @ ''PRIMARY KEY(_uuid)'' @ [CHR 0x0A] @ '')''"

definition rag3db_create_rel_table :: "string \<Rightarrow> string \<Rightarrow> string \<Rightarrow> column_def list \<Rightarrow> string" where
  "rag3db_create_rel_table name from_table to_table props =
     (let prop_str = (if props = [] then [] else '', '' @ join_with '', '' (column_texts cypher_quote rag3db_type_name props))
      in ''CREATE REL TABLE IF NOT EXISTS '' @ cypher_quote name @ ''(FROM '' @ cypher_quote from_table @ '' TO ''
         @ cypher_quote to_table @ prop_str @ '')'')"

section \<open>PostgreSQL\<close>

fun postgres_type_name :: "column_type \<Rightarrow> string" where
  "postgres_type_name CtText = ''TEXT''"
| "postgres_type_name CtInt64 = ''BIGINT''"
| "postgres_type_name CtDouble = ''DOUBLE PRECISION''"
| "postgres_type_name CtBoolean = ''BOOLEAN''"
| "postgres_type_name CtTimestamp = ''TIMESTAMPTZ''"
| "postgres_type_name CtBlob = ''BYTEA''"
| "postgres_type_name (CtVector dim) = ''vector('' @ decimal dim @ '')''"
| "postgres_type_name (CtList _) = ''JSONB''"
| "postgres_type_name (CtStruct _) = ''JSONB''"

definition postgres_create_table :: "string \<Rightarrow> column_def list \<Rightarrow> string" where
  "postgres_create_table name columns =
     ''CREATE TABLE IF NOT EXISTS '' @ postgres_quote name @ '' ('' @ newline_indent
     @ join_with ('','' @ newline_indent) (''_row_id BIGSERIAL'' # column_texts postgres_quote postgres_type_name columns)
     @ '','' @ newline_indent @ ''PRIMARY KEY (_uuid)'' @ [CHR 0x0A] @ '')''"

definition postgres_create_rel_table :: "string \<Rightarrow> string \<Rightarrow> string \<Rightarrow> column_def list \<Rightarrow> string" where
  "postgres_create_rel_table name from_table to_table props =
     ''CREATE TABLE IF NOT EXISTS '' @ postgres_quote name @ '' ('' @ newline_indent
     @ join_with ('','' @ newline_indent)
         ([''from_uuid TEXT NOT NULL'', ''to_uuid TEXT NOT NULL''] @ column_texts postgres_quote postgres_type_name props)
     @ '','' @ newline_indent @ ''PRIMARY KEY (from_uuid, to_uuid)'' @ [CHR 0x0A] @ '')''"

section \<open>Where a relation lives\<close>

text \<open>The words of a text between a prefix and the next space: the table a statement names.\<close>

definition table_after :: "string \<Rightarrow> string \<Rightarrow> string option" where
  "table_after prefix t =
     (if starts_with prefix t then map_option fst (split_once CHR '' '' (drop (length prefix) t)) else None)"

lemma table_after_text: "CHR '' '' \<notin> set table \<Longrightarrow> table_after prefix (prefix @ table @ CHR '' '' # rest) = Some table"
  by (simp add: table_after_def starts_with_iff split_once_append)

lemma join_chars: "c \<notin> set sep \<Longrightarrow> \<forall>x \<in> set xs. c \<notin> set x \<Longrightarrow> c \<notin> set (join_with sep xs)"
  by (induction sep xs rule: join_with.induct) auto

lemma quoted_no_space: "CHR '' '' \<notin> set name \<Longrightarrow> CHR '' '' \<notin> set (postgres_quote name)"
proof -
  have space: "ascii_lower c = CHR '' '' \<Longrightarrow> c = CHR '' ''" for c
  proof -
    assume e: "ascii_lower c = CHR '' ''"
    show "c = CHR '' ''"
    proof (cases "65 \<le> char_code c \<and> char_code c \<le> 90")
      case True
      then have "char_code (ascii_lower c) = char_code c + 32" by (simp add: ascii_lower_def char_code_def)
      then show ?thesis using True e by (simp add: char_code_def)
    next
      case False
      then have "ascii_lower c = c" by (auto simp: ascii_lower_def)
      then show ?thesis using e by simp
    qed
  qed
  assume n: "CHR '' '' \<notin> set name"
  have "\<forall>p \<in> set (split_on CHR ''.'' name). CHR '' '' \<notin> set p" using n by (induction name) (auto split: list.splits)
  then have "\<forall>q \<in> set (map (\<lambda>part. CHR 0x22 # map ascii_lower part @ [CHR 0x22]) (split_on CHR ''.'' name)). CHR '' '' \<notin> set q"
    using space by force
  then show ?thesis unfolding postgres_quote_def by (intro join_chars) simp_all
qed

lemma postgres_join_table:
  assumes "is_valid_identifier rel"
  shows "table_after ''JOIN '' (postgres_join_clause ra rel ta e forward) = Some (postgres_quote (postgres_internal_table rel))"
proof -
  have "CHR '' '' \<notin> set rel" using identifier_plain [OF assms] by (auto simp: plain_def)
  then have "CHR '' '' \<notin> set (postgres_quote (postgres_internal_table rel))"
    by (intro quoted_no_space) (simp add: postgres_internal_table_def)
  from table_after_text [OF this, of "''JOIN ''"] show ?thesis by (simp add: postgres_join_clause_def Let_def)
qed

lemma postgres_created_table:
  assumes "is_valid_identifier rel"
  shows "table_after ''CREATE TABLE IF NOT EXISTS '' (postgres_create_rel_table rel f t props) = Some (postgres_quote rel)"
proof -
  have "CHR '' '' \<notin> set (postgres_quote rel)" using postgres_quote_plain [OF assms] by (auto simp: plain_def)
  from table_after_text [OF this, of "''CREATE TABLE IF NOT EXISTS ''"] show ?thesis
    by (simp add: postgres_create_rel_table_def)
qed

lemma postgres_quote_length: "is_valid_identifier x \<Longrightarrow> length (postgres_quote x) = length x + 2"
  using identifier_plain [of x] by (simp add: postgres_quote_def split_on_none)

lemma postgres_internal_length: "is_valid_identifier x \<Longrightarrow> length (postgres_quote (postgres_internal_table x)) = length x + 15"
  using identifier_plain [of x] by (simp add: postgres_quote_def postgres_internal_table_def split_on_none)

text \<open>A field declared as a list is a JSON column, and the filters on lists are those of SQL arrays.\<close>

lemma postgres_lists_are_json:
  "postgres_type_name (from_field_type (FList ty)) = ''JSONB''"
  "fd_size_expr postgres_filters prp = ''cardinality('' @ prp @ '')''"
  "fd_list_any_match postgres_filters prp param = prp @ '' && $'' @ param"
  by (simp_all add: postgres_filters_def)

section \<open>Properties\<close>

text \<open>
  C37. On PostgreSQL the filter parser joins another table than the one a relation is stored in: the
  table of a relation is created under its own name, in the current schema, and the join of a filter
  reads the table of that name in the schema of the internal tables.
\<close>

theorem postgres_filter_joins_another_table:
  assumes "is_valid_identifier rel"
  shows "table_after ''CREATE TABLE IF NOT EXISTS '' (postgres_create_rel_table rel f t props) = Some (postgres_quote rel)
    \<and> table_after ''JOIN '' (fd_join_clause postgres_filters ra rel ta e forward) = Some (postgres_quote (postgres_internal_table rel))
    \<and> postgres_quote (postgres_internal_table rel) \<noteq> postgres_quote rel"
proof -
  have "length (postgres_quote (postgres_internal_table rel)) \<noteq> length (postgres_quote rel)"
    using postgres_quote_length [OF assms] postgres_internal_length [OF assms] by simp
  then show ?thesis using postgres_created_table [OF assms] postgres_join_table [OF assms]
    by (auto simp: postgres_filters_def)
qed

theorem postgres_filter_joins_another_table_witness:
  "table_after ''CREATE TABLE IF NOT EXISTS '' (postgres_create_rel_table ''WROTE'' ''Author'' ''Doc'' [])
   \<noteq> table_after ''JOIN '' (fd_join_clause postgres_filters ''n'' ''WROTE'' ''e1'' ''Author'' False)"
proof -
  have "is_valid_identifier ''WROTE''" by code_simp
  from postgres_filter_joins_another_table [OF this] show ?thesis by (metis option.inject)
qed

end
