(* ===== verification/Postgres_Dialect.thy ===== *)
theory Postgres_Dialect
  imports Rag3db_Dialect Schema_Text
begin

text \<open>
  \<open>src/dialect.rs\<close>: the dialect of PostgreSQL. The forms are written in SQL over the tables of the
  relations (\<open>from_uuid\<close>, \<open>to_uuid\<close>), a refusal names the form it refuses, and two texts in a row are
  fused by a common table expression that takes the place of \<open>$uuids\<close>. The writes of its batches are
  not translated here: \<open>postgres_dialect\<close> takes the record of its write methods. The messages of the
  refusals are written without accents.
\<close>

section \<open>Forms in SQL\<close>

definition postgres_name :: string where
  "postgres_name = ''postgresql''"

definition postgres_and :: "predicate option \<Rightarrow> string \<Rightarrow> nat \<Rightarrow> string \<times> nat" where
  "postgres_and flt a n =
     (case flt of None \<Rightarrow> ([], n) | Some f \<Rightarrow> apfst (\<lambda>c. '' AND '' @ c) (postgres_condition_sur f a n))"

text \<open>The rows linked to a node, as a correlated subquery over \<open>x\<close>.\<close>

definition linked_rows :: "string \<Rightarrow> string \<Rightarrow> string \<Rightarrow> string \<Rightarrow> direction \<Rightarrow> string \<Rightarrow> string" where
  "linked_rows relation endd r x direction condition =
     (let (vers, depuis) = bouts direction
      in '' FROM '' @ postgres_quote relation @ '' AS '' @ r @ '' JOIN '' @ postgres_quote endd @ '' AS '' @ x
         @ '' ON '' @ x @ ''.'' @ quoted ''_uuid'' @ '' = '' @ r @ ''.'' @ quoted vers
         @ '' WHERE '' @ r @ ''.'' @ quoted depuis @ '' = m.'' @ quoted ''_uuid'' @ condition)"

definition postgres_select_column :: "nat \<Rightarrow> nat \<times> column \<Rightarrow> (translate_error, nat \<times> string) result" where
  "postgres_select_column n ic =
     (case ic of (i, c) \<Rightarrow>
     (case c of
        CNode f \<Rightarrow> Ok (n, ''m.'' @ postgres_quote f)
      | CNull \<Rightarrow> Ok (n, ''NULL'')
      | CCollect l \<Rightarrow>
          let r = ''rc'' @ decimal i; x = ''c'' @ decimal i;
              champs = join_with '', '' (map (\<lambda>f. apostrophes f @ '', '' @ x @ ''.'' @ postgres_quote f) (co_fields l));
              (condition, n1) = postgres_and (co_filter l) x n
          in Ok (n1, ''(SELECT coalesce(json_agg(json_build_object('' @ champs @ '')), '' @ apostrophes ''[]'' @ ''::json)''
                     @ linked_rows (co_relation l) (co_end l) r x (co_direction l) condition @ '') AS '' @ postgres_quote (co_alias l))
      | _ \<Rightarrow> Err (Untranslated postgres_name ''Select (ligne entiere)'')))"

definition postgres_extreme :: "extremum \<Rightarrow> aggregate \<Rightarrow> nat \<times> nat \<Rightarrow> string \<times> nat \<times> nat" where
  "postgres_extreme e a st =
     (case st of (extremes, n) \<Rightarrow>
      let r = ''ra'' @ decimal extremes; y = ''a'' @ decimal extremes;
          (condition, n1) = postgres_and (ag_filter a) y n
      in (''(SELECT '' @ extremum_function e @ ''('' @ y @ ''.'' @ postgres_quote (ag_field a) @ '')''
          @ linked_rows (ag_relation a) (ag_end a) r y (ag_direction a) condition @ '')'', Suc extremes, n1))"

definition postgres_key :: "order_key \<Rightarrow> nat \<times> nat \<Rightarrow> string \<times> nat \<times> nat" where
  "postgres_key k st =
     (let ((expr, sens, seul_extreme), st1) = cle_d_ordre postgres_quote k postgres_extreme st
      in (if seul_extreme then expr @ sens @ '' NULLS LAST'' else expr @ sens, st1))"

definition postgres_select :: "select \<Rightarrow> (translate_error, string) result" where
  "postgres_select s =
     try_then (select_validate s) (\<lambda>_.
     try_then (borne_et_saut s) (\<lambda>(limit, offset).
     try_then (thread postgres_select_column 0 (enumerate 0 (s_returns s))) (\<lambda>(n, colonnes).
     let table = postgres_quote (s_table s);
         (filtre, n1) = (case s_filter s of
             None \<Rightarrow> ([], n) | Some p \<Rightarrow> apfst (\<lambda>c. '' WHERE '' @ c) (postgres_condition_sur p ''m'' n));
         (cles, st) = visit postgres_key (s_order_by s) (0, n1);
         ordre = (if cles = [] then [] else '' ORDER BY '' @ join_with '', '' cles);
         borne = opt_text (\<lambda>l. '' LIMIT '' @ decimal l) limit @ opt_text (\<lambda>k. '' OFFSET '' @ decimal k) offset
     in Ok (if s_by_uuids s
            then ''SELECT '' @ join_with '', '' (''v.u'' # colonnes) @ '' FROM unnest($uuids::text[]) AS v(u) JOIN '' @ table
                 @ '' AS m ON m.'' @ quoted ''_uuid'' @ '' = v.u'' @ filtre @ ordre @ borne
            else ''SELECT '' @ join_with '', '' colonnes @ '' FROM '' @ table @ '' AS m'' @ filtre @ ordre @ borne))))"

definition postgres_detach_edges :: "string \<Rightarrow> string \<Rightarrow> direction \<Rightarrow> predicate \<Rightarrow> string option" where
  "postgres_detach_edges relation table side flt =
     Some (''DELETE FROM '' @ postgres_quote relation @ '' AS r USING '' @ postgres_quote table @ '' AS m WHERE m.'' @ quoted ''_uuid''
           @ '' = r.'' @ quoted (snd (bouts side)) @ '' AND ('' @ postgres_condition flt @ '')'')"

definition postgres_detach_edges_returning :: "string \<Rightarrow> string \<Rightarrow> direction \<Rightarrow> predicate \<Rightarrow> string option" where
  "postgres_detach_edges_returning relation table side flt =
     Some (''DELETE FROM '' @ postgres_quote relation @ '' AS r USING '' @ postgres_quote table @ '' AS m WHERE m.'' @ quoted ''_uuid''
           @ '' = r.'' @ quoted (snd (bouts side)) @ '' AND ('' @ postgres_condition flt @ '') RETURNING r.from_uuid, r.to_uuid'')"

definition postgres_hop_column :: "hop \<Rightarrow> column \<Rightarrow> (translate_error, string) result" where
  "postgres_hop_column h c =
     (let arrivee = fst (bouts (h_direction h))
      in case c of
           CNode f \<Rightarrow>
             if f = ''_uuid'' then Ok (''r.'' @ quoted arrivee)
             else if h_end h \<noteq> None then Ok (''m.'' @ postgres_quote f)
             else Err (Untranslated postgres_name ''Hop (champ sans table d arrivee)'')
         | CEdge f \<Rightarrow> Ok (''r.'' @ postgres_quote f)
         | CNull \<Rightarrow> Ok ''NULL''
         | CLabel \<Rightarrow> (case h_end h of
               Some t \<Rightarrow> Ok (apostrophes t)
             | None \<Rightarrow> Err (Untranslated postgres_name ''Hop (champ sans table d arrivee)''))
         | CWhole \<Rightarrow> Err (Untranslated postgres_name ''Hop (ligne entiere)'')
         | CCollect _ \<Rightarrow> Err (Untranslated postgres_name ''Hop (liste de lignes liees)''))"

definition postgres_hop_filter :: "hop \<Rightarrow> (translate_error, string option) result" where
  "postgres_hop_filter h =
     (case h_filter h of
        None \<Rightarrow> Ok None
      | Some p \<Rightarrow>
          if h_end h \<noteq> None then Ok (Some (postgres_condition p))
          else (case postgres_condition_sur_uuid (''r.'' @ quoted (fst (bouts (h_direction h)))) p of
                  Some c \<Rightarrow> Ok (Some c)
                | None \<Rightarrow> Err (Untranslated postgres_name ''Hop (condition sur un autre champ que _uuid, sans table d arrivee)'')))"

definition postgres_hop_conditions :: "hop \<Rightarrow> string option \<Rightarrow> string list" where
  "postgres_hop_conditions h filtre =
     (case h_exclude h of
        None \<Rightarrow> []
      | Some x \<Rightarrow>
          let f = postgres_quote (ex_field x)
          in [''r.'' @ f @ '' IS NULL OR r.'' @ f @ '' <> ALL (ARRAY['' @ join_with '', '' (map apostrophes (ex_values x)) @ ''])''])
     @ opt_list filtre"

definition postgres_hop_where :: "string list \<Rightarrow> string" where
  "postgres_hop_where conditions =
     (if conditions = [] then [] else '' WHERE '' @ join_with '' AND '' (map (\<lambda>c. ''('' @ c @ '')'') conditions))"

definition postgres_hop :: "hop \<Rightarrow> (translate_error, string) result" where
  "postgres_hop h =
     try_then (hop_validate h) (\<lambda>_.
     let (arrivee, depart) = bouts (h_direction h) in
     try_then (traverse (postgres_hop_column h) (h_returns h)) (\<lambda>colonnes.
     if h_end h = None \<and> h_order_by h \<noteq> [] then Err (Untranslated postgres_name ''Hop (ordre sans table d arrivee)'')
     else try_then (postgres_hop_filter h) (\<lambda>filtre.
     Ok (''SELECT '' @ join_with '', '' (''v.u'' # colonnes) @ '' FROM unnest($uuids::text[]) AS v(u)''
         @ opt_text (\<lambda>t. '' JOIN '' @ postgres_quote t @ '' AS d ON d.'' @ quoted ''_uuid'' @ '' = v.u'') (h_start h)
         @ '' JOIN '' @ postgres_quote (h_relation h) @ '' AS r ON r.'' @ quoted depart @ '' = v.u''
         @ opt_text (\<lambda>t. '' JOIN '' @ postgres_quote t @ '' AS m ON m.'' @ quoted ''_uuid'' @ '' = r.'' @ quoted arrivee) (h_end h)
         @ postgres_hop_where (postgres_hop_conditions h filtre)
         @ (if h_order_by h = [] then [] else '' ORDER BY '' @ join_with '', '' (map (\<lambda>f. ''m.'' @ postgres_quote f) (h_order_by h)))
         @ opt_text (\<lambda>n. '' LIMIT '' @ decimal n) (h_limit h)))))"

definition postgres_count_rows :: "string \<Rightarrow> string" where
  "postgres_count_rows table = ''SELECT count(*) AS cnt FROM '' @ postgres_quote table"

definition postgres_count :: "count \<Rightarrow> (translate_error, string) result" where
  "postgres_count c =
     try_then (count_validate c) (\<lambda>_.
     Ok (case c of
       Rows table \<Rightarrow> postgres_count_rows table
     | Matching table flt \<Rightarrow>
         ''SELECT count(*) AS cnt FROM '' @ postgres_quote table @ '' AS m'' @ opt_text (\<lambda>f. '' WHERE '' @ postgres_condition f) flt
     | EdgesMatching relation flt \<Rightarrow>
         ''SELECT count(*) AS cnt FROM '' @ postgres_quote relation @ '' AS m WHERE '' @ postgres_condition flt
     | Edges start relation direction \<Rightarrow>
         ''SELECT v.u, count(*) FROM unnest($uuids::text[]) AS v(u) JOIN '' @ postgres_quote relation @ '' AS r ON r.''
         @ quoted (snd (bouts direction)) @ '' = v.u GROUP BY v.u''))"

section \<open>Fusion\<close>

text \<open>\<open>str::replace\<close>: every occurrence, from left to right.\<close>

function replace_all :: "string \<Rightarrow> string \<Rightarrow> string \<Rightarrow> string" where
  "replace_all w r [] = []"
| "replace_all w r (c # cs) =
     (if w \<noteq> [] \<and> starts_with w (c # cs) then r @ replace_all w r (drop (length w) (c # cs)) else c # replace_all w r cs)"
  by pat_completeness auto
termination
  by (relation "measure (\<lambda>(w, r, s). length s)") (auto simp: neq_Nil_conv)

declare replace_all.simps(2) [simp del]

text \<open>The same with as many steps as the text has bytes, for evaluation.\<close>

fun replace_steps :: "nat \<Rightarrow> string \<Rightarrow> string \<Rightarrow> string \<Rightarrow> string" where
  "replace_steps 0 w r s = s"
| "replace_steps (Suc n) w r s =
     (case s of
        [] \<Rightarrow> []
      | c # cs \<Rightarrow> if w \<noteq> [] \<and> starts_with w s then r @ replace_steps n w r (drop (length w) s) else c # replace_steps n w r cs)"

lemma replace_steps_enough: "length s \<le> n \<Longrightarrow> replace_steps n w r s = replace_all w r s"
proof (induction n w r s rule: replace_steps.induct)
  case (2 n w r s)
  show ?case
  proof (cases s)
    case (Cons c cs)
    have "w \<noteq> [] \<Longrightarrow> length (drop (length w) s) \<le> n" using 2(3) by (cases w) auto
    then show ?thesis using 2 Cons by (auto simp: replace_all.simps(2))
  qed simp
qed simp

lemma replace_all_code [code]: "replace_all w r s = replace_steps (length s) w r s"
  by (simp add: replace_steps_enough)

definition uuids_word :: string where
  "uuids_word = ''$uuids''"

definition chain_source :: "nat \<Rightarrow> string" where
  "chain_source column =
     ''ARRAY(SELECT DISTINCT c'' @ decimal column @ '' FROM __chain WHERE c'' @ decimal column @ '' IS NOT NULL)''"

definition chain_columns :: "nat \<Rightarrow> string" where
  "chain_columns n = join_with '', '' (map (\<lambda>i. ''c'' @ decimal i) [0..<n])"

definition postgres_fuse :: "string \<Rightarrow> form \<Rightarrow> nat \<Rightarrow> string \<Rightarrow> string option" where
  "postgres_fuse upstream_text upstream column downstream_text =
     (if is_write upstream \<or> starts_with ''WITH'' downstream_text \<or> \<not> str_contains uuids_word downstream_text then None
      else if length (form_output upstream) \<le> column then None
      else Some (''WITH __chain('' @ chain_columns (length (form_output upstream)) @ '') AS ('' @ upstream_text @ '') ''
                 @ replace_all uuids_word (chain_source column) downstream_text))"

definition postgres_branch :: "nat option \<Rightarrow> nat \<Rightarrow> nat \<times> string \<times> form \<Rightarrow> string option" where
  "postgres_branch columns rank branch =
     (case branch of (colonne, texte, forme) \<Rightarrow>
      if is_write forme \<or> starts_with ''WITH'' texte \<or> \<not> str_contains uuids_word texte then None
      else Option.bind (case columns of
          Some n \<Rightarrow> if n \<le> colonne then None else Some (replace_all uuids_word (chain_source colonne) texte)
        | None \<Rightarrow> Some texte) (\<lambda>texte.
      Some (''SELECT '' @ decimal rank @ '' AS __branch, b'' @ decimal rank @ ''.* FROM ('' @ texte @ '') AS b'' @ decimal rank)))"

definition postgres_fuse_fanout :: "(string \<times> form) option \<Rightarrow> (nat \<times> string \<times> form) list \<Rightarrow> string option" where
  "postgres_fuse_fanout upstream branches =
     (if (case upstream of Some (_, forme) \<Rightarrow> is_write forme | None \<Rightarrow> False) then None
      else
        let n = map_option (\<lambda>(_, forme). length (form_output forme)) upstream
        in map_option (\<lambda>parties.
             let union = join_with '' UNION ALL '' parties
             in case upstream of
                  Some (amont, forme) \<Rightarrow>
                    ''WITH __chain('' @ chain_columns (length (form_output forme)) @ '') AS ('' @ amont @ '') '' @ union
                | None \<Rightarrow> union)
             (those (map (\<lambda>(rank, b). postgres_branch n rank b) (enumerate 0 branches))))"

definition postgres_dialect :: "write_methods \<Rightarrow> dialect" where
  "postgres_dialect M = \<lparr>
     d_hop = postgres_hop,
     d_count = postgres_count,
     d_select = postgres_select,
     d_write = write_by_methods M,
     d_untranslated = untranslated postgres_name,
     d_cap_transactions = True,
     d_cap_fanout = False,
     d_snapshot_read = Some ''SET TRANSACTION ISOLATION LEVEL REPEATABLE READ'',
     d_fuse = postgres_fuse,
     d_fuse_fanout = postgres_fuse_fanout\<rparr>"

section \<open>The columns of a text\<close>

fun postgres_columns :: "form \<Rightarrow> (translate_error, string list) result" where
  "postgres_columns (FHop h) = try_then (traverse (postgres_hop_column h) (h_returns h)) (\<lambda>cs. Ok (''v.u'' # cs))"
| "postgres_columns (FSelect s) =
     try_then (thread postgres_select_column 0 (enumerate 0 (s_returns s))) (\<lambda>(n, cs).
     Ok ((if s_by_uuids s then [''v.u''] else []) @ cs))"
| "postgres_columns (FCount (Edges _ _ _)) = Ok [''v.u'', ''count(*)'']"
| "postgres_columns (FCount _) = Ok [''count(*) AS cnt'']"
| "postgres_columns (FWrite _) = Ok []"

lemma postgres_columns_length: "postgres_columns f = Inr cs \<Longrightarrow> \<not> is_write f \<Longrightarrow> length cs = length (form_output f)"
proof (cases f)
  case (FCount c)
  then show "postgres_columns f = Inr cs \<Longrightarrow> \<not> is_write f \<Longrightarrow> length cs = length (form_output f)" by (cases c) auto
qed (auto dest: traverse_length thread_length)

lemma postgres_text:
  assumes "translate (postgres_dialect M) f = Inr t" "\<not> is_write f"
  shows "\<exists>cs rest. postgres_columns f = Inr cs \<and> t = ''SELECT '' @ join_with '', '' cs @ '' FROM '' @ rest"
proof (cases f)
  case (FCount c)
  then show ?thesis using assms by (cases c) (auto simp: postgres_dialect_def postgres_count_def postgres_count_rows_def)
next
  case (FHop h)
  then show ?thesis using assms by (auto simp: postgres_dialect_def postgres_hop_def Let_def case_prod_beta split: if_splits)
next
  case (FSelect s)
  then show ?thesis using assms by (auto simp: postgres_dialect_def postgres_select_def Let_def case_prod_beta split: if_splits)
qed (use assms in simp)

section \<open>Conditions of a hop\<close>

lemma parens_read:
  assumes "cs \<noteq> []" "\<forall>c \<in> set cs. closed c"
  shows "clause_means v (join_with '' AND '' (map (\<lambda>c. ''('' @ c @ '')'') cs)) = (\<forall>c \<in> set cs. clause_means v c)"
  using assms clause_means_join_and [of "map (\<lambda>c. ''('' @ c @ '')'') cs" v]
  by (simp add: conjoinable_paren [simplified] clause_means_paren [simplified])

lemma rag3db_hop_where_reads:
  assumes "cs \<noteq> []" "\<forall>c \<in> set cs. closed c"
  shows "\<exists>w. rag3db_hop_where cs = '' WHERE '' @ w \<and> clause_means v w = (\<forall>c \<in> set cs. clause_means v c)"
proof (cases "\<exists>c. cs = [c]")
  case False
  then have "rag3db_hop_where cs = '' WHERE '' @ join_with '' AND '' (map (\<lambda>c. ''('' @ c @ '')'') cs)"
    using assms(1) by (auto simp: rag3db_hop_where_def split: list.splits)
  then show ?thesis using parens_read [OF assms] by blast
qed (auto simp: rag3db_hop_where_def)

lemma postgres_hop_where_reads:
  assumes "cs \<noteq> []" "\<forall>c \<in> set cs. closed c"
  shows "\<exists>w. postgres_hop_where cs = '' WHERE '' @ w \<and> clause_means v w = (\<forall>c \<in> set cs. clause_means v c)"
  using assms parens_read [OF assms] by (simp add: postgres_hop_where_def)

text \<open>The exclusion of a hop: the field is absent, or has none of the excluded values.\<close>

lemma apostrophes_closed: "x = [] \<or> is_valid_identifier x \<Longrightarrow> plain (apostrophes x)"
  using identifier_plain [of x] by (auto simp: apostrophes_def plain_Cons opens_def closes_def)

lemma closed_comma: "closed '', ''"
  by (simp add: closed_def opens_def closes_def)

lemma values_closed: "\<forall>x \<in> set xs. x = [] \<or> is_valid_identifier x \<Longrightarrow> closed (join_with '', '' (map apostrophes xs))"
  using apostrophes_closed plain_closed by (intro closed_join closed_comma) auto

lemma hop_excluded_values: "hop_validate h = Inr () \<Longrightarrow> h_exclude h = Some x \<Longrightarrow>
   is_valid_identifier (ex_field x) \<and> (\<forall>y \<in> set (ex_values x). y = [] \<or> is_valid_identifier y)"
  by (auto simp: hop_validate_def hop_names_def exclusion_names_def split: if_splits)

lemma rag3db_hop_conditions_closed:
  assumes "hop_validate h = Inr ()" "\<forall>p \<in> set (opt_list (h_filter h)). list_all closed (compiled_texts p)" "c \<in> set (rag3db_hop_conditions h)"
  shows "closed c"
proof -
  have flt: "closed (rag3db_condition p)" if "h_filter h = Some p" for p
  proof -
    have "\<forall>y \<in> set (names p). is_valid_identifier y" using assms(1) that
      by (auto simp: hop_validate_def hop_names_def opt_names_def split: if_splits)
    moreover have "plain ''m''" by (simp add: plain_def opens_def closes_def)
    ultimately show ?thesis unfolding rag3db_condition_def using assms(2) that
      by (intro rag3db_closed) (auto simp: opt_list_def list_all_iff)
  qed
  have "closed (''r.'' @ cypher_quote (ex_field x) @ '' IS NULL OR NOT r.'' @ cypher_quote (ex_field x)
       @ '' IN ['' @ join_with '', '' (map apostrophes (ex_values x)) @ '']'')" if "h_exclude h = Some x" for x
  proof -
    have q: "plain (cypher_quote (ex_field x))" and v: "closed (join_with '', '' (map apostrophes (ex_values x)))"
      using hop_excluded_values [OF assms(1) that] cypher_quote_plain values_closed by auto
    show ?thesis using q closed_depth [OF v] by (simp add: read_simps)
  qed
  then show ?thesis using assms(3) flt by (auto simp: rag3db_hop_conditions_def Let_def split: option.splits)
qed

text \<open>Every condition of a hop is required: the text after \<open>WHERE\<close> is read as all of them.\<close>

lemma rag3db_hop_conditions_read:
  assumes "hop_validate h = Inr ()" "\<forall>p \<in> set (opt_list (h_filter h)). list_all closed (compiled_texts p)" "rag3db_hop_conditions h \<noteq> []"
  shows "\<exists>w. rag3db_hop_where (rag3db_hop_conditions h) = '' WHERE '' @ w \<and> clause_means v w = (\<forall>c \<in> set (rag3db_hop_conditions h). clause_means v c)"
  using rag3db_hop_where_reads [OF assms(3)] rag3db_hop_conditions_closed [OF assms(1,2)] by blast

definition team_up :: form where
  "team_up = FSelect (select_all ''A'' [CNode ''_uuid''])"

definition team_down :: form where
  "team_down = FHop ((hop_new ''A'' ''R'' ''B'' Outgoing)\<lparr>h_filter := Some (InList ''owner'' ''uuids_of_team'')\<rparr>)"

lemma team_texts:
  "translate (postgres_dialect M) team_up = Ok (''SELECT m.'' @ quoted ''_uuid'' @ '' FROM '' @ quoted ''a'' @ '' AS m'')"
  "translate (postgres_dialect M) team_down =
     Ok (''SELECT v.u, r.'' @ quoted ''to_uuid'' @ '' FROM unnest($uuids::text[]) AS v(u) JOIN '' @ quoted ''a'' @ '' AS d ON d.'' @ quoted ''_uuid''
       @ '' = v.u JOIN '' @ quoted ''r'' @ '' AS r ON r.'' @ quoted ''from_uuid'' @ '' = v.u JOIN '' @ quoted ''b'' @ '' AS m ON m.''
       @ quoted ''_uuid'' @ '' = r.'' @ quoted ''to_uuid'' @ '' WHERE (m.'' @ quoted ''owner'' @ '' = ANY($uuids_of_team))'')"
proof -
  have "postgres_select (select_all ''A'' [CNode ''_uuid'']) = Ok (''SELECT m.'' @ quoted ''_uuid'' @ '' FROM '' @ quoted ''a'' @ '' AS m'')"
    by code_simp
  then show "translate (postgres_dialect M) team_up = Ok (''SELECT m.'' @ quoted ''_uuid'' @ '' FROM '' @ quoted ''a'' @ '' AS m'')"
    by (simp add: postgres_dialect_def team_up_def)
  have "postgres_hop ((hop_new ''A'' ''R'' ''B'' Outgoing)\<lparr>h_filter := Some (InList ''owner'' ''uuids_of_team'')\<rparr>) =
     Ok (''SELECT v.u, r.'' @ quoted ''to_uuid'' @ '' FROM unnest($uuids::text[]) AS v(u) JOIN '' @ quoted ''a'' @ '' AS d ON d.'' @ quoted ''_uuid''
       @ '' = v.u JOIN '' @ quoted ''r'' @ '' AS r ON r.'' @ quoted ''from_uuid'' @ '' = v.u JOIN '' @ quoted ''b'' @ '' AS m ON m.''
       @ quoted ''_uuid'' @ '' = r.'' @ quoted ''to_uuid'' @ '' WHERE (m.'' @ quoted ''owner'' @ '' = ANY($uuids_of_team))'')"
    by code_simp
  then show "translate (postgres_dialect M) team_down =
     Ok (''SELECT v.u, r.'' @ quoted ''to_uuid'' @ '' FROM unnest($uuids::text[]) AS v(u) JOIN '' @ quoted ''a'' @ '' AS d ON d.'' @ quoted ''_uuid''
       @ '' = v.u JOIN '' @ quoted ''r'' @ '' AS r ON r.'' @ quoted ''from_uuid'' @ '' = v.u JOIN '' @ quoted ''b'' @ '' AS m ON m.''
       @ quoted ''_uuid'' @ '' = r.'' @ quoted ''to_uuid'' @ '' WHERE (m.'' @ quoted ''owner'' @ '' = ANY($uuids_of_team))'')"
    by (simp add: postgres_dialect_def team_down_def)
qed

section \<open>Properties\<close>

text \<open>
  On PostgreSQL too, a reading form returns the columns the plan expects: as many as it declares,
  after the uuid it was asked for where it is fed by uuids.
\<close>

theorem postgres_columns_match_output:
  assumes "translate (postgres_dialect M) f = Ok t" "\<not> is_write f"
  shows "\<exists>cs rest. postgres_columns f = Ok cs \<and> t = ''SELECT '' @ join_with '', '' cs @ '' FROM '' @ rest
    \<and> length cs = length (form_output f) \<and> (form_slot f = Some SUuids \<longrightarrow> cs ! 0 = ''v.u'')"
proof -
  obtain cs rest where c: "postgres_columns f = Ok cs" "t = ''SELECT '' @ join_with '', '' cs @ '' FROM '' @ rest"
    using postgres_text [OF assms] by blast
  have "form_slot f = Some SUuids \<longrightarrow> cs ! 0 = ''v.u''"
  proof (cases f)
    case (FCount k)
    then show ?thesis using c(1) by (cases k) auto
  qed (use c(1) assms(2) in \<open>auto split: if_splits\<close>)
  then show ?thesis using c postgres_columns_length [OF c(1) assms(2)] by blast
qed


theorem postgres_columns_match_output_witness:
  "\<exists>cs rest. ''SELECT m.'' @ quoted ''_uuid'' @ '' FROM '' @ quoted ''a'' @ '' AS m'' = ''SELECT '' @ join_with '', '' cs @ '' FROM '' @ rest
     \<and> length cs = length (form_output team_up)"
proof -
  have "\<not> is_write team_up" by code_simp
  from postgres_columns_match_output [OF team_texts(1) this] show ?thesis by blast
qed

text \<open>
  On PostgreSQL the fusion of two forms rewrites more than the list of uuids: it replaces the text
  \<open>$uuids\<close> wherever it stands, at the head of a longer parameter name too. A hop whose condition
  reads the parameter \<open>uuids_of_team\<close> is left with a text that names no such parameter.
\<close>

theorem postgres_fuse_rewrites_longer_parameter:
  "case (translate (postgres_dialect M) team_up, translate (postgres_dialect M) team_down) of
     (Inr t, Inr t') \<Rightarrow> str_contains ''$uuids_of_team'' t'
       \<and> (case postgres_fuse t team_up 0 t' of
            Some fused \<Rightarrow> \<not> str_contains ''$uuids_of_team'' fused \<and> str_contains '')_of_team)'' fused
          | None \<Rightarrow> False)
   | _ \<Rightarrow> False"
  unfolding team_texts by code_simp

end
