(* ===== verification/Flow_Port.thy ===== *)
theory Flow_Port
  imports Prelude "HOL-Library.Word"
begin

unbundle bit_operations_syntax

text \<open>
  \<open>dataflow/port.rs\<close> (and the fold of \<open>dataflow/node.rs\<close>): the static type, kind and posture of
  a port, the value that flows on it, and the merge of two values that meet on one input.

  A \<open>PortValue\<close> is type-erased in the source; its payload here is a datatype with one
  constructor per Rust type that \<open>merge_port_values\<close> and \<open>merge_stream_elements\<close> recognise, and
  \<open>DOther\<close> for every other type. The rows themselves (children, statuses, results) are opaque.
  A \<open>HashMap\<close> of children is the list of its entries in insertion order: only lookups matter.
\<close>

section \<open>Static description of a port\<close>

datatype port_type =
    PResults | PChildren | PUuids | PMeta | PQuery | PRules | PMap | PAny | PEmpty
  | PEntities | PRelations | PDerivations | PUpdates | PDeletes
  | PImage | PText | POcr | PLlm | PCode

datatype port_kind = PkValue | PkFinite | PkOpen

datatype posture = Complete | PerElement

record port_def =
  pd_name :: string
  pd_type :: port_type
  pd_required :: bool
  pd_kind :: port_kind
  pd_posture :: posture
  pd_follows :: "string option"

definition compatible_with :: "port_type \<Rightarrow> port_type \<Rightarrow> bool" where
  "compatible_with a b = (a = b \<or> b = PAny \<or> a = PAny)"

definition port_value_def :: "string \<Rightarrow> port_type \<Rightarrow> bool \<Rightarrow> port_def" where
  "port_value_def name t required =
     \<lparr>pd_name = name, pd_type = t, pd_required = required, pd_kind = PkValue, pd_posture = Complete, pd_follows = None\<rparr>"

definition with_stream :: "port_kind \<Rightarrow> port_def \<Rightarrow> port_def" where
  "with_stream k p = p\<lparr>pd_kind := k\<rparr>"

definition with_posture :: "posture \<Rightarrow> port_def \<Rightarrow> port_def" where
  "with_posture q p = p\<lparr>pd_posture := q\<rparr>"

definition with_follows :: "string \<Rightarrow> port_def \<Rightarrow> port_def" where
  "with_follows i p = p\<lparr>pd_follows := Some i\<rparr>"

fun kind_rank :: "port_kind \<Rightarrow> nat" where
  "kind_rank PkValue = 0"
| "kind_rank PkFinite = 1"
| "kind_rank PkOpen = 2"

definition kind_max :: "port_kind \<Rightarrow> port_kind \<Rightarrow> port_kind" where
  "kind_max self other = (if kind_rank other > kind_rank self then other else self)"

definition is_stream :: "port_kind \<Rightarrow> bool" where
  "is_stream k = (k \<noteq> PkValue)"

lemma kind_rank_inject: "kind_rank a = kind_rank b \<longleftrightarrow> a = b"
  by (cases a; cases b) auto

text \<open>The kinds are a linear order and \<open>kind_max\<close> its maximum.\<close>

instantiation port_kind :: linorder
begin

definition less_eq_port_kind :: "port_kind \<Rightarrow> port_kind \<Rightarrow> bool" where
  "less_eq_port_kind a b = (kind_rank a \<le> kind_rank b)"

definition less_port_kind :: "port_kind \<Rightarrow> port_kind \<Rightarrow> bool" where
  "less_port_kind a b = (kind_rank a < kind_rank b)"

instance
proof
  fix x y z :: port_kind
  show "(x < y) = (x \<le> y \<and> \<not> y \<le> x)" by (auto simp: less_eq_port_kind_def less_port_kind_def)
  show "x \<le> x" by (simp add: less_eq_port_kind_def)
  show "x \<le> y \<Longrightarrow> y \<le> z \<Longrightarrow> x \<le> z" by (simp add: less_eq_port_kind_def)
  show "x \<le> y \<Longrightarrow> y \<le> x \<Longrightarrow> x = y" by (simp add: less_eq_port_kind_def flip: kind_rank_inject)
  show "x \<le> y \<or> y \<le> x" by (auto simp: less_eq_port_kind_def)
qed

end

lemma kind_max_max: "kind_max a b = max a b"
  by (cases a; cases b; simp add: kind_max_def max_def less_eq_port_kind_def)

lemma kind_top [simp]: "k \<le> PkOpen" "max PkOpen k = PkOpen" "max k PkOpen = PkOpen"
  by (cases k; simp add: less_eq_port_kind_def max_def)+

section \<open>Values\<close>

datatype consistency = Immediate | Eventual | Strict

record 'd search_meta =
  sm_query :: string
  sm_target :: string
  sm_signals :: "8 word"
  sm_consistency :: consistency
  sm_partial :: bool
  sm_pending_count :: nat
  sm_vector_count :: nat
  sm_bm25_count :: nat
  sm_sparse_count :: nat
  sm_fused_count :: nat
  sm_reranked_count :: nat
  sm_search_time_ms :: nat
  sm_warnings :: "string list"
  sm_diagnostics :: "'d option"

datatype 'a port_data =
    DChildren "(string \<times> 'a list) list"
  | DStatus "'a list"
  | DResults "'a list"
  | DUuids "(string \<times> string) list"
  | DMeta "'a search_meta"
  | DText string
  | DOther port_type 'a

datatype 'a port_value = Data "'a port_data" | Trigger

fun is_trigger :: "'a port_value \<Rightarrow> bool" where
  "is_trigger Trigger = True"
| "is_trigger (Data _) = False"

text \<open>\<open>entry(key).or_default().append(children)\<close>, for each entry of the second map.\<close>

definition append_children :: "(string \<times> 'a list) list \<Rightarrow> string \<times> 'a list \<Rightarrow> (string \<times> 'a list) list" where
  "append_children m e =
     (case map_of m (fst e) of
        None \<Rightarrow> m @ [e]
      | Some _ \<Rightarrow> map (\<lambda>x. if fst x = fst e then (fst x, snd x @ snd e) else x) m)"

definition merge_children :: "(string \<times> 'a list) list \<Rightarrow> (string \<times> 'a list) list \<Rightarrow> (string \<times> 'a list) list" where
  "merge_children a b = foldl append_children a b"

definition push_new :: "string list \<Rightarrow> string \<Rightarrow> string list" where
  "push_new ws w = (if w \<in> set ws then ws else ws @ [w])"

definition merge_meta :: "'d search_meta \<Rightarrow> 'd search_meta \<Rightarrow> 'd search_meta" where
  "merge_meta a b = a\<lparr>
     sm_warnings := foldl push_new (sm_warnings a) (sm_warnings b),
     sm_vector_count := sm_vector_count a + sm_vector_count b,
     sm_bm25_count := sm_bm25_count a + sm_bm25_count b,
     sm_sparse_count := sm_sparse_count a + sm_sparse_count b,
     sm_fused_count := max (sm_fused_count a) (sm_fused_count b),
     sm_reranked_count := max (sm_reranked_count a) (sm_reranked_count b),
     sm_search_time_ms := max (sm_search_time_ms a) (sm_search_time_ms b),
     sm_partial := (sm_partial a \<or> sm_partial b),
     sm_pending_count := max (sm_pending_count a) (sm_pending_count b),
     sm_signals := sm_signals a OR sm_signals b,
     sm_diagnostics := (case sm_diagnostics a of None \<Rightarrow> sm_diagnostics b | Some d \<Rightarrow> Some d)\<rparr>"

datatype merge_error = IncompatibleTypes

fun merge_port_values :: "'a port_value \<Rightarrow> 'a port_value \<Rightarrow> (merge_error, 'a port_value) result" where
  "merge_port_values Trigger b = Ok b"
| "merge_port_values a Trigger = Ok a"
| "merge_port_values (Data (DChildren m)) (Data (DChildren n)) = Ok (Data (DChildren (merge_children m n)))"
| "merge_port_values (Data (DStatus v)) (Data (DStatus w)) = Ok (Data (DStatus (v @ w)))"
| "merge_port_values (Data (DResults v)) (Data (DResults w)) = Ok (Data (DResults (v @ w)))"
| "merge_port_values (Data (DUuids v)) (Data (DUuids w)) = Ok (Data (DUuids (v @ w)))"
| "merge_port_values (Data (DMeta a)) (Data (DMeta b)) = Ok (Data (DMeta (merge_meta a b)))"
| "merge_port_values _ _ = Err IncompatibleTypes"

section \<open>The fold of a stream\<close>

fun merge_stream_elements :: "'a port_value \<Rightarrow> 'a port_value \<Rightarrow> (merge_error, 'a port_value) result" where
  "merge_stream_elements (Data (DText s)) (Data (DText t)) = Ok (Data (DText (s @ t)))"
| "merge_stream_elements a b = merge_port_values a b"

text \<open>The refusal names the place and the number of the element that does not merge.\<close>

datatype fold_error = NotFoldable string nat merge_error

fun plier_from :: "string \<Rightarrow> nat \<Rightarrow> 'a port_value \<Rightarrow> 'a port_value list \<Rightarrow> (fold_error, 'a port_value) result" where
  "plier_from ou i acc [] = Ok acc"
| "plier_from ou i acc (b # bs) =
     try_then (map_err (NotFoldable ou (i + 2)) (merge_stream_elements acc b)) (\<lambda>acc'.
     plier_from ou (i + 1) acc' bs)"

fun plier :: "'a port_value list \<Rightarrow> string \<Rightarrow> (fold_error, 'a port_value option) result" where
  "plier [] ou = Ok None"
| "plier (a # rest) ou = try_then (plier_from ou 0 a rest) (\<lambda>v. Ok (Some v))"

section \<open>Nothing is lost\<close>

text \<open>What a value contributes: its text, its rows, its pairs of uuids, its children by key.\<close>

fun text_of :: "'a port_value \<Rightarrow> string" where
  "text_of (Data (DText s)) = s"
| "text_of _ = []"

fun rows_of :: "'a port_value \<Rightarrow> 'a list" where
  "rows_of (Data (DResults v)) = v"
| "rows_of (Data (DStatus v)) = v"
| "rows_of _ = []"

fun uuids_of :: "'a port_value \<Rightarrow> (string \<times> string) list" where
  "uuids_of (Data (DUuids v)) = v"
| "uuids_of _ = []"

definition at_key :: "(string \<times> 'a list) list \<Rightarrow> string \<Rightarrow> 'a list" where
  "at_key m k = (case map_of m k of None \<Rightarrow> [] | Some l \<Rightarrow> l)"

fun children_of :: "string \<Rightarrow> 'a port_value \<Rightarrow> 'a list" where
  "children_of k (Data (DChildren m)) = at_key m k"
| "children_of k _ = []"

fun value_wf :: "'a port_value \<Rightarrow> bool" where
  "value_wf (Data (DChildren m)) = distinct (map fst m)"
| "value_wf _ = True"

text \<open>The values a port of a type that merges carries; a trigger may cross any port.\<close>

fun carries :: "port_type \<Rightarrow> 'a port_value \<Rightarrow> bool" where
  "carries t Trigger = True"
| "carries PText (Data (DText _)) = True"
| "carries PResults (Data (DResults _)) = True"
| "carries PChildren (Data (DChildren _)) = True"
| "carries PUuids (Data (DUuids _)) = True"
| "carries PMeta (Data (DMeta _)) = True"
| "carries _ _ = False"

text \<open>The values a port of a type carries: a type that does not merge carries another Rust type.\<close>

fun of_type :: "port_type \<Rightarrow> 'a port_value \<Rightarrow> bool" where
  "of_type t Trigger = True"
| "of_type PText (Data d) = (\<exists>s. d = DText s)"
| "of_type PResults (Data d) = (\<exists>v. d = DResults v)"
| "of_type PChildren (Data d) = (\<exists>m. d = DChildren m)"
| "of_type PUuids (Data d) = (\<exists>v. d = DUuids v)"
| "of_type PMeta (Data d) = (\<exists>m. d = DMeta m)"
| "of_type PAny (Data d) = True"
| "of_type t (Data d) = (\<exists>x. d = DOther t x)"

lemma map_of_map_snd: "map_of (map (\<lambda>x. if fst x = k then (fst x, f (snd x)) else x) m) j
    = (if j = k then map_option f (map_of m j) else map_of m j)"
  by (induction m) auto

lemma append_children_keys:
  "distinct (map fst m) \<Longrightarrow> distinct (map fst (append_children m e))"
proof (cases "map_of m (fst e)")
  case None
  assume "distinct (map fst m)"
  moreover have "append_children m e = m @ [e]" using None by (simp add: append_children_def)
  moreover have "fst e \<notin> fst ` set m" using None by (simp add: map_of_eq_None_iff)
  ultimately show ?thesis by simp
next
  case (Some l)
  assume d: "distinct (map fst m)"
  have "map fst (map (\<lambda>x. if fst x = fst e then (fst x, snd x @ snd e) else x) m) = map fst m" by simp
  then show ?thesis using d Some by (simp add: append_children_def del: map_map)
qed

lemma at_key_append_children:
  "at_key (append_children m e) k = at_key m k @ (if k = fst e then snd e else [])"
proof (cases "map_of m (fst e)")
  case None
  then have "append_children m e = m @ [e]" by (simp add: append_children_def)
  then show ?thesis using None by (cases e) (auto simp: at_key_def map_add_def split: option.splits)
next
  case (Some l)
  then have "append_children m e = map (\<lambda>x. if fst x = fst e then (fst x, (\<lambda>l. l @ snd e) (snd x)) else x) m"
    by (simp add: append_children_def)
  then have "map_of (append_children m e) k = (if k = fst e then map_option (\<lambda>l. l @ snd e) (map_of m k) else map_of m k)"
    using map_of_map_snd [of "fst e" "\<lambda>l. l @ snd e" m k] by simp
  then show ?thesis using Some by (auto simp: at_key_def split: option.splits)
qed

lemma merge_children_keys: "distinct (map fst a) \<Longrightarrow> distinct (map fst (merge_children a b))"
  unfolding merge_children_def by (induction b arbitrary: a) (auto intro: append_children_keys)

lemma at_key_merge_children:
  "distinct (map fst b) \<Longrightarrow> at_key (merge_children a b) k = at_key a k @ at_key b k"
  unfolding merge_children_def
proof (induction b arbitrary: a)
  case (Cons e b)
  have "at_key b k = []" if "k = fst e"
    using Cons.prems that by (simp add: at_key_def map_of_eq_None_iff [THEN iffD2])
  moreover have "at_key (e # b) k = (if k = fst e then snd e else at_key b k)" by (cases e) (simp add: at_key_def)
  ultimately show ?case using Cons by (auto simp: at_key_append_children)
qed (simp add: at_key_def)

definition keeps :: "'a port_value \<Rightarrow> 'a port_value \<Rightarrow> 'a port_value \<Rightarrow> bool" where
  "keeps a b c \<longleftrightarrow> text_of c = text_of a @ text_of b \<and> rows_of c = rows_of a @ rows_of b
     \<and> uuids_of c = uuids_of a @ uuids_of b \<and> (\<forall>k. children_of k c = children_of k a @ children_of k b)"

lemma carries_Data:
  "carries t (Data x) \<longleftrightarrow> (t = PText \<and> (\<exists>s. x = DText s)) \<or> (t = PResults \<and> (\<exists>v. x = DResults v))
     \<or> (t = PChildren \<and> (\<exists>m. x = DChildren m)) \<or> (t = PUuids \<and> (\<exists>v. x = DUuids v)) \<or> (t = PMeta \<and> (\<exists>m. x = DMeta m))"
  by (cases t; cases x) simp_all

lemma merge_stream_Trigger:
  "merge_stream_elements Trigger b = Inr b" "merge_stream_elements a Trigger = Inr a"
  by (cases a; simp)+

lemma keeps_Trigger: "keeps Trigger b b" "keeps a Trigger a"
  by (simp_all add: keeps_def)

lemma merge_stream_total:
  assumes "carries t a" "carries t b" "value_wf a" "value_wf b"
  shows "\<exists>c. merge_stream_elements a b = Inr c \<and> carries t c \<and> value_wf c \<and> keeps a b c"
proof (cases "a = Trigger \<or> b = Trigger")
  case True
  then show ?thesis using assms merge_stream_Trigger keeps_Trigger by metis
next
  case False
  then obtain x y where ab: "a = Data x" "b = Data y" by (cases a; cases b) auto
  with assms(1,2) show ?thesis unfolding ab carries_Data
    using assms(3,4) ab by (elim disjE conjE exE) (auto simp: keeps_def merge_children_keys at_key_merge_children)
qed

lemma plier_from_total:
  assumes "carries t a" "value_wf a" "\<forall>v \<in> set bs. carries t v \<and> value_wf v"
  shows "\<exists>c. plier_from ou i a bs = Inr c \<and> carries t c \<and> value_wf c
    \<and> text_of c = concat (map text_of (a # bs)) \<and> rows_of c = concat (map rows_of (a # bs))
    \<and> uuids_of c = concat (map uuids_of (a # bs))
    \<and> (\<forall>k. children_of k c = concat (map (children_of k) (a # bs)))"
  using assms
proof (induction bs arbitrary: a i)
  case (Cons b bs)
  then obtain c where c: "merge_stream_elements a b = Inr c" "carries t c" "value_wf c" "keeps a b c"
    using merge_stream_total [of t a b] by auto
  from Cons.IH [OF c(2,3), of "i + 1"] Cons.prems(3) c(1,4) show ?case by (auto simp: keeps_def)
qed simp

lemma plier_total:
  assumes "\<forall>v \<in> set vs. carries t v \<and> value_wf v" and "vs \<noteq> []"
  shows "\<exists>c. plier vs ou = Inr (Some c) \<and> carries t c
    \<and> text_of c = concat (map text_of vs) \<and> rows_of c = concat (map rows_of vs)
    \<and> uuids_of c = concat (map uuids_of vs) \<and> (\<forall>k. children_of k c = concat (map (children_of k) vs))"
proof -
  from assms(2) obtain a bs where vs: "vs = a # bs" by (cases vs) auto
  then show ?thesis using plier_from_total [of t a bs ou 0] assms(1) by auto
qed

section \<open>Properties\<close>

text \<open>
  The fold of a stream whose elements all carry one of the types that merge (text, results,
  children, uuids, metas) never fails and loses nothing: the texts, the rows and the uuids come
  out end to end in order, the children of each key too.
\<close>

theorem fold_keeps_everything:
  assumes "\<forall>v \<in> set vs. carries t v \<and> value_wf v" and "vs \<noteq> []"
  shows "\<exists>c. plier vs ou = Ok (Some c) \<and> carries t c
    \<and> text_of c = concat (map text_of vs) \<and> rows_of c = concat (map rows_of vs)
    \<and> uuids_of c = concat (map uuids_of vs) \<and> (\<forall>k. children_of k c = concat (map (children_of k) vs))"
  using assms by (rule plier_total)

theorem fold_keeps_everything_witness:
  "\<exists>c. plier [Data (DText ''to''), Trigger, Data (DText ''ken'')] ''n.in'' = Ok (Some c)
     \<and> text_of (c :: nat port_value) = ''token''"
  using fold_keeps_everything [of "[Data (DText ''to''), Trigger, Data (DText ''ken'')] :: nat port_value list" PText "''n.in''"]
  by auto

text \<open>
  Two values meeting on one input merge exactly when one is a trigger or both have the same
  mergeable type; nothing else is guessed.
\<close>

fun merge_class :: "'a port_data \<Rightarrow> nat option" where
  "merge_class (DChildren _) = Some 0"
| "merge_class (DStatus _) = Some 1"
| "merge_class (DResults _) = Some 2"
| "merge_class (DUuids _) = Some 3"
| "merge_class (DMeta _) = Some 4"
| "merge_class _ = None"

theorem merge_accepts_exactly:
  "is_ok (merge_port_values a b) \<longleftrightarrow>
     a = Trigger \<or> b = Trigger \<or> (\<exists>x y. a = Data x \<and> b = Data y \<and> merge_class x = merge_class y \<and> merge_class x \<noteq> None)"
  by (cases "(a, b)" rule: merge_port_values.cases) auto

end
