(* ===== verification/Flow_Kinds.thy ===== *)
theory Flow_Kinds
  imports Flow_Port Topo
begin

text \<open>
  \<open>dataflow/kinds.rs\<close>: the kind of every output of a graph (a value, a stream that ends, a
  stream that may never end), computed in topological order: an output has a fixed kind or
  follows an input, and then takes the most open kind of the producers of that input. A
  resolved kind may still depend on an input nobody feeds (\<open>Follows\<close>).

  A \<open>HashMap\<close> is a HOL map: no result depends on its iteration order.
\<close>

section \<open>Data\<close>

record node_ports =
  np_name :: string
  np_inputs :: "port_def list"
  np_outputs :: "port_def list"

record edge_ref =
  er_from_node :: string
  er_from_port :: string
  er_to_node :: string
  er_to_port :: string

datatype resolved = Fixed port_kind | Follows string string port_kind

datatype kinds_error =
    FollowsTwo string string string string
  | FollowsUnknownInput string string string
  | FollowsNotPerElement string string string
  | UnknownOutput string string
  | KindsCycle
  | KindsPanic
  | CompleteOnOpen edge_ref
  | CompleteOnFinite edge_ref port_type

type_synonym out_key = "string \<times> string"

fun with_value_inputs :: "resolved \<Rightarrow> port_kind" where
  "with_value_inputs (Fixed k) = k"
| "with_value_inputs (Follows _ _ k) = k"

fun normalized :: "resolved \<Rightarrow> resolved" where
  "normalized (Follows _ _ PkOpen) = Fixed PkOpen"
| "normalized r = r"

fun combine :: "resolved \<Rightarrow> resolved \<Rightarrow> (kinds_error, resolved) result" where
  "combine (Fixed x) (Fixed y) = Ok (normalized (Fixed (kind_max x y)))"
| "combine (Fixed x) (Follows n p a) =
     (if x = PkOpen then Ok (normalized (Fixed PkOpen)) else Ok (normalized (Follows n p (kind_max a x))))"
| "combine (Follows n p a) (Fixed x) =
     (if x = PkOpen then Ok (normalized (Fixed PkOpen)) else Ok (normalized (Follows n p (kind_max a x))))"
| "combine (Follows n1 p1 a1) (Follows n2 p2 a2) =
     (if n1 \<noteq> n2 \<or> p1 \<noteq> p2 then Err (FollowsTwo n1 p1 n2 p2)
      else Ok (normalized (Follows n1 p1 (kind_max a1 a2))))"

definition at_least :: "resolved \<Rightarrow> port_kind \<Rightarrow> (kinds_error, resolved) result" where
  "at_least r k = combine r (Fixed k)"

section \<open>The order\<close>

definition er_link :: "edge_ref \<Rightarrow> string \<times> string" where
  "er_link e = (er_from_node e, er_to_node e)"

text \<open>The keys of a \<open>BTreeMap\<close> built from the names: sorted, without duplicates.\<close>

definition name_keys :: "node_ports list \<Rightarrow> string list" where
  "name_keys nodes = fold (\<lambda>n s. bs_insert (np_name n) s) nodes []"

definition inner_links :: "node_ports list \<Rightarrow> edge_ref list \<Rightarrow> (string \<times> string) list" where
  "inner_links nodes edges =
     map er_link (filter (\<lambda>e. er_from_node e \<in> set (name_keys nodes) \<and> er_to_node e \<in> set (name_keys nodes)) edges)"

definition count_in :: "('n \<times> 'n) list \<Rightarrow> 'n \<Rightarrow> nat" where
  "count_in es = fold (\<lambda>e m. m(snd e := m (snd e) + 1)) es (\<lambda>_. 0)"

definition topological :: "node_ports list \<Rightarrow> edge_ref list \<Rightarrow> (kinds_error, string list) result" where
  "topological nodes edges =
     (let links = inner_links nodes edges;
          indegree = count_in links;
          queue = filter (\<lambda>n. indegree n = 0) (name_keys nodes)
      in case kahn_queue links indegree queue [] of
           None \<Rightarrow> Err KindsPanic
         | Some order \<Rightarrow> if length order \<noteq> length nodes then Err KindsCycle else Ok order)"

section \<open>Resolution\<close>

definition producers :: "edge_ref list \<Rightarrow> string \<Rightarrow> string \<Rightarrow> out_key list" where
  "producers edges n p =
     map (\<lambda>e. (er_from_node e, er_from_port e)) (filter (\<lambda>e. er_to_node e = n \<and> er_to_port e = p) edges)"

definition add_producer ::
  "(out_key \<rightharpoonup> resolved) \<Rightarrow> resolved option \<Rightarrow> out_key \<Rightarrow> (kinds_error, resolved option) result" where
  "add_producer R acc q =
     try_then (ok_or (UnknownOutput (fst q) (snd q)) (R q)) (\<lambda>r.
     case acc of None \<Rightarrow> Ok (Some r) | Some a \<Rightarrow> try_then (combine a r) (\<lambda>c. Ok (Some c)))"

definition follow_kind ::
  "edge_ref list \<Rightarrow> (out_key \<rightharpoonup> resolved) \<Rightarrow> node_ports \<Rightarrow> port_def \<Rightarrow> string \<Rightarrow> (kinds_error, resolved) result" where
  "follow_kind edges R node out i =
     (case find (\<lambda>d. pd_name d = i) (np_inputs node) of
        None \<Rightarrow> Err (FollowsUnknownInput (np_name node) (pd_name out) i)
      | Some def \<Rightarrow>
          if pd_posture def \<noteq> PerElement then Err (FollowsNotPerElement (np_name node) (pd_name out) i)
          else if producers edges (np_name node) i = []
          then Ok (normalized (Follows (np_name node) i (pd_kind out)))
          else try_then (fold_try (add_producer R) None (producers edges (np_name node) i)) (\<lambda>acc.
               case acc of None \<Rightarrow> Err KindsPanic | Some a \<Rightarrow> at_least a (pd_kind out)))"

definition out_kind ::
  "edge_ref list \<Rightarrow> (out_key \<rightharpoonup> resolved) \<Rightarrow> node_ports \<Rightarrow> port_def \<Rightarrow> (kinds_error, resolved) result" where
  "out_kind edges R node out =
     (case pd_follows out of None \<Rightarrow> Ok (Fixed (pd_kind out)) | Some i \<Rightarrow> follow_kind edges R node out i)"

definition resolve_out ::
  "edge_ref list \<Rightarrow> node_ports \<Rightarrow> (out_key \<rightharpoonup> resolved) \<Rightarrow> port_def \<Rightarrow> (kinds_error, out_key \<rightharpoonup> resolved) result" where
  "resolve_out edges node R out =
     try_then (out_kind edges R node out) (\<lambda>k. Ok (R((np_name node, pd_name out) \<mapsto> k)))"

definition by_name :: "node_ports list \<Rightarrow> string \<rightharpoonup> node_ports" where
  "by_name nodes = map_of (rev (map (\<lambda>n. (np_name n, n)) nodes))"

definition resolve_node ::
  "node_ports list \<Rightarrow> edge_ref list \<Rightarrow> (out_key \<rightharpoonup> resolved) \<Rightarrow> string \<Rightarrow> (kinds_error, out_key \<rightharpoonup> resolved) result" where
  "resolve_node nodes edges R name =
     (case by_name nodes name of
        None \<Rightarrow> Err KindsPanic
      | Some node \<Rightarrow> fold_try (resolve_out edges node) R (np_outputs node))"

definition resolve ::
  "node_ports list \<Rightarrow> edge_ref list \<Rightarrow> (kinds_error, out_key \<rightharpoonup> resolved) result" where
  "resolve nodes edges =
     try_then (topological nodes edges) (\<lambda>order. fold_try (resolve_node nodes edges) Map.empty order)"

section \<open>The two refusals\<close>

definition input_posture :: "node_ports list \<Rightarrow> string \<Rightarrow> string \<Rightarrow> posture option" where
  "input_posture nodes n p =
     (case by_name nodes n of
        None \<Rightarrow> None
      | Some node \<Rightarrow> map_option pd_posture (find (\<lambda>i. pd_name i = p) (np_inputs node)))"

definition refuse_complete_on_open ::
  "node_ports list \<Rightarrow> edge_ref list \<Rightarrow> (string \<Rightarrow> string \<Rightarrow> port_kind option) \<Rightarrow> (kinds_error, unit) result" where
  "refuse_complete_on_open nodes edges kind_of =
     for_each (\<lambda>e.
       if kind_of (er_from_node e) (er_from_port e) \<noteq> Some PkOpen then Ok ()
       else if input_posture nodes (er_to_node e) (er_to_port e) = Some Complete then Err (CompleteOnOpen e)
       else Ok ()) edges"

fun se_fond :: "port_type \<Rightarrow> bool" where
  "se_fond PText = True"
| "se_fond PResults = True"
| "se_fond PChildren = True"
| "se_fond PUuids = True"
| "se_fond PMeta = True"
| "se_fond PAny = True"
| "se_fond _ = False"

definition output_type :: "node_ports list \<Rightarrow> string \<Rightarrow> string \<Rightarrow> port_type option" where
  "output_type nodes n p =
     (case by_name nodes n of
        None \<Rightarrow> None
      | Some node \<Rightarrow> map_option pd_type (find (\<lambda>i. pd_name i = p) (np_outputs node)))"

definition refuse_complete_on_finite_unfoldable ::
  "node_ports list \<Rightarrow> edge_ref list \<Rightarrow> (string \<Rightarrow> string \<Rightarrow> port_kind option) \<Rightarrow> (kinds_error, unit) result" where
  "refuse_complete_on_finite_unfoldable nodes edges kind_of =
     for_each (\<lambda>e.
       if kind_of (er_from_node e) (er_from_port e) \<noteq> Some PkFinite then Ok ()
       else case output_type nodes (er_from_node e) (er_from_port e) of
              None \<Rightarrow> Ok ()
            | Some t \<Rightarrow>
                if se_fond t then Ok ()
                else if input_posture nodes (er_to_node e) (er_to_port e) = Some Complete then Err (CompleteOnFinite e t)
                else Ok ()) edges"

section \<open>The order is topological\<close>

lemma set_name_keys: "set (name_keys nodes) = set (map np_name nodes)"
proof -
  have "set (fold (\<lambda>n s. bs_insert (np_name n) s) ns s) = set s \<union> np_name ` set ns" for ns :: "node_ports list" and s
    by (induction ns arbitrary: s) auto
  then show ?thesis by (simp add: name_keys_def)
qed

lemma distinct_name_keys: "distinct (name_keys nodes)"
proof -
  have "sorted_wrt (<) s \<Longrightarrow> sorted_wrt (<) (fold (\<lambda>n s. bs_insert (np_name n) s) ns s)" for ns :: "node_ports list" and s
    by (induction ns arbitrary: s) auto
  from this [of "[]"] show ?thesis by (simp add: name_keys_def strict_sorted_iff)
qed

lemma count_in_indeg: "count_in es v = indeg es {} v"
proof -
  have "fold (\<lambda>e m. m(snd e := m (snd e) + 1)) es m v = m v + length (filter (\<lambda>e. snd e = v) es)"
    for es :: "('a \<times> 'a) list" and m :: "'a \<Rightarrow> nat"
    by (induction es arbitrary: m) auto
  then show ?thesis by (simp add: count_in_def indeg_def)
qed

lemma inner_links_within: "edges_within (name_keys nodes) (inner_links nodes edges)"
  by (auto simp: edges_within_def inner_links_def er_link_def)

lemma topological_run:
  "\<exists>r. kahn_queue (inner_links nodes edges) (count_in (inner_links nodes edges))
        (filter (\<lambda>n. count_in (inner_links nodes edges) n = 0) (name_keys nodes)) [] = Some r
     \<and> (if length r = length (name_keys nodes) then topo_order (name_keys nodes) (inner_links nodes edges) r
        else \<not> acyclic (set (inner_links nodes edges)))"
proof (rule kahn_queue_correct [OF _ inner_links_within distinct_name_keys])
  show "queue_inv (name_keys nodes) (inner_links nodes edges) (count_in (inner_links nodes edges))
      (filter (\<lambda>n. count_in (inner_links nodes edges) n = 0) (name_keys nodes)) []"
    by (auto simp: queue_inv_def kahn_inv_init count_in_indeg distinct_name_keys)
qed

definition kinds_wf :: "node_ports list \<times> edge_ref list \<Rightarrow> bool" where
  "kinds_wf g \<longleftrightarrow> distinct (map np_name (fst g))
     \<and> edges_within (map np_name (fst g)) (map er_link (snd g))"

lemma length_name_keys: "distinct (map np_name nodes) \<Longrightarrow> length (name_keys nodes) = length nodes"
  using distinct_card [OF distinct_name_keys [of nodes]] distinct_card [of "map np_name nodes"]
  by (simp add: set_name_keys)

lemma inner_links_all:
  "kinds_wf (nodes, edges) \<Longrightarrow> inner_links nodes edges = map er_link edges"
  by (fastforce simp: inner_links_def kinds_wf_def edges_within_def set_name_keys er_link_def
      intro!: arg_cong [where f = "map er_link"] filter_True)

lemma topological_inner:
  assumes d: "distinct (map np_name nodes)"
  shows "case topological nodes edges of
      Inr ord \<Rightarrow> topo_order (map np_name nodes) (inner_links nodes edges) ord
    | Inl e \<Rightarrow> e = KindsCycle \<and> \<not> acyclic (set (inner_links nodes edges))"
  using topological_run [of nodes edges] length_name_keys [OF d]
  by (auto simp: topological_def Let_def topo_order_def set_name_keys split: if_splits)

interpretation kinds_sorter: topological_sorter "\<lambda>g. topological (fst g) (snd g)"
  "\<lambda>g. map np_name (fst g)" "\<lambda>g. map er_link (snd g)" kinds_wf
proof
  fix g and ord :: "string list" and err
  assume wf: "kinds_wf g"
  then have d: "distinct (map np_name (fst g))" and l: "inner_links (fst g) (snd g) = map er_link (snd g)"
    using inner_links_all by (auto simp: kinds_wf_def)
  show "edges_within (map np_name (fst g)) (map er_link (snd g))" using wf by (simp add: kinds_wf_def)
  show "topo_order (map np_name (fst g)) (map er_link (snd g)) ord" if "topological (fst g) (snd g) = Inr ord"
    using topological_inner [OF d, of "snd g"] that l by simp
  show "\<not> acyclic (set (map er_link (snd g)))" if "topological (fst g) (snd g) = Inl err"
    using topological_inner [OF d, of "snd g"] that l by simp
qed

section \<open>The kinds solve their equations\<close>

text \<open>
  The meaning of a resolved kind, once the free inputs are given a kind. The equations: an
  output that follows nothing has its own kind; one that follows an input nobody feeds is at
  least its own kind and at least that input's; one that follows a fed input is the most open
  of its own kind and its producers'.
\<close>

fun kind_under :: "(out_key \<Rightarrow> port_kind) \<Rightarrow> resolved \<Rightarrow> port_kind" where
  "kind_under free (Fixed k) = k"
| "kind_under free (Follows n p k) = max k (free (n, p))"

definition followed_kind ::
  "edge_ref list \<Rightarrow> (out_key \<Rightarrow> port_kind) \<Rightarrow> (out_key \<Rightarrow> port_kind) \<Rightarrow> node_ports \<Rightarrow> port_def \<Rightarrow> string \<Rightarrow> port_kind" where
  "followed_kind edges free K node out i =
     (if producers edges (np_name node) i = [] then max (pd_kind out) (free (np_name node, i))
      else fold max (map K (producers edges (np_name node) i)) (pd_kind out))"

definition spec_kind ::
  "edge_ref list \<Rightarrow> (out_key \<Rightarrow> port_kind) \<Rightarrow> (out_key \<Rightarrow> port_kind) \<Rightarrow> node_ports \<Rightarrow> port_def \<Rightarrow> port_kind" where
  "spec_kind edges free K node out =
     (case pd_follows out of None \<Rightarrow> pd_kind out | Some i \<Rightarrow> followed_kind edges free K node out i)"

definition kinds_of :: "(out_key \<rightharpoonup> resolved) \<Rightarrow> (out_key \<Rightarrow> port_kind) \<Rightarrow> out_key \<Rightarrow> port_kind" where
  "kinds_of R free q = kind_under free (the (R q))"

definition reads_from :: "edge_ref list \<Rightarrow> node_ports \<Rightarrow> port_def \<Rightarrow> out_key list" where
  "reads_from edges node out =
     (case pd_follows out of None \<Rightarrow> [] | Some i \<Rightarrow> producers edges (np_name node) i)"

definition solves :: "edge_ref list \<Rightarrow> (out_key \<rightharpoonup> resolved) \<Rightarrow> node_ports \<Rightarrow> port_def \<Rightarrow> bool" where
  "solves edges R node out \<longleftrightarrow>
     R (np_name node, pd_name out) \<noteq> None \<and> set (reads_from edges node out) \<subseteq> dom R
     \<and> (\<forall>free. kinds_of R free (np_name node, pd_name out) = spec_kind edges free (kinds_of R free) node out)"

lemma kind_under_normalized [simp]: "kind_under free (normalized r) = kind_under free r"
  by (cases r rule: normalized.cases) auto

lemma kind_under_combine: "combine a b = Inr c \<Longrightarrow> kind_under free c = max (kind_under free a) (kind_under free b)"
  by (cases "(a, b)" rule: combine.cases)
    (auto simp: kind_max_max max.commute max.left_commute max.assoc split: if_splits)

lemma add_producer_Ok:
  "add_producer R acc q = Inr t \<longleftrightarrow> (\<exists>r. R q = Some r \<and>
     (case acc of None \<Rightarrow> t = Some r | Some a \<Rightarrow> \<exists>c. combine a r = Inr c \<and> t = Some c))"
  by (auto simp: add_producer_def split: option.splits)

lemma add_producers_kind:
  "fold_try (add_producer R) (Some a) qs = Inr acc \<Longrightarrow>
     set qs \<subseteq> dom R \<and> (\<exists>r. acc = Some r \<and>
       (\<forall>free. kind_under free r = fold max (map (kinds_of R free) qs) (kind_under free a)))"
proof (induction qs arbitrary: a)
  case (Cons q qs)
  from Cons.prems obtain r c where r: "R q = Some r" and c: "combine a r = Inr c"
    and rest: "fold_try (add_producer R) (Some c) qs = Inr acc" by (auto simp: add_producer_Ok)
  have "kind_under free c = max (kinds_of R free q) (kind_under free a)" for free
    using kind_under_combine [OF c] r by (simp add: kinds_of_def max.commute)
  then show ?case using Cons.IH [OF rest] r by auto
qed auto

lemma fold_max_init: "fold max xs (max a b) = max a (fold max xs (b :: port_kind))"
proof (induction xs arbitrary: b)
  case (Cons x xs)
  show ?case using Cons.IH [of "max x b"] by (simp add: max.left_commute)
qed simp

lemma follow_kind_solves:
  assumes "follow_kind edges R node out i = Inr k"
  shows "set (producers edges (np_name node) i) \<subseteq> dom R
    \<and> (\<forall>free. kind_under free k = followed_kind edges free (kinds_of R free) node out i)"
proof (cases "producers edges (np_name node) i")
  case Nil
  then show ?thesis using assms
    by (auto simp: follow_kind_def followed_kind_def split: option.splits if_splits)
next
  case (Cons q qs)
  from assms Cons obtain acc a where acc: "fold_try (add_producer R) None (q # qs) = Inr acc" "acc = Some a"
    and k: "combine a (Fixed (pd_kind out)) = Inr k"
    by (auto simp: follow_kind_def at_least_def split: option.splits if_splits)
  then obtain r where r: "R q = Some r" "fold_try (add_producer R) (Some r) qs = Inr (Some a)"
    by (auto simp: add_producer_Ok)
  note f = add_producers_kind [OF r(2)]
  have "kind_under free k = fold max (map (kinds_of R free) (q # qs)) (pd_kind out)" for free
  proof -
    have "kind_under free a = fold max (map (kinds_of R free) qs) (kinds_of R free q)"
      using f r(1) by (simp add: kinds_of_def)
    then show ?thesis using kind_under_combine [OF k, of free]
      by (simp add: fold_max_init max.commute [of "kinds_of R free q" "pd_kind out"])
        (simp add: max.commute fold_max_init)
  qed
  then show ?thesis using f r(1) Cons by (auto simp: followed_kind_def)
qed

lemma spec_kind_cong:
  "map K (reads_from edges node out) = map K' (reads_from edges node out) \<Longrightarrow>
     spec_kind edges free K node out = spec_kind edges free K' node out"
  unfolding spec_kind_def followed_kind_def reads_from_def by (cases "pd_follows out") (simp_all only: option.case)

lemma out_kind_solves:
  assumes k: "out_kind edges R node out = Inr k" and new: "(np_name node, pd_name out) \<notin> dom R"
  shows "solves edges (R((np_name node, pd_name out) \<mapsto> k)) node out"
proof -
  let ?key = "(np_name node, pd_name out)" and ?R = "R((np_name node, pd_name out) \<mapsto> k)"
  have old: "kinds_of ?R free q = kinds_of R free q" if "q \<in> dom R" for free q
    using that new by (auto simp: kinds_of_def)
  have key: "kinds_of ?R free ?key = kind_under free k" for free by (simp add: kinds_of_def)
  show ?thesis
  proof (cases "pd_follows out")
    case None
    then show ?thesis using k key by (auto simp: out_kind_def solves_def reads_from_def spec_kind_def)
  next
    case (Some i)
    have "follow_kind edges R node out i = Inr k" using k Some by (simp add: out_kind_def)
    from follow_kind_solves [OF this] have sub: "set (producers edges (np_name node) i) \<subseteq> dom R"
      and eq: "kind_under free k = followed_kind edges free (kinds_of R free) node out i" for free by auto
    have "map (kinds_of ?R free) (reads_from edges node out) = map (kinds_of R free) (reads_from edges node out)" for free
      using sub Some by (intro map_cong refl old) (auto simp: reads_from_def)
    then have "spec_kind edges free (kinds_of ?R free) node out = spec_kind edges free (kinds_of R free) node out" for free
      by (rule spec_kind_cong)
    then show ?thesis using eq key sub Some by (auto simp: solves_def reads_from_def spec_kind_def)
  qed
qed

lemma solves_extend:
  assumes "solves edges R node out" "R \<subseteq>\<^sub>m R'"
  shows "solves edges R' node out"
proof -
  have old: "kinds_of R' free q = kinds_of R free q" if "q \<in> dom R" for free q
    using that assms(2) by (auto simp: kinds_of_def map_le_def)
  have dom: "dom R \<subseteq> dom R'" using assms(2) by (rule map_le_implies_dom_le)
  have key: "(np_name node, pd_name out) \<in> dom R" and sub: "set (reads_from edges node out) \<subseteq> dom R"
    using assms(1) by (auto simp: solves_def)
  have "map (kinds_of R' free) (reads_from edges node out) = map (kinds_of R free) (reads_from edges node out)" for free
    using sub by (intro map_cong refl old) blast
  then have sp: "spec_kind edges free (kinds_of R' free) node out = spec_kind edges free (kinds_of R free) node out" for free
    by (rule spec_kind_cong)
  show ?thesis unfolding solves_def
  proof (intro conjI allI)
    show "R' (np_name node, pd_name out) \<noteq> None" using key dom by auto
    show "set (reads_from edges node out) \<subseteq> dom R'" using sub dom by blast
    show "kinds_of R' free (np_name node, pd_name out) = spec_kind edges free (kinds_of R' free) node out" for free
      using assms(1) old [OF key, of free] sp [of free] by (simp add: solves_def)
  qed
qed

definition out_keys :: "node_ports \<Rightarrow> out_key set" where
  "out_keys node = (\<lambda>d. (np_name node, pd_name d)) ` set (np_outputs node)"

lemma resolve_outs:
  assumes "fold_try (resolve_out edges node) R outs = Inr R'" "distinct (map pd_name outs)"
    and "\<forall>d \<in> set outs. (np_name node, pd_name d) \<notin> dom R"
  shows "R \<subseteq>\<^sub>m R' \<and> dom R' = dom R \<union> (\<lambda>d. (np_name node, pd_name d)) ` set outs
    \<and> (\<forall>d \<in> set outs. solves edges R' node d)"
  using assms
proof (induction outs arbitrary: R)
  case (Cons d outs)
  let ?key = "(np_name node, pd_name d)"
  from Cons.prems(1) obtain k where k: "out_kind edges R node d = Inr k"
    and rest: "fold_try (resolve_out edges node) (R(?key \<mapsto> k)) outs = Inr R'"
    by (auto simp: resolve_out_def [of edges node R d])
  have new: "?key \<notin> dom R" using Cons.prems(3) by simp
  have ih: "R(?key \<mapsto> k) \<subseteq>\<^sub>m R' \<and> dom R' = dom (R(?key \<mapsto> k)) \<union> (\<lambda>d. (np_name node, pd_name d)) ` set outs
      \<and> (\<forall>d \<in> set outs. solves edges R' node d)"
  proof (rule Cons.IH [OF rest])
    show "distinct (map pd_name outs)" using Cons.prems(2) by simp
    show "\<forall>d' \<in> set outs. (np_name node, pd_name d') \<notin> dom (R(?key \<mapsto> k))"
    proof
      fix d' assume d': "d' \<in> set outs"
      then have "pd_name d' \<noteq> pd_name d" using Cons.prems(2) by (metis distinct.simps(2) image_eqI list.simps(9) set_map)
      then show "(np_name node, pd_name d') \<notin> dom (R(?key \<mapsto> k))" using Cons.prems(3) d' by simp
    qed
  qed
  have "R \<subseteq>\<^sub>m R(?key \<mapsto> k)" using new by (auto simp: map_le_def)
  then have "R \<subseteq>\<^sub>m R'" using ih map_le_trans by blast
  moreover have "solves edges R' node d" using solves_extend [OF out_kind_solves [OF k new]] ih by blast
  ultimately show ?case using ih by auto
qed simp

definition ports_wf :: "node_ports list \<Rightarrow> bool" where
  "ports_wf nodes \<longleftrightarrow> distinct (map np_name nodes) \<and> (\<forall>n \<in> set nodes. distinct (map pd_name (np_outputs n)))"

lemma by_name_Some: "by_name nodes m = Some n \<Longrightarrow> n \<in> set nodes \<and> np_name n = m"
  unfolding by_name_def by (auto dest: map_of_SomeD)

lemma by_name_in: "distinct (map np_name nodes) \<Longrightarrow> n \<in> set nodes \<Longrightarrow> by_name nodes (np_name n) = Some n"
proof -
  assume d: "distinct (map np_name nodes)" and n: "n \<in> set nodes"
  have "distinct (map fst (rev (map (\<lambda>n. (np_name n, n)) nodes)))" using d by (simp add: rev_map [symmetric] comp_def)
  then show ?thesis unfolding by_name_def using n by (intro map_of_is_SomeI) auto
qed

lemma resolve_nodes:
  assumes "fold_try (resolve_node nodes edges) R ord = Inr R'" "distinct ord" "ports_wf nodes"
    and "\<forall>m \<in> set ord. m \<in> set (map np_name nodes) \<and> (\<forall>p. (m, p) \<notin> dom R)"
  shows "R \<subseteq>\<^sub>m R' \<and> (\<forall>n \<in> set nodes. np_name n \<in> set ord \<longrightarrow> (\<forall>d \<in> set (np_outputs n). solves edges R' n d))
    \<and> dom R' = dom R \<union> \<Union> (out_keys ` {n \<in> set nodes. np_name n \<in> set ord})"
  using assms
proof (induction ord arbitrary: R)
  case (Cons m ord)
  from Cons.prems(1) obtain n S where n: "by_name nodes m = Some n"
    and S: "fold_try (resolve_out edges n) R (np_outputs n) = Inr S"
    and rest: "fold_try (resolve_node nodes edges) S ord = Inr R'"
    by (auto simp: resolve_node_def [of nodes edges R] split: option.splits)
  have nin: "n \<in> set nodes" "np_name n = m" using by_name_Some [OF n] by auto
  have outs: "R \<subseteq>\<^sub>m S \<and> dom S = dom R \<union> (\<lambda>d. (np_name n, pd_name d)) ` set (np_outputs n)
      \<and> (\<forall>d \<in> set (np_outputs n). solves edges S n d)"
    using Cons.prems(3,4) nin by (intro resolve_outs [OF S]) (auto simp: ports_wf_def)
  have ih: "S \<subseteq>\<^sub>m R' \<and> (\<forall>n \<in> set nodes. np_name n \<in> set ord \<longrightarrow> (\<forall>d \<in> set (np_outputs n). solves edges R' n d))
    \<and> dom R' = dom S \<union> \<Union> (out_keys ` {n \<in> set nodes. np_name n \<in> set ord})"
  proof (rule Cons.IH [OF rest])
    show "distinct ord" using Cons.prems(2) by simp
    show "\<forall>m' \<in> set ord. m' \<in> set (map np_name nodes) \<and> (\<forall>p. (m', p) \<notin> dom S)"
    proof
      fix m' assume m': "m' \<in> set ord"
      then have "m' \<noteq> np_name n" using Cons.prems(2) nin(2) by auto
      moreover have "m' \<in> set (map np_name nodes)" "\<forall>p. (m', p) \<notin> dom R" using Cons.prems(4) m' by simp_all
      ultimately show "m' \<in> set (map np_name nodes) \<and> (\<forall>p. (m', p) \<notin> dom S)" using outs by auto
    qed
  qed (rule Cons.prems(3))
  have same: "n' = n" if "n' \<in> set nodes" "np_name n' = m" for n'
    using that nin Cons.prems(3) by (auto simp: ports_wf_def distinct_map inj_on_def)
  from outs have o1: "R \<subseteq>\<^sub>m S" "dom S = dom R \<union> out_keys n" "\<And>d. d \<in> set (np_outputs n) \<Longrightarrow> solves edges S n d"
    by (auto simp: out_keys_def)
  from ih have i1: "S \<subseteq>\<^sub>m R'" "dom R' = dom S \<union> \<Union> (out_keys ` {n \<in> set nodes. np_name n \<in> set ord})"
    "\<forall>n' \<in> set nodes. np_name n' \<in> set ord \<longrightarrow> (\<forall>d \<in> set (np_outputs n'). solves edges R' n' d)" by blast+
  have "solves edges R' n d" if "d \<in> set (np_outputs n)" for d by (rule solves_extend [OF o1(3) [OF that] i1(1)])
  then have all: "\<forall>n' \<in> set nodes. np_name n' \<in> set (m # ord) \<longrightarrow> (\<forall>d \<in> set (np_outputs n'). solves edges R' n' d)"
    using i1(3) same by (metis set_ConsD)
  have le: "R \<subseteq>\<^sub>m R'" by (rule map_le_trans [OF o1(1) i1(1)])
  have "{n' \<in> set nodes. np_name n' \<in> set (m # ord)} = insert n {n' \<in> set nodes. np_name n' \<in> set ord}"
  proof (intro equalityI subsetI)
    fix x assume x: "x \<in> {n' \<in> set nodes. np_name n' \<in> set (m # ord)}"
    show "x \<in> insert n {n' \<in> set nodes. np_name n' \<in> set ord}"
    proof (cases "np_name x = m")
      case True
      then have "x = n" using x by (intro same) simp_all
      then show ?thesis by simp
    qed (use x in simp)
  qed (use nin in auto)
  then have "dom R' = dom R \<union> \<Union> (out_keys ` {n' \<in> set nodes. np_name n' \<in> set (m # ord)})"
    using i1(2) o1(2) by (simp add: Un_assoc)
  then show ?case using all le by blast
qed auto

lemma resolve_correct:
  assumes "resolve nodes edges = Inr R" "ports_wf nodes"
  shows "(\<forall>n \<in> set nodes. \<forall>d \<in> set (np_outputs n). solves edges R n d) \<and> dom R = \<Union> (out_keys ` set nodes)"
proof -
  from assms(1) obtain ord where ord: "topological nodes edges = Inr ord"
    and run: "fold_try (resolve_node nodes edges) Map.empty ord = Inr R" by (auto simp: resolve_def)
  have t: "distinct ord" "set ord = set (map np_name nodes)"
    using topological_inner [of nodes edges] ord assms(2) by (auto simp: ports_wf_def topo_order_def)
  from resolve_nodes [OF run t(1) assms(2)] t(2) show ?thesis by auto
qed

text \<open>Resolution never reaches an \<open>unwrap\<close> on nothing, when the names are distinct.\<close>

lemma combine_no_panic: "combine a b \<noteq> Inl KindsPanic"
  by (cases "(a, b)" rule: combine.cases) auto

lemma add_producer_no_panic: "add_producer R acc q \<noteq> Inl KindsPanic"
  by (auto simp: add_producer_def ok_or_def try_then_eq_Inl combine_no_panic split: option.splits)

lemma add_producers_no_panic: "fold_try (add_producer R) acc qs \<noteq> Inl KindsPanic"
  by (induction qs arbitrary: acc) (auto simp: try_then_eq_Inl add_producer_no_panic)

lemma add_producers_Some: "fold_try (add_producer R) acc qs = Inr r \<Longrightarrow> qs \<noteq> [] \<or> acc \<noteq> None \<Longrightarrow> r \<noteq> None"
proof (induction qs arbitrary: acc)
  case (Cons q qs)
  then obtain t where t: "add_producer R acc q = Inr t" "fold_try (add_producer R) t qs = Inr r" by auto
  then have "t \<noteq> None" by (auto simp: add_producer_Ok split: option.splits)
  then show ?case using Cons.IH [OF t(2)] by simp
qed simp

lemma follow_kind_no_panic: "follow_kind edges R node out i \<noteq> Inl KindsPanic"
  using add_producers_no_panic [of R None "producers edges (np_name node) i"]
    add_producers_Some [of R None "producers edges (np_name node) i"]
  by (auto simp: follow_kind_def at_least_def try_then_eq_Inl combine_no_panic split: option.splits)

lemma resolve_out_no_panic: "resolve_out edges node R out \<noteq> Inl KindsPanic"
  by (auto simp: resolve_out_def out_kind_def try_then_eq_Inl follow_kind_no_panic split: option.splits)

lemma resolve_node_no_panic:
  assumes "name \<in> set (map np_name nodes)"
  shows "resolve_node nodes edges R name \<noteq> Inl KindsPanic"
proof -
  have "fold_try (resolve_out edges node) R' outs \<noteq> Inl KindsPanic" for node R' outs
    by (induction outs arbitrary: R') (auto simp: try_then_eq_Inl resolve_out_no_panic)
  moreover have "by_name nodes name \<noteq> None" 
    using assms by (simp add: by_name_def map_of_eq_None_iff image_image del: not_None_eq)
  ultimately show ?thesis by (auto simp: resolve_node_def)
qed

lemma resolve_no_panic:
  assumes "distinct (map np_name nodes)"
  shows "resolve nodes edges \<noteq> Inl KindsPanic"
proof -
  have r: "fold_try (resolve_node nodes edges) R ord \<noteq> Inl KindsPanic" if "set ord \<subseteq> set (map np_name nodes)" for R ord
    using that by (induction ord arbitrary: R) (auto simp: try_then_eq_Inl resolve_node_no_panic)
  show ?thesis using topological_inner [OF assms, of edges] r
    by (cases "topological nodes edges") (auto simp: resolve_def topo_order_def)
qed

text \<open>What an output is resolved to is at least its own kind, and at least that of every producer of what it follows.\<close>

lemma fold_max_upper: "x \<in> set xs \<or> x = a \<Longrightarrow> x \<le> fold max xs (a :: port_kind)"
proof (induction xs arbitrary: a x)
  case (Cons y xs)
  have "max y a \<le> fold max xs (max y a)" by (rule Cons.IH) simp
  then have "y \<le> fold max xs (max y a)" "a \<le> fold max xs (max y a)" by simp_all
  moreover have "x \<le> fold max xs (max y a)" if "x \<in> set xs" using that by (intro Cons.IH) simp
  ultimately show ?case using Cons.prems by auto
qed simp

lemma spec_kind_lower:
  "pd_kind out \<le> spec_kind edges free K node out"
  "pd_follows out = Some i \<Longrightarrow> q \<in> set (producers edges (np_name node) i) \<Longrightarrow> K q \<le> spec_kind edges free K node out"
  by (auto simp: spec_kind_def followed_kind_def fold_max_upper split: option.split)

end
