(* ===== verification/Flow_Graph.thy ===== *)
theory Flow_Graph
  imports Flow_Kinds
begin

text \<open>
  \<open>dataflow/graph.rs\<close>, with the registry of \<open>dataflow/node_registry.rs\<close> that creates its nodes:
  a graph of named nodes joined by typed edges, its validation and its execution order.

  A node is what the trait \<open>Node\<close> shows of it: its name and its ports. A factory is what the
  trait \<open>NodeFactory\<close> promises: the declared choices of its parameters and a function that
  creates a node or refuses. The JSON configuration is serde's: a type variable, with the
  lookup of a string in it as an argument. The order of a \<open>HashMap\<close> of preloaded streams, which
  Rust leaves open, is the order of the list that stands for it.
\<close>

section \<open>Data\<close>

record flow_node =
  fn_name :: string
  fn_inputs :: "port_def list"
  fn_outputs :: "port_def list"

record flow_edge =
  fe_from_node :: string
  fe_from_port :: string
  fe_to_node :: string
  fe_to_port :: string

record 'a flow_graph =
  g_nodes :: "flow_node list"
  g_edges :: "flow_edge list"
  g_initial_inputs :: "string \<rightharpoonup> (string \<rightharpoonup> 'a port_value)"
  g_initial_streams :: "(string \<times> (string \<times> 'a port_value list) list) list"

record relation_access =
  ra_read :: bool
  ra_write :: bool

datatype choices =
    ChFixed "string list"
  | ChTargets
  | ChRelations relation_access
  | ChValues string string

record config_param =
  cp_name :: string
  cp_choices :: "choices option"

record 'cfg factory =
  fa_params :: "config_param list"
  fa_create :: "string \<Rightarrow> 'cfg \<Rightarrow> (string, flow_node) result"

record 'cfg node_def =
  nd_name :: string
  nd_type :: string
  nd_config :: 'cfg

record 'cfg graph_definition =
  gd_nodes :: "'cfg node_def list"
  gd_edges :: "flow_edge list"

datatype flow_error =
    DuplicateNodeName string
  | UnknownNodeType string
  | ChoiceRefused string string string string
  | FactoryRefused string
  | NoOutputPort string string
  | NoInputPort string string
  | PortTypeMismatch string string port_type string string port_type
  | OpenReadComplete string string string string
  | CycleDetected
  | SortPanic
  | NotConnected "(string \<times> string) list"
  | KindsRefused kinds_error
  | StreamNotFoldable fold_error

definition graph_new :: "'a flow_graph" where
  "graph_new = \<lparr>g_nodes = [], g_edges = [], g_initial_inputs = Map.empty, g_initial_streams = []\<rparr>"

section \<open>Preloaded inputs\<close>

definition set_initial_input :: "string \<Rightarrow> string \<Rightarrow> 'a port_value \<Rightarrow> 'a flow_graph \<Rightarrow> 'a flow_graph" where
  "set_initial_input node port v g =
     g\<lparr>g_initial_inputs := (g_initial_inputs g)(node \<mapsto> (or_default (g_initial_inputs g) Map.empty node)(port \<mapsto> v))\<rparr>"

definition set_initial_stream :: "string \<Rightarrow> string \<Rightarrow> 'a port_value list \<Rightarrow> 'a flow_graph \<Rightarrow> 'a flow_graph" where
  "set_initial_stream node port els g =
     g\<lparr>g_initial_streams :=
         hm_insert node (hm_insert port els (or_default (map_of (g_initial_streams g)) [] node)) (g_initial_streams g)\<rparr>"

definition merge_port ::
  "string \<Rightarrow> (string \<rightharpoonup> (string \<rightharpoonup> 'a port_value)) \<Rightarrow> string \<times> 'a port_value list \<Rightarrow>
     (flow_error, string \<rightharpoonup> (string \<rightharpoonup> 'a port_value)) result" where
  "merge_port node into e =
     try_then (map_err StreamNotFoldable (plier (snd e) (node @ ''.'' @ fst e))) (\<lambda>merged.
     Ok (case merged of
           None \<Rightarrow> into
         | Some v \<Rightarrow> into(node \<mapsto> (or_default into Map.empty node)(fst e \<mapsto> v))))"

definition merge_initial_streams ::
  "'a flow_graph \<Rightarrow> (string \<rightharpoonup> (string \<rightharpoonup> 'a port_value)) \<Rightarrow>
     'a flow_graph \<times> (flow_error, string \<rightharpoonup> (string \<rightharpoonup> 'a port_value)) result" where
  "merge_initial_streams g into =
     (g\<lparr>g_initial_streams := []\<rparr>,
      fold_try (\<lambda>m e. fold_try (merge_port (fst e)) m (snd e)) into (g_initial_streams g))"

section \<open>Nodes\<close>

definition check_fixed_choices ::
  "('cfg \<Rightarrow> string \<Rightarrow> string option) \<Rightarrow> string \<Rightarrow> string \<Rightarrow> config_param list \<Rightarrow> 'cfg \<Rightarrow> (flow_error, unit) result" where
  "check_fixed_choices cfg_str node_type name ps config =
     for_each (\<lambda>p. case cp_choices p of
         Some (ChFixed vs) \<Rightarrow>
           (case cfg_str config (cp_name p) of
              None \<Rightarrow> Ok ()
            | Some v \<Rightarrow> if v \<in> set vs then Ok () else Err (ChoiceRefused node_type name (cp_name p) v))
       | _ \<Rightarrow> Ok ()) ps"

definition registry_create ::
  "('cfg \<Rightarrow> string \<Rightarrow> string option) \<Rightarrow> (string \<rightharpoonup> 'cfg factory) \<Rightarrow> string \<Rightarrow> string \<Rightarrow> 'cfg \<Rightarrow> (flow_error, flow_node) result" where
  "registry_create cfg_str factories node_type name config =
     try_then (ok_or (UnknownNodeType node_type) (factories node_type)) (\<lambda>f.
     try_then (check_fixed_choices cfg_str node_type name (fa_params f) config) (\<lambda>_.
     map_err FactoryRefused (fa_create f name config)))"

definition add_node :: "flow_node \<Rightarrow> 'a flow_graph \<Rightarrow> (flow_error, 'a flow_graph) result" where
  "add_node n g =
     (if list_ex (\<lambda>m. fn_name m = fn_name n) (g_nodes g) then Err (DuplicateNodeName (fn_name n))
      else Ok (g\<lparr>g_nodes := g_nodes g @ [n]\<rparr>))"

definition add_from_registry ::
  "('cfg \<Rightarrow> string \<Rightarrow> string option) \<Rightarrow> (string \<rightharpoonup> 'cfg factory) \<Rightarrow> string \<Rightarrow> string \<Rightarrow> 'cfg \<Rightarrow> 'a flow_graph
     \<Rightarrow> (flow_error, 'a flow_graph) result" where
  "add_from_registry cfg_str factories node_type name config g =
     try_then (registry_create cfg_str factories node_type name config) (\<lambda>n. add_node n g)"

definition find_node :: "'a flow_graph \<Rightarrow> string \<Rightarrow> flow_node option" where
  "find_node g name = find (\<lambda>n. fn_name n = name) (g_nodes g)"

definition find_output_port :: "'a flow_graph \<Rightarrow> string \<Rightarrow> string \<Rightarrow> port_def option" where
  "find_output_port g n p = Option.bind (find_node g n) (\<lambda>m. find (\<lambda>d. pd_name d = p) (fn_outputs m))"

definition find_input_port :: "'a flow_graph \<Rightarrow> string \<Rightarrow> string \<Rightarrow> port_def option" where
  "find_input_port g n p = Option.bind (find_node g n) (\<lambda>m. find (\<lambda>d. pd_name d = p) (fn_inputs m))"

definition find_output_port_type :: "'a flow_graph \<Rightarrow> string \<Rightarrow> string \<Rightarrow> port_type option" where
  "find_output_port_type g n p = map_option pd_type (find_output_port g n p)"

definition find_input_port_type :: "'a flow_graph \<Rightarrow> string \<Rightarrow> string \<Rightarrow> port_type option" where
  "find_input_port_type g n p = map_option pd_type (find_input_port g n p)"

section \<open>Edges\<close>

definition refuse_open_complete :: "'a flow_graph \<Rightarrow> string \<Rightarrow> string \<Rightarrow> string \<Rightarrow> string \<Rightarrow> (flow_error, unit) result" where
  "refuse_open_complete g fn fp tn tp =
     (case (find_output_port g fn fp, find_input_port g tn tp) of
        (Some a, Some b) \<Rightarrow>
          if pd_follows a = None \<and> pd_kind a = PkOpen \<and> pd_posture b = Complete
          then Err (OpenReadComplete fn fp tn tp) else Ok ()
      | _ \<Rightarrow> Ok ())"

definition connect :: "string \<Rightarrow> string \<Rightarrow> string \<Rightarrow> string \<Rightarrow> 'a flow_graph \<Rightarrow> (flow_error, 'a flow_graph) result" where
  "connect fn fp tn tp g =
     try_then (ok_or (NoOutputPort fn fp) (find_output_port_type g fn fp)) (\<lambda>from_type.
     try_then (ok_or (NoInputPort tn tp) (find_input_port_type g tn tp)) (\<lambda>to_type.
     if \<not> compatible_with from_type to_type then Err (PortTypeMismatch fn fp from_type tn tp to_type)
     else try_then (refuse_open_complete g fn fp tn tp) (\<lambda>_.
       Ok (g\<lparr>g_edges := g_edges g @ [\<lparr>fe_from_node = fn, fe_from_port = fp, fe_to_node = tn, fe_to_port = tp\<rparr>]\<rparr>))))"

section \<open>Order and validation\<close>

definition names_of :: "'a flow_graph \<Rightarrow> string list" where
  "names_of g = map fn_name (g_nodes g)"

definition fe_link :: "flow_edge \<Rightarrow> string \<times> string" where
  "fe_link e = (fe_from_node e, fe_to_node e)"

definition sort_links :: "'a flow_graph \<Rightarrow> (string \<times> string) list" where
  "sort_links g = map fe_link (filter (\<lambda>e. fe_to_node e \<in> set (names_of g)) (g_edges g))"

definition topological_sort :: "'a flow_graph \<Rightarrow> (flow_error, string list) result" where
  "topological_sort g =
     (let in_degree = count_in (sort_links g);
          queue = filter (\<lambda>n. in_degree n = 0) (names_of g)
      in case kahn_queue (sort_links g) in_degree queue [] of
           None \<Rightarrow> Err SortPanic
         | Some order \<Rightarrow> if length order \<noteq> length (names_of g) then Err CycleDetected else Ok order)"

definition input_connected :: "'a flow_graph \<Rightarrow> (string \<times> string) list \<Rightarrow> string \<Rightarrow> string \<Rightarrow> bool" where
  "input_connected g fed n p \<longleftrightarrow>
     list_ex (\<lambda>e. fe_to_node e = n \<and> fe_to_port e = p) (g_edges g)
     \<or> (case g_initial_inputs g n of Some ports \<Rightarrow> ports p \<noteq> None | None \<Rightarrow> False)
     \<or> (case map_of (g_initial_streams g) n of Some ports \<Rightarrow> map_of ports p \<noteq> None | None \<Rightarrow> False)
     \<or> (n, p) \<in> set fed"

definition unconnected :: "'a flow_graph \<Rightarrow> (string \<times> string) list \<Rightarrow> (string \<times> string) list" where
  "unconnected g fed =
     concat (map (\<lambda>n. map (\<lambda>i. (pd_name i, fn_name n))
       (filter (\<lambda>i. pd_required i \<and> \<not> input_connected g fed (fn_name n) (pd_name i)) (fn_inputs n))) (g_nodes g))"

definition validate_with :: "'a flow_graph \<Rightarrow> (string \<times> string) list \<Rightarrow> (flow_error, unit) result" where
  "validate_with g fed =
     try_then (topological_sort g) (\<lambda>_.
     if unconnected g fed = [] then Ok () else Err (NotConnected (unconnected g fed)))"

definition graph_validate :: "'a flow_graph \<Rightarrow> (flow_error, unit) result" where
  "graph_validate g = validate_with g []"

section \<open>Kinds\<close>

definition to_node_ports :: "flow_node \<Rightarrow> node_ports" where
  "to_node_ports n = \<lparr>np_name = fn_name n, np_inputs = fn_inputs n, np_outputs = fn_outputs n\<rparr>"

definition to_edge_ref :: "flow_edge \<Rightarrow> edge_ref" where
  "to_edge_ref e = \<lparr>er_from_node = fe_from_node e, er_from_port = fe_from_port e,
     er_to_node = fe_to_node e, er_to_port = fe_to_port e\<rparr>"

definition kinds_input :: "'a flow_graph \<Rightarrow> node_ports list \<times> edge_ref list" where
  "kinds_input g = (map to_node_ports (g_nodes g), map to_edge_ref (g_edges g))"

definition outer_kind :: "(out_key \<rightharpoonup> port_kind) \<Rightarrow> resolved \<Rightarrow> port_kind" where
  "outer_kind free r =
     (case r of
        Follows n p k \<Rightarrow> (case free (n, p) of None \<Rightarrow> k | Some outer \<Rightarrow> kind_max k outer)
      | Fixed k \<Rightarrow> with_value_inputs (Fixed k))"

definition resolved_kinds_with ::
  "'a flow_graph \<Rightarrow> (out_key \<rightharpoonup> port_kind) \<Rightarrow> (flow_error, out_key \<rightharpoonup> port_kind) result" where
  "resolved_kinds_with g free =
     try_then (map_err KindsRefused (resolve (fst (kinds_input g)) (snd (kinds_input g)))) (\<lambda>R.
     Ok (\<lambda>q. map_option (outer_kind free) (R q)))"

definition resolved_kinds :: "'a flow_graph \<Rightarrow> (flow_error, out_key \<rightharpoonup> port_kind) result" where
  "resolved_kinds g = resolved_kinds_with g Map.empty"

definition validate_streams :: "'a flow_graph \<Rightarrow> (flow_error, unit) result" where
  "validate_streams g =
     try_then (resolved_kinds g) (\<lambda>kinds.
     let (nodes, edges) = kinds_input g
     in try_then (map_err KindsRefused (refuse_complete_on_open nodes edges (\<lambda>n p. kinds (n, p)))) (\<lambda>_.
        map_err KindsRefused (refuse_complete_on_finite_unfoldable nodes edges (\<lambda>n p. kinds (n, p)))))"

definition has_streams :: "'a flow_graph \<Rightarrow> (flow_error, bool) result" where
  "has_streams g =
     try_then (resolved_kinds g) (\<lambda>kinds.
     Ok (list_ex (\<lambda>e. case kinds (fe_from_node e, fe_from_port e) of Some k \<Rightarrow> is_stream k | None \<Rightarrow> False) (g_edges g)))"

definition from_definition ::
  "('cfg \<Rightarrow> string \<Rightarrow> string option) \<Rightarrow> (string \<rightharpoonup> 'cfg factory) \<Rightarrow> 'cfg graph_definition \<Rightarrow> (flow_error, 'a flow_graph) result" where
  "from_definition cfg_str factories def =
     try_then (fold_try (\<lambda>g n. add_from_registry cfg_str factories (nd_type n) (nd_name n) (nd_config n) g)
         graph_new (gd_nodes def)) (\<lambda>g1.
     try_then (fold_try (\<lambda>g e. connect (fe_from_node e) (fe_from_port e) (fe_to_node e) (fe_to_port e) g)
         g1 (gd_edges def)) (\<lambda>g2.
     try_then (validate_streams g2) (\<lambda>_. Ok g2)))"

section \<open>The invariant of a graph under construction\<close>

definition edge_typed :: "'a flow_graph \<Rightarrow> flow_edge \<Rightarrow> bool" where
  "edge_typed g e \<longleftrightarrow> (\<exists>a b. find_output_port g (fe_from_node e) (fe_from_port e) = Some a
     \<and> find_input_port g (fe_to_node e) (fe_to_port e) = Some b
     \<and> compatible_with (pd_type a) (pd_type b)
     \<and> \<not> (pd_follows a = None \<and> pd_kind a = PkOpen \<and> pd_posture b = Complete))"

definition graph_inv :: "'a flow_graph \<Rightarrow> bool" where
  "graph_inv g \<longleftrightarrow> distinct (names_of g) \<and> (\<forall>e \<in> set (g_edges g). edge_typed g e)"

lemma find_append: "find P (xs @ ys) = (case find P xs of Some x \<Rightarrow> Some x | None \<Rightarrow> find P ys)"
  by (induction xs) auto

lemma graph_inv_new: "graph_inv graph_new"
  by (simp add: graph_inv_def graph_new_def names_of_def)

lemma edge_typed_more_nodes:
  "edge_typed g e \<Longrightarrow> edge_typed (g\<lparr>g_nodes := g_nodes g @ ns\<rparr>) e"
  unfolding edge_typed_def find_output_port_def find_input_port_def find_node_def
  by (auto simp: find_append Option.bind_eq_Some_conv split: option.splits)

lemma graph_inv_add_node: "graph_inv g \<Longrightarrow> add_node n g = Inr h \<Longrightarrow> graph_inv h"
proof -
  assume g: "graph_inv g" and h: "add_node n g = Inr h"
  have "fn_name n \<notin> fn_name ` set (g_nodes g)" and h: "h = g\<lparr>g_nodes := g_nodes g @ [n]\<rparr>"
    using h by (fastforce simp: add_node_def list_ex_iff split: if_splits)+
  then show ?thesis using g by (simp add: graph_inv_def names_of_def edge_typed_more_nodes)
qed

lemma edge_typed_same_nodes: "g_nodes h = g_nodes g \<Longrightarrow> edge_typed h e = edge_typed g e"
  by (simp add: edge_typed_def find_output_port_def find_input_port_def find_node_def)

lemma connect_Ok:
  assumes "connect fn fp tn tp g = Inr h"
  shows "h = g\<lparr>g_edges := g_edges g @ [\<lparr>fe_from_node = fn, fe_from_port = fp, fe_to_node = tn, fe_to_port = tp\<rparr>]\<rparr>"
    "edge_typed g \<lparr>fe_from_node = fn, fe_from_port = fp, fe_to_node = tn, fe_to_port = tp\<rparr>"
  using assms
  by (auto simp: connect_def edge_typed_def find_output_port_type_def find_input_port_type_def
      refuse_open_complete_def split: if_splits)

lemma graph_inv_connect: "graph_inv g \<Longrightarrow> connect fn fp tn tp g = Inr h \<Longrightarrow> graph_inv h"
proof -
  assume g: "graph_inv g" and h: "connect fn fp tn tp g = Inr h"
  note c = connect_Ok [OF h]
  have "edge_typed h e = edge_typed g e" for e by (rule edge_typed_same_nodes) (simp add: c(1))
  then show ?thesis using g c unfolding graph_inv_def by (auto simp: names_of_def)
qed

lemma graph_inv_add_from_registry:
  "graph_inv g \<Longrightarrow> add_from_registry cs fs t n c g = Inr h \<Longrightarrow> graph_inv h"
  by (auto simp: add_from_registry_def intro: graph_inv_add_node)

lemma from_definition_inv:
  assumes "from_definition cs fs def = Inr g"
  shows "graph_inv g \<and> validate_streams g = Inr ()"
proof -
  from assms obtain g1 where
    g1: "fold_try (\<lambda>g n. add_from_registry cs fs (nd_type n) (nd_name n) (nd_config n) g) graph_new (gd_nodes def) = Inr g1"
    and g: "fold_try (\<lambda>g e. connect (fe_from_node e) (fe_from_port e) (fe_to_node e) (fe_to_port e) g) g1 (gd_edges def) = Inr g"
    and v: "validate_streams g = Inr ()" unfolding from_definition_def by auto
  have "graph_inv g1"
    by (rule fold_try_invariant [OF g1, where I = graph_inv]) (auto intro: graph_inv_new graph_inv_add_from_registry)
  then have "graph_inv g"
    by (rule fold_try_invariant [OF g, where I = graph_inv]) (auto intro: graph_inv_connect)
  then show ?thesis using v by blast
qed

section \<open>The order\<close>

definition flow_links :: "'a flow_graph \<Rightarrow> (string \<times> string) list" where
  "flow_links g = map fe_link (g_edges g)"

definition flow_wf :: "'a flow_graph \<Rightarrow> bool" where
  "flow_wf g \<longleftrightarrow> distinct (names_of g) \<and> edges_within (names_of g) (flow_links g)"

lemma find_node_in: "find_node g n = Some m \<Longrightarrow> m \<in> set (g_nodes g) \<and> fn_name m = n"
  by (auto simp: find_node_def dest: find_Some_in)

lemma find_node_None: "find_node g n = None \<longleftrightarrow> n \<notin> set (names_of g)"
  by (auto simp: find_node_def find_None_all names_of_def)

lemma edge_typed_ends:
  assumes "edge_typed g e"
  shows "fe_from_node e \<in> set (names_of g) \<and> fe_to_node e \<in> set (names_of g)"
proof -
  have "find_node g (fe_from_node e) \<noteq> None \<and> find_node g (fe_to_node e) \<noteq> None"
    using assms by (auto simp: edge_typed_def find_output_port_def find_input_port_def Option.bind_eq_Some_conv)
  then show ?thesis by (simp add: find_node_None)
qed

lemma graph_inv_wf: "graph_inv g \<Longrightarrow> flow_wf g"
  by (auto simp: graph_inv_def flow_wf_def edges_within_def flow_links_def fe_link_def dest: edge_typed_ends)

lemma sort_links_all: "flow_wf g \<Longrightarrow> sort_links g = flow_links g"
  by (fastforce simp: sort_links_def flow_links_def flow_wf_def edges_within_def fe_link_def
      intro!: arg_cong [where f = "map fe_link"] filter_True)

lemma topological_sort_correct:
  assumes "flow_wf g"
  shows "case topological_sort g of
      Inr ord \<Rightarrow> topo_order (names_of g) (flow_links g) ord
    | Inl e \<Rightarrow> e = CycleDetected \<and> \<not> acyclic (set (flow_links g))"
proof -
  have w: "edges_within (names_of g) (flow_links g)" and d: "distinct (names_of g)"
    using assms by (auto simp: flow_wf_def)
  have "queue_inv (names_of g) (flow_links g) (count_in (flow_links g))
      (filter (\<lambda>n. count_in (flow_links g) n = 0) (names_of g)) []"
    using d by (auto simp: queue_inv_def kahn_inv_init count_in_indeg)
  from kahn_queue_correct [OF this w d] sort_links_all [OF assms] show ?thesis
    by (auto simp: topological_sort_def Let_def)
qed

interpretation flow_sorter: topological_sorter topological_sort names_of flow_links flow_wf
proof
  fix g :: "'a flow_graph" and ord :: "string list" and err
  assume wf: "flow_wf g"
  note c = topological_sort_correct [OF wf]
  show "edges_within (names_of g) (flow_links g)" using wf by (simp add: flow_wf_def)
  show "topo_order (names_of g) (flow_links g) ord" if "topological_sort g = Inr ord" using c that by simp
  show "\<not> acyclic (set (flow_links g))" if "topological_sort g = Inl err" using c that by simp
qed

section \<open>Kinds of a built graph\<close>

lemma kinds_input_wf: "flow_wf g \<Longrightarrow> kinds_wf (kinds_input g)"
  by (simp add: kinds_wf_def kinds_input_def flow_wf_def names_of_def flow_links_def to_node_ports_def
      to_edge_ref_def er_link_def fe_link_def [abs_def] comp_def)

lemma links_of_kinds: "map er_link (snd (kinds_input g)) = flow_links g"
  by (simp add: kinds_input_def flow_links_def to_edge_ref_def er_link_def fe_link_def)

lemma by_name_find_node:
  assumes "distinct (names_of g)"
  shows "by_name (map to_node_ports (g_nodes g)) n = map_option to_node_ports (find_node g n)"
proof (cases "find_node g n")
  case (Some m)
  then have m: "m \<in> set (g_nodes g)" "fn_name m = n" using find_node_in by auto
  have "distinct (map np_name (map to_node_ports (g_nodes g)))" using assms by (simp add: names_of_def to_node_ports_def comp_def)
  moreover have "to_node_ports m \<in> set (map to_node_ports (g_nodes g))" using m by simp
  ultimately have "by_name (map to_node_ports (g_nodes g)) (np_name (to_node_ports m)) = Some (to_node_ports m)"
    by (rule by_name_in)
  then show ?thesis using m Some by (simp add: to_node_ports_def)
next
  case None
  then have "n \<notin> np_name ` set (map to_node_ports (g_nodes g))"
    by (auto simp: find_node_def find_None_all to_node_ports_def)
  then show ?thesis using None by (auto simp: by_name_def map_of_eq_None_iff)
qed

lemma input_posture_find:
  "distinct (names_of g) \<Longrightarrow>
     input_posture (fst (kinds_input g)) n p = map_option pd_posture (find_input_port g n p)"
  by (auto simp: input_posture_def kinds_input_def by_name_find_node find_input_port_def to_node_ports_def
      split: option.splits)

lemma output_type_find:
  "distinct (names_of g) \<Longrightarrow>
     output_type (fst (kinds_input g)) n p = map_option pd_type (find_output_port g n p)"
  by (auto simp: output_type_def kinds_input_def by_name_find_node find_output_port_def to_node_ports_def
      split: option.splits)

lemma validate_streams_Ok:
  assumes "validate_streams g = Inr ()"
  obtains K where "resolved_kinds g = Inr K"
    "refuse_complete_on_open (fst (kinds_input g)) (snd (kinds_input g)) (\<lambda>n p. K (n, p)) = Inr ()"
    "refuse_complete_on_finite_unfoldable (fst (kinds_input g)) (snd (kinds_input g)) (\<lambda>n p. K (n, p)) = Inr ()"
  using assms unfolding validate_streams_def by (auto simp: case_prod_beta)

lemma resolved_kinds_acyclic:
  assumes "resolved_kinds g = Inr K" "flow_wf g"
  shows "acyclic (set (flow_links g))"
proof -
  obtain ord where "topological (fst (kinds_input g)) (snd (kinds_input g)) = Inr ord"
    using assms(1) by (auto simp: resolved_kinds_def resolved_kinds_with_def resolve_def)
  then have "is_ok (topological (fst (kinds_input g)) (snd (kinds_input g)))" by simp
  then show ?thesis
    using kinds_sorter.sort_iff_acyclic [OF kinds_input_wf [OF assms(2)]] by (simp add: links_of_kinds)
qed

definition free_kind :: "(out_key \<rightharpoonup> port_kind) \<Rightarrow> out_key \<Rightarrow> port_kind" where
  "free_kind free q = (case free q of None \<Rightarrow> PkValue | Some k \<Rightarrow> k)"

lemma outer_kind_under: "outer_kind free r = kind_under (free_kind free) r"
proof -
  have "max k PkValue = k" for k by (cases k; simp add: max_def less_eq_port_kind_def)
  then show ?thesis by (cases r) (auto simp: outer_kind_def free_kind_def kind_max_max split: option.splits)
qed

text \<open>None of the checks of a graph panics, once its names are distinct and its edges join its nodes.\<close>

fun graph_panics :: "flow_error \<Rightarrow> bool" where
  "graph_panics SortPanic = True"
| "graph_panics (KindsRefused e) = (e = KindsPanic)"
| "graph_panics _ = False"

lemma topological_sort_no_panic: "flow_wf g \<Longrightarrow> topological_sort g = Inl e \<Longrightarrow> \<not> graph_panics e"
  using topological_sort_correct [of g] by simp

lemma graph_validate_no_panic: "flow_wf g \<Longrightarrow> graph_validate g = Inl e \<Longrightarrow> \<not> graph_panics e"
  by (auto simp: graph_validate_def validate_with_def try_then_eq_Inl topological_sort_no_panic split: if_splits)

lemma resolved_kinds_no_panic: "flow_wf g \<Longrightarrow> resolved_kinds_with g free = Inl e \<Longrightarrow> \<not> graph_panics e"
  using resolve_no_panic [of "fst (kinds_input g)" "snd (kinds_input g)"] kinds_input_wf [of g]
  by (cases "resolve (fst (kinds_input g)) (snd (kinds_input g))") (auto simp: resolved_kinds_with_def kinds_wf_def)

lemma map_err_Inl: "map_err f r = Inl e \<longleftrightarrow> (\<exists>x. r = Inl x \<and> e = f x)"
  by (cases r) auto

lemma for_each_Inl: "for_each f xs = Inl e \<Longrightarrow> \<exists>x \<in> set xs. f x = Inl e"
  by (induction xs) (auto simp: try_then_eq_Inl)

lemma refusals_no_panic:
  "refuse_complete_on_open nodes edges kind_of \<noteq> Inl KindsPanic"
  "refuse_complete_on_finite_unfoldable nodes edges kind_of \<noteq> Inl KindsPanic"
  unfolding refuse_complete_on_open_def refuse_complete_on_finite_unfoldable_def
  by (auto dest!: for_each_Inl split: if_splits option.splits)

lemma validate_streams_no_panic:
  assumes "flow_wf g" and "validate_streams g = Inl e"
  shows "\<not> graph_panics e"
proof (cases "resolved_kinds g")
  case (Inl e')
  then show ?thesis using assms resolved_kinds_no_panic [OF assms(1), of Map.empty]
    by (auto simp: validate_streams_def resolved_kinds_def)
next
  case (Inr K)
  then show ?thesis using assms(2) refusals_no_panic
    by (auto simp: validate_streams_def case_prod_beta try_then_eq_Inl map_err_Inl)
qed

lemma has_streams_no_panic: "flow_wf g \<Longrightarrow> has_streams g = Inl e \<Longrightarrow> \<not> graph_panics e"
  using resolved_kinds_no_panic [of g Map.empty e] by (auto simp: has_streams_def resolved_kinds_def try_then_eq_Inl)

lemma kinds_solve:
  assumes "resolved_kinds_with g free = Inr K"
    and "ports_wf (map to_node_ports (g_nodes g))" and "n \<in> set (g_nodes g)" and "d \<in> set (fn_outputs n)"
  shows "K (fn_name n, pd_name d)
    = Some (spec_kind (map to_edge_ref (g_edges g)) (free_kind free) (\<lambda>q. the (K q)) (to_node_ports n) d)"
proof -
  let ?es = "map to_edge_ref (g_edges g)" and ?n = "to_node_ports n" and ?f = "free_kind free"
  from assms(1) obtain R where R: "resolve (map to_node_ports (g_nodes g)) ?es = Inr R"
    and K: "K = (\<lambda>q. map_option (outer_kind free) (R q))"
    by (auto simp: resolved_kinds_with_def kinds_input_def)
  have s: "solves ?es R ?n d"
    using resolve_correct [OF R assms(2)] assms(3,4) by (simp add: to_node_ports_def)
  have val: "the (K q) = kinds_of R ?f q" if "q \<in> dom R" for q
    using that by (auto simp: K kinds_of_def outer_kind_under)
  have key: "(fn_name n, pd_name d) \<in> dom R" and sub: "set (reads_from ?es ?n d) \<subseteq> dom R"
    using s by (auto simp: solves_def to_node_ports_def)
  have "map (\<lambda>q. the (K q)) (reads_from ?es ?n d) = map (kinds_of R ?f) (reads_from ?es ?n d)"
    using sub by (intro map_cong refl val) blast
  then have "spec_kind ?es ?f (\<lambda>q. the (K q)) ?n d = kinds_of R ?f (fn_name n, pd_name d)"
    using spec_kind_cong [of "\<lambda>q. the (K q)" ?es ?n d "kinds_of R ?f"] s by (simp add: solves_def to_node_ports_def)
  then show ?thesis using key val [OF key] by (auto simp: K)
qed

section \<open>What an output may give\<close>

text \<open>
  An output may give a stream of a kind when it is declared of that kind, or when it follows an
  input that an output which may give one feeds: through any number of nodes.
\<close>

inductive may_give :: "'a flow_graph \<Rightarrow> port_kind \<Rightarrow> out_key \<Rightarrow> bool" for g k where
  declared_kind: "m \<in> set (g_nodes g) \<Longrightarrow> d \<in> set (fn_outputs m) \<Longrightarrow> k \<le> pd_kind d \<Longrightarrow> may_give g k (fn_name m, pd_name d)"
| followed_input: "m \<in> set (g_nodes g) \<Longrightarrow> d \<in> set (fn_outputs m) \<Longrightarrow> pd_follows d = Some i \<Longrightarrow> e \<in> set (g_edges g) \<Longrightarrow>
    fe_to_node e = fn_name m \<Longrightarrow> fe_to_port e = i \<Longrightarrow> may_give g k (fe_from_node e, fe_from_port e) \<Longrightarrow>
    may_give g k (fn_name m, pd_name d)"

lemma may_give_resolved:
  assumes K: "resolved_kinds g = Inr K" and wf: "ports_wf (map to_node_ports (g_nodes g))"
    and q: "may_give g k q"
  shows "\<exists>r. K q = Some r \<and> k \<le> r"
  using q
proof (induction rule: may_give.induct)
  case (declared_kind m d)
  note s = kinds_solve [OF K [unfolded resolved_kinds_def] wf declared_kind(1,2)]
  show ?case using s order_trans [OF declared_kind(3) spec_kind_lower(1)] by blast
next
  case (followed_input m d i e)
  note s = kinds_solve [OF K [unfolded resolved_kinds_def] wf followed_input(1,2)]
  obtain r where r: "K (fe_from_node e, fe_from_port e) = Some r" "k \<le> r" using followed_input(8) by blast
  have "(fe_from_node e, fe_from_port e) \<in> set (producers (map to_edge_ref (g_edges g)) (np_name (to_node_ports m)) i)"
    using followed_input(4,5,6) by (force simp: producers_def to_edge_ref_def to_node_ports_def)
  from spec_kind_lower(2) [OF followed_input(3) this, of "\<lambda>q. the (K q)" "free_kind Map.empty"] r
  have "k \<le> spec_kind (map to_edge_ref (g_edges g)) (free_kind Map.empty) (\<lambda>q. the (K q)) (to_node_ports m) d"
    by (simp add: order_trans)
  then show ?case using s by blast
qed

lemma carried_type: "of_type t v \<Longrightarrow> se_fond t \<Longrightarrow> t \<noteq> PAny \<Longrightarrow> carries t v"
  by (cases v; cases t) auto

section \<open>Properties\<close>

text \<open>
  The kinds \<open>resolve\<close> computes solve their equations, whatever the free inputs receive: a
  fixed output keeps its kind, an output that follows an input is the most open of its own kind
  and of the producers of that input, or of what a free input receives.
\<close>

theorem resolved_kinds_solve:
  assumes "resolved_kinds_with g free = Ok K"
    and "ports_wf (map to_node_ports (g_nodes g))" and "n \<in> set (g_nodes g)" and "d \<in> set (fn_outputs n)"
  shows "K (fn_name n, pd_name d)
    = Some (spec_kind (map to_edge_ref (g_edges g)) (free_kind free) (\<lambda>q. the (K q)) (to_node_ports n) d)"
  using assms by (rule kinds_solve)

text \<open>A source of tokens, a router that follows its input, and a reader of elements.\<close>

definition demo_nodes :: "flow_node list" where
  "demo_nodes = [
     \<lparr>fn_name = ''router'', fn_inputs = [with_posture PerElement (port_value_def ''in'' PText True)],
        fn_outputs = [with_follows ''in'' (port_value_def ''out'' PText False)]\<rparr>,
     \<lparr>fn_name = ''source'', fn_inputs = [], fn_outputs = [with_stream PkFinite (port_value_def ''tokens'' PText True)]\<rparr>]"

definition demo_graph :: "nat flow_graph" where
  "demo_graph = graph_new\<lparr>g_nodes := demo_nodes,
     g_edges := [\<lparr>fe_from_node = ''source'', fe_from_port = ''tokens'', fe_to_node = ''router'', fe_to_port = ''in''\<rparr>]\<rparr>"

lemma demo_graph_resolves: "\<exists>K. resolved_kinds_with demo_graph Map.empty = Ok K"
proof -
  have "topological (fst (kinds_input demo_graph)) (snd (kinds_input demo_graph)) = Ok [''source'', ''router'']" by code_simp
  then show ?thesis
    by (simp add: resolved_kinds_with_def resolve_def resolve_node_def by_name_def kinds_input_def demo_graph_def
        demo_nodes_def graph_new_def to_node_ports_def to_edge_ref_def resolve_out_def out_kind_def follow_kind_def
        with_follows_def with_posture_def with_stream_def port_value_def_def producers_def add_producer_def at_least_def)
qed

theorem resolved_kinds_solve_witness:
  "\<exists>K. resolved_kinds_with demo_graph Map.empty = Ok K \<and> K (''router'', ''out'') = Some (max (the (K (''source'', ''tokens''))) PkValue)"
proof -
  obtain K where K: "resolved_kinds_with demo_graph Map.empty = Ok K" using demo_graph_resolves by blast
  have "K (fn_name (demo_nodes ! 0), pd_name (fn_outputs (demo_nodes ! 0) ! 0))
    = Some (spec_kind (map to_edge_ref (g_edges demo_graph)) (free_kind Map.empty) (\<lambda>q. the (K q))
        (to_node_ports (demo_nodes ! 0)) (fn_outputs (demo_nodes ! 0) ! 0))"
    by (rule resolved_kinds_solve [OF K])
      (simp_all add: demo_graph_def demo_nodes_def graph_new_def ports_wf_def to_node_ports_def)
  then show ?thesis using K
    by (simp add: demo_nodes_def demo_graph_def graph_new_def to_edge_ref_def to_node_ports_def with_follows_def
        port_value_def_def spec_kind_def followed_kind_def producers_def max.commute)
qed

text \<open>
  C28. In a graph \<open>from_definition\<close> built, of nodes whose outputs have distinct names, an input that
  waits for the end of what it reads is never fed by an output that may give an open stream,
  declared so or through any chain of outputs that follow their inputs. And when what feeds it
  may give a stream, of a declared type (an \<open>Any\<close> says nothing in advance), the elements of
  that type always fold into the one value the input waits for: whatever the elements, the fold
  succeeds and the texts, the rows, the uuids and the children come out end to end.
\<close>

theorem built_graph_complete_reads:
  assumes "from_definition cfg_str factories def = Ok g"
    and "\<forall>m \<in> set (g_nodes g). distinct (map pd_name (fn_outputs m))"
    and "e \<in> set (g_edges g)" and "find_output_port g (fe_from_node e) (fe_from_port e) = Some a"
    and "find_input_port g (fe_to_node e) (fe_to_port e) = Some b" and "pd_posture b = Complete"
  shows "\<not> may_give g PkOpen (fe_from_node e, fe_from_port e)
    \<and> (may_give g PkFinite (fe_from_node e, fe_from_port e) \<and> pd_type a \<noteq> PAny \<longrightarrow>
       (\<forall>vs ou. vs \<noteq> [] \<and> (\<forall>v \<in> set vs. of_type (pd_type a) v \<and> value_wf v) \<longrightarrow>
         (\<exists>c. plier vs ou = Ok (Some c)
           \<and> text_of c = concat (map text_of vs) \<and> rows_of c = concat (map rows_of vs)
           \<and> uuids_of c = concat (map uuids_of vs) \<and> (\<forall>k. children_of k c = concat (map (children_of k) vs)))))"
proof -
  have inv: "graph_inv g" and v: "validate_streams g = Inr ()" using from_definition_inv [OF assms(1)] by auto
  then have d: "distinct (names_of g)" by (simp add: graph_inv_def)
  then have wf: "ports_wf (map to_node_ports (g_nodes g))"
    using assms(2) by (simp add: ports_wf_def to_node_ports_def names_of_def comp_def)
  from validate_streams_Ok [OF v] obtain K where K: "resolved_kinds g = Inr K"
    and o1: "refuse_complete_on_open (fst (kinds_input g)) (snd (kinds_input g)) (\<lambda>n p. K (n, p)) = Inr ()"
    and f1: "refuse_complete_on_finite_unfoldable (fst (kinds_input g)) (snd (kinds_input g)) (\<lambda>n p. K (n, p)) = Inr ()" .
  have er: "to_edge_ref e \<in> set (snd (kinds_input g))" using assms(3) by (simp add: kinds_input_def)
  have ip: "input_posture (fst (kinds_input g)) (fe_to_node e) (fe_to_port e) = Some Complete"
    using assms(5,6) by (simp add: input_posture_find [OF d])
  have ot: "output_type (fst (kinds_input g)) (fe_from_node e) (fe_from_port e) = Some (pd_type a)"
    using assms(4) by (simp add: output_type_find [OF d])
  let ?q = "(fe_from_node e, fe_from_port e)"
  have o: "K ?q \<noteq> Some PkOpen" and f: "K ?q = Some PkFinite \<Longrightarrow> se_fond (pd_type a)"
    using bspec [OF o1 [unfolded refuse_complete_on_open_def for_each_eq_Inr] er]
      bspec [OF f1 [unfolded refuse_complete_on_finite_unfoldable_def for_each_eq_Inr] er] ip ot
    by (auto simp: to_edge_ref_def split: if_splits)
  have no: "\<not> may_give g PkOpen ?q"
    using may_give_resolved [OF K wf, of PkOpen ?q] o by (metis antisym kind_top(1))
  have se: "se_fond (pd_type a)" if m: "may_give g PkFinite ?q"
  proof -
    obtain r where r: "K ?q = Some r" "PkFinite \<le> r" using may_give_resolved [OF K wf m] by blast
    then have "r = PkFinite" using o by (cases r) (simp_all add: less_eq_port_kind_def)
    then show ?thesis using f r(1) by simp
  qed
  show ?thesis using no se carried_type plier_total by (metis (no_types, lifting))
qed

text \<open>A registry of the two demonstration types; the configuration is the empty record.\<close>

definition demo_factory :: "flow_node \<Rightarrow> unit factory" where
  "demo_factory n = \<lparr>fa_params = [], fa_create = (\<lambda>name _. Ok (n\<lparr>fn_name := name\<rparr>))\<rparr>"

definition demo_registry :: "string \<rightharpoonup> unit factory" where
  "demo_registry = map_of [(''Route'', demo_factory (demo_nodes ! 0)), (''Tokens'', demo_factory (demo_nodes ! 1))]"

definition demo_definition :: "unit graph_definition" where
  "demo_definition = \<lparr>
     gd_nodes = [\<lparr>nd_name = ''router'', nd_type = ''Route'', nd_config = ()\<rparr>, \<lparr>nd_name = ''source'', nd_type = ''Tokens'', nd_config = ()\<rparr>],
     gd_edges = [\<lparr>fe_from_node = ''source'', fe_from_port = ''tokens'', fe_to_node = ''router'', fe_to_port = ''in''\<rparr>]\<rparr>"

lemma demo_definition_builds: "\<exists>g :: nat flow_graph. from_definition (\<lambda>_ _. None) demo_registry demo_definition = Ok g"
proof -
  have "is_ok (from_definition (\<lambda>_ _. None) demo_registry demo_definition :: (flow_error, nat flow_graph) result)" by code_simp
  then show ?thesis by (auto simp: is_ok_iff)
qed

text \<open>The same source, read in whole by a writer.\<close>

definition writer_node :: flow_node where
  "writer_node = \<lparr>fn_name = ''writer'', fn_inputs = [port_value_def ''all'' PText True], fn_outputs = []\<rparr>"

definition whole_definition :: "unit graph_definition" where
  "whole_definition = \<lparr>
     gd_nodes = gd_nodes demo_definition @ [\<lparr>nd_name = ''writer'', nd_type = ''Write'', nd_config = ()\<rparr>],
     gd_edges = gd_edges demo_definition
       @ [\<lparr>fe_from_node = ''router'', fe_from_port = ''out'', fe_to_node = ''writer'', fe_to_port = ''all''\<rparr>]\<rparr>"

lemma whole_definition_builds:
  "case from_definition (\<lambda>_ _. None) (demo_registry(''Write'' \<mapsto> demo_factory writer_node)) whole_definition of
     Inr (g :: nat flow_graph) \<Rightarrow> g_nodes g = demo_nodes @ [writer_node] \<and> g_edges g = gd_edges whole_definition
   | Inl _ \<Rightarrow> False"
  by code_simp

theorem built_graph_complete_reads_witness:
  "\<exists>(g :: nat flow_graph) c. from_definition (\<lambda>_ _. None) (demo_registry(''Write'' \<mapsto> demo_factory writer_node)) whole_definition = Ok g
     \<and> may_give g PkFinite (''router'', ''out'') \<and> \<not> may_give g PkOpen (''router'', ''out'')
     \<and> plier [Data (DText ''to''), Data (DText ''ken'')] ''writer.all'' = Ok (Some (c :: nat port_value)) \<and> text_of c = ''token''"
proof -
  let ?e = "\<lparr>fe_from_node = ''router'', fe_from_port = ''out'', fe_to_node = ''writer'', fe_to_port = ''all''\<rparr>"
  obtain g :: "nat flow_graph" where
    g: "from_definition (\<lambda>_ _. None) (demo_registry(''Write'' \<mapsto> demo_factory writer_node)) whole_definition = Ok g"
    and n: "g_nodes g = demo_nodes @ [writer_node]" and e: "g_edges g = gd_edges whole_definition"
    using whole_definition_builds by (auto split: sum.splits)
  note defs = demo_nodes_def writer_node_def with_posture_def with_follows_def with_stream_def port_value_def_def
    whole_definition_def demo_definition_def
  have src: "may_give g PkFinite (''source'', ''tokens'')"
    using may_give.declared_kind [of "demo_nodes ! 1" g "fn_outputs (demo_nodes ! 1) ! 0" PkFinite] n by (simp add: defs)
  have "may_give g PkFinite (''router'', ''out'')"
    using may_give.followed_input [of "demo_nodes ! 0" g "fn_outputs (demo_nodes ! 0) ! 0" "''in''" "g_edges g ! 0" PkFinite] src n e
    by (simp add: defs)
  moreover have "\<not> may_give g PkOpen (fe_from_node ?e, fe_from_port ?e)
      \<and> (may_give g PkFinite (fe_from_node ?e, fe_from_port ?e) \<and> pd_type (fn_outputs (demo_nodes ! 0) ! 0) \<noteq> PAny \<longrightarrow>
       (\<forall>(vs :: nat port_value list) ou. vs \<noteq> [] \<and> (\<forall>v \<in> set vs. of_type (pd_type (fn_outputs (demo_nodes ! 0) ! 0)) v \<and> value_wf v) \<longrightarrow>
         (\<exists>c. plier vs ou = Ok (Some c)
           \<and> text_of c = concat (map text_of vs) \<and> rows_of c = concat (map rows_of vs)
           \<and> uuids_of c = concat (map uuids_of vs) \<and> (\<forall>k. children_of k c = concat (map (children_of k) vs)))))"
    by (rule built_graph_complete_reads [OF g, where b = "fn_inputs writer_node ! 0"])
      (simp_all add: n e find_output_port_def find_input_port_def find_node_def defs)
  ultimately show ?thesis
    using g by (auto simp: defs dest: spec [of _ "[Data (DText ''to''), Data (DText ''ken'')]"])
qed

text \<open>
  C40. A built graph has an execution order: its names are distinct, its edges join existing ports
  of compatible types, \<open>topological_sort\<close> succeeds, and its order lists every node once, each
  after every node it reads from, directly or through others.
\<close>

theorem built_graph_has_an_order:
  assumes "from_definition cfg_str factories def = Ok g"
  shows "\<exists>ord. topological_sort g = Ok ord \<and> distinct ord \<and> set ord = set (names_of g)
    \<and> (\<forall>e \<in> set (g_edges g). edge_typed g e)
    \<and> (\<forall>a b. (a, b) \<in> (set (flow_links g))\<^sup>+ \<longrightarrow> position ord a < position ord b)"
proof -
  have inv: "graph_inv g" and v: "validate_streams g = Inr ()" using from_definition_inv [OF assms] by auto
  have wf: "flow_wf g" by (rule graph_inv_wf [OF inv])
  from validate_streams_Ok [OF v] obtain K where "resolved_kinds g = Inr K" .
  then have "is_ok (topological_sort g)"
    using resolved_kinds_acyclic wf flow_sorter.sort_iff_acyclic [OF wf] by blast
  then obtain ord where ord: "topological_sort g = Inr ord" by (auto simp: is_ok_iff)
  have "topo_order (names_of g) (flow_links g) ord" by (rule flow_sorter.sound [OF wf ord])
  then show ?thesis
    using ord inv flow_sorter.sort_respects_paths [OF wf ord] by (auto simp: topo_order_def graph_inv_def)
qed

theorem built_graph_has_an_order_witness:
  "\<exists>(g :: nat flow_graph) ord. from_definition (\<lambda>_ _. None) demo_registry demo_definition = Ok g \<and> topological_sort g = Ok ord \<and> distinct ord"
  using demo_definition_builds built_graph_has_an_order by blast

text \<open>
  On a graph whose names are distinct and whose edges join its nodes, \<open>topological_sort\<close>
  succeeds exactly when no chain of edges comes back, and never panics on a counter.
\<close>

theorem topological_sort_exact:
  assumes "flow_wf g"
  shows "(topological_sort g = Err CycleDetected \<longleftrightarrow> \<not> acyclic (set (flow_links g))) \<and> topological_sort g \<noteq> Err SortPanic"
  using topological_sort_correct [OF assms] flow_sorter.sort_iff_acyclic [OF assms]
  by (cases "topological_sort g") auto

definition demo_loop :: "nat flow_graph" where
  "demo_loop = demo_graph\<lparr>g_edges := g_edges demo_graph
     @ [\<lparr>fe_from_node = ''router'', fe_from_port = ''out'', fe_to_node = ''source'', fe_to_port = ''x''\<rparr>]\<rparr>"

theorem topological_sort_exact_witness: "\<not> acyclic (set (flow_links demo_loop))"
proof -
  have "flow_wf demo_loop" by code_simp
  moreover have "topological_sort demo_loop = Err CycleDetected" by code_simp
  ultimately show ?thesis using topological_sort_exact by blast
qed

end
