(* ===== verification/Flow_Stream.thy ===== *)
theory Flow_Stream
  imports Prelude "HOL-Library.Multiset"
begin

text \<open>
  \<open>dataflow/stream.rs\<close>: the hub of a streaming run, all its bounded channels, its workers and
  the one lock they share. What runs under the lock is one step: each operation below is a
  critical section, a function on the state of the hub. The condition variable is the list
  \<open>cv_waiters\<close> of the workers asleep on it; \<open>notify_all\<close> empties it.

  A blocking call (\<open>send\<close>, \<open>recv_any\<close>) is a loop whose rounds are critical sections: a round
  returns, goes on (\<open>Again\<close>) or falls asleep (\<open>Asleep\<close>) until \<open>hub_wake\<close>, after which the loop
  starts its next round. The step relation \<open>hub_step\<close> interleaves the rounds of all workers; its
  labels record what was pushed, popped, registered and called.

  A description of a deadlock is the list of who waits for what, which the source renders as
  text. The timed variants (\<open>send_timeout\<close>, \<open>recv_timeout\<close>, their \<open>wait_until\<close> and
  \<open>wait_cancel_timeout\<close>) depend on the clock and are no steps of \<open>hub_step\<close>: what is proved of its
  runs is for runs of workers that block in \<open>send\<close> and \<open>recv_any\<close> only. The sections of a timed
  read are shown at the end (\<open>timed_read_loses_a_wakeup\<close>). An index out of range is a panic, the
  error \<open>IndexPanic\<close>.
\<close>

section \<open>State\<close>

type_synonym channel_id = nat
type_synonym worker_id = nat

record 'a channel =
  ch_label :: string
  ch_buf :: "'a list"
  ch_capacity :: nat
  ch_senders :: nat
  ch_receivers :: nat

datatype wait = WRecv "channel_id list" | WSend channel_id

datatype wait_text = WaitsRead "string list" | WaitsWrite string

datatype cancel_cause =
    Failed string
  | Deadlock "(string option \<times> wait_text) list"
  | External

datatype stopped = NoReader | StopCancelled cancel_cause

datatype 'a try_send = Full 'a | TsStopped stopped

datatype try_recv = Empty | TrCancelled cancel_cause

datatype hub_error = IndexPanic

record ('a, 'cb) hub =
  channels :: "'a channel list"
  worker_names :: "(worker_id, string) btree"
  next_id :: worker_id
  waiting :: "(worker_id, wait) btree"
  cancel :: "cancel_cause option"
  on_cancel :: "'cb list"
  cv_waiters :: "worker_id list"

definition hub_new :: "('a, 'cb) hub" where
  "hub_new = \<lparr>channels = [], worker_names = [], next_id = 0, waiting = [], cancel = None, on_cancel = [], cv_waiters = []\<rparr>"

definition notify_all :: "('a, 'cb) hub \<Rightarrow> ('a, 'cb) hub" where
  "notify_all s = s\<lparr>cv_waiters := []\<rparr>"

text \<open>The first cause wins; the callbacks to call, once the lock is given back.\<close>

definition set_cancel :: "cancel_cause \<Rightarrow> ('a, 'cb) hub \<Rightarrow> ('a, 'cb) hub \<times> 'cb list" where
  "set_cancel cause s =
     (case cancel s of
        Some _ \<Rightarrow> (s, [])
      | None \<Rightarrow> (s\<lparr>cancel := Some cause, on_cancel := []\<rparr>, on_cancel s))"

section \<open>Channels\<close>

definition ch :: "('a, 'cb) hub \<Rightarrow> channel_id \<Rightarrow> 'a channel" where
  "ch s c = channels s ! c"

definition upd_channel :: "channel_id \<Rightarrow> ('a channel \<Rightarrow> 'a channel) \<Rightarrow> ('a, 'cb) hub \<Rightarrow> ('a, 'cb) hub" where
  "upd_channel c f s = s\<lparr>channels := (channels s)[c := f (ch s c)]\<rparr>"

definition valid_id :: "('a, 'cb) hub \<Rightarrow> channel_id \<Rightarrow> bool" where
  "valid_id s c = (c < length (channels s))"

definition hub_channel :: "string \<Rightarrow> nat \<Rightarrow> nat \<Rightarrow> nat \<Rightarrow> ('a, 'cb) hub \<Rightarrow> ('a, 'cb) hub \<times> channel_id" where
  "hub_channel label capacity senders receivers s =
     (s\<lparr>channels := channels s @ [\<lparr>ch_label = label, ch_buf = [], ch_capacity = max capacity 1,
          ch_senders = senders, ch_receivers = receivers\<rparr>]\<rparr>, length (channels s))"

definition release_sender :: "channel_id \<Rightarrow> ('a, 'cb) hub \<Rightarrow> (hub_error, ('a, 'cb) hub) result" where
  "release_sender c s =
     (if \<not> valid_id s c then Err IndexPanic
      else Ok (notify_all (upd_channel c (\<lambda>x. x\<lparr>ch_senders := ch_senders x - 1\<rparr>) s)))"

definition drop_receiver :: "'a channel \<Rightarrow> 'a channel" where
  "drop_receiver x =
     (let y = x\<lparr>ch_receivers := ch_receivers x - 1\<rparr> in if ch_receivers y = 0 then y\<lparr>ch_buf := []\<rparr> else y)"

definition release_receiver :: "channel_id \<Rightarrow> ('a, 'cb) hub \<Rightarrow> (hub_error, ('a, 'cb) hub) result" where
  "release_receiver c s =
     (if \<not> valid_id s c then Err IndexPanic else Ok (notify_all (upd_channel c drop_receiver s)))"

definition ended :: "channel_id \<Rightarrow> ('a, 'cb) hub \<Rightarrow> (hub_error, bool) result" where
  "ended c s =
     (if \<not> valid_id s c then Err IndexPanic else Ok (ch_senders (ch s c) = 0 \<and> ch_buf (ch s c) = []))"

section \<open>The detector\<close>

definition full :: "('a, 'cb) hub \<Rightarrow> channel_id \<Rightarrow> bool" where
  "full s c = (ch_capacity (ch s c) \<le> length (ch_buf (ch s c)))"

fun servable :: "('a, 'cb) hub \<Rightarrow> wait \<Rightarrow> bool" where
  "servable s (WRecv chans) = list_ex (\<lambda>c. ch_buf (ch s c) \<noteq> [] \<or> ch_senders (ch s c) = 0) chans"
| "servable s (WSend c) = (length (ch_buf (ch s c)) < ch_capacity (ch s c) \<or> ch_receivers (ch s c) = 0)"

fun describe :: "('a, 'cb) hub \<Rightarrow> wait \<Rightarrow> wait_text" where
  "describe s (WRecv chans) = WaitsRead (map (\<lambda>c. ch_label (ch s c)) chans)"
| "describe s (WSend c) = WaitsWrite (ch_label (ch s c))"

definition detect_deadlock :: "('a, 'cb) hub \<Rightarrow> ('a, 'cb) hub \<times> 'cb list" where
  "detect_deadlock s =
     (if cancel s \<noteq> None \<or> worker_names s = [] then (s, [])
      else if list_ex (\<lambda>w. \<not> bt_contains (waiting s) w) (bt_keys (worker_names s)) then (s, [])
      else if list_ex (\<lambda>e. servable s (snd e)) (waiting s) then (s, [])
      else set_cancel (Deadlock (map (\<lambda>(w, what). (map_of (worker_names s) w, describe s what)) (waiting s))) s)"

section \<open>Workers and cancellation\<close>

definition hub_worker :: "string \<Rightarrow> ('a, 'cb) hub \<Rightarrow> ('a, 'cb) hub \<times> worker_id" where
  "hub_worker name s =
     (s\<lparr>next_id := next_id s + 1, worker_names := bt_insert (next_id s) name (worker_names s)\<rparr>, next_id s)"

definition worker_done :: "worker_id \<Rightarrow> ('a, 'cb) hub \<Rightarrow> ('a, 'cb) hub \<times> 'cb list" where
  "worker_done w s =
     (let s1 = s\<lparr>worker_names := bt_remove w (worker_names s), waiting := bt_remove w (waiting s)\<rparr>;
          (s2, cbs) = detect_deadlock s1
      in (notify_all s2, cbs))"

definition hub_cancel :: "cancel_cause \<Rightarrow> ('a, 'cb) hub \<Rightarrow> ('a, 'cb) hub \<times> 'cb list" where
  "hub_cancel cause s = (let (s1, cbs) = set_cancel cause s in (notify_all s1, cbs))"

definition hub_on_cancel :: "'cb \<Rightarrow> ('a, 'cb) hub \<Rightarrow> ('a, 'cb) hub \<times> 'cb list" where
  "hub_on_cancel f s = (case cancel s of Some _ \<Rightarrow> (s, [f]) | None \<Rightarrow> (s\<lparr>on_cancel := on_cancel s @ [f]\<rparr>, []))"

section \<open>Rounds of the blocking calls\<close>

datatype 'r round = Returns 'r | Again | Asleep

text \<open>\<open>wait\<close>: register, look for a deadlock, sleep unless the run was cancelled.\<close>

definition hub_wait :: "worker_id \<Rightarrow> wait \<Rightarrow> ('a, 'cb) hub \<Rightarrow> ('a, 'cb) hub \<times> 'cb list \<times> 'r round" where
  "hub_wait w what s =
     (let s1 = s\<lparr>waiting := bt_insert w what (waiting s)\<rparr>;
          (s2, cbs) = detect_deadlock s1
      in if cancel s2 \<noteq> None
         then ((notify_all s2)\<lparr>waiting := bt_remove w (waiting s2)\<rparr>, cbs, Again)
         else (s2\<lparr>cv_waiters := w # cv_waiters s2\<rparr>, cbs, Asleep))"

text \<open>Waking up, on a notification or spuriously: the worker leaves the register.\<close>

definition hub_wake :: "worker_id \<Rightarrow> ('a, 'cb) hub \<Rightarrow> ('a, 'cb) hub" where
  "hub_wake w s = s\<lparr>waiting := bt_remove w (waiting s), cv_waiters := removeAll w (cv_waiters s)\<rparr>"

definition live :: "('a, 'cb) hub \<Rightarrow> channel_id list \<Rightarrow> channel_id list" where
  "live s chans = filter (\<lambda>c. ch_receivers (ch s c) > 0) chans"

definition push :: "'a \<Rightarrow> channel_id \<Rightarrow> ('a, 'cb) hub \<Rightarrow> ('a, 'cb) hub" where
  "push v c = upd_channel c (\<lambda>x. x\<lparr>ch_buf := ch_buf x @ [v]\<rparr>)"

definition push_all :: "'a \<Rightarrow> channel_id list \<Rightarrow> ('a, 'cb) hub \<Rightarrow> ('a, 'cb) hub" where
  "push_all v cs s = fold (push v) cs s"

definition send_round ::
  "worker_id \<Rightarrow> channel_id list \<Rightarrow> 'a \<Rightarrow> ('a, 'cb) hub \<Rightarrow>
     (hub_error, ('a, 'cb) hub \<times> 'cb list \<times> (stopped, unit) result round) result" where
  "send_round w chans v s =
     (case cancel s of
        Some c \<Rightarrow> Ok (s, [], Returns (Err (StopCancelled c)))
      | None \<Rightarrow>
          if list_ex (\<lambda>c. \<not> valid_id s c) chans then Err IndexPanic
          else if live s chans = [] then Ok (s, [], Returns (Err NoReader))
          else (case find (full s) (live s chans) of
                  Some c \<Rightarrow> Ok (hub_wait w (WSend c) s)
                | None \<Rightarrow> Ok (notify_all (push_all v (live s chans) s), [], Returns (Ok ()))))"

text \<open>The first channel that holds something, by its position; a bad index met on the way panics.\<close>

fun first_ready :: "('a, 'cb) hub \<Rightarrow> channel_id list \<Rightarrow> (hub_error, nat option) result" where
  "first_ready s [] = Ok None"
| "first_ready s (c # cs) =
     (if \<not> valid_id s c then Err IndexPanic
      else if ch_buf (ch s c) \<noteq> [] then Ok (Some 0)
      else try_then (first_ready s cs) (\<lambda>i. Ok (map_option Suc i)))"

definition pop :: "channel_id \<Rightarrow> ('a, 'cb) hub \<Rightarrow> ('a, 'cb) hub \<times> 'a" where
  "pop c s = (upd_channel c (\<lambda>x. x\<lparr>ch_buf := tl (ch_buf x)\<rparr>) s, hd (ch_buf (ch s c)))"

definition recv_round ::
  "worker_id \<Rightarrow> channel_id list \<Rightarrow> ('a, 'cb) hub \<Rightarrow>
     (hub_error, ('a, 'cb) hub \<times> 'cb list \<times> (cancel_cause, (nat \<times> 'a) option) result round) result" where
  "recv_round w chans s =
     (case cancel s of
        Some c \<Rightarrow> Ok (s, [], Returns (Err c))
      | None \<Rightarrow>
          try_then (first_ready s chans) (\<lambda>r.
          case r of
            Some i \<Rightarrow> (let (s', v) = pop (chans ! i) s in Ok (notify_all s', [], Returns (Ok (Some (i, v)))))
          | None \<Rightarrow>
              if list_all (\<lambda>c. ch_senders (ch s c) = 0) chans then Ok (s, [], Returns (Ok None))
              else Ok (hub_wait w (WRecv chans) s)))"

section \<open>Calls that never wait\<close>

definition hub_try_send ::
  "channel_id list \<Rightarrow> 'a \<Rightarrow> ('a, 'cb) hub \<Rightarrow> (hub_error, ('a, 'cb) hub \<times> ('a try_send, unit) result) result" where
  "hub_try_send chans v s =
     (case cancel s of
        Some c \<Rightarrow> Ok (s, Err (TsStopped (StopCancelled c)))
      | None \<Rightarrow>
          if list_ex (\<lambda>c. \<not> valid_id s c) chans then Err IndexPanic
          else if live s chans = [] then Ok (s, Err (TsStopped NoReader))
          else if list_ex (full s) (live s chans) then Ok (s, Err (Full v))
          else Ok (notify_all (push_all v (live s chans) s), Ok ()))"

definition hub_try_recv ::
  "channel_id list \<Rightarrow> ('a, 'cb) hub \<Rightarrow> (hub_error, ('a, 'cb) hub \<times> (try_recv, (nat \<times> 'a) option) result) result" where
  "hub_try_recv chans s =
     (case cancel s of
        Some c \<Rightarrow> Ok (s, Err (TrCancelled c))
      | None \<Rightarrow>
          try_then (first_ready s chans) (\<lambda>r.
          case r of
            Some i \<Rightarrow> (let (s', v) = pop (chans ! i) s in Ok (notify_all s', Ok (Some (i, v))))
          | None \<Rightarrow>
              if list_all (\<lambda>c. ch_senders (ch s c) = 0) chans then Ok (s, Ok None)
              else Ok (s, Err Empty)))"

section \<open>Steps of a run\<close>

datatype ('a, 'cb) event =
    EvPush channel_id 'a
  | EvPop channel_id 'a
  | EvRegistered 'cb
  | EvCalled 'cb

text \<open>
  One critical section of one thread. The guards are the contract of the callers: a worker that
  calls a blocking operation is registered and not already waiting (it is one thread), a send
  names each channel once and holds a sender on each.
\<close>

definition may_block :: "worker_id \<Rightarrow> ('a, 'cb) hub \<Rightarrow> bool" where
  "may_block w s \<longleftrightarrow> bt_contains (worker_names s) w \<and> \<not> bt_contains (waiting s) w"

definition holds_senders :: "channel_id list \<Rightarrow> ('a, 'cb) hub \<Rightarrow> bool" where
  "holds_senders chans s \<longleftrightarrow> distinct chans \<and> (\<forall>c \<in> set chans. valid_id s c \<longrightarrow> ch_senders (ch s c) > 0)"

fun send_events :: "('a, 'cb) hub \<Rightarrow> channel_id list \<Rightarrow> 'a \<Rightarrow> (stopped, unit) result round \<Rightarrow> ('a, 'cb) event list" where
  "send_events s chans v (Returns (Inr _)) = map (\<lambda>c. EvPush c v) (live s chans)"
| "send_events s chans v _ = []"

fun recv_events :: "channel_id list \<Rightarrow> (cancel_cause, (nat \<times> 'a) option) result round \<Rightarrow> ('a, 'cb) event list" where
  "recv_events chans (Returns (Inr (Some (i, v)))) = [EvPop (chans ! i) v]"
| "recv_events chans _ = []"

inductive hub_step :: "('a, 'cb) hub \<Rightarrow> ('a, 'cb) event list \<Rightarrow> ('a, 'cb) hub \<Rightarrow> bool" where
  step_channel: "hub_step s [] (fst (hub_channel l cap se re s))"
| step_worker: "hub_step s [] (fst (hub_worker name s))"
| step_done: "worker_done w s = (s', cbs) \<Longrightarrow> hub_step s (map EvCalled cbs) s'"
| step_release_sender: "release_sender c s = Inr s' \<Longrightarrow> hub_step s [] s'"
| step_release_receiver: "release_receiver c s = Inr s' \<Longrightarrow> hub_step s [] s'"
| step_cancel: "hub_cancel cause s = (s', cbs) \<Longrightarrow> hub_step s (map EvCalled cbs) s'"
| step_on_cancel: "hub_on_cancel f s = (s', cbs) \<Longrightarrow> hub_step s (EvRegistered f # map EvCalled cbs) s'"
| step_send: "may_block w s \<Longrightarrow> holds_senders chans s \<Longrightarrow> send_round w chans v s = Inr (s', cbs, r) \<Longrightarrow>
    hub_step s (send_events s chans v r @ map EvCalled cbs) s'"
| step_recv: "may_block w s \<Longrightarrow> recv_round w chans s = Inr (s', cbs, r) \<Longrightarrow>
    hub_step s (recv_events chans r @ map EvCalled cbs) s'"
| step_try_send: "holds_senders chans s \<Longrightarrow> hub_try_send chans v s = Inr (s', r) \<Longrightarrow>
    hub_step s (if r = Inr () then map (\<lambda>c. EvPush c v) (live s chans) else []) s'"
| step_try_recv: "hub_try_recv chans s = Inr (s', r) \<Longrightarrow>
    hub_step s (case r of Inr (Some (i, v)) \<Rightarrow> [EvPop (chans ! i) v] | _ \<Rightarrow> []) s'"
| step_wake: "bt_contains (waiting s) w \<Longrightarrow> hub_step s [] (hub_wake w s)"

inductive hub_run :: "('a, 'cb) hub \<Rightarrow> ('a, 'cb) event list \<Rightarrow> ('a, 'cb) hub \<Rightarrow> bool" where
  run_refl: "hub_run s [] s"
| run_step: "hub_run s tr t \<Longrightarrow> hub_step t evs u \<Longrightarrow> hub_run s (tr @ evs) u"

section \<open>What the operations do to the state\<close>

text \<open>What an operation did to the channels, and the rest of the state it left.\<close>

lemma notify_all_simps [simp]:
  "channels (notify_all s) = channels s" "worker_names (notify_all s) = worker_names s"
  "next_id (notify_all s) = next_id s" "waiting (notify_all s) = waiting s" "cancel (notify_all s) = cancel s"
  "on_cancel (notify_all s) = on_cancel s" "cv_waiters (notify_all s) = []" "ch (notify_all s) = ch s"
  by (simp_all add: notify_all_def ch_def [abs_def])

lemma upd_channel_simps [simp]:
  "length (channels (upd_channel c f s)) = length (channels s)" "worker_names (upd_channel c f s) = worker_names s"
  "next_id (upd_channel c f s) = next_id s" "waiting (upd_channel c f s) = waiting s" "cancel (upd_channel c f s) = cancel s"
  "on_cancel (upd_channel c f s) = on_cancel s" "cv_waiters (upd_channel c f s) = cv_waiters s"
  by (simp_all add: upd_channel_def)

lemma ch_upd_channel:
  "valid_id s c \<Longrightarrow> ch (upd_channel c f s) d = (if d = c then f (ch s c) else ch s d)"
  by (simp add: ch_def upd_channel_def valid_id_def nth_list_update)

lemma push_all_Cons: "push_all v (c # cs) s = push_all v cs (push v c s)"
  by (simp add: push_all_def)

lemma push_all_simps [simp]:
  "length (channels (push_all v cs s)) = length (channels s)" "worker_names (push_all v cs s) = worker_names s"
  "next_id (push_all v cs s) = next_id s" "waiting (push_all v cs s) = waiting s" "cancel (push_all v cs s) = cancel s"
  "on_cancel (push_all v cs s) = on_cancel s" "cv_waiters (push_all v cs s) = cv_waiters s"
proof -
  have "length (channels (push_all v cs s)) = length (channels s) \<and> worker_names (push_all v cs s) = worker_names s
      \<and> next_id (push_all v cs s) = next_id s \<and> waiting (push_all v cs s) = waiting s \<and> cancel (push_all v cs s) = cancel s
      \<and> on_cancel (push_all v cs s) = on_cancel s \<and> cv_waiters (push_all v cs s) = cv_waiters s"
  proof (induction cs arbitrary: s)
    case Nil
    show ?case by (simp add: push_all_def)
  next
    case (Cons c cs)
    show ?case using Cons.IH [of "push v c s"] by (simp add: push_all_Cons push_def)
  qed
  then show "length (channels (push_all v cs s)) = length (channels s)" "worker_names (push_all v cs s) = worker_names s"
    "next_id (push_all v cs s) = next_id s" "waiting (push_all v cs s) = waiting s" "cancel (push_all v cs s) = cancel s"
    "on_cancel (push_all v cs s) = on_cancel s" "cv_waiters (push_all v cs s) = cv_waiters s" by blast+
qed

lemma ch_push_all:
  "distinct cs \<Longrightarrow> \<forall>c \<in> set cs. valid_id s c \<Longrightarrow>
     ch (push_all v cs s) d = (if d \<in> set cs then (ch s d)\<lparr>ch_buf := ch_buf (ch s d) @ [v]\<rparr> else ch s d)"
proof (induction cs arbitrary: s)
  case (Cons c cs)
  have "\<forall>d \<in> set cs. valid_id (push v c s) d" using Cons.prems(2) by (simp add: push_def valid_id_def)
  then show ?case using Cons by (auto simp: push_all_Cons push_def ch_upd_channel)
qed (simp add: push_all_def)

lemma detect_cases:
  obtains (none) "detect_deadlock s = (s, [])"
  | (dead) "cancel s = None" "worker_names s \<noteq> []" "\<forall>w \<in> set (bt_keys (worker_names s)). bt_contains (waiting s) w"
    "\<forall>e \<in> set (waiting s). \<not> servable s (snd e)"
    "detect_deadlock s = (s\<lparr>cancel := Some (Deadlock (map (\<lambda>(w, what). (map_of (worker_names s) w, describe s what)) (waiting s))),
       on_cancel := []\<rparr>, on_cancel s)"
  by (cases "detect_deadlock s = (s, [])")
    (auto simp: detect_deadlock_def set_cancel_def list_ex_iff split: if_splits)

lemma hub_wait_cases:
  assumes c: "cancel s = None" and run: "hub_wait w what s = (s', cbs, r)"
  shows "(s' = s\<lparr>waiting := bt_insert w what (waiting s), cv_waiters := w # cv_waiters s\<rparr> \<and> cbs = [] \<and> r = Asleep
      \<and> detect_deadlock (s\<lparr>waiting := bt_insert w what (waiting s)\<rparr>) = (s\<lparr>waiting := bt_insert w what (waiting s)\<rparr>, []))
    \<or> (\<exists>cause. s' = s\<lparr>cancel := Some cause, on_cancel := [], cv_waiters := [],
      waiting := bt_remove w (bt_insert w what (waiting s))\<rparr> \<and> cbs = on_cancel s \<and> r = Again)"
proof (cases rule: detect_cases [of "s\<lparr>waiting := bt_insert w what (waiting s)\<rparr>"])
  case none
  then show ?thesis using c run by (simp add: hub_wait_def)
next
  case dead
  show ?thesis using run by (simp add: hub_wait_def dead(5) notify_all_def Let_def) blast
qed

section \<open>Invariants\<close>

definition chan_ok :: "'a channel \<Rightarrow> bool" where
  "chan_ok x \<longleftrightarrow> 1 \<le> ch_capacity x \<and> length (ch_buf x) \<le> ch_capacity x \<and> (ch_receivers x = 0 \<longrightarrow> ch_buf x = [])"

definition chan_inv :: "('a, 'cb) hub \<Rightarrow> bool" where
  "chan_inv s \<longleftrightarrow> (\<forall>c. valid_id s c \<longrightarrow> chan_ok (ch s c))"

definition reg_inv :: "('a, 'cb) hub \<Rightarrow> bool" where
  "reg_inv s \<longleftrightarrow> (\<forall>w. bt_contains (waiting s) w \<longrightarrow> bt_contains (worker_names s) w)
     \<and> (\<forall>w. bt_contains (worker_names s) w \<longrightarrow> w < next_id s) \<and> bt_wf (waiting s)"

text \<open>Specification of a wait that cannot go on: what the loop would find on its next round.\<close>

fun blocked :: "('a, 'cb) hub \<Rightarrow> wait \<Rightarrow> bool" where
  "blocked s (WRecv chans) \<longleftrightarrow> (\<forall>c \<in> set chans. valid_id s c \<and> ch_buf (ch s c) = []) \<and> (\<exists>c \<in> set chans. ch_senders (ch s c) \<noteq> 0)"
| "blocked s (WSend c) \<longleftrightarrow> valid_id s c \<and> full s c \<and> ch_receivers (ch s c) > 0"

definition sleep_inv :: "('a, 'cb) hub \<Rightarrow> bool" where
  "sleep_inv s \<longleftrightarrow> (\<forall>w \<in> set (cv_waiters s). cancel s = None \<and> (\<exists>what. map_of (waiting s) w = Some what \<and> blocked s what))"

fun single_wait :: "wait \<Rightarrow> bool" where
  "single_wait (WRecv chans) \<longleftrightarrow> length chans = 1"
| "single_wait (WSend _) \<longleftrightarrow> True"

definition single_waits :: "('a, 'cb) hub \<Rightarrow> bool" where
  "single_waits s \<longleftrightarrow> (\<forall>e \<in> set (waiting s). single_wait (snd e))"

definition awake_inv :: "('a, 'cb) hub \<Rightarrow> bool" where
  "awake_inv s \<longleftrightarrow> (single_waits s \<and> worker_names s \<noteq> [] \<longrightarrow> (\<exists>w. bt_contains (worker_names s) w \<and> w \<notin> set (cv_waiters s)))"

definition hub_inv :: "('a, 'cb) hub \<Rightarrow> bool" where
  "hub_inv s \<longleftrightarrow> chan_inv s \<and> reg_inv s \<and> sleep_inv s \<and> awake_inv s \<and> (cancel s \<noteq> None \<longrightarrow> on_cancel s = [])"

lemma hub_inv_new: "hub_inv hub_new"
  by (simp add: hub_inv_def hub_new_def chan_inv_def valid_id_def reg_inv_def sleep_inv_def awake_inv_def bt_contains_def)

lemma not_servable_blocked:
  "chan_inv s \<Longrightarrow> single_wait what \<Longrightarrow> blocked s what \<Longrightarrow> \<not> servable s what"
  by (cases what) (auto simp: full_def length_Suc_conv)

lemma someone_there: "bt_contains m w \<longleftrightarrow> w \<in> set (bt_keys m)"
  by (simp add: bt_contains_iff bt_keys_def)

lemma names_nonempty: "worker_names s \<noteq> [] \<Longrightarrow> \<exists>w. bt_contains (worker_names s) w"
  by (cases "worker_names s") (auto simp: bt_contains_def)

section \<open>Every step keeps the invariants\<close>

lemma blocked_same_channels: "channels s' = channels s \<Longrightarrow> blocked s' what = blocked s what"
  by (cases what) (simp_all add: valid_id_def ch_def full_def)

lemma chan_inv_same_channels: "channels s' = channels s \<Longrightarrow> chan_inv s' = chan_inv s"
  by (simp add: chan_inv_def valid_id_def ch_def)

lemma inv_notify [simp]: "chan_inv (notify_all s) = chan_inv s" "reg_inv (notify_all s) = reg_inv s"
  by (simp_all add: chan_inv_def valid_id_def reg_inv_def)

lemma hub_inv_notified:
  assumes "chan_inv s" "reg_inv s" "cv_waiters s = []" "cancel s \<noteq> None \<longrightarrow> on_cancel s = []"
  shows "hub_inv s"
  using assms names_nonempty [of s] by (auto simp: hub_inv_def sleep_inv_def awake_inv_def)

lemma chan_inv_upd:
  assumes "chan_inv s" "valid_id s c" "chan_ok (f (ch s c))"
  shows "chan_inv (upd_channel c f s)"
  using assms by (auto simp: chan_inv_def ch_upd_channel valid_id_def)

lemma hub_inv_upd_notify:
  assumes "hub_inv s" "valid_id s c" "chan_ok (f (ch s c))"
  shows "hub_inv (notify_all (upd_channel c f s))"
proof (rule hub_inv_notified)
  show "chan_inv (notify_all (upd_channel c f s))"
    using chan_inv_upd [of s c f] assms by (simp add: hub_inv_def)
  show "reg_inv (notify_all (upd_channel c f s))" using assms(1) by (simp add: hub_inv_def reg_inv_def)
  show "cancel (notify_all (upd_channel c f s)) \<noteq> None \<longrightarrow> on_cancel (notify_all (upd_channel c f s)) = []"
    using assms(1) by (simp add: hub_inv_def)
qed simp

lemma hub_inv_push:
  assumes inv: "hub_inv s" and d: "distinct cs"
    and ok: "\<forall>c \<in> set cs. valid_id s c \<and> ch_receivers (ch s c) > 0 \<and> \<not> full s c"
  shows "hub_inv (notify_all (push_all v cs s))"
proof (rule hub_inv_notified)
  show "chan_inv (notify_all (push_all v cs s))"
    unfolding chan_inv_def
  proof (intro allI impI)
    fix c assume "valid_id (notify_all (push_all v cs s)) c"
    then have "chan_ok (ch s c)" using inv by (simp add: hub_inv_def chan_inv_def valid_id_def)
    then show "chan_ok (ch (notify_all (push_all v cs s)) c)"
      using ok ch_push_all [OF d, of s v c] by (auto simp: chan_ok_def full_def)
  qed
  show "reg_inv (notify_all (push_all v cs s))" using inv by (simp add: hub_inv_def reg_inv_def)
  show "cancel (notify_all (push_all v cs s)) \<noteq> None \<longrightarrow> on_cancel (notify_all (push_all v cs s)) = []"
    using inv by (simp add: hub_inv_def)
qed simp

lemma map_of_waiting: "bt_wf m \<Longrightarrow> (w, x) \<in> set m \<Longrightarrow> map_of m w = Some x"
  using bt_wf_distinct by (metis map_of_is_SomeI)

lemma all_asleep_detected:
  assumes chan: "chan_inv s" and reg: "reg_inv s" and c: "cancel s = None" and n: "worker_names s \<noteq> []"
    and single: "single_waits s"
    and asleep: "\<forall>w. bt_contains (worker_names s) w \<longrightarrow> (\<exists>what. map_of (waiting s) w = Some what \<and> blocked s what)"
  shows "detect_deadlock s \<noteq> (s, [])"
proof -
  have all: "\<not> list_ex (\<lambda>w. \<not> bt_contains (waiting s) w) (bt_keys (worker_names s))"
  proof -
    have "bt_contains (waiting s) w" if "w \<in> set (bt_keys (worker_names s))" for w
      using asleep that by (fastforce simp: someone_there [symmetric] bt_contains_def)
    then show ?thesis by (auto simp: list_ex_iff)
  qed
  have none: "\<not> list_ex (\<lambda>e. servable s (snd e)) (waiting s)"
  proof -
    have "\<not> servable s what" if e: "(w, what) \<in> set (waiting s)" for w what
    proof -
      have m: "map_of (waiting s) w = Some what" using e reg by (intro map_of_waiting) (auto simp: reg_inv_def)
      then have "bt_contains (worker_names s) w" using reg by (simp add: reg_inv_def bt_contains_def)
      then have "blocked s what" using asleep m by fastforce
      moreover have "single_wait what" using single e by (force simp: single_waits_def)
      ultimately show ?thesis using not_servable_blocked [OF chan] by blast
    qed
    then show ?thesis by (auto simp: list_ex_iff)
  qed
  have "cancel (fst (detect_deadlock s)) \<noteq> None"
    using all none c n by (simp add: detect_deadlock_def set_cancel_def)
  then show ?thesis using c by (metis fst_conv)
qed

lemma hub_inv_wait:
  assumes inv: "hub_inv s" and c: "cancel s = None" and w: "may_block w s" and b: "blocked s what"
    and run: "hub_wait w what s = (s', cbs, r)"
  shows "hub_inv s'"
  using hub_wait_cases [OF c run]
proof (elim disjE exE conjE)
  let ?s1 = "s\<lparr>waiting := bt_insert w what (waiting s)\<rparr>"
  assume s': "s' = s\<lparr>waiting := bt_insert w what (waiting s), cv_waiters := w # cv_waiters s\<rparr>"
    and det: "detect_deadlock ?s1 = (?s1, [])"
  have chan: "chan_inv ?s1" "chan_inv s'" using inv by (simp_all add: hub_inv_def s' chan_inv_def valid_id_def ch_def)
  have reg: "reg_inv ?s1" "reg_inv s'" using inv w by (auto simp: hub_inv_def s' reg_inv_def may_block_def bt_contains_def)
  have bl: "blocked s' x = blocked s x" "blocked ?s1 x = blocked s x" for x by (rule blocked_same_channels, simp add: s')+
  have sl: "sleep_inv s'"
    unfolding sleep_inv_def
  proof
    fix u assume "u \<in> set (cv_waiters s')"
    then have u: "u = w \<or> u \<in> set (cv_waiters s)" by (simp add: s')
    have "\<exists>x. map_of (waiting s') u = Some x \<and> blocked s x"
    proof (cases "u = w")
      case False
      then show ?thesis using u inv by (auto simp: hub_inv_def sleep_inv_def s')
    qed (use b in \<open>simp add: s'\<close>)
    moreover have "cancel s' = None" using c by (simp add: s')
    ultimately show "cancel s' = None \<and> (\<exists>x. map_of (waiting s') u = Some x \<and> blocked s' x)" using bl(1) by blast
  qed
  have "awake_inv s'"
  proof (rule ccontr)
    assume "\<not> awake_inv s'"
    then have sg: "single_waits ?s1" and n: "worker_names ?s1 \<noteq> []"
      and all: "\<forall>u. bt_contains (worker_names ?s1) u \<longrightarrow> u \<in> set (cv_waiters s')"
      by (auto simp: awake_inv_def single_waits_def s')
    have "\<exists>x. map_of (waiting ?s1) u = Some x \<and> blocked ?s1 x" if "bt_contains (worker_names ?s1) u" for u
    proof -
      have "u \<in> set (cv_waiters s')" using all that by blast
      then obtain x where x: "map_of (waiting s') u = Some x" "blocked s' x" using sl unfolding sleep_inv_def by blast
      have "map_of (waiting ?s1) u = Some x" using x(1) by (simp add: s')
      then show ?thesis using x(2) bl by blast
    qed
    then have "detect_deadlock ?s1 \<noteq> (?s1, [])" using sg n c by (intro all_asleep_detected chan reg) auto
    then show False using det by contradiction
  qed
  then show ?thesis using chan reg sl inv c by (simp add: hub_inv_def s')
next
  fix cause
  assume s': "s' = s\<lparr>cancel := Some cause, on_cancel := [], cv_waiters := [],
      waiting := bt_remove w (bt_insert w what (waiting s))\<rparr>"
  show ?thesis
  proof (rule hub_inv_notified)
    show "chan_inv s'" using inv by (simp add: hub_inv_def s' chan_inv_def valid_id_def ch_def)
    show "reg_inv s'" using inv w by (auto simp: hub_inv_def s' reg_inv_def may_block_def bt_contains_def)
  qed (simp_all add: s')
qed

lemma first_ready_spec:
  "first_ready s chans = Inr r \<Longrightarrow>
     (case r of
        None \<Rightarrow> \<forall>c \<in> set chans. valid_id s c \<and> ch_buf (ch s c) = []
      | Some i \<Rightarrow> i < length chans \<and> valid_id s (chans ! i) \<and> ch_buf (ch s (chans ! i)) \<noteq> [])"
  by (induction s chans arbitrary: r rule: first_ready.induct) (fastforce split: if_splits option.splits)+

lemma send_round_cases:
  assumes run: "send_round w chans v s = Inr (s', cbs, r)"
  obtains (cancelled) c where "cancel s = Some c" "s' = s" "cbs = []" "r = Returns (Inl (StopCancelled c))"
  | (unread) "cancel s = None" "live s chans = []" "s' = s" "cbs = []" "r = Returns (Inl NoReader)"
  | (waits) c where "cancel s = None" "blocked s (WSend c)" "hub_wait w (WSend c) s = (s', cbs, r)"
  | (pushed) "cancel s = None" "live s chans \<noteq> []" "\<forall>c \<in> set (live s chans). valid_id s c \<and> ch_receivers (ch s c) > 0 \<and> \<not> full s c"
      "s' = notify_all (push_all v (live s chans) s)" "cbs = []" "r = Returns (Inr ())"
proof (cases "cancel s")
  case (Some c)
  then show ?thesis using run by (intro cancelled) (auto simp: send_round_def)
next
  case None
  then have valid: "\<forall>c \<in> set chans. valid_id s c" using run by (auto simp: send_round_def list_ex_iff split: if_splits)
  show ?thesis
  proof (cases "live s chans = []")
    case True
    then show ?thesis using run None valid by (intro unread) (auto simp: send_round_def list_ex_iff)
  next
    case unlive: False
    show ?thesis
    proof (cases "find (full s) (live s chans) = None")
      case False
      then obtain c where Some: "find (full s) (live s chans) = Some c" by blast
      then have "c \<in> set (live s chans)" "full s c" by (auto dest: find_Some_in)
      then have "blocked s (WSend c)" using valid by (auto simp: live_def)
      then show ?thesis using run None valid unlive Some by (intro waits [of c]) (auto simp: send_round_def list_ex_iff)
    next
      case True
      have "\<forall>c \<in> set (live s chans). valid_id s c \<and> ch_receivers (ch s c) > 0 \<and> \<not> full s c"
        using True valid by (auto simp: find_None_all live_def)
      then show ?thesis using run None valid unlive True by (intro pushed) (auto simp: send_round_def list_ex_iff)
    qed
  qed
qed

lemma recv_round_cases:
  assumes run: "recv_round w chans s = Inr (s', cbs, r)"
  obtains (cancelled) c where "cancel s = Some c" "s' = s" "cbs = []" "r = Returns (Inl c)"
  | (over) "cancel s = None" "\<forall>c \<in> set chans. valid_id s c \<and> ch_buf (ch s c) = [] \<and> ch_senders (ch s c) = 0"
      "s' = s" "cbs = []" "r = Returns (Inr None)"
  | (waits) "cancel s = None" "blocked s (WRecv chans)" "hub_wait w (WRecv chans) s = (s', cbs, r)"
  | (popped) i where "cancel s = None" "i < length chans" "valid_id s (chans ! i)" "ch_buf (ch s (chans ! i)) \<noteq> []"
      "s' = notify_all (fst (pop (chans ! i) s))" "cbs = []" "r = Returns (Inr (Some (i, hd (ch_buf (ch s (chans ! i))))))"
proof (cases "cancel s")
  case (Some c)
  then show ?thesis using run by (intro cancelled) (auto simp: recv_round_def)
next
  case None
  then obtain q where q: "first_ready s chans = Inr q" using run by (auto simp: recv_round_def)
  show ?thesis
  proof (cases "q = None")
    case False
    then obtain i where "q = Some i" by blast
    then have q': "first_ready s chans = Inr (Some i)" using q by simp
    show ?thesis using run None q' first_ready_spec [OF q'] by (intro popped [of i]) (auto simp: recv_round_def pop_def)
  next
    case True
    then have q': "first_ready s chans = Inr None" using q by simp
    note spec = first_ready_spec [OF q', unfolded option.case]
    show ?thesis
    proof (cases "list_all (\<lambda>c. ch_senders (ch s c) = 0) chans")
      case True
      then show ?thesis using run None q' spec by (intro over) (auto simp: recv_round_def list_all_iff)
    next
      case False
      then have "blocked s (WRecv chans)" using spec by (auto simp: list_all_iff)
      then show ?thesis using run None q' False by (intro waits) (auto simp: recv_round_def)
    qed
  qed
qed

lemma hub_inv_pop:
  assumes "hub_inv s" "valid_id s c" "ch_buf (ch s c) \<noteq> []"
  shows "hub_inv (notify_all (fst (pop c s)))"
proof -
  have "chan_ok (ch s c)" using assms(1,2) by (simp add: hub_inv_def chan_inv_def)
  then have "chan_ok ((ch s c)\<lparr>ch_buf := tl (ch_buf (ch s c))\<rparr>)" by (auto simp: chan_ok_def)
  then show ?thesis using hub_inv_upd_notify [OF assms(1,2)] by (simp add: pop_def)
qed

lemma hub_inv_send:
  assumes inv: "hub_inv s" and w: "may_block w s" and h: "holds_senders chans s"
    and run: "send_round w chans v s = Inr (s', cbs, r)"
  shows "hub_inv s'"
  using run
proof (cases rule: send_round_cases)
  case (waits c)
  then show ?thesis using hub_inv_wait [OF inv waits(1) w waits(2,3)] by blast
next
  case pushed
  have "distinct (live s chans)" using h by (simp add: holds_senders_def live_def)
  then show ?thesis using hub_inv_push [OF inv _ pushed(3)] pushed(4) by simp
qed (use inv in auto)

lemma hub_inv_recv:
  assumes inv: "hub_inv s" and w: "may_block w s" and run: "recv_round w chans s = Inr (s', cbs, r)"
  shows "hub_inv s'"
  using run
proof (cases rule: recv_round_cases)
  case waits
  then show ?thesis using hub_inv_wait [OF inv waits(1) w waits(2,3)] by blast
next
  case (popped i)
  then show ?thesis using hub_inv_pop [OF inv popped(3,4)] by simp
qed (use inv in auto)


lemma hub_inv_same:
  assumes "hub_inv s" "channels s' = channels s" "worker_names s' = worker_names s" "next_id s' = next_id s"
    "waiting s' = waiting s" "cancel s' = cancel s" "cv_waiters s' = cv_waiters s" "cancel s = None"
  shows "hub_inv s'"
proof -
  have "blocked s' x = blocked s x" for x by (rule blocked_same_channels [OF assms(2)])
  then show ?thesis
    using assms(1,3-) chan_inv_same_channels [OF assms(2)]
    by (simp add: hub_inv_def reg_inv_def sleep_inv_def awake_inv_def single_waits_def)
qed

lemma hub_inv_set_cancel:
  assumes "chan_inv s" "reg_inv s" "cancel s \<noteq> None \<longrightarrow> on_cancel s = []" "set_cancel cause s = (s', cbs)"
  shows "hub_inv (notify_all s')"
proof (cases "cancel s")
  case None
  then have "s' = s\<lparr>cancel := Some cause, on_cancel := []\<rparr>" using assms(4) by (auto simp: set_cancel_def)
  then show ?thesis using assms(1,2)
    by (intro hub_inv_notified) (simp_all add: chan_inv_def valid_id_def ch_def reg_inv_def)
next
  case (Some c)
  then have "s' = s" using assms(4) by (auto simp: set_cancel_def)
  then show ?thesis using assms by (intro hub_inv_notified) simp_all
qed

lemma hub_inv_channel:
  assumes inv: "hub_inv s"
  shows "hub_inv (fst (hub_channel l cap se re s))"
proof -
  let ?t = "fst (hub_channel l cap se re s)"
  have old: "ch ?t c = ch s c" "valid_id ?t c" if "valid_id s c" for c
    using that by (simp_all add: hub_channel_def ch_def valid_id_def nth_append)
  have new: "ch_capacity (ch ?t c) \<ge> 1 \<and> ch_buf (ch ?t c) = []" if "valid_id ?t c" "\<not> valid_id s c" for c
    using that by (auto simp: hub_channel_def ch_def valid_id_def nth_append)
  have chan: "chan_inv ?t"
    unfolding chan_inv_def
  proof (intro allI impI)
    fix c assume v: "valid_id ?t c"
    show "chan_ok (ch ?t c)"
    proof (cases "valid_id s c")
      case True
      then show ?thesis using inv old by (simp add: hub_inv_def chan_inv_def)
    qed (use new [OF v] in \<open>auto simp: chan_ok_def\<close>)
  qed
  have bl: "blocked s what \<Longrightarrow> blocked ?t what" for what by (cases what) (auto simp: old full_def)
  have rest: "worker_names ?t = worker_names s" "waiting ?t = waiting s" "next_id ?t = next_id s" "cancel ?t = cancel s"
    "on_cancel ?t = on_cancel s" "cv_waiters ?t = cv_waiters s" by (simp_all add: hub_channel_def)
  have "sleep_inv ?t" using inv bl unfolding hub_inv_def sleep_inv_def rest by blast
  then show ?thesis using inv chan by (simp add: hub_inv_def reg_inv_def awake_inv_def single_waits_def rest)
qed

lemma asleep_registered: "hub_inv s \<Longrightarrow> w \<in> set (cv_waiters s) \<Longrightarrow> bt_contains (worker_names s) w"
  by (auto simp: hub_inv_def sleep_inv_def reg_inv_def bt_contains_def)

lemma hub_inv_worker:
  assumes inv: "hub_inv s"
  shows "hub_inv (fst (hub_worker name s))"
proof -
  let ?t = "fst (hub_worker name s)"
  have rest: "waiting ?t = waiting s" "next_id ?t = next_id s + 1" "cancel ?t = cancel s" "channels ?t = channels s"
    "on_cancel ?t = on_cancel s" "cv_waiters ?t = cv_waiters s"
    "worker_names ?t = bt_insert (next_id s) name (worker_names s)" by (simp_all add: hub_worker_def)
  have bl: "blocked ?t x = blocked s x" for x by (rule blocked_same_channels [OF rest(4)])
  have "reg_inv ?t" using inv by (auto simp: hub_inv_def reg_inv_def rest bt_contains_def less_Suc_eq)
  moreover have "sleep_inv ?t" using inv by (simp add: hub_inv_def sleep_inv_def rest bl)
  moreover have "next_id s \<notin> set (cv_waiters s)"
    using asleep_registered [OF inv, of "next_id s"] inv by (auto simp: hub_inv_def reg_inv_def)
  then have "awake_inv ?t" by (auto simp: awake_inv_def rest bt_contains_def)
  ultimately show ?thesis using inv chan_inv_same_channels [OF rest(4)] by (simp add: hub_inv_def rest)
qed

lemma hub_inv_done:
  assumes inv: "hub_inv s" and run: "worker_done w s = (s', cbs)"
  shows "hub_inv s'"
proof -
  let ?t = "s\<lparr>worker_names := bt_remove w (worker_names s), waiting := bt_remove w (waiting s)\<rparr>"
  have t: "chan_inv ?t" "reg_inv ?t" "cancel ?t \<noteq> None \<longrightarrow> on_cancel ?t = []"
    using inv by (auto simp: hub_inv_def chan_inv_def valid_id_def ch_def reg_inv_def bt_contains_def)
  show ?thesis
  proof (cases rule: detect_cases [of ?t])
    case none
    then have "s' = notify_all ?t" using run by (simp add: worker_done_def Let_def)
    then show ?thesis using t by (intro hub_inv_notified) simp_all
  next
    case dead
    have "set_cancel (Deadlock (map (\<lambda>(w, what). (map_of (worker_names ?t) w, describe ?t what)) (waiting ?t))) ?t
        = detect_deadlock ?t" using dead(1) by (simp only: dead(5)) (simp add: set_cancel_def)
    moreover obtain t' where t': "detect_deadlock ?t = (t', cbs)" "s' = notify_all t'"
      using run by (auto simp: worker_done_def Let_def split: prod.splits)
    ultimately show ?thesis using hub_inv_set_cancel [OF t] by simp
  qed
qed

lemma hub_inv_wake:
  assumes inv: "hub_inv s" and w: "bt_contains (waiting s) w"
  shows "hub_inv (hub_wake w s)"
proof -
  have chan: "chan_inv (hub_wake w s)" using inv by (simp add: hub_inv_def hub_wake_def chan_inv_def valid_id_def ch_def)
  have reg: "reg_inv (hub_wake w s)" using inv by (auto simp: hub_inv_def hub_wake_def reg_inv_def bt_contains_def)
  have bl: "blocked (hub_wake w s) x = blocked s x" for x by (rule blocked_same_channels) (simp add: hub_wake_def)
  have "bt_contains (worker_names s) w" using inv w by (simp add: hub_inv_def reg_inv_def)
  then have "awake_inv (hub_wake w s)" by (auto simp: awake_inv_def hub_wake_def)
  moreover have "sleep_inv (hub_wake w s)"
    using inv by (auto simp: hub_inv_def sleep_inv_def bl) (auto simp: hub_wake_def)
  ultimately show ?thesis using chan reg inv by (simp add: hub_inv_def) (simp add: hub_wake_def)
qed

lemma hub_inv_try_send:
  assumes inv: "hub_inv s" and h: "holds_senders chans s" and run: "hub_try_send chans v s = Inr (s', r)"
  shows "hub_inv s'"
proof (cases "r = Inr ()")
  case True
  then have ok: "\<forall>c \<in> set (live s chans). valid_id s c \<and> ch_receivers (ch s c) > 0 \<and> \<not> full s c"
    and s': "s' = notify_all (push_all v (live s chans) s)"
    using run by (auto simp: hub_try_send_def list_ex_iff live_def split: option.splits if_splits)
  have "distinct (live s chans)" using h by (simp add: holds_senders_def live_def)
  then show ?thesis using hub_inv_push [OF inv _ ok] s' by simp
next
  case False
  then have "s' = s" using run by (auto simp: hub_try_send_def split: option.splits if_splits)
  then show ?thesis using inv by simp
qed

lemma hub_try_recv_cases:
  assumes run: "hub_try_recv chans s = Inr (s', r)"
  obtains (idle) "s' = s" "\<And>x. r \<noteq> Inr (Some x)"
  | (popped) i where "i < length chans" "valid_id s (chans ! i)" "ch_buf (ch s (chans ! i)) \<noteq> []"
      "s' = notify_all (fst (pop (chans ! i) s))" "r = Inr (Some (i, hd (ch_buf (ch s (chans ! i)))))"
proof (cases "cancel s = None")
  case False
  then show ?thesis using run by (intro idle) (auto simp: hub_try_recv_def)
next
  case True
  then obtain q where q: "first_ready s chans = Inr q" using run by (auto simp: hub_try_recv_def)
  show ?thesis
  proof (cases "q = None")
    case False
    then obtain i where i: "q = Some i" by blast
    then have q': "first_ready s chans = Inr (Some i)" using q by simp
    show ?thesis using run True q' first_ready_spec [OF q']
      by (intro popped [of i]) (auto simp: hub_try_recv_def pop_def)
  next
    case None: True
    then show ?thesis using run True q by (intro idle) (auto simp: hub_try_recv_def split: if_splits)
  qed
qed

lemma hub_inv_step: "hub_step s evs s' \<Longrightarrow> hub_inv s \<Longrightarrow> hub_inv s'"
proof (induction rule: hub_step.induct)
  case (step_release_sender c s s')
  then have v: "valid_id s c" and s': "s' = notify_all (upd_channel c (\<lambda>x. x\<lparr>ch_senders := ch_senders x - 1\<rparr>) s)"
    by (auto simp: release_sender_def split: if_splits)
  have "chan_ok (ch s c)" using step_release_sender v by (simp add: hub_inv_def chan_inv_def)
  then show ?case unfolding s' by (intro hub_inv_upd_notify step_release_sender v) (simp add: chan_ok_def)
next
  case (step_release_receiver c s s')
  then have v: "valid_id s c" and s': "s' = notify_all (upd_channel c drop_receiver s)"
    by (auto simp: release_receiver_def split: if_splits)
  have "chan_ok (ch s c)" using step_release_receiver v by (simp add: hub_inv_def chan_inv_def)
  then show ?case unfolding s'
    by (intro hub_inv_upd_notify step_release_receiver v) (auto simp: chan_ok_def drop_receiver_def Let_def)
next
  case (step_cancel cause s s' cbs)
  then obtain t where t: "set_cancel cause s = (t, cbs)" and s': "s' = notify_all t"
    by (auto simp: hub_cancel_def Let_def split: prod.splits)
  show ?case unfolding s' by (rule hub_inv_set_cancel [OF _ _ _ t]) (use step_cancel.prems in \<open>simp_all add: hub_inv_def\<close>)
next
  case (step_on_cancel f s s' cbs)
  show ?case
  proof (cases "cancel s")
    case None
    then have "s' = s\<lparr>on_cancel := on_cancel s @ [f]\<rparr>" using step_on_cancel.hyps by (auto simp: hub_on_cancel_def)
    then show ?thesis using None by (intro hub_inv_same [OF step_on_cancel.prems]) simp_all
  next
    case (Some c)
    then show ?thesis using step_on_cancel by (simp add: hub_on_cancel_def)
  qed
next
  case (step_try_recv chans s s' r)
  from step_try_recv.hyps show ?case
  proof (cases rule: hub_try_recv_cases)
    case idle
    then show ?thesis using step_try_recv by simp
  next
    case (popped i)
    then show ?thesis using hub_inv_pop [OF step_try_recv.prems popped(2,3)] by simp
  qed
qed (blast intro: hub_inv_channel hub_inv_worker hub_inv_done hub_inv_send hub_inv_recv hub_inv_try_send hub_inv_wake)+

lemma hub_inv_run: "hub_run s tr t \<Longrightarrow> hub_inv s \<Longrightarrow> hub_inv t"
  by (induction rule: hub_run.induct) (auto intro: hub_inv_step)

lemma reachable_inv: "hub_run hub_new tr s \<Longrightarrow> hub_inv s"
  using hub_inv_run hub_inv_new by blast

section \<open>What a run has moved\<close>

text \<open>What the labels of a run say was pushed on a channel, popped from it, registered and called.\<close>

fun pushed :: "channel_id \<Rightarrow> ('a, 'cb) event list \<Rightarrow> 'a list" where
  "pushed c [] = []"
| "pushed c (EvPush d v # es) = (if d = c then v # pushed c es else pushed c es)"
| "pushed c (_ # es) = pushed c es"

fun popped :: "channel_id \<Rightarrow> ('a, 'cb) event list \<Rightarrow> 'a list" where
  "popped c [] = []"
| "popped c (EvPop d v # es) = (if d = c then v # popped c es else popped c es)"
| "popped c (_ # es) = popped c es"

fun registered :: "('a, 'cb) event list \<Rightarrow> 'cb list" where
  "registered [] = []"
| "registered (EvRegistered f # es) = f # registered es"
| "registered (_ # es) = registered es"

fun called :: "('a, 'cb) event list \<Rightarrow> 'cb list" where
  "called [] = []"
| "called (EvCalled f # es) = f # called es"
| "called (_ # es) = called es"

lemma labels_append [simp]:
  "pushed c (es @ fs) = pushed c es @ pushed c fs" "popped c (es @ fs) = popped c es @ popped c fs"
  "registered (es @ fs) = registered es @ registered fs" "called (es @ fs) = called es @ called fs"
  by (induction es rule: called.induct) auto

lemma labels_called [simp]:
  "pushed c (map EvCalled fs) = []" "popped c (map EvCalled fs) = []"
  "registered (map EvCalled fs) = []" "called (map EvCalled fs) = fs"
  by (induction fs) auto

lemma labels_push [simp]:
  "distinct cs \<Longrightarrow> pushed c (map (\<lambda>c. EvPush c v) cs) = (if c \<in> set cs then [v] else [])"
  "popped c (map (\<lambda>c. EvPush c v) cs) = []" "registered (map (\<lambda>c. EvPush c v) cs) = []"
  "called (map (\<lambda>c. EvPush c v) cs) = []"
  by (induction cs) auto

text \<open>What one step does to one channel.\<close>

definition chan_moves :: "channel_id \<Rightarrow> ('a, 'cb) event list \<Rightarrow> 'a channel \<Rightarrow> 'a channel \<Rightarrow> bool" where
  "chan_moves c evs x x' \<longleftrightarrow>
     (\<exists>d. ch_buf x @ pushed c evs = popped c evs @ ch_buf x' @ d \<and> (ch_receivers x' > 0 \<longrightarrow> d = []))
     \<and> ch_receivers x' \<le> ch_receivers x \<and> ch_senders x' \<le> ch_senders x \<and> ch_capacity x' = ch_capacity x
     \<and> (ch_receivers x = 0 \<or> ch_senders x = 0 \<longrightarrow> pushed c evs = [])"

definition moves :: "('a, 'cb) hub \<Rightarrow> ('a, 'cb) event list \<Rightarrow> ('a, 'cb) hub \<Rightarrow> bool" where
  "moves s evs s' \<longleftrightarrow>
     (\<forall>c. if valid_id s c then valid_id s' c \<and> chan_moves c evs (ch s c) (ch s' c)
          else pushed c evs = [] \<and> popped c evs = [] \<and> (valid_id s' c \<longrightarrow> ch_buf (ch s' c) = []))
     \<and> mset (registered evs) + mset (on_cancel s) = mset (called evs) + mset (on_cancel s')
     \<and> (cancel s \<noteq> None \<longrightarrow> cancel s' = cancel s) \<and> (cancel s' = None \<longrightarrow> called evs = [])"

lemma moves_quiet:
  assumes "channels s' = channels s" "\<And>c. pushed c evs = []" "\<And>c. popped c evs = []"
    "mset (registered evs) + mset (on_cancel s) = mset (called evs) + mset (on_cancel s')"
    "cancel s \<noteq> None \<longrightarrow> cancel s' = cancel s" "cancel s' = None \<longrightarrow> called evs = []"
  shows "moves s evs s'"
  using assms by (auto simp: moves_def chan_moves_def valid_id_def ch_def)

lemma moves_refl: "moves s [] s"
  by (rule moves_quiet) simp_all

lemma moves_set_cancel:
  assumes "set_cancel cause s = (s', cbs)"
  shows "moves s (map EvCalled cbs) s'"
  using assms by (intro moves_quiet) (auto simp: set_cancel_def split: option.splits)

lemma valid_id_simps [simp]:
  "valid_id (notify_all s) = valid_id s" "valid_id (upd_channel c f s) = valid_id s"
  "valid_id (push_all v cs s) = valid_id s"
  by (auto simp: valid_id_def)

lemma moves_notify: "moves s evs s' \<Longrightarrow> moves s evs (notify_all s')"
  by (simp add: moves_def)

lemma moves_upd:
  assumes v: "valid_id s c" and m: "chan_moves c evs (ch s c) (f (ch s c))"
    and q: "\<And>d. d \<noteq> c \<Longrightarrow> pushed d evs = [] \<and> popped d evs = []" "registered evs = []" "called evs = []"
  shows "moves s evs (notify_all (upd_channel c f s))"
proof -
  have "if valid_id s d then chan_moves d evs (ch s d) (ch (upd_channel c f s) d)
      else pushed d evs = [] \<and> popped d evs = []" for d
  proof (cases "d = c")
    case True
    then show ?thesis using v m by (simp add: ch_upd_channel)
  next
    case False
    then show ?thesis using q(1) [OF False] v by (simp add: ch_upd_channel chan_moves_def)
  qed
  then show ?thesis using q(2,3) by (auto simp: moves_def)
qed

lemma moves_push:
  fixes s :: "('a, 'cb) hub"
  assumes h: "holds_senders chans s" and ok: "\<forall>c \<in> set (live s chans). valid_id s c \<and> ch_receivers (ch s c) > 0 \<and> \<not> full s c"
  shows "moves s (map (\<lambda>c. EvPush c v) (live s chans) :: ('a, 'cb) event list) (notify_all (push_all v (live s chans) s))"
proof -
  have d: "distinct (live s chans)" using h by (simp add: holds_senders_def live_def)
  have "set (live s chans) \<subseteq> set chans" by (auto simp: live_def)
  then have se: "\<forall>c \<in> set (live s chans). ch_senders (ch s c) > 0" using h ok unfolding holds_senders_def by blast
  have valid: "\<forall>c \<in> set (live s chans). valid_id s c" using ok by blast
  let ?evs = "map (\<lambda>c. EvPush c v) (live s chans) :: ('a, 'cb) event list"
  let ?t = "push_all v (live s chans) s"
  have "if valid_id s c then valid_id ?t c \<and> chan_moves c ?evs (ch s c) (ch ?t c)
      else pushed c ?evs = [] \<and> popped c ?evs = [] \<and> (valid_id ?t c \<longrightarrow> ch_buf (ch ?t c) = [])" for c
  proof (cases "c \<in> set (live s chans)")
    case True
    then have "valid_id s c" "ch_receivers (ch s c) > 0" "ch_senders (ch s c) > 0" using ok se by blast+
    then show ?thesis using True by (simp add: labels_push(1) [OF d] ch_push_all [OF d valid] chan_moves_def)
  next
    case False
    then show ?thesis by (simp add: labels_push(1) [OF d] ch_push_all [OF d valid] chan_moves_def)
  qed
  then show ?thesis by (simp add: moves_def)
qed

lemma moves_pop:
  assumes v: "valid_id s c" and b: "ch_buf (ch s c) \<noteq> []"
  shows "moves s [EvPop c (hd (ch_buf (ch s c)))] (notify_all (fst (pop c s)))"
proof -
  have "\<exists>d. ch_buf (ch s c) = hd (ch_buf (ch s c)) # tl (ch_buf (ch s c)) @ d \<and> (0 < ch_receivers (ch s c) \<longrightarrow> d = [])"
    using b by (intro exI [of _ "[]"]) simp
  then show ?thesis unfolding pop_def fst_conv using v by (intro moves_upd) (auto simp: chan_moves_def)
qed

lemma moves_wait:
  assumes c: "cancel s = None" and run: "hub_wait w what s = (s', cbs, r)"
  shows "moves s (map EvCalled cbs) s' \<and> (r = Asleep \<or> r = Again)"
  using hub_wait_cases [OF c run] c by (elim disjE exE conjE) (auto intro!: moves_quiet)

lemma moves_send:
  assumes h: "holds_senders chans s" and run: "send_round w chans v s = Inr (s', cbs, r)"
  shows "moves s (send_events s chans v r @ map EvCalled cbs) s'"
  using run
proof (cases rule: send_round_cases)
  case (waits c)
  have "moves s (map EvCalled cbs) s'" "r = Asleep \<or> r = Again" using moves_wait [OF waits(1,3)] by blast+
  then show ?thesis by auto
next
  case pushed
  then show ?thesis using moves_push [OF h] by simp
qed (simp_all add: moves_refl)

lemma moves_recv:
  assumes run: "recv_round w chans s = Inr (s', cbs, r)"
  shows "moves s (recv_events chans r @ map EvCalled cbs) s'"
  using run
proof (cases rule: recv_round_cases)
  case waits
  have "moves s (map EvCalled cbs) s'" "r = Asleep \<or> r = Again" using moves_wait [OF waits(1,3)] by blast+
  then show ?thesis by auto
next
  case (popped i)
  then show ?thesis using moves_pop by simp
qed (simp_all add: moves_refl)

lemma moves_try_send:
  assumes h: "holds_senders chans s" and run: "hub_try_send chans v s = Inr (s', r)"
  shows "moves s (if r = Inr () then map (\<lambda>c. EvPush c v) (live s chans) else []) s'"
proof (cases "r = Inr ()")
  case True
  then have "\<forall>c \<in> set (live s chans). valid_id s c \<and> ch_receivers (ch s c) > 0 \<and> \<not> full s c"
    and "s' = notify_all (push_all v (live s chans) s)"
    using run by (auto simp: hub_try_send_def list_ex_iff live_def split: option.splits if_splits)
  then show ?thesis using moves_push [OF h] True by simp
next
  case False
  then have "s' = s" using run by (auto simp: hub_try_send_def split: option.splits if_splits)
  then show ?thesis using False by (simp add: moves_refl)
qed

lemma moves_try_recv:
  assumes run: "hub_try_recv chans s = Inr (s', r)"
  shows "moves s (case r of Inr (Some (i, v)) \<Rightarrow> [EvPop (chans ! i) v] | _ \<Rightarrow> []) s'"
  using run
proof (cases rule: hub_try_recv_cases)
  case idle
  then show ?thesis by (auto simp: moves_refl split: sum.splits option.splits)
next
  case (popped i)
  then show ?thesis using moves_pop by simp
qed

lemma moves_channel: "moves s [] (fst (hub_channel l cap se re s))"
  by (auto simp: moves_def chan_moves_def hub_channel_def valid_id_def ch_def nth_append less_Suc_eq)

lemma moves_done:
  assumes "worker_done w s = (s', cbs)"
  shows "moves s (map EvCalled cbs) s'"
proof -
  let ?t = "s\<lparr>worker_names := bt_remove w (worker_names s), waiting := bt_remove w (waiting s)\<rparr>"
  obtain t' where t': "detect_deadlock ?t = (t', cbs)" "s' = notify_all t'"
    using assms by (auto simp: worker_done_def Let_def split: prod.splits)
  have "moves s (map EvCalled cbs) t'"
    by (cases rule: detect_cases [of ?t]) (use t'(1) in \<open>auto intro!: moves_quiet\<close>)
  then show ?thesis using t'(2) moves_notify by blast
qed

lemma step_moves: "hub_step s evs s' \<Longrightarrow> moves s evs s'"
proof (induction rule: hub_step.induct)
  case (step_worker s name)
  show ?case by (rule moves_quiet) (simp_all add: hub_worker_def)
next
  case (step_release_sender c s s')
  then have v: "valid_id s c" and s': "s' = notify_all (upd_channel c (\<lambda>x. x\<lparr>ch_senders := ch_senders x - 1\<rparr>) s)"
    by (auto simp: release_sender_def split: if_splits)
  show ?case unfolding s' by (rule moves_upd [OF v]) (simp_all add: chan_moves_def)
next
  case (step_release_receiver c s s')
  then have v: "valid_id s c" and s': "s' = notify_all (upd_channel c drop_receiver s)"
    by (auto simp: release_receiver_def split: if_splits)
  show ?case unfolding s' by (rule moves_upd [OF v]) (auto simp: chan_moves_def drop_receiver_def Let_def)
next
  case (step_cancel cause s s' cbs)
  then obtain t where "set_cancel cause s = (t, cbs)" "s' = notify_all t"
    by (auto simp: hub_cancel_def Let_def split: prod.splits)
  then show ?case using moves_set_cancel moves_notify by blast
next
  case (step_on_cancel f s s' cbs)
  then show ?case by (intro moves_quiet) (auto simp: hub_on_cancel_def split: option.splits)
next
  case (step_wake s w)
  show ?case by (rule moves_quiet) (simp_all add: hub_wake_def)
qed (blast intro: moves_channel moves_done moves_send moves_recv moves_try_send moves_try_recv)+


section \<open>Runs\<close>

definition fifo_inv :: "('a, 'cb) event list \<Rightarrow> ('a, 'cb) hub \<Rightarrow> bool" where
  "fifo_inv tr s \<longleftrightarrow>
     (\<forall>c. if valid_id s c
          then \<exists>lost. pushed c tr = popped c tr @ ch_buf (ch s c) @ lost \<and> (ch_receivers (ch s c) > 0 \<longrightarrow> lost = [])
          else pushed c tr = [] \<and> popped c tr = [])"

lemma fifo_extend:
  assumes inv: "chan_ok x" and old: "p = q @ ch_buf x @ lost" "ch_receivers x > 0 \<longrightarrow> lost = []"
    and m: "chan_moves c evs x x'"
  shows "\<exists>l. p @ pushed c evs = q @ popped c evs @ ch_buf x' @ l \<and> (ch_receivers x' > 0 \<longrightarrow> l = [])"
proof -
  obtain d where d: "ch_buf x @ pushed c evs = popped c evs @ ch_buf x' @ d" "ch_receivers x' > 0 \<longrightarrow> d = []"
    using m by (auto simp: chan_moves_def)
  show ?thesis
  proof (cases "ch_receivers x = 0")
    case True
    then have "ch_buf x = []" "pushed c evs = []" "ch_receivers x' = 0" using inv m by (auto simp: chan_ok_def chan_moves_def)
    then show ?thesis using old d by (intro exI [of _ lost]) simp
  next
    case False
    then show ?thesis using old d by (intro exI [of _ d]) simp
  qed
qed

lemma fifo_step:
  assumes inv: "chan_inv s" and f: "fifo_inv tr s" and m: "moves s evs s'"
  shows "fifo_inv (tr @ evs) s'"
  unfolding fifo_inv_def
proof
  fix c
  have mc: "if valid_id s c then valid_id s' c \<and> chan_moves c evs (ch s c) (ch s' c)
      else pushed c evs = [] \<and> popped c evs = [] \<and> (valid_id s' c \<longrightarrow> ch_buf (ch s' c) = [])"
    using m unfolding moves_def by blast
  have fc: "if valid_id s c
      then \<exists>lost. pushed c tr = popped c tr @ ch_buf (ch s c) @ lost \<and> (ch_receivers (ch s c) > 0 \<longrightarrow> lost = [])
      else pushed c tr = [] \<and> popped c tr = []"
    using f unfolding fifo_inv_def by blast
  show "if valid_id s' c
      then \<exists>lost. pushed c (tr @ evs) = popped c (tr @ evs) @ ch_buf (ch s' c) @ lost \<and> (ch_receivers (ch s' c) > 0 \<longrightarrow> lost = [])
      else pushed c (tr @ evs) = [] \<and> popped c (tr @ evs) = []"
  proof (cases "valid_id s c")
    case True
    obtain lost where l: "pushed c tr = popped c tr @ ch_buf (ch s c) @ lost" "ch_receivers (ch s c) > 0 \<longrightarrow> lost = []"
      using fc True by auto
    have v': "valid_id s' c" and cm: "chan_moves c evs (ch s c) (ch s' c)" using mc True by simp_all
    have "chan_ok (ch s c)" using inv True by (simp add: chan_inv_def)
    then show ?thesis using fifo_extend [OF _ l cm] v' by simp
  next
    case False
    then have "pushed c tr = []" "popped c tr = []" using fc by simp_all
    then show ?thesis using mc False by simp
  qed
qed

lemma run_fifo: "hub_run s tr t \<Longrightarrow> hub_inv s \<Longrightarrow> fifo_inv [] s \<Longrightarrow> fifo_inv tr t"
proof (induction rule: hub_run.induct)
  case (run_step s tr t evs u)
  have "chan_inv t" using hub_inv_run [OF run_step.hyps(1) run_step.prems(1)] by (simp add: hub_inv_def)
  then show ?case using fifo_step step_moves run_step by blast
qed

lemma fifo_new: "fifo_inv [] hub_new"
  by (simp add: fifo_inv_def hub_new_def valid_id_def)

lemma run_callbacks:
  "hub_run s tr t \<Longrightarrow> mset (registered tr) + mset (on_cancel s) = mset (called tr) + mset (on_cancel t)"
proof (induction rule: hub_run.induct)
  case (run_step s tr t evs u)
  have step: "mset (registered evs) + mset (on_cancel t) = mset (called evs) + mset (on_cancel u)"
    using step_moves [OF run_step.hyps(2)] by (simp add: moves_def)
  have "mset (registered (tr @ evs)) + mset (on_cancel s) = mset (registered evs) + (mset (registered tr) + mset (on_cancel s))"
    by (simp add: ac_simps)
  also have "\<dots> = mset (called tr) + (mset (registered evs) + mset (on_cancel t))"
    unfolding run_step.IH by (simp add: ac_simps)
  also have "\<dots> = mset (called (tr @ evs)) + mset (on_cancel u)" unfolding step by (simp add: ac_simps)
  finally show ?case .
qed simp

lemma run_called: "hub_run s tr t \<Longrightarrow> cancel t = None \<Longrightarrow> cancel s = None \<and> called tr = []"
proof (induction rule: hub_run.induct)
  case (run_step s tr t evs u)
  have "cancel t = None" "called evs = []" using step_moves [OF run_step.hyps(2)] run_step.prems unfolding moves_def by auto
  then show ?case using run_step.IH by simp
qed simp

lemma run_cancelled: "hub_run s tr t \<Longrightarrow> cancel s = Some c \<Longrightarrow> cancel t = Some c"
  by (induction rule: hub_run.induct) (auto dest!: step_moves simp: moves_def)

lemma run_ended:
  "hub_run s tr t \<Longrightarrow> valid_id s c \<Longrightarrow> ch_senders (ch s c) = 0 \<Longrightarrow> ch_buf (ch s c) = [] \<Longrightarrow>
     valid_id t c \<and> ch_senders (ch t c) = 0 \<and> ch_buf (ch t c) = [] \<and> pushed c tr = [] \<and> popped c tr = []"
proof (induction rule: hub_run.induct)
  case (run_step s tr t evs u)
  then have t: "valid_id t c" "ch_senders (ch t c) = 0" "ch_buf (ch t c) = []" "pushed c tr = []" "popped c tr = []" by blast+
  have "if valid_id t c then valid_id u c \<and> chan_moves c evs (ch t c) (ch u c)
      else pushed c evs = [] \<and> popped c evs = [] \<and> (valid_id u c \<longrightarrow> ch_buf (ch u c) = [])"
    using step_moves [OF run_step.hyps(2)] unfolding moves_def by blast
  then show ?case using t by (auto simp: chan_moves_def)
qed simp

text \<open>Every wait on the register was found blocked when it was put there.\<close>

fun wait_valid :: "('a, 'cb) hub \<Rightarrow> wait \<Rightarrow> bool" where
  "wait_valid s (WRecv chans) \<longleftrightarrow> chans \<noteq> [] \<and> (\<forall>c \<in> set chans. valid_id s c)"
| "wait_valid s (WSend c) \<longleftrightarrow> valid_id s c"

definition waits_inv :: "('a, 'cb) hub \<Rightarrow> bool" where
  "waits_inv s \<longleftrightarrow> (\<forall>e \<in> set (waiting s). wait_valid s (snd e))"

lemma blocked_valid: "blocked s what \<Longrightarrow> wait_valid s what"
  by (cases what) auto

lemma unservable_blocked: "wait_valid s what \<Longrightarrow> \<not> servable s what \<Longrightarrow> chan_inv s \<Longrightarrow> blocked s what"
  by (cases what) (auto simp: list_ex_iff full_def intro: hd_in_set)

lemma set_bt_insert_sub: "set (bt_insert k v m) \<subseteq> insert (k, v) (set m)"
  by (induction k v m rule: bt_insert.induct) auto

lemma set_bt_remove_sub: "set (bt_remove k m) \<subseteq> set m"
  by (auto simp: bt_remove_def)

lemma wait_new_entries:
  assumes c: "cancel s = None" and b: "blocked s what" and run: "hub_wait w what s = (s', cbs, r)"
  shows "\<forall>e \<in> set (waiting s'). e \<in> set (waiting s) \<or> wait_valid s (snd e)"
proof -
  have "set (waiting s') \<subseteq> insert (w, what) (set (waiting s))"
    using hub_wait_cases [OF c run] set_bt_insert_sub [of w what "waiting s"] set_bt_remove_sub
    by (elim disjE exE conjE) (simp, fastforce)
  then show ?thesis using blocked_valid [OF b] by auto
qed

lemma step_entries: "hub_step s evs s' \<Longrightarrow> \<forall>e \<in> set (waiting s'). e \<in> set (waiting s) \<or> wait_valid s (snd e)"
proof (induction rule: hub_step.induct)
  case (step_done w s s' cbs)
  have "set (waiting s') \<subseteq> set (bt_remove w (waiting s))"
    using step_done by (auto simp: worker_done_def Let_def detect_deadlock_def set_cancel_def split: if_splits option.splits)
  then show ?case using set_bt_remove_sub by fast
next
  case (step_send w s chans v s' cbs r)
  from step_send.hyps(3) show ?case
  proof (cases rule: send_round_cases)
    case (waits c)
    then show ?thesis using wait_new_entries by blast
  qed simp_all
next
  case (step_recv w s chans s' cbs r)
  from step_recv.hyps(2) show ?case
  proof (cases rule: recv_round_cases)
    case waits
    then show ?thesis using wait_new_entries by blast
  qed (simp_all add: pop_def)
next
  case (step_try_recv chans s s' r)
  from step_try_recv.hyps show ?case by (cases rule: hub_try_recv_cases) (simp_all add: pop_def)
next
  case (step_try_send chans s v s' r)
  then show ?case by (auto simp: hub_try_send_def split: option.splits if_splits)
next
  case (step_wake s w)
  show ?case using set_bt_remove_sub by (fastforce simp: hub_wake_def)
qed (auto simp: hub_channel_def hub_worker_def release_sender_def release_receiver_def hub_cancel_def set_cancel_def
       hub_on_cancel_def split: if_splits option.splits)

lemma waits_inv_step:
  assumes st: "hub_step s evs s'" and inv: "waits_inv s"
  shows "waits_inv s'"
proof -
  have grow: "valid_id s' c" if "valid_id s c" for c using step_moves [OF st] that unfolding moves_def by presburger
  have "wait_valid s' what" if "wait_valid s what" for what using that grow by (cases what) auto
  then show ?thesis using step_entries [OF st] inv unfolding waits_inv_def by blast
qed

lemma reachable_waits: "hub_run s tr t \<Longrightarrow> waits_inv s \<Longrightarrow> waits_inv t"
  by (induction rule: hub_run.induct) (auto intro: waits_inv_step)

text \<open>Specification of a deadlock: no live worker can go on.\<close>

definition all_blocked :: "('a, 'cb) hub \<Rightarrow> bool" where
  "all_blocked s \<longleftrightarrow>
     worker_names s \<noteq> [] \<and> (\<forall>u. bt_contains (worker_names s) u \<longrightarrow> (\<exists>what. map_of (waiting s) u = Some what \<and> blocked s what))"

lemma detected_all_blocked:
  assumes d: "cancel s = None" "cancel (fst (detect_deadlock s)) \<noteq> None" and inv: "chan_inv s" "waits_inv s"
  shows "all_blocked s \<and> (\<exists>lines. cancel (fst (detect_deadlock s)) = Some (Deadlock lines))"
proof (cases rule: detect_cases [of s])
  case none
  then show ?thesis using d by simp
next
  case dead
  have "\<exists>what. map_of (waiting s) u = Some what \<and> blocked s what" if u: "bt_contains (worker_names s) u" for u
  proof -
    have "u \<in> set (bt_keys (worker_names s))" using u by (simp add: someone_there)
    then have "bt_contains (waiting s) u" using dead(3) by blast
    then obtain what where m: "map_of (waiting s) u = Some what" by (auto simp: bt_contains_def)
    then have "(u, what) \<in> set (waiting s)" by (rule map_of_SomeD)
    then have "wait_valid s (snd (u, what))" "\<not> servable s (snd (u, what))"
      using inv(2) dead(4) unfolding waits_inv_def by blast+
    then have "wait_valid s what" "\<not> servable s what" by simp_all
    then show ?thesis using m unservable_blocked [OF _ _ inv(1)] by blast
  qed
  then show ?thesis using dead(2,5) by (simp add: all_blocked_def)
qed

lemma wait_again_all_blocked:
  assumes c: "cancel s = None" and b: "blocked s what" and inv: "chan_inv s" "waits_inv s"
    and run: "hub_wait w what s = (s', cbs, Again)"
  shows "all_blocked (s\<lparr>waiting := bt_insert w what (waiting s)\<rparr>) \<and> (\<exists>lines. cancel s' = Some (Deadlock lines))"
proof -
  let ?t = "s\<lparr>waiting := bt_insert w what (waiting s)\<rparr>"
  have t: "chan_inv ?t" using inv(1) by (simp add: chan_inv_def valid_id_def ch_def)
  have wv: "wait_valid ?t x = wait_valid s x" for x by (cases x) (simp_all add: valid_id_def)
  have "waits_inv ?t"
    unfolding waits_inv_def
  proof
    fix e assume "e \<in> set (waiting ?t)"
    then have "e = (w, what) \<or> e \<in> set (waiting s)" using set_bt_insert_sub [of w what "waiting s"] by auto
    then have "wait_valid s (snd e)" using inv(2) blocked_valid [OF b] by (auto simp: waits_inv_def)
    then show "wait_valid ?t (snd e)" by (simp add: wv)
  qed
  moreover have "cancel (fst (detect_deadlock ?t)) \<noteq> None \<and> cancel s' = cancel (fst (detect_deadlock ?t))"
    using run by (auto simp: hub_wait_def Let_def split: prod.splits if_splits)
  ultimately show ?thesis using detected_all_blocked [of ?t] c t by simp
qed

section \<open>Properties\<close>

text \<open>
  C9. A channel is a bounded queue. In every state a run can reach, whatever the interleaving, a
  channel holds at most its capacity, nothing once nobody reads it, and what was pushed on it is
  exactly what was popped from it, in that order, followed by what it holds; only elements left
  when the last reader went away are lost.
\<close>

theorem channel_is_a_bounded_queue:
  assumes "hub_run hub_new tr s" and "valid_id s c"
  shows "length (ch_buf (ch s c)) \<le> ch_capacity (ch s c)
    \<and> (\<exists>lost. pushed c tr = popped c tr @ ch_buf (ch s c) @ lost
         \<and> (if ch_receivers (ch s c) > 0 then lost = [] else ch_buf (ch s c) = []))"
proof -
  have ok: "chan_ok (ch s c)" using reachable_inv [OF assms(1)] assms(2) by (simp add: hub_inv_def chan_inv_def)
  have "if valid_id s c
      then \<exists>lost. pushed c tr = popped c tr @ ch_buf (ch s c) @ lost \<and> (ch_receivers (ch s c) > 0 \<longrightarrow> lost = [])
      else pushed c tr = [] \<and> popped c tr = []"
    using run_fifo [OF assms(1) hub_inv_new fifo_new] unfolding fifo_inv_def by blast
  then show ?thesis using ok assms(2) by (auto simp: chan_ok_def)
qed

text \<open>
  C19. \<open>send\<close> and \<open>recv_any\<close> lose no wake-up. In a run whose workers block in these two alone
  (without \<open>send_timeout\<close> and \<open>recv_timeout\<close>, which can lose one), in every reachable state, a
  worker asleep on the condition variable is on the register of waits, what it waits for has
  really not come (its channels are empty and one is still fed, or its channel is full and still
  read), and the run is not cancelled.
\<close>

theorem asleep_means_blocked:
  assumes "hub_run hub_new tr s" and "w \<in> set (cv_waiters s)"
  shows "cancel s = None \<and> (\<exists>what. map_of (waiting s) w = Some what \<and> blocked s what)"
  using reachable_inv [OF assms(1)] assms(2) by (simp add: hub_inv_def sleep_inv_def)

text \<open>
  C8. No deadlock is silent: in every reachable state where each reader waits for one channel,
  some live worker is not asleep, so the run goes on or has been cancelled.
\<close>

theorem no_silent_deadlock:
  assumes "hub_run hub_new tr s" and "single_waits s" and "worker_names s \<noteq> []"
  shows "\<exists>w. bt_contains (worker_names s) w \<and> w \<notin> set (cv_waiters s)"
  using reachable_inv [OF assms(1)] assms(2,3) by (simp add: hub_inv_def awake_inv_def)

text \<open>
  C20. A declared deadlock is one: when a wait of \<open>recv_any\<close> or \<open>send\<close> ends at once because the
  detector spoke, the run is cancelled with the cause \<open>Deadlock\<close> and, with that wait on the
  register, every live worker is waiting for something that has not come.
\<close>

theorem declared_deadlock_is_real:
  assumes "hub_run hub_new tr s" and "cancel s = None"
    and "recv_round w chans s = Inr (s', cbs, Again) \<and> what = WRecv chans
      \<or> send_round w chans v s = Inr (s', cbs, Again) \<and> find (full s) (live s chans) = Some c \<and> what = WSend c"
  shows "all_blocked (s\<lparr>waiting := bt_insert w what (waiting s)\<rparr>) \<and> (\<exists>lines. cancel s' = Some (Deadlock lines))"
proof -
  have inv: "chan_inv s" "waits_inv s"
    using reachable_inv [OF assms(1)] reachable_waits [OF assms(1)] by (simp_all add: hub_inv_def waits_inv_def hub_new_def)
  note real = wait_again_all_blocked [OF assms(2) _ inv]
  from assms(3) show ?thesis
  proof
    assume a: "recv_round w chans s = Inr (s', cbs, Again) \<and> what = WRecv chans"
    then have "recv_round w chans s = Inr (s', cbs, Again)" by blast
    then show ?thesis
    proof (cases rule: recv_round_cases)
      case waits
      then show ?thesis using real a by blast
    qed simp_all
  next
    assume a: "send_round w chans v s = Inr (s', cbs, Again) \<and> find (full s) (live s chans) = Some c \<and> what = WSend c"
    then have run: "hub_wait w (WSend c) s = (s', cbs, Again :: (stopped, unit) result round)" and valid: "\<forall>c \<in> set chans. valid_id s c"
      using assms(2) by (auto simp: send_round_def list_ex_iff split: if_splits)
    have "c \<in> set (live s chans)" "full s c" using a by (auto dest: find_Some_in)
    then have "blocked s (WSend c)" using valid by (auto simp: live_def)
    then show ?thesis using real run a by blast
  qed
qed

text \<open>
  Cancellation is final and its first cause is kept: whatever the run does afterwards the
  cause stays, nobody sleeps any more, and every send or read returns that cause at once.
\<close>

theorem cancellation_is_final:
  assumes "hub_run hub_new tr s" and "cancel s = Some cause" and "hub_run s tr' t"
  shows "cancel t = Some cause \<and> cv_waiters t = []
    \<and> send_round w chans v t = Inr (t, [], Returns (Inl (StopCancelled cause)))
    \<and> recv_round w chans t = Inr (t, [], Returns (Inl cause))"
proof -
  have "cancel t = Some cause" using run_cancelled assms(2,3) by blast
  moreover have "sleep_inv t" using hub_inv_run [OF assms(3) reachable_inv [OF assms(1)]] by (simp add: hub_inv_def)
  then have "cv_waiters t = []" using calculation by (cases "cv_waiters t") (auto simp: sleep_inv_def)
  ultimately show ?thesis by (simp add: send_round_def recv_round_def)
qed

text \<open>
  The end of a stream is final: once a channel has no sender and nothing left it stays so, and
  nothing is ever pushed on it or popped from it again.
\<close>

theorem end_of_stream_is_final:
  assumes "ended c s = Inr True" and "hub_run s tr t"
  shows "ended c t = Inr True \<and> pushed c tr = [] \<and> popped c tr = []"
  using assms(1) run_ended [OF assms(2), of c] by (auto simp: ended_def split: if_splits)

text \<open>
  C35. In a run without timed operations every cancellation callback is called exactly once: the callbacks registered are, with their
  multiplicities, those called and those still kept, and none is kept once the run is cancelled.
\<close>

theorem callbacks_called_once:
  assumes "hub_run hub_new tr s"
  shows "mset (registered tr) = mset (called tr) + mset (on_cancel s) \<and> (if cancel s = None then called tr = [] else on_cancel s = [])"
proof (cases "cancel s = None")
  case True
  then show ?thesis using run_callbacks [OF assms] run_called [OF assms] by (simp add: hub_new_def)
next
  case False
  then have "on_cancel s = []" using reachable_inv [OF assms] by (simp add: hub_inv_def)
  then show ?thesis using run_callbacks [OF assms] False by (auto simp: hub_new_def)
qed


section \<open>The detector and readers of several channels\<close>

text \<open>
  A run of three channels: the first has lost its senders, the second is fed by worker 1 and the
  third by worker 0. Worker 1 reads the third, then worker 0 reads the first two.
\<close>

definition demo_channel :: "string \<Rightarrow> nat list \<Rightarrow> nat \<Rightarrow> nat channel" where
  "demo_channel l buf se = \<lparr>ch_label = l, ch_buf = buf, ch_capacity = 1, ch_senders = se, ch_receivers = 1\<rparr>"

definition demo_hub :: "nat channel list \<Rightarrow> (worker_id, wait) btree \<Rightarrow> cancel_cause option \<Rightarrow> nat list \<Rightarrow> worker_id list \<Rightarrow> (nat, nat) hub" where
  "demo_hub cs ws c cbs cv =
     \<lparr>channels = cs, worker_names = [(0, ''a''), (1, ''b'')], next_id = 2, waiting = ws, cancel = c, on_cancel = cbs, cv_waiters = cv\<rparr>"

lemmas demo_eval = demo_channel_def demo_hub_def hub_channel_def hub_worker_def hub_new_def send_round_def recv_round_def
  hub_wait_def detect_deadlock_def set_cancel_def bt_contains_def bt_keys_def bt_remove_def valid_id_def ch_def live_def
  full_def push_all_def push_def pop_def upd_channel_def notify_all_def may_block_def holds_senders_def

lemma run_snoc: "hub_run s tr t \<Longrightarrow> hub_step t evs u \<Longrightarrow> tr' = tr @ evs \<Longrightarrow> hub_run s tr' u"
  using run_step by blast

lemma two_workers:
  assumes "hub_run hub_new ([] :: (nat, nat) event list) \<lparr>channels = cs, worker_names = [], next_id = 0, waiting = [], cancel = None, on_cancel = [], cv_waiters = []\<rparr>"
  shows "hub_run hub_new [] (demo_hub cs [] None [] [])"
proof -
  note 1 = run_snoc [OF assms step_worker [of _ "''a''"], of "[]"]
  note 2 = run_snoc [OF 1 step_worker [of _ "''b''"], of "[]"]
  show ?thesis using 2 by (simp add: hub_worker_def demo_hub_def numeral_2_eq_2)
qed

definition demo_open :: "nat channel list" where
  "demo_open = [demo_channel ''x'' [] 0, demo_channel ''y'' [] 1, demo_channel ''z'' [] 1]"

lemma demo_open_run: "hub_run hub_new [] (demo_hub demo_open [] None [] [])"
proof (rule two_workers)
  note 1 = run_snoc [OF run_refl [of hub_new] step_channel [of _ "''x''" 1 0 1], of "[]"]
  note 2 = run_snoc [OF 1 step_channel [of _ "''y''" 1 1 1], of "[]"]
  note 3 = run_snoc [OF 2 step_channel [of _ "''z''" 1 1 1], of "[]"]
  show "hub_run hub_new [] \<lparr>channels = demo_open, worker_names = [], next_id = 0, waiting = [], cancel = None, on_cancel = [], cv_waiters = []\<rparr>"
    using 3 by (simp add: hub_channel_def hub_new_def demo_open_def demo_channel_def)
qed

definition demo_asleep :: "(nat, nat) hub" where
  "demo_asleep = demo_hub demo_open [(0, WRecv [0, 1]), (1, WRecv [2])] None [] [0, 1]"

text \<open>
  C39. The detector misses deadlocks of readers of several channels. A run reaches a state where
  every live worker is blocked and asleep, in a cycle, and nothing is declared: one channel of
  a reader has ended, which \<open>servable\<close> takes for a wait about to be served, while \<open>recv_any\<close>
  returns only when all its channels have ended.
\<close>

theorem deadlock_of_many_channels_missed:
  "hub_run hub_new [] demo_asleep \<and> all_blocked demo_asleep \<and> cancel demo_asleep = None
    \<and> set (cv_waiters demo_asleep) = {0, 1} \<and> detect_deadlock demo_asleep = (demo_asleep, [])"
proof -
  let ?s = "demo_hub demo_open [(1, WRecv [2])] None [] [1]"
  have 1: "recv_round 1 [2] (demo_hub demo_open [] None [] []) = Inr (?s, [], Asleep)"
    by (simp add: demo_open_def demo_eval)
  have "hub_step (demo_hub demo_open [] None [] []) (recv_events [2] (Asleep :: (cancel_cause, (nat \<times> nat) option) result round) @ map EvCalled []) ?s"
    by (rule step_recv [OF _ 1]) (simp add: demo_eval)
  then have run: "hub_run hub_new [] ?s" using run_snoc [OF demo_open_run] by simp
  have 2: "recv_round 0 [0, 1] ?s = Inr (demo_asleep, [], Asleep)"
    by (simp add: demo_open_def demo_asleep_def demo_eval)
  have "hub_step ?s (recv_events [0, 1] (Asleep :: (cancel_cause, (nat \<times> nat) option) result round) @ map EvCalled []) demo_asleep"
    by (rule step_recv [OF _ 2]) (simp add: demo_eval)
  then have "hub_run hub_new [] demo_asleep" using run_snoc [OF run] by simp
  moreover have "all_blocked demo_asleep"
    by (auto simp: all_blocked_def demo_asleep_def demo_open_def demo_eval split: if_splits)
  ultimately show ?thesis by (auto simp: demo_asleep_def demo_open_def demo_eval)
qed


section \<open>A timed read\<close>

text \<open>
  \<open>recv_timeout\<close> asks \<open>try_recv\<close>, gives the lock back, takes it again and sleeps (\<open>wait_until\<close>, whose
  steps up to the sleep are those of \<open>wait\<close>) without asking again. A value that another worker
  sends in between wakes nobody: the reader sleeps until its deadline or another notification,
  with the value in its channel.
\<close>

lemma timed_read_loses_a_wakeup:
  "let s0 = demo_hub [demo_channel ''x'' [] 1] [] None [] [] in
   hub_try_recv [0] s0 = Inr (s0, Inl Empty)
   \<and> (case hub_try_send [0] 7 s0 of
        Inl _ \<Rightarrow> False
      | Inr (s1, r) \<Rightarrow> r = Inr () \<and>
          (case hub_wait 0 (WRecv [0]) s1 of (s2, cbs, r2) \<Rightarrow>
             r2 = (Asleep :: unit round) \<and> cv_waiters s2 = [0] \<and> ch_buf (ch s2 0) = [7]))"
  by code_simp

section \<open>Witnesses\<close>

lemma demo_one_run: "hub_run hub_new [] (demo_hub [demo_channel ''x'' [] 1] [] None [] [])"
proof (rule two_workers)
  note 1 = run_snoc [OF run_refl [of hub_new] step_channel [of _ "''x''" 1 1 1], of "[]"]
  show "hub_run hub_new [] \<lparr>channels = [demo_channel ''x'' [] 1], worker_names = [], next_id = 0, waiting = [], cancel = None,
      on_cancel = [], cv_waiters = []\<rparr>"
    using 1 by (simp add: hub_channel_def hub_new_def demo_channel_def)
qed

text \<open>Worker 0 sends 7, then falls asleep sending 8: the channel is full.\<close>

definition demo_full :: "(nat, nat) hub" where
  "demo_full = demo_hub [demo_channel ''x'' [7] 1] [(0, WSend 0)] None [] [0]"

lemma demo_full_run: "hub_run hub_new [EvPush 0 7] demo_full"
proof -
  let ?s = "demo_hub [demo_channel ''x'' [] 1] [] None [] []" and ?t = "demo_hub [demo_channel ''x'' [7] 1] [] None [] []"
  have 1: "send_round 0 [0] 7 ?s = Inr (?t, [], Returns (Inr ()))" by (simp add: demo_eval)
  have "hub_step ?s (send_events ?s [0] 7 (Returns (Inr ())) @ map EvCalled []) ?t"
    by (rule step_send [OF _ _ 1]) (simp_all add: demo_eval)
  then have run: "hub_run hub_new [EvPush 0 7] ?t" by (rule run_snoc [OF demo_one_run]) (simp add: demo_eval)
  have 2: "send_round 0 [0] 8 ?t = Inr (demo_full, [], Asleep)" by (simp add: demo_full_def demo_eval)
  have "hub_step ?t (send_events ?t [0] 8 Asleep @ map EvCalled []) demo_full"
    by (rule step_send [OF _ _ 2]) (simp_all add: demo_eval)
  then show ?thesis by (rule run_snoc [OF run]) simp
qed

theorem channel_is_a_bounded_queue_witness:
  "length (ch_buf (ch demo_full 0)) \<le> 1 \<and> (\<exists>lost. pushed 0 [EvPush 0 (7::nat) :: (nat, nat) event] = [] @ [7] @ lost \<and> lost = [])"
  using channel_is_a_bounded_queue [OF demo_full_run, of 0] by (simp add: demo_full_def demo_eval)

theorem asleep_means_blocked_witness:
  "cancel demo_full = None \<and> (\<exists>what. map_of (waiting demo_full) 0 = Some what \<and> blocked demo_full what)"
  by (rule asleep_means_blocked [OF demo_full_run]) (simp add: demo_full_def demo_eval)

theorem no_silent_deadlock_witness:
  "\<exists>w. bt_contains (worker_names demo_full) w \<and> w \<notin> set (cv_waiters demo_full)"
  by (rule no_silent_deadlock [OF demo_full_run]) (simp_all add: demo_full_def single_waits_def demo_eval)

text \<open>Worker 1 reads the empty channel; when worker 0 reads it too, both are blocked.\<close>

lemma demo_read_run: "hub_run hub_new [] (demo_hub [demo_channel ''x'' [] 1] [(1, WRecv [0])] None [] [1])"
proof -
  let ?s = "demo_hub [demo_channel ''x'' [] 1] [] None [] []"
    and ?t = "demo_hub [demo_channel ''x'' [] 1] [(1, WRecv [0])] None [] [1]"
  have 1: "recv_round 1 [0] ?s = Inr (?t, [], Asleep)" by (simp add: demo_eval)
  have "hub_step ?s (recv_events [0] (Asleep :: (cancel_cause, (nat \<times> nat) option) result round) @ map EvCalled []) ?t"
    by (rule step_recv [OF _ 1]) (simp add: demo_eval)
  then show ?thesis by (rule run_snoc [OF demo_one_run]) simp
qed

theorem declared_deadlock_is_real_witness:
  "all_blocked (demo_hub [demo_channel ''x'' [] 1] [(0, WRecv [0]), (1, WRecv [0])] None [] [1])
    \<and> (\<exists>lines. cancel (demo_hub [demo_channel ''x'' [] 1] [(1, WRecv [0])]
          (Some (Deadlock [(Some ''a'', WaitsRead [''x'']), (Some ''b'', WaitsRead [''x''])])) [] []) = Some (Deadlock lines))"
  using declared_deadlock_is_real [OF demo_read_run, of 0 "[0]"
      "demo_hub [demo_channel ''x'' [] 1] [(1, WRecv [0])]
          (Some (Deadlock [(Some ''a'', WaitsRead [''x'']), (Some ''b'', WaitsRead [''x''])])) [] []" "[]" "WRecv [0]"]
  by (simp add: demo_eval)

text \<open>A callback registered, then the run cancelled from outside.\<close>

definition demo_cancelled :: "(nat, nat) hub" where
  "demo_cancelled = demo_hub [demo_channel ''x'' [] 1] [] (Some External) [] []"

lemma demo_cancelled_run: "hub_run hub_new [EvRegistered 5, EvCalled 5] demo_cancelled"
proof -
  let ?s = "demo_hub [demo_channel ''x'' [] 1] [] None [] []" and ?t = "demo_hub [demo_channel ''x'' [] 1] [] None [5] []"
  have 1: "hub_on_cancel 5 ?s = (?t, [])" by (simp add: hub_on_cancel_def demo_eval)
  have run: "hub_run hub_new [EvRegistered 5] ?t" by (rule run_snoc [OF demo_one_run step_on_cancel [OF 1]]) simp
  have 2: "hub_cancel External ?t = (demo_cancelled, [5])" by (simp add: hub_cancel_def demo_cancelled_def demo_eval)
  show ?thesis by (rule run_snoc [OF run step_cancel [OF 2]]) simp
qed

theorem cancellation_is_final_witness:
  "cancel demo_cancelled = Some External \<and> cv_waiters demo_cancelled = []
    \<and> send_round 0 [0] 7 demo_cancelled = Inr (demo_cancelled, [], Returns (Inl (StopCancelled External)))
    \<and> recv_round 1 [0] demo_cancelled = Inr (demo_cancelled, [], Returns (Inl External))"
  using cancellation_is_final [OF demo_cancelled_run _ run_refl, of External 0 "[0]" 7]
    cancellation_is_final [OF demo_cancelled_run _ run_refl, of External 1 "[0]" 7]
  by (simp add: demo_cancelled_def demo_hub_def)

theorem callbacks_called_once_witness:
  "mset (registered [EvRegistered 5, EvCalled 5 :: (nat, nat) event]) = mset (called [EvRegistered 5, EvCalled 5 :: (nat, nat) event]) + {#}
    \<and> on_cancel demo_cancelled = []"
  using callbacks_called_once [OF demo_cancelled_run] by (simp add: demo_cancelled_def demo_hub_def)

theorem end_of_stream_is_final_witness:
  "ended 0 (demo_hub demo_open [] None [] []) = Inr True \<and> pushed 0 ([] :: (nat, nat) event list) = [] \<and> popped 0 ([] :: (nat, nat) event list) = []"
  by (rule end_of_stream_is_final [OF _ run_refl]) (simp add: ended_def demo_open_def demo_eval)

end
