(* ===== verification/Flow_Levels.thy ===== *)
theory Flow_Levels
  imports Flow_Graph Flow_Stream
begin

text \<open>
  \<open>dataflow/runtime.rs\<close>: the executor of a graph of values, level by level. A node is skipped when a
  required input it is connected on got nothing, starts when all its producers have ended, and the
  nodes that are ready together form a level. The values wait in a store of ports with a count of the
  readers that are left; the last reader takes the value out.

  What the nodes do is an argument: \<open>exec i n ins\<close> is what the node \<open>n\<close> gives when it is executed in
  round \<open>i\<close> with the inputs \<open>ins\<close>. Each node is executed at most once, so every run is one of such
  functions, whatever the nodes share. The looks at the hub of cancellation are numbered: \<open>annul k\<close> is
  what the look \<open>k\<close> sees. A \<open>HashMap\<close> is a map; the ports of the outputs a node posted are listed once.
  An \<open>unwrap\<close> on nothing and a counter below zero are the error \<open>LevelPanic\<close>. The events are kept in
  the order they are sent; the snapshots of the values are the values, and the logs and the measures of
  the nodes, their types, the clock, the taps and the bus of the catalog are left out. A node that panics brings the run down
  (\<open>h.join().expect\<close> in \<open>run_level\<close>) before any result of its level is stored: the error \<open>NodePanicked\<close>.
\<close>

section \<open>Data\<close>

text \<open>What a node did: whether its thread panicked, and otherwise its result and what it posted.\<close>

record 'a executed =
  ex_panicked :: bool
  ex_result :: "(string, unit) result"
  ex_misuse :: "string list"
  ex_outputs :: "(string \<times> 'a port_value) list"

datatype skip_cause = MissingInput string "out_key list"

datatype node_error = NodeError string | Misused "string list" | RequiredOutputs string "string list"

datatype level_error =
    LevelGraph flow_error
  | LevelDeadlock "string list"
  | LevelNode node_error
  | MaxIterations nat nat nat
  | LevelPanic
  | NodePanicked

text \<open>The errors that stand for a panic of the process, not for a result of the call.\<close>

fun run_panics :: "level_error \<Rightarrow> bool" where
  "run_panics LevelPanic = True"
| "run_panics NodePanicked = True"
| "run_panics (LevelGraph e) = graph_panics e"
| "run_panics _ = False"

datatype 'a flow_event =
    NodeStarted string "string \<rightharpoonup> 'a port_value"
  | NodeCompleted string "(string \<times> 'a port_value) list"
  | NodeSkipped string skip_cause
  | CheckpointResumed string "string list"
  | NodeFailed string node_error
  | NodeCancelled string cancel_cause
  | RunFailed level_error
  | RunCompleted nat

record 'a level_state =
  ls_port_data :: "out_key \<rightharpoonup> 'a port_value"
  ls_available :: "out_key set"
  ls_initial :: "string \<rightharpoonup> (string \<rightharpoonup> 'a port_value)"
  ls_completed :: "string set"
  ls_skipped :: "string \<rightharpoonup> skip_cause"
  ls_remaining :: "out_key \<rightharpoonup> nat"
  ls_events :: "'a flow_event list"
  ls_looks :: nat

type_synonym 'a level_result = "('a level_state \<times> level_error, 'a level_state) result"

record 'a flow_output =
  fo_data :: "out_key \<rightharpoonup> 'a port_value"
  fo_skipped :: "string \<rightharpoonup> skip_cause"
  fo_stopped :: "cancel_cause option"

definition emit :: "'a flow_event \<Rightarrow> 'a level_state \<Rightarrow> 'a level_state" where
  "emit ev st = st\<lparr>ls_events := ls_events st @ [ev]\<rparr>"

text \<open>A look at the hub of cancellation.\<close>

definition look :: "(nat \<Rightarrow> cancel_cause option) \<Rightarrow> 'a level_state \<Rightarrow> cancel_cause option \<times> 'a level_state" where
  "look annul st = (annul (ls_looks st), st\<lparr>ls_looks := Suc (ls_looks st)\<rparr>)"

section \<open>Skipping\<close>

definition out_of :: "flow_edge \<Rightarrow> out_key" where
  "out_of e = (fe_from_node e, fe_from_port e)"

definition edges_to :: "'a flow_graph \<Rightarrow> string \<Rightarrow> flow_edge list" where
  "edges_to g n = filter (\<lambda>e. fe_to_node e = n) (g_edges g)"

definition edges_at :: "'a flow_graph \<Rightarrow> string \<Rightarrow> string \<Rightarrow> flow_edge list" where
  "edges_at g n p = filter (\<lambda>e. fe_to_node e = n \<and> fe_to_port e = p) (g_edges g)"

definition has_initial :: "'a level_state \<Rightarrow> string \<Rightarrow> string \<Rightarrow> bool" where
  "has_initial st n p = (case ls_initial st n of Some ports \<Rightarrow> ports p \<noteq> None | None \<Rightarrow> False)"

definition has_edge_data :: "'a flow_graph \<Rightarrow> 'a level_state \<Rightarrow> string \<Rightarrow> string \<Rightarrow> bool" where
  "has_edge_data g st n p = list_ex (\<lambda>e. out_of e \<in> ls_available st) (edges_at g n p)"

definition producers_finished :: "'a flow_graph \<Rightarrow> 'a level_state \<Rightarrow> string \<Rightarrow> string \<Rightarrow> bool" where
  "producers_finished g st n p = list_all (\<lambda>e. fe_from_node e \<in> ls_completed st) (edges_at g n p)"

fun skip_scan :: "'a flow_graph \<Rightarrow> string \<Rightarrow> 'a level_state \<Rightarrow> port_def list \<Rightarrow> skip_cause option \<Rightarrow> skip_cause option" where
  "skip_scan g n st [] missing = missing"
| "skip_scan g n st (i # is) missing =
     (if edges_at g n (pd_name i) = [] then skip_scan g n st is missing
      else if \<not> producers_finished g st n (pd_name i) then None
      else skip_scan g n st is
        (if pd_required i \<and> \<not> has_edge_data g st n (pd_name i) \<and> \<not> has_initial st n (pd_name i) \<and> missing = None
         then Some (MissingInput (pd_name i) (map out_of (edges_at g n (pd_name i)))) else missing))"

definition skip_reason :: "'a flow_graph \<Rightarrow> 'a level_state \<Rightarrow> string \<Rightarrow> skip_cause option" where
  "skip_reason g st n = Option.bind (find_node g n) (\<lambda>m. skip_scan g n st (fn_inputs m) None)"

definition release_edge :: "'a level_state \<Rightarrow> flow_edge \<Rightarrow> 'a level_state" where
  "release_edge st e =
     (case ls_remaining st (out_of e) of
        None \<Rightarrow> st
      | Some left \<Rightarrow>
          let st1 = st\<lparr>ls_remaining := (ls_remaining st)(out_of e \<mapsto> left - 1)\<rparr>
          in if left - 1 = 0 then st1\<lparr>ls_port_data := (ls_port_data st1)(out_of e := None)\<rparr> else st1)"

definition skip_node :: "'a flow_graph \<Rightarrow> 'a level_state \<Rightarrow> string \<times> skip_cause \<Rightarrow> 'a level_state" where
  "skip_node g st nr =
     (let st1 = foldl release_edge st (edges_to g (fst nr))
      in emit (NodeSkipped (fst nr) (snd nr))
           (st1\<lparr>ls_completed := insert (fst nr) (ls_completed st1),
               ls_skipped := (ls_skipped st1)(fst nr \<mapsto> snd nr)\<rparr>))"

definition to_skip :: "'a flow_graph \<Rightarrow> string list \<Rightarrow> 'a level_state \<Rightarrow> (string \<times> skip_cause) list" where
  "to_skip g order st =
     List.map_filter (\<lambda>n. map_option (Pair n) (skip_reason g st n)) (filter (\<lambda>n. n \<notin> ls_completed st) order)"

lemma release_edge_completed [simp]: "ls_completed (release_edge st e) = ls_completed st"
  by (simp add: release_edge_def Let_def split: option.split)

lemma release_edges_completed [simp]: "ls_completed (foldl release_edge st es) = ls_completed st"
  by (induction es arbitrary: st) simp_all

lemma skip_nodes_completed: "ls_completed (foldl (skip_node g) st ns) = ls_completed st \<union> fst ` set ns"
  by (induction ns arbitrary: st) (auto simp: skip_node_def Let_def emit_def)

lemma to_skip_in:
  "(n, r) \<in> set (to_skip g order st) \<longleftrightarrow> n \<in> set order \<and> n \<notin> ls_completed st \<and> skip_reason g st n = Some r"
  by (force simp: to_skip_def List.map_filter_def)

function skip_until_fixpoint :: "'a flow_graph \<Rightarrow> string list \<Rightarrow> 'a level_state \<Rightarrow> 'a level_state" where
  "skip_until_fixpoint g order st =
     (if to_skip g order st = [] then st
      else skip_until_fixpoint g order (foldl (skip_node g) st (to_skip g order st)))"
  by pat_completeness auto

termination
proof (relation "measure (\<lambda>(g, order, st). card (set order - ls_completed st))")
  fix g :: "'a flow_graph" and order st
  assume "to_skip g order st \<noteq> []"
  then obtain n r where "(n, r) \<in> set (to_skip g order st)" by (metis list.set_intros(1) neq_Nil_conv surj_pair)
  then have n: "n \<in> set order - ls_completed st" and "n \<in> fst ` set (to_skip g order st)"
    by (simp_all add: to_skip_in image_iff Bex_def)
  with n have "set order - (ls_completed st \<union> fst ` set (to_skip g order st)) \<subset> set order - ls_completed st" by blast
  then have "card (set order - (ls_completed st \<union> fst ` set (to_skip g order st))) < card (set order - ls_completed st)"
    by (intro psubset_card_mono) simp_all
  then show "((g, order, foldl (skip_node g) st (to_skip g order st)), g, order, st)
      \<in> measure (\<lambda>(g, order, st). card (set order - ls_completed st))"
    by (simp add: skip_nodes_completed)
qed simp

declare skip_until_fixpoint.simps [simp del]

section \<open>A level\<close>

definition input_ready :: "'a flow_graph \<Rightarrow> 'a level_state \<Rightarrow> string \<Rightarrow> port_def \<Rightarrow> bool" where
  "input_ready g st n i =
     (let p = pd_name i; has_incoming_edge = edges_at g n p \<noteq> []
      in if \<not> pd_required i \<and> \<not> has_incoming_edge then True
         else if has_incoming_edge
         then producers_finished g st n p \<and> (\<not> pd_required i \<or> has_edge_data g st n p \<or> has_initial st n p)
         else has_initial st n p)"

text \<open>The nodes that are ready; \<open>None\<close>: a name of the order is not a node (\<open>unwrap\<close>).\<close>

definition ready_nodes :: "'a flow_graph \<Rightarrow> string list \<Rightarrow> 'a level_state \<Rightarrow> string list option" where
  "ready_nodes g order st =
     (let open_nodes = filter (\<lambda>n. n \<notin> ls_completed st) order
      in if list_all (\<lambda>n. find_node g n \<noteq> None) open_nodes
         then Some (filter (\<lambda>n. list_all (input_ready g st n) (case find_node g n of Some m \<Rightarrow> fn_inputs m | None \<Rightarrow> [])) open_nodes)
         else None)"

text \<open>An edge read by the node it ends in: the last reader takes the value out of the store.\<close>

definition read_edge ::
  "'a level_state \<times> (string \<Rightarrow> 'a port_value list) \<Rightarrow> flow_edge \<Rightarrow>
     (level_error, 'a level_state \<times> (string \<Rightarrow> 'a port_value list)) result" where
  "read_edge si e =
     (case si of (st, ins) \<Rightarrow>
      (case ls_port_data st (out_of e) of
         None \<Rightarrow> Ok (st, ins)
       | Some v \<Rightarrow>
           (case ls_remaining st (out_of e) of
              None \<Rightarrow> Err LevelPanic
            | Some 0 \<Rightarrow> Err LevelPanic
            | Some (Suc c) \<Rightarrow>
                let st1 = st\<lparr>ls_remaining := (ls_remaining st)(out_of e \<mapsto> c)\<rparr>;
                    st2 = (if c = 0 then st1\<lparr>ls_port_data := (ls_port_data st1)(out_of e := None)\<rparr> else st1)
                in Ok (st2, ins(fe_to_port e := ins (fe_to_port e) @ [v])))))"

definition merge_or_trigger :: "'a port_value \<Rightarrow> 'a port_value \<Rightarrow> 'a port_value" where
  "merge_or_trigger a b = (case merge_port_values a b of Inr v \<Rightarrow> v | Inl _ \<Rightarrow> Trigger)"

definition reduce_values :: "'a port_value list \<Rightarrow> 'a port_value option" where
  "reduce_values vs = (case vs of [] \<Rightarrow> None | v # ws \<Rightarrow> Some (foldl merge_or_trigger v ws))"

text \<open>Phase 1: the inputs of a ready node.\<close>

definition prepare_node ::
  "'a flow_graph \<Rightarrow> 'a level_state \<Rightarrow> string \<Rightarrow> (level_error, 'a level_state \<times> string \<times> (string \<rightharpoonup> 'a port_value)) result" where
  "prepare_node g st n =
     try_then (fold_try read_edge (st, \<lambda>_. []) (edges_to g n)) (\<lambda>(st1, port_inputs).
     let merged = (\<lambda>p. reduce_values (port_inputs p));
         inputs = merged ++ (case ls_initial st1 n of Some ports \<Rightarrow> ports | None \<Rightarrow> Map.empty);
         st2 = st1\<lparr>ls_initial := (ls_initial st1)(n := None)\<rparr>
     in if find_node g n = None then Err LevelPanic
        else Ok (emit (NodeStarted n inputs) st2, n, inputs))"

definition settle_streams :: "'a executed \<Rightarrow> (node_error, unit) result" where
  "settle_streams ex = (if ex_misuse ex \<noteq> [] then Err (Misused (ex_misuse ex)) else Ok ())"

definition required_output_missing :: "'a flow_graph \<Rightarrow> string \<Rightarrow> 'a executed \<Rightarrow> node_error option" where
  "required_output_missing g n ex =
     Option.bind (find_node g n) (\<lambda>m.
     let missing = map pd_name (filter (\<lambda>p. pd_required p \<and> pd_name p \<notin> fst ` set (ex_outputs ex)) (fn_outputs m))
     in if missing = [] then None else Some (RequiredOutputs n missing))"

definition node_result :: "'a flow_graph \<Rightarrow> string \<Rightarrow> 'a executed \<Rightarrow> (node_error, unit) result" where
  "node_result g n ex =
     try_then (map_err NodeError (ex_result ex)) (\<lambda>_.
     try_then (settle_streams ex) (\<lambda>_.
     case required_output_missing g n ex of Some e \<Rightarrow> Err e | None \<Rightarrow> Ok ()))"

definition store_output :: "string \<Rightarrow> 'a level_state \<Rightarrow> string \<times> 'a port_value \<Rightarrow> 'a level_state" where
  "store_output n st pv =
     st\<lparr>ls_available := insert (n, fst pv) (ls_available st), ls_port_data := (ls_port_data st)((n, fst pv) \<mapsto> snd pv)\<rparr>"

text \<open>Phase 3: the result of a node is stored, unless it failed because the run is cancelled.\<close>

definition finish_node ::
  "(nat \<Rightarrow> cancel_cause option) \<Rightarrow> 'a flow_graph \<Rightarrow> 'a level_state \<Rightarrow> string \<times> 'a executed \<Rightarrow> 'a level_result" where
  "finish_node annul g st d =
     (case d of (n, ex) \<Rightarrow>
      (case node_result g n ex of
         Inr _ \<Rightarrow>
           let st1 = foldl (store_output n) st (ex_outputs ex)
           in Ok (emit (NodeCompleted n (ex_outputs ex)) (st1\<lparr>ls_completed := insert n (ls_completed st1)\<rparr>))
       | Inl e \<Rightarrow>
           (case look annul st of (cause, st1) \<Rightarrow>
            if cause \<noteq> None then Ok st1
            else Err (emit (RunFailed (LevelNode e)) (emit (NodeFailed n e) st1), LevelNode e))))"

definition cancel_remaining :: "string list \<Rightarrow> cancel_cause \<Rightarrow> 'a level_state \<Rightarrow> 'a level_state" where
  "cancel_remaining order cause st =
     foldl (\<lambda>s n. emit (NodeCancelled n cause) s) st
       (filter (\<lambda>n. n \<notin> ls_completed st \<and> ls_skipped st n = None) order)"

section \<open>The loop\<close>

datatype 'a round_end = Leave "'a level_state" | Next "'a level_state"

definition level_round ::
  "(nat \<Rightarrow> string \<Rightarrow> (string \<rightharpoonup> 'a port_value) \<Rightarrow> 'a executed) \<Rightarrow> (nat \<Rightarrow> cancel_cause option) \<Rightarrow> 'a flow_graph
     \<Rightarrow> string list \<Rightarrow> nat \<Rightarrow> 'a level_state \<Rightarrow> ('a level_state \<times> level_error, 'a round_end) result" where
  "level_round exec annul g order i st =
     (case look annul st of (cause, st0) \<Rightarrow>
      (case cause of
         Some c \<Rightarrow> Ok (Leave (cancel_remaining order c st0))
       | None \<Rightarrow>
           let st1 = skip_until_fixpoint g order st0
           in (case ready_nodes g order st1 of
                 None \<Rightarrow> Err (st1, LevelPanic)
               | Some ready \<Rightarrow>
                   if ready = [] then
                     (if card (ls_completed st1) = length (g_nodes g) then Ok (Leave st1)
                      else let err = LevelDeadlock (filter (\<lambda>n. n \<notin> ls_completed st1) order)
                           in Err (emit (RunFailed err) st1, err))
                   else
                   try_then (map_err (Pair st1) (thread (prepare_node g) st1 ready)) (\<lambda>(st2, prepared).
                   let done = map (\<lambda>(n, ins). (n, exec i n ins)) prepared
                   in if list_ex (\<lambda>d. ex_panicked (snd d)) done then Err (st2, NodePanicked) else
                   try_then (fold_try (finish_node annul g) st2 done) (\<lambda>st3.
                   Ok (if card (ls_completed st3) = length (g_nodes g) then Leave st3 else Next st3))))))"

fun level_loop ::
  "(nat \<Rightarrow> string \<Rightarrow> (string \<rightharpoonup> 'a port_value) \<Rightarrow> 'a executed) \<Rightarrow> (nat \<Rightarrow> cancel_cause option) \<Rightarrow> 'a flow_graph
     \<Rightarrow> string list \<Rightarrow> nat \<Rightarrow> nat \<Rightarrow> 'a level_state \<Rightarrow> 'a level_result" where
  "level_loop exec annul g order i 0 st = Ok st"
| "level_loop exec annul g order i (Suc k) st =
     try_then (level_round exec annul g order i st) (\<lambda>r.
     case r of Leave st1 \<Rightarrow> Ok st1 | Next st1 \<Rightarrow> level_loop exec annul g order (Suc i) k st1)"

definition count_consumers :: "'a flow_graph \<Rightarrow> out_key \<rightharpoonup> nat" where
  "count_consumers g = foldl (\<lambda>m e. m(out_of e \<mapsto> or_default m 0 (out_of e) + 1)) Map.empty (g_edges g)"

definition level_start :: "'a flow_graph \<Rightarrow> (string \<rightharpoonup> (string \<rightharpoonup> 'a port_value)) \<Rightarrow> 'a level_state" where
  "level_start g init =
     \<lparr>ls_port_data = Map.empty, ls_available = {}, ls_initial = init, ls_completed = {}, ls_skipped = Map.empty,
      ls_remaining = count_consumers g, ls_events = [], ls_looks = 0\<rparr>"

text \<open>The run by levels, after the checks; the graph gives its order and its initial inputs.\<close>

definition execute_levels ::
  "nat \<Rightarrow> (nat \<Rightarrow> string \<Rightarrow> (string \<rightharpoonup> 'a port_value) \<Rightarrow> 'a executed) \<Rightarrow> (nat \<Rightarrow> cancel_cause option) \<Rightarrow> 'a flow_graph
     \<Rightarrow> string list \<Rightarrow> (string \<rightharpoonup> (string \<rightharpoonup> 'a port_value)) \<Rightarrow> ('a level_state \<times> level_error, 'a level_state \<times> 'a flow_output) result" where
  "execute_levels max_iterations exec annul g order init =
     try_then (level_loop exec annul g order 0 max_iterations (level_start g init)) (\<lambda>st.
     let complete = card (ls_completed st) = length (g_nodes g);
         (cause, st1) = (if complete then (None, st) else look annul st)
     in if \<not> complete \<and> cause = None
        then let err = MaxIterations max_iterations (card (ls_completed st)) (length (g_nodes g))
             in Err (emit (RunFailed err) st1, err)
        else let st2 = emit (RunCompleted (card (ls_completed st1))) st1; (stopped, st3) = look annul st2
             in Ok (st3, \<lparr>fo_data = ls_port_data st3, fo_skipped = ls_skipped st3, fo_stopped = stopped\<rparr>))"

section \<open>The head of a run\<close>

record stream_ports =
  sp_per_element :: "string set"
  sp_stream_outputs :: "string set"
  sp_open_inputs :: "string set"
  sp_input_kinds :: "(string \<times> port_kind) list"

definition kind_slot :: "(string \<times> port_kind) list \<Rightarrow> string \<times> port_kind \<Rightarrow> (string \<times> port_kind) list" where
  "kind_slot m pk = hm_insert (fst pk) (kind_max (or_default (map_of m) PkValue (fst pk)) (snd pk)) m"

definition node_stream_ports ::
  "'a flow_graph \<Rightarrow> (out_key \<rightharpoonup> port_kind) \<Rightarrow> (out_key \<times> port_kind) list \<Rightarrow> flow_node \<Rightarrow> stream_ports option" where
  "node_stream_ports g kinds free_inputs m =
     (let n = fn_name m;
          per_element = set (map pd_name (filter (\<lambda>p. pd_posture p = PerElement) (fn_inputs m)));
          stream_outputs = set (map pd_name
            (filter (\<lambda>p. case kinds (n, pd_name p) of Some k \<Rightarrow> is_stream k | None \<Rightarrow> False) (fn_outputs m)));
          open_inputs = set (map fe_to_port (filter (\<lambda>e. kinds (out_of e) = Some PkOpen) (edges_to g n)));
          from_edges = foldl kind_slot [] (map (\<lambda>e. (fe_to_port e, case kinds (out_of e) of Some k \<Rightarrow> k | None \<Rightarrow> PkValue)) (edges_to g n));
          input_kinds = foldl kind_slot from_edges (map (\<lambda>f. (snd (fst f), snd f)) (filter (\<lambda>f. fst (fst f) = n) free_inputs))
      in if per_element \<noteq> {} \<or> stream_outputs \<noteq> {} \<or> open_inputs \<noteq> {} \<or> input_kinds \<noteq> []
         then Some \<lparr>sp_per_element = per_element, sp_stream_outputs = stream_outputs, sp_open_inputs = open_inputs, sp_input_kinds = input_kinds\<rparr>
         else None)"

definition stream_ports_of_with ::
  "'a flow_graph \<Rightarrow> (out_key \<times> port_kind) list \<Rightarrow> (flow_error, string \<rightharpoonup> stream_ports) result" where
  "stream_ports_of_with g free_inputs =
     try_then (validate_streams g) (\<lambda>_.
     try_then (resolved_kinds_with g (map_of free_inputs)) (\<lambda>kinds.
     Ok (foldl (\<lambda>out m. case node_stream_ports g kinds free_inputs m of Some sp \<Rightarrow> out(fn_name m \<mapsto> sp) | None \<Rightarrow> out)
           Map.empty (g_nodes g))))"

definition stream_ports_of :: "'a flow_graph \<Rightarrow> (flow_error, string \<rightharpoonup> stream_ports) result" where
  "stream_ports_of g = stream_ports_of_with g []"

datatype 'a dispatch = ToConcurrent | ByLevels "'a level_state" "'a flow_output"

text \<open>The checks, and the choice between the levels and the concurrent executor.\<close>

definition execute_inner ::
  "bool \<Rightarrow> nat \<Rightarrow> (nat \<Rightarrow> string \<Rightarrow> (string \<rightharpoonup> 'a port_value) \<Rightarrow> 'a executed) \<Rightarrow> (nat \<Rightarrow> cancel_cause option) \<Rightarrow> 'a flow_graph
     \<Rightarrow> (level_error, 'a dispatch) result" where
  "execute_inner force_concurrent max_iterations exec annul g =
     try_then (map_err LevelGraph (graph_validate g)) (\<lambda>_.
     try_then (map_err LevelGraph (topological_sort g)) (\<lambda>order.
     try_then (map_err LevelGraph (stream_ports_of g)) (\<lambda>_.
     try_then (if force_concurrent then Ok True else map_err LevelGraph (has_streams g)) (\<lambda>streams.
     if streams \<or> g_initial_streams g \<noteq> [] then Ok ToConcurrent
     else
     try_then (map_err LevelGraph (snd (merge_initial_streams g (g_initial_inputs g)))) (\<lambda>init.
     case execute_levels max_iterations exec annul g order init of
       Inl (_, e) \<Rightarrow> Err e
     | Inr (st, out) \<Rightarrow> Ok (ByLevels st out))))))"

end
