(* ===== verification/Flow_Store.thy ===== *)
theory Flow_Store
  imports Flow_Levels
begin

text \<open>
  What the loop of levels keeps, whatever its nodes do: the store of ports with its counters of readers,
  the inputs of a node given what the others produced, and the locale \<open>level_invariant\<close> with what a round
  does under any invariant of its kind.
\<close>

section \<open>The store of ports\<close>

text \<open>How often an output is read by a list of edges.\<close>

definition cnt :: "flow_edge list \<Rightarrow> out_key \<Rightarrow> nat" where
  "cnt es k = length (filter (\<lambda>e. out_of e = k) es)"

lemma cnt_simps [simp]:
  "cnt [] k = 0" "cnt (e # es) k = (if out_of e = k then Suc (cnt es k) else cnt es k)" "cnt (es @ fs) k = cnt es k + cnt fs k"
  by (simp_all add: cnt_def)

lemma cnt_pos: "0 < cnt es k \<longleftrightarrow> (\<exists>e \<in> set es. out_of e = k)"
  by (induction es) auto

text \<open>
  The store when the edges \<open>U\<close> of \<open>V\<close> are left to read, the nodes \<open>C\<close> have ended and \<open>pr\<close> is what they
  produced: a value is there until its last reader took it, and its counter is the readers left. The
  counter of an output that an ended node did not post means nothing.
\<close>

definition store_ok :: "flow_edge list \<Rightarrow> string set \<Rightarrow> (out_key \<rightharpoonup> 'a port_value) \<Rightarrow> flow_edge list \<Rightarrow> 'a level_state \<Rightarrow> bool" where
  "store_ok V C pr U st \<longleftrightarrow> (\<forall>k.
     cnt U k \<le> cnt V k
     \<and> ls_port_data st k = (if cnt U k = 0 \<and> 0 < cnt V k then None else pr k)
     \<and> (0 < cnt V k \<longrightarrow> (\<exists>c. ls_remaining st k = Some c \<and> (pr k \<noteq> None \<or> fst k \<notin> C \<longrightarrow> c = cnt U k))))"

lemma store_ok_cong:
  "store_ok V C pr U st \<Longrightarrow> (\<And>k. cnt W k = cnt U k) \<Longrightarrow> ls_port_data st' = ls_port_data st
    \<Longrightarrow> ls_remaining st' = ls_remaining st \<Longrightarrow> store_ok V C pr W st'"
  by (simp add: store_ok_def)

lemma store_okD:
  assumes "store_ok V C pr (e # U) st"
  shows "ls_port_data st (out_of e) = pr (out_of e)"
    and "\<exists>c. ls_remaining st (out_of e) = Some c \<and> (pr (out_of e) \<noteq> None \<or> fst (out_of e) \<notin> C \<longrightarrow> c = Suc (cnt U (out_of e)))"
  using assms [unfolded store_ok_def, rule_format, of "out_of e"] by auto

lemma store_ok_release:
  assumes "store_ok V C pr (e # U) st"
  shows "store_ok V C pr U (release_edge st e)"
proof -
  obtain c where c: "ls_remaining st (out_of e) = Some c" "pr (out_of e) \<noteq> None \<or> fst (out_of e) \<notin> C \<longrightarrow> c = Suc (cnt U (out_of e))"
    using store_okD(2) [OF assms] by blast
  show ?thesis unfolding store_ok_def
  proof (intro allI conjI)
    fix k
    note s = assms [unfolded store_ok_def, rule_format, of k]
    show "cnt U k \<le> cnt V k" using s by (auto split: if_splits)
    show "ls_port_data (release_edge st e) k = (if cnt U k = 0 \<and> 0 < cnt V k then None else pr k)"
      using s c by (cases "k = out_of e") (auto simp: release_edge_def Let_def)
    show "0 < cnt V k \<longrightarrow> (\<exists>c. ls_remaining (release_edge st e) k = Some c \<and> (pr k \<noteq> None \<or> fst k \<notin> C \<longrightarrow> c = cnt U k))"
      using s c by (cases "k = out_of e") (auto simp: release_edge_def Let_def)
  qed
qed

lemma store_ok_releases: "store_ok V C pr (es @ U) st \<Longrightarrow> store_ok V C pr U (foldl release_edge st es)"
  by (induction es arbitrary: st) (auto dest: store_ok_release)

lemma release_edges_rest [simp]:
  "ls_available (foldl release_edge st es) = ls_available st"
  "ls_initial (foldl release_edge st es) = ls_initial st"
  "ls_skipped (foldl release_edge st es) = ls_skipped st"
  "ls_events (foldl release_edge st es) = ls_events st"
  "ls_looks (foldl release_edge st es) = ls_looks st"
  by (induction es arbitrary: st) (auto simp: release_edge_def Let_def split: option.splits)

text \<open>Everything but the store is the same.\<close>

definition same_rest :: "'a level_state \<Rightarrow> 'a level_state \<Rightarrow> bool" where
  "same_rest st st' \<longleftrightarrow> ls_available st' = ls_available st \<and> ls_initial st' = ls_initial st
     \<and> ls_completed st' = ls_completed st \<and> ls_skipped st' = ls_skipped st \<and> ls_events st' = ls_events st
     \<and> ls_looks st' = ls_looks st"

definition values_at :: "(out_key \<rightharpoonup> 'a port_value) \<Rightarrow> flow_edge list \<Rightarrow> string \<Rightarrow> 'a port_value list" where
  "values_at pr es p = List.map_filter (\<lambda>e. pr (out_of e)) (filter (\<lambda>e. fe_to_port e = p) es)"

lemma values_at_simps [simp]:
  "values_at pr [] p = []"
  "values_at pr (e # es) p = (if fe_to_port e = p then (case pr (out_of e) of Some v \<Rightarrow> v # values_at pr es p | None \<Rightarrow> values_at pr es p)
     else values_at pr es p)"
  by (auto simp: values_at_def List.map_filter_def split: option.split)

lemma store_ok_read:
  assumes s: "store_ok V C pr (e # U) st" and e: "fe_from_node e \<in> C"
  shows "\<exists>st'. read_edge (st, ins) e = Ok (st', \<lambda>p. ins p @ values_at pr [e] p) \<and> store_ok V C pr U st' \<and> same_rest st st'"
proof (cases "pr (out_of e)")
  case None
  have "store_ok V C pr U st" unfolding store_ok_def
  proof
    fix k show "cnt U k \<le> cnt V k
     \<and> ls_port_data st k = (if cnt U k = 0 \<and> 0 < cnt V k then None else pr k)
     \<and> (0 < cnt V k \<longrightarrow> (\<exists>c. ls_remaining st k = Some c \<and> (pr k \<noteq> None \<or> fst k \<notin> C \<longrightarrow> c = cnt U k)))"
      using s [unfolded store_ok_def, rule_format, of k] None e
      by (cases "k = out_of e") (auto simp: out_of_def split: if_splits)
  qed
  then show ?thesis using None store_okD(1) [OF s] by (auto simp: read_edge_def same_rest_def fun_eq_iff)
next
  case (Some v)
  have d: "ls_port_data st (out_of e) = Some v" using store_okD(1) [OF s] Some by simp
  have c: "ls_remaining st (out_of e) = Some (Suc (cnt U (out_of e)))" using store_okD(2) [OF s] Some by auto
  define st' where "st' = (let st1 = st\<lparr>ls_remaining := (ls_remaining st)(out_of e \<mapsto> cnt U (out_of e))\<rparr>
      in if cnt U (out_of e) = 0 then st1\<lparr>ls_port_data := (ls_port_data st1)(out_of e := None)\<rparr> else st1)"
  have "store_ok V C pr U st'" unfolding store_ok_def
  proof
    fix k show "cnt U k \<le> cnt V k
     \<and> ls_port_data st' k = (if cnt U k = 0 \<and> 0 < cnt V k then None else pr k)
     \<and> (0 < cnt V k \<longrightarrow> (\<exists>c. ls_remaining st' k = Some c \<and> (pr k \<noteq> None \<or> fst k \<notin> C \<longrightarrow> c = cnt U k)))"
      using s [unfolded store_ok_def, rule_format, of k]
      by (cases "k = out_of e") (auto simp: st'_def Let_def)
  qed
  moreover have "read_edge (st, ins) e = Ok (st', \<lambda>p. ins p @ values_at pr [e] p)"
    using Some by (auto simp: read_edge_def d c st'_def Let_def fun_eq_iff)
  ultimately show ?thesis by (auto simp: same_rest_def st'_def Let_def)
qed

lemma store_ok_reads:
  assumes "store_ok V C pr (es @ U) st" and "\<And>e. e \<in> set es \<Longrightarrow> fe_from_node e \<in> C"
  shows "\<exists>st'. fold_try read_edge (st, ins) es = Ok (st', \<lambda>p. ins p @ values_at pr es p) \<and> store_ok V C pr U st' \<and> same_rest st st'"
  using assms
proof (induction es arbitrary: st ins)
  case Nil
  then show ?case by (simp add: same_rest_def)
next
  case (Cons e es)
  from store_ok_read [OF Cons.prems(1) [unfolded append_Cons] Cons.prems(2), of ins] obtain st1 where
    r: "read_edge (st, ins) e = Ok (st1, \<lambda>p. ins p @ values_at pr [e] p)" and s: "store_ok V C pr (es @ U) st1" and e: "same_rest st st1"
    by auto
  from Cons.IH [OF s Cons.prems(2), of "\<lambda>p. ins p @ values_at pr [e] p"] obtain st2 where
    r2: "fold_try read_edge (st1, \<lambda>p. ins p @ values_at pr [e] p) es
        = Ok (st2, \<lambda>p. (ins p @ values_at pr [e] p) @ values_at pr es p)" and s2: "store_ok V C pr U st2" and e2: "same_rest st1 st2"
    by auto
  have "(ins p @ values_at pr [e] p) @ values_at pr es p = ins p @ values_at pr (e # es) p" for p
    by (simp split: option.split)
  with r r2 have "fold_try read_edge (st, ins) (e # es) = Ok (st2, \<lambda>p. ins p @ values_at pr (e # es) p)" by simp
  then show ?case using s2 e e2 by (auto simp: same_rest_def)
qed

text \<open>The edges a set of nodes has not read.\<close>

definition unread :: "'a flow_graph \<Rightarrow> string set \<Rightarrow> flow_edge list" where
  "unread g T = filter (\<lambda>e. fe_to_node e \<notin> T) (g_edges g)"

lemma unread_insert: "n \<notin> T \<Longrightarrow> cnt (edges_to g n @ unread g (insert n T)) k = cnt (unread g T) k"
proof -
  assume "n \<notin> T"
  then have "cnt (filter (\<lambda>e. fe_to_node e \<notin> T) es) k
      = cnt (filter (\<lambda>e. fe_to_node e = n) es) k + cnt (filter (\<lambda>e. fe_to_node e \<notin> insert n T) es) k" for es
    by (induction es) auto
  then show ?thesis by (simp add: unread_def edges_to_def)
qed

lemma count_consumers_all: "count_consumers g k = (if cnt (g_edges g) k = 0 then None else Some (cnt (g_edges g) k))"
proof -
  have "foldl (\<lambda>m e. m(out_of e \<mapsto> or_default m 0 (out_of e) + 1)) m es k
      = (if cnt es k = 0 then m k else Some (or_default m 0 k + cnt es k))" for m es
    by (induction es arbitrary: m) (auto simp: or_default_def split: option.split)
  then show ?thesis by (simp add: count_consumers_def or_default_def)
qed

lemma store_ok_start: "store_ok (g_edges g) {} Map.empty (unread g {}) (level_start g init)"
  by (simp add: store_ok_def unread_def level_start_def count_consumers_all)

lemma store_ok_later: "store_ok V C pr U st \<Longrightarrow> C \<subseteq> D \<Longrightarrow> store_ok V D pr U st"
  unfolding store_ok_def by blast

lemma store_ok_skip:
  assumes "store_ok V C pr (unread g T) st" and "n \<notin> T"
  shows "store_ok V (insert n C) pr (unread g (insert n T)) (skip_node g st (n, r))"
proof -
  have "store_ok V C pr (edges_to g n @ unread g (insert n T)) st"
    by (rule store_ok_cong [OF assms(1)]) (simp_all add: unread_insert [OF assms(2), simplified])
  from store_ok_releases [OF this] have "store_ok V (insert n C) pr (unread g (insert n T)) (foldl release_edge st (edges_to g n))"
    by (rule store_ok_later) blast
  then show ?thesis by (rule store_ok_cong) (simp_all add: skip_node_def Let_def emit_def)
qed

lemma store_outputs:
  "ls_port_data (foldl (store_output n) st outs) k
     = (if fst k = n then (case map_of (rev outs) (snd k) of Some v \<Rightarrow> Some v | None \<Rightarrow> ls_port_data st k) else ls_port_data st k)"
  "ls_available (foldl (store_output n) st outs) = ls_available st \<union> Pair n ` fst ` set outs"
proof (induction outs arbitrary: st)
  case (Cons o' outs)
  { case 1 show ?case unfolding foldl_Cons Cons.IH by (cases k) (auto simp: store_output_def map_add_def split: option.splits)
  next
    case 2 show ?case unfolding foldl_Cons Cons.IH by (auto simp: store_output_def) }
qed simp_all

lemma store_outputs_rest [simp]:
  "ls_remaining (foldl (store_output n) st outs) = ls_remaining st"
  "ls_initial (foldl (store_output n) st outs) = ls_initial st"
  "ls_completed (foldl (store_output n) st outs) = ls_completed st"
  "ls_skipped (foldl (store_output n) st outs) = ls_skipped st"
  "ls_events (foldl (store_output n) st outs) = ls_events st"
  "ls_looks (foldl (store_output n) st outs) = ls_looks st"
  by (induction outs arbitrary: st) (simp_all add: store_output_def)

section \<open>Inputs\<close>

text \<open>The inputs of a node, and a node that is starved, given what the others produced.\<close>

definition node_inputs ::
  "'a flow_graph \<Rightarrow> (string \<rightharpoonup> (string \<rightharpoonup> 'a port_value)) \<Rightarrow> (out_key \<rightharpoonup> 'a port_value) \<Rightarrow> string \<Rightarrow> string \<rightharpoonup> 'a port_value" where
  "node_inputs g init pr n =
     (\<lambda>p. reduce_values (values_at pr (edges_to g n) p)) ++ (case init n of Some ports \<Rightarrow> ports | None \<Rightarrow> Map.empty)"

definition starved ::
  "'a flow_graph \<Rightarrow> (string \<rightharpoonup> (string \<rightharpoonup> 'a port_value)) \<Rightarrow> (out_key \<rightharpoonup> 'a port_value) \<Rightarrow> string \<Rightarrow> bool" where
  "starved g init pr n \<longleftrightarrow> (\<exists>m i. find_node g n = Some m \<and> i \<in> set (fn_inputs m) \<and> pd_required i
     \<and> edges_at g n (pd_name i) \<noteq> [] \<and> (\<forall>e \<in> set (edges_at g n (pd_name i)). pr (out_of e) = None)
     \<and> (case init n of Some ports \<Rightarrow> ports (pd_name i) = None | None \<Rightarrow> True))"

definition fed :: "'a flow_graph \<Rightarrow> string set \<Rightarrow> string \<Rightarrow> bool" where
  "fed g C n \<longleftrightarrow> (\<forall>e \<in> set (edges_to g n). fe_from_node e \<in> C)"

lemma edges_at_to: "set (edges_at g n p) \<subseteq> set (edges_to g n)"
  by (auto simp: edges_at_def edges_to_def)

lemma values_at_cong:
  "(\<And>e. e \<in> set es \<Longrightarrow> pr (out_of e) = pr' (out_of e)) \<Longrightarrow> values_at pr es p = values_at pr' es p"
proof (induction es)
  case (Cons e es)
  then have "values_at pr es p = values_at pr' es p" "pr (out_of e) = pr' (out_of e)" by auto
  then show ?case by (cases "pr' (out_of e)") simp_all
qed simp

lemma fed_stable:
  assumes "fed g C n" and "\<And>k. fst k \<in> C \<Longrightarrow> pr' k = pr k"
  shows "node_inputs g init pr' n = node_inputs g init pr n" and "starved g init pr' n = starved g init pr n"
proof -
  have e: "pr' (out_of e) = pr (out_of e)" if "e \<in> set (edges_to g n)" for e
    using assms that by (simp add: fed_def out_of_def)
  show "node_inputs g init pr' n = node_inputs g init pr n"
    unfolding node_inputs_def using values_at_cong [of "edges_to g n" pr' pr, OF e] by presburger
  show "starved g init pr' n = starved g init pr n"
  proof -
    have "(\<forall>e \<in> set (edges_at g n p). pr' (out_of e) = None) = (\<forall>e \<in> set (edges_at g n p). pr (out_of e) = None)" for p
      using e edges_at_to [of g n p] by (intro ball_cong) auto
    then show ?thesis by (simp add: starved_def)
  qed
qed

definition wanting :: "'a flow_graph \<Rightarrow> 'a level_state \<Rightarrow> string \<Rightarrow> port_def \<Rightarrow> bool" where
  "wanting g st n i \<longleftrightarrow> pd_required i \<and> edges_at g n (pd_name i) \<noteq> [] \<and> \<not> has_edge_data g st n (pd_name i) \<and> \<not> has_initial st n (pd_name i)"

lemma skip_scan_Some:
  "skip_scan g n st is m = Some r \<Longrightarrow>
     (\<forall>i \<in> set is. producers_finished g st n (pd_name i)) \<and> (m = Some r \<or> (\<exists>i \<in> set is. wanting g st n i))"
  by (induction g n st "is" m rule: skip_scan.induct)
    (auto simp: wanting_def producers_finished_def split: if_splits)

lemma skip_scan_None:
  "\<forall>i \<in> set is. producers_finished g st n (pd_name i) \<Longrightarrow> m \<noteq> None \<or> (\<exists>i \<in> set is. wanting g st n i) \<Longrightarrow> skip_scan g n st is m \<noteq> None"
proof (induction "is" arbitrary: m)
  case (Cons i "is")
  then show ?case by (cases "edges_at g n (pd_name i) = []"; cases m) (auto simp: wanting_def)
qed simp

lemma fed_inputs:
  assumes g: "graph_inv g" and m: "find_node g n = Some m"
  shows "fed g (ls_completed st) n \<longleftrightarrow> (\<forall>i \<in> set (fn_inputs m). producers_finished g st n (pd_name i))"
proof
  assume "fed g (ls_completed st) n"
  then show "\<forall>i \<in> set (fn_inputs m). producers_finished g st n (pd_name i)"
    by (auto simp: fed_def producers_finished_def list_all_iff edges_at_def edges_to_def)
next
  assume all: "\<forall>i \<in> set (fn_inputs m). producers_finished g st n (pd_name i)"
  show "fed g (ls_completed st) n" unfolding fed_def
  proof
    fix e assume "e \<in> set (edges_to g n)"
    then have e: "e \<in> set (g_edges g)" "fe_to_node e = n" by (auto simp: edges_to_def)
    then obtain b where "find (\<lambda>d. pd_name d = fe_to_port e) (fn_inputs m) = Some b"
      using g m by (auto simp: graph_inv_def edge_typed_def find_input_port_def)
    then have "b \<in> set (fn_inputs m)" "pd_name b = fe_to_port e" by (auto dest: find_Some_in)
    then show "fe_from_node e \<in> ls_completed st"
      using all e by (auto simp: producers_finished_def list_all_iff edges_at_def)
  qed
qed

text \<open>What \<open>Graph::validate\<close> gives for the inputs: a required input without edge has an initial value.\<close>

definition inputs_given :: "'a flow_graph \<Rightarrow> (string \<rightharpoonup> (string \<rightharpoonup> 'a port_value)) \<Rightarrow> bool" where
  "inputs_given g init \<longleftrightarrow> (\<forall>m \<in> set (g_nodes g). \<forall>i \<in> set (fn_inputs m).
     pd_required i \<and> edges_at g (fn_name m) (pd_name i) = [] \<longrightarrow> (\<exists>ports v. init (fn_name m) = Some ports \<and> ports (pd_name i) = Some v))"

definition stays_cancelled :: "(nat \<Rightarrow> cancel_cause option) \<Rightarrow> bool" where
  "stays_cancelled annul \<longleftrightarrow> (\<forall>j k c. annul j = Some c \<longrightarrow> j \<le> k \<longrightarrow> annul k = Some c)"

lemma skip_node_completed [simp]: "ls_completed (skip_node g st nr) = insert (fst nr) (ls_completed st)" "ls_looks (skip_node g st nr) = ls_looks st"
  by (simp_all add: skip_node_def Let_def emit_def)

section \<open>Rounds\<close>

text \<open>
  What the loop of levels asks of an invariant: \<open>inv T st\<close> says that the nodes \<open>T\<close> were taken up in the
  state \<open>st\<close>, \<open>short st n\<close> that the node \<open>n\<close> lacks a required input, and \<open>ins st n\<close> are its inputs. What
  follows, that skips reach a fixpoint, that some node is ready as long as one is open, and that the
  ready nodes are prepared without a panic, holds of every such invariant.
\<close>

locale level_invariant =
  fixes g :: "'a flow_graph"
    and init :: "string \<rightharpoonup> (string \<rightharpoonup> 'a port_value)"
    and inv :: "string set \<Rightarrow> 'a level_state \<Rightarrow> bool"
    and short :: "'a level_state \<Rightarrow> string \<Rightarrow> bool"
    and ins :: "'a level_state \<Rightarrow> string \<Rightarrow> string \<rightharpoonup> 'a port_value"
  assumes taken: "inv T st \<Longrightarrow> ls_completed st \<subseteq> T \<and> T \<subseteq> set (names_of g)"
    and initial: "inv T st \<Longrightarrow> n \<notin> T \<Longrightarrow> ls_initial st n = init n"
    and wants: "inv T st \<Longrightarrow> n \<notin> T \<Longrightarrow> find_node g n = Some m \<Longrightarrow> fed g (ls_completed st) n \<Longrightarrow>
      short st n \<longleftrightarrow> (\<exists>i \<in> set (fn_inputs m). wanting g st n i)"
    and skip: "inv T st \<Longrightarrow> n \<notin> T \<Longrightarrow> n \<in> set (names_of g) \<Longrightarrow> fed g (ls_completed st) n \<Longrightarrow> short st n \<Longrightarrow>
      inv (insert n T) (skip_node g st (n, r))"
    and skip_short: "short (skip_node g st (n, r)) k = short st k"
    and prepare: "inv T st \<Longrightarrow> n \<notin> T \<Longrightarrow> n \<in> set (names_of g) \<Longrightarrow> fed g (ls_completed st) n \<Longrightarrow> \<not> short st n \<Longrightarrow>
      \<exists>st'. prepare_node g st n = Ok (st', n, ins st n) \<and> inv (insert n T) st' \<and> ls_completed st' = ls_completed st
        \<and> ls_looks st' = ls_looks st \<and> short st' = short st \<and> ins st' = ins st"
begin

definition settled_in :: "'a level_state \<Rightarrow> bool" where
  "settled_in st \<longleftrightarrow> inv (ls_completed st) st"

lemma reason_means:
  assumes "inv T st" and "graph_inv g" and "n \<notin> T" and "skip_reason g st n = Some r"
  shows "n \<in> set (names_of g)" "fed g (ls_completed st) n" "short st n"
proof -
  from assms(4) obtain m where m: "find_node g n = Some m" and s: "skip_scan g n st (fn_inputs m) None = Some r"
    by (auto simp: skip_reason_def Option.bind_eq_Some_conv)
  show "n \<in> set (names_of g)" using m find_node_None [of g n] by force
  show f: "fed g (ls_completed st) n" using skip_scan_Some [OF s] fed_inputs [OF assms(2) m] by blast
  show "short st n" using skip_scan_Some [OF s] wants [OF assms(1,3) m f] by auto
qed

lemma skips:
  assumes "settled_in st" and "distinct (map fst ns)"
    and "\<And>n r. (n, r) \<in> set ns \<Longrightarrow> n \<notin> ls_completed st \<and> n \<in> set (names_of g) \<and> fed g (ls_completed st) n \<and> short st n"
  shows "settled_in (foldl (skip_node g) st ns) \<and> ls_looks (foldl (skip_node g) st ns) = ls_looks st"
  using assms
proof (induction ns arbitrary: st)
  case (Cons nr ns)
  obtain n r where nr: "nr = (n, r)" by force
  have n: "n \<notin> ls_completed st" "n \<in> set (names_of g)" "fed g (ls_completed st) n" "short st n"
    using Cons.prems(3) [of n r] nr by auto
  have "settled_in (skip_node g st nr)"
    using skip [of "ls_completed st" st n r] Cons.prems(1) n by (simp add: settled_in_def nr)
  moreover have "m \<notin> ls_completed (skip_node g st nr) \<and> m \<in> set (names_of g) \<and> fed g (ls_completed (skip_node g st nr)) m
      \<and> short (skip_node g st nr) m" if "(m, q) \<in> set ns" for m q
    using Cons.prems(2) Cons.prems(3) [of m q] that nr by (force simp: fed_def skip_short)
  ultimately show ?case using Cons.IH [of "skip_node g st nr"] Cons.prems(2) by simp
qed simp

lemma fixpoint:
  assumes "settled_in st" and "graph_inv g" and "distinct order"
  shows "settled_in (skip_until_fixpoint g order st) \<and> to_skip g order (skip_until_fixpoint g order st) = []
    \<and> ls_completed st \<subseteq> ls_completed (skip_until_fixpoint g order st)
    \<and> ls_looks (skip_until_fixpoint g order st) = ls_looks st"
proof -
  have "h = g \<Longrightarrow> settled_in st \<Longrightarrow> distinct order \<Longrightarrow>
      settled_in (skip_until_fixpoint h order st) \<and> to_skip h order (skip_until_fixpoint h order st) = []
      \<and> ls_completed st \<subseteq> ls_completed (skip_until_fixpoint h order st)
      \<and> ls_looks (skip_until_fixpoint h order st) = ls_looks st" for h
  proof (induction h order st rule: skip_until_fixpoint.induct)
    case (1 h order st)
    show ?case
    proof (cases "to_skip h order st = []")
      case True
      then show ?thesis using "1.prems"(2) by (simp add: skip_until_fixpoint.simps)
    next
      case False
      let ?ns = "to_skip h order st"
      have "map fst ?ns = filter (\<lambda>n. skip_reason h st n \<noteq> None) (filter (\<lambda>n. n \<notin> ls_completed st) order)"
        by (auto simp: to_skip_def List.map_filter_def comp_def intro!: map_idI)
      then have "distinct (map fst ?ns)" using "1.prems"(3) by simp
      moreover have "n \<notin> ls_completed st \<and> n \<in> set (names_of g) \<and> fed g (ls_completed st) n \<and> short st n"
        if "(n, r) \<in> set ?ns" for n r
        using reason_means [OF "1.prems"(2) [unfolded settled_in_def] assms(2)] that "1.prems"(1) by (auto simp: to_skip_in)
      ultimately have s: "settled_in (foldl (skip_node h) st ?ns)" "ls_looks (foldl (skip_node h) st ?ns) = ls_looks st"
        using skips [OF "1.prems"(2), of ?ns] "1.prems"(1) by blast+
      show ?thesis using "1.IH" [OF False "1.prems"(1) s(1) "1.prems"(3)] s(2) False
        by (subst (1 2 3 4) skip_until_fixpoint.simps) (auto simp: skip_nodes_completed)
    qed
  qed
  with assms show ?thesis by blast
qed

lemma ready_means:
  assumes st: "settled_in st" and g: "graph_inv g" and m: "find_node g n = Some m" and n: "n \<notin> ls_completed st"
    and r: "list_all (input_ready g st n) (fn_inputs m)"
  shows "fed g (ls_completed st) n \<and> \<not> short st n"
proof -
  have i: "producers_finished g st n (pd_name i) \<and> \<not> wanting g st n i" if "i \<in> set (fn_inputs m)" for i
    using r that by (auto simp: list_all_iff input_ready_def Let_def wanting_def producers_finished_def split: if_splits)
  then have "fed g (ls_completed st) n" using fed_inputs [OF g m, of st] by blast
  then show ?thesis using i wants [OF st [unfolded settled_in_def] n m] by blast
qed

lemma ready_progress:
  assumes st: "settled_in st" and g: "graph_inv g" and order: "topo_order (names_of g) (flow_links g) order"
    and given: "inputs_given g init" and skip: "to_skip g order st = []" and open_node: "\<not> set order \<subseteq> ls_completed st"
  shows "\<exists>n m. n \<in> set order \<and> n \<notin> ls_completed st \<and> find_node g n = Some m \<and> list_all (input_ready g st n) (fn_inputs m)"
proof -
  obtain xs n ys where o: "order = xs @ n # ys" and xs: "set xs \<subseteq> ls_completed st" and n: "n \<notin> ls_completed st"
    using open_node split_list_first_prop [of order "\<lambda>n. n \<notin> ls_completed st"] by blast
  have names: "n \<in> set (names_of g)" using o order by (auto simp: topo_order_def)
  then obtain m where m: "find_node g n = Some m" using find_node_None [of g n] by blast
  have mi: "m \<in> set (g_nodes g)" "fn_name m = n" using find_node_in [OF m] by auto
  have "fe_from_node e \<in> ls_completed st" if "e \<in> set (edges_to g n)" for e
  proof -
    have "(fe_from_node e, n) \<in> set (flow_links g)" using that by (auto simp: edges_to_def flow_links_def fe_link_def)
    then show ?thesis using order o xs by (auto simp: topo_order_def closed_order_def)
  qed
  then have fed: "fed g (ls_completed st) n" by (simp add: fed_def)
  have "skip_reason g st n = None" using skip to_skip_in [of n _ g order st] o n by (cases "skip_reason g st n") auto
  then have scan: "skip_scan g n st (fn_inputs m) None = None" by (simp add: skip_reason_def m)
  have ok: "input_ready g st n i" if i: "i \<in> set (fn_inputs m)" for i
  proof -
    have f: "producers_finished g st n (pd_name i)" using fed fed_inputs [OF g m] i by blast
    have "\<not> wanting g st n i"
      using skip_scan_None [of "fn_inputs m" g st n None] scan fed fed_inputs [OF g m] i by blast
    moreover have "has_initial st n (pd_name i)" if "pd_required i" "edges_at g n (pd_name i) = []"
      using given mi i that initial [OF st [unfolded settled_in_def] n]
      by (fastforce simp: inputs_given_def has_initial_def)
    ultimately show ?thesis using f by (auto simp: input_ready_def Let_def wanting_def)
  qed
  then show ?thesis using o n m by (auto simp: list_all_iff)
qed

lemma prepares:
  assumes "inv T st" and "distinct ns"
    and "\<And>n. n \<in> set ns \<Longrightarrow> n \<notin> T \<and> n \<in> set (names_of g) \<and> fed g (ls_completed st) n \<and> \<not> short st n"
  shows "\<exists>st' prepared. thread (prepare_node g) st ns = Ok (st', prepared) \<and> map fst prepared = ns
    \<and> inv (T \<union> set ns) st' \<and> ls_completed st' = ls_completed st \<and> ls_looks st' = ls_looks st
    \<and> ins st' = ins st \<and> (\<forall>d \<in> set prepared. snd d = ins st' (fst d))"
  using assms
proof (induction ns arbitrary: T st)
  case (Cons n ns)
  have n: "n \<notin> T" "n \<in> set (names_of g)" "fed g (ls_completed st) n" "\<not> short st n"
    using Cons.prems(3) [of n] by auto
  obtain st1 where p: "prepare_node g st n = Ok (st1, n, ins st n)"
    and i: "inv (insert n T) st1" and e: "ls_completed st1 = ls_completed st" "ls_looks st1 = ls_looks st" "short st1 = short st" "ins st1 = ins st"
    using prepare [OF Cons.prems(1) n] by blast
  have "\<exists>st' prepared. thread (prepare_node g) st1 ns = Ok (st', prepared) \<and> map fst prepared = ns
    \<and> inv (insert n T \<union> set ns) st' \<and> ls_completed st' = ls_completed st1 \<and> ls_looks st' = ls_looks st1
    \<and> ins st' = ins st1 \<and> (\<forall>d \<in> set prepared. snd d = ins st' (fst d))"
    using Cons.prems(2,3) by (intro Cons.IH [OF i]) (auto simp: e)
  then show ?case using p e by auto
qed simp

text \<open>A round up to the execution of the level: all nodes have ended, or the ready ones are prepared.\<close>

lemma level_prepared:
  assumes st: "settled_in st" and g: "graph_inv g" and order: "topo_order (names_of g) (flow_links g) order" and given: "inputs_given g init"
    and st1: "st1 = skip_until_fixpoint g order st"
  obtains ready where "ready_nodes g order st1 = Some ready" "settled_in st1" "ls_completed st \<subseteq> ls_completed st1"
    "ready = [] \<Longrightarrow> ls_completed st1 = set (names_of g)"
    "ready \<noteq> [] \<Longrightarrow> \<exists>st2 prepared. thread (prepare_node g) st1 ready = Ok (st2, prepared) \<and> map fst prepared = ready
       \<and> inv (ls_completed st1 \<union> set ready) st2 \<and> ls_completed st2 = ls_completed st1 \<and> distinct ready \<and> set ready \<inter> ls_completed st1 = {}
       \<and> (\<forall>d \<in> set prepared. snd d = ins st2 (fst d))"
proof -
  have od: "distinct order" "set order = set (names_of g)" using order by (auto simp: topo_order_def)
  from fixpoint [OF st g od(1)] have s1: "settled_in st1" and sk: "to_skip g order st1 = []"
    and le: "ls_completed st \<subseteq> ls_completed st1" by (auto simp: st1)
  define ready where "ready = filter (\<lambda>n. list_all (input_ready g st1 n) (case find_node g n of Some m \<Rightarrow> fn_inputs m | None \<Rightarrow> []))
      (filter (\<lambda>n. n \<notin> ls_completed st1) order)"
  have rn: "ready_nodes g order st1 = Some ready"
    using od(2) by (auto simp: ready_nodes_def ready_def Let_def list_all_iff find_node_None)
  have none: "ls_completed st1 = set (names_of g)" if "ready = []"
  proof -
    have "set order \<subseteq> ls_completed st1"
    proof (rule ccontr)
      assume "\<not> set order \<subseteq> ls_completed st1"
      from ready_progress [OF s1 g order given sk this] have "ready \<noteq> []" by (auto simp: ready_def filter_empty_conv)
      then show False using that by contradiction
    qed
    then show ?thesis using taken [OF s1 [unfolded settled_in_def]] od(2) by blast
  qed
  have n: "n \<notin> ls_completed st1 \<and> n \<in> set (names_of g) \<and> fed g (ls_completed st1) n \<and> \<not> short st1 n" if "n \<in> set ready" for n
  proof -
    have n: "n \<in> set order" "n \<notin> ls_completed st1" using that by (auto simp: ready_def)
    then obtain m where m: "find_node g n = Some m" using od(2) find_node_None [of g n] by blast
    then have "list_all (input_ready g st1 n) (fn_inputs m)" using that by (simp add: ready_def)
    from ready_means [OF s1 g m n(2) this] n od(2) show ?thesis by blast
  qed
  have d: "distinct ready" using od(1) by (simp add: ready_def)
  from prepares [OF s1 [unfolded settled_in_def] d n] d n
  have "\<exists>st2 prepared. thread (prepare_node g) st1 ready = Ok (st2, prepared) \<and> map fst prepared = ready
       \<and> inv (ls_completed st1 \<union> set ready) st2 \<and> ls_completed st2 = ls_completed st1 \<and> distinct ready \<and> set ready \<inter> ls_completed st1 = {}
       \<and> (\<forall>d \<in> set prepared. snd d = ins st2 (fst d))" by blast
  then show ?thesis using that [OF rn s1 le none] by blast
qed

end

end
