(* ===== verification/Flow_Run.thy ===== *)
theory Flow_Run
  imports Flow_Store
begin

text \<open>
  What a run of \<open>Flow_Levels\<close> computes. The invariant of a run says what is in the store of ports, which
  nodes ended and what they were given; it is kept by every skip, every preparation and every end
  of a node. A run that ends is the one solution of the equations of its graph.
\<close>

section \<open>What a run has produced\<close>

definition outcomes :: "'a flow_event list \<Rightarrow> (string \<times> (string \<times> 'a port_value) list) list" where
  "outcomes evs = List.map_filter (\<lambda>e. case e of NodeCompleted n outs \<Rightarrow> Some (n, outs) | _ \<Rightarrow> None) evs"

definition ran_nodes :: "'a flow_event list \<Rightarrow> string set" where
  "ran_nodes evs = fst ` set (outcomes evs)"

definition produced :: "'a flow_event list \<Rightarrow> out_key \<rightharpoonup> 'a port_value" where
  "produced evs k = Option.bind (map_of (outcomes evs) (fst k)) (\<lambda>outs. map_of (rev outs) (snd k))"

lemma outcomes_simps [simp]:
  "outcomes [] = []"
  "outcomes (evs @ evs') = outcomes evs @ outcomes evs'"
  "outcomes (NodeCompleted n outs # evs) = (n, outs) # outcomes evs"
  "outcomes (NodeStarted n ins # evs) = outcomes evs"
  "outcomes (NodeSkipped n r # evs) = outcomes evs"
  "outcomes (CheckpointResumed n ps # evs) = outcomes evs"
  "outcomes (NodeFailed n e # evs) = outcomes evs"
  "outcomes (NodeCancelled n c # evs) = outcomes evs"
  "outcomes (RunFailed le # evs) = outcomes evs"
  "outcomes (RunCompleted m # evs) = outcomes evs"
  by (simp_all add: outcomes_def List.map_filter_def)

lemma outcomes_in: "(n, outs) \<in> set (outcomes evs) \<longleftrightarrow> NodeCompleted n outs \<in> set evs"
proof (induction evs)
  case (Cons ev evs)
  then show ?case by (cases ev) auto
qed simp

lemma produced_Nil [simp]: "produced [] = Map.empty"
  by (simp add: produced_def fun_eq_iff)

lemma produced_ran: "fst k \<notin> ran_nodes evs \<Longrightarrow> produced evs k = None"
  by (simp add: produced_def ran_nodes_def map_of_eq_None_iff [THEN iffD2])

lemma produced_snoc:
  "n \<notin> ran_nodes evs \<Longrightarrow> produced (evs @ [NodeCompleted n outs]) k
     = (if fst k = n then map_of (rev outs) (snd k) else produced evs k)"
  by (auto simp: produced_def ran_nodes_def map_add_def map_of_eq_None_iff [THEN iffD2] split: option.splits)

lemma produced_other: "outcomes [ev] = [] \<Longrightarrow> produced (evs @ [ev]) = produced evs"
  by (simp add: produced_def fun_eq_iff)

section \<open>The invariant of a run\<close>

definition level_inv ::
  "(nat \<Rightarrow> string \<Rightarrow> (string \<rightharpoonup> 'a port_value) \<Rightarrow> 'a executed) \<Rightarrow> 'a flow_graph \<Rightarrow> (string \<rightharpoonup> (string \<rightharpoonup> 'a port_value)) \<Rightarrow> string set
     \<Rightarrow> 'a level_state \<Rightarrow> bool" where
  "level_inv exec g init T st \<longleftrightarrow>
     (let C = ls_completed st; pr = produced (ls_events st)
      in C \<subseteq> T \<and> T \<subseteq> set (names_of g) \<and> (\<forall>n \<in> T. fed g C n)
       \<and> C = ran_nodes (ls_events st) \<union> dom (ls_skipped st) \<and> ran_nodes (ls_events st) \<inter> dom (ls_skipped st) = {}
       \<and> distinct (map fst (outcomes (ls_events st)))
       \<and> ls_available st = dom pr
       \<and> store_ok (g_edges g) C pr (unread g T) st
       \<and> (\<forall>n. n \<notin> T \<longrightarrow> ls_initial st n = init n)
       \<and> (\<forall>n ins. NodeStarted n ins \<in> set (ls_events st) \<longrightarrow> n \<in> T \<and> ins = node_inputs g init pr n)
       \<and> (\<forall>n outs. NodeCompleted n outs \<in> set (ls_events st) \<longrightarrow>
            (\<exists>i. node_result g n (exec i n (node_inputs g init pr n)) = Ok ()
               \<and> outs = ex_outputs (exec i n (node_inputs g init pr n))))
       \<and> (\<forall>n \<in> T. starved g init pr n \<longleftrightarrow> n \<in> dom (ls_skipped st)))"

lemma level_invD:
  assumes "level_inv exec g init T st"
  shows "ls_completed st \<subseteq> T" and "T \<subseteq> set (names_of g)" and "n \<in> T \<Longrightarrow> fed g (ls_completed st) n"
    and "ls_completed st = ran_nodes (ls_events st) \<union> dom (ls_skipped st)" and "ran_nodes (ls_events st) \<inter> dom (ls_skipped st) = {}"
    and "distinct (map fst (outcomes (ls_events st)))"
    and "ls_available st = dom (produced (ls_events st))"
    and "store_ok (g_edges g) (ls_completed st) (produced (ls_events st)) (unread g T) st"
    and "n \<notin> T \<Longrightarrow> ls_initial st n = init n"
    and "NodeStarted n ins \<in> set (ls_events st) \<Longrightarrow> n \<in> T \<and> ins = node_inputs g init (produced (ls_events st)) n"
    and "NodeCompleted n outs \<in> set (ls_events st) \<Longrightarrow>
      \<exists>i. node_result g n (exec i n (node_inputs g init (produced (ls_events st)) n)) = Ok ()
        \<and> outs = ex_outputs (exec i n (node_inputs g init (produced (ls_events st)) n))"
    and "n \<in> T \<Longrightarrow> starved g init (produced (ls_events st)) n \<longleftrightarrow> n \<in> dom (ls_skipped st)"
  using assms unfolding level_inv_def Let_def by blast+

lemma level_invI:
  assumes "ls_completed st \<subseteq> T" and "T \<subseteq> set (names_of g)" and "\<And>n. n \<in> T \<Longrightarrow> fed g (ls_completed st) n"
    and "ls_completed st = ran_nodes (ls_events st) \<union> dom (ls_skipped st)" and "ran_nodes (ls_events st) \<inter> dom (ls_skipped st) = {}"
    and "distinct (map fst (outcomes (ls_events st)))"
    and "ls_available st = dom (produced (ls_events st))"
    and "store_ok (g_edges g) (ls_completed st) (produced (ls_events st)) (unread g T) st"
    and "\<And>n. n \<notin> T \<Longrightarrow> ls_initial st n = init n"
    and "\<And>n ins. NodeStarted n ins \<in> set (ls_events st) \<Longrightarrow> n \<in> T \<and> ins = node_inputs g init (produced (ls_events st)) n"
    and "\<And>n outs. NodeCompleted n outs \<in> set (ls_events st) \<Longrightarrow>
      \<exists>i. node_result g n (exec i n (node_inputs g init (produced (ls_events st)) n)) = Ok ()
        \<and> outs = ex_outputs (exec i n (node_inputs g init (produced (ls_events st)) n))"
    and "\<And>n. n \<in> T \<Longrightarrow> starved g init (produced (ls_events st)) n \<longleftrightarrow> n \<in> dom (ls_skipped st)"
  shows "level_inv exec g init T st"
  using assms unfolding level_inv_def Let_def by blast

lemma level_inv_start: "level_inv exec g init {} (level_start g init)"
  using store_ok_start [of g init] by (simp add: level_inv_def level_start_def ran_nodes_def)

lemma level_inv_skip:
  assumes inv: "level_inv exec g init T st" and n: "n \<notin> T" "n \<in> set (names_of g)" "fed g (ls_completed st) n"
    and s: "starved g init (produced (ls_events st)) n"
  shows "level_inv exec g init (insert n T) (skip_node g st (n, r))"
proof -
  let ?st = "skip_node g st (n, r)"
  note d = level_invD [OF inv]
  have ev: "ls_events ?st = ls_events st @ [NodeSkipped n r]" and st: "ls_completed ?st = insert n (ls_completed st)"
    "ls_skipped ?st = (ls_skipped st)(n \<mapsto> r)" "ls_available ?st = ls_available st" "ls_initial ?st = ls_initial st"
    by (simp_all add: skip_node_def Let_def emit_def)
  have pr: "produced (ls_events ?st) = produced (ls_events st)" by (simp add: ev produced_other)
  have rn: "ran_nodes (ls_events ?st) = ran_nodes (ls_events st)" by (simp add: ev ran_nodes_def)
  have "n \<notin> ran_nodes (ls_events st)" using d(1,4) n(1) by blast
  moreover have "store_ok (g_edges g) (insert n (ls_completed st)) (produced (ls_events st)) (unread g (insert n T)) ?st"
    using d(8) n(1) by (rule store_ok_skip)
  moreover have "fed g (insert n (ls_completed st)) m" if "m \<in> insert n T" for m
    using d(3) [of m] n(3) that by (auto simp: fed_def)
  moreover have "starved g init (produced (ls_events st)) m \<longleftrightarrow> m \<in> dom ((ls_skipped st)(n \<mapsto> r))" if "m \<in> insert n T" for m
    using d(12) [of m] that s n(1) by auto
  ultimately show ?thesis using d(1,2,4,5,6,7,9) n
    by (intro level_invI) (unfold pr rn st, auto simp: ev dest: d(10,11))
qed

lemma level_inv_looks [simp]: "level_inv exec g init T (st\<lparr>ls_looks := x\<rparr>) = level_inv exec g init T st"
  by (simp add: level_inv_def store_ok_def)

lemma level_inv_prepare:
  assumes inv: "level_inv exec g init T st" and n: "n \<notin> T" "n \<in> set (names_of g)" "fed g (ls_completed st) n"
    and s: "\<not> starved g init (produced (ls_events st)) n"
  shows "\<exists>st'. prepare_node g st n = Ok (st', n, node_inputs g init (produced (ls_events st)) n)
    \<and> level_inv exec g init (insert n T) st' \<and> ls_completed st' = ls_completed st
    \<and> produced (ls_events st') = produced (ls_events st) \<and> ls_looks st' = ls_looks st \<and> ls_skipped st' = ls_skipped st"
proof -
  note d = level_invD [OF inv]
  let ?pr = "produced (ls_events st)" and ?ins = "node_inputs g init (produced (ls_events st)) n"
  have "store_ok (g_edges g) (ls_completed st) ?pr (edges_to g n @ unread g (insert n T)) st"
    by (rule store_ok_cong [OF d(8)]) (simp_all add: unread_insert [OF n(1), simplified])
  then obtain st1 where r: "fold_try read_edge (st, \<lambda>_. []) (edges_to g n) = Ok (st1, \<lambda>p. [] @ values_at ?pr (edges_to g n) p)"
    and so: "store_ok (g_edges g) (ls_completed st) ?pr (unread g (insert n T)) st1" and e: "same_rest st st1"
    using store_ok_reads [of "g_edges g" "ls_completed st" ?pr "edges_to g n" "unread g (insert n T)" st "\<lambda>_. []"] n(3)
    by (auto simp: fed_def)
  define st' where "st' = emit (NodeStarted n ?ins) (st1\<lparr>ls_initial := (ls_initial st1)(n := None)\<rparr>)"
  have "find_node g n \<noteq> None" using n(2) by (simp add: find_node_None)
  then have p: "prepare_node g st n = Ok (st', n, ?ins)"
    using r e d(9) [OF n(1)] by (auto simp: prepare_node_def st'_def node_inputs_def Let_def same_rest_def)
  have ev: "ls_events st' = ls_events st @ [NodeStarted n ?ins]" and st: "ls_completed st' = ls_completed st"
    "ls_skipped st' = ls_skipped st" "ls_available st' = ls_available st" "ls_initial st' = (ls_initial st)(n := None)"
    "ls_looks st' = ls_looks st"
    using e by (simp_all add: st'_def emit_def same_rest_def)
  have pr: "produced (ls_events st') = ?pr" by (simp add: ev produced_other)
  have rn: "ran_nodes (ls_events st') = ran_nodes (ls_events st)" by (simp add: ev ran_nodes_def)
  have "store_ok (g_edges g) (ls_completed st) ?pr (unread g (insert n T)) st'"
    by (rule store_ok_cong [OF so]) (simp_all add: st'_def emit_def)
  moreover have "fed g (ls_completed st) m" if "m \<in> insert n T" for m using d(3) [of m] n(3) that by auto
  moreover have "starved g init ?pr m \<longleftrightarrow> m \<in> dom (ls_skipped st)" if "m \<in> insert n T" for m
    using d(12) [of m] that s n(1) d(1,4) by blast
  ultimately have "level_inv exec g init (insert n T) st'" using d(1,2,4,5,6,7,9) n
    by (intro level_invI) (unfold pr rn st, auto simp: ev dest: d(10,11))
  then show ?thesis using p pr st by blast
qed

lemma level_inv_complete:
  assumes inv: "level_inv exec g init T st" and n: "n \<in> T" "n \<notin> ls_completed st"
    and ex: "ex = exec i n (node_inputs g init (produced (ls_events st)) n)" "node_result g n ex = Ok ()"
    and st': "st' = emit (NodeCompleted n (ex_outputs ex))
      ((foldl (store_output n) st (ex_outputs ex))\<lparr>ls_completed := insert n (ls_completed st)\<rparr>)"
  shows "level_inv exec g init T st'"
    and "m \<in> T \<Longrightarrow> node_inputs g init (produced (ls_events st')) m = node_inputs g init (produced (ls_events st)) m"
proof -
  note d = level_invD [OF inv]
  let ?pr = "produced (ls_events st)" and ?pr' = "produced (ls_events st')"
  have ev: "ls_events st' = ls_events st @ [NodeCompleted n (ex_outputs ex)]" and st: "ls_completed st' = insert n (ls_completed st)"
    "ls_skipped st' = ls_skipped st" "ls_initial st' = ls_initial st"
    by (simp_all add: st' emit_def)
  have nr: "n \<notin> ran_nodes (ls_events st)" using n(2) d(4) by blast
  have pr': "?pr' k = (if fst k = n then map_of (rev (ex_outputs ex)) (snd k) else ?pr k)" for k
    unfolding ev by (rule produced_snoc [OF nr])
  have old: "?pr' k = ?pr k" if "fst k \<in> ls_completed st" for k using that n(2) by (auto simp: pr')
  have none: "?pr k = None" if "fst k = n" for k using produced_ran [of k] nr that by simp
  have stable: "node_inputs g init ?pr' m = node_inputs g init ?pr m" "starved g init ?pr' m = starved g init ?pr m" if "m \<in> T" for m
    using fed_stable [OF d(3) [OF that], of ?pr' ?pr init] old by blast+
  have T: "m \<in> T" if "NodeCompleted m o' \<in> set (ls_events st)" for m o'
    using that d(1,4) outcomes_in [of m o' "ls_events st"] by (force simp: ran_nodes_def)
  have all: "cnt (unread g T) k = cnt (g_edges g) k" if "fst k = n" for k
  proof -
    have "fe_to_node e \<notin> T" if "e \<in> set (g_edges g)" "out_of e = k" for e
      using d(3) [of "fe_to_node e"] that \<open>fst k = n\<close> n(2) by (auto simp: fed_def edges_to_def out_of_def)
    then have "filter (\<lambda>e. out_of e = k) (unread g T) = filter (\<lambda>e. out_of e = k) (g_edges g)"
      by (auto simp: unread_def intro: filter_cong)
    then show ?thesis by (simp add: cnt_def)
  qed
  have data: "ls_port_data st' k = (if fst k = n then (case map_of (rev (ex_outputs ex)) (snd k) of Some v \<Rightarrow> Some v | None \<Rightarrow> ls_port_data st k)
      else ls_port_data st k)" and rem: "ls_remaining st' = ls_remaining st" for k
    by (simp_all add: st' emit_def store_outputs)
  have "store_ok (g_edges g) (insert n (ls_completed st)) ?pr' (unread g T) st'" unfolding store_ok_def
  proof
    fix k
    note s = d(8) [unfolded store_ok_def, rule_format, of k]
    show "cnt (unread g T) k \<le> cnt (g_edges g) k
       \<and> ls_port_data st' k = (if cnt (unread g T) k = 0 \<and> 0 < cnt (g_edges g) k then None else ?pr' k)
       \<and> (0 < cnt (g_edges g) k \<longrightarrow> (\<exists>c. ls_remaining st' k = Some c \<and> (?pr' k \<noteq> None \<or> fst k \<notin> insert n (ls_completed st) \<longrightarrow> c = cnt (unread g T) k)))"
    proof (cases "fst k = n")
      case True
      then show ?thesis using s all [OF True] none [OF True] n(2)
        by (auto simp: pr' data rem split: option.split)
    next
      case False
      then show ?thesis using s by (auto simp: pr' data rem)
    qed
  qed
  moreover have "ls_available st' = dom ?pr'"
  proof -
    have "ls_available st' = dom ?pr \<union> Pair n ` fst ` set (ex_outputs ex)" by (simp add: st' emit_def store_outputs d(7))
    also have "\<dots> = dom ?pr'"
    proof (rule set_eqI)
      fix k
      show "k \<in> dom ?pr \<union> Pair n ` fst ` set (ex_outputs ex) \<longleftrightarrow> k \<in> dom ?pr'"
        using none [of k] map_of_eq_None_iff [of "rev (ex_outputs ex)" "snd k"]
        by (cases k) (auto simp: pr' domIff image_iff)
    qed
    finally show ?thesis .
  qed
  moreover have "fed g (insert n (ls_completed st)) m" if "m \<in> T" for m using d(3) [OF that] by (auto simp: fed_def)
  moreover have "ran_nodes (ls_events st') = insert n (ran_nodes (ls_events st))" by (simp add: ev ran_nodes_def)
  moreover have "n \<notin> dom (ls_skipped st)" using n(2) d(4) by blast
  moreover have "distinct (map fst (outcomes (ls_events st')))" using d(6) nr by (simp add: ev ran_nodes_def)
  moreover have "m \<in> T \<and> ins = node_inputs g init ?pr' m" if "NodeStarted m ins \<in> set (ls_events st')" for m ins
    using that d(10) [of m ins] stable(1) [of m] by (auto simp: ev)
  moreover have "\<exists>i. node_result g m (exec i m (node_inputs g init ?pr' m)) = Ok () \<and> o' = ex_outputs (exec i m (node_inputs g init ?pr' m))"
    if "NodeCompleted m o' \<in> set (ls_events st')" for m o'
  proof (cases "NodeCompleted m o' \<in> set (ls_events st)")
    case True
    then show ?thesis using d(11) [OF True] stable(1) [OF T [OF True]] by simp
  next
    case False
    then have "m = n" "o' = ex_outputs ex" using that by (auto simp: ev)
    then show ?thesis using ex stable(1) [OF n(1)] by metis
  qed
  ultimately show "level_inv exec g init T st'" using d(1,2,4,5,9,12) n(1) stable(2)
    by (intro level_invI) (unfold st, auto)
  show "m \<in> T \<Longrightarrow> node_inputs g init ?pr' m = node_inputs g init ?pr m" by (rule stable(1))
qed

section \<open>Skipping\<close>

lemma starved_wanting:
  assumes "level_inv exec g init T st" and "n \<notin> T" and "find_node g n = Some m"
  shows "starved g init (produced (ls_events st)) n \<longleftrightarrow> (\<exists>i \<in> set (fn_inputs m). wanting g st n i)"
proof -
  note d = level_invD [OF assms(1)]
  have "has_edge_data g st n p \<longleftrightarrow> \<not> (\<forall>e \<in> set (edges_at g n p). produced (ls_events st) (out_of e) = None)" for p
    by (auto simp: has_edge_data_def list_ex_iff d(7) domIff)
  moreover have "has_initial st n p \<longleftrightarrow> \<not> (case init n of Some ports \<Rightarrow> ports p = None | None \<Rightarrow> True)" for p
    by (simp add: has_initial_def d(9) [OF assms(2)] split: option.split)
  ultimately show ?thesis using assms(3) by (auto simp: starved_def wanting_def)
qed

text \<open>A state between two phases: everything that was started has ended.\<close>

definition settled ::
  "(nat \<Rightarrow> string \<Rightarrow> (string \<rightharpoonup> 'a port_value) \<Rightarrow> 'a executed) \<Rightarrow> 'a flow_graph \<Rightarrow> (string \<rightharpoonup> (string \<rightharpoonup> 'a port_value)) \<Rightarrow> 'a level_state \<Rightarrow> bool" where
  "settled exec g init st \<longleftrightarrow> level_inv exec g init (ls_completed st) st"

lemma skip_node_produced [simp]:
  "produced (ls_events (skip_node g st nr)) = produced (ls_events st)"
  by (simp add: skip_node_def Let_def emit_def produced_other)

interpretation run: level_invariant g init "level_inv exec g init"
  "\<lambda>st. starved g init (produced (ls_events st))" "\<lambda>st. node_inputs g init (produced (ls_events st))" for g init exec
proof unfold_locales
  fix T n r and st :: "'a level_state" and m k
  show "level_inv exec g init T st \<Longrightarrow> ls_completed st \<subseteq> T \<and> T \<subseteq> set (names_of g)" by (simp add: level_invD(1,2))
  show "level_inv exec g init T st \<Longrightarrow> n \<notin> T \<Longrightarrow> ls_initial st n = init n" by (rule level_invD(9))
  show "level_inv exec g init T st \<Longrightarrow> n \<notin> T \<Longrightarrow> find_node g n = Some m \<Longrightarrow> fed g (ls_completed st) n \<Longrightarrow>
      starved g init (produced (ls_events st)) n \<longleftrightarrow> (\<exists>i \<in> set (fn_inputs m). wanting g st n i)" by (rule starved_wanting)
  show "starved g init (produced (ls_events (skip_node g st (n, r)))) k = starved g init (produced (ls_events st)) k" by simp
qed (auto intro: level_inv_skip dest: level_inv_prepare)

lemma settled_in: "level_invariant.settled_in (level_inv exec g init) st = settled exec g init st"
  by (simp add: run.settled_in_def settled_def)

section \<open>A level\<close>

definition wait_for :: "'a flow_graph \<Rightarrow> (string \<rightharpoonup> (string \<rightharpoonup> 'a port_value)) \<Rightarrow> 'a level_state \<Rightarrow> string \<times> (string \<rightharpoonup> 'a port_value) \<Rightarrow> bool" where
  "wait_for g init st d \<longleftrightarrow> snd d = node_inputs g init (produced (ls_events st)) (fst d)"

text \<open>The errors a run takes from its nodes: one of them panicked, or gave that error.\<close>

definition node_fault where
  "node_fault exec g err \<longleftrightarrow> (\<exists>i n ins. n \<in> set (names_of g)
     \<and> (ex_panicked (exec i n ins) \<and> err = NodePanicked \<or> (\<exists>e. node_result g n (exec i n ins) = Err e \<and> err = LevelNode e)))"

lemma finish_level:
  assumes "level_inv exec g init T st" and "distinct (map fst ds)" and "fst ` set ds \<subseteq> T - ls_completed st"
    and "\<And>d. d \<in> set ds \<Longrightarrow> wait_for g init st d" and a: "stays_cancelled annul"
  shows "case fold_try (finish_node annul g) st (map (\<lambda>(n, ins). (n, exec i n ins)) ds) of
      Inl (st', err) \<Rightarrow> node_fault exec g err
    | Inr st' \<Rightarrow> level_inv exec g init T st' \<and> ls_looks st \<le> ls_looks st' \<and> ls_completed st \<subseteq> ls_completed st'
        \<and> (ls_completed st' = ls_completed st \<union> fst ` set ds \<or> annul (ls_looks st') \<noteq> None)"
  using assms(1-4)
proof (induction ds arbitrary: st)
  case (Cons d ds)
  obtain n ins where d: "d = (n, ins)" by force
  let ?ex = "exec i n ins"
  have n: "n \<in> T" "n \<notin> ls_completed st" using Cons.prems(3) d by auto
  have ins: "ins = node_inputs g init (produced (ls_events st)) n" using Cons.prems(4) [of d] d by (simp add: wait_for_def)
  show ?case
  proof (cases "node_result g n ?ex")
    case (Inr u)
    then have ok: "node_result g n ?ex = Ok ()" by simp
    define st1 where "st1 = emit (NodeCompleted n (ex_outputs ?ex))
      ((foldl (store_output n) st (ex_outputs ?ex))\<lparr>ls_completed := insert n (ls_completed st)\<rparr>)"
    note c = level_inv_complete [OF Cons.prems(1) n refl ok [unfolded ins] st1_def [unfolded ins], folded ins]
    have f: "finish_node annul g st (n, ?ex) = Ok st1" using ok by (simp add: finish_node_def st1_def)
    have s1: "ls_completed st1 = insert n (ls_completed st)" "ls_looks st1 = ls_looks st" by (simp_all add: st1_def emit_def)
    have "fst ` set ds \<subseteq> T - ls_completed st1" using Cons.prems(2,3) d by (auto simp: s1)
    moreover have "wait_for g init st1 x" if "x \<in> set ds" for x
      using Cons.prems(3,4) that c(2) [of "fst x"] by (force simp: wait_for_def)
    ultimately show ?thesis using Cons.IH [OF c(1)] Cons.prems(2) f d by (simp add: s1 split: sum.splits prod.splits)
  next
    case (Inl err)
    have look: "look annul st = (annul (ls_looks st), st\<lparr>ls_looks := Suc (ls_looks st)\<rparr>)" by (simp add: look_def)
    show ?thesis
    proof (cases "annul (ls_looks st)")
      case None
      then have "fold_try (finish_node annul g) st (map (\<lambda>(n, ins). (n, exec i n ins)) (d # ds))
          = Err (emit (RunFailed (LevelNode err)) (emit (NodeFailed n err) (st\<lparr>ls_looks := Suc (ls_looks st)\<rparr>)), LevelNode err)"
        using Inl d by (simp add: finish_node_def look)
      moreover have "node_fault exec g (LevelNode err)"
        using Inl n(1) level_invD(2) [OF Cons.prems(1)] unfolding node_fault_def by blast
      ultimately show ?thesis by simp
    next
      case (Some cause)
      let ?st1 = "st\<lparr>ls_looks := Suc (ls_looks st)\<rparr>"
      have f: "finish_node annul g st (n, ?ex) = Ok ?st1" using Inl Some by (simp add: finish_node_def look)
      have IH: "case fold_try (finish_node annul g) ?st1 (map (\<lambda>(n, ins). (n, exec i n ins)) ds) of
          Inl (st', err) \<Rightarrow> node_fault exec g err
        | Inr st' \<Rightarrow> level_inv exec g init T st' \<and> ls_looks ?st1 \<le> ls_looks st' \<and> ls_completed ?st1 \<subseteq> ls_completed st'
          \<and> (ls_completed st' = ls_completed ?st1 \<union> fst ` set ds \<or> annul (ls_looks st') \<noteq> None)"
        using Cons.prems by (intro Cons.IH) (auto simp: wait_for_def)
      have "annul k \<noteq> None" if "ls_looks st \<le> k" for k using a Some that unfolding stays_cancelled_def by blast
      then show ?thesis using IH f d by (auto split: sum.splits)
    qed
  qed
qed simp

section \<open>The loop\<close>

lemma completed_all:
  assumes "settled exec g init st" and "graph_inv g"
  shows "card (ls_completed st) = length (g_nodes g) \<longleftrightarrow> ls_completed st = set (names_of g)"
proof -
  have "card (set (names_of g)) = length (g_nodes g)"
    using assms(2) distinct_card [of "names_of g"] by (simp add: graph_inv_def names_of_def)
  moreover have "ls_completed st \<subseteq> set (names_of g)" using level_invD(2) [OF assms(1) [unfolded settled_def]] .
  ultimately show ?thesis by (metis List.finite_set card_subset_eq)
qed

lemma cancel_remaining_looks [simp]: "ls_looks (cancel_remaining order c st) = ls_looks st"
proof -
  have "ls_looks (foldl (\<lambda>s n. emit (NodeCancelled n c) s) st ns) = ls_looks st" for ns
    by (induction ns arbitrary: st) (simp_all add: emit_def)
  then show ?thesis by (simp add: cancel_remaining_def)
qed

lemma round_cancelled:
  assumes "stays_cancelled annul" and "annul (ls_looks st) = Some c"
  shows "\<exists>st'. level_round exec annul g order i st = Ok (Leave st') \<and> annul (ls_looks st') \<noteq> None"
proof -
  have "annul (Suc (ls_looks st)) \<noteq> None" using assms unfolding stays_cancelled_def by (metis le_SucI option.distinct(1) order_refl)
  then show ?thesis using assms(2) by (simp add: level_round_def look_def)
qed

definition whole :: "(nat \<Rightarrow> string \<Rightarrow> (string \<rightharpoonup> 'a port_value) \<Rightarrow> 'a executed) \<Rightarrow> 'a flow_graph \<Rightarrow> (string \<rightharpoonup> (string \<rightharpoonup> 'a port_value)) \<Rightarrow> 'a level_state \<Rightarrow> bool" where
  "whole exec g init st \<longleftrightarrow> settled exec g init st \<and> ls_completed st = set (names_of g)"

lemma round_post:
  assumes st: "settled exec g init st" and g: "graph_inv g" and order: "topo_order (names_of g) (flow_links g) order"
    and given: "inputs_given g init" and a: "stays_cancelled annul"
  shows "case level_round exec annul g order i st of
      Inl (st', err) \<Rightarrow> node_fault exec g err
    | Inr (Leave st') \<Rightarrow> whole exec g init st' \<or> annul (ls_looks st') \<noteq> None
    | Inr (Next st') \<Rightarrow> settled exec g init st' \<and> card (ls_completed st) < card (ls_completed st') \<or> annul (ls_looks st') \<noteq> None"
proof (cases "annul (ls_looks st)")
  case (Some c)
  then obtain st' where "level_round exec annul g order i st = Ok (Leave st')" "annul (ls_looks st') \<noteq> None"
    using round_cancelled [OF a Some] by blast
  then show ?thesis by simp
next
  case None
  define st1 where "st1 = skip_until_fixpoint g order (st\<lparr>ls_looks := Suc (ls_looks st)\<rparr>)"
  have "level_invariant.settled_in (level_inv exec g init) (st\<lparr>ls_looks := Suc (ls_looks st)\<rparr>)" using st by (simp add: settled_in settled_def)
  from run.level_prepared [OF this g order given st1_def] obtain ready where rn: "ready_nodes g order st1 = Some ready"
    and s1: "settled exec g init st1" and le: "ls_completed st \<subseteq> ls_completed st1" and all: "ready = [] \<Longrightarrow> ls_completed st1 = set (names_of g)"
    and prep: "ready \<noteq> [] \<Longrightarrow> \<exists>st2 prepared. thread (prepare_node g) st1 ready = Ok (st2, prepared) \<and> map fst prepared = ready
       \<and> level_inv exec g init (ls_completed st1 \<union> set ready) st2 \<and> ls_completed st2 = ls_completed st1 \<and> distinct ready
       \<and> set ready \<inter> ls_completed st1 = {} \<and> (\<forall>d \<in> set prepared. snd d = node_inputs g init (produced (ls_events st2)) (fst d))"
    by (auto simp: settled_in)
  have round: "level_round exec annul g order i st =
      (if ready = [] then
         (if card (ls_completed st1) = length (g_nodes g) then Ok (Leave st1)
          else Err (emit (RunFailed (LevelDeadlock (filter (\<lambda>n. n \<notin> ls_completed st1) order))) st1,
                 LevelDeadlock (filter (\<lambda>n. n \<notin> ls_completed st1) order)))
       else
       try_then (map_err (Pair st1) (thread (prepare_node g) st1 ready)) (\<lambda>(st2, prepared).
       let done = map (\<lambda>(n, ins). (n, exec i n ins)) prepared
       in if list_ex (\<lambda>d. ex_panicked (snd d)) done then Err (st2, NodePanicked) else
       try_then (fold_try (finish_node annul g) st2 done) (\<lambda>st3.
       Ok (if card (ls_completed st3) = length (g_nodes g) then Leave st3 else Next st3))))"
    using None rn by (simp add: level_round_def look_def st1_def [symmetric] Let_def)
  show ?thesis
  proof (cases "ready = []")
    case True
    then show ?thesis using s1 all completed_all [OF s1 g] by (simp add: round whole_def)
  next
    case False
    from prep [OF this] obtain st2 prepared where
      p: "thread (prepare_node g) st1 ready = Ok (st2, prepared)" "map fst prepared = ready"
      and i2: "level_inv exec g init (ls_completed st1 \<union> set ready) st2" and c2: "ls_completed st2 = ls_completed st1"
      and n: "distinct ready" "set ready \<inter> ls_completed st1 = {}"
      and w: "\<forall>d \<in> set prepared. wait_for g init st2 d" by (auto simp: wait_for_def)
    have ps: "fst ` set prepared = set ready" using p(2) by (metis list.set_map)
    let ?done = "map (\<lambda>(n, ins). (n, exec i n ins)) prepared"
    have f: "case fold_try (finish_node annul g) st2 (map (\<lambda>(n, ins). (n, exec i n ins)) prepared) of
        Inl (st', err) \<Rightarrow> node_fault exec g err
      | Inr st' \<Rightarrow> level_inv exec g init (ls_completed st1 \<union> set ready) st' \<and> ls_looks st2 \<le> ls_looks st' \<and> ls_completed st2 \<subseteq> ls_completed st'
          \<and> (ls_completed st' = ls_completed st2 \<union> fst ` set prepared \<or> annul (ls_looks st') \<noteq> None)"
      using i2 w n by (intro finish_level [OF _ _ _ _ a]) (auto simp: p(2) ps c2 simp flip: ps)
    consider (panic) "list_ex (\<lambda>d. ex_panicked (snd d)) ?done"
      | (error) x where "\<not> list_ex (\<lambda>d. ex_panicked (snd d)) ?done" "fold_try (finish_node annul g) st2 ?done = Inl x"
      | (ended) st3 where "\<not> list_ex (\<lambda>d. ex_panicked (snd d)) ?done" "fold_try (finish_node annul g) st2 ?done = Inr st3"
      by (cases "fold_try (finish_node annul g) st2 ?done") auto
    then show ?thesis
    proof cases
      case panic
      then obtain n ins where d: "(n, ins) \<in> set prepared" "ex_panicked (exec i n ins)" by (auto simp: list_ex_iff)
      then have "n \<in> set (names_of g)" using ps level_invD(2) [OF i2] by force
      then have "node_fault exec g NodePanicked" using d(2) unfolding node_fault_def by blast
      then show ?thesis using panic False p by (simp add: round)
    next
      case (error x)
      then show ?thesis using f False p by (simp add: round Let_def split: prod.splits)
    next
      case (ended st3)
      note Inr = ended(2) and ok = ended(1)
      consider "annul (ls_looks st3) \<noteq> None" | "ls_completed st3 = ls_completed st1 \<union> set ready" "settled exec g init st3"
        using f by (auto simp: Inr c2 ps settled_def)
      then show ?thesis
      proof cases
        case 1
        then show ?thesis using Inr ok False p by (auto simp: round Let_def)
      next
        case 2
        have "ls_completed st3 \<subseteq> set (names_of g)" using level_invD(2) [OF 2(2) [unfolded settled_def]] .
        then have "finite (ls_completed st3)" by (rule finite_subset) simp
        moreover have "ls_completed st \<subset> ls_completed st3" using 2(1) le n False by (cases ready) auto
        ultimately have "card (ls_completed st) < card (ls_completed st3)" by (rule psubset_card_mono)
        then show ?thesis using Inr ok False p 2 completed_all [OF 2(2) g] by (auto simp: round whole_def Let_def)
      qed
    qed
  qed
qed

lemma loop_post:
  assumes "settled exec g init st \<or> annul (ls_looks st) \<noteq> None" and g: "graph_inv g" and order: "topo_order (names_of g) (flow_links g) order"
    and given: "inputs_given g init" and a: "stays_cancelled annul"
  shows "case level_loop exec annul g order i k st of
      Inl (st', err) \<Rightarrow> node_fault exec g err
    | Inr st' \<Rightarrow> whole exec g init st' \<or> annul (ls_looks st') \<noteq> None
        \<or> settled exec g init st' \<and> card (ls_completed st) + k \<le> card (ls_completed st')"
  using assms(1)
proof (induction k arbitrary: i st)
  case (Suc k)
  show ?case
  proof (cases "annul (ls_looks st)")
    case (Some c)
    then obtain st' where "level_round exec annul g order i st = Ok (Leave st')" "annul (ls_looks st') \<noteq> None"
      using round_cancelled [OF a Some] by blast
    then show ?thesis by simp
  next
    case None
    then have s: "settled exec g init st" using Suc.prems by simp
    note r = round_post [OF s g order given a, of i]
    show ?thesis
    proof (cases "level_round exec annul g order i st")
      case (Inl x)
      then show ?thesis using r by (simp split: prod.splits)
    next
      case (Inr y)
      show ?thesis
      proof (cases y)
        case (Leave st1)
        then show ?thesis using r Inr by auto
      next
        case (Next st1)
        then have "settled exec g init st1 \<and> card (ls_completed st) < card (ls_completed st1) \<or> annul (ls_looks st1) \<noteq> None" using r Inr by simp
        note c = this
        have IH: "case level_loop exec annul g order (Suc i) k st1 of
            Inl (st', err) \<Rightarrow> node_fault exec g err
          | Inr st' \<Rightarrow> whole exec g init st' \<or> annul (ls_looks st') \<noteq> None
              \<or> settled exec g init st' \<and> card (ls_completed st1) + k \<le> card (ls_completed st')"
          using c by (intro Suc.IH) auto
        have l: "level_loop exec annul g order i (Suc k) st = level_loop exec annul g order (Suc i) k st1" using Inr Next by simp
        show ?thesis
        proof (cases "annul (ls_looks st1)")
          case (Some x)
          then have "annul (ls_looks st') \<noteq> None" if "level_loop exec annul g order (Suc i) k st1 = Inr st'" for st'
          proof (cases k)
            case 0
            then show ?thesis using that Some by simp
          next
            case (Suc j)
            then show ?thesis using that round_cancelled [OF a Some, of exec g order "Suc i"] by auto
          qed
          then show ?thesis using IH unfolding l by (auto split: sum.splits)
        next
          case None
          then show ?thesis using IH c unfolding l by (auto split: sum.splits)
        qed
      qed
    qed
  qed
qed auto

section \<open>A whole run\<close>

lemma validated_inputs:
  assumes "graph_validate g = Ok ()" and "g_initial_streams g = []"
  shows "inputs_given g (g_initial_inputs g)"
  unfolding inputs_given_def
proof (intro ballI impI)
  fix m i assume m: "m \<in> set (g_nodes g)" and i: "i \<in> set (fn_inputs m)"
    and r: "pd_required i \<and> edges_at g (fn_name m) (pd_name i) = []"
  have "unconnected g [] = []" using assms(1) by (auto simp: graph_validate_def validate_with_def split: if_splits)
  then have "input_connected g [] (fn_name m) (pd_name i)" using m i r by (fastforce simp: unconnected_def filter_empty_conv)
  then show "\<exists>ports v. g_initial_inputs g (fn_name m) = Some ports \<and> ports (pd_name i) = Some v"
    using r assms(2) by (auto simp: input_connected_def list_ex_iff edges_at_def filter_empty_conv split: option.splits)
qed

lemma stream_ports_no_panic: "flow_wf g \<Longrightarrow> stream_ports_of g = Inl e \<Longrightarrow> \<not> graph_panics e"
  using validate_streams_no_panic [of g e] resolved_kinds_no_panic [of g]
  by (auto simp: stream_ports_of_def stream_ports_of_with_def try_then_eq_Inl)

lemma execute_inner_cases:
  assumes "execute_inner force m exec annul g = r" and g: "graph_inv g"
  obtains (refused) e where "r = Err (LevelGraph e)" "\<not> graph_panics e" | (concurrent) "r = Ok ToConcurrent"
  | (levels) order where "topo_order (names_of g) (flow_links g) order" "inputs_given g (g_initial_inputs g)"
      "r = (case execute_levels m exec annul g order (g_initial_inputs g) of Inl (_, e) \<Rightarrow> Err e | Inr (st, out) \<Rightarrow> Ok (ByLevels st out))"
proof -
  note wf = graph_inv_wf [OF g]
  show ?thesis
  proof (cases "graph_validate g")
    case (Inl e)
    then show ?thesis using assms(1) refused [of e] graph_validate_no_panic [OF wf Inl] by (simp add: execute_inner_def)
  next
    case (Inr u)
    note v = this
    show ?thesis
    proof (cases "topological_sort g")
      case (Inl e)
      then show ?thesis using assms(1) v refused [of e] topological_sort_no_panic [OF wf Inl] by (simp add: execute_inner_def)
    next
      case (Inr order)
      note o = this
      have topo: "topo_order (names_of g) (flow_links g) order" using flow_sorter.sound [OF wf Inr] .
      show ?thesis
      proof (cases "stream_ports_of g")
        case (Inl e)
        then show ?thesis using assms(1) v o refused [of e] stream_ports_no_panic [OF wf Inl] by (simp add: execute_inner_def)
      next
        case (Inr sp)
        note sp = this
        show ?thesis
        proof (cases "if force then Ok True else map_err LevelGraph (has_streams g)")
          case (Inl e)
          then obtain f where f: "has_streams g = Err f" "e = LevelGraph f" by (auto simp: map_err_Inl split: if_splits)
          then show ?thesis using assms(1) v o sp Inl refused [of f] has_streams_no_panic [OF wf f(1)] by (simp add: execute_inner_def)
        next
          case (Inr streams)
          show ?thesis
          proof (cases "streams \<or> g_initial_streams g \<noteq> []")
            case True
            then have "r = Ok ToConcurrent" using assms(1) v o sp Inr by (simp add: execute_inner_def)
            then show ?thesis using concurrent by blast
          next
            case False
            then have "inputs_given g (g_initial_inputs g)" using validated_inputs [of g] v by simp
            moreover have "r = (case execute_levels m exec annul g order (g_initial_inputs g) of Inl (_, e) \<Rightarrow> Err e | Inr (st, out) \<Rightarrow> Ok (ByLevels st out))"
              using assms(1) v o sp Inr False by (simp add: execute_inner_def merge_initial_streams_def)
            ultimately show ?thesis using levels topo by blast
          qed
        qed
      qed
    qed
  qed
qed

lemma level_inv_emit:
  "outcomes [ev] = [] \<Longrightarrow> (\<And>n ins. ev \<noteq> NodeStarted n ins) \<Longrightarrow>
     level_inv exec g init T st \<Longrightarrow> level_inv exec g init T (st\<lparr>ls_events := ls_events st @ [ev]\<rparr>)"
proof -
  assume ev: "outcomes [ev] = []" "\<And>n ins. ev \<noteq> NodeStarted n ins" and inv: "level_inv exec g init T st"
  have c: "ev \<noteq> NodeCompleted n o'" for n o' using ev(1) by (cases ev) auto
  have r: "ran_nodes (ls_events st @ [ev]) = ran_nodes (ls_events st)" by (simp add: ran_nodes_def ev)
  have s: "store_ok V C pr U (st\<lparr>ls_events := x\<rparr>) = store_ok V C pr U st" for V C pr U x by (simp add: store_ok_def)
  note d = level_invD [OF inv]
  show ?thesis using d(1,2,3,4,5,6,7,8,9,12) ev
    by (intro level_invI) (auto simp: produced_other r s c [THEN not_sym] ev(2) [THEN not_sym] dest: d(10,11))
qed

lemma whole_end: "whole exec g init st \<Longrightarrow> whole exec g init (st\<lparr>ls_events := ls_events st @ [RunCompleted x], ls_looks := y\<rparr>)"
  using level_inv_emit [of "RunCompleted x" exec g init "ls_completed st" st] by (auto simp: whole_def settled_def)

lemma execute_levels_post:
  assumes g: "graph_inv g" and order: "topo_order (names_of g) (flow_links g) order"
    and given: "inputs_given g init" and a: "stays_cancelled annul"
  shows "case execute_levels k exec annul g order init of
      Inl (st, err) \<Rightarrow> node_fault exec g err \<or> (k < length (g_nodes g) \<and> (\<exists>c n. err = MaxIterations k c n))
    | Inr (st, out) \<Rightarrow> fo_stopped out = None \<longrightarrow> whole exec g init st \<and> fo_data out = ls_port_data st \<and> fo_skipped out = ls_skipped st"
proof -
  note start = level_inv_start [of exec g init]
  have none: "ls_completed (level_start g init) = {}" by (simp add: level_start_def)
  have se: "settled exec g init (level_start g init)" using start by (simp add: settled_def none)
  have l: "case level_loop exec annul g order 0 k (level_start g init) of
      Inl (st', err) \<Rightarrow> node_fault exec g err
    | Inr st' \<Rightarrow> whole exec g init st' \<or> annul (ls_looks st') \<noteq> None \<or> settled exec g init st' \<and> k \<le> card (ls_completed st')"
    using loop_post [OF disjI1 [OF se] g order given a, where i = 0 and k = k] by (auto simp: none split: sum.splits)
  show ?thesis
  proof (cases "level_loop exec annul g order 0 k (level_start g init)")
    case (Inl x)
    then show ?thesis using l by (simp add: execute_levels_def split: prod.splits)
  next
    case (Inr st)
    let ?complete = "card (ls_completed st) = length (g_nodes g)"
    consider "whole exec g init st" | "annul (ls_looks st) \<noteq> None" | "settled exec g init st" "k \<le> card (ls_completed st)"
      using l Inr by auto
    then show ?thesis
    proof cases
      case 1
      then have "?complete" using completed_all [of exec g init st] g by (auto simp: whole_def)
      then show ?thesis using Inr whole_end [OF 1] by (simp add: execute_levels_def look_def emit_def Let_def)
    next
      case 2
      then obtain c where "annul (ls_looks st) = Some c" by blast
      then have "annul (ls_looks st) \<noteq> None" "annul (Suc (ls_looks st)) \<noteq> None"
        using a unfolding stays_cancelled_def by (metis le_SucI option.distinct(1) order_refl)+
      then show ?thesis using Inr by (auto simp: execute_levels_def look_def emit_def Let_def)
    next
      case 3
      show ?thesis
      proof (cases ?complete)
        case True
        then have "whole exec g init st" using 3(1) completed_all [OF 3(1) g] by (simp add: whole_def)
        from whole_end [OF this] show ?thesis using Inr True by (simp add: execute_levels_def look_def emit_def Let_def)
      next
        case False
        have "card (ls_completed st) \<le> length (g_nodes g)"
          using card_mono [OF _ level_invD(2) [OF 3(1) [unfolded settled_def]]] card_length [of "names_of g"] by (simp add: names_of_def)
        then have k: "k < length (g_nodes g)" using False 3(2) by simp
        show ?thesis
        proof (cases "annul (ls_looks st)")
          case None
          then show ?thesis using Inr False k by (simp add: execute_levels_def look_def emit_def Let_def)
        next
          case (Some c)
          then have "annul (Suc (ls_looks st)) \<noteq> None"
            using a unfolding stays_cancelled_def by (metis le_SucI option.distinct(1) order_refl)
          then show ?thesis using Inr False Some by (auto simp: execute_levels_def look_def emit_def Let_def)
        qed
      qed
    qed
  qed
qed

section \<open>What a run computes\<close>

text \<open>
  The equations of a graph: a node whose required inputs got something gives what it gives on its
  inputs, the others give nothing. \<open>nodes n ins\<close> is what the node \<open>n\<close> does.
\<close>

definition flow_solution ::
  "'a flow_graph \<Rightarrow> (string \<rightharpoonup> (string \<rightharpoonup> 'a port_value)) \<Rightarrow> (string \<Rightarrow> (string \<rightharpoonup> 'a port_value) \<Rightarrow> 'a executed)
     \<Rightarrow> (out_key \<rightharpoonup> 'a port_value) \<Rightarrow> bool" where
  "flow_solution g init nodes pr \<longleftrightarrow> (\<forall>n p. pr (n, p) =
     (if n \<in> set (names_of g) \<and> \<not> starved g init pr n
      then map_of (rev (ex_outputs (nodes n (node_inputs g init pr n)))) p else None))"

lemma flow_solution_unique:
  assumes pr: "flow_solution g init nodes pr" and qr: "flow_solution g init nodes qr"
    and order: "topo_order (names_of g) (flow_links g) order"
  shows "pr = qr"
proof -
  have agree: "\<forall>n \<in> set xs. \<forall>p. pr (n, p) = qr (n, p)" if "order = xs @ ys" for xs ys
    using that
  proof (induction xs arbitrary: ys rule: rev_induct)
    case (snoc n xs)
    have IH: "\<forall>m \<in> set xs. \<forall>p. pr (m, p) = qr (m, p)" using snoc.IH [of "n # ys"] snoc.prems by simp
    have "fed g (set xs) n"
      using order snoc.prems by (force simp: fed_def edges_to_def topo_order_def closed_order_def flow_links_def fe_link_def)
    from fed_stable [OF this, of pr qr init] IH have "node_inputs g init pr n = node_inputs g init qr n" "starved g init pr n = starved g init qr n"
      by auto
    then have "pr (n, p) = qr (n, p)" for p using pr qr by (simp add: flow_solution_def)
    then show ?case using IH by simp
  qed simp
  have "pr (n, p) = qr (n, p)" for n p
  proof (cases "n \<in> set (names_of g)")
    case True
    then show ?thesis using agree [of order "[]"] order by (auto simp: topo_order_def)
  next
    case False
    then show ?thesis using pr qr by (simp add: flow_solution_def)
  qed
  then show ?thesis by (simp add: fun_eq_iff)
qed

lemma flow_solution_prefix:
  assumes order: "topo_order (names_of g) (flow_links g) order" and "order = xs @ ys"
  shows "\<exists>pr. \<forall>n p. pr (n, p) = (if n \<in> set xs \<and> \<not> starved g init pr n
      then map_of (rev (ex_outputs (nodes n (node_inputs g init pr n)))) p else None)"
  using assms(2)
proof (induction xs arbitrary: ys rule: rev_induct)
  case (snoc n xs)
  then obtain pr where pr: "\<And>m p. pr (m, p) = (if m \<in> set xs \<and> \<not> starved g init pr m
      then map_of (rev (ex_outputs (nodes m (node_inputs g init pr m)))) p else None)"
    using snoc.IH [of "n # ys"] by auto
  have n: "n \<notin> set xs" using order snoc.prems by (auto simp: topo_order_def)
  have fed: "fed g (set xs) m" if m: "m \<in> set (xs @ [n])" for m
  proof -
    obtain as bs where s: "xs @ [n] = as @ m # bs" using split_list [OF m] by blast
    have "xs = as @ butlast (m # bs)" using arg_cong [OF s, of butlast] by (simp add: butlast_append)
    then have as: "set as \<subseteq> set xs" by (metis set_append sup_ge1)
    have o: "order = as @ m # (bs @ ys)" using snoc.prems s by (metis append.assoc append_Cons)
    have "fe_from_node e \<in> set as" if "e \<in> set (edges_to g m)" for e
      using order o that by (force simp: edges_to_def topo_order_def closed_order_def flow_links_def fe_link_def)
    then show ?thesis using as by (auto simp: fed_def)
  qed
  define pr' where "pr' = (\<lambda>k. if fst k = n then (if starved g init pr n then None
      else map_of (rev (ex_outputs (nodes n (node_inputs g init pr n)))) (snd k)) else pr k)"
  have old: "pr' k = pr k" if "fst k \<in> set xs" for k using that n by (auto simp: pr'_def)
  have same: "node_inputs g init pr' m = node_inputs g init pr m" "starved g init pr' m = starved g init pr m" if "m \<in> set (xs @ [n])" for m
    using fed_stable [OF fed [OF that], of pr' pr init, OF old] by simp_all
  have "pr' (m, p) = (if m \<in> set (xs @ [n]) \<and> \<not> starved g init pr' m
      then map_of (rev (ex_outputs (nodes m (node_inputs g init pr' m)))) p else None)" for m p
    using same [of m] pr [of m p] by (cases "m \<in> set (xs @ [n])") (auto simp: pr'_def)
  then show ?case by blast
qed (auto intro: exI [of _ Map.empty])

text \<open>The equations of a graph without cycle have a solution, whatever the nodes do.\<close>

lemma flow_solution_exists:
  assumes "topo_order (names_of g) (flow_links g) order"
  shows "\<exists>pr. flow_solution g init nodes pr"
  using flow_solution_prefix [OF assms, of order "[]" init nodes] assms by (auto simp: flow_solution_def topo_order_def)

lemma whole_solution:
  assumes w: "whole (\<lambda>_. nodes) g init st"
  shows "flow_solution g init nodes (produced (ls_events st))"
  unfolding flow_solution_def
proof (intro allI)
  fix n p
  let ?pr = "produced (ls_events st)"
  have inv: "level_inv (\<lambda>_. nodes) g init (ls_completed st) st" and all: "ls_completed st = set (names_of g)"
    using w by (auto simp: whole_def settled_def)
  note d = level_invD [OF inv]
  show "?pr (n, p) = (if n \<in> set (names_of g) \<and> \<not> starved g init ?pr n
      then map_of (rev (ex_outputs (nodes n (node_inputs g init ?pr n)))) p else None)"
  proof (cases "n \<in> ran_nodes (ls_events st)")
    case True
    then obtain outs where o: "(n, outs) \<in> set (outcomes (ls_events st))" by (auto simp: ran_nodes_def)
    then have "map_of (outcomes (ls_events st)) n = Some outs" using d(6) by simp
    then have "?pr (n, p) = map_of (rev outs) p" by (simp add: produced_def)
    moreover have "outs = ex_outputs (nodes n (node_inputs g init ?pr n))" using d(11) [of n outs] o by (auto simp: outcomes_in)
    moreover have "n \<in> ls_completed st" "n \<notin> dom (ls_skipped st)" using True d(4,5) by auto
    ultimately show ?thesis using d(12) [of n] all by auto
  next
    case False
    then have "?pr (n, p) = None" using produced_ran [of "(n, p)"] by simp
    moreover have "n \<notin> ls_completed st \<or> n \<in> dom (ls_skipped st)" using False d(4) by blast
    ultimately show ?thesis using d(12) [of n] all by auto
  qed
qed

lemma whole_output:
  assumes "whole exec g init st" and g: "graph_inv g"
  shows "ls_port_data st k = (if \<exists>e \<in> set (g_edges g). out_of e = k then None else produced (ls_events st) k)"
    and "n \<in> set (names_of g) \<Longrightarrow> n \<in> dom (ls_skipped st) \<longleftrightarrow> starved g init (produced (ls_events st)) n"
proof -
  have inv: "level_inv exec g init (ls_completed st) st" and all: "ls_completed st = set (names_of g)"
    using assms by (auto simp: whole_def settled_def)
  note d = level_invD [OF inv]
  have "unread g (ls_completed st) = []"
    using g by (auto simp: unread_def all graph_inv_def filter_empty_conv dest: edge_typed_ends)
  then show "ls_port_data st k = (if \<exists>e \<in> set (g_edges g). out_of e = k then None else produced (ls_events st) k)"
    using d(8) [unfolded store_ok_def, rule_format, of k] cnt_pos [of "g_edges g" k] by auto
  show "n \<in> set (names_of g) \<Longrightarrow> n \<in> dom (ls_skipped st) \<longleftrightarrow> starved g init (produced (ls_events st)) n"
    using d(12) [of n] all by auto
qed

text \<open>
  C5. A run by levels computes the graph: when it ends without having been stopped, the values its nodes
  posted are the one solution of the equations of the graph, the nodes reported as skipped are
  exactly those a required input of which got nothing, and the output holds exactly the values of
  the output ports no edge leaves.
\<close>

theorem level_run_computes:
  assumes "graph_inv g" and "stays_cancelled annul"
    and run: "execute_inner force m (\<lambda>_. nodes) annul g = Ok (ByLevels st out)" and "fo_stopped out = None"
  shows "flow_solution g (g_initial_inputs g) nodes (produced (ls_events st))
    \<and> (\<forall>pr. flow_solution g (g_initial_inputs g) nodes pr \<longrightarrow> pr = produced (ls_events st))
    \<and> (\<forall>n \<in> set (names_of g). fo_skipped out n \<noteq> None \<longleftrightarrow> starved g (g_initial_inputs g) (produced (ls_events st)) n)
    \<and> (\<forall>k. fo_data out k = (if \<exists>e \<in> set (g_edges g). out_of e = k then None else produced (ls_events st) k))"
  using refl [of "execute_inner force m (\<lambda>_. nodes) annul g"] assms(1)
proof (cases rule: execute_inner_cases)
  case (levels order)
  have e: "execute_levels m (\<lambda>_. nodes) annul g order (g_initial_inputs g) = Ok (st, out)"
    using levels(3) run by (cases "execute_levels m (\<lambda>_. nodes) annul g order (g_initial_inputs g)") auto
  have w: "whole (\<lambda>_. nodes) g (g_initial_inputs g) st" and o: "fo_data out = ls_port_data st" "fo_skipped out = ls_skipped st"
    using execute_levels_post [OF assms(1) levels(1,2) assms(2), where k = m and exec = "\<lambda>_. nodes"] assms(4) e by auto
  have s: "flow_solution g (g_initial_inputs g) nodes (produced (ls_events st))" by (rule whole_solution [OF w])
  have u: "pr = produced (ls_events st)" if "flow_solution g (g_initial_inputs g) nodes pr" for pr
    by (rule flow_solution_unique [OF that s levels(1)])
  have k: "fo_skipped out n \<noteq> None \<longleftrightarrow> starved g (g_initial_inputs g) (produced (ls_events st)) n" if "n \<in> set (names_of g)" for n
    using whole_output(2) [OF w assms(1) that] by (simp add: o domIff)
  have d: "fo_data out k = (if \<exists>e \<in> set (g_edges g). out_of e = k then None else produced (ls_events st) k)" for k
    using whole_output(1) [OF w assms(1), of k] by (simp add: o)
  show ?thesis by (intro conjI allI ballI impI s u k d)
qed (use run in simp_all)

text \<open>
  C6. On a graph that was built edge by edge, whatever the nodes do, a run that fails does so for one
  of four reasons: a check of the graph refused it before any node ran (and that refusal is no
  panic of the checks); a node of the graph gave the very error the run reports, misused a stream
  or left a required output out; a node of the graph panicked in its thread; or the iterations
  allowed are fewer than the nodes. It never reports a deadlock, and no \<open>unwrap\<close> and no counter
  of the runtime itself panics.
\<close>

theorem level_run_fails_for_nodes_only:
  assumes "graph_inv g" and "stays_cancelled annul" and run: "execute_inner force m exec annul g = Err err"
  shows "(\<exists>e. err = LevelGraph e \<and> \<not> graph_panics e)
    \<or> (\<exists>i n ins e. n \<in> set (names_of g) \<and> node_result g n (exec i n ins) = Err e \<and> err = LevelNode e)
    \<or> (\<exists>i n ins. n \<in> set (names_of g) \<and> ex_panicked (exec i n ins) \<and> err = NodePanicked)
    \<or> (m < length (g_nodes g) \<and> (\<exists>c n. err = MaxIterations m c n))"
  using refl [of "execute_inner force m exec annul g"] assms(1)
proof (cases rule: execute_inner_cases)
  case (levels order)
  obtain st where "execute_levels m exec annul g order (g_initial_inputs g) = Err (st, err)"
    using levels(3) run by (cases "execute_levels m exec annul g order (g_initial_inputs g)") auto
  then have "node_fault exec g err \<or> m < length (g_nodes g) \<and> (\<exists>c n. err = MaxIterations m c n)"
    using execute_levels_post [OF assms(1) levels(1,2) assms(2), where k = m and exec = exec] by auto
  then show ?thesis unfolding node_fault_def by blast
qed (use run in simp_all)

section \<open>Witnesses\<close>

definition level_demo :: "nat flow_graph" where
  "level_demo = \<lparr>g_nodes =
      [\<lparr>fn_name = ''a'', fn_inputs = [], fn_outputs = [port_value_def ''x'' PText True, port_value_def ''y'' PText False]\<rparr>,
       \<lparr>fn_name = ''b'', fn_inputs = [port_value_def ''p'' PText True], fn_outputs = [port_value_def ''z'' PText True]\<rparr>,
       \<lparr>fn_name = ''c'', fn_inputs = [port_value_def ''q'' PText True], fn_outputs = [port_value_def ''w'' PText True]\<rparr>],
     g_edges =
      [\<lparr>fe_from_node = ''a'', fe_from_port = ''x'', fe_to_node = ''b'', fe_to_port = ''p''\<rparr>,
       \<lparr>fe_from_node = ''a'', fe_from_port = ''y'', fe_to_node = ''c'', fe_to_port = ''q''\<rparr>],
     g_initial_inputs = Map.empty, g_initial_streams = []\<rparr>"

definition level_demo_nodes :: "string \<Rightarrow> (string \<rightharpoonup> nat port_value) \<Rightarrow> nat executed" where
  "level_demo_nodes n ins =
     \<lparr>ex_panicked = False, ex_result = Ok (), ex_misuse = [],
      ex_outputs = (if n = ''a'' then [(''x'', Trigger)] else [(''z'', case ins ''p'' of Some v \<Rightarrow> v | None \<Rightarrow> Trigger)])\<rparr>"

lemma level_demo_inv: "graph_inv level_demo"
  by (simp add: graph_inv_def level_demo_def names_of_def edge_typed_def find_output_port_def find_input_port_def find_node_def
      port_value_def_def compatible_with_def)

lemma level_demo_runs:
  "case execute_inner False 5 (\<lambda>_. level_demo_nodes) (\<lambda>_. None) level_demo of
     Inr (ByLevels st out) \<Rightarrow> fo_stopped out = None \<and> fo_skipped out ''c'' \<noteq> None \<and> fo_data out (''b'', ''z'') = Some Trigger
   | _ \<Rightarrow> False"
  by code_simp

theorem level_run_computes_witness:
  "\<exists>st out. execute_inner False 5 (\<lambda>_. level_demo_nodes) (\<lambda>_. None) level_demo = Ok (ByLevels st out)
     \<and> flow_solution level_demo Map.empty level_demo_nodes (produced (ls_events st))
     \<and> starved level_demo Map.empty (produced (ls_events st)) ''c'' \<and> produced (ls_events st) (''b'', ''z'') = Some Trigger"
proof -
  obtain st out where run: "execute_inner False 5 (\<lambda>_. level_demo_nodes) (\<lambda>_. None) level_demo = Ok (ByLevels st out)"
    and out: "fo_stopped out = None" "fo_skipped out ''c'' \<noteq> None" "fo_data out (''b'', ''z'') = Some Trigger"
    using level_demo_runs by (auto split: sum.splits dispatch.splits)
  have init: "g_initial_inputs level_demo = Map.empty" by (simp add: level_demo_def)
  have "stays_cancelled (\<lambda>_. None)" by (simp add: stays_cancelled_def)
  note c = level_run_computes [OF level_demo_inv this run out(1), unfolded init]
  have "''c'' \<in> set (names_of level_demo)" by (simp add: level_demo_def names_of_def)
  then show ?thesis using run c out(2,3) by (metis option.distinct(1))
qed

lemma level_demo_fails:
  "case execute_inner False 5 (\<lambda>_ _ _. \<lparr>ex_panicked = False, ex_result = Err ''boom'', ex_misuse = [], ex_outputs = []\<rparr>) (\<lambda>_. None) level_demo of
     Inl e \<Rightarrow> e = LevelNode (NodeError ''boom'') | Inr _ \<Rightarrow> False"
  by code_simp

theorem level_run_fails_for_nodes_only_witness:
  "\<exists>err. execute_inner False 5 (\<lambda>_ _ _. \<lparr>ex_panicked = False, ex_result = Err ''boom'', ex_misuse = [], ex_outputs = []\<rparr>) (\<lambda>_. None) level_demo = Err err
     \<and> err = LevelNode (NodeError ''boom'')
     \<and> (\<exists>n. n \<in> set (names_of level_demo)
          \<and> node_result level_demo n \<lparr>ex_panicked = False, ex_result = Err ''boom'', ex_misuse = [], ex_outputs = []\<rparr> = Err (NodeError ''boom''))"
proof -
  have run: "execute_inner False 5 (\<lambda>_ _ _. \<lparr>ex_panicked = False, ex_result = Err ''boom'', ex_misuse = [], ex_outputs = []\<rparr>) (\<lambda>_. None) level_demo
      = Err (LevelNode (NodeError ''boom''))"
    using level_demo_fails by (auto split: sum.splits)
  have "stays_cancelled (\<lambda>_. None)" by (simp add: stays_cancelled_def)
  from level_run_fails_for_nodes_only [OF level_demo_inv this run] run show ?thesis by auto
qed

end
