(* ===== verification/Flow_Checkpoint.thy ===== *)
theory Flow_Checkpoint
  imports Flow_Run
begin

text \<open>
  \<open>dataflow/runtime.rs\<close> with \<open>dataflow/checkpoint.rs\<close>: the run by levels that saves the outputs of every
  node that ends, and is resumed from what was saved. The store of checkpoints (a trait) and the
  encoding of the values (type-erased payloads) are arguments; the state behind the store is threaded
  through the calls. The store in memory of \<open>checkpoint_store.rs\<close> is an instance. The undo contexts, the
  clock and the messages of the log are left out; a graph with streams is handed over to the
  concurrent executor.
\<close>

section \<open>Checkpoints\<close>

datatype node_status = NodePending | NodeDone | NodeBroken

datatype run_status = RunRunning | RunDone | RunBroken

record 'c node_checkpoint =
  nc_status :: node_status
  nc_outputs :: "(string \<times> 'c) list"

record 'c run_checkpoint =
  rc_id :: string
  rc_status :: run_status
  rc_hash :: string
  rc_nodes :: "(string \<times> 'c node_checkpoint) list"
  rc_inputs :: "(string \<times> string \<times> 'c) list"

text \<open>The trait \<open>CheckpointStore\<close>, what a run calls of it.\<close>

record ('c, 'w) checkpoint_ops =
  cs_load :: "string \<Rightarrow> 'w \<Rightarrow> (string, 'c run_checkpoint option) result"
  cs_create :: "'c run_checkpoint \<Rightarrow> 'w \<Rightarrow> (string, unit) result \<times> 'w"
  cs_save_completed :: "string \<Rightarrow> string \<Rightarrow> (string \<times> 'c) list \<Rightarrow> 'w \<Rightarrow> (string, unit) result \<times> 'w"
  cs_save_failed :: "string \<Rightarrow> string \<Rightarrow> 'w \<Rightarrow> (string, unit) result \<times> 'w"
  cs_mark_completed :: "string \<Rightarrow> 'w \<Rightarrow> (string, unit) result \<times> 'w"
  cs_mark_failed :: "string \<Rightarrow> 'w \<Rightarrow> (string, unit) result \<times> 'w"

text \<open>What a run with checkpoints is given: the store, the encoding of values, the name of the
  execution, whether the state of the nodes is kept (the mode \<open>Full\<close>), and the node a test makes fail.\<close>

record ('a, 'c, 'w) checkpointing =
  ck_ops :: "('c, 'w) checkpoint_ops"
  ck_to :: "'a port_value \<Rightarrow> (string, 'c) result"
  ck_from :: "'c \<Rightarrow> (string, 'a port_value) result"
  ck_id :: string
  ck_keep :: bool
  ck_fail_node :: "string option"

datatype checkpoint_error =
    CheckpointRun level_error
  | CheckpointStore string
  | GraphChanged string string
  | InputUnreadable string string string

fun checkpoint_panics :: "checkpoint_error \<Rightarrow> bool" where
  "checkpoint_panics (CheckpointRun e) = run_panics e"
| "checkpoint_panics _ = False"

definition encode_ports :: "('a port_value \<Rightarrow> (string, 'c) result) \<Rightarrow> (string \<times> 'a port_value) list \<Rightarrow> (string, (string \<times> 'c) list) result" where
  "encode_ports enc = traverse (\<lambda>(p, v). try_then (enc v) (\<lambda>c. Ok (p, c)))"

definition decode_ports :: "('c \<Rightarrow> (string, 'a port_value) result) \<Rightarrow> (string \<times> 'c) list \<Rightarrow> (string, (string \<times> 'a port_value) list) result" where
  "decode_ports dec = traverse (\<lambda>(p, c). try_then (dec c) (\<lambda>v. Ok (p, v)))"

section \<open>Resuming\<close>

text \<open>A node that was saved: its outputs are put back, or it will be run again when they cannot be read.\<close>

definition inject_node :: "('c \<Rightarrow> (string, 'a port_value) result) \<Rightarrow> 'a level_state \<Rightarrow> string \<times> 'c node_checkpoint \<Rightarrow> 'a level_state" where
  "inject_node dec st nc =
     (if nc_status (snd nc) = NodeDone then
        (case decode_ports dec (nc_outputs (snd nc)) of
           Inl _ \<Rightarrow> st
         | Inr pvs \<Rightarrow>
             emit (CheckpointResumed (fst nc) (map fst (nc_outputs (snd nc))))
               (foldl (store_output (fst nc)) (st\<lparr>ls_completed := insert (fst nc) (ls_completed st)\<rparr>) pvs))
      else st)"

definition discount_edge :: "'a level_state \<Rightarrow> flow_edge \<Rightarrow> 'a level_state" where
  "discount_edge st e =
     (if fe_to_node e \<in> ls_completed st then
        (case ls_remaining st (out_of e) of
           Some c \<Rightarrow> st\<lparr>ls_remaining := (ls_remaining st)(out_of e \<mapsto> c - 1)\<rparr>
         | None \<Rightarrow> st)
      else st)"

definition resume_start ::
  "('c \<Rightarrow> (string, 'a port_value) result) \<Rightarrow> 'c run_checkpoint \<Rightarrow> 'a flow_graph \<Rightarrow> (string \<rightharpoonup> (string \<rightharpoonup> 'a port_value)) \<Rightarrow> 'a level_state" where
  "resume_start dec cp g init =
     foldl discount_edge (foldl (inject_node dec) (level_start g init) (rc_nodes cp)) (g_edges g)"

section \<open>A level with checkpoints\<close>

text \<open>Only the outputs that are still to be read are saved.\<close>

definition consumed :: "'a level_state \<Rightarrow> string \<Rightarrow> (string \<times> 'a port_value) list \<Rightarrow> (string \<times> 'a port_value) list" where
  "consumed st n outs = filter (\<lambda>(p, _). case ls_remaining st (n, p) of Some c \<Rightarrow> 0 < c | None \<Rightarrow> False) outs"

definition finish_saved ::
  "('a, 'c, 'w) checkpointing \<Rightarrow> (nat \<Rightarrow> cancel_cause option) \<Rightarrow> 'a flow_graph \<Rightarrow> 'a level_state \<times> 'w \<Rightarrow> string \<times> 'a executed
     \<Rightarrow> (('a level_state \<times> 'w) \<times> checkpoint_error, 'a level_state \<times> 'w) result" where
  "finish_saved K annul g sw d =
     (case sw of (st, w) \<Rightarrow> (case d of (n, ex) \<Rightarrow>
      (case node_result g n ex of
         Inr _ \<Rightarrow>
           (case encode_ports (ck_to K) (consumed st n (ex_outputs ex)) of
              Inl e \<Rightarrow> Err ((st, w), CheckpointStore e)
            | Inr outs \<Rightarrow>
                (case (if ck_keep K then cs_save_completed (ck_ops K) (ck_id K) n outs w else (Ok (), w)) of
                   (Inl e, w1) \<Rightarrow> Err ((st, w1), CheckpointStore e)
                 | (Inr _, w1) \<Rightarrow>
                     let st1 = foldl (store_output n) st (ex_outputs ex)
                     in Ok (emit (NodeCompleted n (ex_outputs ex)) (st1\<lparr>ls_completed := insert n (ls_completed st1)\<rparr>), w1)))
       | Inl e \<Rightarrow>
           (case look annul st of (cause, st1) \<Rightarrow>
            if cause \<noteq> None then Ok (st1, w)
            else Err ((emit (RunFailed (LevelNode e)) (emit (NodeFailed n e) st1), snd (cs_save_failed (ck_ops K) (ck_id K) n w)),
                      CheckpointRun (LevelNode e))))))"

definition injected_failure :: "string \<Rightarrow> 'a executed" where
  "injected_failure n =
     \<lparr>ex_panicked = False, ex_result = Err (''injected failure for node '' @ CHR 0x27 # n @ [CHR 0x27]), ex_misuse = [], ex_outputs = []\<rparr>"

definition level_results ::
  "string option \<Rightarrow> (string \<Rightarrow> (string \<rightharpoonup> 'a port_value) \<Rightarrow> 'a executed) \<Rightarrow> (string \<times> (string \<rightharpoonup> 'a port_value)) list \<Rightarrow> (string \<times> 'a executed) list" where
  "level_results fail exec prepared =
     map (\<lambda>(n, _). (n, injected_failure n)) (filter (\<lambda>(n, _). fail = Some n) prepared)
     @ map (\<lambda>(n, ins). (n, exec n ins)) (filter (\<lambda>(n, _). fail \<noteq> Some n) prepared)"

definition saved_round ::
  "('a, 'c, 'w) checkpointing \<Rightarrow> (nat \<Rightarrow> string \<Rightarrow> (string \<rightharpoonup> 'a port_value) \<Rightarrow> 'a executed) \<Rightarrow> (nat \<Rightarrow> cancel_cause option) \<Rightarrow> 'a flow_graph
     \<Rightarrow> string list \<Rightarrow> nat \<Rightarrow> 'a level_state \<times> 'w \<Rightarrow> (('a level_state \<times> 'w) \<times> checkpoint_error, 'a round_end \<times> 'w) result" where
  "saved_round K exec annul g order i sw =
     (case sw of (st, w) \<Rightarrow> (case look annul st of (cause, st0) \<Rightarrow>
      (case cause of
         Some c \<Rightarrow> Ok (Leave (cancel_remaining order c st0), w)
       | None \<Rightarrow>
           let st1 = skip_until_fixpoint g order st0
           in (case ready_nodes g order st1 of
                 None \<Rightarrow> Err ((st1, w), CheckpointRun LevelPanic)
               | Some ready \<Rightarrow>
                   if ready = [] then
                     (if card (ls_completed st1) = length (g_nodes g) then Ok (Leave st1, w)
                      else let err = LevelDeadlock (filter (\<lambda>n. n \<notin> ls_completed st1) order)
                           in Err ((emit (RunFailed err) st1, w), CheckpointRun err))
                   else
                   try_then (map_err (\<lambda>e. ((st1, w), CheckpointRun e)) (thread (prepare_node g) st1 ready)) (\<lambda>(st2, prepared).
                   let done = level_results (ck_fail_node K) (exec i) prepared
                   in if list_ex (\<lambda>d. ex_panicked (snd d)) done then Err ((st2, w), CheckpointRun NodePanicked) else
                   try_then (fold_try (finish_saved K annul g) (st2, w) done) (\<lambda>(st3, w3).
                   Ok (if card (ls_completed st3) = length (g_nodes g) then Leave st3 else Next st3, w3)))))))"

fun saved_loop ::
  "('a, 'c, 'w) checkpointing \<Rightarrow> (nat \<Rightarrow> string \<Rightarrow> (string \<rightharpoonup> 'a port_value) \<Rightarrow> 'a executed) \<Rightarrow> (nat \<Rightarrow> cancel_cause option) \<Rightarrow> 'a flow_graph
     \<Rightarrow> string list \<Rightarrow> nat \<Rightarrow> nat \<Rightarrow> 'a level_state \<times> 'w \<Rightarrow> (('a level_state \<times> 'w) \<times> checkpoint_error, 'a level_state \<times> 'w) result" where
  "saved_loop K exec annul g order i 0 sw = Ok sw"
| "saved_loop K exec annul g order i (Suc k) sw =
     try_then (saved_round K exec annul g order i sw) (\<lambda>(r, w1).
     case r of Leave st1 \<Rightarrow> Ok (st1, w1) | Next st1 \<Rightarrow> saved_loop K exec annul g order (Suc i) k (st1, w1))"

definition execute_saved ::
  "nat \<Rightarrow> ('a, 'c, 'w) checkpointing \<Rightarrow> (nat \<Rightarrow> string \<Rightarrow> (string \<rightharpoonup> 'a port_value) \<Rightarrow> 'a executed) \<Rightarrow> (nat \<Rightarrow> cancel_cause option) \<Rightarrow> 'a flow_graph
     \<Rightarrow> string list \<Rightarrow> 'c run_checkpoint \<Rightarrow> (string \<rightharpoonup> (string \<rightharpoonup> 'a port_value)) \<Rightarrow> 'w
     \<Rightarrow> (('a level_state \<times> 'w) \<times> checkpoint_error, ('a level_state \<times> 'a flow_output) \<times> 'w) result" where
  "execute_saved max_iterations K exec annul g order cp init w =
     try_then (saved_loop K exec annul g order 0 max_iterations (resume_start (ck_from K) cp g init, w)) (\<lambda>(st, w1).
     let complete = card (ls_completed st) = length (g_nodes g);
         (cause, st1) = (if complete then (None, st) else look annul st)
     in if \<not> complete \<and> cause = None
        then let err = MaxIterations max_iterations (card (ls_completed st)) (length (g_nodes g))
             in Err ((emit (RunFailed err) st1, w1), CheckpointRun err)
        else let st2 = emit (RunCompleted (card (ls_completed st1))) st1; (stopped, st3) = look annul st2
             in Ok ((st3, \<lparr>fo_data = ls_port_data st3, fo_skipped = ls_skipped st3, fo_stopped = stopped\<rparr>), w1))"

text \<open>The run, from the checkpoint; the state behind the store is given back in every case.\<close>

definition execute_inner_with_checkpoint ::
  "bool \<Rightarrow> nat \<Rightarrow> ('a, 'c, 'w) checkpointing \<Rightarrow> (nat \<Rightarrow> string \<Rightarrow> (string \<rightharpoonup> 'a port_value) \<Rightarrow> 'a executed) \<Rightarrow> (nat \<Rightarrow> cancel_cause option)
     \<Rightarrow> 'a flow_graph \<Rightarrow> 'c run_checkpoint \<Rightarrow> 'w \<Rightarrow> (checkpoint_error, 'a dispatch) result \<times> 'w" where
  "execute_inner_with_checkpoint force_concurrent max_iterations K exec annul g cp w =
     (case try_then (graph_validate g) (\<lambda>_.
           try_then (topological_sort g) (\<lambda>order.
           try_then (stream_ports_of g) (\<lambda>_.
           try_then (if force_concurrent then Ok True else has_streams g) (\<lambda>streams.
           if streams \<or> g_initial_streams g \<noteq> [] then Ok None
           else try_then (snd (merge_initial_streams g (g_initial_inputs g))) (\<lambda>init. Ok (Some (order, init))))))) of
        Inl e \<Rightarrow> (Err (CheckpointRun (LevelGraph e)), w)
      | Inr None \<Rightarrow> (Ok ToConcurrent, w)
      | Inr (Some (order, init)) \<Rightarrow>
          (case execute_saved max_iterations K exec annul g order cp init w of
             Inl ((_, w1), e) \<Rightarrow> (Err e, w1)
           | Inr ((st, out), w1) \<Rightarrow> (Ok (ByLevels st out), w1)))"

section \<open>An execution\<close>

text \<open>The initial inputs of a graph, listed in the order they are visited.\<close>

definition initial_map :: "(string \<times> string \<times> 'v) list \<Rightarrow> string \<rightharpoonup> (string \<rightharpoonup> 'v)" where
  "initial_map ins =
     foldl (\<lambda>m (n, p, v). m(n \<mapsto> (case m n of Some ports \<Rightarrow> ports | None \<Rightarrow> Map.empty)(p \<mapsto> v))) Map.empty ins"

datatype 'a execution_end = AlreadyDone | Executed "'a dispatch"

definition start_checkpoint :: "string \<Rightarrow> string \<Rightarrow> 'a flow_graph \<Rightarrow> (string \<times> string \<times> 'c) list \<Rightarrow> 'c run_checkpoint" where
  "start_checkpoint exec_id hash g inputs =
     \<lparr>rc_id = exec_id, rc_status = RunRunning, rc_hash = hash,
      rc_nodes = map (\<lambda>n. (n, \<lparr>nc_status = NodePending, nc_outputs = []\<rparr>)) (names_of g), rc_inputs = inputs\<rparr>"

text \<open>The end of an execution is marked in the store; what a run gives when it is stopped is a result
  like any other, and a panic marks nothing. What is handed over to the concurrent executor is marked by how that one ends.\<close>

definition close_execution ::
  "('c, 'w) checkpoint_ops \<Rightarrow> string \<Rightarrow> (checkpoint_error, 'a dispatch) result \<times> 'w
     \<Rightarrow> (checkpoint_error, 'a execution_end) result \<times> 'w" where
  "close_execution ops exec_id rw =
     (case rw of
        (Inr ToConcurrent, w) \<Rightarrow> (Ok (Executed ToConcurrent), w)
      | (Inr (ByLevels st out), w) \<Rightarrow>
          (case cs_mark_completed ops exec_id w of
             (Inl e, w1) \<Rightarrow> (Err (CheckpointStore e), w1)
           | (Inr _, w1) \<Rightarrow> (Ok (Executed (ByLevels st out)), w1))
      | (Inl e, w) \<Rightarrow> if checkpoint_panics e then (Err e, w) else (Err e, snd (cs_mark_failed ops exec_id w)))"

text \<open>
  \<open>keys\<close> are the correlation keys of the recorded rows, \<open>from_with\<close> the reader that finds the ends of
  links by them, \<open>hash\<close> the hash of the structure of the graph.
\<close>

definition execute_with_checkpoint_mode ::
  "bool \<Rightarrow> nat \<Rightarrow> ('a, 'c, 'w) checkpointing \<Rightarrow> ('c \<Rightarrow> (string, 'k list) result) \<Rightarrow> ('k list \<Rightarrow> 'c \<Rightarrow> (string, 'a port_value) result)
     \<Rightarrow> ('a flow_graph \<Rightarrow> string) \<Rightarrow> (nat \<Rightarrow> string \<Rightarrow> (string \<rightharpoonup> 'a port_value) \<Rightarrow> 'a executed) \<Rightarrow> (nat \<Rightarrow> cancel_cause option)
     \<Rightarrow> 'a flow_graph \<Rightarrow> (string \<times> string \<times> 'a port_value) list \<Rightarrow> 'w \<Rightarrow> (checkpoint_error, 'a execution_end) result \<times> 'w" where
  "execute_with_checkpoint_mode force max_iterations K keys from_with hash exec annul g inputs w =
     (let run = (\<lambda>ins cp w. close_execution (ck_ops K) (ck_id K)
            (execute_inner_with_checkpoint force max_iterations K exec annul (g\<lparr>g_initial_inputs := initial_map ins\<rparr>) cp w))
      in case cs_load (ck_ops K) (ck_id K) w of
           Inl e \<Rightarrow> (Err (CheckpointStore e), w)
         | Inr (Some cp) \<Rightarrow>
             if rc_hash cp \<noteq> hash g then (Err (GraphChanged (rc_hash cp) (hash g)), w)
             else if rc_status cp = RunDone then (Ok AlreadyDone, w)
             else (case traverse (\<lambda>(_, _, c). keys c) (rc_inputs cp) of
                     Inl e \<Rightarrow> (Err (CheckpointStore e), w)
                   | Inr ks \<Rightarrow>
                       (case traverse (\<lambda>(n, p, c). map_err (InputUnreadable n p) (try_then (from_with (concat ks) c) (\<lambda>v. Ok (n, p, v)))) (rc_inputs cp) of
                          Inl e \<Rightarrow> (Err e, w)
                        | Inr restored \<Rightarrow> run (inputs @ restored) cp w))
         | Inr None \<Rightarrow>
             (case traverse (\<lambda>(n, p, v). try_then (ck_to K v) (\<lambda>c. Ok (n, p, c))) inputs of
                Inl e \<Rightarrow> (Err (CheckpointStore e), w)
              | Inr encoded \<Rightarrow>
                  let cp = start_checkpoint (ck_id K) (hash g) g encoded
                  in (case cs_create (ck_ops K) cp w of
                        (Inl e, w1) \<Rightarrow> (Err (CheckpointStore e), w1)
                      | (Inr _, w1) \<Rightarrow> run inputs cp w1)))"

section \<open>The store in memory\<close>

type_synonym 'c memory = "(string \<times> 'c run_checkpoint) list"

definition mem_with_node :: "string \<Rightarrow> string \<Rightarrow> ('c node_checkpoint \<Rightarrow> 'c node_checkpoint) \<Rightarrow> 'c memory \<Rightarrow> (string, unit) result \<times> 'c memory" where
  "mem_with_node x n f m =
     (case map_of m x of
        None \<Rightarrow> (Err ''execution not found'', m)
      | Some cp \<Rightarrow>
          (case map_of (rc_nodes cp) n of
             None \<Rightarrow> (Err ''node not found'', m)
           | Some nc \<Rightarrow> (Ok (), hm_insert x (cp\<lparr>rc_nodes := hm_insert n (f nc) (rc_nodes cp)\<rparr>) m)))"

definition mem_with_run :: "string \<Rightarrow> ('c run_checkpoint \<Rightarrow> 'c run_checkpoint) \<Rightarrow> 'c memory \<Rightarrow> (string, unit) result \<times> 'c memory" where
  "mem_with_run x f m =
     (case map_of m x of None \<Rightarrow> (Err ''execution not found'', m) | Some cp \<Rightarrow> (Ok (), hm_insert x (f cp) m))"

definition mem_load :: "string \<Rightarrow> 'c memory \<Rightarrow> (string, 'c run_checkpoint option) result" where
  "mem_load x m = Ok (map_of m x)"

definition mem_create :: "'c run_checkpoint \<Rightarrow> 'c memory \<Rightarrow> (string, unit) result \<times> 'c memory" where
  "mem_create cp m = (Ok (), hm_insert (rc_id cp) cp m)"

definition mem_save_completed :: "string \<Rightarrow> string \<Rightarrow> (string \<times> 'c) list \<Rightarrow> 'c memory \<Rightarrow> (string, unit) result \<times> 'c memory" where
  "mem_save_completed x n outs m = mem_with_node x n (\<lambda>nc. nc\<lparr>nc_status := NodeDone, nc_outputs := outs\<rparr>) m"

definition mem_save_failed :: "string \<Rightarrow> string \<Rightarrow> 'c memory \<Rightarrow> (string, unit) result \<times> 'c memory" where
  "mem_save_failed x n m = mem_with_node x n (\<lambda>nc. nc\<lparr>nc_status := NodeBroken\<rparr>) m"

definition mem_mark_completed :: "string \<Rightarrow> 'c memory \<Rightarrow> (string, unit) result \<times> 'c memory" where
  "mem_mark_completed x m =
     mem_with_run x (\<lambda>cp. cp\<lparr>rc_status := RunDone, rc_nodes := map (\<lambda>(n, nc). (n, nc\<lparr>nc_outputs := []\<rparr>)) (rc_nodes cp)\<rparr>) m"

definition mem_mark_failed :: "string \<Rightarrow> 'c memory \<Rightarrow> (string, unit) result \<times> 'c memory" where
  "mem_mark_failed x m = mem_with_run x (\<lambda>cp. cp\<lparr>rc_status := RunBroken\<rparr>) m"

definition memory_store :: "('c, 'c memory) checkpoint_ops" where
  "memory_store =
     \<lparr>cs_load = mem_load, cs_create = mem_create, cs_save_completed = mem_save_completed, cs_save_failed = mem_save_failed,
      cs_mark_completed = mem_mark_completed, cs_mark_failed = mem_mark_failed\<rparr>"

end
