(* ===== verification/Flow_Resume.thy ===== *)
theory Flow_Resume
  imports Flow_Checkpoint
begin

text \<open>
  What a resumed run of \<open>Flow_Checkpoint\<close> computes. A checkpoint is faithful to a solution of the
  equations of the graph when what it saved is read back as the solution has it. The nodes it restores
  are not run again, the others are run on their inputs in the solution, and whatever an attempt saves
  before it fails leaves the checkpoint faithful: an execution that is resumed until it ends computes
  the solution.
\<close>

section \<open>Checkpoints that tell the truth\<close>

definition saved_outputs :: "'c run_checkpoint \<Rightarrow> string \<rightharpoonup> (string \<times> 'c) list" where
  "saved_outputs cp n =
     Option.bind (map_of (rc_nodes cp) n) (\<lambda>nc. if nc_status nc = NodeDone then Some (nc_outputs nc) else None)"

definition restored_outputs :: "('c \<Rightarrow> (string, 'a port_value) result) \<Rightarrow> 'c run_checkpoint \<Rightarrow> string \<rightharpoonup> (string \<times> 'a port_value) list" where
  "restored_outputs dec cp n =
     Option.bind (saved_outputs cp n) (\<lambda>outs. case decode_ports dec outs of Inr pvs \<Rightarrow> Some pvs | Inl _ \<Rightarrow> None)"

text \<open>The nodes a checkpoint restores, and the values it puts back.\<close>

definition restored_nodes :: "('c \<Rightarrow> (string, 'a port_value) result) \<Rightarrow> 'c run_checkpoint \<Rightarrow> string set" where
  "restored_nodes dec cp = dom (restored_outputs dec cp)"

definition restored_values :: "('c \<Rightarrow> (string, 'a port_value) result) \<Rightarrow> 'c run_checkpoint \<Rightarrow> out_key \<rightharpoonup> 'a port_value" where
  "restored_values dec cp k = Option.bind (restored_outputs dec cp (fst k)) (\<lambda>pvs. map_of (rev pvs) (snd k))"

text \<open>
  What is put back is what the solution has, and everything that a node not in \<open>R\<close> reads is.
\<close>

definition tells ::
  "('c \<Rightarrow> (string, 'a port_value) result) \<Rightarrow> 'a flow_graph \<Rightarrow> (string \<rightharpoonup> (string \<rightharpoonup> 'a port_value)) \<Rightarrow> (out_key \<rightharpoonup> 'a port_value) \<Rightarrow> string set
     \<Rightarrow> 'c run_checkpoint \<Rightarrow> bool" where
  "tells dec g init pr R cp \<longleftrightarrow>
     distinct (map fst (rc_nodes cp)) \<and> R \<subseteq> restored_nodes dec cp
     \<and> (\<forall>n \<in> restored_nodes dec cp. n \<in> set (names_of g) \<and> \<not> starved g init pr n
          \<and> (\<forall>p. (restored_values dec cp (n, p) = None \<or> restored_values dec cp (n, p) = pr (n, p))
               \<and> (0 < cnt (unread g R) (n, p) \<longrightarrow> restored_values dec cp (n, p) = pr (n, p))))"

definition faithful ::
  "('c \<Rightarrow> (string, 'a port_value) result) \<Rightarrow> 'a flow_graph \<Rightarrow> (string \<rightharpoonup> (string \<rightharpoonup> 'a port_value)) \<Rightarrow> (out_key \<rightharpoonup> 'a port_value)
     \<Rightarrow> 'c run_checkpoint \<Rightarrow> bool" where
  "faithful dec g init pr cp \<longleftrightarrow> tells dec g init pr (restored_nodes dec cp) cp"

lemma cnt_unread_mono: "R \<subseteq> S \<Longrightarrow> cnt (unread g S) k \<le> cnt (unread g R) k"
proof -
  assume "R \<subseteq> S"
  then have "cnt (filter (\<lambda>e. fe_to_node e \<notin> S) es) k \<le> cnt (filter (\<lambda>e. fe_to_node e \<notin> R) es) k" for es
    by (induction es) (auto simp: le_Suc_eq)
  then show ?thesis by (simp add: unread_def)
qed

lemma tells_faithful: "tells dec g init pr R cp \<Longrightarrow> faithful dec g init pr cp"
  unfolding tells_def faithful_def using cnt_unread_mono [of R "restored_nodes dec cp" g]
  by (meson less_le_trans order_refl)

section \<open>The start of a resumed run\<close>

definition read_node :: "('c \<Rightarrow> (string, 'a port_value) result) \<Rightarrow> 'c node_checkpoint \<Rightarrow> (string \<times> 'a port_value) list option" where
  "read_node dec nc =
     (if nc_status nc = NodeDone then (case decode_ports dec (nc_outputs nc) of Inr pvs \<Rightarrow> Some pvs | Inl _ \<Rightarrow> None) else None)"

lemma restored_outputs_read: "restored_outputs dec cp n = Option.bind (map_of (rc_nodes cp) n) (read_node dec)"
  by (cases "map_of (rc_nodes cp) n") (auto simp: restored_outputs_def saved_outputs_def read_node_def)

lemma inject_node_read:
  "inject_node dec st (n, nc) = (case read_node dec nc of
     None \<Rightarrow> st
   | Some pvs \<Rightarrow> emit (CheckpointResumed n (map fst (nc_outputs nc)))
       (foldl (store_output n) (st\<lparr>ls_completed := insert n (ls_completed st)\<rparr>) pvs))"
  by (auto simp: inject_node_def read_node_def split: sum.splits)

lemma injected_rest:
  "ls_remaining (foldl (inject_node dec) st ncs) = ls_remaining st"
  "ls_initial (foldl (inject_node dec) st ncs) = ls_initial st"
  "ls_skipped (foldl (inject_node dec) st ncs) = ls_skipped st"
  "ls_looks (foldl (inject_node dec) st ncs) = ls_looks st"
  "ls_completed (foldl (inject_node dec) st ncs) = ls_completed st \<union> {n. \<exists>nc. (n, nc) \<in> set ncs \<and> read_node dec nc \<noteq> None}"
  "outcomes (ls_events (foldl (inject_node dec) st ncs)) = outcomes (ls_events st)"
  "NodeStarted m ins \<in> set (ls_events (foldl (inject_node dec) st ncs)) \<longleftrightarrow> NodeStarted m ins \<in> set (ls_events st)"
  by (induction ncs arbitrary: st) (auto simp: inject_node_read emit_def split: option.splits)

lemma injected_values:
  assumes "distinct (map fst ncs)"
  shows "ls_port_data (foldl (inject_node dec) st ncs) k =
      (case Option.bind (Option.bind (map_of ncs (fst k)) (read_node dec)) (\<lambda>pvs. map_of (rev pvs) (snd k)) of
         Some v \<Rightarrow> Some v | None \<Rightarrow> ls_port_data st k)"
  using assms
proof (induction ncs arbitrary: st)
  case (Cons x ncs)
  obtain n nc where x: "x = (n, nc)" by force
  have "map_of ncs n = None" using Cons.prems x by (simp add: map_of_eq_None_iff)
  then show ?case using Cons unfolding foldl_Cons x
    by (cases "fst k = n"; cases "read_node dec nc") (auto simp: inject_node_read emit_def store_outputs split: option.splits)
qed simp

lemma stored_key: "k \<in> Pair n ` fst ` set pvs \<longleftrightarrow> fst k = n \<and> map_of (rev pvs) (snd k) \<noteq> None"
  using map_of_eq_None_iff [of "rev pvs" "snd k"] by (cases k) (auto simp: image_iff)

lemma injected_available:
  assumes "distinct (map fst ncs)"
  shows "k \<in> ls_available (foldl (inject_node dec) st ncs) \<longleftrightarrow> k \<in> ls_available st
      \<or> Option.bind (Option.bind (map_of ncs (fst k)) (read_node dec)) (\<lambda>pvs. map_of (rev pvs) (snd k)) \<noteq> None"
  using assms
proof (induction ncs arbitrary: st)
  case (Cons x ncs)
  obtain n nc where x: "x = (n, nc)" by force
  have "map_of ncs n = None" using Cons.prems x by (simp add: map_of_eq_None_iff)
  then show ?case using Cons unfolding foldl_Cons x
    by (cases "fst k = n"; cases "read_node dec nc") (simp_all add: inject_node_read emit_def store_outputs stored_key disj_commute)
qed simp

lemma discount_edges:
  "ls_remaining (foldl discount_edge st es) k =
     map_option (\<lambda>c. c - cnt (filter (\<lambda>e. fe_to_node e \<in> ls_completed st) es) k) (ls_remaining st k)"
  "ls_completed (foldl discount_edge st es) = ls_completed st"
  "ls_port_data (foldl discount_edge st es) = ls_port_data st"
  "ls_available (foldl discount_edge st es) = ls_available st"
  "ls_initial (foldl discount_edge st es) = ls_initial st"
  "ls_skipped (foldl discount_edge st es) = ls_skipped st"
  "ls_events (foldl discount_edge st es) = ls_events st"
  "ls_looks (foldl discount_edge st es) = ls_looks st"
  by (induction es arbitrary: st)
    (auto simp: discount_edge_def option.map_ident split: option.splits if_splits)

lemma unread_split: "cnt (g_edges g) k - cnt (filter (\<lambda>e. fe_to_node e \<in> R) (g_edges g)) k = cnt (unread g R) k"
proof -
  have "cnt es k = cnt (filter (\<lambda>e. fe_to_node e \<in> R) es) k + cnt (filter (\<lambda>e. fe_to_node e \<notin> R) es) k" for es
    by (induction es) auto
  from this [of "g_edges g"] show ?thesis unfolding unread_def by linarith
qed

lemma resume_start_is:
  assumes "distinct (map fst (rc_nodes cp))" and st_def: "st = resume_start dec cp g init" and R_def: "R = restored_nodes dec cp"
  shows "ls_completed st = R" and "ls_port_data st = restored_values dec cp" and "ls_available st = dom (restored_values dec cp)"
    and "ls_initial st = init" and "ls_skipped st = Map.empty" and "ls_looks st = 0"
    and "ls_remaining st k = (if cnt (g_edges g) k = 0 then None else Some (cnt (unread g R) k))"
    and "outcomes (ls_events st) = []" and "NodeStarted n ins \<notin> set (ls_events st)"
proof -
  have R: "{n. \<exists>nc. (n, nc) \<in> set (rc_nodes cp) \<and> read_node dec nc \<noteq> None} = R"
    using assms(1) by (force simp: R_def restored_nodes_def restored_outputs_read Option.bind_eq_Some_conv dest: map_of_SomeD)
  show "ls_completed st = R" using R by (simp add: st_def resume_start_def discount_edges injected_rest level_start_def)
  show "ls_port_data st = restored_values dec cp"
    by (simp add: st_def resume_start_def discount_edges injected_values [OF assms(1)] level_start_def fun_eq_iff
        restored_values_def restored_outputs_read split: option.splits)
  show "ls_available st = dom (restored_values dec cp)"
    by (simp add: st_def resume_start_def discount_edges injected_available [OF assms(1)] level_start_def set_eq_iff domIff
        restored_values_def restored_outputs_read split: option.splits)
  show "ls_remaining st k = (if cnt (g_edges g) k = 0 then None else Some (cnt (unread g R) k))"
    using R by (simp add: st_def resume_start_def discount_edges injected_rest level_start_def count_consumers_all unread_split)
qed (simp_all add: st_def resume_start_def discount_edges injected_rest level_start_def)

section \<open>The invariant of a resumed run\<close>

text \<open>What the nodes \<open>C\<close> that have ended leave to read, when the nodes \<open>R\<close> were restored with the values \<open>D\<close>.\<close>

definition posted :: "string set \<Rightarrow> (out_key \<rightharpoonup> 'a port_value) \<Rightarrow> (out_key \<rightharpoonup> 'a port_value) \<Rightarrow> string set \<Rightarrow> out_key \<rightharpoonup> 'a port_value" where
  "posted R D pr C k = (if fst k \<in> R then D k else if fst k \<in> C then pr k else None)"

definition resume_inv ::
  "(string \<Rightarrow> (string \<rightharpoonup> 'a port_value) \<Rightarrow> 'a executed) \<Rightarrow> 'a flow_graph \<Rightarrow> (string \<rightharpoonup> (string \<rightharpoonup> 'a port_value)) \<Rightarrow> (out_key \<rightharpoonup> 'a port_value)
     \<Rightarrow> string set \<Rightarrow> (out_key \<rightharpoonup> 'a port_value) \<Rightarrow> string set \<Rightarrow> 'a level_state \<Rightarrow> bool" where
  "resume_inv nodes g init pr R D T st \<longleftrightarrow>
     flow_solution g init nodes pr \<and> (\<forall>k. 0 < cnt (unread g R) k \<and> fst k \<in> R \<longrightarrow> D k = pr k)
     \<and> R \<subseteq> ls_completed st \<and> ls_completed st \<subseteq> T \<and> T \<subseteq> set (names_of g) \<and> (\<forall>n \<in> T - R. fed g (ls_completed st) n)
     \<and> ls_completed st - R = ran_nodes (ls_events st) \<union> dom (ls_skipped st) \<and> dom (ls_skipped st) \<inter> R = {}
     \<and> (\<forall>n \<in> T. starved g init pr n \<longleftrightarrow> n \<in> dom (ls_skipped st))
     \<and> (\<forall>k. 0 < cnt (unread g R) k \<longrightarrow> (k \<in> ls_available st \<longleftrightarrow> fst k \<in> ls_completed st \<and> pr k \<noteq> None))
     \<and> store_ok (unread g R) (ls_completed st) (posted R D pr (ls_completed st)) (unread g T) st
     \<and> (\<forall>n. n \<notin> T \<longrightarrow> ls_initial st n = init n)
     \<and> (\<forall>n ins. NodeStarted n ins \<in> set (ls_events st) \<longrightarrow> n \<in> T - R - dom (ls_skipped st) \<and> ins = node_inputs g init pr n)
     \<and> (\<forall>n \<in> T - R - dom (ls_skipped st). NodeStarted n (node_inputs g init pr n) \<in> set (ls_events st))
     \<and> (\<forall>n outs. NodeCompleted n outs \<in> set (ls_events st) \<longrightarrow> outs = ex_outputs (nodes n (node_inputs g init pr n)))"

lemma resume_invD:
  assumes "resume_inv nodes g init pr R D T st"
  shows "flow_solution g init nodes pr" and "0 < cnt (unread g R) k \<Longrightarrow> fst k \<in> R \<Longrightarrow> D k = pr k"
    and "R \<subseteq> ls_completed st" and "ls_completed st \<subseteq> T" and "T \<subseteq> set (names_of g)" and "n \<in> T - R \<Longrightarrow> fed g (ls_completed st) n"
    and "ls_completed st - R = ran_nodes (ls_events st) \<union> dom (ls_skipped st)" and "dom (ls_skipped st) \<inter> R = {}"
    and "n \<in> T \<Longrightarrow> starved g init pr n \<longleftrightarrow> n \<in> dom (ls_skipped st)"
    and "0 < cnt (unread g R) k \<Longrightarrow> k \<in> ls_available st \<longleftrightarrow> fst k \<in> ls_completed st \<and> pr k \<noteq> None"
    and "store_ok (unread g R) (ls_completed st) (posted R D pr (ls_completed st)) (unread g T) st"
    and "n \<notin> T \<Longrightarrow> ls_initial st n = init n"
    and "NodeStarted n ins \<in> set (ls_events st) \<Longrightarrow> n \<in> T - R - dom (ls_skipped st) \<and> ins = node_inputs g init pr n"
    and "n \<in> T - R - dom (ls_skipped st) \<Longrightarrow> NodeStarted n (node_inputs g init pr n) \<in> set (ls_events st)"
    and "NodeCompleted n outs \<in> set (ls_events st) \<Longrightarrow> outs = ex_outputs (nodes n (node_inputs g init pr n))"
  using assms unfolding resume_inv_def by (simp_all del: split_paired_All not_None_eq)

lemma resume_invI:
  assumes "flow_solution g init nodes pr" and "\<And>k. 0 < cnt (unread g R) k \<Longrightarrow> fst k \<in> R \<Longrightarrow> D k = pr k"
    and "R \<subseteq> ls_completed st" and "ls_completed st \<subseteq> T" and "T \<subseteq> set (names_of g)" and "\<And>n. n \<in> T - R \<Longrightarrow> fed g (ls_completed st) n"
    and "ls_completed st - R = ran_nodes (ls_events st) \<union> dom (ls_skipped st)" and "dom (ls_skipped st) \<inter> R = {}"
    and "\<And>n. n \<in> T \<Longrightarrow> starved g init pr n \<longleftrightarrow> n \<in> dom (ls_skipped st)"
    and "\<And>k. 0 < cnt (unread g R) k \<Longrightarrow> k \<in> ls_available st \<longleftrightarrow> fst k \<in> ls_completed st \<and> pr k \<noteq> None"
    and "store_ok (unread g R) (ls_completed st) (posted R D pr (ls_completed st)) (unread g T) st"
    and "\<And>n. n \<notin> T \<Longrightarrow> ls_initial st n = init n"
    and "\<And>n ins. NodeStarted n ins \<in> set (ls_events st) \<Longrightarrow> n \<in> T - R - dom (ls_skipped st) \<and> ins = node_inputs g init pr n"
    and "\<And>n. n \<in> T - R - dom (ls_skipped st) \<Longrightarrow> NodeStarted n (node_inputs g init pr n) \<in> set (ls_events st)"
    and "\<And>n outs. NodeCompleted n outs \<in> set (ls_events st) \<Longrightarrow> outs = ex_outputs (nodes n (node_inputs g init pr n))"
  shows "resume_inv nodes g init pr R D T st"
  using assms unfolding resume_inv_def by (simp del: split_paired_All not_None_eq)

lemma resume_inv_start:
  assumes sol: "flow_solution g init nodes pr" and f: "faithful dec g init pr cp"
  shows "resume_inv nodes g init pr (restored_nodes dec cp) (restored_values dec cp) (restored_nodes dec cp) (resume_start dec cp g init)"
proof -
  let ?R = "restored_nodes dec cp" and ?D = "restored_values dec cp"
  have d: "distinct (map fst (rc_nodes cp))" and R: "\<And>n. n \<in> ?R \<Longrightarrow> n \<in> set (names_of g) \<and> \<not> starved g init pr n"
    and D: "\<And>k. 0 < cnt (unread g ?R) k \<Longrightarrow> fst k \<in> ?R \<Longrightarrow> ?D k = pr k"
    using f by (auto simp: faithful_def tells_def)
  note s = resume_start_is [where dec = dec and g = g and init = init, OF d refl refl]
  have out: "?D k = None" if "fst k \<notin> ?R" for k using that by (simp add: restored_values_def restored_nodes_def domIff)
  have c: "cnt (unread g ?R) k = 0" if "cnt (g_edges g) k = 0" for k using cnt_unread_mono [of "{}" ?R g k] that by (simp add: unread_def)
  have "store_ok (unread g ?R) ?R (posted ?R ?D pr ?R) (unread g ?R) (resume_start dec cp g init)"
    unfolding store_ok_def using out c by (auto simp: s posted_def)
  moreover have "k \<in> dom ?D \<longleftrightarrow> fst k \<in> ?R \<and> pr k \<noteq> None" if "0 < cnt (unread g ?R) k" for k
    using D [OF that] out [of k] by (cases "fst k \<in> ?R") (auto simp: domIff)
  ultimately show ?thesis using sol R D
    by (intro resume_invI) (auto simp: s ran_nodes_def outcomes_in [symmetric])
qed

lemma resume_inv_looks [simp]: "resume_inv nodes g init pr R D T (st\<lparr>ls_looks := x\<rparr>) = resume_inv nodes g init pr R D T st"
  by (simp add: resume_inv_def store_ok_def)

lemma solution_starved: "flow_solution g init nodes pr \<Longrightarrow> starved g init pr n \<Longrightarrow> pr (n, p) = None"
  by (simp add: flow_solution_def)

lemma resume_inv_skip:
  assumes inv: "resume_inv nodes g init pr R D T st" and n: "n \<notin> T" "n \<in> set (names_of g)" "fed g (ls_completed st) n"
    and s: "starved g init pr n"
  shows "resume_inv nodes g init pr R D (insert n T) (skip_node g st (n, r))"
proof -
  let ?st = "skip_node g st (n, r)"
  note d = resume_invD [OF inv]
  have ev: "ls_events ?st = ls_events st @ [NodeSkipped n r]" and st: "ls_completed ?st = insert n (ls_completed st)"
    "ls_skipped ?st = (ls_skipped st)(n \<mapsto> r)" "ls_available ?st = ls_available st" "ls_initial ?st = ls_initial st"
    by (simp_all add: skip_node_def Let_def emit_def)
  have rn: "ran_nodes (ls_events ?st) = ran_nodes (ls_events st)" by (simp add: ev ran_nodes_def)
  have none: "pr k = None" if "fst k = n" for k using solution_starved [OF d(1) s] that by (cases k) simp
  have "posted R D pr (insert n (ls_completed st)) = posted R D pr (ls_completed st)" using none by (auto simp: posted_def fun_eq_iff)
  then have "store_ok (unread g R) (insert n (ls_completed st)) (posted R D pr (insert n (ls_completed st))) (unread g (insert n T)) ?st"
    using store_ok_skip [OF d(11) n(1)] by simp
  moreover have "fed g (insert n (ls_completed st)) m" if "m \<in> insert n T - R" for m
    using d(6) [of m] n(3) that by (auto simp: fed_def)
  moreover have "starved g init pr m \<longleftrightarrow> m \<in> dom ((ls_skipped st)(n \<mapsto> r))" if "m \<in> insert n T" for m
    using d(9) [of m] that s n(1) by auto
  moreover have "k \<in> ls_available st \<longleftrightarrow> fst k \<in> insert n (ls_completed st) \<and> pr k \<noteq> None" if "0 < cnt (unread g R) k" for k
    using d(10) [OF that] none [of k] by auto
  moreover have "m \<noteq> n" if "NodeStarted m ins \<in> set (ls_events st)" for m ins using d(13) [OF that] n(1) by blast
  moreover have "NodeStarted m (node_inputs g init pr m) \<in> set (ls_events st)" if "m \<in> insert n T - R - dom ((ls_skipped st)(n \<mapsto> r))" for m
    using d(14) [of m] that by auto
  ultimately show ?thesis using d(1,2,3,4,5,7,8,12) n
    by (intro resume_invI) (unfold rn st, auto simp: ev domIff dest: d(13,15))
qed

text \<open>What a node not taken up reads is what the solution has.\<close>

lemma posted_read:
  assumes "resume_inv nodes g init pr R D T st" and "n \<notin> T" and "fed g (ls_completed st) n" and "e \<in> set (edges_to g n)"
  shows "posted R D pr (ls_completed st) (out_of e) = pr (out_of e)" and "0 < cnt (unread g R) (out_of e)"
    and "fe_from_node e \<in> ls_completed st"
proof -
  note d = resume_invD [OF assms(1)]
  have "e \<in> set (unread g R)" using assms(2,4) d(3,4) by (auto simp: unread_def edges_to_def)
  then show c: "0 < cnt (unread g R) (out_of e)" using cnt_pos by blast
  show f: "fe_from_node e \<in> ls_completed st" using assms(3,4) by (simp add: fed_def)
  show "posted R D pr (ls_completed st) (out_of e) = pr (out_of e)" using d(2) [OF c] f by (simp add: posted_def out_of_def)
qed

lemma resume_wanting:
  assumes "resume_inv nodes g init pr R D T st" and "n \<notin> T" and "find_node g n = Some m" and "fed g (ls_completed st) n"
  shows "starved g init pr n \<longleftrightarrow> (\<exists>i \<in> set (fn_inputs m). wanting g st n i)"
proof -
  note d = resume_invD [OF assms(1)]
  have "out_of e \<in> ls_available st \<longleftrightarrow> pr (out_of e) \<noteq> None" if "e \<in> set (edges_at g n p)" for e p
    using d(10) posted_read(2,3) [OF assms(1,2,4), of e] that edges_at_to [of g n p] by (auto simp: out_of_def)
  then have "has_edge_data g st n p \<longleftrightarrow> \<not> (\<forall>e \<in> set (edges_at g n p). pr (out_of e) = None)" for p
    by (auto simp: has_edge_data_def list_ex_iff)
  moreover have "has_initial st n p \<longleftrightarrow> \<not> (case init n of Some ports \<Rightarrow> ports p = None | None \<Rightarrow> True)" for p
    by (simp add: has_initial_def d(12) [OF assms(2)] split: option.split)
  ultimately show ?thesis using assms(3) by (auto simp: starved_def wanting_def)
qed

lemma resume_inv_prepare:
  assumes inv: "resume_inv nodes g init pr R D T st" and n: "n \<notin> T" "n \<in> set (names_of g)" "fed g (ls_completed st) n"
    and s: "\<not> starved g init pr n"
  shows "\<exists>st'. prepare_node g st n = Ok (st', n, node_inputs g init pr n)
    \<and> resume_inv nodes g init pr R D (insert n T) st' \<and> ls_completed st' = ls_completed st \<and> ls_looks st' = ls_looks st"
proof -
  note d = resume_invD [OF inv]
  let ?C = "ls_completed st" and ?po = "posted R D pr (ls_completed st)" and ?ins = "node_inputs g init pr n"
  have "store_ok (unread g R) ?C ?po (edges_to g n @ unread g (insert n T)) st"
    by (rule store_ok_cong [OF d(11)]) (simp_all add: unread_insert [OF n(1), simplified])
  then obtain st1 where r: "fold_try read_edge (st, \<lambda>_. []) (edges_to g n) = Ok (st1, \<lambda>p. [] @ values_at ?po (edges_to g n) p)"
    and so: "store_ok (unread g R) ?C ?po (unread g (insert n T)) st1" and e: "same_rest st st1"
    using store_ok_reads [of "unread g R" ?C ?po "edges_to g n" "unread g (insert n T)" st "\<lambda>_. []"] n(3)
    by (auto simp: fed_def)
  have v: "values_at ?po (edges_to g n) = values_at pr (edges_to g n)"
    using values_at_cong [of "edges_to g n" ?po pr, OF posted_read(1) [OF inv n(1,3)]] by (simp add: fun_eq_iff)
  define st' where "st' = emit (NodeStarted n ?ins) (st1\<lparr>ls_initial := (ls_initial st1)(n := None)\<rparr>)"
  have "find_node g n \<noteq> None" using n(2) by (simp add: find_node_None)
  then have p: "prepare_node g st n = Ok (st', n, ?ins)"
    using r e d(12) [OF n(1)] by (auto simp: prepare_node_def st'_def node_inputs_def Let_def same_rest_def v)
  have ev: "ls_events st' = ls_events st @ [NodeStarted n ?ins]" and st: "ls_completed st' = ls_completed st"
    "ls_skipped st' = ls_skipped st" "ls_available st' = ls_available st" "ls_initial st' = (ls_initial st)(n := None)"
    "ls_looks st' = ls_looks st"
    using e by (simp_all add: st'_def emit_def same_rest_def)
  have rn: "ran_nodes (ls_events st') = ran_nodes (ls_events st)" by (simp add: ev ran_nodes_def)
  have sk: "n \<notin> R \<and> n \<notin> dom (ls_skipped st)" using n(1) d(3,4,7) by blast
  have "store_ok (unread g R) ?C ?po (unread g (insert n T)) st'"
    by (rule store_ok_cong [OF so]) (simp_all add: st'_def emit_def)
  moreover have "fed g ?C m" if "m \<in> insert n T - R" for m using d(6) [of m] n(3) that by auto
  moreover have "starved g init pr m \<longleftrightarrow> m \<in> dom (ls_skipped st)" if "m \<in> insert n T" for m
    using d(9) [of m] that s sk by blast
  moreover have "m \<in> insert n T - R - dom (ls_skipped st) \<and> ins = node_inputs g init pr m" if "NodeStarted m ins \<in> set (ls_events st')" for m ins
    using that d(13) [of m ins] sk by (auto simp: ev)
  moreover have "NodeStarted m (node_inputs g init pr m) \<in> set (ls_events st')" if "m \<in> insert n T - R - dom (ls_skipped st)" for m
    using that d(14) [of m] by (auto simp: ev)
  moreover have "outs = ex_outputs (nodes m (node_inputs g init pr m))" if "NodeCompleted m outs \<in> set (ls_events st')" for m outs
    using that d(15) by (simp add: ev)
  moreover have "R \<subseteq> ?C" "?C \<subseteq> insert n T" "insert n T \<subseteq> set (names_of g)" using d(3,4,5) n(2) by blast+
  moreover have "((ls_initial st)(n := None)) m = init m" if "m \<notin> insert n T" for m using that d(12) [of m] by simp
  ultimately have "resume_inv nodes g init pr R D (insert n T) st'" using d(1,2,7,8,10)
    by (intro resume_invI) (unfold rn st)
  then show ?thesis using p st by blast
qed

lemma resume_inv_complete:
  assumes inv: "resume_inv nodes g init pr R D T st" and n: "n \<in> T" "n \<notin> ls_completed st"
    and ex: "outs = ex_outputs (nodes n (node_inputs g init pr n))"
    and st': "st' = emit (NodeCompleted n outs) ((foldl (store_output n) st outs)\<lparr>ls_completed := insert n (ls_completed st)\<rparr>)"
  shows "resume_inv nodes g init pr R D T st'"
proof -
  note d = resume_invD [OF inv]
  let ?C = "ls_completed st"
  have ev: "ls_events st' = ls_events st @ [NodeCompleted n outs]" and st: "ls_completed st' = insert n ?C"
    "ls_skipped st' = ls_skipped st" "ls_initial st' = ls_initial st"
    by (simp_all add: st' emit_def)
  have nR: "n \<notin> R" "n \<notin> dom (ls_skipped st)" using n(2) d(3,7) by blast+
  have pr: "pr k = map_of (rev outs) (snd k)" if "fst k = n" for k
    using d(1) d(9) [OF n(1)] nR(2) n(1) d(5) that by (cases k) (auto simp: flow_solution_def ex)
  have all: "cnt (unread g T) k = cnt (unread g R) k" if "fst k = n" for k
  proof -
    have "fe_to_node e \<in> R" if "e \<in> set (g_edges g)" "out_of e = k" "fe_to_node e \<in> T" for e
      using d(6) [of "fe_to_node e"] that \<open>fst k = n\<close> n(2)
      by (cases "fe_to_node e \<in> R") (auto simp: fed_def edges_to_def out_of_def)
    then have "filter (\<lambda>e. out_of e = k) (unread g T) = filter (\<lambda>e. out_of e = k) (unread g R)"
      using d(3,4) by (auto simp: unread_def intro!: filter_cong)
    then show ?thesis by (simp add: cnt_def)
  qed
  have data: "ls_port_data st' k = (if fst k = n then (case pr k of Some v \<Rightarrow> Some v | None \<Rightarrow> ls_port_data st k) else ls_port_data st k)"
    and rem: "ls_remaining st' = ls_remaining st" for k
    by (simp_all add: st' emit_def store_outputs pr)
  have "store_ok (unread g R) (insert n ?C) (posted R D pr (insert n ?C)) (unread g T) st'" unfolding store_ok_def
  proof
    fix k
    note s = d(11) [unfolded store_ok_def, rule_format, of k]
    show "cnt (unread g T) k \<le> cnt (unread g R) k
       \<and> ls_port_data st' k = (if cnt (unread g T) k = 0 \<and> 0 < cnt (unread g R) k then None else posted R D pr (insert n ?C) k)
       \<and> (0 < cnt (unread g R) k \<longrightarrow> (\<exists>c. ls_remaining st' k = Some c
            \<and> (posted R D pr (insert n ?C) k \<noteq> None \<or> fst k \<notin> insert n ?C \<longrightarrow> c = cnt (unread g T) k)))"
      using s all [of k] n(2) nR(1) by (cases "fst k = n") (auto simp: posted_def data rem split: option.split)
  qed
  moreover have "k \<in> ls_available st' \<longleftrightarrow> fst k \<in> insert n ?C \<and> pr k \<noteq> None" if "0 < cnt (unread g R) k" for k
    using d(10) [OF that] pr [of k] n(2) by (auto simp: st' emit_def store_outputs stored_key)
  moreover have "fed g (insert n ?C) m" if "m \<in> T - R" for m using d(6) [OF that] by (auto simp: fed_def)
  moreover have "insert n ?C - R = ran_nodes (ls_events st') \<union> dom (ls_skipped st)" using d(7) nR(1) by (auto simp: ev ran_nodes_def)
  moreover have "m \<in> T - R - dom (ls_skipped st) \<and> ins = node_inputs g init pr m" if "NodeStarted m ins \<in> set (ls_events st')" for m ins
    using that d(13) [of m ins] by (simp add: ev)
  moreover have "NodeStarted m (node_inputs g init pr m) \<in> set (ls_events st')" if "m \<in> T - R - dom (ls_skipped st)" for m
    using that d(14) [of m] by (simp add: ev)
  moreover have "o' = ex_outputs (nodes m (node_inputs g init pr m))" if "NodeCompleted m o' \<in> set (ls_events st')" for m o'
    using that d(15) [of m o'] ex by (auto simp: ev)
  moreover have "R \<subseteq> insert n ?C" "insert n ?C \<subseteq> T" using d(3,4) n(1) by blast+
  ultimately show ?thesis using d(1,2,5,8,9,12) by (intro resume_invI) (unfold st)
qed

interpretation resumed: level_invariant g init "resume_inv nodes g init pr R D"
  "\<lambda>st. starved g init pr" "\<lambda>st. node_inputs g init pr" for g init nodes pr R D
proof unfold_locales
  fix T n r and st :: "'a level_state" and m k
  show "resume_inv nodes g init pr R D T st \<Longrightarrow> ls_completed st \<subseteq> T \<and> T \<subseteq> set (names_of g)" by (simp add: resume_invD(4,5))
  show "resume_inv nodes g init pr R D T st \<Longrightarrow> n \<notin> T \<Longrightarrow> ls_initial st n = init n" by (rule resume_invD(12))
  show "resume_inv nodes g init pr R D T st \<Longrightarrow> n \<notin> T \<Longrightarrow> find_node g n = Some m \<Longrightarrow> fed g (ls_completed st) n \<Longrightarrow>
      starved g init pr n \<longleftrightarrow> (\<exists>i \<in> set (fn_inputs m). wanting g st n i)" by (rule resume_wanting)
qed (auto intro: resume_inv_skip dest: resume_inv_prepare)

section \<open>The loop\<close>

text \<open>A node that succeeds gives what it gave before.\<close>

definition repeats ::
  "'a flow_graph \<Rightarrow> (string \<Rightarrow> (string \<rightharpoonup> 'a port_value) \<Rightarrow> 'a executed) \<Rightarrow> (nat \<Rightarrow> string \<Rightarrow> (string \<rightharpoonup> 'a port_value) \<Rightarrow> 'a executed) \<Rightarrow> bool" where
  "repeats g nodes exec \<longleftrightarrow>
     (\<forall>i n ins. node_result g n (exec i n ins) = Ok () \<longrightarrow> ex_outputs (exec i n ins) = ex_outputs (nodes n ins))"

text \<open>A property \<open>P\<close> of the store that the saves of a run keep.\<close>

definition saves_keep ::
  "('a, 'c, 'w) checkpointing \<Rightarrow> (string set \<Rightarrow> 'a level_state \<Rightarrow> bool) \<Rightarrow> (string \<Rightarrow> (string \<times> 'a port_value) list) \<Rightarrow> string set \<Rightarrow> ('w \<Rightarrow> bool) \<Rightarrow> bool" where
  "saves_keep K state_ok gives R P \<longleftrightarrow>
     (\<forall>T st n w outs. state_ok T st \<and> n \<in> T - ls_completed st \<and> encode_ports (ck_to K) (consumed st n (gives n)) = Ok outs \<and> P w
        \<longrightarrow> P (snd (cs_save_completed (ck_ops K) (ck_id K) n outs w)))
     \<and> (\<forall>n w. n \<notin> R \<and> P w \<longrightarrow> P (snd (cs_save_failed (ck_ops K) (ck_id K) n w)))"

definition saved_error :: "checkpoint_error \<Rightarrow> bool" where
  "saved_error err \<longleftrightarrow> (\<exists>e. err = CheckpointRun (LevelNode e)) \<or> err = CheckpointRun NodePanicked \<or> (\<exists>e. err = CheckpointStore e)"

abbreviation solution_outputs where
  "solution_outputs nodes g init pr n \<equiv> ex_outputs (nodes n (node_inputs g init pr n))"

lemma finish_saved_ok:
  assumes ok: "node_result g n ex = Ok ()"
    and k: "saves_keep K (resume_inv nodes g init pr R D) (solution_outputs nodes g init pr) R P"
    and inv: "resume_inv nodes g init pr R D T st" and n: "n \<in> T" "n \<notin> ls_completed st" and P: "P w"
    and out: "ex_outputs ex = solution_outputs nodes g init pr n"
  shows "case finish_saved K annul g (st, w) (n, ex) of
      Inl ((st', w'), err) \<Rightarrow> P w' \<and> saved_error err
    | Inr (st', w') \<Rightarrow> P w' \<and> resume_inv nodes g init pr R D T st' \<and> ls_completed st' = insert n (ls_completed st) \<and> ls_looks st' = ls_looks st"
proof (cases "encode_ports (ck_to K) (consumed st n (ex_outputs ex))")
  case (Inl e)
  then show ?thesis using ok P by (simp add: finish_saved_def saved_error_def)
next
  case (Inr outs)
  define s where "s = (if ck_keep K then cs_save_completed (ck_ops K) (ck_id K) n outs w else (Ok (), w))"
  have Ps: "P (snd s)" using k inv n Inr P by (auto simp: s_def saves_keep_def out)
  define st1 where "st1 = emit (NodeCompleted n (ex_outputs ex))
      ((foldl (store_output n) st (ex_outputs ex))\<lparr>ls_completed := insert n (ls_completed st)\<rparr>)"
  have "resume_inv nodes g init pr R D T st1" by (rule resume_inv_complete [OF inv n out st1_def])
  moreover have "ls_completed st1 = insert n (ls_completed st)" "ls_looks st1 = ls_looks st" by (simp_all add: st1_def emit_def)
  moreover have "finish_saved K annul g (st, w) (n, ex) = (case s of (Inl e, w1) \<Rightarrow> Err ((st, w1), CheckpointStore e) | (Inr _, w1) \<Rightarrow> Ok (st1, w1))"
    using ok Inr by (auto simp: finish_saved_def s_def st1_def Let_def split: prod.split sum.split)
  ultimately show ?thesis using Ps by (cases s; cases "fst s") (auto simp: saved_error_def)
qed

lemma finish_saved_level:
  assumes "resume_inv nodes g init pr R D T st" and "distinct (map fst ds)" and "fst ` set ds \<subseteq> T - ls_completed st" and "P w"
    and "\<And>n ex. (n, ex) \<in> set ds \<Longrightarrow> node_result g n ex = Ok () \<Longrightarrow> ex_outputs ex = solution_outputs nodes g init pr n"
    and a: "stays_cancelled annul" and k: "saves_keep K (resume_inv nodes g init pr R D) (solution_outputs nodes g init pr) R P"
  shows "case fold_try (finish_saved K annul g) (st, w) ds of
      Inl ((st', w'), err) \<Rightarrow> P w' \<and> saved_error err
    | Inr (st', w') \<Rightarrow> P w' \<and> resume_inv nodes g init pr R D T st' \<and> ls_looks st \<le> ls_looks st' \<and> ls_completed st \<subseteq> ls_completed st'
        \<and> (ls_completed st' = ls_completed st \<union> fst ` set ds \<or> annul (ls_looks st') \<noteq> None)"
  using assms(1-5)
proof (induction ds arbitrary: st w)
  case (Cons d ds)
  obtain n ex where d: "d = (n, ex)" by force
  have n: "n \<in> T" "n \<notin> ls_completed st" using Cons.prems(3) d by auto
  show ?case
  proof (cases "node_result g n ex")
    case (Inr u)
    then have ok: "node_result g n ex = Ok ()" by simp
    have "ex_outputs ex = solution_outputs nodes g init pr n" using Cons.prems(5) [of n ex] ok d by simp
    note f = finish_saved_ok [where K = K, OF ok k Cons.prems(1) n Cons.prems(4) this, of annul]
    show ?thesis
    proof (cases "finish_saved K annul g (st, w) (n, ex)")
      case (Inl x)
      then show ?thesis using f d by (simp split: prod.splits)
    next
      case (Inr y)
      obtain st1 w1 where y: "y = (st1, w1)" by force
      have s1: "P w1" "resume_inv nodes g init pr R D T st1" "ls_completed st1 = insert n (ls_completed st)" "ls_looks st1 = ls_looks st"
        using f Inr y by auto
      have "fst ` set ds \<subseteq> T - ls_completed st1" using Cons.prems(2,3) d by (auto simp: s1)
      then show ?thesis using Cons.IH [OF s1(2) _ _ s1(1)] Cons.prems(2,5) Inr d y s1(3,4)
        by (simp split: sum.splits prod.splits)
    qed
  next
    case (Inl err)
    have look: "look annul st = (annul (ls_looks st), st\<lparr>ls_looks := Suc (ls_looks st)\<rparr>)" by (simp add: look_def)
    show ?thesis
    proof (cases "annul (ls_looks st)")
      case None
      have "n \<notin> R" using n(2) resume_invD(3) [OF Cons.prems(1)] by blast
      then show ?thesis using Inl d None k Cons.prems(4) by (simp add: finish_saved_def look saved_error_def saves_keep_def)
    next
      case (Some cause)
      let ?st1 = "st\<lparr>ls_looks := Suc (ls_looks st)\<rparr>"
      have f: "finish_saved K annul g (st, w) (n, ex) = Ok (?st1, w)" using Inl Some by (simp add: finish_saved_def look)
      have IH: "case fold_try (finish_saved K annul g) (?st1, w) ds of
          Inl ((st', w'), err) \<Rightarrow> P w' \<and> saved_error err
        | Inr (st', w') \<Rightarrow> P w' \<and> resume_inv nodes g init pr R D T st' \<and> ls_looks ?st1 \<le> ls_looks st' \<and> ls_completed ?st1 \<subseteq> ls_completed st'
            \<and> (ls_completed st' = ls_completed ?st1 \<union> fst ` set ds \<or> annul (ls_looks st') \<noteq> None)"
        using Cons.prems by (intro Cons.IH) auto
      have "annul k \<noteq> None" if "ls_looks st \<le> k" for k using a Some that unfolding stays_cancelled_def by blast
      then show ?thesis using IH f d by (auto split: sum.splits)
    qed
  qed
qed simp

lemma level_results_in:
  "(n, ex) \<in> set (level_results fail exec prepared) \<Longrightarrow>
     \<exists>ins. (n, ins) \<in> set prepared \<and> (ex = exec n ins \<or> ex = injected_failure n)"
  by (auto simp: level_results_def)

lemma level_results_names:
  "fst ` set (level_results fail exec prepared) = fst ` set prepared"
  "distinct (map fst prepared) \<Longrightarrow> distinct (map fst (level_results fail exec prepared))"
proof -
  have m: "map fst (level_results fail exec prepared)
      = map fst (filter (\<lambda>(n, _). fail = Some n) prepared) @ map fst (filter (\<lambda>(n, _). fail \<noteq> Some n) prepared)"
    by (auto simp: level_results_def)
  show "fst ` set (level_results fail exec prepared) = fst ` set prepared"
    using arg_cong [OF m, of set] by (auto simp: image_iff)
  show "distinct (map fst (level_results fail exec prepared))" if "distinct (map fst prepared)"
    using that by (auto simp: m distinct_map inj_on_def)
qed

lemma injected_failure_fails: "node_result g n (injected_failure n) \<noteq> Ok ()"
  by (simp add: node_result_def injected_failure_def)

definition resume_settled where
  "resume_settled nodes g init pr R D st \<longleftrightarrow> resume_inv nodes g init pr R D (ls_completed st) st"

lemma resume_settled_in: "level_invariant.settled_in (resume_inv nodes g init pr R D) st = resume_settled nodes g init pr R D st"
  by (simp add: resumed.settled_in_def resume_settled_def)

lemma card_completed:
  assumes "graph_inv g" and "C \<subseteq> set (names_of g)"
  shows "card C = length (g_nodes g) \<longleftrightarrow> C = set (names_of g)"
proof -
  have "card (set (names_of g)) = length (g_nodes g)"
    using assms(1) distinct_card [of "names_of g"] by (simp add: graph_inv_def names_of_def)
  then show ?thesis using assms(2) by (metis List.finite_set card_subset_eq)
qed

lemma saved_round_cancelled:
  assumes "stays_cancelled annul" and "annul (ls_looks st) = Some c"
  shows "\<exists>st'. saved_round K exec annul g order i (st, w) = Ok (Leave st', w) \<and> annul (ls_looks st') \<noteq> None"
proof -
  have "annul (Suc (ls_looks st)) \<noteq> None" using assms unfolding stays_cancelled_def by (metis le_SucI option.distinct(1) order_refl)
  then show ?thesis using assms(2) by (simp add: saved_round_def look_def)
qed

definition round_ok where
  "round_ok nodes g init pr R D annul st r \<longleftrightarrow>
     (case r of
        Leave st' \<Rightarrow> resume_settled nodes g init pr R D st' \<and> ls_completed st' = set (names_of g) \<or> annul (ls_looks st') \<noteq> None
      | Next st' \<Rightarrow> resume_settled nodes g init pr R D st' \<and> card (ls_completed st) < card (ls_completed st') \<or> annul (ls_looks st') \<noteq> None)"

lemma saved_round_post:
  assumes st: "resume_settled nodes g init pr R D st" and g: "graph_inv g" and order: "topo_order (names_of g) (flow_links g) order"
    and given: "inputs_given g init" and a: "stays_cancelled annul" and rep: "repeats g nodes exec" and P: "P w"
    and k: "saves_keep K (resume_inv nodes g init pr R D) (solution_outputs nodes g init pr) R P"
  shows "case saved_round K exec annul g order i (st, w) of
      Inl ((st', w'), err) \<Rightarrow> P w' \<and> saved_error err
    | Inr (r, w') \<Rightarrow> P w' \<and> round_ok nodes g init pr R D annul st r"
proof (cases "annul (ls_looks st)")
  case (Some c)
  then show ?thesis using saved_round_cancelled [OF a Some, of K exec g order i w] P by (auto simp: round_ok_def)
next
  case None
  define st1 where "st1 = skip_until_fixpoint g order (st\<lparr>ls_looks := Suc (ls_looks st)\<rparr>)"
  have "level_invariant.settled_in (resume_inv nodes g init pr R D) (st\<lparr>ls_looks := Suc (ls_looks st)\<rparr>)"
    using st by (simp add: resume_settled_in resume_settled_def)
  from resumed.level_prepared [OF this g order given st1_def] obtain ready where rn: "ready_nodes g order st1 = Some ready"
    and s1: "resume_settled nodes g init pr R D st1" and le: "ls_completed st \<subseteq> ls_completed st1"
    and all: "ready = [] \<Longrightarrow> ls_completed st1 = set (names_of g)"
    and prep: "ready \<noteq> [] \<Longrightarrow> \<exists>st2 prepared. thread (prepare_node g) st1 ready = Ok (st2, prepared) \<and> map fst prepared = ready
       \<and> resume_inv nodes g init pr R D (ls_completed st1 \<union> set ready) st2 \<and> ls_completed st2 = ls_completed st1 \<and> distinct ready
       \<and> set ready \<inter> ls_completed st1 = {} \<and> (\<forall>d \<in> set prepared. snd d = node_inputs g init pr (fst d))"
    by (auto simp: resume_settled_in)
  have names: "ls_completed s \<subseteq> set (names_of g)" if "resume_settled nodes g init pr R D s" for s
    using that resume_invD(5) unfolding resume_settled_def by blast
  show ?thesis
  proof (cases "ready = []")
    case True
    have "saved_round K exec annul g order i (st, w) = Ok (Leave st1, w)"
      using None rn True all [OF True] card_completed [OF g names [OF s1]]
      by (simp add: saved_round_def look_def st1_def [symmetric] Let_def)
    then show ?thesis using s1 all [OF True] P by (simp add: round_ok_def)
  next
    case False
    from prep [OF this] obtain st2 prepared where
      p: "thread (prepare_node g) st1 ready = Ok (st2, prepared)" "map fst prepared = ready"
      and i2: "resume_inv nodes g init pr R D (ls_completed st1 \<union> set ready) st2" and c2: "ls_completed st2 = ls_completed st1"
      and n: "distinct ready" "set ready \<inter> ls_completed st1 = {}"
      and ins: "\<forall>d \<in> set prepared. snd d = node_inputs g init pr (fst d)" by blast
    define ds where "ds = level_results (ck_fail_node K) (exec i) prepared"
    have ps: "fst ` set ds = set ready" "distinct (map fst ds)"
      using level_results_names [where fail = "ck_fail_node K" and exec = "exec i" and prepared = prepared] n(1)
      unfolding ds_def p(2) [symmetric] by simp_all
    have gives: "ex_outputs ex = solution_outputs nodes g init pr m" 
      if m: "(m, ex) \<in> set ds" and ok: "node_result g m ex = Ok ()" for m ex
    proof -
      obtain x where x: "(m, x) \<in> set prepared" "ex = exec i m x \<or> ex = injected_failure m"
        using level_results_in [OF m [unfolded ds_def]] by blast
      have "x = node_inputs g init pr m" using bspec [OF ins x(1)] by simp
      then have "ex = exec i m (node_inputs g init pr m)" using x(2) ok injected_failure_fails by metis
      then show ?thesis using rep ok by (simp add: repeats_def)
    qed
    have f: "case fold_try (finish_saved K annul g) (st2, w) ds of
        Inl ((st', w'), err) \<Rightarrow> P w' \<and> saved_error err
      | Inr (st', w') \<Rightarrow> P w' \<and> resume_inv nodes g init pr R D (ls_completed st1 \<union> set ready) st' \<and> ls_looks st2 \<le> ls_looks st'
          \<and> ls_completed st2 \<subseteq> ls_completed st' \<and> (ls_completed st' = ls_completed st2 \<union> fst ` set ds \<or> annul (ls_looks st') \<noteq> None)"
      using n by (intro finish_saved_level [OF i2 ps(2) _ P _ a k] gives) (auto simp: ps(1) c2)
    have round: "saved_round K exec annul g order i (st, w) =
        (if list_ex (\<lambda>d. ex_panicked (snd d)) ds then Err ((st2, w), CheckpointRun NodePanicked)
         else try_then (fold_try (finish_saved K annul g) (st2, w) ds) (\<lambda>(st3, w3).
           Ok (if card (ls_completed st3) = length (g_nodes g) then Leave st3 else Next st3, w3)))"
      using None rn False p by (simp add: saved_round_def look_def st1_def [symmetric] Let_def ds_def)
    consider (panic) "list_ex (\<lambda>d. ex_panicked (snd d)) ds"
      | (error) x where "\<not> list_ex (\<lambda>d. ex_panicked (snd d)) ds" "fold_try (finish_saved K annul g) (st2, w) ds = Inl x"
      | (ended) y where "\<not> list_ex (\<lambda>d. ex_panicked (snd d)) ds" "fold_try (finish_saved K annul g) (st2, w) ds = Inr y"
      by (cases "fold_try (finish_saved K annul g) (st2, w) ds") auto
    then show ?thesis
    proof cases
      case panic
      then show ?thesis using P by (simp add: round saved_error_def)
    next
      case (error x)
      then show ?thesis using f by (auto simp: round)
    next
      case (ended y)
      note Inr = ended(2) and ok = ended(1)
      obtain st3 w3 where y: "y = (st3, w3)" by force
      consider "annul (ls_looks st3) \<noteq> None" | "ls_completed st3 = ls_completed st1 \<union> set ready" "resume_settled nodes g init pr R D st3"
        using f by (auto simp: Inr y c2 ps resume_settled_def)
      then show ?thesis
      proof cases
        case 1
        then show ?thesis using f Inr ok y by (auto simp: round round_ok_def)
      next
        case 2
        then have "finite (ls_completed st3)" using names [OF 2(2)] finite_subset by blast
        moreover have "ls_completed st \<subset> ls_completed st3" using 2(1) le n False by (cases ready) auto
        ultimately have "card (ls_completed st) < card (ls_completed st3)" by (rule psubset_card_mono)
        then show ?thesis using f Inr ok y 2 card_completed [OF g names [OF 2(2)]] by (auto simp: round round_ok_def)
      qed
    qed
  qed
qed

lemma saved_loop_post:
  assumes "resume_settled nodes g init pr R D st \<or> annul (ls_looks st) \<noteq> None" and g: "graph_inv g"
    and order: "topo_order (names_of g) (flow_links g) order" and given: "inputs_given g init" and a: "stays_cancelled annul"
    and rep: "repeats g nodes exec" and "P w"
    and k: "saves_keep K (resume_inv nodes g init pr R D) (solution_outputs nodes g init pr) R P"
  shows "case saved_loop K exec annul g order i j (st, w) of
      Inl ((st', w'), err) \<Rightarrow> P w' \<and> saved_error err
    | Inr (st', w') \<Rightarrow> P w' \<and> (annul (ls_looks st') \<noteq> None
        \<or> resume_settled nodes g init pr R D st' \<and> (ls_completed st' = set (names_of g) \<or> annul (ls_looks st) = None \<and> card (ls_completed st) + j \<le> card (ls_completed st')))"
  using assms(1,7)
proof (induction j arbitrary: i st w)
  case (Suc j)
  show ?case
  proof (cases "annul (ls_looks st)")
    case (Some c)
    then show ?thesis using saved_round_cancelled [OF a Some, of K exec g order i w] Suc.prems(2) by auto
  next
    case None
    then have s: "resume_settled nodes g init pr R D st" using Suc.prems by simp
    note r = saved_round_post [OF s g order given a rep Suc.prems(2) k, of i]
    show ?thesis
    proof (cases "saved_round K exec annul g order i (st, w)")
      case (Inl x)
      then show ?thesis using r by auto
    next
      case (Inr y)
      obtain re w1 where y: "y = (re, w1)" by force
      show ?thesis
      proof (cases re)
        case (Leave st1)
        then show ?thesis using r Inr y by (auto simp: round_ok_def)
      next
        case (Next st1)
        have c: "resume_settled nodes g init pr R D st1 \<and> card (ls_completed st) < card (ls_completed st1) \<or> annul (ls_looks st1) \<noteq> None" "P w1"
          using r Inr y Next by (auto simp: round_ok_def)
        have "case saved_loop K exec annul g order (Suc i) j (st1, w1) of
            Inl ((st', w'), err) \<Rightarrow> P w' \<and> saved_error err
          | Inr (st', w') \<Rightarrow> P w' \<and> (annul (ls_looks st') \<noteq> None
              \<or> resume_settled nodes g init pr R D st' \<and> (ls_completed st' = set (names_of g) \<or> annul (ls_looks st1) = None \<and> card (ls_completed st1) + j \<le> card (ls_completed st')))"
          using c by (intro Suc.IH) auto
        then show ?thesis using Inr y Next c None by (auto split: sum.splits)
      qed
    qed
  qed
qed auto

section \<open>A resumed run\<close>

lemma resume_inv_emit:
  "outcomes [ev] = [] \<Longrightarrow> (\<And>n ins. ev \<noteq> NodeStarted n ins) \<Longrightarrow>
     resume_inv nodes g init pr R D T st \<Longrightarrow> resume_inv nodes g init pr R D T (st\<lparr>ls_events := ls_events st @ [ev]\<rparr>)"
proof -
  assume ev: "outcomes [ev] = []" "\<And>n ins. ev \<noteq> NodeStarted n ins" and inv: "resume_inv nodes g init pr R D T st"
  have c: "ev \<noteq> NodeCompleted n o'" for n o' using ev(1) by (cases ev) auto
  have r: "ran_nodes (ls_events st @ [ev]) = ran_nodes (ls_events st)" by (simp add: ran_nodes_def ev)
  have s: "store_ok V C po U (st\<lparr>ls_events := x\<rparr>) = store_ok V C po U st" for V C po U x by (simp add: store_ok_def)
  note d = resume_invD [OF inv]
  show ?thesis
  proof (rule resume_invI, goal_cases)
    case (13 n ins) then show ?case using d(13) [of n ins] ev(2) by auto
  next
    case (14 n) then show ?case using d(14) [of n] by simp
  next
    case (15 n o') then show ?case using d(15) [of n o'] c [of n o'] by auto
  qed (use d(1-12) in \<open>simp_all add: r s\<close>)
qed

definition resume_whole where
  "resume_whole nodes g init pr R D st \<longleftrightarrow> resume_settled nodes g init pr R D st \<and> ls_completed st = set (names_of g)"

lemma resume_whole_end:
  "resume_whole nodes g init pr R D st \<Longrightarrow> resume_whole nodes g init pr R D (st\<lparr>ls_events := ls_events st @ [RunCompleted x], ls_looks := y\<rparr>)"
  using resume_inv_emit [of "RunCompleted x" nodes g init pr R D "ls_completed st" st] by (auto simp: resume_whole_def resume_settled_def)

lemma execute_saved_post:
  assumes g: "graph_inv g" and order: "topo_order (names_of g) (flow_links g) order"
    and given: "inputs_given g init" and a: "stays_cancelled annul"
    and sol: "flow_solution g init nodes pr" and f: "faithful (ck_from K) g init pr cp" and rep: "repeats g nodes exec" and P: "P w"
    and R: "R = restored_nodes (ck_from K) cp" and D: "D = restored_values (ck_from K) cp"
    and k: "saves_keep K (resume_inv nodes g init pr R D) (solution_outputs nodes g init pr) R P"
  shows "case execute_saved m K exec annul g order cp init w of
      Inl ((st, w'), err) \<Rightarrow> P w' \<and> (saved_error err \<or> m < length (g_nodes g) \<and> (\<exists>c n. err = CheckpointRun (MaxIterations m c n)))
    | Inr ((st, out), w') \<Rightarrow> P w' \<and> (fo_stopped out = None \<longrightarrow>
        resume_whole nodes g init pr R D st \<and> fo_data out = ls_port_data st \<and> fo_skipped out = ls_skipped st)"
proof -
  let ?st0 = "resume_start (ck_from K) cp g init"
  have d: "distinct (map fst (rc_nodes cp))" using f by (simp add: faithful_def tells_def)
  have "resume_inv nodes g init pr R D R ?st0" using resume_inv_start [OF sol f] by (simp add: R D)
  then have se: "resume_settled nodes g init pr R D ?st0" by (simp add: resume_settled_def resume_start_is(1) [OF d refl R])
  note l = saved_loop_post [OF disjI1 [OF se] g order given a rep P k, where i = 0 and j = m]
  show ?thesis
  proof (cases "saved_loop K exec annul g order 0 m (?st0, w)")
    case (Inl x)
    then show ?thesis using l by (auto simp: execute_saved_def)
  next
    case (Inr y)
    obtain st w1 where y: "y = (st, w1)" by force
    let ?complete = "card (ls_completed st) = length (g_nodes g)"
    have names: "ls_completed st \<subseteq> set (names_of g)" if "resume_settled nodes g init pr R D st"
      using that resume_invD(5) unfolding resume_settled_def by blast
    have complete: "?complete \<longleftrightarrow> ls_completed st = set (names_of g)" if "resume_settled nodes g init pr R D st"
      by (rule card_completed [OF g names [OF that]])
    have "annul (ls_looks st) \<noteq> None \<or> resume_settled nodes g init pr R D st
        \<and> (ls_completed st = set (names_of g) \<or> m \<le> card (ls_completed st))"
      using l Inr y by auto
    then consider "annul (ls_looks st) \<noteq> None" | "resume_whole nodes g init pr R D st"
      | "resume_settled nodes g init pr R D st" "\<not> ?complete" "m \<le> card (ls_completed st)"
      using complete unfolding resume_whole_def by blast
    then show ?thesis
    proof cases
      case 1
      then obtain c where "annul (ls_looks st) = Some c" by blast
      then have "annul (ls_looks st) \<noteq> None" "annul (Suc (ls_looks st)) \<noteq> None"
        using a unfolding stays_cancelled_def by (metis le_SucI option.distinct(1) order_refl)+
      then show ?thesis using l Inr y by (auto simp: execute_saved_def look_def emit_def Let_def)
    next
      case 2
      then have "?complete" using card_completed [OF g, of "ls_completed st"] by (simp add: resume_whole_def)
      then show ?thesis using l Inr y resume_whole_end [OF 2] by (simp add: execute_saved_def look_def emit_def Let_def)
    next
      case 3
      have "card (ls_completed st) \<le> length (g_nodes g)"
        using card_mono [OF _ names [OF 3(1)]] card_length [of "names_of g"] by (simp add: names_of_def)
      then have j: "m < length (g_nodes g)" using 3 by simp
      show ?thesis
      proof (cases "annul (ls_looks st)")
        case None
        then show ?thesis using l Inr y 3 j by (simp add: execute_saved_def look_def emit_def Let_def)
      next
        case (Some c)
        then have "annul (Suc (ls_looks st)) \<noteq> None"
          using a unfolding stays_cancelled_def by (metis le_SucI option.distinct(1) order_refl)
        then show ?thesis using l Inr y 3 Some by (auto simp: execute_saved_def look_def emit_def Let_def)
      qed
    qed
  qed
qed

lemma resume_whole_output:
  assumes w: "resume_whole nodes g init pr R D st" and g: "graph_inv g"
  shows "NodeStarted n ins \<in> set (ls_events st) \<longleftrightarrow>
      n \<in> set (names_of g) \<and> n \<notin> R \<and> \<not> starved g init pr n \<and> ins = node_inputs g init pr n"
    and "n \<in> set (names_of g) \<Longrightarrow> ls_skipped st n \<noteq> None \<longleftrightarrow> starved g init pr n"
    and "ls_port_data st k = (if \<exists>e \<in> set (g_edges g). out_of e = k \<and> fe_to_node e \<notin> R then None else if fst k \<in> R then D k else pr k)"
proof -
  have inv: "resume_inv nodes g init pr R D (ls_completed st) st" and all: "ls_completed st = set (names_of g)"
    using w by (auto simp: resume_whole_def resume_settled_def)
  note d = resume_invD [OF inv]
  show "NodeStarted n ins \<in> set (ls_events st) \<longleftrightarrow>
      n \<in> set (names_of g) \<and> n \<notin> R \<and> \<not> starved g init pr n \<and> ins = node_inputs g init pr n"
    using d(9) [of n] d(13) [of n ins] d(14) [of n] all by blast
  show "n \<in> set (names_of g) \<Longrightarrow> ls_skipped st n \<noteq> None \<longleftrightarrow> starved g init pr n" using d(9) [of n] all by (auto simp: domIff)
  have "unread g (ls_completed st) = []"
    using g by (auto simp: unread_def all graph_inv_def filter_empty_conv dest: edge_typed_ends)
  moreover have "0 < cnt (unread g R) k \<longleftrightarrow> (\<exists>e \<in> set (g_edges g). out_of e = k \<and> fe_to_node e \<notin> R)"
    using cnt_pos [of "unread g R" k] by (auto simp: unread_def)
  moreover have "pr k = None" if "fst k \<notin> set (names_of g)" using d(1) that by (cases k) (simp add: flow_solution_def)
  ultimately show "ls_port_data st k = (if \<exists>e \<in> set (g_edges g). out_of e = k \<and> fe_to_node e \<notin> R then None else if fst k \<in> R then D k else pr k)"
    using d(11) [unfolded store_ok_def, rule_format, of k] all by (auto simp: posted_def)
qed

lemma execute_inner_with_checkpoint_cases:
  assumes "execute_inner_with_checkpoint force m K exec annul g cp w = r" and g: "graph_inv g"
  obtains (refused) e where "r = (Err (CheckpointRun (LevelGraph e)), w)" | (concurrent) "r = (Ok ToConcurrent, w)"
  | (levels) order where "topo_order (names_of g) (flow_links g) order" "inputs_given g (g_initial_inputs g)"
      "r = (case execute_saved m K exec annul g order cp (g_initial_inputs g) w of
         Inl ((_, w1), e) \<Rightarrow> (Err e, w1) | Inr ((st, out), w1) \<Rightarrow> (Ok (ByLevels st out), w1))"
proof -
  define h where "h = try_then (graph_validate g) (\<lambda>_.
           try_then (topological_sort g) (\<lambda>order.
           try_then (stream_ports_of g) (\<lambda>_.
           try_then (if force then Ok True else has_streams g) (\<lambda>streams.
           if streams \<or> g_initial_streams g \<noteq> [] then Ok None
           else try_then (snd (merge_initial_streams g (g_initial_inputs g))) (\<lambda>init. Ok (Some (order, init)))))))"
  have r: "r = (case h of Inl e \<Rightarrow> (Err (CheckpointRun (LevelGraph e)), w) | Inr None \<Rightarrow> (Ok ToConcurrent, w)
      | Inr (Some (order, init)) \<Rightarrow> (case execute_saved m K exec annul g order cp init w of
             Inl ((_, w1), e) \<Rightarrow> (Err e, w1) | Inr ((st, out), w1) \<Rightarrow> (Ok (ByLevels st out), w1)))"
    using assms(1) by (simp add: execute_inner_with_checkpoint_def h_def)
  show ?thesis
  proof (cases h)
    case (Inl e)
    then show ?thesis using refused r by simp
  next
    case (Inr oi)
    show ?thesis
    proof (cases oi)
      case None
      then show ?thesis using concurrent r Inr by simp
    next
      case (Some x)
      obtain order init where x: "x = (order, init)" by force
      have v: "graph_validate g = Ok ()" "topological_sort g = Ok order" "g_initial_streams g = []" "init = g_initial_inputs g"
        using Inr Some x by (auto simp: h_def result_split merge_initial_streams_def split: if_splits)
      have "topo_order (names_of g) (flow_links g) order" using flow_sorter.sound [OF graph_inv_wf [OF g] v(2)] .
      moreover have "inputs_given g (g_initial_inputs g)" using validated_inputs v by blast
      ultimately show ?thesis using levels r Inr Some x v(4) by simp
    qed
  qed
qed

end
