(* ===== verification/Flow_Codec.thy ===== *)
theory Flow_Codec
  imports Flow_Port Ir_Value
begin

text \<open>
  \<open>dataflow/checkpoint.rs\<close> and the checkpoint forms of \<open>records.rs\<close>: how a value of a port is written
  in a checkpoint and read back. A value of a type the codec does not know is written without data, and
  reading it is an error; a batch is written as the checkpoint forms of its records, which keep the
  state of a reference but are read back as resolved references, whatever that state was.

  The serializers (\<open>serde_json\<close>, \<open>rmp_serde\<close>) and the file system are arguments. What the nodes of
  other components carry (rows of results, expansion rules, JSON values, updates) is opaque. A
  channel is the state its receiver sees; a record also says whether it still holds its resolver.
\<close>

section \<open>Records\<close>

datatype ref_state = RefPending | RefReady string | RefFailed string

record entity_ref =
  ef_entity :: string
  ef_key :: string
  ef_state :: ref_state

datatype rel_state = RelPending | RelReady string string | RelFailed string

record relation_ref =
  rf_relation :: string
  rf_key :: string
  rf_state :: rel_state

datatype ref_or_uuid = AtRef entity_ref | AtUuid string

record 'r entity_record =
  en_name :: string
  en_data :: "(string, ir_value) btree"
  en_ref :: entity_ref
  en_resolver :: bool
  en_vectors :: "'r option"

record relation_record =
  rl_name :: string
  rl_from :: ref_or_uuid
  rl_to :: ref_or_uuid
  rl_properties :: "(string, ir_value) btree"
  rl_ref :: relation_ref
  rl_resolver :: bool
  rl_retirer :: bool

datatype ref_status = StPending | StReady string | StFailed string | StReadyRel string string

record checkpoint_ref_state =
  cr_type_name :: string
  cr_temp_uuid :: string
  cr_status :: ref_status

record 'r checkpoint_entity =
  ce_name :: string
  ce_data :: "(string, ir_value) btree"
  ce_ref :: checkpoint_ref_state
  ce_vectors :: "'r option"

record checkpoint_relation =
  cl_name :: string
  cl_from_uuid :: "string option"
  cl_to_uuid :: "string option"
  cl_from_temp :: "string option"
  cl_to_temp :: "string option"
  cl_properties :: "(string, ir_value) btree"
  cl_ref :: checkpoint_ref_state
  cl_retirer :: bool

definition ref_state_for_checkpoint :: "entity_ref \<Rightarrow> checkpoint_ref_state" where
  "ref_state_for_checkpoint e =
     \<lparr>cr_type_name = ef_entity e, cr_temp_uuid = ef_key e,
      cr_status = (case ef_state e of RefReady u \<Rightarrow> StReady u | RefPending \<Rightarrow> StPending | RefFailed m \<Rightarrow> StFailed m)\<rparr>"

definition entity_to_checkpoint :: "'r entity_record \<Rightarrow> 'r checkpoint_entity" where
  "entity_to_checkpoint r =
     \<lparr>ce_name = en_name r, ce_data = en_data r, ce_ref = ref_state_for_checkpoint (en_ref r), ce_vectors = en_vectors r\<rparr>"

definition pre_resolved :: "checkpoint_ref_state \<Rightarrow> string \<Rightarrow> entity_ref" where
  "pre_resolved c u = \<lparr>ef_entity = cr_type_name c, ef_key = cr_temp_uuid c, ef_state = RefReady u\<rparr>"

definition into_entity_record :: "'r checkpoint_entity \<Rightarrow> 'r entity_record" where
  "into_entity_record c =
     \<lparr>en_name = ce_name c, en_data = ce_data c,
      en_ref = pre_resolved (ce_ref c) (case cr_status (ce_ref c) of StReady u \<Rightarrow> u | _ \<Rightarrow> []),
      en_resolver = False, en_vectors = ce_vectors c\<rparr>"

text \<open>The key and the uuid of a recorded row: of its reference, else of its column \<open>_uuid\<close>.\<close>

definition uuid_column :: "(string, ir_value) btree \<Rightarrow> string option" where
  "uuid_column m =
     (case Option.bind (map_of m ''_uuid'') as_str of Some u \<Rightarrow> if u = [] then None else Some u | None \<Rightarrow> None)"

definition cle_et_uuid :: "'r checkpoint_entity \<Rightarrow> (string \<times> string) option" where
  "cle_et_uuid c =
     map_option (Pair (cr_temp_uuid (ce_ref c)))
       (case cr_status (ce_ref c) of
          StReady u \<Rightarrow> if u \<noteq> [] then Some u else uuid_column (ce_data c)
        | _ \<Rightarrow> uuid_column (ce_data c))"

fun end_to_checkpoint :: "ref_or_uuid \<Rightarrow> string option \<times> string option" where
  "end_to_checkpoint (AtUuid s) = (Some s, None)"
| "end_to_checkpoint (AtRef r) = ((case ef_state r of RefReady u \<Rightarrow> Some u | _ \<Rightarrow> None), Some (ef_key r))"

definition relation_to_checkpoint :: "relation_record \<Rightarrow> checkpoint_relation" where
  "relation_to_checkpoint r =
     \<lparr>cl_name = rl_name r,
      cl_from_uuid = fst (end_to_checkpoint (rl_from r)), cl_to_uuid = fst (end_to_checkpoint (rl_to r)),
      cl_from_temp = snd (end_to_checkpoint (rl_from r)), cl_to_temp = snd (end_to_checkpoint (rl_to r)),
      cl_properties = rl_properties r,
      cl_ref = \<lparr>cr_type_name = rf_relation (rl_ref r), cr_temp_uuid = rf_key (rl_ref r),
        cr_status = (case rf_state (rl_ref r) of RelReady a b \<Rightarrow> StReadyRel a b | RelPending \<Rightarrow> StPending | RelFailed m \<Rightarrow> StFailed m)\<rparr>,
      cl_retirer = rl_retirer r\<rparr>"

text \<open>An end read back: its uuid, or the row its key names, or a reference that has failed (with a new key).\<close>

definition bout :: "string \<Rightarrow> (string \<rightharpoonup> string) \<Rightarrow> string option \<Rightarrow> string option \<Rightarrow> string \<Rightarrow> ref_or_uuid" where
  "bout fresh cles uuid cle cote =
     (case uuid of
        Some (u # us) \<Rightarrow> AtUuid (u # us)
      | _ \<Rightarrow>
          (case cle of
             Some k \<Rightarrow>
               (case cles k of
                  Some u \<Rightarrow> AtUuid u
                | None \<Rightarrow> AtRef \<lparr>ef_entity = cote, ef_key = fresh, ef_state = RefFailed (''bout '' @ cote @ '' perdu, cle '' @ k)\<rparr>)
           | None \<Rightarrow> AtUuid []))"

definition into_relation_record_avec :: "string \<Rightarrow> (string \<rightharpoonup> string) \<Rightarrow> checkpoint_relation \<Rightarrow> relation_record" where
  "into_relation_record_avec fresh cles c =
     \<lparr>rl_name = cl_name c,
      rl_from = bout fresh cles (cl_from_uuid c) (cl_from_temp c) ''source'',
      rl_to = bout fresh cles (cl_to_uuid c) (cl_to_temp c) ''cible'',
      rl_properties = cl_properties c,
      rl_ref = \<lparr>rf_relation = cr_type_name (cl_ref c), rf_key = cr_temp_uuid (cl_ref c),
        rf_state = (case cr_status (cl_ref c) of StReadyRel a b \<Rightarrow> RelReady a b | _ \<Rightarrow> RelReady [] [])\<rparr>,
      rl_resolver = False, rl_retirer = cl_retirer c\<rparr>"

section \<open>Values\<close>

datatype 'r batch_content =
    Entities "'r entity_record list"
  | Relations "relation_record list"
  | Derivations 'r
  | Updates 'r
  | Deletes 'r
  | OtherRows 'r

text \<open>What a port carries: a batch (whose content may have been taken), rules, a JSON value, or a type the codec does not know.\<close>

datatype 'r payload =
    Batch port_type "'r batch_content option"
  | Rules 'r
  | JsonValue 'r
  | Unknown 'r

type_synonym 'r flow_value = "'r payload port_value"

text \<open>The checkpoint forms of a batch, as the serializer sees them.\<close>

datatype 'r packed =
    PackedEntities "'r checkpoint_entity list"
  | PackedRelations "checkpoint_relation list"
  | PackedRows port_type 'r

record 'j checkpoint_value =
  cv_type :: port_type
  cv_batch :: bool
  cv_json :: "'j option"
  cv_bytes :: "'j option"
  cv_file :: "string option"

record ('r, 'j) serde =
  sd_json :: "'r payload port_data \<Rightarrow> (string, 'j) result"
  sd_parse :: "port_type \<Rightarrow> 'j \<Rightarrow> (string, 'r payload port_data) result"
  sd_pack :: "'r packed \<Rightarrow> (string, 'j) result"
  sd_unpack :: "port_type \<Rightarrow> 'j \<Rightarrow> (string, 'r packed) result"
  sd_parse_batch :: "port_type \<Rightarrow> 'j \<Rightarrow> (string, 'r packed) result"
  sd_read :: "string \<Rightarrow> (string, 'j) result"
  sd_fresh :: string

definition checkpoint_encode_batch :: "('r, 'j) serde \<Rightarrow> port_type \<Rightarrow> 'r batch_content option \<Rightarrow> (string, 'j) result" where
  "checkpoint_encode_batch sd t c =
     (case c of
        None \<Rightarrow> Err ''BatchPayload data already consumed''
      | Some x \<Rightarrow>
          if t = PEntities then
            (case x of Entities rs \<Rightarrow> sd_pack sd (PackedEntities (map entity_to_checkpoint rs)) | _ \<Rightarrow> Err ''type mismatch'')
          else if t = PRelations then
            (case x of Relations rs \<Rightarrow> sd_pack sd (PackedRelations (map relation_to_checkpoint rs)) | _ \<Rightarrow> Err ''type mismatch'')
          else if t = PDerivations then (case x of Derivations r \<Rightarrow> sd_pack sd (PackedRows t r) | _ \<Rightarrow> Err ''type mismatch'')
          else if t = PUpdates then (case x of Updates r \<Rightarrow> sd_pack sd (PackedRows t r) | _ \<Rightarrow> Err ''type mismatch'')
          else if t = PDeletes then (case x of Deletes r \<Rightarrow> sd_pack sd (PackedRows t r) | _ \<Rightarrow> Err ''type mismatch'')
          else Err ''unsupported batch_type for checkpoint'')"

definition bare_checkpoint :: "port_type \<Rightarrow> 'j checkpoint_value" where
  "bare_checkpoint t = \<lparr>cv_type = t, cv_batch = False, cv_json = None, cv_bytes = None, cv_file = None\<rparr>"

definition json_checkpoint :: "('r, 'j) serde \<Rightarrow> port_type \<Rightarrow> 'r payload port_data \<Rightarrow> (string, 'j checkpoint_value) result" where
  "json_checkpoint sd t d = try_then (sd_json sd d) (\<lambda>j. Ok (bare_checkpoint t\<lparr>cv_json := Some j\<rparr>))"

fun port_value_to_checkpoint :: "('r, 'j) serde \<Rightarrow> 'r flow_value \<Rightarrow> (string, 'j checkpoint_value) result" where
  "port_value_to_checkpoint sd Trigger = Ok (bare_checkpoint PEmpty)"
| "port_value_to_checkpoint sd (Data (DOther tag (Batch t c))) =
     try_then (checkpoint_encode_batch sd t c) (\<lambda>b. Ok (bare_checkpoint t\<lparr>cv_batch := True, cv_bytes := Some b\<rparr>))"
| "port_value_to_checkpoint sd (Data (DResults v)) = json_checkpoint sd PResults (DResults v)"
| "port_value_to_checkpoint sd (Data (DChildren m)) = json_checkpoint sd PChildren (DChildren m)"
| "port_value_to_checkpoint sd (Data (DUuids v)) = json_checkpoint sd PUuids (DUuids v)"
| "port_value_to_checkpoint sd (Data (DMeta m)) = json_checkpoint sd PMeta (DMeta m)"
| "port_value_to_checkpoint sd (Data (DOther tag (Rules r))) = json_checkpoint sd PRules (DOther PRules (Rules r))"
| "port_value_to_checkpoint sd (Data (DText s)) = json_checkpoint sd PText (DText s)"
| "port_value_to_checkpoint sd (Data (DOther tag (JsonValue r))) = json_checkpoint sd PMap (DOther PMap (JsonValue r))"
| "port_value_to_checkpoint sd (Data _) = Ok (bare_checkpoint PAny)"

text \<open>The records of a batch read back; both readers (the bytes, and the JSON of older checkpoints) end here.\<close>

fun unpack_batch :: "('r, 'j) serde \<Rightarrow> (string \<rightharpoonup> string) \<Rightarrow> port_type \<Rightarrow> 'r packed \<Rightarrow> (string, 'r flow_value) result" where
  "unpack_batch sd cles t (PackedEntities cs) = Ok (Data (DOther t (Batch t (Some (Entities (map into_entity_record cs))))))"
| "unpack_batch sd cles t (PackedRelations cs) =
     Ok (Data (DOther t (Batch t (Some (Relations (map (into_relation_record_avec (sd_fresh sd) cles) cs))))))"
| "unpack_batch sd cles t (PackedRows _ r) =
     (case t of
        PDerivations \<Rightarrow> Ok (Data (DOther t (Batch t (Some (Derivations r)))))
      | PUpdates \<Rightarrow> Ok (Data (DOther t (Batch t (Some (Updates r)))))
      | PDeletes \<Rightarrow> Ok (Data (DOther t (Batch t (Some (Deletes r)))))
      | _ \<Rightarrow> Err ''unsupported batch_type for checkpoint'')"

definition batch_type :: "port_type \<Rightarrow> bool" where
  "batch_type t = (t \<in> {PEntities, PRelations, PDerivations, PUpdates, PDeletes})"

definition checkpoint_decode_batch ::
  "('r, 'j) serde \<Rightarrow> (port_type \<Rightarrow> 'j \<Rightarrow> (string, 'r packed) result) \<Rightarrow> (string \<rightharpoonup> string) \<Rightarrow> port_type \<Rightarrow> 'j \<Rightarrow> (string, 'r flow_value) result" where
  "checkpoint_decode_batch sd reader cles t b =
     (if batch_type t then try_then (reader t b) (unpack_batch sd cles t) else Err ''unsupported batch_type for checkpoint'')"

definition deserialize_non_batch_port_value :: "('r, 'j) serde \<Rightarrow> port_type \<Rightarrow> 'j \<Rightarrow> (string, 'r flow_value) result" where
  "deserialize_non_batch_port_value sd t j =
     (if t \<in> {PResults, PChildren, PUuids, PMeta, PRules, PText} then try_then (sd_parse sd t j) (\<lambda>d. Ok (Data d))
      else if t \<in> {PMap, PAny} then try_then (sd_parse sd PMap j) (\<lambda>d. Ok (Data d))
      else if t = PEmpty then Ok Trigger
      else Err ''checkpoint deserialization not supported'')"

definition port_value_from_checkpoint_avec ::
  "('r, 'j) serde \<Rightarrow> (string \<rightharpoonup> string) \<Rightarrow> 'j checkpoint_value \<Rightarrow> (string, 'r flow_value) result" where
  "port_value_from_checkpoint_avec sd cles c =
     (if cv_type c = PEmpty then Ok Trigger
      else if cv_batch c then
        (case (cv_bytes c, cv_file c, cv_json c) of
           (Some b, _, _) \<Rightarrow> checkpoint_decode_batch sd (sd_unpack sd) cles (cv_type c) b
         | (None, Some f, _) \<Rightarrow> try_then (sd_read sd f) (checkpoint_decode_batch sd (sd_unpack sd) cles (cv_type c))
         | (None, None, Some j) \<Rightarrow> checkpoint_decode_batch sd (sd_parse_batch sd) cles (cv_type c) j
         | (None, None, None) \<Rightarrow> Err ''missing data'')
      else (case cv_json c of
              None \<Rightarrow> Err ''missing data_json''
            | Some j \<Rightarrow> deserialize_non_batch_port_value sd (cv_type c) j))"

definition port_value_from_checkpoint :: "('r, 'j) serde \<Rightarrow> 'j checkpoint_value \<Rightarrow> (string, 'r flow_value) result" where
  "port_value_from_checkpoint sd = port_value_from_checkpoint_avec sd Map.empty"

text \<open>The keys and the uuids of the rows of a recorded batch of entities.\<close>

fun packed_keys :: "'r packed \<Rightarrow> (string \<times> string) list" where
  "packed_keys (PackedEntities cs) = List.map_filter cle_et_uuid cs"
| "packed_keys _ = []"

definition correspondances_des_entites :: "('r, 'j) serde \<Rightarrow> 'j checkpoint_value \<Rightarrow> (string, (string \<times> string) list) result" where
  "correspondances_des_entites sd c =
     (if cv_type c \<noteq> PEntities \<or> \<not> cv_batch c then Ok []
      else case (cv_bytes c, cv_file c, cv_json c) of
             (Some b, _, _) \<Rightarrow> try_then (sd_unpack sd PEntities b) (\<lambda>p. Ok (packed_keys p))
           | (None, Some f, _) \<Rightarrow> try_then (sd_read sd f) (\<lambda>b. try_then (sd_unpack sd PEntities b) (\<lambda>p. Ok (packed_keys p)))
           | (None, None, Some j) \<Rightarrow> try_then (sd_parse_batch sd PEntities j) (\<lambda>p. Ok (packed_keys p))
           | (None, None, None) \<Rightarrow> Ok [])"

section \<open>What comes back\<close>

text \<open>The serializers read back what they wrote.\<close>

fun data_type :: "'r payload port_data \<Rightarrow> port_type" where
  "data_type (DResults _) = PResults"
| "data_type (DChildren _) = PChildren"
| "data_type (DUuids _) = PUuids"
| "data_type (DMeta _) = PMeta"
| "data_type (DText _) = PText"
| "data_type (DStatus _) = PAny"
| "data_type (DOther t _) = t"

fun packed_type :: "'r packed \<Rightarrow> port_type" where
  "packed_type (PackedEntities _) = PEntities"
| "packed_type (PackedRelations _) = PRelations"
| "packed_type (PackedRows t _) = t"

definition reads_back :: "('r, 'j) serde \<Rightarrow> bool" where
  "reads_back sd \<longleftrightarrow> (\<forall>d j. sd_json sd d = Ok j \<longrightarrow> sd_parse sd (data_type d) j = Ok d)
     \<and> (\<forall>k b. sd_pack sd k = Ok b \<longrightarrow> sd_unpack sd (packed_type k) b = Ok k)"

text \<open>
  The records whose checkpoint form keeps everything: the reference of a row is resolved and its
  resolver was used, the ends of a link are uuids.
\<close>

fun entity_settled :: "'r entity_record \<Rightarrow> bool" where
  "entity_settled r = (\<not> en_resolver r \<and> (\<exists>u. ef_state (en_ref r) = RefReady u))"

fun end_settled :: "ref_or_uuid \<Rightarrow> bool" where
  "end_settled (AtUuid u) = True"
| "end_settled (AtRef _) = False"

fun relation_settled :: "relation_record \<Rightarrow> bool" where
  "relation_settled r = (\<not> rl_resolver r \<and> end_settled (rl_from r) \<and> end_settled (rl_to r)
     \<and> (\<exists>a b. rf_state (rl_ref r) = RelReady a b))"

fun content_settled :: "'r batch_content \<Rightarrow> bool" where
  "content_settled (Entities rs) = list_all entity_settled rs"
| "content_settled (Relations rs) = list_all relation_settled rs"
| "content_settled _ = True"

text \<open>The value is tagged with the type it is, and a batch holds settled records only.\<close>

fun value_settled :: "'r flow_value \<Rightarrow> bool" where
  "value_settled (Data (DOther tag (Batch t c))) = (tag = t \<and> (case c of Some x \<Rightarrow> content_settled x | None \<Rightarrow> True))"
| "value_settled (Data (DOther tag (Rules _))) = (tag = PRules)"
| "value_settled (Data (DOther tag (JsonValue _))) = (tag = PMap)"
| "value_settled _ = True"

text \<open>The types the codec does not know: it writes nothing of them.\<close>

fun value_known :: "'r flow_value \<Rightarrow> bool" where
  "value_known (Data (DStatus _)) = False"
| "value_known (Data (DOther _ (Unknown _))) = False"
| "value_known _ = True"

lemma entity_round_trip: "into_entity_record (entity_to_checkpoint r) = r \<longleftrightarrow> entity_settled r"
  by (cases r; cases "en_ref r"; cases "ef_state (en_ref r)")
    (auto simp: into_entity_record_def entity_to_checkpoint_def ref_state_for_checkpoint_def pre_resolved_def)

lemma bout_round_trip: "bout fresh cles (fst (end_to_checkpoint x)) (snd (end_to_checkpoint x)) cote = x" if "end_settled x"
proof (cases x)
  case (AtUuid u)
  then show ?thesis by (cases u) (simp_all add: bout_def)
qed (use that in simp)

lemma relation_round_trip: "relation_settled r \<Longrightarrow> into_relation_record_avec fresh cles (relation_to_checkpoint r) = r"
  by (cases r; cases "rl_ref r")
    (auto simp: into_relation_record_avec_def relation_to_checkpoint_def bout_round_trip)

lemma batch_round_trip:
  assumes "reads_back sd" and "checkpoint_encode_batch sd t c = Ok b" and "case c of Some x \<Rightarrow> content_settled x | None \<Rightarrow> True"
  shows "checkpoint_decode_batch sd (sd_unpack sd) cles t b = Ok (Data (DOther t (Batch t c)))"
proof -
  have u: "sd_unpack sd (packed_type k) b = Ok k" if "sd_pack sd k = Ok b" for k using assms(1) that by (simp add: reads_back_def)
  have e: "map (into_entity_record \<circ> entity_to_checkpoint) rs = rs" if "list_all entity_settled rs" for rs
    using that entity_round_trip by (induction rs) auto
  have r: "map (into_relation_record_avec fresh cles \<circ> relation_to_checkpoint) rs = rs" if "list_all relation_settled rs" for rs fresh
    using that relation_round_trip by (induction rs) auto
  show ?thesis using assms(2,3)
    by (auto simp: checkpoint_encode_batch_def checkpoint_decode_batch_def batch_type_def e r dest!: u
        split: if_splits option.splits batch_content.splits)
qed

text \<open>A settled value of a type the codec knows comes back as it was; one of an unknown type never comes back.\<close>

lemma codec_round_trip:
  assumes "reads_back sd" and "port_value_to_checkpoint sd v = Ok c" and "value_settled v"
  shows "port_value_from_checkpoint_avec sd cles c = (if value_known v then Ok v else Err ''missing data_json'')"
proof -
  have j: "sd_parse sd (data_type d) j = Ok d" if "sd_json sd d = Ok j" for d j using assms(1) that by (simp add: reads_back_def)
  note b = batch_round_trip [OF assms(1)]
  show ?thesis using assms(2,3)
  proof (cases "(sd, v)" rule: port_value_to_checkpoint.cases)
    case (2 sd' tag t x)
    then obtain y where y: "checkpoint_encode_batch sd t x = Ok y" "c = bare_checkpoint t\<lparr>cv_batch := True, cv_bytes := Some y\<rparr>"
      using assms(2) by auto
    moreover have "t \<noteq> PEmpty" using y(1) by (auto simp: checkpoint_encode_batch_def split: if_splits option.splits)
    ultimately show ?thesis using 2 assms(3) b [OF y(1), of cles]
      by (simp add: port_value_from_checkpoint_avec_def bare_checkpoint_def)
  qed (auto simp: json_checkpoint_def bare_checkpoint_def port_value_from_checkpoint_avec_def deserialize_non_batch_port_value_def dest!: j)
qed

end
