(* ===== verification/Flow_Attempts.thy ===== *)
theory Flow_Attempts
  imports Flow_Resume Flow_Codec
begin

text \<open>
  Executions that are resumed. The locale \<open>checkpoint_store\<close> is what a run relies on of the trait
  \<open>CheckpointStore\<close>, the store in memory of \<open>checkpoint_store.rs\<close> keeps it. Whatever the attempts at an
  execution do, the checkpoint stays faithful to the solution of the graph, and the attempt that ends
  computes what is left of it.
\<close>

section \<open>The store of checkpoints\<close>

definition same_execution :: "'c run_checkpoint \<Rightarrow> 'c run_checkpoint \<Rightarrow> bool" where
  "same_execution cp cp' \<longleftrightarrow> rc_inputs cp' = rc_inputs cp \<and> (distinct (map fst (rc_nodes cp)) \<longrightarrow> distinct (map fst (rc_nodes cp')))"

locale checkpoint_store =
  fixes ops :: "('c, 'w) checkpoint_ops"
    and view :: "'w \<Rightarrow> string \<rightharpoonup> 'c run_checkpoint"
  assumes load: "cs_load ops x w = Ok (view w x)"
    and create: "view (snd (cs_create ops cp w)) = (if fst (cs_create ops cp w) = Ok () then (view w)(rc_id cp \<mapsto> cp) else view w)"
    and save_completed: "view w x = Some cp \<Longrightarrow> \<exists>cp'. view (snd (cs_save_completed ops x n outs w)) x = Some cp' \<and> same_execution cp cp'
      \<and> (\<forall>m. saved_outputs cp' m = saved_outputs cp m \<or> m = n \<and> saved_outputs cp' m = Some outs)"
    and save_failed: "view w x = Some cp \<Longrightarrow> \<exists>cp'. view (snd (cs_save_failed ops x n w)) x = Some cp' \<and> same_execution cp cp'
      \<and> (\<forall>m. saved_outputs cp' m = saved_outputs cp m \<or> m = n \<and> saved_outputs cp' m = None)"
    and mark_failed: "view w x = Some cp \<Longrightarrow> \<exists>cp'. view (snd (cs_mark_failed ops x w)) x = Some cp' \<and> same_execution cp cp'
      \<and> saved_outputs cp' = saved_outputs cp"
    and not_marked: "view w x = Some cp \<Longrightarrow> fst (cs_mark_completed ops x w) = Err e \<Longrightarrow>
      \<exists>cp'. view (snd (cs_mark_completed ops x w)) x = Some cp' \<and> same_execution cp cp' \<and> saved_outputs cp' = saved_outputs cp"
begin

text \<open>The execution \<open>x\<close> has a checkpoint with these inputs that tells the truth.\<close>

definition holds_truth where
  "holds_truth dec g init pr R x inputs w \<longleftrightarrow> (\<exists>cp. view w x = Some cp \<and> tells dec g init pr R cp \<and> rc_inputs cp = inputs)"

end

lemma restored_step:
  assumes "saved_outputs cp' m = saved_outputs cp m \<or> m = n \<and> saved_outputs cp' m = s"
  shows "restored_outputs dec cp' m = restored_outputs dec cp m
    \<or> m = n \<and> restored_outputs dec cp' m = Option.bind s (\<lambda>outs. case decode_ports dec outs of Inr pvs \<Rightarrow> Some pvs | Inl _ \<Rightarrow> None)"
  using assms by (auto simp: restored_outputs_def)

lemma tells_step:
  assumes t: "tells dec g init pr R cp" and s: "same_execution cp cp'"
    and o: "\<And>m. restored_outputs dec cp' m = restored_outputs dec cp m \<or> m = n \<and> restored_outputs dec cp' m = new" and n: "n \<notin> R"
    and new: "\<And>pvs. new = Some pvs \<Longrightarrow> n \<in> set (names_of g) \<and> \<not> starved g init pr n
      \<and> (\<forall>p. (map_of (rev pvs) p = None \<or> map_of (rev pvs) p = pr (n, p)) \<and> (0 < cnt (unread g R) (n, p) \<longrightarrow> map_of (rev pvs) p = pr (n, p)))"
  shows "tells dec g init pr R cp'"
proof -
  have "m \<in> set (names_of g) \<and> \<not> starved g init pr m
          \<and> (\<forall>p. (restored_values dec cp' (m, p) = None \<or> restored_values dec cp' (m, p) = pr (m, p))
               \<and> (0 < cnt (unread g R) (m, p) \<longrightarrow> restored_values dec cp' (m, p) = pr (m, p)))"
    if m: "m \<in> restored_nodes dec cp'" for m
  proof (cases "restored_outputs dec cp' m = restored_outputs dec cp m")
    case True
    then have "m \<in> restored_nodes dec cp" "restored_values dec cp' (m, p) = restored_values dec cp (m, p)" for p
      using m by (auto simp: restored_nodes_def restored_values_def domIff)
    then show ?thesis using t by (simp add: tells_def)
  next
    case False
    then obtain pvs where "m = n" "new = Some pvs" "restored_outputs dec cp' m = Some pvs" using o [of m] m by (auto simp: restored_nodes_def)
    then show ?thesis using new [of pvs] by (simp add: restored_values_def)
  qed
  moreover have "R \<subseteq> restored_nodes dec cp'"
  proof
    fix m assume "m \<in> R"
    then have "restored_outputs dec cp' m = restored_outputs dec cp m" using o [of m] n by blast
    then show "m \<in> restored_nodes dec cp'" using t \<open>m \<in> R\<close> by (auto simp: tells_def restored_nodes_def)
  qed
  ultimately show ?thesis using t s by (simp add: tells_def same_execution_def)
qed

lemma tells_same:
  assumes "tells dec g init pr R cp" and "same_execution cp cp'" and "saved_outputs cp' = saved_outputs cp"
  shows "tells dec g init pr R cp'"
proof -
  have "restored_outputs dec cp' = restored_outputs dec cp" using assms(3) by (simp add: restored_outputs_def fun_eq_iff)
  then show ?thesis using assms(1,2) by (simp add: tells_def same_execution_def restored_nodes_def restored_values_def)
qed

text \<open>A value comes back as it was, or reading it is an error.\<close>

definition comes_back :: "('v \<Rightarrow> (string, 'c) result) \<Rightarrow> ('c \<Rightarrow> (string, 'v) result) \<Rightarrow> 'v \<Rightarrow> bool" where
  "comes_back enc dec v \<longleftrightarrow> (\<forall>c v'. enc v = Ok c \<and> dec c = Ok v' \<longrightarrow> v' = v)"

lemma encode_decode:
  assumes "\<forall>pv \<in> set pvs. comes_back enc dec (snd pv)" and "encode_ports enc pvs = Ok outs" and "decode_ports dec outs = Ok pvs'"
  shows "pvs' = pvs"
  using assms unfolding encode_ports_def decode_ports_def traverse_eq_Inr
proof (induction pvs arbitrary: outs pvs')
  case (Cons pv pvs)
  then obtain c outs1 v' pvs1 where o: "outs = (fst pv, c) # outs1" "enc (snd pv) = Ok c" "pvs' = (fst pv, v') # pvs1" "dec c = Ok v'"
    "list_all2 (\<lambda>x y. (case x of (p, v) \<Rightarrow> try_then (enc v) (\<lambda>c. Ok (p, c))) = Ok y) pvs outs1"
    "list_all2 (\<lambda>x y. (case x of (p, c) \<Rightarrow> try_then (dec c) (\<lambda>v. Ok (p, v))) = Ok y) outs1 pvs1"
    by (cases pv) (auto simp: list_all2_Cons1)
  have "v' = snd pv" using Cons.prems(1) o(2,4) by (auto simp: comes_back_def)
  moreover have "pvs1 = pvs" using Cons.IH [OF _ o(5,6)] Cons.prems(1) by simp
  ultimately show ?case using o(3) by simp
qed auto

lemma consumed_lookup:
  "map_of (rev (consumed st n outs)) p =
     (if case ls_remaining st (n, p) of Some c \<Rightarrow> 0 < c | None \<Rightarrow> False then map_of (rev outs) p else None)"
  unfolding consumed_def
  by (induction outs rule: rev_induct) (auto split: option.splits)

text \<open>What a node that ends saves is what the readers that are left want.\<close>

lemma consumed_tells:
  assumes inv: "resume_inv nodes g init pr R D T st" and n: "n \<in> T - ls_completed st"
  shows "n \<notin> R" "n \<in> set (names_of g)" "\<not> starved g init pr n"
    and "map_of (rev (consumed st n (solution_outputs nodes g init pr n))) p = None
      \<or> map_of (rev (consumed st n (solution_outputs nodes g init pr n))) p = pr (n, p)"
    and "0 < cnt (unread g R) (n, p) \<Longrightarrow> map_of (rev (consumed st n (solution_outputs nodes g init pr n))) p = pr (n, p)"
proof -
  note d = resume_invD [OF inv]
  show "n \<notin> R" "n \<in> set (names_of g)" using n d(3,5) by blast+
  show s: "\<not> starved g init pr n" using n d(7) d(9) [of n] by blast
  have pr: "pr (n, p) = map_of (rev (solution_outputs nodes g init pr n)) p"
    using d(1) s n d(5) by (auto simp: flow_solution_def)
  then show "map_of (rev (consumed st n (solution_outputs nodes g init pr n))) p = None
      \<or> map_of (rev (consumed st n (solution_outputs nodes g init pr n))) p = pr (n, p)" by (simp add: consumed_lookup)
  show "map_of (rev (consumed st n (solution_outputs nodes g init pr n))) p = pr (n, p)" if c: "0 < cnt (unread g R) (n, p)"
  proof -
    obtain e where e: "e \<in> set (g_edges g)" "fe_to_node e \<notin> R" "out_of e = (n, p)" using c cnt_pos by (force simp: unread_def)
    have "fe_to_node e \<notin> T"
    proof
      assume "fe_to_node e \<in> T"
      then have "fed g (ls_completed st) (fe_to_node e)" using d(6) e(2) by blast
      then show False using e n by (auto simp: fed_def edges_to_def out_of_def)
    qed
    then have "0 < cnt (unread g T) (n, p)" using e cnt_pos by (force simp: unread_def)
    moreover obtain k where "ls_remaining st (n, p) = Some k" "k = cnt (unread g T) (n, p)"
      using d(11) [unfolded store_ok_def, rule_format, of "(n, p)"] c n by auto
    ultimately show ?thesis by (simp add: consumed_lookup pr)
  qed
qed

lemma consumed_subset: "set (consumed st n outs) \<subseteq> set outs"
  by (auto simp: consumed_def)

section \<open>Inputs\<close>

definition given_keys :: "(string \<times> string \<times> 'v) list \<Rightarrow> (string \<times> string) set" where
  "given_keys ins = (\<lambda>(n, p, _). (n, p)) ` set ins"

lemma initial_map_is:
  "initial_map ins = (\<lambda>n. if n \<in> fst ` set ins then Some (\<lambda>p. map_of (rev (map snd (filter (\<lambda>x. fst x = n) ins))) p) else None)"
proof (induction ins rule: rev_induct)
  case Nil
  show ?case by (simp add: initial_map_def)
next
  case (snoc x ins)
  obtain n p v where x: "x = (n, p, v)" by (cases x)
  have "initial_map (ins @ [x]) = (initial_map ins)(n \<mapsto> (case initial_map ins n of Some ports \<Rightarrow> ports | None \<Rightarrow> Map.empty)(p \<mapsto> v))"
    by (simp add: initial_map_def x)
  moreover have "map_of (rev (map snd (filter (\<lambda>x. fst x = n) ins))) = Map.empty" if "n \<notin> fst ` set ins"
    using that by (subst filter_False) (auto simp: image_iff)
  ultimately show ?case unfolding snoc.IH by (auto simp: x fun_eq_iff)
qed

lemma initial_map_again:
  assumes "given_keys ins \<subseteq> given_keys inputs"
  shows "initial_map (ins @ inputs) = initial_map inputs"
proof
  fix n
  have k: "\<exists>v'. (n, p, v') \<in> set inputs" if "(n, p, v) \<in> set ins" for p v using assms that by (force simp: given_keys_def)
  have "map_of (rev (map snd (filter (\<lambda>x. fst x = n) (ins @ inputs)))) = map_of (rev (map snd (filter (\<lambda>x. fst x = n) inputs)))" (is "?l = ?r")
  proof
    fix p
    let ?f = "\<lambda>xs. rev (map snd (filter (\<lambda>x. fst x = n) xs))"
    have "?l p = (case map_of (?f inputs) p of Some v \<Rightarrow> Some v | None \<Rightarrow> map_of (?f ins) p)" by (simp add: map_add_def)
    moreover have "map_of (?f ins) p = None" if "map_of (?f inputs) p = None"
    proof (rule ccontr)
      assume "map_of (?f ins) p \<noteq> None"
      then obtain v where "(p, v) \<in> set (?f ins)" by (auto dest: map_of_SomeD)
      then have "(n, p, v) \<in> set ins" by (auto)
      then obtain v' where "(n, p, v') \<in> set inputs" using k by blast
      then have "p \<in> fst ` set (?f inputs)" by (force simp: image_iff)
      then show False using that by (simp add: map_of_eq_None_iff)
    qed
    ultimately show "?l p = ?r p" by (simp split: option.split)
  qed
  moreover have "n \<in> fst ` set (ins @ inputs) \<longleftrightarrow> n \<in> fst ` set inputs" using k by (force simp: image_iff)
  ultimately show "initial_map (ins @ inputs) n = initial_map inputs n" by (simp add: initial_map_is)
qed

abbreviation with_inputs :: "'a flow_graph \<Rightarrow> (string \<times> string \<times> 'a port_value) list \<Rightarrow> 'a flow_graph" where
  "with_inputs g ins \<equiv> g\<lparr>g_initial_inputs := initial_map ins\<rparr>"

section \<open>Attempts\<close>

text \<open>
  The store after attempts that failed: each is given the inputs of the execution, or a part of them once
  they are recorded; its nodes may fail where those of another did not, a test may make one fail, and
  the host may stop it.
\<close>

inductive attempted for force m K keys from_with hash nodes g inputs where
  start: "cs_load (ck_ops K) (ck_id K) w = Ok None \<Longrightarrow> attempted force m K keys from_with hash nodes g inputs w"
| again: "attempted force m K keys from_with hash nodes g inputs w \<Longrightarrow> repeats (with_inputs g inputs) nodes exec \<Longrightarrow> stays_cancelled annul
    \<Longrightarrow> given_keys ins \<subseteq> given_keys inputs \<Longrightarrow> (cs_load (ck_ops K) (ck_id K) w = Ok None \<longrightarrow> ins = inputs)
    \<Longrightarrow> execute_with_checkpoint_mode force m (K\<lparr>ck_fail_node := fail\<rparr>) keys from_with hash exec annul g ins w = (Err e, w')
    \<Longrightarrow> attempted force m K keys from_with hash nodes g inputs w'"

definition encode_inputs :: "('v \<Rightarrow> (string, 'c) result) \<Rightarrow> (string \<times> string \<times> 'v) list \<Rightarrow> (string, (string \<times> string \<times> 'c) list) result" where
  "encode_inputs enc = traverse (\<lambda>(n, p, v). try_then (enc v) (\<lambda>c. Ok (n, p, c)))"

lemma inputs_round_trip:
  assumes "\<forall>(n, p, v) \<in> set inputs. comes_back enc dec v" and "encode_inputs enc inputs = Ok saved"
    and "traverse (\<lambda>(n, p, c). map_err (f n p) (try_then (dec c) (\<lambda>v. Ok (n, p, v)))) saved = Ok restored"
  shows "restored = inputs"
  using assms unfolding encode_inputs_def traverse_eq_Inr
proof (induction inputs arbitrary: saved restored)
  case (Cons x inputs)
  obtain n p v where x: "x = (n, p, v)" by (cases x)
  from Cons.prems(2) obtain c saved1 where c: "saved = (n, p, c) # saved1" "enc v = Ok c"
    "list_all2 (\<lambda>x y. (case x of (n, p, v) \<Rightarrow> try_then (enc v) (\<lambda>c. Ok (n, p, c))) = Ok y) inputs saved1"
    by (auto simp: x list_all2_Cons1)
  from Cons.prems(3) obtain v' restored1 where v': "restored = (n, p, v') # restored1" "dec c = Ok v'"
    "list_all2 (\<lambda>x y. (case x of (n, p, c) \<Rightarrow> map_err (f n p) (try_then (dec c) (\<lambda>v. Ok (n, p, v)))) = Ok y) saved1 restored1"
    by (cases "dec c") (auto simp: c(1) list_all2_Cons1)
  have "v' = v" using Cons.prems(1) c(2) v'(2) by (auto simp: x comes_back_def)
  moreover have "restored1 = inputs" using Cons.IH [OF _ c(3) v'(3)] Cons.prems(1) by simp
  ultimately show ?case using v'(1) x by simp
qed auto

text \<open>The values the nodes post in the solution.\<close>

definition posted_values where
  "posted_values nodes g init pr =
     {v. \<exists>n p. n \<in> set (names_of g) \<and> \<not> starved g init pr n \<and> (p, v) \<in> set (solution_outputs nodes g init pr n)}"

lemma graph_inv_inputs [simp]: "graph_inv (with_inputs g ins) = graph_inv g"
  by (simp add: graph_inv_def names_of_def edge_typed_def find_output_port_def find_input_port_def find_node_def)

text \<open>What the attempt that ends has done, the nodes \<open>R\<close> being restored with the values \<open>D\<close>.\<close>

definition completes where
  "completes g init pr R D st out \<longleftrightarrow>
     (\<forall>n ins. NodeStarted n ins \<in> set (ls_events st) \<longleftrightarrow>
        n \<in> set (names_of g) \<and> n \<notin> R \<and> \<not> starved g init pr n \<and> ins = node_inputs g init pr n)
     \<and> (\<forall>n \<in> set (names_of g). fo_skipped out n \<noteq> None \<longleftrightarrow> starved g init pr n)
     \<and> (\<forall>k. fo_data out k =
          (if \<exists>e \<in> set (g_edges g). out_of e = k \<and> fe_to_node e \<notin> R then None else if fst k \<in> R then D k else pr k))"

lemma whole_completes:
  assumes "resume_whole nodes g init pr R D st" and "graph_inv g" and "fo_data out = ls_port_data st" and "fo_skipped out = ls_skipped st"
  shows "completes g init pr R D st out"
  unfolding completes_def assms(3,4) using resume_whole_output [OF assms(1,2)] by blast

lemma fresh_tells: "graph_inv g \<Longrightarrow> tells dec g' init pr {} (start_checkpoint x h g inputs) \<and> restored_nodes dec (start_checkpoint x h g inputs) = {}"
proof -
  assume g: "graph_inv g"
  have "restored_outputs dec (start_checkpoint x h g inputs) n = None" for n
  proof (cases "map_of (rc_nodes (start_checkpoint x h g inputs)) n")
    case (Some nc)
    from map_of_SomeD [OF this] have "nc_status nc = NodePending" by (auto simp: start_checkpoint_def)
    then show ?thesis using Some by (simp add: restored_outputs_def saved_outputs_def)
  qed (simp add: restored_outputs_def saved_outputs_def)
  then have "restored_nodes dec (start_checkpoint x h g inputs) = {}" by (auto simp: restored_nodes_def)
  moreover have "distinct (map fst (rc_nodes (start_checkpoint x h g inputs)))"
    using g by (simp add: start_checkpoint_def graph_inv_def comp_def)
  ultimately show ?thesis by (simp add: tells_def)
qed

context checkpoint_store
begin

lemma truth_kept:
  assumes codec: "\<forall>v \<in> posted_values nodes g init pr. comes_back (ck_to K) (ck_from K) v" and K: "ck_ops K = ops"
  shows "saves_keep K (resume_inv nodes g init pr R D) (solution_outputs nodes g init pr) R (holds_truth (ck_from K) g init pr R (ck_id K) inputs)"
  unfolding saves_keep_def
proof (intro conjI allI impI; elim conjE)
  fix T st n w outs
  assume inv: "resume_inv nodes g init pr R D T st" and n: "n \<in> T - ls_completed st"
    and o: "encode_ports (ck_to K) (consumed st n (solution_outputs nodes g init pr n)) = Ok outs"
    and w: "holds_truth (ck_from K) g init pr R (ck_id K) inputs w"
  obtain cp where cp: "view w (ck_id K) = Some cp" "tells (ck_from K) g init pr R cp" "rc_inputs cp = inputs"
    using w by (auto simp: holds_truth_def)
  obtain cp' where cp': "view (snd (cs_save_completed ops (ck_id K) n outs w)) (ck_id K) = Some cp'" "same_execution cp cp'"
    "\<And>m. saved_outputs cp' m = saved_outputs cp m \<or> m = n \<and> saved_outputs cp' m = Some outs"
    using save_completed [OF cp(1), of n outs] by blast
  note t = consumed_tells [OF inv n]
  let ?new = "Option.bind (Some outs) (\<lambda>outs. case decode_ports (ck_from K) outs of Inr pvs \<Rightarrow> Some pvs | Inl _ \<Rightarrow> None)"
  have "\<forall>pv \<in> set (consumed st n (solution_outputs nodes g init pr n)). comes_back (ck_to K) (ck_from K) (snd pv)"
    using codec t(2,3) consumed_subset [of st n "solution_outputs nodes g init pr n"] by (force simp: posted_values_def)
  then have dec: "pvs = consumed st n (solution_outputs nodes g init pr n)" if "?new = Some pvs" for pvs
    using encode_decode [OF _ o] that by (simp split: sum.splits)
  have "tells (ck_from K) g init pr R cp'"
  proof (rule tells_step [OF cp(2) cp'(2) _ t(1), where new = ?new])
    show "restored_outputs (ck_from K) cp' m = restored_outputs (ck_from K) cp m \<or> m = n \<and> restored_outputs (ck_from K) cp' m = ?new" for m
      by (rule restored_step [OF cp'(3)])
    show "n \<in> set (names_of g) \<and> \<not> starved g init pr n
      \<and> (\<forall>p. (map_of (rev pvs) p = None \<or> map_of (rev pvs) p = pr (n, p)) \<and> (0 < cnt (unread g R) (n, p) \<longrightarrow> map_of (rev pvs) p = pr (n, p)))"
      if "?new = Some pvs" for pvs unfolding dec [OF that] using t by blast
  qed
  then show "holds_truth (ck_from K) g init pr R (ck_id K) inputs (snd (cs_save_completed (ck_ops K) (ck_id K) n outs w))"
    using cp' cp(3) by (simp add: holds_truth_def K same_execution_def)
next
  fix n w
  assume n: "n \<notin> R" and w: "holds_truth (ck_from K) g init pr R (ck_id K) inputs w"
  obtain cp where cp: "view w (ck_id K) = Some cp" "tells (ck_from K) g init pr R cp" "rc_inputs cp = inputs"
    using w by (auto simp: holds_truth_def)
  obtain cp' where cp': "view (snd (cs_save_failed ops (ck_id K) n w)) (ck_id K) = Some cp'" "same_execution cp cp'"
    "\<And>m. saved_outputs cp' m = saved_outputs cp m \<or> m = n \<and> saved_outputs cp' m = None"
    using save_failed [OF cp(1), of n] by blast
  have "tells (ck_from K) g init pr R cp'"
    using restored_step [OF cp'(3), where dec = "ck_from K"] by (intro tells_step [OF cp(2) cp'(2) _ n, where new = None]) auto
  then show "holds_truth (ck_from K) g init pr R (ck_id K) inputs (snd (cs_save_failed (ck_ops K) (ck_id K) n w))"
    using cp' cp(3) by (simp add: holds_truth_def K same_execution_def)
qed

lemma run_from_checkpoint:
  assumes codec: "\<forall>v \<in> posted_values nodes g (g_initial_inputs g) pr. comes_back (ck_to K) (ck_from K) v" and K: "ck_ops K = ops"
    and g: "graph_inv g" and sol: "flow_solution g (g_initial_inputs g) nodes pr" and rep: "repeats g nodes exec" and a: "stays_cancelled annul"
    and cp: "view w (ck_id K) = Some cp" "faithful (ck_from K) g (g_initial_inputs g) pr cp"
    and run: "close_execution (ck_ops K) (ck_id K) (execute_inner_with_checkpoint force m K exec annul g cp w) = (r, w')"
  shows "r = Err e \<Longrightarrow> \<exists>cp'. view w' (ck_id K) = Some cp' \<and> faithful (ck_from K) g (g_initial_inputs g) pr cp' \<and> rc_inputs cp' = rc_inputs cp"
    and "r = Ok (Executed (ByLevels st out)) \<Longrightarrow> fo_stopped out = None \<Longrightarrow>
      completes g (g_initial_inputs g) pr (restored_nodes (ck_from K) cp) (restored_values (ck_from K) cp) st out"
proof -
  let ?init = "g_initial_inputs g" and ?R = "restored_nodes (ck_from K) cp" and ?D = "restored_values (ck_from K) cp"
  let ?truth = "holds_truth (ck_from K) g ?init pr ?R (ck_id K) (rc_inputs cp)"
  obtain r0 w0 where inner: "execute_inner_with_checkpoint force m K exec annul g cp w = (r0, w0)" by force
  have w: "?truth w" using cp by (auto simp: holds_truth_def faithful_def)
  have post: "?truth w0 \<and> (\<forall>st out. r0 = Ok (ByLevels st out) \<longrightarrow> fo_stopped out = None \<longrightarrow> completes g ?init pr ?R ?D st out)"
    using inner g
  proof (cases rule: execute_inner_with_checkpoint_cases)
    case (levels order)
    note p = execute_saved_post [OF g levels(1,2) a sol cp(2) rep w refl refl truth_kept [OF codec K], of m]
    show ?thesis
    proof (cases "execute_saved m K exec annul g order cp ?init w")
      case (Inl x)
      then show ?thesis using p levels(3) by (auto split: prod.splits)
    next
      case (Inr y)
      then show ?thesis using p levels(3) by (auto intro: whole_completes [OF _ g] split: prod.splits)
    qed
  qed (use w in auto)
  have c: "close_execution ops (ck_id K) (r0, w0) = (r, w')" using run inner K by simp
  show "completes g ?init pr ?R ?D st out" if "r = Ok (Executed (ByLevels st out))" "fo_stopped out = None"
    using c post that by (auto simp: close_execution_def split: sum.splits dispatch.splits prod.splits if_splits)
  show "\<exists>cp'. view w' (ck_id K) = Some cp' \<and> faithful (ck_from K) g ?init pr cp' \<and> rc_inputs cp' = rc_inputs cp" if "r = Err e"
  proof -
    obtain cp1 where cp1: "view w0 (ck_id K) = Some cp1" "tells (ck_from K) g ?init pr ?R cp1" "rc_inputs cp1 = rc_inputs cp"
      using post by (auto simp: holds_truth_def)
    have "w' = w0 \<or> w' = snd (cs_mark_failed ops (ck_id K) w0)
        \<or> w' = snd (cs_mark_completed ops (ck_id K) w0) \<and> (\<exists>e. fst (cs_mark_completed ops (ck_id K) w0) = Err e)"
      using c that by (auto simp: close_execution_def split: sum.splits dispatch.splits prod.splits if_splits)
    moreover have "same_execution cp1 cp1" by (simp add: same_execution_def)
    ultimately obtain cp2 where "view w' (ck_id K) = Some cp2" "same_execution cp1 cp2" "saved_outputs cp2 = saved_outputs cp1"
      using cp1(1) mark_failed [OF cp1(1)] not_marked [OF cp1(1)] by blast
    then show ?thesis using cp1 tells_same [OF cp1(2)] tells_faithful by (metis same_execution_def)
  qed
qed

text \<open>What the store holds of an execution between two attempts.\<close>

definition between where
  "between K g pr inputs w \<longleftrightarrow> view w (ck_id K) = None
     \<or> (\<exists>cp. view w (ck_id K) = Some cp \<and> faithful (ck_from K) (with_inputs g inputs) (initial_map inputs) pr cp
          \<and> encode_inputs (ck_to K) inputs = Ok (rc_inputs cp))"

lemma attempt_cases:
  assumes recorded: "\<forall>ks. \<forall>(n, p, v) \<in> set inputs. comes_back (ck_to K) (from_with ks) v" and K: "ck_ops K = ops"
    and b: "between K g pr inputs w" and ins: "given_keys ins \<subseteq> given_keys inputs" "view w (ck_id K) = None \<longrightarrow> ins = inputs"
    and run: "execute_with_checkpoint_mode force m K keys from_with hash exec annul g ins w = (r, w')"
  obtains (failed) e where "w' = w" "r = Err e" | (finished) "r = Ok AlreadyDone"
  | (refused) cp e where "view w (ck_id K) = None" "cs_create ops cp w = (Err e, w')" "r = Err (CheckpointStore e)"
  | (created) cp w1 where "view w (ck_id K) = None" "encode_inputs (ck_to K) inputs = Ok (rc_inputs cp)"
      "cp = start_checkpoint (ck_id K) (hash g) g (rc_inputs cp)" "cs_create ops cp w = (Ok (), w1)"
      "close_execution (ck_ops K) (ck_id K) (execute_inner_with_checkpoint force m K exec annul (with_inputs g inputs) cp w1) = (r, w')"
  | (again) cp where "view w (ck_id K) = Some cp" "encode_inputs (ck_to K) inputs = Ok (rc_inputs cp)"
      "faithful (ck_from K) (with_inputs g inputs) (initial_map inputs) pr cp"
      "close_execution (ck_ops K) (ck_id K) (execute_inner_with_checkpoint force m K exec annul (with_inputs g inputs) cp w) = (r, w')"
proof (cases "view w (ck_id K)")
  case None
  note run' = run [unfolded execute_with_checkpoint_mode_def Let_def K load None ins(2) [rule_format, OF None], simplified, folded encode_inputs_def]
  show ?thesis
  proof (cases "encode_inputs (ck_to K) inputs")
    case (Inl e)
    then show ?thesis using run' failed by auto
  next
    case (Inr enc)
    define cp where "cp = start_checkpoint (ck_id K) (hash g) g enc"
    have e: "rc_inputs cp = enc" by (simp add: cp_def start_checkpoint_def)
    obtain x w1 where x: "cs_create ops cp w = (x, w1)" by force
    show ?thesis
    proof (cases x)
      case (Inl e)
      then show ?thesis using run' refused [OF None, of cp e] Inr x by (simp add: cp_def)
    next
      case (Inr u)
      then show ?thesis using run' \<open>encode_inputs (ck_to K) inputs = Ok enc\<close> x created [OF None, of cp w1] e K by (simp add: cp_def)
    qed
  qed
next
  case (Some cp)
  have cp: "encode_inputs (ck_to K) inputs = Ok (rc_inputs cp)" "faithful (ck_from K) (with_inputs g inputs) (initial_map inputs) pr cp"
    using b Some by (auto simp: between_def)
  note run' = run [unfolded execute_with_checkpoint_mode_def Let_def K load Some, simplified]
  consider "rc_hash cp \<noteq> hash g" | "rc_hash cp = hash g" "rc_status cp = RunDone" | "rc_hash cp = hash g" "rc_status cp \<noteq> RunDone" by blast
  then show ?thesis
  proof cases
    case 1 then show ?thesis using run' failed by auto
  next
    case 2 then show ?thesis using run' finished by auto
  next
    case 3
    show ?thesis
    proof (cases "traverse (\<lambda>(_, _, c). keys c) (rc_inputs cp)")
      case (Inl e) then show ?thesis using run' 3 failed by auto
    next
      case (Inr ks)
      note ks = this
      show ?thesis
      proof (cases "traverse (\<lambda>(n, p, c). map_err (InputUnreadable n p) (try_then (from_with (concat ks) c) (\<lambda>v. Ok (n, p, v)))) (rc_inputs cp)")
        case (Inl e) then show ?thesis using run' 3 ks failed by auto
      next
        case (Inr restored)
        then have "restored = inputs" by (rule inputs_round_trip [OF spec [OF recorded] cp(1)])
        then show ?thesis using run' 3 ks Inr again [OF Some cp] K initial_map_again [OF ins(1)] by simp
      qed
    qed
  qed
qed

lemma attempt:
  assumes codec: "\<forall>v \<in> posted_values nodes (with_inputs g inputs) (initial_map inputs) pr. comes_back (ck_to K) (ck_from K) v" and recorded: "\<forall>ks. \<forall>(n, p, v) \<in> set inputs. comes_back (ck_to K) (from_with ks) v"
    and K: "ck_ops K = ops" and g: "graph_inv g" and sol: "flow_solution (with_inputs g inputs) (initial_map inputs) nodes pr"
    and rep: "repeats (with_inputs g inputs) nodes exec" and a: "stays_cancelled annul"
    and b: "between K g pr inputs w" and ins: "given_keys ins \<subseteq> given_keys inputs" "view w (ck_id K) = None \<longrightarrow> ins = inputs"
    and run: "execute_with_checkpoint_mode force m K keys from_with hash exec annul g ins w = (r, w')"
  shows "(\<forall>e. r = Err e \<longrightarrow> between K g pr inputs w')
    \<and> (\<forall>st out. r = Ok (Executed (ByLevels st out)) \<longrightarrow> fo_stopped out = None \<longrightarrow>
        (\<exists>cp. (view w (ck_id K) = Some cp \<or> view w (ck_id K) = None \<and> restored_nodes (ck_from K) cp = {})
          \<and> completes (with_inputs g inputs) (initial_map inputs) pr (restored_nodes (ck_from K) cp) (restored_values (ck_from K) cp) st out))"
  using recorded K b ins run
proof (cases rule: attempt_cases)
  case (failed e)
  then show ?thesis using b by simp
next
  case finished
  then show ?thesis by simp
next
  case (refused cp e)
  then have "view w' (ck_id K) = None" using create [of cp w] by simp
  then show ?thesis using refused(3) by (simp add: between_def)
next
  case (created cp w1)
  have id: "rc_id cp = ck_id K" by (subst created(3)) (simp add: start_checkpoint_def)
  have v: "view w1 (ck_id K) = Some cp" using create [of cp w] created(4) id by simp
  have t: "tells (ck_from K) (with_inputs g inputs) (initial_map inputs) pr {} cp" "restored_nodes (ck_from K) cp = {}"
    using fresh_tells [OF g] created(3) by metis+
  note c = run_from_checkpoint [where K = K and g = "with_inputs g inputs", simplified, OF codec K g sol rep a v tells_faithful [OF t(1)] created(5) [unfolded K]]
  show ?thesis using c t(2) created(1,2) by (auto simp: between_def)
next
  case (again cp)
  note c = run_from_checkpoint [where K = K and g = "with_inputs g inputs", simplified, OF codec K g sol rep a again(1,3) again(4) [unfolded K]]
  show ?thesis using c again(1,2) by (auto simp: between_def)
qed

lemma attempts_between:
  assumes "attempted force m K keys from_with hash nodes g inputs w"
    and codec: "\<forall>v \<in> posted_values nodes (with_inputs g inputs) (initial_map inputs) pr. comes_back (ck_to K) (ck_from K) v" and recorded: "\<forall>ks. \<forall>(n, p, v) \<in> set inputs. comes_back (ck_to K) (from_with ks) v"
    and K: "ck_ops K = ops" and g: "graph_inv g" and sol: "flow_solution (with_inputs g inputs) (initial_map inputs) nodes pr"
  shows "between K g pr inputs w"
  using assms(1)
proof (induction rule: attempted.induct)
  case (start w)
  then show ?case by (simp add: K load between_def)
next
  case (again w exec annul ins fail e w')
  have b: "between (K\<lparr>ck_fail_node := fail\<rparr>) g pr inputs w" using again.IH by (simp add: between_def)
  have l: "view w (ck_id K) = None \<longrightarrow> ins = inputs" using again.hyps(5) by (simp add: K load)
  have "between (K\<lparr>ck_fail_node := fail\<rparr>) g pr inputs w'"
    using attempt [where K = "K\<lparr>ck_fail_node := fail\<rparr>", simplified, OF codec recorded K g sol again.hyps(2,3) b again.hyps(4) l again.hyps(6)] by blast
  then show ?case by (simp add: between_def)
qed

end

section \<open>The store in memory\<close>

lemma saved_outputs_update:
  "saved_outputs (cp\<lparr>rc_nodes := hm_insert n nc (rc_nodes cp)\<rparr>) m =
     (if m = n then (if nc_status nc = NodeDone then Some (nc_outputs nc) else None) else saved_outputs cp m)"
  by (simp add: saved_outputs_def)

interpretation memory: checkpoint_store memory_store "map_of"
proof unfold_locales
  fix x n outs e and w :: "'c memory" and cp :: "'c run_checkpoint"
  show "cs_load memory_store x w = Ok (map_of w x)" by (simp add: memory_store_def mem_load_def)
  show "map_of (snd (cs_create memory_store cp w)) = (if fst (cs_create memory_store cp w) = Ok () then (map_of w)(rc_id cp \<mapsto> cp) else map_of w)"
    by (simp add: memory_store_def mem_create_def)
  assume w: "map_of w x = Some cp"
  show "\<exists>cp'. map_of (snd (cs_save_completed memory_store x n outs w)) x = Some cp' \<and> same_execution cp cp'
      \<and> (\<forall>m. saved_outputs cp' m = saved_outputs cp m \<or> m = n \<and> saved_outputs cp' m = Some outs)"
    using w by (cases "map_of (rc_nodes cp) n")
      (simp_all add: memory_store_def mem_save_completed_def mem_with_node_def same_execution_def saved_outputs_update distinct_hm_insert)
  show "\<exists>cp'. map_of (snd (cs_save_failed memory_store x n w)) x = Some cp' \<and> same_execution cp cp'
      \<and> (\<forall>m. saved_outputs cp' m = saved_outputs cp m \<or> m = n \<and> saved_outputs cp' m = None)"
    using w by (cases "map_of (rc_nodes cp) n")
      (simp_all add: memory_store_def mem_save_failed_def mem_with_node_def same_execution_def saved_outputs_update distinct_hm_insert)
  show "\<exists>cp'. map_of (snd (cs_mark_failed memory_store x w)) x = Some cp' \<and> same_execution cp cp' \<and> saved_outputs cp' = saved_outputs cp"
    using w by (simp add: memory_store_def mem_mark_failed_def mem_with_run_def same_execution_def saved_outputs_def fun_eq_iff)
  show "fst (cs_mark_completed memory_store x w) = Err e \<Longrightarrow>
      \<exists>cp'. map_of (snd (cs_mark_completed memory_store x w)) x = Some cp' \<and> same_execution cp cp' \<and> saved_outputs cp' = saved_outputs cp"
    using w by (simp add: memory_store_def mem_mark_completed_def mem_with_run_def)
qed

section \<open>Resuming until it ends\<close>

text \<open>What a run with checkpoints is given in the code: the codec of \<open>checkpoint.rs\<close> over the serializers.\<close>

definition checkpointing_with :: "('r, 'j) serde \<Rightarrow> ('j checkpoint_value, 'w) checkpoint_ops \<Rightarrow> string \<Rightarrow> bool \<Rightarrow> string option
     \<Rightarrow> ('r payload, 'j checkpoint_value, 'w) checkpointing" where
  "checkpointing_with sd ops execution_id keep fail_node =
     \<lparr>ck_ops = ops, ck_to = port_value_to_checkpoint sd, ck_from = port_value_from_checkpoint sd,
      ck_id = execution_id, ck_keep = keep, ck_fail_node = fail_node\<rparr>"

definition from_checkpoint_with :: "('r, 'j) serde \<Rightarrow> (string \<times> string) list \<Rightarrow> 'j checkpoint_value \<Rightarrow> (string, 'r flow_value) result" where
  "from_checkpoint_with sd cles = port_value_from_checkpoint_avec sd (map_of (rev cles))"

lemma settled_comes_back:
  assumes "reads_back sd" and "value_settled v"
  shows "comes_back (port_value_to_checkpoint sd) (port_value_from_checkpoint sd) v"
    "comes_back (port_value_to_checkpoint sd) (from_checkpoint_with sd ks) v"
  using codec_round_trip [OF assms(1) _ assms(2)]
  by (auto simp: comes_back_def port_value_from_checkpoint_def from_checkpoint_with_def split: if_splits)

text \<open>
  C7. An execution that is resumed until it ends computes its graph. The values are written and read by
  the codec of \<open>checkpoint.rs\<close>, the serializers reading back what they wrote; the nodes give the same
  outputs on the same inputs whenever they succeed; the batches that are given or posted hold settled
  records (a reference still pending, or a link whose end is a reference, does not come back as it
  was). Then after any attempts that failed, whichever nodes failed or panicked in them and whenever
  they were stopped, the attempt that ends without being stopped has run exactly the nodes no required
  input of which got nothing and whose outputs no attempt saved in a form that can be read back
  (a node that posted a value of a type the codec does not know is run again), each on the inputs it
  has in the solution of the equations of the graph; it has skipped exactly the nodes that lack a
  required input; and its output holds the values of the solution at the outputs without reader of the
  nodes it ran, and of the nodes it restored what is left of what they saved.
\<close>

theorem resumption_completes:
  assumes "graph_inv g" and serde: "reads_back sd"
    and sol: "flow_solution (with_inputs g inputs) (initial_map inputs) nodes pr"
    and settled: "\<forall>(n, p, v) \<in> set inputs. value_settled v"
      "\<forall>v \<in> posted_values nodes (with_inputs g inputs) (initial_map inputs) pr. value_settled v"
    and before: "attempted force m (checkpointing_with sd memory_store x keep None) (correspondances_des_entites sd)
        (from_checkpoint_with sd) hash nodes g inputs w"
    and rep: "repeats (with_inputs g inputs) nodes exec" "stays_cancelled annul"
    and ins: "given_keys ins \<subseteq> given_keys inputs" "map_of w x = None \<longrightarrow> ins = inputs"
    and run: "execute_with_checkpoint_mode force m (checkpointing_with sd memory_store x keep None) (correspondances_des_entites sd)
        (from_checkpoint_with sd) hash exec annul g ins w = (Ok (Executed (ByLevels st out)), w')"
      "fo_stopped out = None"
  shows "\<exists>cp. (map_of w x = Some cp \<or> map_of w x = None \<and> restored_nodes (port_value_from_checkpoint sd) cp = {})
    \<and> (\<forall>n ins. NodeStarted n ins \<in> set (ls_events st) \<longleftrightarrow>
        n \<in> set (names_of g) \<and> n \<notin> restored_nodes (port_value_from_checkpoint sd) cp
        \<and> \<not> starved (with_inputs g inputs) (initial_map inputs) pr n
        \<and> ins = node_inputs (with_inputs g inputs) (initial_map inputs) pr n)
    \<and> (\<forall>n \<in> set (names_of g). fo_skipped out n \<noteq> None \<longleftrightarrow> starved (with_inputs g inputs) (initial_map inputs) pr n)
    \<and> (\<forall>k. fo_data out k =
        (if \<exists>e \<in> set (g_edges g). out_of e = k \<and> fe_to_node e \<notin> restored_nodes (port_value_from_checkpoint sd) cp then None
         else if fst k \<in> restored_nodes (port_value_from_checkpoint sd) cp then restored_values (port_value_from_checkpoint sd) cp k
         else pr k))"
proof -
  let ?K = "checkpointing_with sd memory_store x keep None"
  have K: "ck_ops ?K = memory_store" "ck_to ?K = port_value_to_checkpoint sd" "ck_from ?K = port_value_from_checkpoint sd" "ck_id ?K = x"
    by (simp_all add: checkpointing_with_def)
  have codec: "\<forall>v \<in> posted_values nodes (with_inputs g inputs) (initial_map inputs) pr. comes_back (ck_to ?K) (ck_from ?K) v"
    using settled(2) settled_comes_back(1) [OF serde] by (simp add: K)
  have recorded: "\<forall>ks. \<forall>(n, p, v) \<in> set inputs. comes_back (ck_to ?K) (from_checkpoint_with sd ks) v"
    using settled(1) settled_comes_back(2) [OF serde] by (auto simp: K)
  have b: "memory.between ?K g pr inputs w"
    by (rule memory.attempts_between [OF before codec recorded K(1) assms(1) sol])
  have given: "map_of w (ck_id ?K) = None \<longrightarrow> ins = inputs" using ins(2) by (simp add: K)
  note a = memory.attempt [OF codec recorded K(1) assms(1) sol rep b ins(1) given run(1)]
  obtain cp where cp: "map_of w x = Some cp \<or> map_of w x = None \<and> restored_nodes (port_value_from_checkpoint sd) cp = {}"
    "completes (with_inputs g inputs) (initial_map inputs) pr (restored_nodes (port_value_from_checkpoint sd) cp)
       (restored_values (port_value_from_checkpoint sd) cp) st out"
    using a run(2) unfolding K(3,4) by blast
  have same: "names_of (with_inputs g inputs) = names_of g" "g_edges (with_inputs g inputs) = g_edges g" by (simp_all add: names_of_def)
  show ?thesis by (rule exI [of _ cp], rule conjI [OF cp(1)], rule cp(2) [unfolded completes_def same])
qed

section \<open>Witness\<close>

text \<open>
  Three nodes, \<open>b\<close> reads \<open>a\<close> and \<open>u\<close>. In the first attempt \<open>b\<close> breaks, after \<open>a\<close> was saved and \<open>u\<close>
  too, with a value of a type the codec does not know. The second runs \<open>b\<close>, and \<open>u\<close> again.
\<close>

definition codec_demo_serde :: "(nat, nat payload port_data + nat packed) serde" where
  "codec_demo_serde =
     \<lparr>sd_json = (\<lambda>d. Ok (Inl d)),
      sd_parse = (\<lambda>t j. case j of Inl d \<Rightarrow> if data_type d = t then Ok d else Err ''type'' | Inr _ \<Rightarrow> Err ''type''),
      sd_pack = (\<lambda>k. Ok (Inr k)),
      sd_unpack = (\<lambda>t j. case j of Inr k \<Rightarrow> if packed_type k = t then Ok k else Err ''type'' | Inl _ \<Rightarrow> Err ''type''),
      sd_parse_batch = (\<lambda>_ _. Err ''old''), sd_read = (\<lambda>_. Err ''file''), sd_fresh = ''fresh''\<rparr>"

definition codec_demo :: "nat payload flow_graph" where
  "codec_demo = \<lparr>g_nodes =
      [\<lparr>fn_name = ''a'', fn_inputs = [], fn_outputs = [port_value_def ''x'' PText True]\<rparr>,
       \<lparr>fn_name = ''u'', fn_inputs = [], fn_outputs = [port_value_def ''y'' PAny True]\<rparr>,
       \<lparr>fn_name = ''b'', fn_inputs = [port_value_def ''p'' PText True, port_value_def ''q'' PAny True], fn_outputs = [port_value_def ''z'' PText True]\<rparr>],
     g_edges =
      [\<lparr>fe_from_node = ''a'', fe_from_port = ''x'', fe_to_node = ''b'', fe_to_port = ''p''\<rparr>,
       \<lparr>fe_from_node = ''u'', fe_from_port = ''y'', fe_to_node = ''b'', fe_to_port = ''q''\<rparr>],
     g_initial_inputs = Map.empty, g_initial_streams = []\<rparr>"

definition codec_demo_nodes :: "string \<Rightarrow> (string \<rightharpoonup> nat flow_value) \<Rightarrow> nat payload executed" where
  "codec_demo_nodes n ins =
     \<lparr>ex_panicked = False, ex_result = Ok (), ex_misuse = [],
      ex_outputs = (if n = ''a'' then [(''x'', Data (DText ''hi''))] else if n = ''u'' then [(''y'', Data (DOther PAny (Unknown 1)))]
        else [(''z'', Trigger)])\<rparr>"

definition codec_demo_broken :: "nat \<Rightarrow> string \<Rightarrow> (string \<rightharpoonup> nat flow_value) \<Rightarrow> nat payload executed" where
  "codec_demo_broken i n ins = (if n = ''b'' then injected_failure n else codec_demo_nodes n ins)"

definition codec_attempt where
  "codec_attempt exec w =
     execute_with_checkpoint_mode False 5 (checkpointing_with codec_demo_serde memory_store ''run'' True None)
       (correspondances_des_entites codec_demo_serde) (from_checkpoint_with codec_demo_serde) (\<lambda>_. ''h'') exec (\<lambda>_. None) codec_demo [] w"

lemma codec_demo_runs:
  "case codec_attempt codec_demo_broken [] of (Inl e, w) \<Rightarrow>
     (case map_of w ''run'' of
        Some cp \<Rightarrow> restored_outputs (port_value_from_checkpoint codec_demo_serde) cp ''a'' \<noteq> None
          \<and> saved_outputs cp ''u'' \<noteq> None \<and> restored_outputs (port_value_from_checkpoint codec_demo_serde) cp ''u'' = None
      | None \<Rightarrow> False)
     \<and> (case codec_attempt (\<lambda>_. codec_demo_nodes) w of
          (Inr (Executed (ByLevels st out)), _) \<Rightarrow> fo_stopped out = None \<and> fo_skipped out ''u'' = None
        | _ \<Rightarrow> False)
   | _ \<Rightarrow> False"
  by code_simp

lemma codec_demo_reads_back: "reads_back codec_demo_serde"
  by (simp add: reads_back_def codec_demo_serde_def)

lemma codec_demo_inv: "graph_inv codec_demo"
  by (simp add: graph_inv_def codec_demo_def names_of_def edge_typed_def find_output_port_def find_input_port_def find_node_def
      port_value_def_def compatible_with_def)

theorem resumption_completes_witness:
  "\<exists>e w w' cp st out. codec_attempt codec_demo_broken [] = (Err e, w) \<and> map_of w ''run'' = Some cp \<and> saved_outputs cp ''u'' \<noteq> None
     \<and> codec_attempt (\<lambda>_. codec_demo_nodes) w = (Ok (Executed (ByLevels st out)), w')
     \<and> (\<exists>ins. NodeStarted ''u'' ins \<in> set (ls_events st)) \<and> (\<forall>ins. NodeStarted ''a'' ins \<notin> set (ls_events st))"
proof -
  let ?K = "checkpointing_with codec_demo_serde memory_store ''run'' True None" and ?dec = "port_value_from_checkpoint codec_demo_serde"
  have "\<exists>e w cp st out w'. codec_attempt codec_demo_broken [] = (Err e, w) \<and> map_of w ''run'' = Some cp
      \<and> restored_outputs ?dec cp ''a'' \<noteq> None \<and> saved_outputs cp ''u'' \<noteq> None \<and> restored_outputs ?dec cp ''u'' = None
      \<and> codec_attempt (\<lambda>_. codec_demo_nodes) w = (Ok (Executed (ByLevels st out)), w') \<and> fo_stopped out = None \<and> fo_skipped out ''u'' = None"
    using codec_demo_runs
    by (cases "codec_attempt codec_demo_broken []"; cases "fst (codec_attempt codec_demo_broken [])")
      (auto split: sum.splits prod.splits option.splits execution_end.splits dispatch.splits)
  then obtain e w cp st out w' where first: "codec_attempt codec_demo_broken [] = (Err e, w)"
    and cp: "map_of w ''run'' = Some cp" "restored_outputs ?dec cp ''a'' \<noteq> None" "saved_outputs cp ''u'' \<noteq> None" "restored_outputs ?dec cp ''u'' = None"
    and second: "codec_attempt (\<lambda>_. codec_demo_nodes) w = (Ok (Executed (ByLevels st out)), w')" "fo_stopped out = None" "fo_skipped out ''u'' = None"
    by blast
  let ?g = "with_inputs codec_demo []"
  have "topo_order (names_of ?g) (flow_links ?g) [''a'', ''u'', ''b'']"
    by (auto simp: topo_order_def closed_order_def names_of_def flow_links_def fe_link_def codec_demo_def Cons_eq_append_conv)
  then obtain pr where sol: "flow_solution ?g (initial_map []) codec_demo_nodes pr" using flow_solution_exists by blast
  have rep: "repeats ?g codec_demo_nodes codec_demo_broken" "repeats ?g codec_demo_nodes (\<lambda>_. codec_demo_nodes)"
    using injected_failure_fails by (auto simp: repeats_def codec_demo_broken_def)
  have vals: "\<forall>v \<in> posted_values codec_demo_nodes ?g (initial_map []) pr. value_settled v"
    by (auto simp: posted_values_def codec_demo_nodes_def split: if_splits)
  have "attempted False 5 ?K (correspondances_des_entites codec_demo_serde) (from_checkpoint_with codec_demo_serde) (\<lambda>_. ''h'') codec_demo_nodes codec_demo [] []"
    by (rule attempted.start) (simp add: checkpointing_with_def memory_store_def mem_load_def)
  then have before: "attempted False 5 ?K (correspondances_des_entites codec_demo_serde) (from_checkpoint_with codec_demo_serde) (\<lambda>_. ''h'') codec_demo_nodes codec_demo [] w"
    by (rule attempted.again [where fail = None and annul = "\<lambda>_. None" and ins = "[]", OF _ rep(1)])
      (use first in \<open>simp_all add: stays_cancelled_def codec_attempt_def checkpointing_with_def\<close>)
  have "stays_cancelled (\<lambda>_. None)" by (simp add: stays_cancelled_def)
  note c = resumption_completes [OF codec_demo_inv codec_demo_reads_back sol _ vals before rep(2) this _ _ second(1) [unfolded codec_attempt_def] second(2)]
  have names: "''a'' \<in> set (names_of codec_demo)" "''u'' \<in> set (names_of codec_demo)" by (simp_all add: codec_demo_def names_of_def)
  obtain cp' where "map_of w ''run'' = Some cp'"
    and r: "\<And>n ins. NodeStarted n ins \<in> set (ls_events st) \<longleftrightarrow>
        n \<in> set (names_of codec_demo) \<and> n \<notin> restored_nodes ?dec cp' \<and> \<not> starved ?g (initial_map []) pr n \<and> ins = node_inputs ?g (initial_map []) pr n"
    and s: "\<And>n. n \<in> set (names_of codec_demo) \<Longrightarrow> fo_skipped out n \<noteq> None \<longleftrightarrow> starved ?g (initial_map []) pr n"
    using c cp(1) by fastforce
  then have "''a'' \<in> restored_nodes ?dec cp'" "''u'' \<notin> restored_nodes ?dec cp'" using cp by (auto simp: restored_nodes_def)
  then have "(\<exists>ins. NodeStarted ''u'' ins \<in> set (ls_events st)) \<and> (\<forall>ins. NodeStarted ''a'' ins \<notin> set (ls_events st))"
    using r s [OF names(2)] names second(3) by auto
  then show ?thesis using first second(1) cp(1,3) by blast
qed

section \<open>Where a resumed run is not the run it resumes\<close>

definition resume_demo :: "(nat, nat port_value, nat port_value memory) checkpointing" where
  "resume_demo = \<lparr>ck_ops = memory_store, ck_to = Ok, ck_from = Ok, ck_id = ''run'', ck_keep = True, ck_fail_node = None\<rparr>"

definition demo_attempt ::
  "(nat \<Rightarrow> string \<Rightarrow> (string \<rightharpoonup> nat port_value) \<Rightarrow> nat executed) \<Rightarrow> nat port_value memory
     \<Rightarrow> (checkpoint_error, nat execution_end) result \<times> nat port_value memory" where
  "demo_attempt exec w =
     execute_with_checkpoint_mode False 5 resume_demo (\<lambda>_. Ok []) (\<lambda>_::unit list. Ok) (\<lambda>_. ''h'') exec (\<lambda>_. None) level_demo [] w"

text \<open>A run that the host stops is marked as completed: an attempt to go on does nothing.\<close>

lemma stopped_run_is_not_resumed:
  "case execute_with_checkpoint_mode False 5 resume_demo (\<lambda>_. Ok []) (\<lambda>_::unit list. Ok) (\<lambda>_. ''h'') (\<lambda>_. level_demo_nodes)
      (\<lambda>k. if k = 0 then None else Some External) level_demo [] [] of
     (Inr (Executed (ByLevels st out)), w) \<Rightarrow> fo_stopped out = Some External \<and> ls_completed st = {''a''}
       \<and> (case demo_attempt (\<lambda>_. level_demo_nodes) w of (Inr AlreadyDone, _) \<Rightarrow> True | _ \<Rightarrow> False)
   | _ \<Rightarrow> False"
  by code_simp

definition both_demo_nodes :: "string option \<Rightarrow> nat \<Rightarrow> string \<Rightarrow> (string \<rightharpoonup> nat port_value) \<Rightarrow> nat executed" where
  "both_demo_nodes broken i n ins =
     (if broken = Some n then injected_failure n
      else \<lparr>ex_panicked = False, ex_result = Ok (), ex_misuse = [],
            ex_outputs = (if n = ''a'' then [(''x'', Trigger), (''y'', Trigger)] else if n = ''b'' then [(''z'', Trigger)] else [(''w'', Trigger)])\<rparr>)"

text \<open>An output without reader is not saved: what \<open>b\<close> gave before \<open>c\<close> broke is missing in the output of
  the resumed run, which a run that was never interrupted gives.\<close>

lemma resumed_output_is_lost:
  "case demo_attempt (both_demo_nodes (Some ''c'')) [] of (Inl e, w) \<Rightarrow>
     (case demo_attempt (both_demo_nodes None) w of
        (Inr (Executed (ByLevels st out)), _) \<Rightarrow> fo_data out (''c'', ''w'') = Some Trigger \<and> fo_data out (''b'', ''z'') = None
      | _ \<Rightarrow> False)
     \<and> (case demo_attempt (both_demo_nodes None) [] of
        (Inr (Executed (ByLevels st out)), _) \<Rightarrow> fo_data out (''c'', ''w'') = Some Trigger \<and> fo_data out (''b'', ''z'') = Some Trigger
      | _ \<Rightarrow> False)
   | _ \<Rightarrow> False"
  by code_simp

text \<open>A node that is loaded as done with its outputs emptied is restored, and its readers are skipped.\<close>

lemma emptied_node_starves_its_readers:
  "case execute_inner_with_checkpoint False 5 resume_demo (\<lambda>_. level_demo_nodes) (\<lambda>_. None) level_demo
      \<lparr>rc_id = ''run'', rc_status = RunBroken, rc_hash = ''h'',
       rc_nodes = [(''a'', \<lparr>nc_status = NodeDone, nc_outputs = []\<rparr>)], rc_inputs = []\<rparr> [] of
     (Inr (ByLevels st out), w) \<Rightarrow> fo_stopped out = None \<and> fo_skipped out ''b'' \<noteq> None \<and> fo_skipped out ''c'' \<noteq> None
   | _ \<Rightarrow> False"
  by code_simp

end
