(* ===== verification/Blob_Buffer.thy ===== *)
theory Blob_Buffer
  imports Prelude "HOL-Library.Word"
begin

text \<open>
  \<open>src/buffered_blob_store.rs\<close>: the write-back buffer in front of the store of index files.
  The store below it, a \<open>BlobStore\<close> of another crate, is a parameter: the record \<open>blob_ops\<close> of
  its operations on a state, with what the buffer relies on as the locale \<open>blob_store\<close>. The
  buffer is again such a record, \<open>buffered_ops\<close>, and the main lemma is that it is a \<open>blob_store\<close>
  for the contents one sees through it, \<open>view\<close>.

  A call is one critical section, except \<open>flush\<close>, which gives the lock back while the lower store
  works: its three stages (\<open>flush_take\<close>, the call of \<open>save_many\<close>, \<open>flush_restore\<close>) are separate
  functions, and \<open>flush_during\<close> runs them with the writes that arrive while the lock is free.
  \<open>buf_flush\<close> is the flush nobody writes during.
\<close>

section \<open>Stores of blobs\<close>

type_synonym blob_key = "string \<times> string"
type_synonym blob = "8 word list"

record 's blob_ops =
  bo_save :: "blob_key \<Rightarrow> blob \<Rightarrow> 's \<Rightarrow> (string, unit) result \<times> 's"
  bo_load :: "blob_key \<Rightarrow> 's \<Rightarrow> (string, blob) result"
  bo_delete :: "blob_key \<Rightarrow> 's \<Rightarrow> (string, unit) result \<times> 's"
  bo_exists :: "blob_key \<Rightarrow> 's \<Rightarrow> (string, bool) result"
  bo_list :: "string \<Rightarrow> 's \<Rightarrow> (string, string list) result"
  bo_blob_len :: "blob_key \<Rightarrow> 's \<Rightarrow> (string, nat option) result"
  bo_load_range :: "blob_key \<Rightarrow> nat \<Rightarrow> nat \<Rightarrow> 's \<Rightarrow> (string, blob option) result"

definition slice :: "nat \<Rightarrow> nat \<Rightarrow> 'a list \<Rightarrow> 'a list" where
  "slice a b xs = drop a (take b xs)"

text \<open>
  What a store promises of its contents: what a read that succeeds says, what a write that
  succeeds does, and that a call leaves the other files alone whatever happens.
\<close>

locale blob_store =
  fixes ops :: "'s blob_ops"
    and contents :: "'s \<Rightarrow> blob_key \<rightharpoonup> blob"
  assumes load_sees: "bo_load ops k s = Inr d \<Longrightarrow> contents s k = Some d"
    and exists_sees: "bo_exists ops k s = Inr x \<Longrightarrow> x \<longleftrightarrow> contents s k \<noteq> None"
    and list_sees: "bo_list ops i s = Inr ns \<Longrightarrow> set ns = {f. contents s (i, f) \<noteq> None}"
    and len_sees: "bo_blob_len ops k s = Inr (Some n) \<Longrightarrow> \<exists>d. contents s k = Some d \<and> n = length d"
    and range_sees: "bo_load_range ops k a b s = Inr (Some part) \<Longrightarrow> contents s k = Some d \<Longrightarrow> a \<le> b \<Longrightarrow> b \<le> length d \<Longrightarrow> part = slice a b d"
    and save_writes: "bo_save ops k d s = (Inr (), s') \<Longrightarrow> contents s' = (contents s)(k \<mapsto> d)"
    and save_fails: "bo_save ops k d s = (Inl e, s') \<Longrightarrow> contents s' = contents s \<or> contents s' = (contents s)(k \<mapsto> d)"
    and delete_removes: "bo_delete ops k s = (Inr (), s') \<Longrightarrow> contents s' = (contents s)(k := None)"
    and delete_others: "bo_delete ops k s = (r, s') \<Longrightarrow> j \<noteq> k \<Longrightarrow> contents s' j = contents s j"
begin

lemma read_own_write:
  assumes "bo_save ops k d s = (Inr (), s')" and "bo_load ops k s' = Inr d'"
  shows "d' = d"
  using save_writes [OF assms(1)] load_sees [OF assms(2)] by simp

lemma read_after_delete:
  assumes "bo_delete ops k s = (Inr (), s')"
  shows "bo_load ops k s' \<noteq> Inr d"
  using delete_removes [OF assms] load_sees [of k s' d] by auto

lemma list_after_save:
  assumes "bo_save ops (i, f) d s = (Inr (), s')" and "bo_list ops i s = Inr ns" and "bo_list ops i s' = Inr ns'"
  shows "set ns' = insert f (set ns)"
  using save_writes [OF assms(1)] list_sees [OF assms(2)] list_sees [OF assms(3)] by auto

end

section \<open>The buffer\<close>

record flush_stats =
  fs_saves_received :: nat
  fs_bytes_received :: nat
  fs_saves_pushed :: nat
  fs_bytes_pushed :: nat

definition round_trips_saved :: "flush_stats \<Rightarrow> nat" where
  "round_trips_saved st = fs_saves_received st - fs_saves_pushed st"

record 'b buffered =
  bb_inner :: 'b
  bb_writes :: "(blob_key, blob) btree"
  bb_saves_received :: nat
  bb_bytes_received :: nat

definition buffered_new :: "'b \<Rightarrow> 'b buffered" where
  "buffered_new b = \<lparr>bb_inner = b, bb_writes = [], bb_saves_received = 0, bb_bytes_received = 0\<rparr>"

definition pending_len :: "'b buffered \<Rightarrow> nat" where
  "pending_len s = length (bb_writes s)"

definition buf_save :: "blob_key \<Rightarrow> blob \<Rightarrow> 'b buffered \<Rightarrow> (string, unit) result \<times> 'b buffered" where
  "buf_save k d s =
     (Ok (), s\<lparr>bb_saves_received := bb_saves_received s + 1, bb_bytes_received := bb_bytes_received s + length d,
              bb_writes := bt_insert k d (bb_writes s)\<rparr>)"

definition buf_load :: "'b blob_ops \<Rightarrow> blob_key \<Rightarrow> 'b buffered \<Rightarrow> (string, blob) result" where
  "buf_load ops k s = (case map_of (bb_writes s) k of Some d \<Rightarrow> Ok d | None \<Rightarrow> bo_load ops k (bb_inner s))"

definition buf_delete :: "'b blob_ops \<Rightarrow> blob_key \<Rightarrow> 'b buffered \<Rightarrow> (string, unit) result \<times> 'b buffered" where
  "buf_delete ops k s =
     (let s1 = s\<lparr>bb_writes := bt_remove k (bb_writes s)\<rparr>;
          (r, b) = bo_delete ops k (bb_inner s1)
      in (r, s1\<lparr>bb_inner := b\<rparr>))"

definition buf_exists :: "'b blob_ops \<Rightarrow> blob_key \<Rightarrow> 'b buffered \<Rightarrow> (string, bool) result" where
  "buf_exists ops k s = (if bt_contains (bb_writes s) k then Ok True else bo_exists ops k (bb_inner s))"

definition buf_list :: "'b blob_ops \<Rightarrow> string \<Rightarrow> 'b buffered \<Rightarrow> (string, string list) result" where
  "buf_list ops i s =
     try_then (bo_list ops i (bb_inner s)) (\<lambda>names.
     Ok (sort (foldl (\<lambda>ns e. if fst e = i \<and> snd e \<notin> set ns then ns @ [snd e] else ns) names (bt_keys (bb_writes s)))))"

definition buf_blob_len :: "'b blob_ops \<Rightarrow> blob_key \<Rightarrow> 'b buffered \<Rightarrow> (string, nat option) result" where
  "buf_blob_len ops k s =
     (case map_of (bb_writes s) k of Some d \<Rightarrow> Ok (Some (length d)) | None \<Rightarrow> bo_blob_len ops k (bb_inner s))"

definition buf_load_range :: "'b blob_ops \<Rightarrow> blob_key \<Rightarrow> nat \<Rightarrow> nat \<Rightarrow> 'b buffered \<Rightarrow> (string, blob option) result" where
  "buf_load_range ops k a b s =
     (case map_of (bb_writes s) k of
        Some d \<Rightarrow> (let start = min a (length d) in Ok (Some (slice start (max (min b (length d)) start) d)))
      | None \<Rightarrow> bo_load_range ops k a b (bb_inner s))"

definition buffered_ops :: "'b blob_ops \<Rightarrow> 'b buffered blob_ops" where
  "buffered_ops ops =
     \<lparr>bo_save = buf_save, bo_load = buf_load ops, bo_delete = buf_delete ops, bo_exists = buf_exists ops,
      bo_list = buf_list ops, bo_blob_len = buf_blob_len ops, bo_load_range = buf_load_range ops\<rparr>"

section \<open>Flushing\<close>

text \<open>\<open>BatchSave::save_many\<close>, the default body.\<close>

fun save_many_default :: "'b blob_ops \<Rightarrow> (blob_key \<times> blob) list \<Rightarrow> 'b \<Rightarrow> (string, unit) result \<times> 'b" where
  "save_many_default ops [] b = (Ok (), b)"
| "save_many_default ops ((k, d) # items) b =
     (case bo_save ops k d b of
        (Inl e, b1) \<Rightarrow> (Err e, b1)
      | (Inr _, b1) \<Rightarrow> save_many_default ops items b1)"

definition flush_take :: "'b buffered \<Rightarrow> (blob_key \<times> blob) list \<times> flush_stats \<times> 'b buffered" where
  "flush_take s =
     (bb_writes s,
      \<lparr>fs_saves_received = bb_saves_received s, fs_bytes_received = bb_bytes_received s,
       fs_saves_pushed = length (bb_writes s), fs_bytes_pushed = sum_list (map (length \<circ> snd) (bb_writes s))\<rparr>,
      s\<lparr>bb_writes := [], bb_saves_received := 0, bb_bytes_received := 0\<rparr>)"

definition flush_restore :: "(blob_key \<times> blob) list \<Rightarrow> flush_stats \<Rightarrow> 'b buffered \<Rightarrow> 'b buffered" where
  "flush_restore backup st s =
     s\<lparr>bb_writes := foldl (\<lambda>m e. bt_or_insert (fst e) (snd e) m) (bb_writes s) backup,
       bb_saves_received := bb_saves_received s + fs_saves_received st,
       bb_bytes_received := bb_bytes_received s + fs_bytes_received st\<rparr>"

text \<open>The writes \<open>ws\<close> of other callers reach the buffer while the lock is free, in that order. They do not
  touch the lower store, so it does not matter when during the push they come.\<close>

definition arrive :: "(blob_key \<times> blob) list \<Rightarrow> 'b buffered \<Rightarrow> 'b buffered" where
  "arrive ws s = foldl (\<lambda>s e. snd (buf_save (fst e) (snd e) s)) s ws"

definition flush_during ::
  "(blob_key \<times> blob) list \<Rightarrow> ((blob_key \<times> blob) list \<Rightarrow> 'b \<Rightarrow> (string, unit) result \<times> 'b) \<Rightarrow> 'b buffered
    \<Rightarrow> (string, flush_stats) result \<times> 'b buffered" where
  "flush_during ws save_many s =
     (let (items, st, s1) = flush_take s;
          s2 = arrive ws s1
      in if items = [] then (Ok st, s2)
         else (case save_many items (bb_inner s2) of
                 (Inr _, b) \<Rightarrow> (Ok st, s2\<lparr>bb_inner := b\<rparr>)
               | (Inl e, b) \<Rightarrow> (Err e, flush_restore items st (s2\<lparr>bb_inner := b\<rparr>))))"

definition buf_flush ::
  "((blob_key \<times> blob) list \<Rightarrow> 'b \<Rightarrow> (string, unit) result \<times> 'b) \<Rightarrow> 'b buffered \<Rightarrow> (string, flush_stats) result \<times> 'b buffered" where
  "buf_flush = flush_during []"

text \<open>Dropping the buffer: a last flush when something is pending.\<close>

definition buf_drop :: "((blob_key \<times> blob) list \<Rightarrow> 'b \<Rightarrow> (string, unit) result \<times> 'b) \<Rightarrow> 'b buffered \<Rightarrow> 'b" where
  "buf_drop save_many s = (if pending_len s = 0 then bb_inner s else bb_inner (snd (buf_flush save_many s)))"

section \<open>What is seen through the buffer\<close>

definition view :: "('b \<Rightarrow> blob_key \<rightharpoonup> blob) \<Rightarrow> 'b buffered \<Rightarrow> blob_key \<rightharpoonup> blob" where
  "view contents s = contents (bb_inner s) ++ map_of (bb_writes s)"

lemma set_pending_names:
  "set (foldl (\<lambda>ns e. if fst e = i \<and> snd e \<notin> set ns then ns @ [snd e] else ns) names ks)
     = set names \<union> {f. (i, f) \<in> set ks}"
  by (induction ks arbitrary: names) auto

lemma in_keys: "(k \<in> set (bt_keys m)) = (map_of m k \<noteq> None)"
  by (simp add: bt_keys_def map_of_eq_None_iff)

lemma view_delete: "view contents (s\<lparr>bb_writes := bt_remove k (bb_writes s), bb_inner := b\<rparr>) j
    = (if j = k then contents b k else case map_of (bb_writes s) j of Some d \<Rightarrow> Some d | None \<Rightarrow> contents b j)"
  by (auto simp: view_def map_add_def)

lemma buffered_lawful:
  assumes inner: "blob_store ops contents"
  shows "blob_store (buffered_ops ops) (view contents)"
proof
  fix k j :: blob_key and s s' :: "'a buffered" and d r :: blob and b :: bool and i ns n a e u and c :: nat
  note law = blob_store.load_sees [OF inner] blob_store.exists_sees [OF inner] blob_store.list_sees [OF inner]
    blob_store.len_sees [OF inner] blob_store.range_sees [OF inner] blob_store.delete_removes [OF inner]
    blob_store.delete_others [OF inner]
  show "view contents s k = Some d" if "bo_load (buffered_ops ops) k s = Inr d"
    using that law(1) [of k "bb_inner s"] by (auto simp: buffered_ops_def buf_load_def view_def map_add_def split: option.splits)
  show "b \<longleftrightarrow> view contents s k \<noteq> None" if "bo_exists (buffered_ops ops) k s = Inr b"
    using that law(2) [of k "bb_inner s" b]
    by (auto simp: buffered_ops_def buf_exists_def bt_contains_def view_def map_add_def split: option.splits if_splits)
  show "set ns = {f. view contents s (i, f) \<noteq> None}" if ls: "bo_list (buffered_ops ops) i s = Inr ns"
  proof -
    obtain names where names: "bo_list ops i (bb_inner s) = Inr names" using ls by (auto simp: buffered_ops_def buf_list_def)
    have "set ns = set names \<union> {f. (i, f) \<in> set (bt_keys (bb_writes s))}"
      using ls names by (auto simp: buffered_ops_def buf_list_def set_pending_names)
    then show ?thesis using law(3) [OF names] by (auto simp: in_keys view_def map_add_def split: option.splits)
  qed
  show "\<exists>d. view contents s k = Some d \<and> n = length d" if "bo_blob_len (buffered_ops ops) k s = Inr (Some n)"
    using that law(4) [of k "bb_inner s" n] by (auto simp: buffered_ops_def buf_blob_len_def view_def map_add_def split: option.splits)
  show "r = slice a c d" if "bo_load_range (buffered_ops ops) k a c s = Inr (Some r)" "view contents s k = Some d" "a \<le> c" "c \<le> length d"
    using that law(5) [of k a c "bb_inner s" r d]
    by (auto simp: buffered_ops_def buf_load_range_def view_def map_add_def Let_def split: option.splits)
  show "view contents s' = (view contents s)(k \<mapsto> d)" if "bo_save (buffered_ops ops) k d s = (Inr (), s')"
  proof -
    have "bb_inner s' = bb_inner s" "map_of (bb_writes s') = (map_of (bb_writes s))(k \<mapsto> d)"
      using that by (auto simp: buffered_ops_def buf_save_def)
    then show ?thesis by (simp add: view_def)
  qed
  show "view contents s' = view contents s \<or> view contents s' = (view contents s)(k \<mapsto> d)"
    if "bo_save (buffered_ops ops) k d s = (Inl e, s')"
    using that by (simp add: buffered_ops_def buf_save_def)
  show "view contents s' = (view contents s)(k := None)" if del: "bo_delete (buffered_ops ops) k s = (Inr (), s')"
  proof -
    obtain b where b: "bo_delete ops k (bb_inner s) = (Inr (), b)" and s': "s' = s\<lparr>bb_writes := bt_remove k (bb_writes s), bb_inner := b\<rparr>"
      using del by (auto simp: buffered_ops_def buf_delete_def Let_def split: prod.splits)
    have "contents b = (contents (bb_inner s))(k := None)" using law(6) [OF b] .
    then have "view contents s' j = ((view contents s)(k := None)) j" for j
      unfolding s' view_delete by (simp add: view_def map_add_def split: option.splits)
    then show ?thesis by blast
  qed
  show "view contents s' j = view contents s j" if del: "bo_delete (buffered_ops ops) k s = (u, s')" and jk: "j \<noteq> k"
  proof -
    obtain b where b: "bo_delete ops k (bb_inner s) = (u, b)" and s': "s' = s\<lparr>bb_writes := bt_remove k (bb_writes s), bb_inner := b\<rparr>"
      using del by (auto simp: buffered_ops_def buf_delete_def Let_def split: prod.splits)
    show ?thesis unfolding s' view_delete using jk law(7) [OF b jk] by (simp add: view_def map_add_def split: option.splits)
  qed
qed

section \<open>Flushing keeps what is seen\<close>

text \<open>What a batch promises: all the items, or a state in which each file is as before or as asked.\<close>

definition saves_all :: "((blob_key \<times> blob) list \<Rightarrow> 'b \<Rightarrow> (string, unit) result \<times> 'b) \<Rightarrow> ('b \<Rightarrow> blob_key \<rightharpoonup> blob) \<Rightarrow> bool" where
  "saves_all sm contents \<longleftrightarrow>
     (\<forall>items b r b'. distinct (map fst items) \<and> sm items b = (r, b') \<longrightarrow>
        (if is_ok r then contents b' = contents b ++ map_of items
         else \<forall>k. contents b' k = contents b k \<or> (\<exists>d. (k, d) \<in> set items \<and> contents b' k = Some d)))"

lemma save_many_default_saves_all:
  assumes inner: "blob_store ops contents"
  shows "saves_all (save_many_default ops) contents"
proof -
  have "if is_ok r then contents b' = contents b ++ map_of items
      else \<forall>k. contents b' k = contents b k \<or> (\<exists>d. (k, d) \<in> set items \<and> contents b' k = Some d)"
    if "distinct (map fst items)" "save_many_default ops items b = (r, b')" for items b r b'
    using that
  proof (induction items arbitrary: b)
    case (Cons e items)
    obtain k d where e: "e = (k, d)" by (cases e)
    obtain r1 b1 where sv: "bo_save ops k d b = (r1, b1)" by fastforce
    show ?case
    proof (cases r1)
      case (Inl err)
      have c1: "contents b1 = contents b \<or> contents b1 = (contents b)(k \<mapsto> d)" using blob_store.save_fails [OF inner, of k d b err b1] sv Inl by simp
      have "contents b1 j = contents b j \<or> (\<exists>d'. (j, d') \<in> set (e # items) \<and> contents b1 j = Some d')" for j
      proof (cases "contents b1 j = contents b j")
        case False
        then have "j = k" "contents b1 j = Some d" using c1 by (auto split: if_splits)
        then show ?thesis by (intro disjI2 exI [of _ d]) (simp add: e)
      qed simp
      moreover have "r = Inl err" "b' = b1" using Cons.prems(2) sv Inl e by auto
      ultimately show ?thesis by simp
    next
      case (Inr u)
      have c1: "contents b1 = (contents b)(k \<mapsto> d)" using blob_store.save_writes [OF inner, of k d b b1] sv Inr by simp
      have run: "save_many_default ops items b1 = (r, b')" using Cons.prems(2) sv Inr e by simp
      have new: "k \<notin> fst ` set items" using Cons.prems(1) e by simp
      note IH = Cons.IH [OF _ run]
      show ?thesis
      proof (cases "is_ok r")
        case True
        then have "contents b' = (contents b)(k \<mapsto> d) ++ map_of items" using IH Cons.prems(1) c1 by simp
        then show ?thesis using True new by (simp add: e map_add_upd_left dom_map_of_conv_image_fst)
      next
        case False
        then have "\<forall>j. contents b' j = contents b1 j \<or> (\<exists>d. (j, d) \<in> set items \<and> contents b' j = Some d)" using IH Cons.prems(1) by simp
        then show ?thesis using False c1 by (auto simp: e split: if_splits)
      qed
    qed
  qed simp
  then show ?thesis unfolding saves_all_def by blast
qed

lemma restored_writes:
  "map_of (foldl (\<lambda>n e. bt_or_insert (fst e) (snd e) n) w es) = map_of es ++ map_of w"
  by (induction es arbitrary: w) (auto simp: fun_eq_iff map_add_def split: option.splits)

lemma arrive_writes: "map_of (bb_writes (arrive ws s)) = map_of (bb_writes s) ++ map_of (rev ws)"
  by (induction ws arbitrary: s) (simp_all add: arrive_def buf_save_def)

lemma arrive_keeps:
  "bb_inner (arrive ws s) = bb_inner s"
  "bb_saves_received (arrive ws s) = bb_saves_received s + length ws"
  "bb_bytes_received (arrive ws s) = bb_bytes_received s + sum_list (map (length \<circ> snd) ws)"
  by (induction ws arbitrary: s) (simp_all add: arrive_def buf_save_def)

lemma arrive_view: "view contents (arrive ws s) = view contents s ++ map_of (rev ws)"
  by (simp add: view_def arrive_writes arrive_keeps)

lemma flush_cases:
  assumes "flush_during ws sm s = (r, s')"
  obtains (pushed) st where "r = Inr st" "map_of (bb_writes s') = map_of (rev ws)" "fs_saves_pushed st = length (bb_writes s)"
      "fs_saves_received st = bb_saves_received s" "bb_saves_received s' = length ws"
      "bb_writes s = [] \<and> bb_inner s' = bb_inner s \<or> (\<exists>u. sm (bb_writes s) (bb_inner s) = (Inr u, bb_inner s'))"
  | (failed) e where "r = Inl e" "sm (bb_writes s) (bb_inner s) = (Inl e, bb_inner s')"
      "map_of (bb_writes s') = map_of (bb_writes (arrive ws s))"
      "bb_saves_received s' = bb_saves_received (arrive ws s)" "bb_bytes_received s' = bb_bytes_received (arrive ws s)"
proof (cases "\<exists>e b. bb_writes s \<noteq> [] \<and> sm (bb_writes s) (bb_inner s) = (Inl e, b)")
  case True
  then obtain e b where sm: "bb_writes s \<noteq> []" "sm (bb_writes s) (bb_inner s) = (Inl e, b)" by blast
  then have "r = Inl e"
      "s' = flush_restore (bb_writes s) (fst (snd (flush_take s))) (arrive ws (snd (snd (flush_take s)))\<lparr>bb_inner := b\<rparr>)"
    using assms by (auto simp: flush_during_def flush_take_def arrive_keeps Let_def)
  then show ?thesis using sm by (intro failed) (simp_all add: flush_restore_def flush_take_def restored_writes arrive_writes arrive_keeps)
next
  case False
  then show ?thesis using assms
    by (intro pushed [of "fst (snd (flush_take s))"])
      (auto simp: flush_during_def flush_take_def arrive_writes arrive_keeps Let_def split: prod.splits sum.splits if_splits)
qed

section \<open>A store in memory\<close>

text \<open>A store that keeps its files in one ordered map, as an instance of the interface.\<close>

definition mem_ops :: "(blob_key, blob) btree blob_ops" where
  "mem_ops =
     \<lparr>bo_save = (\<lambda>k d m. (Ok (), bt_insert k d m)), bo_load = (\<lambda>k m. ok_or ''not found'' (map_of m k)),
      bo_delete = (\<lambda>k m. (Ok (), bt_remove k m)), bo_exists = (\<lambda>k m. Ok (bt_contains m k)),
      bo_list = (\<lambda>i m. Ok (map snd (filter (\<lambda>k. fst k = i) (bt_keys m)))),
      bo_blob_len = (\<lambda>k m. Ok (map_option length (map_of m k))),
      bo_load_range = (\<lambda>k a b m. Ok (map_option (slice a b) (map_of m k)))\<rparr>"

lemma set_key_names: "set (map snd (filter (\<lambda>k. fst k = i) ks)) = {f. (i, f) \<in> set ks}"
  by force

interpretation mem: blob_store mem_ops map_of
  by unfold_locales (auto simp: mem_ops_def bt_contains_def set_key_names in_keys simp del: set_map)

interpretation buf: blob_store "buffered_ops mem_ops" "view map_of"
  by (rule buffered_lawful) (rule mem.blob_store_axioms)

section \<open>Properties\<close>

text \<open>
  C14. The buffer refines the store below it: over any store that keeps the interface, the buffered
  store keeps it too, for the contents of the lower store overlaid with the pending writes.
\<close>

theorem buffered_store_is_a_store:
  assumes "blob_store ops contents"
  shows "blob_store (buffered_ops ops) (view contents)"
  by (rule buffered_lawful [OF assms])

theorem buffered_store_is_a_store_witness: "blob_store (buffered_ops mem_ops) (view map_of)"
  by (rule buffered_store_is_a_store [OF mem.blob_store_axioms])

text \<open>
  C15. A flush loses no write, whatever is written while it pushes. Let the saves \<open>ws\<close> arrive in
  the buffer between the moment the flush takes what is pending and the moment it returns (no
  deletion: one that comes then can be undone by the push). Afterwards one sees through the buffer
  what one saw before, overlaid with \<open>ws\<close>. When the flush succeeds, the lower store holds what was
  seen before it, each file pushed once, and what is pending is \<open>ws\<close> alone; when it fails, even
  half-way, what was taken is pending again, except where \<open>ws\<close> holds a newer version, and the
  counters are what they would be without the flush.
\<close>

theorem flush_keeps_the_view:
  assumes "saves_all sm contents" and "bt_wf (bb_writes s)" and "flush_during ws sm s = (r, s')"
  shows "view contents s' = view contents s ++ map_of (rev ws) \<and>
    (case r of
       Inr st \<Rightarrow> map_of (bb_writes s') = map_of (rev ws) \<and> contents (bb_inner s') = view contents s
         \<and> fs_saves_pushed st = length (bb_writes s) \<and> fs_saves_received st = bb_saves_received s \<and> bb_saves_received s' = length ws
     | Inl _ \<Rightarrow> map_of (bb_writes s') = map_of (bb_writes s) ++ map_of (rev ws)
         \<and> bb_saves_received s' = bb_saves_received s + length ws
         \<and> bb_bytes_received s' = bb_bytes_received s + sum_list (map (length \<circ> snd) ws))"
  using assms(3)
proof (cases rule: flush_cases)
  case (pushed st)
  then have "contents (bb_inner s') = contents (bb_inner s) ++ map_of (bb_writes s)"
    using assms(1) bt_wf_distinct [OF assms(2)] unfolding saves_all_def by fastforce
  then show ?thesis using pushed by (simp add: view_def)
next
  case (failed e)
  have files: "\<forall>k. contents (bb_inner s') k = contents (bb_inner s) k
      \<or> (\<exists>d. (k, d) \<in> set (bb_writes s) \<and> contents (bb_inner s') k = Some d)"
    using assms(1) bt_wf_distinct [OF assms(2)] failed(2) unfolding saves_all_def by fastforce
  have "(contents (bb_inner s') ++ map_of (bb_writes s)) k = (contents (bb_inner s) ++ map_of (bb_writes s)) k" for k
  proof (cases "map_of (bb_writes s) k")
    case None
    then have "(k, d) \<notin> set (bb_writes s)" for d by (force simp: map_of_eq_None_iff)
    then show ?thesis using None files by (metis map_add_dom_app_simps(3) domIff)
  qed (simp add: map_add_def)
  then have "contents (bb_inner s') ++ map_of (bb_writes s) = contents (bb_inner s) ++ map_of (bb_writes s)" by blast
  then show ?thesis using failed by (simp add: view_def arrive_writes arrive_keeps)
qed

text \<open>A store that refuses the second file of a batch.\<close>

definition faulty_save :: "(blob_key \<times> blob) list \<Rightarrow> (blob_key, blob) btree \<Rightarrow> (string, unit) result \<times> (blob_key, blob) btree" where
  "faulty_save items m = (case items of [] \<Rightarrow> (Ok (), m) | e # es \<Rightarrow> (if es = [] then Ok () else Err ''full'', bt_insert (fst e) (snd e) m))"

lemma faulty_save_law: "saves_all faulty_save map_of"
proof -
  have "if is_ok r then map_of b' = map_of b ++ map_of items
      else \<forall>k. map_of b' k = map_of b k \<or> (\<exists>d. (k, d) \<in> set items \<and> map_of b' k = Some d)"
    if "faulty_save items b = (r, b')" for items b r b'
  proof (cases items)
    case Nil
    then show ?thesis using that by (simp add: faulty_save_def)
  next
    case (Cons e es)
    then have b': "map_of b' = (map_of b)(fst e \<mapsto> snd e)" and r: "is_ok r \<longleftrightarrow> es = []" using that by (auto simp: faulty_save_def split: if_splits)
    show ?thesis
    proof (cases "es = []")
      case True
      then show ?thesis using b' r Cons by (cases e) simp
    next
      case False
      have "(fst e, snd e) \<in> set items" using Cons by simp
      then show ?thesis using b' r False by (metis fun_upd_apply)
    qed
  qed
  then show ?thesis unfolding saves_all_def by blast
qed

definition demo_buffer :: "(blob_key, blob) btree buffered" where
  "demo_buffer = snd (buf_save (''i'', ''b'') [3] (snd (buf_save (''i'', ''a'') [2] (buffered_new [((''i'', ''a''), [1])]))))"

text \<open>The push fails after the file \<open>a\<close>; meanwhile a newer \<open>b\<close> arrived, and it is what stays pending.\<close>

definition flushed_demo :: "(blob_key, blob) btree buffered" where
  "flushed_demo =
     \<lparr>bb_inner = [((''i'', ''a''), [2])], bb_writes = [((''i'', ''a''), [2]), ((''i'', ''b''), [4])], bb_saves_received = 3, bb_bytes_received = 3\<rparr>"

lemma demo_flush: "flush_during [((''i'', ''b''), [4])] faulty_save demo_buffer = (Inl ''full'', flushed_demo)"
  by code_simp

theorem flush_keeps_the_view_witness:
  "flush_during [((''i'', ''b''), [4])] faulty_save demo_buffer = (Inl ''full'', flushed_demo)
   \<and> view map_of flushed_demo = (view map_of demo_buffer)((''i'', ''b'') \<mapsto> [4])"
proof -
  have "bt_wf (bb_writes demo_buffer)" 
    unfolding demo_buffer_def buf_save_def buffered_new_def by (simp del: bt_insert.simps)
  from flush_keeps_the_view [OF faulty_save_law this demo_flush] demo_flush show ?thesis by simp
qed

text \<open>
  The default \<open>save_many\<close>, one \<open>save\<close> after the other, keeps the contract of a batch over any
  store: all the files, or each file as before or as asked.
\<close>

theorem default_batch_saves_all:
  assumes "blob_store ops contents"
  shows "saves_all (save_many_default ops) contents"
  by (rule save_many_default_saves_all [OF assms])

theorem default_batch_saves_all_witness: "saves_all (save_many_default mem_ops) map_of"
  by (rule default_batch_saves_all [OF mem.blob_store_axioms])

text \<open>
  Between the two halves of a flush the promises of the buffer do not hold: a read sees the old
  version of a file the flush is pushing, a file deleted there comes back when the push ends, and
  a delete the lower store refuses leaves the older version of the file instead of the pending one.
\<close>

theorem flush_window_breaks_promises:
  "let s0 = snd (buf_save (''i'', ''a'') [2] (buffered_new [((''i'', ''a''), [1])]));
       (items, st, s1) = flush_take s0;
       s2 = snd (buf_delete mem_ops (''i'', ''a'') s1);
       s3 = s2\<lparr>bb_inner := snd (save_many_default mem_ops items (bb_inner s2))\<rparr>;
       refusing = mem_ops\<lparr>bo_delete := (\<lambda>k m. (Err ''refused'', m))\<rparr>
   in buf_load mem_ops (''i'', ''a'') s0 = Inr [2] \<and> buf_load mem_ops (''i'', ''a'') s1 = Inr [1]
      \<and> buf_load mem_ops (''i'', ''a'') s2 = Inl ''not found'' \<and> buf_load mem_ops (''i'', ''a'') s3 = Inr [2]
      \<and> buf_load refusing (''i'', ''a'') (snd (buf_delete refusing (''i'', ''a'') s0)) = Inr [1]"
  by code_simp

end
