(* ===== verification/Node_Ids.thy ===== *)
theory Node_Ids
  imports Std_Text
begin

text \<open>
  \<open>src/node_id_cache.rs\<close>: the internal identity of a row, in the two texts the engines give it,
  and the cache from uuids to identities.
\<close>

section \<open>Identities\<close>

record internal_node_id =
  ni_table_id :: "64 word"
  ni_offset :: "64 word"

definition parse_id :: "string \<Rightarrow> internal_node_id option" where
  "parse_id s =
     (case split_once CHR '':'' s of
        Some (table_str, offset_str) \<Rightarrow>
          (case parse_u64 table_str of
             None \<Rightarrow> None
           | Some t \<Rightarrow> (case parse_u64 offset_str of None \<Rightarrow> None | Some i \<Rightarrow> Some \<lparr>ni_table_id = t, ni_offset = i\<rparr>))
      | None \<Rightarrow> (case parse_u64 (trim s) of None \<Rightarrow> None | Some i \<Rightarrow> Some \<lparr>ni_table_id = 0, ni_offset = i\<rparr>))"

definition to_id_string :: "internal_node_id \<Rightarrow> string" where
  "to_id_string i = show_u64 (ni_table_id i) @ '':'' @ show_u64 (ni_offset i)"

section \<open>The cache\<close>

type_synonym node_id_cache = "(string, internal_node_id) btree"

definition cache_new :: node_id_cache where
  "cache_new = []"

definition cache_insert :: "string \<Rightarrow> internal_node_id \<Rightarrow> node_id_cache \<Rightarrow> node_id_cache" where
  "cache_insert u i c = bt_insert u i c"

definition cache_get :: "node_id_cache \<Rightarrow> string \<Rightarrow> internal_node_id option" where
  "cache_get c u = map_of c u"

definition cache_remove :: "string \<Rightarrow> node_id_cache \<Rightarrow> node_id_cache \<times> internal_node_id option" where
  "cache_remove u c = (bt_remove u c, map_of c u)"

definition cache_len :: "node_id_cache \<Rightarrow> nat" where
  "cache_len c = length c"

definition cache_is_empty :: "node_id_cache \<Rightarrow> bool" where
  "cache_is_empty c = (c = [])"

definition cache_clear :: "node_id_cache \<Rightarrow> node_id_cache" where
  "cache_clear c = []"

interpretation cache: keyed_store cache_new cache_insert "\<lambda>u c. fst (cache_remove u c)" cache_get bt_wf
  by unfold_locales (auto simp: cache_new_def cache_insert_def cache_remove_def cache_get_def)

lemma cache_len_keys: "bt_wf c \<Longrightarrow> cache_len c = card {u. cache_get c u \<noteq> None}"
proof -
  assume "bt_wf c"
  then have "length c = card (fst ` set c)" using bt_wf_distinct [of c] by (metis distinct_card length_map set_map)
  moreover have "fst ` set c = {u. cache_get c u \<noteq> None}" by (auto simp: cache_get_def map_of_eq_None_iff)
  ultimately show ?thesis by (simp add: cache_len_def)
qed

section \<open>Digits are not trimmed\<close>

lemma trim_digits: "list_all is_ascii_digit s \<Longrightarrow> trim s = s"
  by (rule trim_plain) (auto simp: list_all_iff is_ascii_alphanumeric_def)

section \<open>Properties\<close>

text \<open>
  Identities survive their texts: what \<open>to_id_string\<close> writes, \<open>parse\<close> reads back, and the
  bare row number PostgreSQL gives is read as that row of table 0.
\<close>

theorem parse_id_round_trip:
  "parse_id (to_id_string i) = Some i \<and> parse_id (show_u64 n) = Some \<lparr>ni_table_id = 0, ni_offset = n\<rparr>"
proof -
  have "split_once CHR '':'' (show_u64 (ni_table_id i) @ CHR '':'' # show_u64 (ni_offset i))
      = Some (show_u64 (ni_table_id i), show_u64 (ni_offset i))"
    using decimal_digits by (intro split_once_append) (simp add: show_u64_def)
  then have "parse_id (to_id_string i) = Some i" by (simp add: parse_id_def to_id_string_def parse_show_u64)
  moreover have "CHR '':'' \<notin> set (show_u64 n)" using decimal_digits by (simp add: show_u64_def)
  then have "split_once CHR '':'' (show_u64 n) = None" by (rule split_once_None)
  moreover have "trim (show_u64 n) = show_u64 n" using decimal_digits by (intro trim_digits) (simp add: show_u64_def)
  ultimately show ?thesis by (simp add: parse_id_def parse_show_u64)
qed

end
