(* ===== verification/Lag.thy ===== *)
theory Lag
  imports Ir_Scope "HOL-Library.Word"
begin

text \<open>
  \<open>src/catalog/retard.rs\<close>: the register of what changed on disk and is not yet indexed again. The
  watcher notes a change, a reindexing erases it, a read of the catalogue tells the lag of its
  cell. Instants are \<open>u64\<close> milliseconds. The rendered line of \<open>status_line\<close> and the clock are not
  modelled.
\<close>

section \<open>The register\<close>

type_synonym instant = "64 word"

record lag_summary =
  ls_files :: nat
  ls_since_ms :: instant

type_synonym lag = "(scope \<times> (string, instant \<times> instant) btree) list"

definition lag_new :: lag where
  "lag_new = []"

definition note_path :: "string \<Rightarrow> instant \<Rightarrow> (string, instant \<times> instant) btree \<Rightarrow> (string, instant \<times> instant) btree" where
  "note_path path at_ms paths =
     (let (f, l) = (case map_of paths path of Some e \<Rightarrow> e | None \<Rightarrow> (at_ms, at_ms))
      in bt_insert path (f, max l at_ms) paths)"

definition lag_note :: "scope \<Rightarrow> string \<Rightarrow> instant \<Rightarrow> lag \<Rightarrow> lag" where
  "lag_note cell path at_ms pending =
     hm_insert cell (note_path path at_ms (or_default (map_of pending) [] cell)) pending"

definition hm_remove :: "'k \<Rightarrow> ('k \<times> 'v) list \<Rightarrow> ('k \<times> 'v) list" where
  "hm_remove k m = filter (\<lambda>e. fst e \<noteq> k) m"

definition lag_done :: "scope \<Rightarrow> string \<Rightarrow> instant \<Rightarrow> lag \<Rightarrow> lag" where
  "lag_done cell path read_at_ms pending =
     (case map_of pending cell of
        None \<Rightarrow> pending
      | Some paths \<Rightarrow>
          (let paths' = (case map_of paths path of
                           Some (_, l) \<Rightarrow> if l \<le> read_at_ms then bt_remove path paths else paths
                         | None \<Rightarrow> paths)
           in if paths' = [] then hm_remove cell pending else hm_insert cell paths' pending))"

definition pending_files :: "lag \<Rightarrow> nat" where
  "pending_files pending = sum_list (map (length \<circ> snd) pending)"

definition summary_in :: "scope \<Rightarrow> lag \<Rightarrow> lag_summary option" where
  "summary_in cell pending =
     (case map_of pending cell of
        None \<Rightarrow> None
      | Some paths \<Rightarrow>
          if paths = [] then None
          else Some \<lparr>ls_files = length paths, ls_since_ms = Min (set (map (fst \<circ> snd) paths))\<rparr>)"

section \<open>What is pending, path by path\<close>

text \<open>One path on its own: the first and the last change that wait.\<close>

datatype lag_op = Note scope string instant | Done scope string instant

fun lag_step :: "lag \<Rightarrow> lag_op \<Rightarrow> lag" where
  "lag_step m (Note c p t) = lag_note c p t m"
| "lag_step m (Done c p t) = lag_done c p t m"

fun path_step :: "(instant \<times> instant) option \<Rightarrow> lag_op \<Rightarrow> (instant \<times> instant) option" where
  "path_step None (Note _ _ t) = Some (t, t)"
| "path_step (Some (f, l)) (Note _ _ t) = Some (f, max l t)"
| "path_step None (Done _ _ t) = None"
| "path_step (Some (f, l)) (Done _ _ t) = (if l \<le> t then None else Some (f, l))"

fun concerns :: "scope \<Rightarrow> string \<Rightarrow> lag_op \<Rightarrow> bool" where
  "concerns c p (Note c' p' _) = (c' = c \<and> p' = p)"
| "concerns c p (Done c' p' _) = (c' = c \<and> p' = p)"

definition path_state :: "lag_op list \<Rightarrow> scope \<Rightarrow> string \<Rightarrow> (instant \<times> instant) option" where
  "path_state ops c p = foldl path_step None (filter (concerns c p) ops)"

definition look :: "lag \<Rightarrow> scope \<Rightarrow> string \<Rightarrow> (instant \<times> instant) option" where
  "look m c p = map_of (or_default (map_of m) [] c) p"

definition lag_wf :: "lag \<Rightarrow> bool" where
  "lag_wf m \<longleftrightarrow> distinct (map fst m) \<and> (\<forall>e \<in> set m. snd e \<noteq> [] \<and> bt_wf (snd e))"

lemma map_of_hm_remove [simp]: "map_of (hm_remove k m) = (map_of m)(k := None)"
  by (induction m) (auto simp: hm_remove_def fun_eq_iff)

lemma bt_insert_nonempty [simp]: "bt_insert k v m \<noteq> []"
  by (cases m) (auto split: prod.splits)

lemma lag_wf_at:
  assumes "lag_wf m" "map_of m c = Some paths"
  shows "paths \<noteq> [] \<and> bt_wf paths"
  using assms map_of_SomeD [OF assms(2)] by (auto simp: lag_wf_def)

lemma lag_wf_default: "lag_wf m \<Longrightarrow> bt_wf (or_default (map_of m) [] c)"
  using lag_wf_at by (auto simp: or_default_def split: option.splits)

lemma lag_wf_put:
  assumes "lag_wf m" "paths \<noteq> []" "bt_wf paths"
  shows "lag_wf (hm_insert c paths m)"
  using assms distinct_hm_insert [of m c paths] set_hm_insert [of c paths m] by (auto simp: lag_wf_def)

lemma lag_wf_del: "lag_wf m \<Longrightarrow> lag_wf (hm_remove c m)"
  by (auto simp: lag_wf_def hm_remove_def distinct_map_filter)

lemma look_note: "look (lag_note c p t m) c' p' = (if c' = c \<and> p' = p then path_step (look m c p) (Note c p t) else look m c' p')"
  by (auto simp: look_def lag_note_def note_path_def or_default_def split: option.splits)

lemma look_done: "look (lag_done c p t m) c' p' = (if c' = c \<and> p' = p then path_step (look m c p) (Done c p t) else look m c' p')"
proof (cases "map_of m c")
  case None
  then show ?thesis by (auto simp: look_def lag_done_def or_default_def)
next
  case (Some paths)
  show ?thesis
  proof (cases "map_of paths p")
    case None
    then show ?thesis using Some by (auto simp: look_def lag_done_def or_default_def Let_def)
  next
    case e: (Some e)
    obtain f l where fl: "e = (f, l)" by (cases e)
    have rem: "map_of (bt_remove p paths) = (map_of paths)(p := None)" by simp
    show ?thesis
    proof (cases "l \<le> t")
      case False
      then show ?thesis using Some e fl by (auto simp: look_def lag_done_def or_default_def Let_def)
    next
      case True
      then show ?thesis
      proof (cases "bt_remove p paths = []")
        case empty: True
        have "map_of paths q = None" if "q \<noteq> p" for q using fun_cong [OF rem, of q] empty that by simp
        then show ?thesis using Some e fl True empty by (auto simp: look_def lag_done_def or_default_def Let_def)
      next
        case False
        then show ?thesis using Some e fl True by (auto simp: look_def lag_done_def or_default_def Let_def)
      qed
    qed
  qed
qed

lemma lag_wf_step: "lag_wf m \<Longrightarrow> lag_wf (lag_step m op)"
proof (cases op)
  case (Note c p t)
  assume wf: "lag_wf m"
  have "note_path p t (or_default (map_of m) [] c) \<noteq> []" "bt_wf (note_path p t (or_default (map_of m) [] c))"
    using lag_wf_default [OF wf, of c] by (auto simp: note_path_def Let_def split: prod.splits)
  then show ?thesis using lag_wf_put [OF wf] Note by (simp add: lag_note_def)
next
  case (Done c p t)
  assume wf: "lag_wf m"
  show ?thesis
  proof (cases "map_of m c")
    case None
    then show ?thesis using wf Done by (simp add: lag_done_def)
  next
    case (Some paths)
    then have "bt_wf paths" using lag_wf_at [OF wf] by blast
    then show ?thesis using Some Done lag_wf_put [OF wf] lag_wf_del [OF wf]
      by (auto simp: lag_done_def Let_def split: option.splits)
  qed
qed

lemma look_step: "look (lag_step m op) c p = (if concerns c p op then path_step (look m c p) op else look m c p)"
  by (cases op) (auto simp: look_note look_done)

lemma look_run: "look (foldl lag_step m ops) c p = foldl path_step (look m c p) (filter (concerns c p) ops)"
  by (induction ops arbitrary: m) (auto simp: look_step)

lemma lag_wf_run: "lag_wf m \<Longrightarrow> lag_wf (foldl lag_step m ops)"
  by (induction ops arbitrary: m) (auto intro: lag_wf_step)

section \<open>Properties\<close>

text \<open>
  C31. The register never loses an edit and never keeps a settled one: after any sequence of changes
  and reindexings, a cell has a lag exactly when one of its paths has changed after the last
  reading of the disk that reindexed it; the lag counts those paths and dates from the oldest
  waiting change.
\<close>

theorem lag_summary_exact:
  "summary_in c (foldl lag_step lag_new ops) =
     (if \<forall>p. path_state ops c p = None then None
      else Some \<lparr>ls_files = card {p. path_state ops c p \<noteq> None},
                 ls_since_ms = Min {f. \<exists>p l. path_state ops c p = Some (f, l)}\<rparr>)"
proof -
  let ?m = "foldl lag_step lag_new ops"
  have "look lag_new c p = None" for p by (simp add: look_def lag_new_def or_default_def)
  then have st: "path_state ops c p = look ?m c p" for p by (simp add: path_state_def look_run)
  have wf: "lag_wf ?m" by (rule lag_wf_run) (simp add: lag_wf_def lag_new_def)
  show ?thesis
  proof (cases "map_of ?m c")
    case None
    then show ?thesis by (simp add: summary_in_def st look_def or_default_def)
  next
    case (Some paths)
    have ne: "paths \<noteq> []" and bw: "bt_wf paths" using lag_wf_at [OF wf Some] by auto
    have lk: "look ?m c p = map_of paths p" for p using Some by (simp add: look_def or_default_def)
    have some: "\<exists>p. map_of paths p \<noteq> None" using ne by (cases paths) auto
    have "length paths = card (fst ` set paths)" using bt_wf_distinct [OF bw] by (metis distinct_card length_map set_map)
    moreover have "fst ` set paths = {p. map_of paths p \<noteq> None}" by (auto simp: map_of_eq_None_iff)
    moreover have "set (map (fst \<circ> snd) paths) = {f. \<exists>p l. map_of paths p = Some (f, l)}"
      using bt_wf_distinct [OF bw] by (force simp: map_of_eq_Some_iff)
    ultimately show ?thesis using Some ne some by (simp add: summary_in_def st lk)
  qed
qed

end
