(* ===== verification/Chunker.thy ===== *)
theory Chunker
  imports Std_Text "HOL-Library.Sublist"
begin

text \<open>
  The chunker of \<open>chunker.rs\<close>: cores cut the text at line, character or semantic boundaries, then
  every core is widened by its context. Texts are UTF-8 bytes, positions are byte offsets; a
  panic (a slice off a character boundary, an index out of range) is \<^term>\<open>None\<close>. The semantic and
  Markdown splitters are those of the crate \<open>text-splitter\<close>: they are a parameter. Sizes are
  naturals: a text and the declared sizes are far below \<open>2^64\<close>, and no sum of two of them wraps.
\<close>

section \<open>Data\<close>

datatype chunk_strategy = Semantic | Fixed | Sentence | Lines | Markdown

record chunker_config =
  cc_max_size :: nat
  cc_overlap :: nat
  cc_strategy :: chunk_strategy
  cc_max_lines :: nat
  cc_overlap_lines :: nat

definition default_chunker_config :: chunker_config where
  "default_chunker_config =
     \<lparr>cc_max_size = 1500, cc_overlap = 200, cc_strategy = Semantic, cc_max_lines = 30, cc_overlap_lines = 5\<rparr>"

record chunk =
  c_text :: string
  c_index :: nat
  c_start_byte :: nat
  c_end_byte :: nat
  c_start_line :: nat
  c_end_line :: nat
  c_core_start_byte :: nat
  c_core_end_byte :: nat
  c_core_start_line :: nat
  c_core_end_line :: nat

record splitters =
  sp_markdown :: "nat \<Rightarrow> string \<Rightarrow> (nat \<times> string) list"
  sp_text :: "nat \<Rightarrow> string \<Rightarrow> (nat \<times> string) list"

section \<open>Helpers\<close>

definition newline :: char where
  "newline = char_of (10 :: nat)"

definition count_newlines :: "string \<Rightarrow> nat" where
  "count_newlines s = length (filter (\<lambda>b. b = newline) s)"

text \<open>\<open>str::lines().count()\<close>: a final newline does not open a line.\<close>

definition count_lines :: "string \<Rightarrow> nat" where
  "count_lines s = count_newlines s + (if s = [] \<or> last s = newline then 0 else 1)"

fun line_counts :: "nat \<Rightarrow> string \<Rightarrow> nat list" where
  "line_counts n [] = []"
| "line_counts n (b # bs) = (let m = (if b = newline then Suc n else n) in m # line_counts m bs)"

definition build_line_index :: "string \<Rightarrow> nat list" where
  "build_line_index s = 0 # line_counts 0 s"

fun snap_back :: "string \<Rightarrow> nat \<Rightarrow> nat" where
  "snap_back s 0 = 0"
| "snap_back s (Suc p) = (if is_char_boundary s (Suc p) then Suc p else snap_back s p)"

definition snap_to_char_boundary :: "string \<Rightarrow> nat \<Rightarrow> nat" where
  "snap_to_char_boundary s pos = snap_back s (min pos (length s))"

definition bytes_of :: "string \<Rightarrow> nat \<Rightarrow> nat \<Rightarrow> string" where
  "bytes_of s a b = take (b - a) (drop a s)"

text \<open>\<open>&text[a..b]\<close>.\<close>

definition str_slice :: "string \<Rightarrow> nat \<Rightarrow> nat \<Rightarrow> string option" where
  "str_slice s a b = (if a \<le> b \<and> is_char_boundary s a \<and> is_char_boundary s b then Some (bytes_of s a b) else None)"

definition nth_opt :: "'a list \<Rightarrow> nat \<Rightarrow> 'a option" where
  "nth_opt xs i = (if i < length xs then Some (xs ! i) else None)"

definition make_chunk :: "nat list \<Rightarrow> string \<Rightarrow> nat \<Rightarrow> nat \<times> nat \<Rightarrow> nat \<times> nat \<Rightarrow> chunk option" where
  "make_chunk line_at t k = (\<lambda>(a, b) (ca, cb).
     (case (nth_opt line_at a, nth_opt line_at b, nth_opt line_at ca, nth_opt line_at cb) of
        (Some la, Some lb, Some lca, Some lcb) \<Rightarrow>
          Some \<lparr>c_text = t, c_index = k, c_start_byte = a, c_end_byte = b, c_start_line = la, c_end_line = lb,
                c_core_start_byte = ca, c_core_end_byte = cb, c_core_start_line = lca, c_core_end_line = lcb\<rparr>
      | _ \<Rightarrow> None))"

text \<open>The range of a core widened by the overlap.\<close>

definition widen :: "string \<Rightarrow> nat \<Rightarrow> nat \<times> nat \<Rightarrow> nat \<times> nat" where
  "widen s overlap = (\<lambda>(core_start, core_end).
     (let start_byte = (if core_start \<ge> overlap then snap_to_char_boundary s (core_start - overlap) else 0);
          end_byte = snap_to_char_boundary s (min (core_end + overlap) (length s))
      in (start_byte, max end_byte (start_byte + 1))))"

fun extend_cores :: "string \<Rightarrow> nat \<Rightarrow> nat list \<Rightarrow> nat \<Rightarrow> (nat \<times> nat) list \<Rightarrow> chunk list option" where
  "extend_cores s overlap line_at k [] = Some []"
| "extend_cores s overlap line_at k (core # cores) =
     (let (a, b) = widen s overlap core
      in case str_slice s a b of
           None \<Rightarrow> None
         | Some raw \<Rightarrow>
             if trim raw = [] then extend_cores s overlap line_at k cores
             else (case make_chunk line_at (trim raw) k (a, b) core of
                     None \<Rightarrow> None
                   | Some c \<Rightarrow> map_option (Cons c) (extend_cores s overlap line_at (k + 1) cores)))"

definition extend_cores_to_chunks :: "string \<Rightarrow> (nat \<times> nat) list \<Rightarrow> nat \<Rightarrow> nat list \<Rightarrow> chunk list option" where
  "extend_cores_to_chunks s cores overlap line_at = extend_cores s overlap line_at 0 cores"

section \<open>Fixed size\<close>

definition core_size :: "chunker_config \<Rightarrow> nat" where
  "core_size cfg = max (cc_max_size cfg - cc_overlap cfg) 1"

definition core_end :: "string \<Rightarrow> nat \<Rightarrow> nat \<Rightarrow> nat" where
  "core_end s sz pos = max (snap_to_char_boundary s (min (pos + sz) (length s))) (pos + 1)"

function fixed_cores :: "string \<Rightarrow> nat \<Rightarrow> nat \<Rightarrow> (nat \<times> nat) list" where
  "fixed_cores s sz pos =
     (if pos < length s then (pos, core_end s sz pos) # fixed_cores s sz (core_end s sz pos) else [])"
  by pat_completeness auto
termination
  by (relation "measure (\<lambda>(s, sz, pos). length s - pos)") (auto simp: core_end_def)

declare fixed_cores.simps [simp del]

definition chunk_fixed :: "chunker_config \<Rightarrow> string \<Rightarrow> chunk list option" where
  "chunk_fixed cfg s = extend_cores_to_chunks s (fixed_cores s (core_size cfg) 0) (cc_overlap cfg) (build_line_index s)"

section \<open>Lines\<close>

definition debuts :: "string \<Rightarrow> nat list" where
  "debuts s = 0 # map Suc (filter (\<lambda>i. s ! i = newline \<and> i + 1 < length s) [0..<length s])"

definition fin_de :: "string \<Rightarrow> nat \<Rightarrow> nat" where
  "fin_de s l = (if l + 1 < length (debuts s) then debuts s ! (l + 1) else length s)"

definition usize_MAX :: nat where
  "usize_MAX = 2 ^ 64 - 1"

definition lines_bound :: "chunker_config \<Rightarrow> nat" where
  "lines_bound cfg = (if cc_max_lines cfg = 0 then usize_MAX else cc_max_lines cfg)"

function grow_core :: "chunker_config \<Rightarrow> string \<Rightarrow> nat \<Rightarrow> nat \<Rightarrow> nat" where
  "grow_core cfg s l fin =
     (if fin < length (debuts s) \<and> fin - l < lines_bound cfg \<and> fin_de s fin - debuts s ! l \<le> cc_max_size cfg
      then grow_core cfg s l (fin + 1) else fin)"
  by pat_completeness auto
termination
  by (relation "measure (\<lambda>(cfg, s, l, fin). length (debuts s) - fin)") auto

declare grow_core.simps [simp del]

lemma grow_core_ge: "fin \<le> grow_core cfg s l fin"
  by (induction cfg s l fin rule: grow_core.induct) (subst grow_core.simps, auto)

function line_cores :: "chunker_config \<Rightarrow> string \<Rightarrow> nat \<Rightarrow> (nat \<times> nat) list" where
  "line_cores cfg s l =
     (if l < length (debuts s) then (l, grow_core cfg s l (l + 1)) # line_cores cfg s (grow_core cfg s l (l + 1)) else [])"
  by pat_completeness auto
termination
proof (relation "measure (\<lambda>(cfg, s, l). length (debuts s) - l)", simp)
  fix cfg s l
  assume "l < length (debuts s)"
  moreover have "l + 1 \<le> grow_core cfg s l (l + 1)" by (rule grow_core_ge)
  ultimately show "((cfg, s, grow_core cfg s l (l + 1)), cfg, s, l) \<in> measure (\<lambda>(cfg, s, l). length (debuts s) - l)" by simp
qed

declare line_cores.simps [simp del]

text \<open>A last core of fewer than 50 bytes joins the one before it.\<close>

definition join_short_last :: "string \<Rightarrow> (nat \<times> nat) list \<Rightarrow> (nat \<times> nat) list" where
  "join_short_last s cores =
     (if length cores \<ge> 2 \<and> fin_de s (snd (last cores) - 1) - debuts s ! fst (last cores) < 50
      then butlast (butlast cores) @ [(fst (last (butlast cores)), snd (last cores))]
      else cores)"

definition widen_lines :: "chunker_config \<Rightarrow> string \<Rightarrow> nat \<times> nat \<Rightarrow> nat \<times> nat" where
  "widen_lines cfg s = (\<lambda>(d, f).
     (debuts s ! (d - cc_overlap_lines cfg), fin_de s (min (f + cc_overlap_lines cfg) (length (debuts s)) - 1)))"

definition core_bytes :: "string \<Rightarrow> nat \<times> nat \<Rightarrow> nat \<times> nat" where
  "core_bytes s = (\<lambda>(d, f). (debuts s ! d, fin_de s (f - 1)))"

fun line_chunks :: "chunker_config \<Rightarrow> string \<Rightarrow> nat list \<Rightarrow> nat \<Rightarrow> (nat \<times> nat) list \<Rightarrow> chunk list option" where
  "line_chunks cfg s line_at k [] = Some []"
| "line_chunks cfg s line_at k (core # cores) =
     (let (a, b) = widen_lines cfg s core
      in case str_slice s a b of
           None \<Rightarrow> None
         | Some raw \<Rightarrow>
             if trim (trim_end raw) = [] then line_chunks cfg s line_at (k + 1) cores
             else (case make_chunk line_at (trim_end raw) k (a, b) (core_bytes s core) of
                     None \<Rightarrow> None
                   | Some c \<Rightarrow> map_option (Cons c) (line_chunks cfg s line_at (k + 1) cores)))"

definition chunk_lines :: "chunker_config \<Rightarrow> string \<Rightarrow> chunk list option" where
  "chunk_lines cfg s = line_chunks cfg s (build_line_index s) 0 (join_short_last s (line_cores cfg s 0))"

section \<open>Semantic and Markdown\<close>

definition splitter_cores :: "(nat \<times> string) list \<Rightarrow> (nat \<times> nat) list" where
  "splitter_cores indices = map (\<lambda>(offset, x). (offset, offset + length x)) (filter (\<lambda>(offset, x). trim x \<noteq> []) indices)"

definition chunk_with_text_splitter :: "splitters \<Rightarrow> chunker_config \<Rightarrow> string \<Rightarrow> chunk list option" where
  "chunk_with_text_splitter sp cfg s =
     (let indices = (if cc_strategy cfg = Markdown then sp_markdown sp else sp_text sp) (core_size cfg) s
      in extend_cores_to_chunks s (splitter_cores indices) (cc_overlap cfg) (build_line_index s))"

section \<open>The chunker\<close>

definition fits :: "chunker_config \<Rightarrow> string \<Rightarrow> bool" where
  "fits cfg s = (length s \<le> cc_max_size cfg \<and>
     (cc_strategy cfg \<noteq> Lines \<or> cc_max_lines cfg = 0 \<or> count_lines s \<le> cc_max_lines cfg))"

definition chunk_text :: "splitters \<Rightarrow> chunker_config \<Rightarrow> string \<Rightarrow> chunk list option" where
  "chunk_text sp cfg s =
     (if s = [] then Some []
      else if fits cfg s then
        (if trim s = [] then Some []
         else Some [\<lparr>c_text = trim s, c_index = 0, c_start_byte = 0, c_end_byte = length s, c_start_line = 0, c_end_line = count_newlines s,
                     c_core_start_byte = 0, c_core_end_byte = length s, c_core_start_line = 0, c_core_end_line = count_newlines s\<rparr>])
      else (case cc_strategy cfg of
              Fixed \<Rightarrow> chunk_fixed cfg s
            | Lines \<Rightarrow> chunk_lines cfg s
            | _ \<Rightarrow> chunk_with_text_splitter sp cfg s))"

section \<open>UTF-8\<close>

text \<open>
  The bytes of a Rust text: every character is a lead byte followed by the continuation bytes it
  announces. (Overlong forms and surrogates are not excluded: the facts below hold for more
  texts than Rust has.)
\<close>

definition char_len :: "char \<Rightarrow> nat" where
  "char_len c = (if char_code c < 128 then 1 else if char_code c < 192 then 0
                 else if char_code c < 224 then 2 else if char_code c < 240 then 3 else if char_code c < 248 then 4 else 0)"

function utf8 :: "string \<Rightarrow> bool" where
  "utf8 [] = True"
| "utf8 (c # cs) =
     (0 < char_len c \<and> char_len c - 1 \<le> length cs \<and> list_all (\<lambda>x. \<not> starts_char x) (take (char_len c - 1) cs) \<and>
      utf8 (drop (char_len c - 1) cs))"
  by pat_completeness auto
termination
  by (relation "measure length") auto

lemma char_len_starts: "0 < char_len c \<Longrightarrow> starts_char c"
  by (auto simp: char_len_def starts_char_def split: if_splits)

lemma char_len_le: "char_len c \<le> 4"
  by (simp add: char_len_def)

lemma boundary_0 [simp]: "is_char_boundary s 0"
  by (simp add: is_char_boundary_def)

lemma boundary_length [simp]: "is_char_boundary s (length s)"
  by (simp add: is_char_boundary_def)

lemma boundary_le: "is_char_boundary s p \<Longrightarrow> p \<le> length s"
  by (auto simp: is_char_boundary_def)

lemma utf8_head: "utf8 s \<Longrightarrow> s \<noteq> [] \<Longrightarrow> starts_char (hd s)"
  by (cases s) (auto dest: char_len_starts)

text \<open>A position is a character boundary exactly when the rest of the text is a text.\<close>

lemma utf8_drop: "utf8 s \<Longrightarrow> is_char_boundary s p \<Longrightarrow> utf8 (drop p s)"
proof (induction s arbitrary: p rule: utf8.induct)
  case (2 c cs)
  let ?n = "char_len c - 1"
  have len: "?n \<le> length cs" and cont: "list_all (\<lambda>x. \<not> starts_char x) (take ?n cs)" and rest: "utf8 (drop ?n cs)"
    using 2 by auto
  show ?case
  proof (cases p)
    case 0
    then show ?thesis using 2 by simp
  next
    case (Suc q)
    have q: "q \<le> length cs" using boundary_le [OF 2(3)] Suc by simp
    have "?n \<le> q"
    proof (rule ccontr)
      assume "\<not> ?n \<le> q"
      then have "q < length cs" "\<not> starts_char (cs ! q)" using len cont by (auto simp: list_all_length)
      then show False using 2(3) Suc by (simp add: is_char_boundary_def)
    qed
    moreover have "is_char_boundary (drop ?n cs) (q - ?n)" using 2(3) Suc q calculation by (auto simp: is_char_boundary_def diff_less_mono)
    then have "utf8 (drop (q - ?n) (drop ?n cs))" by (rule 2(1) [OF rest])
    ultimately have "utf8 (drop (q - ?n) (drop ?n cs))" "q - ?n + ?n = q" by auto
    then show ?thesis using Suc by (simp only: drop_drop drop_Suc_Cons)
  qed
qed simp

lemma utf8_boundary: "utf8 (drop p s) \<Longrightarrow> p \<le> length s \<Longrightarrow> is_char_boundary s p"
  using utf8_head [of "drop p s"] by (cases "p = length s") (auto simp: is_char_boundary_def hd_drop_conv_nth)

lemma utf8_append: "utf8 a \<Longrightarrow> utf8 b \<Longrightarrow> utf8 (a @ b)"
  by (induction a rule: utf8.induct) auto

text \<open>The next boundary is at most four bytes away, one after an ASCII byte.\<close>

lemma next_boundary:
  assumes "utf8 s" "is_char_boundary s p" "p < length s"
  shows "is_char_boundary s (p + char_len (s ! p)) \<and> 0 < char_len (s ! p)"
proof -
  have d: "drop p s = s ! p # drop (Suc p) s" using assms(3) by (simp add: Cons_nth_drop_Suc)
  have u: "0 < char_len (s ! p)" "char_len (s ! p) - 1 \<le> length (drop (Suc p) s)" "utf8 (drop (char_len (s ! p) - 1) (drop (Suc p) s))"
    using utf8_drop [OF assms(1,2)] unfolding d by auto
  have "char_len (s ! p) - 1 + Suc p = p + char_len (s ! p)" using u(1) by simp
  then have "utf8 (drop (p + char_len (s ! p)) s)" using u(3) by (simp add: drop_drop add.commute)
  moreover have "p + char_len (s ! p) \<le> length s" using u(1,2) assms(3) by simp
  ultimately show ?thesis using utf8_boundary u(1) by blast
qed

lemma newline_boundary:
  assumes "utf8 s" "s ! i = newline" "i < length s"
  shows "is_char_boundary s (Suc i)"
proof -
  have nl: "char_len newline = 1" by (simp add: char_len_def newline_def char_code_def)
  then have "is_char_boundary s i" using assms(2,3) char_len_starts [of newline] by (simp add: is_char_boundary_def)
  then show ?thesis using next_boundary [OF assms(1) _ assms(3)] assms(2) nl by simp
qed

section \<open>Snapping, lines and white space\<close>

lemma snap_back_le: "snap_back s p \<le> p"
  by (induction s p rule: snap_back.induct) auto

lemma snap_back_boundary: "is_char_boundary s (snap_back s p)"
  by (induction s p rule: snap_back.induct) auto

lemma snap_back_ge: "is_char_boundary s q \<Longrightarrow> q \<le> p \<Longrightarrow> q \<le> snap_back s p"
  by (induction s p rule: snap_back.induct) (auto simp: le_Suc_eq)

lemma snap_le: "snap_to_char_boundary s p \<le> p"
  using snap_back_le [of s "min p (length s)"] by (simp add: snap_to_char_boundary_def)

lemma snap_boundary [simp]: "is_char_boundary s (snap_to_char_boundary s p)"
  by (simp add: snap_to_char_boundary_def snap_back_boundary)

lemma snap_ge: "is_char_boundary s q \<Longrightarrow> q \<le> p \<Longrightarrow> q \<le> snap_to_char_boundary s p"
  using boundary_le [of s q] by (simp add: snap_to_char_boundary_def snap_back_ge)

lemma line_counts_nth: "i < length s \<Longrightarrow> line_counts n s ! i = n + count_newlines (take (Suc i) s)"
  by (induction n s arbitrary: i rule: line_counts.induct) (auto simp: count_newlines_def Let_def nth_Cons' take_Cons')

lemma length_line_counts [simp]: "length (line_counts n s) = length s"
  by (induction n s rule: line_counts.induct) (auto simp: Let_def)

lemma line_index_exact: "i \<le> length s \<Longrightarrow> nth_opt (build_line_index s) i = Some (count_newlines (take i s))"
  by (cases i) (auto simp: nth_opt_def build_line_index_def line_counts_nth count_newlines_def)

text \<open>A blank text is made of white characters.\<close>

definition blank :: "string \<Rightarrow> bool" where
  "blank s = (\<exists>ws. set ws \<subseteq> set whites \<and> s = concat ws)"

lemma strip_front_strips: "\<exists>ws. set ws \<subseteq> set W \<and> s = concat ws @ strip_front W s"
proof (induction W s rule: strip_front.induct)
  case (1 W s)
  show ?case
  proof (cases "find (\<lambda>w. w \<noteq> [] \<and> starts_with w s) W")
    case None
    then show ?thesis by (intro exI [of _ "[]"]) (simp add: strip_front.simps [of W s])
  next
    case (Some w)
    then obtain r where "w \<in> set W" "s = w @ r" using find_Some_in [OF Some] by (auto simp: starts_with_iff)
    moreover obtain ws where "set ws \<subseteq> set W" "drop (length w) s = concat ws @ strip_front W (drop (length w) s)"
      using 1 [OF Some] by blast
    moreover have "strip_front W s = strip_front W (drop (length w) s)" using Some by (subst strip_front.simps) simp
    ultimately show ?thesis by (intro exI [of _ "w # ws"]) simp
  qed
qed

lemma blank_append: "blank a \<Longrightarrow> blank b \<Longrightarrow> blank (a @ b)"
  unfolding blank_def by (metis concat_append set_append Un_subset_iff)

lemma trim_start_strips: "\<exists>a. blank a \<and> s = a @ trim_start s"
  using strip_front_strips [of whites s] by (auto simp: trim_start_def blank_def)

lemma trim_end_strips: "\<exists>b. blank b \<and> s = trim_end s @ b"
proof -
  obtain ws where ws: "set ws \<subseteq> set (map rev whites)" "rev s = concat ws @ strip_front (map rev whites) (rev s)"
    using strip_front_strips [of "map rev whites" "rev s"] by blast
  have "s = trim_end s @ concat (map rev (rev ws))"
    using arg_cong [OF ws(2), of rev] by (simp add: trim_end_def rev_concat rev_map)
  moreover have "set (map rev (rev ws)) \<subseteq> set whites" using ws(1) by auto
  ultimately show ?thesis unfolding blank_def by blast
qed

lemma trim_end_blank: "blank (trim_end s) \<Longrightarrow> blank s"
  using trim_end_strips [of s] blank_append by metis

lemma trim_nil: "trim [] = []"
  by (rule trim_plain) simp

lemma trim_blank: "trim s = [] \<Longrightarrow> blank s"
proof -
  assume "trim s = []"
  then have "blank (trim_start s)" using trim_end_blank [of "trim_start s"] by (simp add: trim_def blank_def exI [of _ "[]"])
  then show "blank s" using trim_start_strips [of s] blank_append by metis
qed

section \<open>Cores\<close>

text \<open>Cores that tile a range, on character boundaries.\<close>

fun tiling :: "nat \<Rightarrow> nat \<Rightarrow> (nat \<times> nat) list \<Rightarrow> bool" where
  "tiling a e [] = (a = e)"
| "tiling a e ((x, y) # r) = (x = a \<and> a < y \<and> tiling y e r)"

definition core_ok :: "string \<Rightarrow> nat \<times> nat \<Rightarrow> bool" where
  "core_ok s = (\<lambda>(a, b). a < b \<and> is_char_boundary s a \<and> is_char_boundary s b)"

abbreviation apart :: "(nat \<times> nat) list \<Rightarrow> bool" where
  "apart \<equiv> sorted_wrt (\<lambda>x y. snd x \<le> fst y)"

lemma tiling_bounds: "tiling a e cores \<Longrightarrow> a \<le> e \<and> (\<forall>(x, y) \<in> set cores. a \<le> x \<and> x < y \<and> y \<le> e)"
  by (induction a e cores rule: tiling.induct) (fastforce)+

lemma tiling_apart: "tiling a e cores \<Longrightarrow> apart cores"
proof (induction a e cores rule: tiling.induct)
  case (2 a e x y r)
  then show ?case using tiling_bounds [of y e r] by auto
qed simp

lemma tiling_covers: "tiling a e cores \<Longrightarrow> a \<le> p \<Longrightarrow> p < e \<Longrightarrow> \<exists>(x, y) \<in> set cores. x \<le> p \<and> p < y"
proof (induction a e cores rule: tiling.induct)
  case (2 a e x y r)
  then show ?case by (cases "p < y") auto
qed simp

lemma tiling_append: "tiling a e (xs @ ys) \<longleftrightarrow> (\<exists>m. tiling a m xs \<and> tiling m e ys)"
  by (induction a e xs rule: tiling.induct) auto

text \<open>What the chunks of a text promise.\<close>

definition chunk_ok :: "string \<Rightarrow> chunk \<Rightarrow> bool" where
  "chunk_ok s c =
     (c_start_byte c \<le> c_core_start_byte c \<and> c_core_start_byte c < c_core_end_byte c \<and>
      c_core_end_byte c \<le> c_end_byte c \<and> c_end_byte c \<le> length s \<and>
      c_text c \<noteq> [] \<and>
      c_text c \<in> {trim (bytes_of s (c_start_byte c) (c_end_byte c)), trim_end (bytes_of s (c_start_byte c) (c_end_byte c))} \<and>
      c_start_line c = count_newlines (take (c_start_byte c) s) \<and> c_end_line c = count_newlines (take (c_end_byte c) s) \<and>
      c_core_start_line c = count_newlines (take (c_core_start_byte c) s) \<and>
      c_core_end_line c = count_newlines (take (c_core_end_byte c) s))"

text \<open>A byte lies in a blank stretch of the text.\<close>

definition in_blank :: "string \<Rightarrow> nat \<Rightarrow> bool" where
  "in_blank s p = (\<exists>a b. a \<le> p \<and> p < b \<and> b \<le> length s \<and> blank (bytes_of s a b))"

definition core_of :: "chunk \<Rightarrow> nat \<times> nat" where
  "core_of c = (c_core_start_byte c, c_core_end_byte c)"

definition in_core :: "nat \<Rightarrow> nat \<times> nat \<Rightarrow> bool" where
  "in_core p = (\<lambda>(a, b). a \<le> p \<and> p < b)"

text \<open>The chunks made from cores: correct chunks of some of them in order, the others blank.\<close>

definition made_from :: "string \<Rightarrow> (nat \<times> nat) list \<Rightarrow> chunk list \<Rightarrow> bool" where
  "made_from s cores cs =
     (list_all (chunk_ok s) cs \<and> subseq (map core_of cs) cores \<and>
      (\<forall>core \<in> set cores. core \<in> core_of ` set cs \<or> (\<forall>p. in_core p core \<longrightarrow> in_blank s p)))"

lemma made_from_skip:
  "made_from s cores cs \<Longrightarrow> (\<And>p. in_core p core \<Longrightarrow> in_blank s p) \<Longrightarrow> made_from s (core # cores) cs"
  by (auto simp: made_from_def intro: list_emb_Cons)

lemma made_from_keep:
  "made_from s cores cs \<Longrightarrow> chunk_ok s c \<Longrightarrow> core_of c = core \<Longrightarrow> made_from s (core # cores) (c # cs)"
  by (auto simp: made_from_def)

lemma make_chunk_ok:
  assumes "a \<le> ca" "ca < cb" "cb \<le> b" "b \<le> length s" "t \<noteq> []" "t \<in> {trim (bytes_of s a b), trim_end (bytes_of s a b)}"
  shows "\<exists>c. make_chunk (build_line_index s) t k (a, b) (ca, cb) = Some c \<and> chunk_ok s c \<and> core_of c = (ca, cb) \<and> c_index c = k"
  using assms by (simp add: make_chunk_def line_index_exact chunk_ok_def core_of_def)

lemma widen_ok:
  assumes "core_ok s (ca, cb)" "widen s overlap (ca, cb) = (a, b)"
  shows "a \<le> ca \<and> cb \<le> b \<and> b \<le> length s \<and> str_slice s a b = Some (bytes_of s a b)"
proof -
  let ?a = "if ca \<ge> overlap then snap_to_char_boundary s (ca - overlap) else 0"
  let ?b = "snap_to_char_boundary s (min (cb + overlap) (length s))"
  have c: "ca < cb" "is_char_boundary s cb" "cb \<le> length s" using assms(1) boundary_le by (auto simp: core_ok_def)
  have "?a \<le> ca" using snap_le [of s "ca - overlap"] by auto
  moreover have "cb \<le> ?b" using snap_ge [OF c(2)] c(3) by simp
  moreover have "a = ?a" "b = ?b" using assms(2) calculation c(1) by (auto simp: widen_def Let_def)
  moreover have "is_char_boundary s ?a" "is_char_boundary s ?b" by simp_all
  ultimately show ?thesis using c(1) boundary_le [of s ?b] by (simp add: str_slice_def)
qed

lemma extend_made:
  "list_all (core_ok s) cores \<Longrightarrow> \<exists>cs. extend_cores s overlap (build_line_index s) k cores = Some cs \<and> made_from s cores cs"
proof (induction cores arbitrary: k)
  case Nil
  then show ?case by (simp add: made_from_def)
next
  case (Cons core cores)
  obtain ca cb where core: "core = (ca, cb)" by (cases core)
  obtain a b where ab: "widen s overlap (ca, cb) = (a, b)" by (cases "widen s overlap (ca, cb)")
  have ok: "core_ok s (ca, cb)" using Cons(2) core by simp
  note w = widen_ok [OF ok ab]
  show ?case
  proof (cases "trim (bytes_of s a b) = []")
    case True
    then have "in_blank s p" if "in_core p core" for p
      using w that trim_blank core unfolding in_blank_def in_core_def by (metis case_prod_conv le_trans less_le_trans)
    moreover obtain cs where "extend_cores s overlap (build_line_index s) k cores = Some cs" "made_from s cores cs" using Cons by auto
    ultimately show ?thesis using True core ab w made_from_skip by simp
  next
    case False
    obtain c where "make_chunk (build_line_index s) (trim (bytes_of s a b)) k (a, b) (ca, cb) = Some c" "chunk_ok s c" "core_of c = (ca, cb)"
      using make_chunk_ok [of a ca cb b s "trim (bytes_of s a b)" k] w False ok by (auto simp: core_ok_def)
    moreover obtain cs where "extend_cores s overlap (build_line_index s) (k + 1) cores = Some cs" "made_from s cores cs"
      using Cons by auto
    ultimately show ?thesis using core ab w False made_from_keep by simp
  qed
qed

section \<open>Fixed cores\<close>

lemma fixed_cores_tile:
  "utf8 s \<Longrightarrow> 4 \<le> sz \<Longrightarrow> is_char_boundary s pos \<Longrightarrow>
   tiling pos (length s) (fixed_cores s sz pos) \<and> list_all (core_ok s) (fixed_cores s sz pos)"
proof (induction s sz pos rule: fixed_cores.induct)
  case (1 s sz pos)
  show ?case
  proof (cases "pos < length s")
    case True
    let ?q = "pos + char_len (s ! pos)" and ?e = "snap_to_char_boundary s (min (pos + sz) (length s))"
    have q: "is_char_boundary s ?q" "pos < ?q" using next_boundary [OF 1(2,4) True] by auto
    have "?q \<le> min (pos + sz) (length s)" using boundary_le [OF q(1)] char_len_le [of "s ! pos"] 1(3) by simp
    then have "pos < ?e" using snap_ge [OF q(1)] q(2) by (meson less_le_trans)
    then have e: "core_end s sz pos = ?e" "pos < core_end s sz pos" "is_char_boundary s (core_end s sz pos)" by (auto simp: core_end_def)
    then show ?thesis using 1(1) [OF True 1(2,3) e(3)] 1(4) True by (subst (1 2) fixed_cores.simps) (simp add: core_ok_def)
  next
    case False
    then show ?thesis using boundary_le [OF 1(4)] by (simp add: fixed_cores.simps)
  qed
qed

section \<open>Pieces of the splitters\<close>

text \<open>
  What \<open>text-splitter\<close> documents of \<open>chunk_indices\<close> with \<open>with_trim(false)\<close>: the pieces are texts,
  joining them returns the original text, and each offset is the position of its piece.
\<close>

fun pieces :: "nat \<Rightarrow> (nat \<times> string) list \<Rightarrow> string \<Rightarrow> bool" where
  "pieces a [] s = (s = [])"
| "pieces a ((offset, x) # ps) s = (offset = a \<and> x \<noteq> [] \<and> utf8 x \<and> (\<exists>r. s = x @ r \<and> pieces (a + length x) ps r))"

definition splits_texts :: "(nat \<Rightarrow> string \<Rightarrow> (nat \<times> string) list) \<Rightarrow> bool" where
  "splits_texts f = (\<forall>n s. 0 < n \<longrightarrow> utf8 s \<longrightarrow> pieces 0 (f n s) s)"

abbreviation spans :: "(nat \<times> string) list \<Rightarrow> (nat \<times> nat) list" where
  "spans \<equiv> map (\<lambda>(offset, x). (offset, offset + length x))"

lemma pieces_tile: "pieces a ps s \<Longrightarrow> tiling a (a + length s) (spans ps)"
  by (induction a ps s rule: pieces.induct) (auto simp: add.assoc)

lemma pieces_utf8: "pieces a ps s \<Longrightarrow> utf8 s"
  by (induction a ps s rule: pieces.induct) (auto intro: utf8_append)

lemma pieces_core_ok: "pieces (length pre) ps s \<Longrightarrow> list_all (core_ok (pre @ s)) (spans ps)"
proof (induction ps arbitrary: pre s)
  case (Cons p ps)
  obtain offset x where p: "p = (offset, x)" by (cases p)
  then obtain r where r: "s = x @ r" "pieces (length (pre @ x)) ps r" "offset = length pre" "x \<noteq> []" using Cons(2) by auto
  have b: "is_char_boundary (pre @ s) (length pre)" using pieces_utf8 [OF Cons(2)] by (intro utf8_boundary) auto
  have "is_char_boundary (pre @ s) (length (pre @ x))" using pieces_utf8 [OF r(2)] r(1) by (intro utf8_boundary) auto
  then show ?case using Cons(1) [OF r(2)] r b p by (simp add: core_ok_def)
qed simp

lemma pieces_bytes: "pieces (length pre) ps s \<Longrightarrow> (offset, x) \<in> set ps \<Longrightarrow> bytes_of (pre @ s) offset (offset + length x) = x"
proof (induction ps arbitrary: pre s)
  case (Cons p ps)
  obtain k y where p: "p = (k, y)" by (cases p)
  then obtain r where r: "s = y @ r" "pieces (length (pre @ y)) ps r" "k = length pre" using Cons(2) by auto
  show ?case
  proof (cases "(offset, x) = (k, y)")
    case True
    then show ?thesis using r by (simp add: bytes_of_def)
  next
    case False
    then have "(offset, x) \<in> set ps" using Cons(3) p by auto
    then show ?thesis using Cons(1) [OF r(2)] r(1) by simp
  qed
qed simp

section \<open>Lines\<close>

lemma debuts_sorted: "sorted_wrt (<) (debuts s)"
  by (auto simp: debuts_def sorted_wrt_map intro: sorted_wrt_filter sorted_wrt_mono_rel [OF _ sorted_wrt_upt])

lemma debuts_in: "utf8 s \<Longrightarrow> s \<noteq> [] \<Longrightarrow> x \<in> set (debuts s) \<Longrightarrow> x < length s \<and> is_char_boundary s x"
  using newline_boundary [of s] by (auto simp: debuts_def)

lemma debuts_pos: "0 < length (debuts s)"
  by (simp add: debuts_def)

lemma line_cores_tile: "l \<le> length (debuts s) \<Longrightarrow> tiling l (length (debuts s)) (line_cores cfg s l)"
proof (induction cfg s l rule: line_cores.induct)
  case (1 cfg s l)
  have grow_le: "fin \<le> length (debuts s) \<Longrightarrow> grow_core cfg s l fin \<le> length (debuts s)" for fin
    by (induction cfg s l fin rule: grow_core.induct) (subst grow_core.simps, auto)
  show ?case
  proof (cases "l < length (debuts s)")
    case True
    then show ?thesis using 1(1) [OF True] grow_le [of "l + 1"] grow_core_ge [of "l + 1" cfg s l]
      by (subst line_cores.simps) simp
  next
    case False
    then show ?thesis using 1(2) by (simp add: line_cores.simps)
  qed
qed

lemma join_short_last_tile:
  assumes "tiling a e cores"
  shows "tiling a e (join_short_last s cores)"
proof (cases "length cores \<ge> 2")
  case True
  then obtain r x y z w where "cores = r @ [(x, y), (z, w)]"
    by (cases cores rule: rev_cases; cases "butlast cores" rule: rev_cases) auto
  then show ?thesis using assms by (auto simp: join_short_last_def tiling_append butlast_append)
qed (use assms in \<open>simp add: join_short_last_def\<close>)

lemma core_bytes_tile:
  assumes "utf8 s" "s \<noteq> []"
  shows "tiling l (length (debuts s)) cores \<Longrightarrow>
         tiling (if l < length (debuts s) then debuts s ! l else length s) (length s) (map (core_bytes s) cores) \<and>
         list_all (core_ok s) (map (core_bytes s) cores)"
proof (induction l "length (debuts s)" cores rule: tiling.induct)
  case (2 l d f r)
  let ?n = "length (debuts s)"
  have df: "d = l" "l < f" "f \<le> ?n" using 2(2) tiling_bounds by auto
  have e: "fin_de s (f - 1) = (if f < ?n then debuts s ! f else length s)" using df by (auto simp: fin_de_def)
  have "debuts s ! l < length s" "is_char_boundary s (debuts s ! l)" using debuts_in [OF assms] df by auto
  moreover have "f < ?n \<Longrightarrow> debuts s ! l < debuts s ! f \<and> is_char_boundary s (debuts s ! f)"
    using debuts_in [OF assms, of "debuts s ! f"] sorted_wrt_nth_less [OF debuts_sorted, of l f s] df by auto
  ultimately have "core_ok s (core_bytes s (l, f)) \<and> debuts s ! l < fin_de s (f - 1)" using e by (auto simp: core_ok_def core_bytes_def)
  then show ?case using 2 df e by (auto simp: core_bytes_def)
qed simp

lemma widen_lines_ok:
  assumes "utf8 s" "s \<noteq> []" "d < f" "f \<le> length (debuts s)" "widen_lines cfg s (d, f) = (a, b)"
  shows "a \<le> debuts s ! d \<and> fin_de s (f - 1) \<le> b \<and> b \<le> length s \<and> is_char_boundary s a \<and> is_char_boundary s b"
proof -
  let ?n = "length (debuts s)"
  define g where "g = min (f + cc_overlap_lines cfg) ?n"
  have le: "i \<le> j \<Longrightarrow> j < ?n \<Longrightarrow> debuts s ! i \<le> debuts s ! j" for i j
    using sorted_wrt_nth_less [OF debuts_sorted, of i j s] by (cases "i = j") auto
  have inn: "i < ?n \<Longrightarrow> debuts s ! i < length s \<and> is_char_boundary s (debuts s ! i)" for i using debuts_in [OF assms(1,2)] by auto
  have fin: "0 < g \<Longrightarrow> g \<le> ?n \<Longrightarrow> fin_de s (g - 1) = (if g < ?n then debuts s ! g else length s)" for g by (auto simp: fin_de_def)
  have g: "f \<le> g" "g \<le> ?n" "0 < f" using assms by (auto simp: g_def)
  have "a = debuts s ! (d - cc_overlap_lines cfg)" "b = fin_de s (g - 1)" using assms(5) by (auto simp: widen_lines_def g_def)
  moreover have "debuts s ! (d - cc_overlap_lines cfg) \<le> debuts s ! d" using le assms(3,4) by simp
  moreover have "is_char_boundary s (debuts s ! (d - cc_overlap_lines cfg))" using inn assms(3,4) by simp
  moreover have "fin_de s (f - 1) \<le> fin_de s (g - 1)"
    using fin [of f] fin [of g] g le [of f g] inn [of f] by (auto simp: less_imp_le)
  moreover have "fin_de s (g - 1) \<le> length s \<and> is_char_boundary s (fin_de s (g - 1))"
    using fin [of g] g inn [of g] by (auto simp: less_imp_le)
  ultimately show ?thesis by simp
qed

lemma line_chunks_made:
  assumes "utf8 s" "s \<noteq> []"
  shows "list_all (\<lambda>(d, f). d < f \<and> f \<le> length (debuts s)) cores \<Longrightarrow> list_all (core_ok s) (map (core_bytes s) cores) \<Longrightarrow>
    \<exists>cs. line_chunks cfg s (build_line_index s) k cores = Some cs \<and> made_from s (map (core_bytes s) cores) cs"
proof (induction cores arbitrary: k)
  case Nil
  then show ?case by (simp add: made_from_def)
next
  case (Cons core cores)
  obtain d f where core: "core = (d, f)" by (cases core)
  obtain a b where ab: "widen_lines cfg s (d, f) = (a, b)" by (cases "widen_lines cfg s (d, f)")
  obtain ca cb where cc: "core_bytes s (d, f) = (ca, cb)" by (cases "core_bytes s (d, f)")
  have df: "d < f" "f \<le> length (debuts s)" "ca < cb" using Cons(2,3) core cc by (auto simp: core_ok_def)
  have w: "a \<le> ca" "cb \<le> b" "b \<le> length s" "str_slice s a b = Some (bytes_of s a b)"
    using widen_lines_ok [OF assms df(1,2) ab] cc df(3) by (auto simp: core_bytes_def str_slice_def)
  have ih: "\<exists>cs. line_chunks cfg s (build_line_index s) (k + 1) cores = Some cs \<and> made_from s (map (core_bytes s) cores) cs"
    using Cons by auto
  show ?case
  proof (cases "trim (trim_end (bytes_of s a b)) = []")
    case True
    then have "blank (bytes_of s a b)" using trim_blank trim_end_blank by blast
    then have "in_blank s p" if "in_core p (ca, cb)" for p
      using w that unfolding in_blank_def in_core_def by (metis case_prod_conv le_trans less_le_trans)
    then show ?thesis using ih True core ab cc w made_from_skip by auto
  next
    case False
    then have "trim_end (bytes_of s a b) \<noteq> []" by (auto simp: trim_nil)
    then obtain c where "make_chunk (build_line_index s) (trim_end (bytes_of s a b)) k (a, b) (ca, cb) = Some c" "chunk_ok s c" "core_of c = (ca, cb)"
      using make_chunk_ok [of a ca cb b s "trim_end (bytes_of s a b)" k] w df by auto
    then show ?thesis using ih core ab cc w False made_from_keep by auto
  qed
qed

section \<open>The chunks of a text\<close>

lemma sorted_wrt_subseq: "subseq xs ys \<Longrightarrow> sorted_wrt P ys \<Longrightarrow> sorted_wrt P xs"
  by (induction rule: list_emb.induct) (auto dest: list_emb_set)

lemma made_from_pieces:
  assumes "pieces 0 ps s" "made_from s (splitter_cores ps) cs"
  shows "made_from s (spans ps) cs"
proof -
  have "subseq (splitter_cores ps) (spans ps)" unfolding splitter_cores_def by (intro subseq_map subseq_filter_left)
  moreover have "core \<in> set (splitter_cores ps) \<or> (\<forall>p. in_core p core \<longrightarrow> in_blank s p)" if c: "core \<in> set (spans ps)" for core
  proof -
    obtain k x where kx: "(k, x) \<in> set ps" "core = (k, k + length x)" using c by auto
    have "k + length x \<le> length s" using pieces_tile [OF assms(1)] tiling_bounds [of 0 "length s" "spans ps"] c kx(2) by auto
    moreover have "bytes_of s k (k + length x) = x" using pieces_bytes [of "[]" ps s k x] assms(1) kx(1) by simp
    ultimately show ?thesis using kx trim_blank [of x] by (cases "trim x = []") (force simp: splitter_cores_def in_core_def in_blank_def)+
  qed
  ultimately show ?thesis using assms(2) unfolding made_from_def by (meson subseq_order.trans)
qed

text \<open>Strategies under which no core falls inside a character.\<close>

definition cuts_whole_characters :: "splitters \<Rightarrow> chunker_config \<Rightarrow> bool" where
  "cuts_whole_characters sp cfg =
     (case cc_strategy cfg of
        Lines \<Rightarrow> True
      | Fixed \<Rightarrow> 4 \<le> cc_max_size cfg - cc_overlap cfg
      | Markdown \<Rightarrow> splits_texts (sp_markdown sp)
      | _ \<Rightarrow> splits_texts (sp_text sp))"

lemma chunk_made:
  assumes "utf8 s" "s \<noteq> []" "cuts_whole_characters sp cfg" "\<not> fits cfg s"
  shows "\<exists>cs cores. chunk_text sp cfg s = Some cs \<and> tiling 0 (length s) cores \<and> made_from s cores cs"
proof -
  consider (fixed) "cc_strategy cfg = Fixed" | (by_lines) "cc_strategy cfg = Lines"
    | (split) "cc_strategy cfg \<noteq> Fixed" "cc_strategy cfg \<noteq> Lines" by blast
  then show ?thesis
  proof cases
    case fixed
    then have "4 \<le> core_size cfg" using assms(3) by (simp add: core_size_def cuts_whole_characters_def)
    then show ?thesis using fixed_cores_tile [OF assms(1), of "core_size cfg" 0] extend_made fixed assms(2,4)
      by (fastforce simp: chunk_text_def chunk_fixed_def extend_cores_to_chunks_def)
  next
    case by_lines
    let ?c = "join_short_last s (line_cores cfg s 0)"
    have t: "tiling 0 (length (debuts s)) ?c" by (intro join_short_last_tile line_cores_tile) simp
    have "list_all (\<lambda>(d, f). d < f \<and> f \<le> length (debuts s)) ?c" using tiling_bounds [OF t] by (auto simp: list_all_iff)
    moreover have "debuts s ! 0 = 0" by (simp add: debuts_def)
    ultimately show ?thesis
      using core_bytes_tile [OF assms(1,2) t] line_chunks_made [OF assms(1,2)] by_lines assms(2,4) debuts_pos [of s]
      by (fastforce simp: chunk_text_def chunk_lines_def)
  next
    case split
    define ps where "ps = (if cc_strategy cfg = Markdown then sp_markdown sp else sp_text sp) (core_size cfg) s"
    have ps: "pieces 0 ps s" using split assms(1,3)
      by (auto simp: ps_def cuts_whole_characters_def splits_texts_def core_size_def split: chunk_strategy.splits)
    have "list_all (core_ok s) (splitter_cores ps)" using pieces_core_ok [of "[]" ps s] ps by (auto simp: splitter_cores_def list_all_iff)
    then obtain cs where cs: "extend_cores s (cc_overlap cfg) (build_line_index s) 0 (splitter_cores ps) = Some cs"
      "made_from s (splitter_cores ps) cs" using extend_made by blast
    have "chunk_text sp cfg s = Some cs" using split cs(1) assms(2,4)
      by (auto simp: chunk_text_def chunk_with_text_splitter_def extend_cores_to_chunks_def ps_def split: chunk_strategy.splits)
    then show ?thesis using made_from_pieces [OF ps cs(2)] pieces_tile [OF ps] by auto
  qed
qed

lemma made_from_covers:
  assumes "tiling 0 (length s) cores" "made_from s cores cs"
  shows "list_all (chunk_ok s) cs \<and> apart (map core_of cs) \<and>
         (\<forall>p < length s. (\<exists>c \<in> set cs. in_core p (core_of c)) \<or> in_blank s p)"
proof (intro conjI allI impI)
  show "list_all (chunk_ok s) cs" "apart (map core_of cs)"
    using assms(2) sorted_wrt_subseq [OF _ tiling_apart [OF assms(1)]] unfolding made_from_def by blast+
  fix p assume "p < length s"
  then obtain x y where "(x, y) \<in> set cores" "in_core p (x, y)" using tiling_covers [OF assms(1)] by (fastforce simp: in_core_def)
  then show "(\<exists>c \<in> set cs. in_core p (core_of c)) \<or> in_blank s p" using assms(2) unfolding made_from_def by force
qed

lemma fitting_made:
  assumes "s \<noteq> []" "fits cfg s"
  shows "\<exists>cs. chunk_text sp cfg s = Some cs \<and> made_from s [(0, length s)] cs"
proof (cases "trim s = []")
  case True
  then have "in_blank s p" if "p < length s" for p using trim_blank that
    unfolding in_blank_def by (intro exI [of _ 0] exI [of _ "length s"]) (simp add: bytes_of_def)
  then show ?thesis using assms True by (simp add: chunk_text_def made_from_def in_core_def)
next
  case False
  then show ?thesis using assms by (simp add: chunk_text_def made_from_def chunk_ok_def core_of_def bytes_of_def count_newlines_def)
qed

section \<open>Properties\<close>

text \<open>
  C16. Where its configuration cuts whole characters, chunking a UTF-8 text does not panic and loses
  nothing. That is: by lines, always; by fixed size, when the core (\<open>max_size\<close> less \<open>overlap\<close>) has at
  least four bytes, the longest character (a smaller one can panic, \<open>fixed_core_cuts_a_character\<close>);
  by the splitters of the text-splitter crate (Markdown, semantic, sentences), when these cut every
  text into non-empty pieces of whole characters that follow each other and make up the text.
  Then the chunker returns chunks whose cores are disjoint and in order, contained in their context, with the exact line
  numbers of all four ends, and every byte of the text is in the core of a chunk or in a blank
  stretch.
\<close>

theorem chunks_cover_the_text:
  assumes "utf8 s" "cuts_whole_characters sp cfg"
  shows "\<exists>cs. chunk_text sp cfg s = Some cs \<and> list_all (chunk_ok s) cs \<and> apart (map core_of cs) \<and>
              (\<forall>p < length s. (\<exists>c \<in> set cs. in_core p (core_of c)) \<or> in_blank s p)"
proof (cases "s = []")
  case True
  then show ?thesis by (simp add: chunk_text_def)
next
  case False
  then obtain cs cores where "chunk_text sp cfg s = Some cs" "tiling 0 (length s) cores" "made_from s cores cs"
    using chunk_made [OF assms(1) False assms(2)] fitting_made [OF False] by (cases "fits cfg s") fastforce+
  then show ?thesis using made_from_covers by blast
qed

definition demo_splitters :: splitters where
  "demo_splitters = \<lparr>sp_markdown = (\<lambda>n s. if s = [] then [] else [(0, s)]), sp_text = (\<lambda>n s. if s = [] then [] else [(0, s)])\<rparr>"

definition demo_config :: "chunk_strategy \<Rightarrow> nat \<Rightarrow> nat \<Rightarrow> chunker_config" where
  "demo_config st m k = \<lparr>cc_max_size = m, cc_overlap = k, cc_strategy = st, cc_max_lines = 1, cc_overlap_lines = 0\<rparr>"

lemma demo_splits: "cuts_whole_characters demo_splitters (demo_config Markdown 3 1)"
  by (simp add: cuts_whole_characters_def demo_config_def splits_texts_def demo_splitters_def)

lemma demo_text_utf8: "utf8 ''ab cd''"
  by (simp add: char_len_def char_code_def)

theorem chunks_cover_the_text_witness:
  "\<exists>cs. chunk_text demo_splitters (demo_config Markdown 3 1) ''ab cd'' = Some cs \<and> list_all (chunk_ok ''ab cd'') cs \<and>
        apart (map core_of cs) \<and> (\<forall>p < length ''ab cd''. (\<exists>c \<in> set cs. in_core p (core_of c)) \<or> in_blank ''ab cd'' p)"
  by (rule chunks_cover_the_text [OF demo_text_utf8 demo_splits])

text \<open>
  The four bytes are needed: a fixed core shorter than a character is pushed one byte further
  and ends inside it, and slicing the text there panics.
\<close>

theorem fixed_core_cuts_a_character:
  "utf8 (map char_of [0xC3, 0xA9 :: nat]) \<and>
   chunk_text demo_splitters (demo_config Fixed 1 0) (map char_of [0xC3, 0xA9 :: nat]) = None"
  by code_simp

text \<open>
  By lines, the indices of the chunks count the cores, the skipped blank ones too: they are not
  sequential. And a chunk may be longer than the declared maximum, which bounds its core and one
  overlap only.
\<close>

lemma plain: "is_ascii_alphanumeric CHR ''a''" "is_ascii_alphanumeric CHR ''b''" "is_ascii_alphanumeric CHR ''c''"
  by code_simp+

definition demo_lines :: string where
  "demo_lines = [CHR ''a'', newline, newline, CHR ''b'', newline, CHR ''c'']"

lemma line_chunk_indices_skip:
  "map_option (map c_index) (chunk_text demo_splitters (demo_config Lines 60 0) demo_lines) = Some [0, 2]"
proof -
  let ?cfg = "demo_config Lines 60 0"
  have "join_short_last demo_lines (line_cores ?cfg demo_lines 0) = [(0, 1), (1, 2), (2, 4)]" by code_simp
  moreover have "widen_lines ?cfg demo_lines (0, 1) = (0, 2)" "widen_lines ?cfg demo_lines (1, 2) = (2, 3)"
    "widen_lines ?cfg demo_lines (2, 4) = (3, 6)" by code_simp+
  moreover have "str_slice demo_lines 0 2 = Some [CHR ''a'', newline]" "str_slice demo_lines 2 3 = Some [newline]"
    "str_slice demo_lines 3 6 = Some [CHR ''b'', newline, CHR ''c'']" by code_simp+
  moreover have "trim_end [CHR ''a'', newline] = ''a''" "trim_end [newline] = []" by code_simp+
  moreover have "trim_end [CHR ''b'', newline, CHR ''c''] = [CHR ''b'', newline, CHR ''c'']" by (rule trim_end_plain) (simp add: plain)
  moreover have "trim ''a'' = ''a''" "trim [] = []" "trim [CHR ''b'', newline, CHR ''c''] = [CHR ''b'', newline, CHR ''c'']"
    by (rule trim_plain, simp add: plain)+
  moreover have "core_bytes demo_lines (0, 1) = (0, 2)" "core_bytes demo_lines (2, 4) = (3, 6)" by code_simp+
  moreover have "build_line_index demo_lines = [0, 0, 1, 2, 2, 3, 3]" "\<not> fits ?cfg demo_lines" "demo_lines \<noteq> []" by code_simp+
  moreover have "cc_strategy ?cfg = Lines" by (simp add: demo_config_def)
  ultimately show ?thesis by (simp add: chunk_text_def chunk_lines_def make_chunk_def nth_opt_def)
qed

lemma chunk_longer_than_max_size:
  "map_option (map (\<lambda>c. length (c_text c))) (chunk_text demo_splitters (demo_config Fixed 3 1) ''aaaaaa'') = Some [3, 4, 3]"
proof -
  let ?cfg = "demo_config Fixed 3 1" and ?s = "''aaaaaa''"
  have "fixed_cores ?s 2 0 = [(0, 2), (2, 4), (4, 6)]" by code_simp
  moreover have "widen ?s 1 (0, 2) = (0, 3)" "widen ?s 1 (2, 4) = (1, 5)" "widen ?s 1 (4, 6) = (3, 6)" by code_simp+
  moreover have "str_slice ?s 0 3 = Some ''aaa''" "str_slice ?s 1 5 = Some ''aaaa''" "str_slice ?s 3 6 = Some ''aaa''" by code_simp+
  moreover have "trim ''aaa'' = ''aaa''" "trim ''aaaa'' = ''aaaa''" by (rule trim_plain, simp add: plain)+
  moreover have "build_line_index ?s = [0, 0, 0, 0, 0, 0, 0]" "\<not> fits ?cfg ?s" "core_size ?cfg = 2" by code_simp+
  moreover have "cc_strategy ?cfg = Fixed" "cc_overlap ?cfg = 1" by (simp_all add: demo_config_def)
  ultimately show ?thesis
    by (simp add: chunk_text_def chunk_fixed_def extend_cores_to_chunks_def make_chunk_def nth_opt_def)
qed

end
