(* ===== verification/Read_Pool.thy ===== *)
theory Read_Pool
  imports Prelude "HOL-Library.Word"
begin

text \<open>
  The read pool of \<open>read_pool.rs\<close>: connections opened on demand up to a ceiling, lent to one tool
  call each, whose queries share a read-only transaction opened at the first of them and cut short
  when it lasts too long. Every operation is one stretch of code under the lock of the pool or of
  the snapshot; a run is any interleaving of the stretches of all calls. The engine behind the
  connections (the trait \<open>DbConnection\<close>) and the clock are a parameter: functions on a world.
\<close>

section \<open>The outside\<close>

record ('c, 'w) engine =
  en_read_connection :: "nat \<Rightarrow> 'w \<Rightarrow> 'c option \<times> 'w"
  en_begin_read_only :: "'c \<Rightarrow> 'w \<Rightarrow> bool \<times> 'w"
  en_commit :: "'c \<Rightarrow> 'w \<Rightarrow> bool \<times> 'w"
  en_rollback :: "'c \<Rightarrow> 'w \<Rightarrow> bool \<times> 'w"
  en_execute :: "'c \<Rightarrow> string \<Rightarrow> 'w \<Rightarrow> bool \<times> 'w"
  en_must_reopen :: "'c \<Rightarrow> 'w \<Rightarrow> string option"
  en_now :: "'w \<Rightarrow> nat"

section \<open>The pool\<close>

record 'c etat =
  libres :: "'c list"
  ouvertes :: nat

record 'c read_pool =
  rp_threads :: nat
  rp_plafond :: nat
  rp_etat :: "'c etat"
  rp_sans_instantane :: "64 word"
  rp_duree_max :: nat
  rp_ecourtes :: "64 word"

definition pool_new :: "('c, 'w) engine \<Rightarrow> nat \<Rightarrow> nat \<Rightarrow> nat \<Rightarrow> 'w \<Rightarrow> 'c read_pool option \<times> 'w" where
  "pool_new en plafond duree threads w =
     (if plafond = 0 then (None, w)
      else (case en_read_connection en threads w of
              (None, w') \<Rightarrow> (None, w')
            | (Some c, w') \<Rightarrow>
                (Some \<lparr>rp_threads = threads, rp_plafond = plafond, rp_etat = \<lparr>libres = [c], ouvertes = 1\<rparr>,
                       rp_sans_instantane = 0, rp_duree_max = duree, rp_ecourtes = 0\<rparr>, w')))"

text \<open>One round of the loop of \<open>prendre\<close> under the lock.\<close>

datatype 'c round = Free 'c | Place | Full

definition prendre_round :: "'c read_pool \<Rightarrow> 'c round \<times> 'c read_pool" where
  "prendre_round p =
     (let e = rp_etat p
      in if libres e \<noteq> [] then (Free (last (libres e)), p\<lparr>rp_etat := e\<lparr>libres := butlast (libres e)\<rparr>\<rparr>)
         else if ouvertes e < rp_plafond p then (Place, p\<lparr>rp_etat := e\<lparr>ouvertes := ouvertes e + 1\<rparr>\<rparr>)
         else (Full, p))"

definition rendre :: "'c \<Rightarrow> 'c read_pool \<Rightarrow> 'c read_pool" where
  "rendre c p = p\<lparr>rp_etat := (rp_etat p)\<lparr>libres := libres (rp_etat p) @ [c]\<rparr>\<rparr>"

definition oublier :: "'c read_pool \<Rightarrow> 'c read_pool" where
  "oublier p = p\<lparr>rp_etat := (rp_etat p)\<lparr>ouvertes := ouvertes (rp_etat p) - 1\<rparr>\<rparr>"

definition sans :: "'c read_pool \<Rightarrow> 'c read_pool" where
  "sans p = p\<lparr>rp_sans_instantane := rp_sans_instantane p + 1\<rparr>"

definition occupation :: "'c read_pool \<Rightarrow> nat \<times> nat" where
  "occupation p = (ouvertes (rp_etat p), rp_plafond p)"

section \<open>The snapshot of a call\<close>

datatype phase = AOuvrir | Ouvert nat | Fini

record 'c snapshot =
  sn_inner :: 'c
  sn_phase :: phase

text \<open>The place reserved in the pool, filled outside the lock.\<close>

definition open_place :: "('c, 'w) engine \<Rightarrow> 'c read_pool \<Rightarrow> 'w \<Rightarrow> 'c option \<times> 'c read_pool \<times> 'w" where
  "open_place en p w =
     (case en_read_connection en (rp_threads p) w of
        (Some c, w') \<Rightarrow> (Some c, p, w')
      | (None, w') \<Rightarrow> (None, oublier p, w'))"

definition instantane :: "'c \<Rightarrow> 'c snapshot" where
  "instantane c = \<lparr>sn_inner = c, sn_phase = AOuvrir\<rparr>"

definition avant :: "('c, 'w) engine \<Rightarrow> 'c snapshot \<Rightarrow> 'c read_pool \<Rightarrow> 'w \<Rightarrow> 'c snapshot \<times> 'c read_pool \<times> 'w" where
  "avant en s p w =
     (case sn_phase s of
        AOuvrir \<Rightarrow>
          (case en_begin_read_only en (sn_inner s) w of
             (True, w') \<Rightarrow> (s\<lparr>sn_phase := Ouvert (en_now en w')\<rparr>, p, w')
           | (False, w') \<Rightarrow> (s\<lparr>sn_phase := Fini\<rparr>, sans p, w'))
      | Ouvert depuis \<Rightarrow>
          if rp_duree_max p < en_now en w - depuis
          then (case en_commit en (sn_inner s) w of
                  (_, w') \<Rightarrow> (s\<lparr>sn_phase := Fini\<rparr>, p\<lparr>rp_ecourtes := rp_ecourtes p + 1\<rparr>, w'))
          else (s, p, w)
      | Fini \<Rightarrow> (s, p, w))"

definition snapshot_execute ::
  "('c, 'w) engine \<Rightarrow> string \<Rightarrow> 'c snapshot \<Rightarrow> 'c read_pool \<Rightarrow> 'w \<Rightarrow> bool \<times> 'c snapshot \<times> 'c read_pool \<times> 'w" where
  "snapshot_execute en q s p w =
     (case avant en s p w of
        (s', p', w1) \<Rightarrow> (case en_execute en (sn_inner s) q w1 of (ok, w2) \<Rightarrow> (ok, s', p', w2)))"

definition terminer :: "('c, 'w) engine \<Rightarrow> 'c snapshot \<Rightarrow> 'w \<Rightarrow> bool \<times> 'w" where
  "terminer en s w =
     (case sn_phase s of Ouvert _ \<Rightarrow> en_commit en (sn_inner s) w | _ \<Rightarrow> (True, w))"

definition drop_snapshot :: "('c, 'w) engine \<Rightarrow> 'c snapshot \<Rightarrow> 'c read_pool \<Rightarrow> 'w \<Rightarrow> 'c read_pool \<times> 'w" where
  "drop_snapshot en s p w =
     (case terminer en s w of
        (valide, w1) \<Rightarrow>
          if valide \<and> en_must_reopen en (sn_inner s) w1 = None then (rendre (sn_inner s) p, w1)
          else (case en_rollback en (sn_inner s) w1 of (_, w2) \<Rightarrow> (oublier p, w2)))"

section \<open>Runs\<close>

text \<open>A call waits for a connection until an instant, opens one in a place it reserved, or has its snapshot.\<close>

datatype 'c pcall = Waits nat | Opens | Holds "'c snapshot"

type_synonym ('c, 'w) config = "'c read_pool \<times> (nat \<rightharpoonup> 'c pcall) \<times> 'w"

text \<open>A snapshot that lasted too long whose commit fails.\<close>

definition cut_fails :: "('c, 'w) engine \<Rightarrow> 'c snapshot \<Rightarrow> 'c read_pool \<Rightarrow> 'w \<Rightarrow> bool" where
  "cut_fails en s p w =
     (case sn_phase s of
        Ouvert depuis \<Rightarrow> rp_duree_max p < en_now en w - depuis \<and> \<not> fst (en_commit en (sn_inner s) w)
      | _ \<Rightarrow> False)"

text \<open>
  What the rest of the program and the engine do between two stretches: time passes, other
  connections are opened and used; the transactions of the connections that exist stay as they are.
\<close>

type_synonym ('c, 'w) sessions = "('w \<Rightarrow> 'c set) \<times> ('w \<Rightarrow> 'c \<Rightarrow> bool)"

definition others_act :: "('c, 'w) sessions \<Rightarrow> 'w \<Rightarrow> 'w \<Rightarrow> bool" where
  "others_act = (\<lambda>(known, in_tx) w w'. known w \<subseteq> known w' \<and> (\<forall>c \<in> known w. in_tx w' c = in_tx w c))"

inductive pool_step ::
  "('c, 'w) engine \<Rightarrow> ('c, 'w) sessions \<Rightarrow> nat \<Rightarrow> bool \<Rightarrow> ('c, 'w) config \<Rightarrow> ('c, 'w) config \<Rightarrow> bool"
  for en :: "('c, 'w) engine" and ses :: "('c, 'w) sessions" and attente :: nat and reliable :: bool where
  start: "calls k = None \<Longrightarrow>
    pool_step en ses attente reliable (p, calls, w) (p, calls(k \<mapsto> Waits (en_now en w + attente)), w)"
| free: "calls k = Some (Waits fin) \<Longrightarrow> prendre_round p = (Free c, p') \<Longrightarrow>
    pool_step en ses attente reliable (p, calls, w) (p', calls(k \<mapsto> Holds (instantane c)), w)"
| reserve: "calls k = Some (Waits fin) \<Longrightarrow> prendre_round p = (Place, p') \<Longrightarrow>
    pool_step en ses attente reliable (p, calls, w) (p', calls(k \<mapsto> Opens), w)"
| give_up: "calls k = Some (Waits fin) \<Longrightarrow> prendre_round p = (Full, p') \<Longrightarrow> fin \<le> en_now en w \<Longrightarrow>
    pool_step en ses attente reliable (p, calls, w) (sans p', calls(k := None), w)"
| opened: "calls k = Some Opens \<Longrightarrow> open_place en p w = (Some c, p', w') \<Longrightarrow>
    pool_step en ses attente reliable (p, calls, w) (p', calls(k \<mapsto> Holds (instantane c)), w')"
| refused: "calls k = Some Opens \<Longrightarrow> open_place en p w = (None, p', w') \<Longrightarrow>
    pool_step en ses attente reliable (p, calls, w) (sans p', calls(k := None), w')"
| before: "calls k = Some (Holds s) \<Longrightarrow> (reliable \<longrightarrow> \<not> cut_fails en s p w) \<Longrightarrow> avant en s p w = (s', p', w') \<Longrightarrow>
    pool_step en ses attente reliable (p, calls, w) (p', calls(k \<mapsto> Holds s'), w')"
| query: "calls k = Some (Holds s) \<Longrightarrow> en_execute en (sn_inner s) q w = (ok, w') \<Longrightarrow>
    pool_step en ses attente reliable (p, calls, w) (p, calls, w')"
| finish: "calls k = Some (Holds s) \<Longrightarrow> drop_snapshot en s p w = (p', w') \<Longrightarrow>
    pool_step en ses attente reliable (p, calls, w) (p', calls(k := None), w')"
| others: "others_act ses w w' \<Longrightarrow> pool_step en ses attente reliable (p, calls, w) (p, calls, w')"

inductive reachable ::
  "('c, 'w) engine \<Rightarrow> ('c, 'w) sessions \<Rightarrow> nat \<Rightarrow> bool \<Rightarrow> ('c, 'w) config \<Rightarrow> bool"
  for en :: "('c, 'w) engine" and ses :: "('c, 'w) sessions" and attente :: nat and reliable :: bool where
  init: "pool_new en plafond duree threads w0 = (Some p, w) \<Longrightarrow> reachable en ses attente reliable (p, Map.empty, w)"
| step: "reachable en ses attente reliable x \<Longrightarrow> pool_step en ses attente reliable x y \<Longrightarrow> reachable en ses attente reliable y"

text \<open>
  What the pool relies on of the engine: a read connection is a new one, without transaction; each
  verb acts on its own session; \<open>begin\<close> opens a transaction when it succeeds, \<open>commit\<close> closes it when
  it succeeds and leaves it otherwise; a query opens none.
\<close>

definition engine_ok :: "('c, 'w) engine \<Rightarrow> ('c, 'w) sessions \<Rightarrow> bool" where
  "engine_ok en = (\<lambda>(known, in_tx).
     (\<forall>n w c w'. en_read_connection en n w = (Some c, w') \<longrightarrow>
        c \<notin> known w \<and> known w' = insert c (known w) \<and> \<not> in_tx w' c \<and> (\<forall>x \<in> known w. in_tx w' x = in_tx w x)) \<and>
     (\<forall>n w w'. en_read_connection en n w = (None, w') \<longrightarrow> known w' = known w \<and> (\<forall>x \<in> known w. in_tx w' x = in_tx w x)) \<and>
     (\<forall>c w ok w'. en_begin_read_only en c w = (ok, w') \<longrightarrow>
        known w' = known w \<and> (\<forall>x. x \<noteq> c \<longrightarrow> in_tx w' x = in_tx w x) \<and> in_tx w' c = (ok \<or> in_tx w c)) \<and>
     (\<forall>c w ok w'. en_commit en c w = (ok, w') \<longrightarrow>
        known w' = known w \<and> (\<forall>x. x \<noteq> c \<longrightarrow> in_tx w' x = in_tx w x) \<and> in_tx w' c = (\<not> ok \<and> in_tx w c)) \<and>
     (\<forall>c w ok w'. en_rollback en c w = (ok, w') \<longrightarrow> known w' = known w \<and> (\<forall>x. x \<noteq> c \<longrightarrow> in_tx w' x = in_tx w x)) \<and>
     (\<forall>c q w ok w'. en_execute en c q w = (ok, w') \<longrightarrow>
        known w' = known w \<and> (\<forall>x. x \<noteq> c \<longrightarrow> in_tx w' x = in_tx w x) \<and> (in_tx w' c \<longrightarrow> in_tx w c)))"

text \<open>A query of the call is these two stretches, between which the other nodes of the call may query.\<close>

lemma snapshot_execute_steps:
  assumes "calls k = Some (Holds s)" "reliable \<longrightarrow> \<not> cut_fails en s p w" "snapshot_execute en q s p w = (ok, s', p', w')"
  shows "(pool_step en ses attente reliable)\<^sup>*\<^sup>* (p, calls, w) (p', calls(k \<mapsto> Holds s'), w')"
proof -
  obtain w1 where a: "avant en s p w = (s', p', w1)" and e: "en_execute en (sn_inner s) q w1 = (ok, w')"
    using assms(3) by (auto simp: snapshot_execute_def split: prod.splits)
  have "sn_inner s' = sn_inner s" using a by (auto simp: avant_def split: phase.splits prod.splits bool.splits if_splits)
  then have "pool_step en ses attente reliable (p', calls(k \<mapsto> Holds s'), w1) (p', calls(k \<mapsto> Holds s'), w')"
    using pool_step.query [of "calls(k \<mapsto> Holds s')" k s' en q w1 ok w'] e by simp
  moreover have "pool_step en ses attente reliable (p, calls, w) (p', calls(k \<mapsto> Holds s'), w1)"
    using assms(1,2) a by (rule pool_step.before)
  ultimately show ?thesis by (meson converse_rtranclp_into_rtranclp r_into_rtranclp)
qed

section \<open>Accounting\<close>

definition taking :: "(nat \<rightharpoonup> 'c pcall) \<Rightarrow> nat set" where
  "taking calls = {k. calls k = Some Opens \<or> (\<exists>s. calls k = Some (Holds s))}"

definition holds :: "(nat \<rightharpoonup> 'c pcall) \<Rightarrow> nat \<Rightarrow> 'c \<Rightarrow> bool" where
  "holds calls k c = (\<exists>s. calls k = Some (Holds s) \<and> sn_inner s = c)"

definition pool_inv :: "('w \<Rightarrow> 'c set) \<Rightarrow> ('c, 'w) config \<Rightarrow> bool" where
  "pool_inv known = (\<lambda>(p, calls, w).
     finite (taking calls) \<and>
     ouvertes (rp_etat p) = length (libres (rp_etat p)) + card (taking calls) \<and>
     ouvertes (rp_etat p) \<le> rp_plafond p \<and>
     distinct (libres (rp_etat p)) \<and>
     (\<forall>k c. holds calls k c \<longrightarrow> c \<notin> set (libres (rp_etat p)) \<and> c \<in> known w) \<and>
     (\<forall>k j c. holds calls k c \<longrightarrow> holds calls j c \<longrightarrow> k = j) \<and>
     set (libres (rp_etat p)) \<subseteq> known w)"

lemma taking_upd [simp]:
  "taking (calls(k := v)) = (if v = Some Opens \<or> (\<exists>s. v = Some (Holds s)) then insert k (taking calls) else taking calls - {k})"
  by (auto simp: taking_def)

lemma holds_upd: "holds (calls(k := v)) j c = (if j = k then (\<exists>s. v = Some (Holds s) \<and> sn_inner s = c) else holds calls j c)"
  by (auto simp: holds_def)

lemma in_taking: "calls k = Some Opens \<Longrightarrow> k \<in> taking calls" "calls k = Some (Holds s) \<Longrightarrow> k \<in> taking calls"
  "calls k = None \<Longrightarrow> k \<notin> taking calls" "calls k = Some (Waits t) \<Longrightarrow> k \<notin> taking calls"
  by (auto simp: taking_def)

lemma avant_keeps:
  assumes "engine_ok en (known, in_tx)" "avant en s p w = (s', p', w')"
  shows "sn_inner s' = sn_inner s" "rp_etat p' = rp_etat p" "rp_plafond p' = rp_plafond p" "known w' = known w"
    "x \<noteq> sn_inner s \<Longrightarrow> in_tx w' x = in_tx w x"
  using assms by (auto simp: avant_def sans_def engine_ok_def split: phase.splits prod.splits bool.splits if_splits)

lemma terminer_keeps:
  assumes "engine_ok en (known, in_tx)" "terminer en s w = (v, w')"
  shows "known w' = known w" "x \<noteq> sn_inner s \<Longrightarrow> in_tx w' x = in_tx w x"
    "v \<Longrightarrow> (\<And>t. sn_phase s \<noteq> Ouvert t) \<Longrightarrow> \<not> in_tx w (sn_inner s) \<Longrightarrow> \<not> in_tx w' (sn_inner s)"
    "v \<Longrightarrow> sn_phase s = Ouvert t \<Longrightarrow> \<not> in_tx w' (sn_inner s)"
  using assms by (auto simp: terminer_def engine_ok_def split: phase.splits)

text \<open>The two ends of a snapshot.\<close>

lemma drop_cases [consumes 1, case_names given lost]:
  assumes "drop_snapshot en s p w = (p', w')"
  obtains w1 where "terminer en s w = (True, w1)" "p' = rendre (sn_inner s) p" "w' = w1"
  | v w1 b where "terminer en s w = (v, w1)" "en_rollback en (sn_inner s) w1 = (b, w')" "p' = oublier p"
  using assms unfolding drop_snapshot_def by (auto split: prod.splits if_splits)

lemma pool_inv_step:
  assumes "pool_step en (known, in_tx) attente reliable x y" "engine_ok en (known, in_tx)" "pool_inv known x"
  shows "pool_inv known y"
  using assms(1,3)
proof (cases rule: pool_step.cases)
  case (start calls k p w)
  have "k \<notin> taking calls" using start(3) by (rule in_taking(3))
  then show ?thesis using assms(3) start by (auto simp: pool_inv_def holds_upd)
next
  case (free calls k fin p c p' w)
  then obtain l where l: "libres (rp_etat p) = l @ [c]" "libres (rp_etat p') = l" "ouvertes (rp_etat p') = ouvertes (rp_etat p)"
    "rp_plafond p' = rp_plafond p"
    by (cases "libres (rp_etat p)" rule: rev_cases) (auto simp: prendre_round_def Let_def split: if_splits)
  then show ?thesis using assms(3) in_taking(4) [of calls k fin] free by (auto simp: pool_inv_def holds_upd instantane_def)
next
  case (reserve calls k fin p p' w)
  then have "ouvertes (rp_etat p') = Suc (ouvertes (rp_etat p))" "libres (rp_etat p') = []" "libres (rp_etat p) = []" "ouvertes (rp_etat p) < rp_plafond p"
    "rp_plafond p' = rp_plafond p"
    by (auto simp: prendre_round_def Let_def split: if_splits)
  then show ?thesis using assms(3) in_taking(4) [of calls k fin] reserve by (auto simp: pool_inv_def holds_upd)
next
  case (give_up calls k fin p p' w)
  then have "p' = p" by (auto simp: prendre_round_def Let_def split: if_splits)
  then show ?thesis using assms(3) in_taking(4) [of calls k fin] give_up by (auto simp: pool_inv_def holds_upd sans_def)
next
  case (opened calls k p w c p' w')
  then have "p' = p" "c \<notin> known w" "known w' = insert c (known w)"
    using assms(2) by (auto simp: open_place_def engine_ok_def split: prod.splits option.splits)
  then show ?thesis using assms(3) in_taking(1) [of calls k] opened by (auto simp: pool_inv_def holds_upd instantane_def insert_absorb)
next
  case (refused calls k p w p' w')
  then have "p' = oublier p" "known w' = known w"
    using assms(2) by (auto simp: open_place_def engine_ok_def split: prod.splits option.splits)
  moreover have "0 < card (taking calls)" using assms(3) in_taking(1) [of calls k] refused(1,3) by (auto simp: pool_inv_def card_gt_0_iff)
  ultimately show ?thesis using assms(3) in_taking(1) [of calls k] refused by (auto simp: pool_inv_def holds_upd sans_def oublier_def card_Diff_singleton)
next
  case (before calls k s p w s' p' w')
  note av = avant_keeps [OF assms(2) before(5)]
  have h: "holds calls k (sn_inner s)" using before(3) by (simp add: holds_def)
  show ?thesis using assms(3) in_taking(2) [of calls k s] before av h by (auto simp: pool_inv_def holds_upd insert_absorb)
next
  case (query calls k s q w ok w' p)
  then have "known w' = known w" using assms(2) by (auto simp: engine_ok_def)
  then show ?thesis using assms(3) query by (auto simp: pool_inv_def)
next
  case (finish calls k s p w p' w')
  have h: "holds calls k (sn_inner s)" using finish(3) by (simp add: holds_def)
  have c: "0 < card (taking calls)" using assms(3) in_taking(2) [of calls k s] finish(1,3) by (auto simp: pool_inv_def card_gt_0_iff)
  from finish(4) show ?thesis
  proof (cases rule: drop_cases)
    case (given w1)
    then show ?thesis using assms(3) in_taking(2) [of calls k s] finish terminer_keeps(1) [OF assms(2) given(1)] h c
      by (auto simp: pool_inv_def holds_upd rendre_def card_Diff_singleton)
  next
    case (lost v w1 b)
    then have "known w' = known w" using terminer_keeps(1) [OF assms(2) lost(1)] assms(2) by (auto simp: engine_ok_def)
    then show ?thesis using assms(3) in_taking(2) [of calls k s] finish lost(3) h c
      by (auto simp: pool_inv_def holds_upd oublier_def card_Diff_singleton)
  qed
next
  case (others w w' p calls)
  then show ?thesis using assms(3) by (auto simp: pool_inv_def others_act_def)
qed

lemma pool_inv_known:
  assumes "pool_inv known (p, calls, w)"
  shows "c \<in> set (libres (rp_etat p)) \<Longrightarrow> c \<in> known w" "calls k = Some (Holds s) \<Longrightarrow> sn_inner s \<in> known w"
  using assms by (auto simp: pool_inv_def holds_def)

lemma pool_inv_apart:
  assumes "pool_inv known (p, calls, w)" "calls k = Some (Holds s)"
  shows "c \<in> set (libres (rp_etat p)) \<Longrightarrow> c \<noteq> sn_inner s" "calls j = Some (Holds r) \<Longrightarrow> j \<noteq> k \<Longrightarrow> sn_inner r \<noteq> sn_inner s"
  using assms by (auto simp: pool_inv_def holds_def)

lemma pool_inv_init:
  assumes "pool_new en plafond duree threads w0 = (Some p, w)" "engine_ok en (known, in_tx)"
  shows "pool_inv known (p, Map.empty, w)"
  using assms by (auto simp: pool_new_def pool_inv_def taking_def holds_def engine_ok_def split: if_splits prod.splits option.splits)

lemma reachable_pool_inv: "reachable en (known, in_tx) attente reliable x \<Longrightarrow> engine_ok en (known, in_tx) \<Longrightarrow> pool_inv known x"
  by (induction rule: reachable.induct) (auto intro: pool_inv_init pool_inv_step)

section \<open>Transactions\<close>

definition clean_inv :: "('w \<Rightarrow> 'c \<Rightarrow> bool) \<Rightarrow> ('c, 'w) config \<Rightarrow> bool" where
  "clean_inv in_tx = (\<lambda>(p, calls, w).
     (\<forall>c \<in> set (libres (rp_etat p)). \<not> in_tx w c) \<and>
     (\<forall>k s. calls k = Some (Holds s) \<longrightarrow> (\<forall>t. sn_phase s \<noteq> Ouvert t) \<longrightarrow> \<not> in_tx w (sn_inner s)))"

lemma avant_clean:
  assumes "engine_ok en (known, in_tx)" "avant en s p w = (s', p', w')" "\<not> cut_fails en s p w"
    "(\<forall>t. sn_phase s \<noteq> Ouvert t) \<longrightarrow> \<not> in_tx w (sn_inner s)" "\<forall>t. sn_phase s' \<noteq> Ouvert t"
  shows "\<not> in_tx w' (sn_inner s)"
  using assms by (auto simp: avant_def cut_fails_def engine_ok_def split: phase.splits prod.splits bool.splits if_splits)

lemma clean_step:
  assumes "pool_step en (known, in_tx) attente True x y" "engine_ok en (known, in_tx)" "pool_inv known x" "clean_inv in_tx x"
  shows "clean_inv in_tx y"
  using assms(1)
proof (cases rule: pool_step.cases)
  case (free calls k fin p c p' w)
  then obtain l where "libres (rp_etat p) = l @ [c]" "libres (rp_etat p') = l"
    by (cases "libres (rp_etat p)" rule: rev_cases) (auto simp: prendre_round_def Let_def split: if_splits)
  then show ?thesis using assms(4) free by (auto simp: clean_inv_def instantane_def split: if_splits)
next
  case (reserve calls k fin p p' w)
  then show ?thesis using assms(4) by (auto simp: clean_inv_def prendre_round_def Let_def split: if_splits)
next
  case (give_up calls k fin p p' w)
  then show ?thesis using assms(4) by (auto simp: clean_inv_def prendre_round_def Let_def sans_def split: if_splits)
next
  case (opened calls k p w c p' w')
  then have o: "p' = p" "c \<notin> known w" "\<not> in_tx w' c" "\<forall>x \<in> known w. in_tx w' x = in_tx w x"
    using assms(2) by (auto simp: open_place_def engine_ok_def split: prod.splits option.splits)
  show ?thesis using pool_inv_known [OF assms(3) [unfolded opened(1)]] assms(4) opened o by (auto simp: clean_inv_def instantane_def split: if_splits)
next
  case (refused calls k p w p' w')
  then have o: "p' = oublier p" "\<forall>x \<in> known w. in_tx w' x = in_tx w x"
    using assms(2) by (auto simp: open_place_def engine_ok_def split: prod.splits option.splits)
  show ?thesis using pool_inv_known [OF assms(3) [unfolded refused(1)]] assms(4) refused o by (auto simp: clean_inv_def oublier_def sans_def)
next
  case (before calls k s p w s' p' w')
  note av = avant_keeps [OF assms(2) before(5)]
  note other = pool_inv_apart [OF assms(3) [unfolded before(1)] before(3)]
  have "\<not> in_tx w' (sn_inner s)" if "\<forall>t. sn_phase s' \<noteq> Ouvert t"
    by (rule avant_clean [OF assms(2) before(5)]) (use before assms(4) that in \<open>auto simp: clean_inv_def\<close>)
  then show ?thesis using assms(4) before av other by (auto simp: clean_inv_def)
next
  case (query calls k s q w ok w' p)
  then have "\<forall>x. in_tx w' x \<longrightarrow> in_tx w x" using assms(2) by (auto simp: engine_ok_def) metis
  then show ?thesis using assms(4) query by (auto simp: clean_inv_def)
next
  case (finish calls k s p w p' w')
  note other = pool_inv_apart [OF assms(3) [unfolded finish(1)] finish(3)]
  from finish(4) show ?thesis
  proof (cases rule: drop_cases)
    case (given w1)
    have "\<not> in_tx w1 (sn_inner s)"
      using terminer_keeps(3,4) [OF assms(2) given(1)] assms(4) finish(1,3) by (cases "sn_phase s") (auto simp: clean_inv_def)
    then show ?thesis using assms(4) finish given other terminer_keeps(2) [OF assms(2) given(1)]
      by (auto simp: clean_inv_def rendre_def)
  next
    case (lost v w1 b)
    then have "x \<noteq> sn_inner s \<Longrightarrow> in_tx w' x = in_tx w x" for x using terminer_keeps(2) [OF assms(2) lost(1)] assms(2) by (auto simp: engine_ok_def)
    then show ?thesis using assms(4) finish lost(3) other by (auto simp: clean_inv_def oublier_def)
  qed
next
  case (others w w' p calls)
  show ?thesis using pool_inv_known [OF assms(3) [unfolded others(1)]] assms(4) others by (auto simp: clean_inv_def others_act_def)
qed (use assms(4) in \<open>auto simp: clean_inv_def split: if_splits\<close>)

lemma reachable_clean:
  assumes "reachable en (known, in_tx) attente True x" "engine_ok en (known, in_tx)"
  shows "clean_inv in_tx x"
  using assms(1)
proof (induction rule: reachable.induct)
  case (init plafond duree threads w0 p w)
  then show ?case using assms(2) by (auto simp: pool_new_def clean_inv_def engine_ok_def split: if_splits prod.splits option.splits)
next
  case (step x y)
  then show ?case using clean_step [OF step(2) assms(2) reachable_pool_inv [OF step(1) assms(2)]] by blast
qed

section \<open>Properties\<close>

text \<open>
  C30. The pool counts right under every interleaving: the open connections are exactly the free
  ones and those of the calls that have or are opening one, never above the ceiling, and no
  connection is lent twice or lent while it is free.
\<close>

theorem pool_accounts_exactly:
  assumes "reachable en (known, in_tx) attente reliable (p, calls, w)" "engine_ok en (known, in_tx)"
  shows "finite (taking calls) \<and> fst (occupation p) = length (libres (rp_etat p)) + card (taking calls) \<and>
    fst (occupation p) \<le> snd (occupation p) \<and> distinct (libres (rp_etat p)) \<and>
    (\<forall>k c. holds calls k c \<longrightarrow> c \<notin> set (libres (rp_etat p))) \<and>
    (\<forall>k j c. holds calls k c \<longrightarrow> holds calls j c \<longrightarrow> k = j)"
  using reachable_pool_inv [OF assms] by (simp add: pool_inv_def occupation_def)

text \<open>
  A connection goes back to the pool without a transaction, as long as no commit that cuts a
  snapshot short fails: every free connection is clean, and so is that of a call before its first
  query or after its snapshot ended.
\<close>

theorem free_connections_are_clean:
  assumes "reachable en (known, in_tx) attente True (p, calls, w)" "engine_ok en (known, in_tx)"
  shows "(\<forall>c \<in> set (libres (rp_etat p)). \<not> in_tx w c) \<and>
    (\<forall>k s. calls k = Some (Holds s) \<longrightarrow> sn_phase s \<in> {AOuvrir, Fini} \<longrightarrow> \<not> in_tx w (sn_inner s))"
  using reachable_clean [OF assms] by (auto simp: clean_inv_def)

text \<open>
  An engine whose connections are numbered: the next number, the connections in a transaction and
  the time; its commits succeed or fail as asked.
\<close>

type_synonym demo_world = "nat \<times> nat list \<times> nat"

definition demo_engine :: "bool \<Rightarrow> (nat, demo_world) engine" where
  "demo_engine commits =
     \<lparr>en_read_connection = (\<lambda>n (next, tx, t). (Some next, (next + 1, removeAll next tx, t))),
      en_begin_read_only = (\<lambda>c (next, tx, t). (c \<notin> set tx, (next, c # removeAll c tx, t))),
      en_commit = (\<lambda>c (next, tx, t). (commits, (next, if commits then removeAll c tx else tx, t))),
      en_rollback = (\<lambda>c (next, tx, t). (True, (next, removeAll c tx, t))),
      en_execute = (\<lambda>c q w. (True, w)),
      en_must_reopen = (\<lambda>c w. None),
      en_now = (\<lambda>(next, tx, t). t)\<rparr>"

definition demo_sessions :: "(nat, demo_world) sessions" where
  "demo_sessions = ((\<lambda>(next, tx, t). {..<next}), (\<lambda>(next, tx, t) c. c \<in> set tx))"

lemma demo_engine_ok: "engine_ok (demo_engine b) demo_sessions"
  by (auto simp: engine_ok_def demo_engine_def demo_sessions_def)

definition demo_pool :: "nat list \<Rightarrow> nat read_pool" where
  "demo_pool free = \<lparr>rp_threads = 1, rp_plafond = 2, rp_etat = \<lparr>libres = free, ouvertes = 1\<rparr>,
     rp_sans_instantane = 0, rp_duree_max = 5, rp_ecourtes = 0\<rparr>"

text \<open>A call takes the only free connection and begins its snapshot.\<close>

lemma demo_reaches:
  "reachable (demo_engine b) demo_sessions 50 r
     (demo_pool [], [7 \<mapsto> Holds \<lparr>sn_inner = 0, sn_phase = Ouvert 0\<rparr>], (1, [0], 0))"
proof -
  let ?R = "reachable (demo_engine b) demo_sessions 50 r"
  have "?R (demo_pool [0], Map.empty, (1, [], 0))"
    by (rule reachable.init [of _ 2 5 1 "(0, [], 0)"]) (simp add: pool_new_def demo_engine_def demo_pool_def)
  then have "?R (demo_pool [0], [7 \<mapsto> Waits 50], (1, [], 0))"
    by (rule reachable.step)
      (use pool_step.start [of Map.empty 7 "demo_engine b" demo_sessions 50 r "demo_pool [0]" "(1, [], 0)"] in \<open>simp add: demo_engine_def\<close>)
  then have "?R (demo_pool [], [7 \<mapsto> Holds (instantane 0)], (1, [], 0))"
    by (rule reachable.step) (use pool_step.free [of "[7 \<mapsto> Waits 50]" 7 50 "demo_pool [0]" 0 "demo_pool []"] in \<open>simp add: prendre_round_def demo_pool_def\<close>)
  then show ?thesis
    by (rule reachable.step)
      (use pool_step.before [of "[7 \<mapsto> Holds (instantane 0)]" 7 "instantane 0" r "demo_engine b" "demo_pool []" "(1, [], 0)"
          "\<lparr>sn_inner = 0, sn_phase = Ouvert 0\<rparr>" "demo_pool []" "(1, [0], 0)"]
        in \<open>simp add: instantane_def avant_def cut_fails_def demo_engine_def\<close>)
qed

theorem pool_accounts_exactly_witness:
  "let p = demo_pool []; calls = [7 \<mapsto> Holds \<lparr>sn_inner = 0 :: nat, sn_phase = Ouvert 0\<rparr>]
   in fst (occupation p) = length (libres (rp_etat p)) + card (taking calls) \<and> fst (occupation p) \<le> snd (occupation p)"
  using pool_accounts_exactly [OF demo_reaches [of True True, unfolded demo_sessions_def] demo_engine_ok [unfolded demo_sessions_def]]
  by (simp add: Let_def)

text \<open>The same call ends: its commit succeeds and the connection is free again.\<close>

lemma demo_returns: "reachable (demo_engine True) demo_sessions 50 r (demo_pool [0], Map.empty, (1, [], 0))"
proof -
  have "pool_step (demo_engine True) demo_sessions 50 r (demo_pool [], [7 \<mapsto> Holds \<lparr>sn_inner = 0, sn_phase = Ouvert 0\<rparr>], (1, [0], 0))
          (demo_pool [0], Map.empty, (1, [], 0))"
    using pool_step.finish [of "[7 \<mapsto> Holds \<lparr>sn_inner = 0, sn_phase = Ouvert 0\<rparr>]" 7 "\<lparr>sn_inner = 0, sn_phase = Ouvert 0\<rparr>"
        "demo_engine True" "demo_pool []" "(1, [0], 0)" "demo_pool [0]" "(1, [], 0)"]
    by (simp add: drop_snapshot_def terminer_def rendre_def demo_pool_def demo_engine_def)
  then show ?thesis by (rule reachable.step [OF demo_reaches])
qed

theorem free_connections_are_clean_witness:
  "libres (rp_etat (demo_pool [0])) = [0] \<and> \<not> snd demo_sessions (1, [], 0) 0"
  using free_connections_are_clean [OF demo_returns [of True, unfolded demo_sessions_def] demo_engine_ok [unfolded demo_sessions_def]]
  by (simp add: demo_pool_def demo_sessions_def)

text \<open>
  When the commit that cuts a snapshot short fails, its failure is dropped: the snapshot counts
  as ended, the connection goes back to the pool with its transaction open, and the next call that
  gets it has no snapshot of its own and reads in the old one.
\<close>

theorem failed_cut_leaks_transaction:
  "\<exists>p w. reachable (demo_engine False) demo_sessions 50 False (p, Map.empty, w) \<and> libres (rp_etat p) = [0] \<and>
     snd demo_sessions w 0 \<and> sn_phase (fst (avant (demo_engine False) (instantane 0) p w)) = Fini"
proof -
  let ?R = "reachable (demo_engine False) demo_sessions 50 False" and ?s = "\<lparr>sn_inner = 0, sn_phase = Ouvert 0\<rparr>"
  let ?p = "(demo_pool [])\<lparr>rp_ecourtes := 1\<rparr>"
  have "?R (demo_pool [], [7 \<mapsto> Holds ?s], (1, [0], 9))"
    by (rule reachable.step [OF demo_reaches], rule pool_step.others) (simp add: others_act_def demo_sessions_def)
  then have "?R (?p, [7 \<mapsto> Holds (?s\<lparr>sn_phase := Fini\<rparr>)], (1, [0], 9))"
    by (rule reachable.step)
      (use pool_step.before [of "[7 \<mapsto> Holds ?s]" 7 ?s False "demo_engine False" "demo_pool []" "(1, [0], 9)"
          "?s\<lparr>sn_phase := Fini\<rparr>" ?p "(1, [0], 9)"]
        in \<open>simp add: avant_def demo_engine_def demo_pool_def\<close>)
  then have "?R (rendre 0 ?p, Map.empty, (1, [0], 9))"
    by (rule reachable.step)
      (use pool_step.finish [of "[7 \<mapsto> Holds (?s\<lparr>sn_phase := Fini\<rparr>)]" 7 "?s\<lparr>sn_phase := Fini\<rparr>"
          "demo_engine False" ?p "(1, [0], 9)" "rendre 0 ?p" "(1, [0], 9)"]
        in \<open>simp add: drop_snapshot_def terminer_def demo_engine_def\<close>)
  then show ?thesis
    by (intro exI conjI) (auto simp: rendre_def demo_pool_def demo_sessions_def avant_def instantane_def demo_engine_def)
qed

end
