(* ===== verification/Postures.thy ===== *)
theory Postures
  imports Clause_Text
begin

text \<open>
  \<open>src/postures.rs\<close>: who fell silent in a session, and for whom they wait (\<open>PauseKind\<close> of
  \<open>src/agent.rs\<close>). Every participant has one posture at most, so the graph of who waits for whom is
  functional and \<open>deadlocks\<close> follows its chains. The lock around the map is left out: no operation
  panics under it, so it is never poisoned. Messages are written without accents.
\<close>

section \<open>Kinds of pauses\<close>

datatype pause_kind =
    Finished
  | WaitingForRun string
  | WaitingForPeer string
  | WaitingForInstruction
  | Blocked

definition pause_parse :: "string \<Rightarrow> string option \<Rightarrow> (string, pause_kind) result" where
  "pause_parse s argument =
     (let w = trim s; arg = (case argument of Some a \<Rightarrow> a | None \<Rightarrow> [])
      in if w = ''finished'' then Ok Finished
         else if w = ''waiting_for_run'' then Ok (WaitingForRun arg)
         else if w = ''waiting_for_peer'' then Ok (WaitingForPeer arg)
         else if w = ''waiting_for_instruction'' then Ok WaitingForInstruction
         else if w = ''blocked'' then Ok Blocked
         else Err w)"

fun waits_on_someone :: "pause_kind \<Rightarrow> bool" where
  "waits_on_someone (WaitingForRun _) = True"
| "waits_on_someone (WaitingForPeer _) = True"
| "waits_on_someone _ = False"

fun awaited :: "pause_kind \<Rightarrow> string option" where
  "awaited (WaitingForRun w) = Some w"
| "awaited (WaitingForPeer w) = Some w"
| "awaited _ = None"

lemma awaited_waits: "waits_on_someone k \<longleftrightarrow> awaited k \<noteq> None"
  by (cases k) simp_all

section \<open>The postures of a session\<close>

record session_posture =
  po_with :: string
  po_kind :: pause_kind
  po_reason :: string

type_synonym postures = "(string, session_posture) btree"

definition postures_record :: "string \<Rightarrow> session_posture \<Rightarrow> postures \<Rightarrow> postures" where
  "postures_record who p m = bt_insert who p m"

definition speak :: "string \<Rightarrow> postures \<Rightarrow> bool \<times> postures" where
  "speak who m = (bt_contains m who, bt_remove who m)"

definition posture_of :: "string \<Rightarrow> postures \<Rightarrow> session_posture option" where
  "posture_of who m = map_of m who"

definition postures_all :: "postures \<Rightarrow> (string \<times> session_posture) list" where
  "postures_all m = m"

definition awaiting :: "string \<Rightarrow> postures \<Rightarrow> (string \<times> session_posture) list" where
  "awaiting who m = filter (\<lambda>(_, p). awaited (po_kind p) = Some who) (postures_all m)"

text \<open>The edges of the graph of waits; the entries are in the order of the names, so collecting them
  in a \<open>BTreeMap\<close> keeps the list.\<close>

definition wait_edges :: "postures \<Rightarrow> (string, string) btree" where
  "wait_edges m =
     List.map_filter (\<lambda>(who, p).
       case awaited (po_kind p) of
         Some a \<Rightarrow> if waits_on_someone (po_kind p) then Some (who, a) else None
       | None \<Rightarrow> None) (postures_all m)"

text \<open>\<open>rotate_left\<close> to the smallest name, the first of them.\<close>

fun least_index :: "'a::linorder list \<Rightarrow> nat option" where
  "least_index [] = None"
| "least_index (x # xs) =
     (case least_index xs of None \<Rightarrow> Some 0 | Some k \<Rightarrow> if xs ! k < x then Some (Suc k) else Some 0)"

definition from_least :: "'a::linorder list \<Rightarrow> 'a list" where
  "from_least c = (case least_index c of Some k \<Rightarrow> drop k c @ take k c | None \<Rightarrow> c)"

text \<open>The inner loop: the chain of waits from one name, until it meets itself, a name seen before or
  somebody who does not wait.\<close>

function follow :: "('a::linorder, 'a) btree \<Rightarrow> 'a set \<Rightarrow> 'a list \<Rightarrow> 'a \<Rightarrow> 'a list \<times> 'a list option" where
  "follow edges seen path at =
     (if at \<in> set path then (path, Some (from_least (dropWhile (\<lambda>n. n \<noteq> at) path)))
      else if at \<in> seen then (path, None)
      else (case map_of edges at of
              Some next \<Rightarrow> follow edges seen (path @ [at]) next
            | None \<Rightarrow> (path @ [at], None)))"
  by pat_completeness auto

termination
proof (relation "measure (\<lambda>(edges, seen, path, at). card (dom (map_of edges) - set path))")
  fix edges :: "('a, 'a) btree" and seen path and at nx :: 'a
  assume "at \<notin> set path" and "map_of edges at = Some nx"
  then have "dom (map_of edges) - set (path @ [at]) \<subset> dom (map_of edges) - set path" by auto
  then show "((edges, seen, path @ [at], nx), edges, seen, path, at)
      \<in> measure (\<lambda>(edges, seen, path, at). card (dom (map_of edges) - set path))"
    by (simp add: psubset_card_mono finite_dom_map_of)
qed simp

declare follow.simps [simp del]

text \<open>The outer loop, over the names in order.\<close>

definition deadlock_step :: "('a::linorder, 'a) btree \<Rightarrow> 'a set \<times> 'a list list \<Rightarrow> 'a \<Rightarrow> 'a set \<times> 'a list list" where
  "deadlock_step edges so start =
     (case so of (seen, out) \<Rightarrow>
      if start \<in> seen then (seen, out)
      else (case follow edges seen [] start of
              (path, Some cycle) \<Rightarrow> (seen \<union> set path, out @ [cycle])
            | (path, None) \<Rightarrow> (seen \<union> set path, out)))"

definition deadlocks :: "postures \<Rightarrow> string list list" where
  "deadlocks m = snd (foldl (deadlock_step (wait_edges m)) ({}, []) (bt_keys (wait_edges m)))"

fun kind_label :: "pause_kind \<Rightarrow> string" where
  "kind_label Finished = ''a fini''"
| "kind_label (WaitingForRun _) = ''attend un resultat''"
| "kind_label (WaitingForPeer _) = ''vous attend''"
| "kind_label WaitingForInstruction = ''attend une consigne''"
| "kind_label Blocked = ''est bloque''"

definition awaiting_line :: "string \<times> session_posture \<Rightarrow> string" where
  "awaiting_line wp = ''  . '' @ fst wp @ '' - '' @ kind_label (po_kind (snd wp)) @ '' , <<'' @ po_reason (snd wp) @ ''>>''"

definition describe_for :: "string \<Rightarrow> postures \<Rightarrow> string" where
  "describe_for who m =
     (let lines = map awaiting_line (awaiting who m);
          lines1 = (if lines \<noteq> [] then ''en attente de vous :'' # lines else lines);
          cycles = filter (\<lambda>c. who \<in> set c \<or> length c > 1) (deadlocks m)
      in join_with [CHR 0x0A] (lines1 @ map (\<lambda>c. ''blocage : '' @ join_with '' -> '' c @ '' s'' @ [CHR 0x27] @ ''attendent mutuellement'') cycles))"

section \<open>Chains of a functional graph\<close>

text \<open>\<open>waits_through f x xs y\<close>: from \<open>x\<close>, the names \<open>xs\<close> wait one for the next, the last for \<open>y\<close>.\<close>

primrec waits_through :: "('a \<rightharpoonup> 'a) \<Rightarrow> 'a \<Rightarrow> 'a list \<Rightarrow> 'a \<Rightarrow> bool" where
  "waits_through f x [] y \<longleftrightarrow> x = y"
| "waits_through f x (a # xs) y \<longleftrightarrow> x = a \<and> (case f a of Some z \<Rightarrow> waits_through f z xs y | None \<Rightarrow> False)"

definition wait_rel :: "('a \<rightharpoonup> 'a) \<Rightarrow> ('a \<times> 'a) set" where
  "wait_rel f = {(a, b). f a = Some b}"

text \<open>A blocked circle, written from its smallest name.\<close>

definition wait_cycle :: "('a::linorder \<rightharpoonup> 'a) \<Rightarrow> 'a list \<Rightarrow> bool" where
  "wait_cycle f c \<longleftrightarrow> c \<noteq> [] \<and> distinct c \<and> waits_through f (hd c) c (hd c) \<and> hd c = Min (set c)"

lemma waits_through_append:
  "waits_through f x (xs @ ys) y \<longleftrightarrow> (\<exists>z. waits_through f x xs z \<and> waits_through f z ys y)"
  by (induction xs arbitrary: x) (auto split: option.splits)

lemma waits_through_closed:
  "waits_through f x xs y \<Longrightarrow> a \<in> set xs \<Longrightarrow> f a = Some b \<Longrightarrow> b \<in> set xs \<or> b = y"
proof (induction xs arbitrary: x)
  case (Cons c xs)
  then show ?case by (cases xs) (auto split: option.splits)
qed simp

lemma waits_through_defined: "waits_through f x xs y \<Longrightarrow> a \<in> set xs \<Longrightarrow> f a \<noteq> None"
  by (induction xs arbitrary: x) (auto split: option.splits)

lemma waits_through_reach:
  "waits_through f x xs y \<Longrightarrow> a \<in> set xs \<Longrightarrow> (x, a) \<in> (wait_rel f)\<^sup>* \<and> (a, y) \<in> (wait_rel f)\<^sup>+"
proof (induction xs arbitrary: x a)
  case (Cons c xs)
  then obtain z where c: "x = c" "(c, z) \<in> wait_rel f" "waits_through f z xs y"
    by (auto simp: wait_rel_def split: option.splits)
  have e: "(c, y) \<in> (wait_rel f)\<^sup>+"
  proof (cases xs)
    case Nil
    with c show ?thesis by auto
  next
    case (Cons d ds)
    with c have "z = d" by simp
    with Cons.IH [OF c(3), of d] Cons c(2) show ?thesis by (auto intro: trancl_into_trancl2)
  qed
  show ?case
  proof (cases "a = c")
    case False
    with Cons.prems(2) have "a \<in> set xs" by simp
    with Cons.IH [OF c(3)] c(1,2) show ?thesis by (auto intro: converse_rtrancl_into_rtrancl)
  qed (use c e in simp)
qed simp

lemma waits_through_unique:
  "waits_through f x xs y \<Longrightarrow> waits_through f x ys y \<Longrightarrow> y \<notin> set xs \<Longrightarrow> y \<notin> set ys \<Longrightarrow> xs = ys"
proof (induction xs arbitrary: x ys)
  case Nil
  then show ?case by (cases ys) auto
next
  case (Cons a xs)
  then obtain b bs where "ys = b # bs" by (cases ys) auto
  with Cons show ?case by (auto split: option.splits)
qed

lemma wait_rel_back:
  assumes "(x, x) \<in> (wait_rel f)\<^sup>+" and "(x, y) \<in> (wait_rel f)\<^sup>*"
  shows "(y, x) \<in> (wait_rel f)\<^sup>*"
  using assms(2)
proof (induction rule: rtrancl_induct)
  case (step y z)
  have "(y, x) \<in> (wait_rel f)\<^sup>+" using step.IH assms(1) by (rule rtrancl_trancl_trancl)
  then obtain w where "(y, w) \<in> wait_rel f" "(w, x) \<in> (wait_rel f)\<^sup>*" by (auto dest: tranclD)
  with step.hyps(2) show ?case by (simp add: wait_rel_def)
qed simp

subsection \<open>Circles\<close>

lemma wait_cycle_set:
  assumes "wait_cycle f c" and "a \<in> set c"
  shows "set c = {b. (a, b) \<in> (wait_rel f)\<^sup>*}"
proof -
  have c: "waits_through f (hd c) c (hd c)" "hd c \<in> set c" using assms(1) by (auto simp: wait_cycle_def)
  have "b \<in> set c" if "(a, b) \<in> (wait_rel f)\<^sup>*" for b
    using that assms(2)
  proof (induction rule: rtrancl_induct)
    case (step y z)
    then show ?case using waits_through_closed [OF c(1), of y z] c(2) by (auto simp: wait_rel_def)
  qed
  moreover have "(a, b) \<in> (wait_rel f)\<^sup>*" if "b \<in> set c" for b
    using waits_through_reach [OF c(1)] assms(2) that by (meson rtrancl_trans trancl_into_rtrancl)
  ultimately show ?thesis by blast
qed

lemma wait_cycle_loops: "wait_cycle f c \<Longrightarrow> a \<in> set c \<Longrightarrow> (a, a) \<in> (wait_rel f)\<^sup>+"
  unfolding wait_cycle_def using waits_through_reach by (metis trancl_rtrancl_trancl)

lemma wait_cycle_unique:
  assumes "wait_cycle f c" and "wait_cycle f d" and "a \<in> set c" and "a \<in> set d"
  shows "c = d"
proof -
  have "set c = set d" using wait_cycle_set [OF assms(1,3)] wait_cycle_set [OF assms(2,4)] by simp
  then obtain x cs ds where x: "c = x # cs" "d = x # ds" "x \<notin> set cs" "x \<notin> set ds"
    using assms(1,2) by (auto simp: wait_cycle_def neq_Nil_conv)
  with assms(1,2) have "cs = ds" by (auto simp: wait_cycle_def split: option.splits intro: waits_through_unique)
  with x show ?thesis by simp
qed

lemma least_index_Some:
  "least_index xs = Some k \<Longrightarrow> k < length xs \<and> xs ! k = Min (set xs)"
proof (induction xs arbitrary: k)
  case (Cons x xs)
  show ?case
  proof (cases "least_index xs")
    case None
    then have "xs = []" by (cases xs) (auto split: option.splits if_splits)
    with Cons.prems show ?thesis by simp
  next
    case (Some j)
    with Cons.IH have "j < length xs" "xs ! j = Min (set xs)" "xs \<noteq> []" by auto
    with Some Cons.prems show ?thesis by (auto simp: Min_insert min_def not_less simp del: Min_le_iff Min_ge_iff Min_less_iff split: if_splits)
  qed
qed simp

lemma least_index_None: "least_index xs = None \<longleftrightarrow> xs = []"
  by (cases xs) (auto split: option.splits)

lemma from_least_cycle:
  assumes "c \<noteq> []" and "distinct c" and "waits_through f (hd c) c (hd c)"
  shows "wait_cycle f (from_least c) \<and> set (from_least c) = set c"
proof -
  obtain k where k: "least_index c = Some k" "k < length c" "c ! k = Min (set c)"
    using assms(1) least_index_Some least_index_None by (metis not_Some_eq)
  let ?d = "drop k c @ take k c"
  have e: "c = take k c @ drop k c" by simp
  have s: "set ?d = set c" by (metis e set_append sup_commute)
  have h: "hd ?d = c ! k" using k(2) by (simp add: hd_drop_conv_nth)
  obtain z where z: "waits_through f (hd c) (take k c) z" "waits_through f z (drop k c) (hd c)"
    using assms(3) e waits_through_append by metis
  then have "z = hd (drop k c)" using k(2) by (cases "drop k c") auto
  with z h k(2) have "waits_through f (hd ?d) ?d (hd ?d)" by (auto simp: waits_through_append hd_append)
  moreover have "distinct ?d" using assms(2) by (metis e distinct_append inf_commute)
  ultimately show ?thesis using s h k by (simp add: wait_cycle_def from_least_def del: set_append)
qed

section \<open>What the search finds\<close>

lemma follow_post:
  assumes "follow edges seen path at = (path', r)" and "waits_through (map_of edges) start path at"
    and "distinct path" and "set path \<inter> seen = {}"
  shows "set path \<subseteq> set path' \<and> (at \<notin> seen \<longrightarrow> at \<in> set path') \<and> set path' \<inter> seen = {}
    \<and> (\<forall>c. r = Some c \<longrightarrow> wait_cycle (map_of edges) c \<and> set c \<subseteq> set path')
    \<and> (\<forall>x \<in> set path'. \<exists>y. (x, y) \<in> (wait_rel (map_of edges))\<^sup>*
         \<and> (map_of edges y = None \<or> y \<in> seen \<or> (\<exists>c. r = Some c \<and> y \<in> set c)))"
  using assms
proof (induction edges seen path at rule: follow.induct)
  case (1 edges seen path at)
  let ?f = "map_of edges"
  have ends: "\<exists>y. (x, y) \<in> (wait_rel ?f)\<^sup>* \<and> P y" if "x \<in> set path" "P at" for x P
    using waits_through_reach [OF "1.prems"(2) that(1)] that(2) by (blast intro: trancl_into_rtrancl)
  consider (met) "at \<in> set path" | (seen) "at \<notin> set path" "at \<in> seen"
    | (stop) "at \<notin> set path" "at \<notin> seen" "?f at = None"
    | (go) nx where "at \<notin> set path" "at \<notin> seen" "?f at = Some nx" by blast
  then show ?case
  proof cases
    case met
    then obtain us vs where p: "path = us @ at # vs" "at \<notin> set us" by (meson split_list_first)
    have d: "dropWhile (\<lambda>n. n \<noteq> at) path = at # vs" using p by (subst p(1)) (auto simp: dropWhile_append)
    have c: "wait_cycle ?f (from_least (at # vs))" "set (from_least (at # vs)) = set (at # vs)"
      using "1.prems"(2,3) p from_least_cycle [of "at # vs" ?f] by (auto simp: waits_through_append)
    have r: "path' = path" "r = Some (from_least (at # vs))"
      using "1.prems"(1) met d by (simp_all add: follow.simps [of edges seen path at])
    have "\<exists>y. (x, y) \<in> (wait_rel ?f)\<^sup>* \<and> (?f y = None \<or> y \<in> seen \<or> (\<exists>c. r = Some c \<and> y \<in> set c))" if "x \<in> set path" for x
      using ends [OF that, where P = "\<lambda>y. ?f y = None \<or> y \<in> seen \<or> (\<exists>c. r = Some c \<and> y \<in> set c)"] c(2) r(2) by simp
    moreover have "set (at # vs) \<subseteq> set path" by (auto simp: p(1))
    ultimately show ?thesis using "1.prems"(4) met c r by simp
  next
    case seen
    then show ?thesis using "1.prems"(1,4) ends [where P = "\<lambda>y. y \<in> seen"]
      by (auto simp: follow.simps [of edges seen path at])
  next
    case stop
    have r: "path' = path @ [at]" "r = None" using "1.prems"(1) stop by (auto simp: follow.simps [of edges seen path at])
    show ?thesis using "1.prems"(4) stop ends [where P = "\<lambda>y. ?f y = None"] by (auto simp: r)
  next
    case go
    have s: "follow edges seen (path @ [at]) nx = (path', r)"
      using "1.prems"(1) go by (simp add: follow.simps [of edges seen path at])
    have "waits_through ?f start (path @ [at]) nx" using "1.prems"(2) go by (auto simp: waits_through_append)
    from "1.IH" [OF go s this] "1.prems"(3,4) go show ?thesis by auto
  qed
qed

definition searched :: "('a::linorder \<rightharpoonup> 'a) \<Rightarrow> 'a set \<times> 'a list list \<Rightarrow> bool" where
  "searched f so \<longleftrightarrow> distinct (snd so) \<and> (\<forall>c \<in> set (snd so). wait_cycle f c \<and> set c \<subseteq> fst so)
     \<and> (\<forall>x \<in> fst so. \<exists>y. (x, y) \<in> (wait_rel f)\<^sup>* \<and> (f y = None \<or> (\<exists>c \<in> set (snd so). y \<in> set c)))"

lemma searched_step:
  assumes "searched (map_of edges) so"
  shows "searched (map_of edges) (deadlock_step edges so start)
    \<and> insert start (fst so) \<subseteq> fst (deadlock_step edges so start)"
proof (cases "start \<in> fst so")
  case True
  with assms show ?thesis by (auto simp: deadlock_step_def split: prod.split)
next
  case False
  obtain seen out where so: "so = (seen, out)" by (cases so)
  obtain path r where f: "follow edges seen [] start = (path, r)" by (cases "follow edges seen [] start")
  let ?f = "map_of edges" and ?out = "case r of Some c \<Rightarrow> out @ [c] | None \<Rightarrow> out"
  have step: "deadlock_step edges so start = (seen \<union> set path, ?out)"
    using False so f by (simp add: deadlock_step_def split: option.split)
  have new: "start \<in> set path" "set path \<inter> seen = {}"
    "\<And>c. r = Some c \<Longrightarrow> wait_cycle ?f c \<and> set c \<subseteq> set path"
    "\<And>x. x \<in> set path \<Longrightarrow> \<exists>y. (x, y) \<in> (wait_rel ?f)\<^sup>* \<and> (?f y = None \<or> y \<in> seen \<or> (\<exists>c. r = Some c \<and> y \<in> set c))"
    using follow_post [OF f, of start] False so by auto
  have old: "distinct out" "\<And>c. c \<in> set out \<Longrightarrow> wait_cycle ?f c \<and> set c \<subseteq> seen"
    "\<And>x. x \<in> seen \<Longrightarrow> \<exists>y. (x, y) \<in> (wait_rel ?f)\<^sup>* \<and> (?f y = None \<or> (\<exists>c \<in> set out. y \<in> set c))"
    using assms so by (auto simp: searched_def)
  have sub: "set out \<subseteq> set ?out" and mem: "\<And>c. r = Some c \<Longrightarrow> c \<in> set ?out" by (auto split: option.split)
  have "distinct ?out"
  proof (cases r)
    case (Some c)
    have "c \<notin> set out"
    proof
      assume "c \<in> set out"
      with old(2) [of c] new(2) new(3) [OF Some] have "set c \<subseteq> {}" by blast
      with new(3) [OF Some] show False by (simp add: wait_cycle_def)
    qed
    with Some old(1) show ?thesis by simp
  qed (use old(1) in simp)
  moreover have "\<forall>c \<in> set ?out. wait_cycle ?f c \<and> set c \<subseteq> seen \<union> set path"
    using old(2) new(3) by (auto split: option.splits)
  moreover have "\<exists>y. (x, y) \<in> (wait_rel ?f)\<^sup>* \<and> (?f y = None \<or> (\<exists>c \<in> set ?out. y \<in> set c))" if "x \<in> seen \<union> set path" for x
  proof -
    have from_seen: "\<exists>y. (z, y) \<in> (wait_rel ?f)\<^sup>* \<and> (?f y = None \<or> (\<exists>c \<in> set ?out. y \<in> set c))" if "z \<in> seen" for z
      using old(3) [OF that] sub by blast
    show ?thesis
    proof (cases "x \<in> seen")
      case False
      with that new(4) [of x] obtain y where y: "(x, y) \<in> (wait_rel ?f)\<^sup>*"
        "?f y = None \<or> y \<in> seen \<or> (\<exists>c. r = Some c \<and> y \<in> set c)" by auto
      show ?thesis
      proof (cases "y \<in> seen")
        case True
        with from_seen y(1) show ?thesis by (meson rtrancl_trans)
      next
        case False
        with y mem show ?thesis by blast
      qed
    qed (rule from_seen)
  qed
  ultimately show ?thesis using new(1) unfolding step by (auto simp: searched_def so)
qed

lemma searched_all:
  "searched (map_of edges) so \<Longrightarrow>
     searched (map_of edges) (foldl (deadlock_step edges) so ks) \<and> set ks \<union> fst so \<subseteq> fst (foldl (deadlock_step edges) so ks)"
proof (induction ks arbitrary: so)
  case (Cons k ks)
  note s = searched_step [OF Cons.prems, of k]
  from Cons.IH [of "deadlock_step edges so k"] s show ?case by auto
qed simp

lemma map_of_wait_edges:
  assumes "bt_wf m"
  shows "map_of (wait_edges m) who = Option.bind (map_of m who) (\<lambda>p. awaited (po_kind p))"
proof -
  have "distinct (map fst m)" using assms by (rule bt_wf_distinct)
  then show ?thesis
  proof (induction m)
    case (Cons e m)
    obtain k p where e: "e = (k, p)" by (cases e)
    have no: "map_of m k = None" using Cons.prems e by (simp add: map_of_eq_None_iff)
    with Cons.IH Cons.prems e show ?case
      by (cases "awaited (po_kind p)")
        (auto simp: wait_edges_def postures_all_def List.map_filter_def awaited_waits)
  qed (simp add: wait_edges_def postures_all_def List.map_filter_def)
qed

lemma deadlocks_searched:
  "\<exists>seen. searched (map_of (wait_edges m)) (seen, deadlocks m) \<and> fst ` set (wait_edges m) \<subseteq> seen"
proof -
  have "searched (map_of (wait_edges m)) ({}, [])" by (simp add: searched_def)
  from searched_all [OF this, of "bt_keys (wait_edges m)"] show ?thesis
    by (intro exI [of _ "fst (foldl (deadlock_step (wait_edges m)) ({}, []) (bt_keys (wait_edges m)))"])
      (simp add: deadlocks_def bt_keys_def)
qed

lemma searched_loops:
  assumes s: "searched f (seen, out)" and x: "x \<in> seen" and loop: "(x, x) \<in> (wait_rel f)\<^sup>+"
  shows "\<exists>c \<in> set out. x \<in> set c"
proof -
  obtain y where y: "(x, y) \<in> (wait_rel f)\<^sup>*" "f y = None \<or> (\<exists>c \<in> set out. y \<in> set c)"
    using s x unfolding searched_def fst_conv snd_conv by meson
  have return: "(y, x) \<in> (wait_rel f)\<^sup>*" by (rule wait_rel_back [OF loop y(1)])
  from return loop have "(y, x) \<in> (wait_rel f)\<^sup>+" by (rule rtrancl_trancl_trancl)
  then have "f y \<noteq> None" by (auto dest!: tranclD simp: wait_rel_def)
  with y(2) obtain c where c: "c \<in> set out" "y \<in> set c" by blast
  with s have "wait_cycle f c" by (simp add: searched_def)
  with wait_cycle_set [OF this c(2)] return c show ?thesis by blast
qed

text \<open>Who waits for whom, read off the postures.\<close>

definition waits_for :: "postures \<Rightarrow> string \<rightharpoonup> string" where
  "waits_for m who = Option.bind (posture_of who m) (\<lambda>p. awaited (po_kind p))"

lemma waits_for_edges: "bt_wf m \<Longrightarrow> map_of (wait_edges m) = waits_for m"
  by (rule ext) (simp add: map_of_wait_edges waits_for_def posture_of_def)

lemma deadlocks_sound: "bt_wf m \<Longrightarrow> c \<in> set (deadlocks m) \<Longrightarrow> wait_cycle (waits_for m) c"
  using deadlocks_searched [of m] by (auto simp: waits_for_edges searched_def)

text \<open>
  C25. The blocked circles of a session are found exactly. The search lists every circle of
  participants that wait one for the next once, written from its smallest name, and nothing else; so
  a participant is in a listed circle exactly when following the waits from him leads back to him.
\<close>

theorem deadlocks_are_the_circles:
  assumes "bt_wf m"
  shows "distinct (deadlocks m) \<and> set (deadlocks m) = {c. wait_cycle (waits_for m) c}
    \<and> (\<forall>who. (\<exists>c \<in> set (deadlocks m). who \<in> set c) \<longleftrightarrow> (who, who) \<in> (wait_rel (waits_for m))\<^sup>+)"
proof -
  note f = waits_for_edges [OF assms]
  obtain seen where s: "searched (waits_for m) (seen, deadlocks m)" and k: "fst ` set (wait_edges m) \<subseteq> seen"
    using deadlocks_searched [of m] by (auto simp: f)
  note sound = deadlocks_sound [OF assms]
  have found: "\<exists>c \<in> set (deadlocks m). who \<in> set c" if "(who, who) \<in> (wait_rel (waits_for m))\<^sup>+" for who
  proof (rule searched_loops [OF s _ that])
    have "waits_for m who \<noteq> None" using that by (auto dest!: tranclD simp: wait_rel_def)
    then have "who \<in> fst ` set (wait_edges m)" by (simp add: f [symmetric] map_of_eq_None_iff)
    with k show "who \<in> seen" by blast
  qed
  have "c \<in> set (deadlocks m)" if c: "wait_cycle (waits_for m) c" for c
  proof -
    have h: "hd c \<in> set c" using c by (simp add: wait_cycle_def)
    obtain d where d: "d \<in> set (deadlocks m)" "hd c \<in> set d" using found [OF wait_cycle_loops [OF c h]] by blast
    with wait_cycle_unique [OF c sound [OF d(1)] h] show ?thesis by simp
  qed
  with sound have "set (deadlocks m) = {c. wait_cycle (waits_for m) c}" by blast
  moreover have "(\<exists>c \<in> set (deadlocks m). who \<in> set c) \<longleftrightarrow> (who, who) \<in> (wait_rel (waits_for m))\<^sup>+" for who
    using found sound wait_cycle_loops by blast
  ultimately show ?thesis using s by (simp add: searched_def)
qed

subsection \<open>Operations\<close>

lemma postures_record_wf [simp, intro]: "bt_wf m \<Longrightarrow> bt_wf (postures_record who p m)"
  by (simp add: postures_record_def)

lemma speak_wf [simp, intro]: "bt_wf m \<Longrightarrow> bt_wf (snd (speak who m))"
  by (simp add: speak_def)

lemma waits_for_record: "waits_for (postures_record who p m) = (waits_for m)(who := awaited (po_kind p))"
  by (auto simp: waits_for_def posture_of_def postures_record_def)

lemma waits_for_speak: "waits_for (snd (speak who m)) = (waits_for m)(who := None)"
  by (auto simp: waits_for_def posture_of_def speak_def)

text \<open>Speaking dissolves the circle one is in.\<close>

lemma speak_dissolves:
  assumes "bt_wf m"
  shows "\<forall>c \<in> set (deadlocks (snd (speak who m))). who \<notin> set c"
proof -
  have "(who, who) \<notin> (wait_rel (waits_for (snd (speak who m))))\<^sup>+"
    by (auto dest!: tranclD simp: wait_rel_def waits_for_speak)
  with deadlocks_sound [OF speak_wf [OF assms]] wait_cycle_loops show ?thesis by blast
qed

lemma awaiting_exact:
  "bt_wf m \<Longrightarrow> (w, p) \<in> set (awaiting who m) \<longleftrightarrow> posture_of w m = Some p \<and> waits_for m w = Some who"
  by (auto simp: awaiting_def postures_all_def posture_of_def waits_for_def bt_wf_distinct)

section \<open>Witnesses\<close>

definition waiting_demo :: postures where
  "waiting_demo =
     foldl (\<lambda>m (a, b). postures_record a \<lparr>po_with = b, po_kind = WaitingForPeer b, po_reason = []\<rparr> m) []
       [(''carl'', ''bob''), (''bob'', ''alice''), (''alice'', ''carl''), (''eve'', ''bob''), (''dan'', ''dan'')]"

lemma waiting_demo_deadlocks: "deadlocks waiting_demo = [[''alice'', ''carl'', ''bob''], [''dan'']]"
  by code_simp

theorem deadlocks_are_the_circles_witness:
  "bt_wf waiting_demo \<and> wait_cycle (waits_for waiting_demo) [''alice'', ''carl'', ''bob'']
     \<and> (''eve'', ''eve'') \<notin> (wait_rel (waits_for waiting_demo))\<^sup>+"
proof -
  have w: "bt_wf waiting_demo" by (simp add: waiting_demo_def)
  note c = deadlocks_are_the_circles [OF w, unfolded waiting_demo_deadlocks]
  have "[''alice'', ''carl'', ''bob''] \<in> {c. wait_cycle (waits_for waiting_demo) c}"
    using c [THEN conjunct2, THEN conjunct1] by (metis list.set_intros(1))
  moreover have "\<not> (\<exists>c \<in> set [[''alice'', ''carl'', ''bob''], [''dan'']]. ''eve'' \<in> set c)" by simp
  ultimately show ?thesis using w c [THEN conjunct2, THEN conjunct2, rule_format, of "''eve''"] by simp
qed

end
