(* ===== verification/Work_Domain.thy ===== *)
theory Work_Domain
  imports Filter_Reading
begin

text \<open>
  \<open>src/work_domain.rs\<close>: what an agent has in its vision, as a named selection of rows, and the filter a
  search is narrowed by. The derived default \<open>around\<close> reads the disk and is not modelled. Messages are
  written without accents.
\<close>

section \<open>Selections\<close>

record selector =
  sel_sources :: "string list"
  sel_repos :: "string list"
  sel_under :: "string list"
  sel_languages :: "string list"

definition selector_is_empty :: "selector \<Rightarrow> bool" where
  "selector_is_empty s = (sel_sources s = [] \<and> sel_repos s = [] \<and> sel_under s = [] \<and> sel_languages s = [])"

definition value_list :: "string list \<Rightarrow> filter_value" where
  "value_list values = FvList (map VString values)"

definition selector_conditions :: "string \<Rightarrow> selector \<Rightarrow> filter_condition list" where
  "selector_conditions path_field s =
     (if sel_sources s \<noteq> [] then [FcField ''source'' (value_list (sel_sources s))] else [])
   @ (if sel_repos s \<noteq> [] then [FcField ''repo'' (value_list (sel_repos s))] else [])
   @ (if sel_languages s \<noteq> [] then [FcField ''language'' (value_list (sel_languages s))] else [])
   @ (if sel_under s \<noteq> []
      then [FcShould (map (\<lambda>p. FcField path_field (FvOps [OpStartsWith p])) (sel_under s))] else [])"

record work_domain =
  wd_name :: string
  wd_include :: "selector list"
  wd_exclude :: "selector list"

definition domain_new :: "string \<Rightarrow> work_domain" where
  "domain_new name = \<lparr>wd_name = name, wd_include = [], wd_exclude = []\<rparr>"

definition domain_including :: "selector \<Rightarrow> work_domain \<Rightarrow> work_domain" where
  "domain_including s d = d\<lparr>wd_include := wd_include d @ [s]\<rparr>"

definition domain_excluding :: "selector \<Rightarrow> work_domain \<Rightarrow> work_domain" where
  "domain_excluding s d = d\<lparr>wd_exclude := wd_exclude d @ [s]\<rparr>"

definition everything :: work_domain where
  "everything = domain_new ''tout''"

definition is_everything :: "work_domain \<Rightarrow> bool" where
  "is_everything d = (list_all selector_is_empty (wd_include d) \<and> list_all selector_is_empty (wd_exclude d))"

definition selected :: "string \<Rightarrow> selector list \<Rightarrow> filter_condition list" where
  "selected path_field ss = map (\<lambda>s. FcMust (selector_conditions path_field s)) (filter (\<lambda>s. \<not> selector_is_empty s) ss)"

definition to_filter :: "work_domain \<Rightarrow> string \<Rightarrow> filter_condition option" where
  "to_filter d path_field =
     (let alternatives = selected path_field (wd_include d);
          refused = selected path_field (wd_exclude d);
          must = (if alternatives \<noteq> [] then [FcShould alternatives] else [])
               @ (if refused \<noteq> [] then [FcMustNot [FcShould refused]] else [])
      in if must \<noteq> [] then Some (FcMust must) else None)"

definition selector_fields :: "string \<Rightarrow> selector \<Rightarrow> string list" where
  "selector_fields path_field s =
     (if sel_sources s \<noteq> [] then [''source''] else []) @ (if sel_repos s \<noteq> [] then [''repo''] else [])
   @ (if sel_languages s \<noteq> [] then [''language''] else []) @ (if sel_under s \<noteq> [] then [path_field] else [])"

definition required_fields :: "work_domain \<Rightarrow> string \<Rightarrow> string list" where
  "required_fields d path_field =
     remdups_adj (sort (concat (map (selector_fields path_field) (wd_include d @ wd_exclude d))))"

definition applies_to :: "work_domain \<Rightarrow> (string \<Rightarrow> bool) \<Rightarrow> string \<Rightarrow> bool" where
  "applies_to d has_field path_field = list_all has_field (required_fields d path_field)"

definition whole_index :: string where
  "whole_index = ''tout l'' @ CHR 0x27 # ''index''"

definition include_part :: "selector \<Rightarrow> string" where
  "include_part s = join_with '' sous ''
     ((if sel_repos s \<noteq> [] then [join_with '', '' (sel_repos s)] else [])
    @ (if sel_under s \<noteq> [] then [join_with '', '' (sel_under s)] else [])
    @ (if sel_sources s \<noteq> [] then [join_with '', '' (sel_sources s)] else [])
    @ (if sel_languages s \<noteq> [] then [''en '' @ join_with ''/'' (sel_languages s)] else []))"

definition exclude_part :: "selector \<Rightarrow> string" where
  "exclude_part s = join_with '', '' (sel_repos s @ sel_under s @ sel_languages s)"

definition domain_describe :: "work_domain \<Rightarrow> string" where
  "domain_describe d =
     (if is_everything d then ''vision : '' @ whole_index
      else let parts = map include_part (filter (\<lambda>s. \<not> selector_is_empty s) (wd_include d));
               refused = map exclude_part (filter (\<lambda>s. \<not> selector_is_empty s) (wd_exclude d))
           in ''vision : '' @ (if parts = [] then whole_index else join_with '' + '' parts)
              @ (if refused \<noteq> [] then '' . hors champ : '' @ join_with '' ; '' refused else []))"

section \<open>What is in the vision\<close>

text \<open>A row gives a text for every field it fills. A selection recognises a row when every field it
  names has a value of its list, and the row's path begins with a prefix.\<close>

type_synonym text_row = "string \<Rightarrow> string option"

definition selector_sees :: "text_row \<Rightarrow> string \<Rightarrow> selector \<Rightarrow> bool" where
  "selector_sees row path_field s \<longleftrightarrow>
     (sel_sources s \<noteq> [] \<longrightarrow> row ''source'' \<in> Some ` set (sel_sources s))
   \<and> (sel_repos s \<noteq> [] \<longrightarrow> row ''repo'' \<in> Some ` set (sel_repos s))
   \<and> (sel_languages s \<noteq> [] \<longrightarrow> row ''language'' \<in> Some ` set (sel_languages s))
   \<and> (sel_under s \<noteq> [] \<longrightarrow> (\<exists>p \<in> set (sel_under s). case row path_field of None \<Rightarrow> False | Some t \<Rightarrow> starts_with p t))"

definition recognised :: "text_row \<Rightarrow> string \<Rightarrow> selector list \<Rightarrow> bool" where
  "recognised row path_field ss \<longleftrightarrow> (\<exists>s \<in> set ss. \<not> selector_is_empty s \<and> selector_sees row path_field s)"

definition domain_sees :: "text_row \<Rightarrow> string \<Rightarrow> work_domain \<Rightarrow> bool" where
  "domain_sees row path_field d \<longleftrightarrow>
     (list_all selector_is_empty (wd_include d) \<or> recognised row path_field (wd_include d))
   \<and> \<not> recognised row path_field (wd_exclude d)"

section \<open>What the databases test\<close>

text \<open>
  The clause of a prefix is \<open>starts_with(prop, $p)\<close> on rag3db, the prefix test of the engine
  (\<open>StartsWith\<close> in its \<open>starts_with_function.h\<close>). On PostgreSQL it is \<open>prop LIKE $p || '%'\<close>: in a
  pattern of \<open>LIKE\<close> a \<open>%\<close> stands for any text, a \<open>_\<close> for any character, and a backslash takes
  the character after it literally.
\<close>

fun like :: "string \<Rightarrow> string \<Rightarrow> bool" where
  "like [] t = (t = [])"
| "like (c # pat) t =
     (if c = CHR ''%'' then list_ex (\<lambda>k. like pat (drop k t)) [0..<Suc (length t)]
      else if c = CHR ''_'' then t \<noteq> [] \<and> like pat (tl t)
      else if c = CHR 0x5C then (case pat of [] \<Rightarrow> False | e # rest \<Rightarrow> t \<noteq> [] \<and> hd t = e \<and> like rest (tl t))
      else t \<noteq> [] \<and> hd t = c \<and> like pat (tl t))"

definition no_wildcard :: "string \<Rightarrow> bool" where
  "no_wildcard p = list_all (\<lambda>c. c \<notin> {CHR ''%'', CHR ''_'', CHR 0x5C}) p"

definition prefix_test :: "filter_dialect \<Rightarrow> string \<Rightarrow> string \<Rightarrow> bool" where
  "prefix_test D p t = (if fd_name D = ''postgresql'' then like (p @ ''%'') t else starts_with p t)"

lemma like_everything: "like ''%'' t"
  by (auto simp: list_ex_iff)

lemma like_prefix: "no_wildcard p \<Longrightarrow> like (p @ ''%'') t = starts_with p t"
proof (induction p arbitrary: t)
  case Nil
  then show ?case using like_everything [of t] by (simp del: like.simps)
next
  case (Cons c p)
  then show ?case by (cases t) (auto simp: no_wildcard_def)
qed

text \<open>With a wildcard in the prefix, \<open>LIKE\<close> accepts a path that does not begin with it.\<close>

lemma like_wildcard_prefix: "like (''my_app/'' @ ''%'') ''my-app/a.rs'' \<and> \<not> starts_with ''my_app/'' ''my-app/a.rs''"
  by code_simp

text \<open>The truth of the leaves of a domain's filter at a row that fills their fields.\<close>

fun row_leaf :: "filter_dialect \<Rightarrow> text_row \<Rightarrow> filter_condition \<Rightarrow> bool" where
  "row_leaf D row (FcField key (FvList items)) = (case row key of None \<Rightarrow> False | Some x \<Rightarrow> VString x \<in> set items)"
| "row_leaf D row (FcField key (FvOps [OpStartsWith p])) = (case row key of None \<Rightarrow> False | Some t \<Rightarrow> prefix_test D p t)"
| "row_leaf D row _ = False"

text \<open>The domains a dialect can express: on rag3db all; on PostgreSQL those of path prefixes without a
  wildcard (the clause of a list, \<open>prop IN $p\<close>, is none of its grammar).\<close>

definition prefix_selector :: "selector \<Rightarrow> bool" where
  "prefix_selector s = (sel_sources s = [] \<and> sel_repos s = [] \<and> sel_languages s = [] \<and> list_all no_wildcard (sel_under s))"

definition expressible :: "filter_dialect \<Rightarrow> work_domain \<Rightarrow> bool" where
  "expressible D d \<longleftrightarrow> D = rag3db_filters \<or> D = postgres_filters \<and> list_all prefix_selector (wd_include d @ wd_exclude d)"

lemma not_postgres: "fd_name rag3db_filters \<noteq> ''postgresql''"
  by (simp add: rag3db_filters_def)

lemma prefix_test_rag3db [simp]: "prefix_test rag3db_filters = starts_with"
  using not_postgres by (auto simp: prefix_test_def fun_eq_iff)

lemma conditions_hold:
  "(\<forall>c \<in> set (selector_conditions path_field s). holds (row_leaf rag3db_filters row) c) = selector_sees row path_field s"
  by (auto simp: selector_conditions_def selector_sees_def value_list_def image_iff split: option.splits)

lemma selected_holds: "(\<exists>c \<in> set (selected path_field ss). holds (row_leaf rag3db_filters row) c) = recognised row path_field ss"
  by (auto simp: selected_def recognised_def conditions_hold)

lemma selected_Nil: "selected path_field ss = [] \<longleftrightarrow> list_all selector_is_empty ss"
  by (auto simp: selected_def list_all_iff filter_empty_conv)

lemma recognised_empty: "list_all selector_is_empty ss \<Longrightarrow> \<not> recognised row path_field ss"
  by (auto simp: recognised_def list_all_iff)

lemma to_filter_holds: "to_filter d path_field = Some c \<Longrightarrow> holds (row_leaf rag3db_filters row) c = domain_sees row path_field d"
  using selected_holds [of path_field "wd_include d" row] selected_holds [of path_field "wd_exclude d" row]
    recognised_empty [of "wd_exclude d" row path_field]
  by (auto simp: to_filter_def Let_def domain_sees_def selected_Nil split: if_splits)

text \<open>A domain gives no filter exactly when it restricts nothing, and then every row is seen.\<close>

lemma to_filter_None: "to_filter d path_field = None \<longleftrightarrow> is_everything d"
  by (auto simp: to_filter_def Let_def is_everything_def selected_Nil)

lemma everything_seen: "is_everything d \<Longrightarrow> domain_sees row path_field d"
  by (simp add: is_everything_def domain_sees_def recognised_empty)

section \<open>The filter of a domain\<close>

lemma conditions_simple:
  "\<not> selector_is_empty s \<Longrightarrow> selector_conditions path_field s \<noteq> []
     \<and> list_all (\<lambda>c. has_clause c \<and> simple_negations c) (selector_conditions path_field s)"
  by (auto simp: selector_conditions_def selector_is_empty_def value_list_def list_all_iff list_ex_iff neq_Nil_conv)

lemma selected_simple: "c \<in> set (selected path_field ss) \<Longrightarrow> has_clause c \<and> simple_negations c"
  using conditions_simple [of _ path_field] by (auto simp: selected_def list_all_iff list_ex_iff) (metis list.set_intros(1) neq_Nil_conv)

lemma to_filter_simple: "to_filter d path_field = Some c \<Longrightarrow> has_clause c \<and> simple_negations c"
  using selected_simple [of _ path_field "wd_include d"] selected_simple [of _ path_field "wd_exclude d"]
  by (auto simp: to_filter_def Let_def list_all_iff list_ex_iff neq_Nil_conv split: if_splits)

lemma leaves_concat: "set (concat (map leaves cs)) = (\<Union>c \<in> set cs. set (leaves c))"
  by simp

lemma conditions_leaves:
  "l \<in> set (concat (map leaves (selector_conditions path_field s))) \<Longrightarrow>
     \<exists>key val. l = FcField key val \<and> key \<in> set (selector_fields path_field s)"
  by (auto simp: selector_conditions_def selector_fields_def split: if_splits)

lemma selected_leaves:
  "c \<in> set (selected path_field ss) \<Longrightarrow> l \<in> set (leaves c) \<Longrightarrow>
     \<exists>key val. l = FcField key val \<and> key \<in> set (concat (map (selector_fields path_field) ss))"
  using conditions_leaves by (fastforce simp: selected_def)

lemma to_filter_leaves:
  "to_filter d path_field = Some c \<Longrightarrow> l \<in> set (leaves c) \<Longrightarrow>
     \<exists>key val. l = FcField key val \<and> key \<in> set (required_fields d path_field)"
  by (auto simp: to_filter_def Let_def required_fields_def split: if_splits dest!: selected_leaves)

lemma required_valid:
  "is_valid_identifier path_field \<Longrightarrow> key \<in> set (required_fields d path_field) \<Longrightarrow> is_valid_identifier key"
  by (auto simp: required_fields_def selector_fields_def is_ascii_alphabetic_def is_ascii_alphanumeric_def char_code_def split: if_splits)

lemma thread_succeeds:
  assumes "I s" and "\<And>u x. x \<in> set xs \<Longrightarrow> I u \<Longrightarrow> \<exists>v y. f u x = Inr (v, y) \<and> I v"
  shows "\<exists>t ys. thread f s xs = Inr (t, ys) \<and> I t"
  using assms
proof (induction xs arbitrary: s)
  case (Cons x xs)
  from Cons.prems obtain u y where u: "f s x = Inr (u, y)" "I u" by (meson list.set_intros(1))
  from Cons.IH [OF u(2)] Cons.prems(2) obtain t ys where "thread f u xs = Inr (t, ys)" "I t" by auto
  with u show ?case by simp
qed simp

lemma root_condition_builds:
  assumes "is_valid_identifier re" and "join_state D R re ra st"
    and "\<forall>l \<in> set (leaves c). \<exists>key val. l = FcField key val \<and> is_valid_identifier key"
  shows "\<exists>st' t. build_condition_clause D R re ra c st = Inr (st', t) \<and> join_state D R re ra st'"
  using assms
proof (induction c arbitrary: st)
  case (FcField key val)
  obtain es where "joined D R re ra es st" using FcField.prems(2) by (auto simp: join_state_def)
  then have "map_of (st_aliases st) re = Some ra" by (simp add: joined_def)
  then have "\<exists>st' t. build_condition_clause D R re ra (FcField key val) st = Inr (st', t)"
    using FcField.prems key_parts_valid [of re key]
    by (auto simp: field_clause_def validate_identifier_def alias_of_def Let_def split: prod.splits)
  then show ?case using condition_joins FcField.prems(2) by blast
next
  case (FcMust cs)
  have "\<exists>t ys. thread (\<lambda>s c. build_condition_clause D R re ra c s) st cs = Inr (t, ys) \<and> join_state D R re ra t"
    using FcMust.prems by (intro thread_succeeds FcMust.IH) auto
  then show ?case by auto
next
  case (FcShould cs)
  have "\<exists>t ys. thread (\<lambda>s c. build_condition_clause D R re ra c s) st cs = Inr (t, ys) \<and> join_state D R re ra t"
    using FcShould.prems by (intro thread_succeeds FcShould.IH) auto
  then show ?case by auto
next
  case (FcMustNot cs)
  have "\<exists>t ys. thread (\<lambda>s c. build_condition_clause D R re ra c s) st cs = Inr (t, ys) \<and> join_state D R re ra t"
    using FcMustNot.prems by (intro thread_succeeds FcMustNot.IH) auto
  then show ?case by auto
qed auto

lemma domain_filter_compiles:
  assumes "is_valid_identifier re" and "is_valid_identifier path_field" and "to_filter d path_field = Some c"
  shows "\<exists>p. parse_condition D R c re ra = Ok p"
proof -
  have "\<forall>l \<in> set (leaves c). \<exists>key val. l = FcField key val \<and> is_valid_identifier key"
    using to_filter_leaves [OF assms(3)] required_valid [OF assms(2)] by blast
  from root_condition_builds [OF assms(1) join_initial this] obtain st t where
    "build_condition_clause D R re ra c (initial_state re ra) = Inr (st, t)" by blast
  with assms(1) show ?thesis by (simp add: parse_condition_def validate_identifier_def)
qed

lemma prefix_leaves:
  "prefix_selector s \<Longrightarrow> l \<in> set (concat (map leaves (selector_conditions path_field s))) \<Longrightarrow>
     \<exists>p. l = FcField path_field (FvOps [OpStartsWith p]) \<and> no_wildcard p"
  by (auto simp: selector_conditions_def prefix_selector_def list_all_iff split: if_splits)

lemma selected_prefix_leaves:
  "list_all prefix_selector ss \<Longrightarrow> c \<in> set (selected path_field ss) \<Longrightarrow> l \<in> set (leaves c) \<Longrightarrow>
     \<exists>p. l = FcField path_field (FvOps [OpStartsWith p]) \<and> no_wildcard p"
  using prefix_leaves by (fastforce simp: selected_def list_all_iff)

text \<open>On the leaves of an expressible domain, what the dialect tests is what the vision asks.\<close>

lemma leaf_is_the_vision:
  assumes "expressible D d" and "to_filter d path_field = Some c" and "l \<in> set (leaves c)"
  shows "row_leaf D row l = row_leaf rag3db_filters row l"
proof (cases "D = rag3db_filters")
  case False
  with assms(1) have "list_all prefix_selector (wd_include d)" "list_all prefix_selector (wd_exclude d)"
    by (auto simp: expressible_def)
  then have "\<exists>p. l = FcField path_field (FvOps [OpStartsWith p]) \<and> no_wildcard p"
    using assms(2,3) by (auto simp: to_filter_def Let_def split: if_splits dest: selected_prefix_leaves)
  then show ?thesis by (auto simp: prefix_test_def like_prefix split: option.splits if_splits)
qed simp

lemma judged_same_leaf: "judged D R re ra ps v f l \<Longrightarrow> f l = g l \<Longrightarrow> judged D R re ra ps v g l"
  by (simp add: judged_def)

text \<open>
  C24. The filter of a work domain is the vision it declares. On every entity with valid names the
  filter compiles. Its WHERE clause accepts a row exactly when some inclusion recognises the row (or
  there is none) and no exclusion does: inclusions are a union, a selection requires all its fields,
  and an exclusion always wins. That is for a row that fills every field the domain names, in a
  database that judges each test of a field as its dialect defines it: on rag3db for every domain,
  with \<open>IN\<close> as membership and \<open>starts_with\<close> as the prefix test; on PostgreSQL, whose prefix test is
  \<open>LIKE\<close>, for the domains of path prefixes without \<open>%\<close>, \<open>_\<close> and backslash.
\<close>

theorem domain_filter_is_the_vision:
  assumes "expressible D d" and "is_valid_identifier re" and "is_valid_identifier path_field" and "plain ra"
    and "to_filter d path_field = Some c"
  shows "\<exists>p. parse_condition D R c re ra = Ok p
    \<and> (\<forall>v row. (\<forall>f \<in> set (required_fields d path_field). row f \<noteq> None)
          \<and> (\<forall>l \<in> set (leaves c). judged D R re ra (filter_params p) v (row_leaf D row) l)
          \<longrightarrow> clause_means v (combine_where p) = domain_sees row path_field d)"
proof -
  obtain p where p: "parse_condition D R c re ra = Ok p" using domain_filter_compiles [OF assms(2,3,5)] by blast
  have D: "D \<in> {rag3db_filters, postgres_filters}" using assms(1) by (auto simp: expressible_def)
  have "clause_means v (combine_where p) = domain_sees row path_field d"
    if j: "\<forall>l \<in> set (leaves c). judged D R re ra (filter_params p) v (row_leaf D row) l" for v row
  proof -
    have "\<forall>l \<in> set (leaves c). judged D R re ra (filter_params p) v (row_leaf rag3db_filters row) l"
      using j leaf_is_the_vision [OF assms(1,5)] judged_same_leaf by blast
    from dialect_reads [OF D p assms(4) this] show ?thesis
      using to_filter_simple [OF assms(5)] rendered_holds [of c "row_leaf rag3db_filters row"] to_filter_holds [OF assms(5), of row] by simp
  qed
  with p show ?thesis by blast
qed

text \<open>What is left out by its source alone is not named in the description.\<close>

lemma excluded_source_is_not_described:
  "domain_describe (domain_excluding \<lparr>sel_sources = [''snapshot''], sel_repos = [], sel_under = [], sel_languages = []\<rparr> everything)
     = ''vision : '' @ whole_index @ '' . hors champ : ''"
  by (simp add: domain_describe_def everything_def domain_new_def domain_excluding_def is_everything_def selector_is_empty_def exclude_part_def)

section \<open>Witnesses\<close>

text \<open>The folder \<open>src\<close> without what is generated in it, and a PostgreSQL database: it looks the parameter of
  a \<open>LIKE\<close> up and matches the path with it.\<close>

definition under :: "string \<Rightarrow> selector" where
  "under p = \<lparr>sel_sources = [], sel_repos = [], sel_under = [p], sel_languages = []\<rparr>"

definition demo_domain :: work_domain where
  "demo_domain = domain_excluding (under ''src/gen/'') (domain_including (under ''src/'') (domain_new ''d''))"

definition under_leaf :: "string \<Rightarrow> filter_condition" where
  "under_leaf p = FcField ''path'' (FvOps [OpStartsWith p])"

definition demo_domain_filter :: filter_condition where
  "demo_domain_filter =
     FcMust [FcShould [FcMust [FcShould [under_leaf ''src/'']]], FcMustNot [FcShould [FcMust [FcShould [under_leaf ''src/gen/'']]]]]"

lemma demo_domain_to_filter: "to_filter demo_domain ''path'' = Some demo_domain_filter"
  by code_simp

definition like_judge :: "(string \<times> ir_value) list \<Rightarrow> string \<Rightarrow> string list \<Rightarrow> bool" where
  "like_judge ps x ws = (length ws = 5 \<and> (case map_of ps (tl (ws ! 2)) of Some (VString p) \<Rightarrow> like (p @ ''%'') x | _ \<Rightarrow> False))"

lemma postgres_path: "prop_of postgres_filters ''n'' ''path'' = ''n.'' @ [CHR 0x22] @ ''path'' @ [CHR 0x22]"
  by code_simp

lemma postgres_starts_with: "fd_starts_with postgres_filters p k = p @ '' LIKE $'' @ k @ '' || '' @ [CHR 0x27] @ ''%'' @ [CHR 0x27]"
  by (simp add: postgres_filters_def)

lemma postgres_name: "fd_name postgres_filters = ''postgresql''"
  by (simp add: postgres_filters_def)

lemma like_judged:
  assumes "distinct (map fst ps)" and "row ''path'' = Some x"
  shows "judged postgres_filters [] ''File'' ''n'' ps (like_judge ps x) (row_leaf postgres_filters row) (under_leaf p)"
  unfolding judged_def
proof (intro allI impI)
  fix st st' t
  assume j: "join_state postgres_filters [] ''File'' ''n'' st" and w: "within ps st'"
    and b: "build_condition_clause postgres_filters [] ''File'' ''n'' (under_leaf p) st = Inr (st', t)"
  have v: "is_valid_identifier ''path''" "is_valid_identifier ''File''"
    by (simp_all add: is_ascii_alphabetic_def is_ascii_alphanumeric_def char_code_def)
  have "map_of (st_aliases st) ''File'' = Some ''n''" using j by (auto simp: join_state_def joined_def)
  then have t: "t = ''n.'' @ [CHR 0x22] @ ''path'' @ [CHR 0x22] @ '' LIKE $'' @ param_name (param_counter st) @ '' || '' @ [CHR 0x27] @ ''%'' @ [CHR 0x27]"
    and s: "st_params st' = st_params st @ [(param_name (param_counter st), VString p)]"
    using b v key_parts_valid [of "''File''" "''path''"]
    by (auto simp: under_leaf_def postgres_path field_clause_def validate_identifier_def alias_of_def build_clause_def build_op_clause_def
        build_special_op_clause_def build_list_op_clause_def
        next_param_def push_param_def param_name_def Let_def postgres_starts_with split: if_splits)
  have "(param_name (param_counter st), VString p) \<in> set ps"
    using w s by (metis in_set_conv_decomp in_set_takeD within_def)
  then have "map_of ps (param_name (param_counter st)) = Some (VString p)" using assms(1) by simp
  then show "clause_means (like_judge ps x) t = row_leaf postgres_filters row (under_leaf p)"
    by (auto simp: t assms(2) under_leaf_def clause_means_def read_simps means.simps like_judge_def prefix_test_def postgres_name)
qed

definition path_row :: "string \<Rightarrow> text_row" where
  "path_row x = [''path'' \<mapsto> x]"

theorem domain_filter_is_the_vision_witness:
  "\<exists>p. parse_condition postgres_filters [] demo_domain_filter ''File'' ''n'' = Ok p
     \<and> clause_means (like_judge (filter_params p) ''src/a.rs'') (combine_where p)
     \<and> \<not> clause_means (like_judge (filter_params p) ''src/gen/a.rs'') (combine_where p)"
proof -
  let ?ps = "[(''filter_p0'', VString ''src/''), (''filter_p1'', VString ''src/gen/'')]"
  have v: "is_valid_identifier ''File''" "is_valid_identifier ''path''"
    by (simp_all add: is_ascii_alphabetic_def is_ascii_alphanumeric_def char_code_def)
  have e: "expressible postgres_filters demo_domain"
    by (simp add: expressible_def demo_domain_def prefix_selector_def no_wildcard_def under_def domain_new_def domain_including_def domain_excluding_def)
  have ps: "case parse_condition postgres_filters [] demo_domain_filter ''File'' ''n'' of Inr p \<Rightarrow> filter_params p = ?ps | Inl _ \<Rightarrow> False"
    by code_simp
  have f: "\<forall>f \<in> set (required_fields demo_domain ''path''). path_row x f \<noteq> None" for x
    by (simp add: required_fields_def selector_fields_def demo_domain_def under_def path_row_def domain_new_def domain_including_def domain_excluding_def)
  have sees: "domain_sees (path_row ''src/a.rs'') ''path'' demo_domain" "\<not> domain_sees (path_row ''src/gen/a.rs'') ''path'' demo_domain"
    by code_simp+
  from domain_filter_is_the_vision [OF e v plain_n demo_domain_to_filter, of "[]"]
  obtain p where p: "parse_condition postgres_filters [] demo_domain_filter ''File'' ''n'' = Ok p"
    and m: "(\<forall>f \<in> set (required_fields demo_domain ''path''). path_row x f \<noteq> None)
      \<and> (\<forall>l \<in> set (leaves demo_domain_filter).
            judged postgres_filters [] ''File'' ''n'' (filter_params p) (like_judge ?ps x) (row_leaf postgres_filters (path_row x)) l)
      \<longrightarrow> clause_means (like_judge ?ps x) (combine_where p) = domain_sees (path_row x) ''path'' demo_domain" for x by blast
  have q: "filter_params p = ?ps" using ps p by simp
  then have "\<forall>l \<in> set (leaves demo_domain_filter).
      judged postgres_filters [] ''File'' ''n'' (filter_params p) (like_judge ?ps x) (row_leaf postgres_filters (path_row x)) l" for x
    using like_judged [of ?ps "path_row x" x] by (simp add: demo_domain_filter_def path_row_def under_leaf_def)
  with m f have "clause_means (like_judge ?ps x) (combine_where p) = domain_sees (path_row x) ''path'' demo_domain" for x by blast
  then show ?thesis using sees p q by simp
qed

end
