(* ===== verification/Semver.thy ===== *)
theory Semver
  imports Clause_Text
begin

text \<open>
  \<open>src/components/semver.rs\<close>: a version of a component judged against a range of npm. Numbers are
  \<open>u64\<close>; \<open>a + 1\<close> wraps around as in a release build.
\<close>

section \<open>Texts\<close>

text \<open>\<open>str::split_whitespace\<close>, \<open>split("||")\<close> and \<open>split_once(" - ")\<close>.\<close>

definition white_ahead :: "string \<Rightarrow> bool" where
  "white_ahead s = list_ex (\<lambda>w. starts_with w s) whites"

fun take_word :: "string \<Rightarrow> string \<times> string" where
  "take_word [] = ([], [])"
| "take_word (c # cs) =
     (if white_ahead (c # cs) then ([], c # cs) else (case take_word cs of (w, r) \<Rightarrow> (c # w, r)))"

lemma take_word_parts: "take_word s = (w, r) \<Longrightarrow> s = w @ r"
  by (induction s arbitrary: w) (auto split: if_splits prod.splits)

lemma strip_front_shorter: "length (strip_front ws s) \<le> length s"
proof (induction ws s rule: strip_front.induct)
  case (1 ws s)
  show ?case
  proof (cases "find (\<lambda>w. w \<noteq> [] \<and> starts_with w s) ws")
    case None
    then show ?thesis by (simp add: strip_front.simps [of ws s])
  next
    case (Some w)
    with 1 have "length (strip_front ws (drop (length w) s)) \<le> length s" by fastforce
    with Some show ?thesis by (simp add: strip_front.simps [of ws s])
  qed
qed

fun words_of :: "nat \<Rightarrow> string \<Rightarrow> string list" where
  "words_of 0 s = []"
| "words_of (Suc n) s =
     (case trim_start s of
        [] \<Rightarrow> []
      | c # cs \<Rightarrow> (case take_word cs of (w, r) \<Rightarrow> (c # w) # words_of n r))"

text \<open>Each word takes a byte at least, so the length of the text is enough.\<close>

definition split_whitespace :: "string \<Rightarrow> string list" where
  "split_whitespace s = words_of (length s) s"

lemma words_of_enough: "length s \<le> n \<Longrightarrow> words_of n s = words_of (length s) s"
proof (induction n arbitrary: s rule: less_induct)
  case (less n)
  show ?case
  proof (cases "trim_start s")
    case Nil
    then show ?thesis by (cases n; cases "length s") auto
  next
    case (Cons c cs)
    obtain w r where w: "take_word cs = (w, r)" by fastforce
    have "length r \<le> length cs" using take_word_parts [OF w] by simp
    moreover have "Suc (length cs) \<le> length s" using strip_front_shorter [of whites s] Cons by (simp add: trim_start_def)
    moreover obtain m where m: "n = Suc m" using less.prems calculation by (cases n) auto
    moreover obtain k where k: "length s = Suc k" using calculation by (cases "length s") auto
    ultimately have "length r \<le> m" "length r \<le> k" "m < n" "k < n \<or> k = m" using less.prems by auto
    then have "words_of m r = words_of (length r) r" "words_of k r = words_of (length r) r"
      using less.IH [of m r] less.IH [of k r] by auto
    with Cons w m k show ?thesis by simp
  qed
qed

fun split_bars :: "string \<Rightarrow> string list" where
  "split_bars (c # d # cs) =
     (if c = CHR ''|'' \<and> d = CHR ''|'' then [] # split_bars cs
      else (case split_bars (d # cs) of [] \<Rightarrow> [[c]] | w # ws \<Rightarrow> (c # w) # ws))"
| "split_bars s = [s]"

fun split_dash :: "string \<Rightarrow> (string \<times> string) option" where
  "split_dash [] = None"
| "split_dash (c # cs) =
     (if starts_with '' - '' (c # cs) then Some ([], drop 3 (c # cs))
      else map_option (\<lambda>(a, b). (c # a, b)) (split_dash cs))"

section \<open>Versions and ranges\<close>

type_synonym triplet = "64 word \<times> 64 word \<times> 64 word"

record version =
  ver_t :: triplet
  ver_pre :: "string option"

type_synonym partial_version = "64 word option \<times> 64 word option \<times> 64 word option \<times> string option"

datatype cmp = CmpGe version | CmpGt version | CmpLt version | CmpLe version | CmpEq version

datatype semver_error = UnreadableVersion string | UnreadableRange string

definition skip_v :: "string \<Rightarrow> string" where
  "skip_v s = dropWhile (\<lambda>c. c = CHR ''v'') (trim s)"

definition read_version :: "string \<Rightarrow> version option" where
  "read_version text =
     (let s = skip_v text;
          (corps, pre) = (case split_once CHR ''-'' s of
             Some (c, p) \<Rightarrow> (c, Some (hd (split_on CHR ''+'' p)))
           | None \<Rightarrow> (hd (split_on CHR ''+'' s), None))
      in case map parse_u64 (split_on CHR ''.'' corps) of
           [Some a, Some b, Some c] \<Rightarrow> Some \<lparr>ver_t = (a, b, c), ver_pre = pre\<rparr>
         | _ \<Rightarrow> None)"

definition any_word :: "string \<Rightarrow> bool" where
  "any_word s = (s = ''*'' \<or> s = ''x'' \<or> s = ''X'')"

definition lire :: "string list \<Rightarrow> nat \<Rightarrow> 64 word option option" where
  "lire parts i =
     (if i < length parts then (if any_word (parts ! i) then Some None else map_option Some (parse_u64 (parts ! i)))
      else Some None)"

definition partiel :: "string \<Rightarrow> partial_version option" where
  "partiel text =
     (let s = skip_v text
      in if s = [] \<or> any_word s then Some (None, None, None, None)
         else let (corps, pre) = (case split_once CHR ''-'' s of Some (c, p) \<Rightarrow> (c, Some p) | None \<Rightarrow> (s, None));
                  parts = split_on CHR ''.'' corps
              in Option.bind (lire parts 0) (\<lambda>a.
                 Option.bind (lire parts 1) (\<lambda>b.
                 Option.bind (lire parts 2) (\<lambda>c.
                 if length parts > 3 then None else Some (a, b, c, pre)))))"

definition operators :: "string list" where
  "operators = [''<='', ''>='', ''<'', ''>'', ''='', ''^'', ''~'']"

definition split_operator :: "string \<Rightarrow> string \<times> string" where
  "split_operator s =
     (case find (\<lambda>t. starts_with t s) operators of
        Some t \<Rightarrow> (t, trim (drop (length t) s))
      | None \<Rightarrow> ([], s))"

definition or_zero :: "64 word option \<Rightarrow> 64 word" where
  "or_zero a = (case a of Some n \<Rightarrow> n | None \<Rightarrow> 0)"

definition not_before :: "triplet \<Rightarrow> string option \<Rightarrow> cmp" where
  "not_before t pre = CmpGe \<lparr>ver_t = t, ver_pre = pre\<rparr>"

definition below :: "triplet \<Rightarrow> cmp" where
  "below t = CmpLt \<lparr>ver_t = t, ver_pre = None\<rparr>"

definition comparators :: "string \<Rightarrow> partial_version \<Rightarrow> cmp list option" where
  "comparators t p =
     (case p of (a, b, c, pre) \<Rightarrow>
      let bas = (or_zero a, or_zero b, or_zero c);
          complet = (a \<noteq> None \<and> b \<noteq> None \<and> c \<noteq> None);
          given = \<lparr>ver_t = bas, ver_pre = pre\<rparr>
      in if t = [] \<or> t = ''='' then
           Some (if complet then [CmpEq given]
                 else (case (a, b) of
                   (None, _) \<Rightarrow> []
                 | (Some a, None) \<Rightarrow> [not_before (a, 0, 0) None, below (a + 1, 0, 0)]
                 | (Some a, Some b) \<Rightarrow> [not_before (a, b, 0) None, below (a, b + 1, 0)]))
         else if t = ''>='' then Some [CmpGe given]
         else if t = ''>'' then
           Some (if complet then [CmpGt given]
                 else (case (a, b) of
                   (None, _) \<Rightarrow> [below (0, 0, 0)]
                 | (Some a, None) \<Rightarrow> [not_before (a + 1, 0, 0) None]
                 | (Some a, Some b) \<Rightarrow> [not_before (a, b + 1, 0) None]))
         else if t = ''<'' then Some [CmpLt given]
         else if t = ''<='' then
           Some (if complet then [CmpLe given]
                 else (case (a, b) of
                   (None, _) \<Rightarrow> []
                 | (Some a, None) \<Rightarrow> [below (a + 1, 0, 0)]
                 | (Some a, Some b) \<Rightarrow> [below (a, b + 1, 0)]))
         else if t = ''~'' then
           Some (case (a, b) of
                   (Some a, Some b) \<Rightarrow> [CmpGe given, below (a, b + 1, 0)]
                 | (Some a, None) \<Rightarrow> [CmpGe given, below (a + 1, 0, 0)]
                 | (None, _) \<Rightarrow> [])
         else if t = ''^'' then
           Some (case a of
                   None \<Rightarrow> []
                 | Some a \<Rightarrow>
                     (case (b, c) of
                        (Some b, Some c) \<Rightarrow>
                          if a = 0 \<and> b = 0 then [CmpGe given, below (0, 0, c + 1)]
                          else if a = 0 then [CmpGe given, below (0, b + 1, 0)]
                          else [CmpGe given, below (a + 1, 0, 0)]
                      | (Some b, None) \<Rightarrow>
                          if a = 0 then [CmpGe given, below (0, b + 1, 0)] else [CmpGe given, below (a + 1, 0, 0)]
                      | (None, _) \<Rightarrow> [CmpGe given, below (a + 1, 0, 0)]))
         else None)"

definition termes :: "string \<Rightarrow> cmp list option" where
  "termes text =
     (case split_operator (trim text) of (t, reste) \<Rightarrow> Option.bind (partiel reste) (comparators t))"

text \<open>The order of versions: the triplets, then a version before its release, then the texts.\<close>

definition version_less :: "version \<Rightarrow> version \<Rightarrow> bool" where
  "version_less x b =
     (ver_t x < ver_t b \<or> ver_t x = ver_t b \<and>
       (case (ver_pre x, ver_pre b) of
          (None, _) \<Rightarrow> False
        | (Some _, None) \<Rightarrow> True
        | (Some p, Some q) \<Rightarrow> p < q))"

fun vrai :: "cmp \<Rightarrow> version \<Rightarrow> bool" where
  "vrai (CmpGe b) x = (\<not> version_less x b)"
| "vrai (CmpGt b) x = version_less b x"
| "vrai (CmpLt b) x = version_less x b"
| "vrai (CmpLe b) x = (\<not> version_less b x)"
| "vrai (CmpEq b) x = (\<not> version_less x b \<and> \<not> version_less b x)"

fun bound_of :: "cmp \<Rightarrow> version" where
  "bound_of (CmpGe b) = b"
| "bound_of (CmpGt b) = b"
| "bound_of (CmpLt b) = b"
| "bound_of (CmpLe b) = b"
| "bound_of (CmpEq b) = b"

text \<open>An operator alone takes the next word.\<close>

fun terms_of :: "string list \<Rightarrow> string list" where
  "terms_of [] = []"
| "terms_of [m] = [m]"
| "terms_of (m # n # ms) = (if m \<in> set operators then (m @ n) # terms_of ms else m # terms_of (n # ms))"

definition read_terms :: "string \<Rightarrow> string list \<Rightarrow> (semver_error, cmp list) result" where
  "read_terms rng ts =
     try_then (traverse (\<lambda>t. ok_or (UnreadableRange rng) (termes t)) ts) (\<lambda>cs. Ok (concat cs))"

definition read_alternative :: "string \<Rightarrow> string \<Rightarrow> (semver_error, cmp list) result" where
  "read_alternative rng alternative =
     (let s = trim alternative
      in case split_dash s of
           Some (a, b) \<Rightarrow> read_terms rng [''>='' @ trim a, ''<='' @ trim b]
         | None \<Rightarrow> read_terms rng (terms_of (split_whitespace s)))"

definition accepts :: "version \<Rightarrow> cmp list \<Rightarrow> bool" where
  "accepts x cmps =
     ((ver_pre x = None \<or> list_ex (\<lambda>c. ver_pre (bound_of c) \<noteq> None \<and> ver_t (bound_of c) = ver_t x) cmps)
      \<and> list_all (\<lambda>c. vrai c x) cmps)"

fun some_alternative :: "string \<Rightarrow> version \<Rightarrow> string list \<Rightarrow> (semver_error, bool) result" where
  "some_alternative rng x [] = Ok False"
| "some_alternative rng x (alt # alts) =
     try_then (read_alternative rng alt) (\<lambda>cmps.
     if accepts x cmps then Ok True else some_alternative rng x alts)"

definition satisfies :: "string \<Rightarrow> string \<Rightarrow> (semver_error, bool) result" where
  "satisfies rng text =
     try_then (ok_or (UnreadableVersion text) (read_version text)) (\<lambda>x.
     some_alternative rng x (split_bars rng))"

section \<open>Plain texts\<close>

definition visible :: "char \<Rightarrow> bool" where
  "visible c = (33 \<le> char_code c \<and> char_code c < 127)"

lemma whites_invisible: "w \<in> set whites \<Longrightarrow> w \<noteq> [] \<and> \<not> visible (hd w) \<and> \<not> visible (last w)"
  by (auto simp: whites_def white_codes_def visible_def char_code_def)

lemma strip_front_visible:
  assumes "s \<noteq> [] \<Longrightarrow> visible (hd s)" "\<And>w. w \<in> set ws \<Longrightarrow> w \<noteq> [] \<Longrightarrow> \<not> visible (hd w)"
  shows "strip_front ws s = s"
proof -
  have "\<not> (w \<noteq> [] \<and> starts_with w s)" if "w \<in> set ws" for w
    using assms that by (cases w; cases s) force+
  then have "find (\<lambda>w. w \<noteq> [] \<and> starts_with w s) ws = None" by (simp add: find_None_all)
  then show ?thesis by (simp add: strip_front.simps)
qed

lemma trim_start_visible: "list_all visible s \<Longrightarrow> trim_start s = s"
  unfolding trim_start_def by (rule strip_front_visible) (use whites_invisible in \<open>auto simp: list_all_iff\<close>)

lemma trim_visible: "list_all visible s \<Longrightarrow> trim s = s"
  unfolding trim_def trim_end_def trim_start_visible
  by (subst strip_front_visible) (use whites_invisible in \<open>auto simp: hd_rev list_all_iff\<close>)

lemma take_word_visible: "list_all visible s \<Longrightarrow> take_word s = (s, [])"
proof (induction s)
  case (Cons c s)
  have "\<not> starts_with w (c # s)" if "w \<in> set whites" for w
    using whites_invisible [OF that] Cons.prems by (cases w) auto
  then show ?case using Cons by (simp add: white_ahead_def list_ex_iff)
qed simp

lemma split_whitespace_visible: "list_all visible s \<Longrightarrow> s \<noteq> [] \<Longrightarrow> split_whitespace s = [s]"
proof (cases s)
  case (Cons c cs)
  assume "list_all visible s"
  with Cons show ?thesis
    by (cases "length cs") (simp_all add: split_whitespace_def trim_start_visible take_word_visible trim_start_visible [of "[]"])
qed simp

lemma split_bars_none: "CHR ''|'' \<notin> set s \<Longrightarrow> split_bars s = [s]"
  by (induction s rule: split_bars.induct) auto

lemma split_dash_none: "CHR '' '' \<notin> set s \<Longrightarrow> split_dash s = None"
  by (induction s) auto

lemma digits_visible: "is_ascii_digit c \<Longrightarrow> visible c"
  by (auto simp: is_ascii_digit_def visible_def)

text \<open>A complete version, written.\<close>

definition triple_text :: "triplet \<Rightarrow> string" where
  "triple_text t = (case t of (a, b, c) \<Rightarrow> show_u64 a @ CHR ''.'' # show_u64 b @ CHR ''.'' # show_u64 c)"

lemma triple_chars: "ch \<in> set (triple_text t) \<Longrightarrow> is_ascii_digit ch \<or> ch = CHR ''.''"
  using decimal_digits by (fastforce simp: triple_text_def show_u64_def list_all_iff split: prod.splits)

lemma digit_not:
  "\<not> is_ascii_digit CHR ''v''" "\<not> is_ascii_digit CHR ''-''" "\<not> is_ascii_digit CHR ''+''" "\<not> is_ascii_digit CHR ''|''"
  "\<not> is_ascii_digit CHR '' ''" "\<not> is_ascii_digit CHR ''.''" "\<not> is_ascii_digit CHR ''*''" "\<not> is_ascii_digit CHR ''x''" "\<not> is_ascii_digit CHR ''X''"
  by (simp_all add: is_ascii_digit_def char_code_def)

lemma triple_free:
  "CHR ''v'' \<notin> set (triple_text t)" "CHR ''-'' \<notin> set (triple_text t)" "CHR ''+'' \<notin> set (triple_text t)"
  "CHR ''|'' \<notin> set (triple_text t)" "CHR '' '' \<notin> set (triple_text t)"
  using triple_chars [of _ t] digit_not by fastforce+

lemma triple_visible: "list_all visible (triple_text t)"
proof -
  have "visible CHR ''.''" by (simp add: visible_def char_code_def)
  then show ?thesis using triple_chars digits_visible by (metis list_all_iff)
qed

lemma triple_nonempty: "triple_text t \<noteq> []"
  by (simp add: triple_text_def split: prod.splits)

lemma split_triple: "split_on CHR ''.'' (triple_text (a, b, c)) = [show_u64 a, show_u64 b, show_u64 c]"
proof -
  have "CHR ''.'' \<notin> set (show_u64 n)" for n
    using decimal_digits [of "unat n"] digit_not(6) by (auto simp: show_u64_def list_all_iff)
  then show ?thesis by (simp add: triple_text_def split_on_append split_on_none)
qed

lemma skip_v_triple: "skip_v (triple_text t) = triple_text t"
  using triple_free(1) [of t] trim_visible [OF triple_visible, of t]
  by (cases "triple_text t") (auto simp: skip_v_def)

lemma read_version_triple: "read_version (triple_text t) = Some \<lparr>ver_t = t, ver_pre = None\<rparr>"
  using triple_free [of t] split_triple [of "fst t" "fst (snd t)" "snd (snd t)"]
  by (simp add: read_version_def skip_v_triple split_once_None split_on_none parse_show_u64)

lemma show_not_any: "\<not> any_word (show_u64 n)"
  using decimal_digits [of "unat n"] digit_not(7-9) by (auto simp: any_word_def show_u64_def)

lemma triple_not_any: "\<not> any_word (triple_text t)"
  using triple_chars [of _ t] digit_not(7-9) by (auto simp: any_word_def)

lemma partiel_triple: "partiel (triple_text (a, b, c)) = Some (Some a, Some b, Some c, None)"
  using triple_free [of "(a, b, c)"] triple_nonempty [of "(a, b, c)"] triple_not_any [of "(a, b, c)"]
  by (simp add: partiel_def skip_v_triple split_once_None split_triple lire_def show_not_any parse_show_u64 nth_Cons')

lemma digit_ops: "is_ascii_digit c \<or> c = CHR ''.'' \<Longrightarrow> c \<noteq> CHR ''<'' \<and> c \<noteq> CHR ''>'' \<and> c \<noteq> CHR ''='' \<and> c \<noteq> CHR ''^'' \<and> c \<noteq> CHR ''~''"
  by (auto simp: is_ascii_digit_def char_code_def)

lemma split_operator_triple:
  assumes "sg \<in> {[], ''^'', ''~'', ''=''}"
  shows "split_operator (sg @ triple_text t) = (sg, triple_text t)"
proof -
  obtain c cs where c: "triple_text t = c # cs" using triple_nonempty [of t] by (cases "triple_text t") auto
  have "c \<noteq> CHR ''<'' \<and> c \<noteq> CHR ''>'' \<and> c \<noteq> CHR ''='' \<and> c \<noteq> CHR ''^'' \<and> c \<noteq> CHR ''~''"
    using triple_chars [of c t] by (intro digit_ops) (simp add: c)
  moreover have "trim (c # cs) = c # cs" using trim_visible [OF triple_visible [of t]] by (simp add: c)
  ultimately show ?thesis using assms unfolding c
    by (elim insertE emptyE) (auto simp: split_operator_def operators_def)
qed

lemma termes_triple:
  assumes "sg \<in> {[], ''^'', ''~'', ''=''}"
  shows "termes (sg @ triple_text (a, b, c)) = comparators sg (Some a, Some b, Some c, None)"
proof -
  have "list_all visible (sg @ triple_text (a, b, c))" using assms triple_visible by (auto simp: visible_def char_code_def)
  then show ?thesis by (simp add: termes_def trim_visible split_operator_triple [OF assms] partiel_triple)
qed

lemma satisfies_triple:
  assumes "sg \<in> {[], ''^'', ''~'', ''=''}" and "comparators sg (Some a, Some b, Some c, None) = Some cmps"
  shows "satisfies (sg @ triple_text (a, b, c)) (triple_text t) = Ok (accepts \<lparr>ver_t = t, ver_pre = None\<rparr> cmps)"
proof -
  let ?r = "sg @ triple_text (a, b, c)"
  have v: "list_all visible ?r" using assms(1) triple_visible by (auto simp: visible_def char_code_def)
  have f: "CHR ''|'' \<notin> set ?r" "CHR '' '' \<notin> set ?r" using assms(1) triple_free [of "(a, b, c)"] by auto
  have "read_alternative ?r ?r = Ok cmps"
    using split_whitespace_visible [OF v] triple_nonempty [of "(a, b, c)"] termes_triple [OF assms(1), of a b c] assms(2)
    by (simp add: read_alternative_def trim_visible [OF v] split_dash_none [OF f(2)] read_terms_def ok_or_def)
  then show ?thesis by (simp add: satisfies_def read_version_triple split_bars_none [OF f(1)] ok_or_def)
qed

section \<open>The operators of npm\<close>

lemma less_Suc_word: "b \<noteq> - 1 \<Longrightarrow> y < b + 1 \<longleftrightarrow> y \<le> (b :: 64 word)"
  using inc_less_eq_iff [of b y] by (simp add: not_le [symmetric])

lemma released_less [simp]:
  "version_less \<lparr>ver_t = s, ver_pre = None\<rparr> \<lparr>ver_t = t, ver_pre = None\<rparr> \<longleftrightarrow> s < t"
  by (simp add: version_less_def)

text \<open>
  C34. The operators of npm on complete versions: a caret keeps the leftmost component that is not zero
  and takes what is not older, a tilde keeps the first two components, and a bare number is exact.
\<close>

theorem npm_operators:
  assumes "a \<noteq> - 1" and "b \<noteq> - 1" and "c \<noteq> - 1"
  shows "satisfies (''^'' @ triple_text (a, b, c)) (triple_text (x, y, z)) =
      Ok (if a \<noteq> 0 then x = a \<and> (b < y \<or> b = y \<and> c \<le> z) else if b \<noteq> 0 then x = 0 \<and> y = b \<and> c \<le> z else x = 0 \<and> y = 0 \<and> z = c)
    \<and> satisfies (''~'' @ triple_text (a, b, c)) (triple_text (x, y, z)) = Ok (x = a \<and> y = b \<and> c \<le> z)
    \<and> satisfies (triple_text (a, b, c)) (triple_text (x, y, z)) = Ok (x = a \<and> y = b \<and> z = c)"
proof -
  note order = less_Suc_word [OF assms(1)] less_Suc_word [OF assms(2)] less_Suc_word [OF assms(3)]
  let ?v = "\<lparr>ver_t = (a, b, c), ver_pre = None\<rparr>"
  have "comparators ''^'' (Some a, Some b, Some c, None) =
      Some [CmpGe ?v, below (if a \<noteq> 0 then (a + 1, 0, 0) else if b \<noteq> 0 then (0, b + 1, 0) else (0, 0, c + 1))]"
    by (simp add: comparators_def or_zero_def Let_def)
  from satisfies_triple [OF _ this, of "(x, y, z)"] have "satisfies (''^'' @ triple_text (a, b, c)) (triple_text (x, y, z)) =
      Ok (if a \<noteq> 0 then x = a \<and> (b < y \<or> b = y \<and> c \<le> z) else if b \<noteq> 0 then x = 0 \<and> y = b \<and> c \<le> z else x = 0 \<and> y = 0 \<and> z = c)"
    by (cases "a = 0"; cases "b = 0") (auto simp: accepts_def below_def order not_less)
  moreover have "comparators ''~'' (Some a, Some b, Some c, None) = Some [CmpGe ?v, below (a, b + 1, 0)]"
    by (simp add: comparators_def or_zero_def Let_def)
  from satisfies_triple [OF _ this, of "(x, y, z)"]
  have "satisfies (''~'' @ triple_text (a, b, c)) (triple_text (x, y, z)) = Ok (x = a \<and> y = b \<and> c \<le> z)"
    by (auto simp: accepts_def below_def order not_less)
  moreover have "satisfies (triple_text (a, b, c)) (triple_text (x, y, z)) = Ok (x = a \<and> y = b \<and> z = c)"
    using satisfies_triple [of "[]" a b c "[CmpEq ?v]" "(x, y, z)"]
    by (auto simp: comparators_def accepts_def or_zero_def not_less)
  ultimately show ?thesis by blast
qed

section \<open>Versions before a release\<close>

lemma strip_front_suffix: "\<exists>u. s = u @ strip_front ws s"
proof (induction ws s rule: strip_front.induct)
  case (1 ws s)
  show ?case
  proof (cases "find (\<lambda>w. w \<noteq> [] \<and> starts_with w s) ws")
    case None
    then show ?thesis by (simp add: strip_front.simps [of ws s])
  next
    case (Some w)
    with 1 obtain u where "drop (length w) s = u @ strip_front ws (drop (length w) s)" by blast
    then have "s = (take (length w) s @ u) @ strip_front ws (drop (length w) s)" by (metis append_assoc append_take_drop_id)
    moreover have "strip_front ws s = strip_front ws (drop (length w) s)" using Some by (simp add: strip_front.simps [of ws s])
    ultimately show ?thesis by metis
  qed
qed

lemma strip_front_set: "set (strip_front ws s) \<subseteq> set s"
  using strip_front_suffix [of s ws] by (metis Un_upper2 set_append)

lemma trim_start_set: "set (trim_start s) \<subseteq> set s"
  by (simp add: trim_start_def strip_front_set)

lemma trim_set: "set (trim s) \<subseteq> set s"
  unfolding trim_def trim_end_def using strip_front_set [of "map rev whites" "rev (trim_start s)"] trim_start_set [of s] by auto

lemma words_of_set: "w \<in> set (words_of n s) \<Longrightarrow> set w \<subseteq> set s"
proof (induction n arbitrary: s w)
  case (Suc n)
  show ?case
  proof (cases "trim_start s")
    case (Cons c cs)
    obtain u r where u: "take_word cs = (u, r)" by fastforce
    have p: "set cs = set u \<union> set r" using take_word_parts [OF u] by simp
    from Suc.prems Cons u have "w = c # u \<or> w \<in> set (words_of n r)" by simp
    with Suc.IH [of w r] p have "set w \<subseteq> set (trim_start s)" unfolding Cons by auto
    with trim_start_set show ?thesis by blast
  qed (use Suc.prems in simp)
qed simp

lemma split_bars_set: "w \<in> set (split_bars s) \<Longrightarrow> set w \<subseteq> set s"
proof (induction s arbitrary: w rule: split_bars.induct)
  case (1 c d cs)
  show ?case
  proof (cases "c = CHR ''|'' \<and> d = CHR ''|''")
    case True
    with 1 show ?thesis by auto
  next
    case False
    have ih: "set v \<subseteq> set (d # cs)" if "v \<in> set (split_bars (d # cs))" for v using 1(2) [OF False that] .
    show ?thesis
    proof (cases "split_bars (d # cs)")
      case (Cons u us)
      with False 1(3) have "w = c # u \<or> w \<in> set us" by (auto split: if_splits)
      with ih [of u] ih [of w] Cons show ?thesis by auto
    qed (use False 1(3) in \<open>auto split: if_splits\<close>)
  qed
qed auto

lemma terms_of_set: "w \<in> set (terms_of ms) \<Longrightarrow> set w \<subseteq> \<Union> (set ` set ms)"
proof (induction ms arbitrary: w rule: terms_of.induct)
  case (3 m n ms)
  show ?case
  proof (cases "m \<in> set operators")
    case True
    with 3(3) have "w = m @ n \<or> w \<in> set (terms_of ms)" by simp
    with 3(1) [OF True, of w] show ?thesis by auto
  next
    case False
    with 3(3) have "w = m \<or> w \<in> set (terms_of (n # ms))" by simp
    with 3(2) [OF False, of w] show ?thesis by auto
  qed
qed auto

lemma split_operator_set: "set (snd (split_operator s)) \<subseteq> set s"
  using trim_set set_drop_subset by (fastforce simp: split_operator_def split: option.splits)

lemma partiel_released: "CHR ''-'' \<notin> set s \<Longrightarrow> partiel s = Some (a, b, c, pre) \<Longrightarrow> pre = None"
proof -
  assume d: "CHR ''-'' \<notin> set s" and p: "partiel s = Some (a, b, c, pre)"
  have "CHR ''-'' \<notin> set (skip_v s)" using d trim_set [of s] set_dropWhileD [of _ _ "trim s"] by (auto simp: skip_v_def)
  then show "pre = None" using p by (auto simp: partiel_def split_once_None Let_def split: if_splits bind_splits)
qed

lemma comparators_released:
  "comparators t (a, b, c, None) = Some cmps \<Longrightarrow> k \<in> set cmps \<Longrightarrow> ver_pre (bound_of k) = None"
  by (auto simp: comparators_def not_before_def below_def Let_def split: if_splits option.splits)

lemma termes_released:
  assumes "CHR ''-'' \<notin> set s" and "termes s = Some cmps" and "k \<in> set cmps"
  shows "ver_pre (bound_of k) = None"
proof -
  obtain t r where o: "split_operator (trim s) = (t, r)" by fastforce
  have "CHR ''-'' \<notin> set r" using assms(1) split_operator_set [of "trim s"] trim_set [of s] by (auto simp: o)
  moreover obtain a b c pre where p: "partiel r = Some (a, b, c, pre)" "comparators t (a, b, c, pre) = Some cmps"
    using assms(2) by (auto simp: termes_def o bind_eq_Some_conv)
  ultimately show ?thesis using partiel_released comparators_released assms(3) by metis
qed

lemma traverse_members: "traverse f xs = Inr ys \<Longrightarrow> y \<in> set ys \<Longrightarrow> \<exists>x \<in> set xs. f x = Inr y"
  by (induction xs arbitrary: ys) auto

lemma split_dash_some: "split_dash s = Some ab \<Longrightarrow> CHR ''-'' \<in> set s"
proof (induction s arbitrary: ab)
  case (Cons c s)
  then show ?case by (cases s) (auto split: if_splits)
qed simp

lemma alternative_released:
  assumes "CHR ''-'' \<notin> set alt" and "read_alternative rng alt = Ok cmps" and "k \<in> set cmps"
  shows "ver_pre (bound_of k) = None"
proof -
  have d: "CHR ''-'' \<notin> set (trim alt)" using assms(1) trim_set by blast
  then have "split_dash (trim alt) = None" using split_dash_some [of "trim alt"] by (cases "split_dash (trim alt)") auto
  with assms(2) obtain cs where cs: "traverse (\<lambda>t. ok_or (UnreadableRange rng) (termes t)) (terms_of (split_whitespace (trim alt))) = Inr cs"
    "cmps = concat cs" by (auto simp: read_alternative_def read_terms_def)
  with assms(3) obtain ks w where w: "w \<in> set (terms_of (split_whitespace (trim alt)))" "termes w = Some ks" "k \<in> set ks"
    by (auto simp: ok_or_def dest!: traverse_members split: option.splits)
  have "set w \<subseteq> set (trim alt)" using terms_of_set [OF w(1)] words_of_set unfolding split_whitespace_def by blast
  then show ?thesis using termes_released [OF _ w(2,3)] d by blast
qed

text \<open>A version before a release is accepted only by a range that names one: without a hyphen in the
  range no such version satisfies it.\<close>

lemma alternatives_released:
  "some_alternative rng x alts = Ok True \<Longrightarrow> \<forall>alt \<in> set alts. CHR ''-'' \<notin> set alt \<Longrightarrow> ver_pre x = None"
proof (induction alts)
  case (Cons alt alts)
  then obtain cmps where c: "read_alternative rng alt = Ok cmps" by (cases "read_alternative rng alt") auto
  show ?case
  proof (cases "accepts x cmps")
    case True
    then show ?thesis using alternative_released [OF _ c] Cons.prems(2) by (auto simp: accepts_def list_ex_iff)
  qed (use Cons c in simp)
qed simp

theorem prerelease_must_be_named:
  assumes "CHR ''-'' \<notin> set rng" and "satisfies rng text = Ok True"
  shows "\<exists>x. read_version text = Some x \<and> ver_pre x = None"
proof -
  obtain x where x: "read_version text = Some x" "some_alternative rng x (split_bars rng) = Ok True"
    using assms(2) by (cases "read_version text") (auto simp: satisfies_def ok_or_def)
  then show ?thesis using alternatives_released [OF x(2)] split_bars_set assms(1) by blast
qed

section \<open>Where npm says otherwise\<close>

text \<open>Numbers are read as integers for evaluation.\<close>

definition int_digits :: "string \<Rightarrow> int" where
  "int_digits ds = foldl (\<lambda>n c. n * 10 + int (digit_val c)) 0 ds"

lemma int_digits_read: "int_digits ds = int (read_digits ds)"
proof -
  have "foldl (\<lambda>n c. n * 10 + int (digit_val c)) (int k) ds = int (foldl (\<lambda>n c. n * 10 + digit_val c) k ds)" for k
  proof (induction ds arbitrary: k)
    case (Cons d ds)
    from Cons.IH [of "k * 10 + digit_val d"] show ?case by simp
  qed simp
  from this [of 0] show ?thesis by (simp add: int_digits_def read_digits_def)
qed

lemma parse_u64_code [code]:
  "parse_u64 s =
     (let ds = (case s of [] \<Rightarrow> [] | c # cs \<Rightarrow> if c = CHR ''+'' then cs else s)
      in if ds = [] \<or> \<not> list_all is_ascii_digit ds then None
         else if int_digits ds < 2 ^ 64 then Some (word_of_int (int_digits ds)) else None)"
proof -
  have "read_digits ds < 2 ^ 64 \<longleftrightarrow> int_digits ds < 2 ^ 64" for ds
    by (simp add: int_digits_read)
  moreover have "word_of_nat (read_digits ds) = (word_of_int (int_digits ds) :: 64 word)" for ds
    by (simp add: int_digits_read)
  ultimately show ?thesis by (simp add: parse_u64_def Let_def)
qed

text \<open>The identifiers of a version before a release are compared as texts, so the tenth one comes before
  the second.\<close>

lemma tenth_beta_is_older: "satisfies ''>=1.0.0-beta.2'' ''1.0.0-beta.10'' = Ok False"
proof -
  have "read_version ''1.0.0-beta.10'' = Some \<lparr>ver_t = (1, 0, 0), ver_pre = Some ''beta.10''\<rparr>" by code_simp
  moreover have "split_bars ''>=1.0.0-beta.2'' = [''>=1.0.0-beta.2'']" by code_simp
  moreover have v: "list_all visible ''>=1.0.0-beta.2''" by (simp add: visible_def char_code_def)
  moreover have "split_dash ''>=1.0.0-beta.2'' = None" by code_simp
  moreover have o: "split_operator ''>=1.0.0-beta.2'' = (''>='', ''1.0.0-beta.2'')" by code_simp
  have p: "partiel ''1.0.0-beta.2'' = Some (Some 1, Some 0, Some 0, Some ''beta.2'')" by code_simp
  have "termes ''>=1.0.0-beta.2'' = Some [CmpGe \<lparr>ver_t = (1, 0, 0), ver_pre = Some ''beta.2''\<rparr>]"
    by (simp add: termes_def trim_visible [OF v] o p comparators_def or_zero_def)
  moreover have "\<not> accepts \<lparr>ver_t = (1, 0, 0), ver_pre = Some ''beta.10''\<rparr> [CmpGe \<lparr>ver_t = (1, 0, 0), ver_pre = Some ''beta.2''\<rparr>]"
    by code_simp
  ultimately show ?thesis
    by (simp add: satisfies_def read_alternative_def read_terms_def ok_or_def trim_visible split_whitespace_visible)
qed

text \<open>The hyphen is looked for before the plus sign, so a hyphen in the build metadata makes a version
  unreadable.\<close>

lemma hyphen_in_build: "satisfies ''*'' ''1.2.3+linux-gnu'' = Err (UnreadableVersion ''1.2.3+linux-gnu'')"
proof -
  have "read_version ''1.2.3+linux-gnu'' = None" by code_simp
  then show ?thesis by (simp add: satisfies_def ok_or_def)
qed

text \<open>A range that cannot be read is an error only until an alternative before it holds.\<close>

lemma unreadable_after_a_match:
  "satisfies ''1.x || latest'' ''1.2.3'' = Ok True \<and> satisfies ''latest || 1.x'' ''1.2.3'' = Err (UnreadableRange ''latest || 1.x'')"
proof -
  have v: "read_version ''1.2.3'' = Some \<lparr>ver_t = (1, 2, 3), ver_pre = None\<rparr>" by code_simp
  have s: "split_bars ''1.x || latest'' = [''1.x '', '' latest'']" "split_bars ''latest || 1.x'' = [''latest '', '' 1.x'']"
    "trim ''1.x '' = ''1.x''" "trim ''latest '' = ''latest''" "split_dash ''1.x'' = None" "split_dash ''latest'' = None"
    by code_simp+
  have w: "split_whitespace ''1.x'' = [''1.x'']" "split_whitespace ''latest'' = [''latest'']"
    by (rule split_whitespace_visible; simp add: visible_def char_code_def)+
  have t: "termes ''1.x'' = Some [not_before (1, 0, 0) None, below (2, 0, 0)]" by code_simp
  have l: "termes ''latest'' = None" by code_simp
  have "accepts \<lparr>ver_t = (1, 2, 3), ver_pre = None\<rparr> [not_before (1, 0, 0) None, below (2, 0, 0)]" by code_simp
  then show ?thesis using v s w t l by (simp add: satisfies_def read_alternative_def read_terms_def ok_or_def)
qed

theorem npm_operators_witness:
  "satisfies (''^'' @ triple_text (0, 2, 3)) (triple_text (0, 2, 9)) = Ok True
     \<and> satisfies (''~'' @ triple_text (0, 2, 3)) (triple_text (0, 3, 0)) = Ok False"
proof -
  have m: "(0 :: 64 word) \<noteq> - 1" "(2 :: 64 word) \<noteq> - 1" "(3 :: 64 word) \<noteq> - 1" by simp_all
  show ?thesis using npm_operators [OF m, of 0 2 9] npm_operators [OF m, of 0 3 0] by simp
qed

end
