(* ===== verification/Spec2Isabelle.thy ===== *)
theory Spec2Isabelle
  imports Ir_Declared Ir_Filter Ir_Scope Filter_Reading Condition_Text Rag3db_Dialect Postgres_Dialect Schema_Text Flow_Attempts Plan_Runner Blob_Buffer Node_Ids Lag Chunker Read_Pool Postures Work_Domain Semver
begin

text \<open>
  \<^bold>\<open>Verification of the Rust engine of rag3db\<close>

  The repository holds a graph database (a C++ fork of Kuzu) and, under
  \<open>src/extension/rag3weaver\<close>, the Rust program that indexes texts and code into it and answers
  queries. This development is about that program; paths below are relative to it.

  \<^bold>\<open>The parts and how they work together.\<close>
  A caller declares a plan of queries once (\<open>ir/src/declared.rs\<close>); the plan is checked when it is
  loaded, checked against the schema, then bound to the parameters of each call. Binding gives a
  plan of the intermediate representation (\<open>ir/src/plan.rs\<close>), a graph of forms (\<open>ir/src/form.rs\<close>: hops,
  counts, selections, writes) over values (\<open>ir/src/value.rs\<close>), filters (\<open>ir/src/filter.rs\<close>) and cells
  (\<open>ir/src/scope.rs\<close>). \<open>run_plan\<close> (\<open>src/plan.rs\<close>) checks it again, translates every node, fuses what the
  dialect can fuse and runs the groups in a transaction. The dialects (\<open>src/dialect.rs\<close>) render the
  forms as Cypher for rag3db and as SQL for PostgreSQL; the filters of a caller are compiled to
  clauses, joins and parameters by the filter parser (\<open>src/filter.rs\<close>) over the same dialects. Longer work is a graph of nodes with
  typed ports (\<open>src/dataflow/graph.rs\<close>, \<open>port.rs\<close>, \<open>kinds.rs\<close>). A graph of values is run level by level
  (\<open>src/dataflow/runtime.rs\<close>), and with checkpoints it saves what every node gives and is resumed from it
  (\<open>checkpoint.rs\<close>, \<open>checkpoint_store.rs\<close>); the streaming edges of the others are channels of one hub shared by all
  workers (\<open>src/dataflow/stream.rs\<close>). Texts are cut by the chunker
  (\<open>src/chunker.rs\<close>) before they are embedded; full-text indexes write through a buffer
  (\<open>src/buffered_blob_store.rs\<close>); the identities of rows are cached (\<open>src/node_id_cache.rs\<close>), and the
  delay of the index behind the disk is kept per cell (\<open>src/catalog/retard.rs\<close>). Reading tool calls
  borrow a connection each from a pool (\<open>src/read_pool.rs\<close>) and share one snapshot per call. An agent
  sees the rows of its work domain (\<open>src/work_domain.rs\<close>), a filter added to its searches; the
  participants of a session that fell silent are kept with whom they wait for (\<open>src/postures.rs\<close>); and
  the components of the interface are chosen by ranges of versions (\<open>src/components/semver.rs\<close>).

  \<^bold>\<open>Which theory models which part.\<close>
  \<^item> \<open>Prelude\<close>: results as sums, with the combinators the Rust operator \<open>?\<close> and the iterators give;
    ordered and hashed maps as association lists with their laws; bytes of texts. The locale
    \<open>keyed_store\<close> is the interface of a keyed map.
  \<^item> \<open>Topo\<close>: graphs of numbers and of names, Kahn's selection loop, the specification of an order and
    of a cycle; the three sorts of the program (plan, graph, kinds) are instances of its lemmas.
  \<^item> \<open>Std_Text\<close>: \<open>trim\<close>, \<open>split_once\<close>, character boundaries and decimal numbers of the standard library.
  \<^item> \<open>Ir_Value\<close>, \<open>Ir_Scope\<close>, \<open>Ir_Filter\<close>, \<open>Ir_Form\<close>: one definition for each type and each function of the
    files of the same names.
  \<^item> \<open>Ir_Plan\<close>: the plan and \<open>Plan::check\<close>, against the specification \<open>plan_ok\<close>.
  \<^item> \<open>Ir_Declared\<close>: declared plans, their checks, the unfolding of named conditions and the binding.
  \<^item> \<open>Plan_Runner\<close>: \<open>run_plan\<close>, one definition per phase; dialect and connection are records of
    functions (the traits \<open>SchemaDialect\<close> and \<open>DbConnection\<close>), the world behind the connection is
    threaded through the calls, and every index, \<open>expect\<close> and map lookup that panics in Rust is the
    error \<open>RunPanic\<close>.
  \<^item> \<open>Clause_Text\<close>: texts of clauses, their brackets, and how a text of atoms joined by \<open>AND\<close>, \<open>OR\<close> and
    \<open>NOT\<close> is read with the precedence of the two query languages.
  \<^item> \<open>Filter_Parser\<close>: the parser of filter maps and filter trees, with its counters, its aliases and its
    errors, and the builder of filters; the methods of the dialect it calls are a record, given for
    both dialects. \<open>Filter_Reading\<close>: what its clauses say. The locale \<open>clause_dialect\<close> is what the parser
    relies on in a dialect; both dialects are interpreted in it.
  \<^item> \<open>Condition_Text\<close>: the conditions of the forms as texts of both dialects.
  \<^item> \<open>Rag3db_Dialect\<close>, \<open>Postgres_Dialect\<close>: hops, counts, selections, writes, fusions and fan-outs of the
    two dialects, as instances of the record of \<open>Plan_Runner\<close>. \<open>Schema_Text\<close>: column types and tables.
  \<^item> \<open>Flow_Port\<close>, \<open>Flow_Kinds\<close>, \<open>Flow_Graph\<close>: ports and values, the resolution of stream kinds, the
    construction, validation and order of a graph.
  \<^item> \<open>Flow_Levels\<close>: the executor of graphs of values, \<open>execute_inner\<close>: the checks, the choice of the
    executor, and the loop with its skips, its levels, its store of ports and its events.
    \<open>Flow_Store\<close>: the store of ports, and the locale \<open>level_invariant\<close>, what a round does under any
    invariant of its kind; the plain run and the resumed run are interpreted in it.
    \<open>Flow_Run\<close>: the equations of a graph (\<open>flow_solution\<close>), the invariant of the loop, and its end.
  \<^item> \<open>Flow_Checkpoint\<close>: the run with checkpoints, what it saves and restores, and the store in memory the
    tests of the program use. \<open>Flow_Resume\<close>: what a resumed run computes. \<open>Flow_Attempts\<close>: the locale
    \<open>checkpoint_store\<close>, what a run relies on in a store (the store in memory is interpreted in it), and the
    attempts at an execution.
  \<^item> \<open>Flow_Stream\<close>: the hub as a transition system. Its operations are the rounds of the loops under
    the lock; a run is any interleaving of them, of wake-ups and of the ends of workers.
  \<^item> \<open>Chunker\<close>: the strategies, with \<^term>\<open>None\<close> for a panic; the splitters are parameters.
  \<^item> \<open>Blob_Buffer\<close>: the buffer over any blob store. The locale \<open>blob_store\<close> is what a store promises; the
    buffer is interpreted in it.
  \<^item> \<open>Read_Pool\<close>: the pool of read connections and the snapshots of the calls, as a transition system
    over the stretches of code under its locks; the engine behind the connections is a parameter.
  \<^item> \<open>Work_Domain\<close>: selections, the filter of a domain and its description. \<open>Postures\<close>: the kinds of
    pauses, the postures and the search of circular waits. \<open>Semver\<close>: versions and ranges of npm.
  \<^item> \<open>Node_Ids\<close>, \<open>Lag\<close>: the cache (an instance of \<open>keyed_store\<close>) and the register of delays.

  \<^bold>\<open>What the theorems show.\<close>
  \<^item> Plans: the check accepts exactly the plans of the specification and its order respects every
    edge; a declared plan that was checked can only fail to bind because of the call; a bound plan
    has no open condition left and reads only declared parameters; the schema check ends.
  \<^item> Runs: grouping shares the nodes out, a run without fan-outs never panics, a refused plan
    touches nothing and a failure reported as rolled back left nothing.
  \<^item> Filters: two filters that differ in their values only give the same text, so no value reaches
    the query; the parameters are the values in order under distinct names; every entity is joined
    once; the clause, read with the precedence of the language, has the truth the structure of the
    filter gives it.
  \<^item> Dialects: the conditions of both dialects are judged alike, the text of a form returns the
    columns the plan expects of it, a fusion joins the two texts at the right place, and a quoted
    path is read back unchanged.
  \<^item> Graphs: a built graph has an order, its resolved kinds solve the equations of the
    declarations, and no input that reads a whole stream is fed by a stream it cannot fold.
  \<^item> Runs by levels: when a run ends, what its nodes produced is the only solution of the equations
    of the graph, the skipped nodes are exactly those a required input of which has no value in that
    solution, and the output is what no edge reads; a run of a built graph ends within as many
    rounds as there are nodes, and fails only because a node failed, never by a panic or a deadlock.
  \<^item> Resumed runs: a checkpoint stays faithful to the solution of the graph whatever the attempts do,
    and the attempt that ends runs exactly the nodes that were not restored and lack no required
    input, on their inputs in the solution.
  \<^item> Streams: channels are bounded queues under every interleaving, no wake-up is lost, a declared
    deadlock is real, a deadlock of readers of one channel is always declared, and a cancellation
    is final.
  \<^item> Storage and texts: the buffer refines the store below it, a flush changes nothing one can see,
    the delays are exact, identities survive their texts, the chunks cover the text, and the read
    pool lends each connection once and takes it back without a transaction.
  \<^item> Agents: the filter of a work domain accepts exactly the rows in its vision, composed with the
    reading of the filters; the circular waits of a session are found exactly; a range of npm accepts
    the versions its operators name, and a version before a release only when it is named.
  \<^item> Some theorems state where the code does less than its comments say: index names that collide,
    unbound conditions accepted, a deadlock that is missed, a fan-out that panics, the window of a
    flush, a core that cuts a character, a transaction that goes back to the pool, a \<open>must_not\<close> of two
    conditions that matches where one holds, a PostgreSQL filter that joins a table no statement
    creates, a fusion that rewrites a longer parameter name, an exclusion the description hides,
    versions npm orders otherwise, a run that was stopped and cannot be resumed, and a resumed run
    that lacks the outputs of the nodes it restored.

  \<^bold>\<open>Bounds, fuel and termination.\<close> Every definition is total. The unfolding of named conditions
  takes a fuel equal to their number, and a checked plan always finishes within it; Kahn's loop
  runs once per node; the skips of a level end because the nodes left shrink, and the loop of levels
  is bounded by \<open>max_iterations\<close> as in the code; the loops of the chunker and of the texts have measures. Row identities,
  instants and components of versions are 64-bit words; sizes of texts and of configurations are naturals, far below \<open>2^64\<close>.

  \<^bold>\<open>Parameters.\<close> The word that stands for NULL in a CSV file (drawn once per process) and the
  batches of PostgreSQL are arguments of the two dialects. The truth of an atom of a clause is the
  database's: the theorems on texts hold for every judgement of the atoms that reads \<open>AND\<close>, \<open>OR\<close> and
  \<open>NOT\<close> over two values; a condition on NULL is one atom. Messages are written without accents. The dialect and the connection of a run, the factories and JSON configurations of
  the nodes, the blob store of \<open>lucivy_core\<close>, the splitters of \<open>text-splitter\<close>, the derived JSON
  readers, what the nodes of a graph do, the encoding of saved values and what each look at the cancellation of a run sees are arguments of the definitions; what is assumed of them is a named hypothesis of the
  theorems that need it (\<open>repeats\<close>: a node that succeeds gives what it gave before; \<open>judged\<close>, \<open>transactional\<close>, \<open>blob_store\<close>, \<open>saves_all\<close>, \<open>splits_texts\<close>, \<open>engine_ok\<close>, \<open>stays_cancelled\<close>), each with an
  instance that satisfies it.

  \<^bold>\<open>Not modelled.\<close> The C++ engine, the generated tensor code, the bindings and the interface are
  not this program's logic. The catalog, the backends, the agents, the daemon and the bodies of
  the nodes are calls to databases, models, processes and files. Of the dialects, the batches of
  PostgreSQL, the vector indexes, the snapshots of tables and the resolution of row offsets are left
  out: texts whose meaning is the server's. Of the other modelled files, the timed variants of the hub, its
  bindings to nodes, the concurrent executor, the undo contexts of a node, the store of checkpoints in the
  database, batch payloads, the verbs a snapshot passes on unchanged and the displays of
  errors are left out.

  \<^bold>\<open>Next.\<close> The concurrent executor over the hub, and the bindings of channels to nodes.
\<close>

end
